(* ===== verification/Prelude.thy ===== *)
theory Prelude
  imports Complex_Main "HOL-Library.AList" "HOL-Library.Sublist" "HOL-Library.Char_ord"
begin

text \<open>
  Shared ground of the development: the value universe of the Web UI scripts, the parts of
  the JavaScript standard library that the scripts use (ordered maps and sets, the stable
  array sort, string splitting and searching, number printing and parsing), the interface
  \<open>comparator_on\<close> for comparison callbacks, and the collections of rewrite rules that the
  component theories share.

  Strings are HOL strings, one \<open>char\<close> per byte of the UTF-8 text; the operations below only
  cut at ASCII characters, where bytes and UTF-16 code units agree. Numbers are exact
  rationals; the value NaN is \<open>None\<close> in a \<open>rat option\<close>.
\<close>

named_theorems map_simps \<open>lookup after update and delete in the ordered maps\<close>
named_theorems set_simps \<open>membership after add and delete in the ordered sets\<close>
named_theorems cmp_simps \<open>unfolding of comparison callbacks\<close>

section \<open>Values\<close>

datatype jsval =
    JUndef
  | JNull
  | JBool bool
  | JNum rat
  | JStr string
  | JArr "jsval list"
  | JObj "(string \<times> jsval) list"

type_synonym jsobj = "(string \<times> jsval) list"

text \<open>Failures that a script turns into a thrown value.\<close>

datatype js_error = TypeError | ReferenceError | SyntaxError | RangeError

section \<open>Ordered maps and sets\<close>

text \<open>
  A \<open>Map\<close> iterates in insertion order, and storing under a present key keeps its place:
  an association list with distinct keys, stored into by \<open>AList.update\<close>.
\<close>

type_synonym ('k, 'v) jsmap = "('k \<times> 'v) list"

abbreviation map_get :: "('k, 'v) jsmap \<Rightarrow> 'k \<Rightarrow> 'v option" where
  "map_get \<equiv> map_of"

abbreviation map_set :: "'k \<Rightarrow> 'v \<Rightarrow> ('k, 'v) jsmap \<Rightarrow> ('k, 'v) jsmap" where
  "map_set \<equiv> AList.update"

abbreviation map_delete :: "'k \<Rightarrow> ('k, 'v) jsmap \<Rightarrow> ('k, 'v) jsmap" where
  "map_delete \<equiv> AList.delete"

definition map_has :: "('k, 'v) jsmap \<Rightarrow> 'k \<Rightarrow> bool" where
  "map_has m k \<longleftrightarrow> k \<in> set (map fst m)"

abbreviation keys :: "('k, 'v) jsmap \<Rightarrow> 'k list" where
  "keys m \<equiv> map fst m"

abbreviation distinct_keys :: "('k, 'v) jsmap \<Rightarrow> bool" where
  "distinct_keys m \<equiv> distinct (map fst m)"

lemma map_get_set [simp, map_simps]: "map_get (map_set k v m) k' = (if k' = k then Some v else map_get m k')"
  by (simp add: update_conv')

lemma map_get_delete [simp, map_simps]: "map_get (map_delete k m) k' = (if k' = k then None else map_get m k')"
  by (simp add: delete_conv')

lemma map_has_get [map_simps]: "map_has m k \<longleftrightarrow> map_get m k \<noteq> None"
  by (auto simp: map_has_def map_of_eq_None_iff)

lemma distinct_keys_set [intro]: "distinct_keys m \<Longrightarrow> distinct_keys (map_set k v m)"
  by (rule distinct_update)

lemma distinct_keys_delete [intro]: "distinct_keys m \<Longrightarrow> distinct_keys (map_delete k m)"
  by (rule distinct_delete)

lemma keys_set: "keys (map_set k v m) = (if k \<in> set (keys m) then keys m else keys m @ [k])"
  by (rule update_keys)

lemma keys_delete: "keys (map_delete k m) = filter (\<lambda>k'. k' \<noteq> k) (keys m)"
  by (induction m) auto

lemma set_keys_set [simp]: "set (keys (map_set k v m)) = insert k (set (keys m))"
  by (simp add: dom_update)

lemma fst_set_keys_set [simp]: "fst ` set (map_set k v m) = insert k (fst ` set m)"
  using set_keys_set [of k v m] by simp

lemma set_keys_delete [simp]: "set (keys (map_delete k m)) = set (keys m) - {k}"
  by (auto simp: keys_delete)

text \<open>A \<open>Set\<close> keeps insertion order too.\<close>

definition set_add :: "'a \<Rightarrow> 'a list \<Rightarrow> 'a list" where
  "set_add x xs = (if x \<in> set xs then xs else xs @ [x])"

definition set_delete :: "'a \<Rightarrow> 'a list \<Rightarrow> 'a list" where
  "set_delete x xs = filter (\<lambda>y. y \<noteq> x) xs"

definition set_of_list :: "'a list \<Rightarrow> 'a list" where
  "set_of_list xs = foldl (\<lambda>s x. set_add x s) [] xs"

lemma set_set_add [simp, set_simps]: "set (set_add x xs) = insert x (set xs)"
  by (auto simp: set_add_def)

lemma set_set_delete [simp, set_simps]: "set (set_delete x xs) = set xs - {x}"
  by (auto simp: set_delete_def)

lemma distinct_set_add [simp, set_simps]: "distinct (set_add x xs) \<longleftrightarrow> distinct xs"
  by (auto simp: set_add_def)

lemma distinct_set_delete [intro]: "distinct xs \<Longrightarrow> distinct (set_delete x xs)"
  by (simp add: set_delete_def)

lemma set_foldl_set_add [simp]: "set (foldl (\<lambda>s x. set_add x s) s xs) = set s \<union> set xs"
  by (induction xs arbitrary: s) auto

lemma distinct_foldl_set_add [simp]: "distinct (foldl (\<lambda>s x. set_add x s) s xs) \<longleftrightarrow> distinct s"
  by (induction xs arbitrary: s) auto

lemma set_set_of_list [simp, set_simps]: "set (set_of_list xs) = set xs"
  by (simp add: set_of_list_def)

lemma distinct_set_of_list [simp, set_simps]: "distinct (set_of_list xs)"
  by (simp add: set_of_list_def)

lemma foldl_set_add_distinct:
  "distinct xs \<Longrightarrow> set s \<inter> set xs = {} \<Longrightarrow> foldl (\<lambda>s x. set_add x s) s xs = s @ xs"
  by (induction xs arbitrary: s) (auto simp: set_add_def)

lemma set_of_list_distinct [simp]: "distinct xs \<Longrightarrow> set_of_list xs = xs"
  by (simp add: set_of_list_def foldl_set_add_distinct)

lemma sum_list_concat: "sum_list (concat xss) = sum_list (map sum_list xss)"
  by (induction xss) simp_all

section \<open>Comparison callbacks and the array sort\<close>

text \<open>
  A comparison callback returns a number whose sign is the answer. \<open>Array.prototype.sort\<close> is
  stable and, for a callback that is consistent on the elements of the array, its result is
  determined; insertion that keeps the order of equal elements computes it.
\<close>

type_synonym 'a cmp = "'a \<Rightarrow> 'a \<Rightarrow> int"

locale comparator_on =
  fixes A :: "'a set" and cmp :: "'a cmp"
  assumes cmp_refl: "x \<in> A \<Longrightarrow> cmp x x = 0"
    and cmp_sym: "x \<in> A \<Longrightarrow> y \<in> A \<Longrightarrow> sgn (cmp x y) = - sgn (cmp y x)"
    and cmp_trans: "x \<in> A \<Longrightarrow> y \<in> A \<Longrightarrow> z \<in> A \<Longrightarrow> cmp x y \<le> 0 \<Longrightarrow> cmp y z \<le> 0 \<Longrightarrow> cmp x z \<le> 0"

fun js_insert :: "'a cmp \<Rightarrow> 'a \<Rightarrow> 'a list \<Rightarrow> 'a list" where
  "js_insert cmp x [] = [x]"
| "js_insert cmp x (y # ys) = (if cmp x y \<le> 0 then x # y # ys else y # js_insert cmp x ys)"

definition js_sort :: "'a cmp \<Rightarrow> 'a list \<Rightarrow> 'a list" where
  "js_sort cmp xs = foldr (js_insert cmp) xs []"

lemma js_sort_simps [simp]:
  "js_sort cmp [] = []"
  "js_sort cmp (x # xs) = js_insert cmp x (js_sort cmp xs)"
  by (simp_all add: js_sort_def)

lemma set_js_insert [simp]: "set (js_insert cmp x xs) = insert x (set xs)"
  by (induction xs) auto

lemma set_js_sort [simp]: "set (js_sort cmp xs) = set xs"
  by (induction xs) auto

lemma length_js_insert [simp]: "length (js_insert cmp x xs) = Suc (length xs)"
  by (induction xs) auto

lemma length_js_sort [simp]: "length (js_sort cmp xs) = length xs"
  by (induction xs) auto

lemma count_js_insert: "count_list (js_insert cmp x xs) y = count_list (x # xs) y"
  by (induction xs) auto

lemma count_js_sort [simp]: "count_list (js_sort cmp xs) y = count_list xs y"
  by (induction xs) (auto simp: count_js_insert)

lemma distinct_js_insert [simp]: "distinct (js_insert cmp x xs) \<longleftrightarrow> x \<notin> set xs \<and> distinct xs"
  by (induction xs) auto

lemma distinct_js_sort [simp]: "distinct (js_sort cmp xs) \<longleftrightarrow> distinct xs"
  by (induction xs) auto

lemma js_sort_map:
  "(\<And>x y. x \<in> set xs \<Longrightarrow> y \<in> set xs \<Longrightarrow> cmp' (f x) (f y) = cmp x y) \<Longrightarrow>
     js_sort cmp' (map f xs) = map f (js_sort cmp xs)"
proof (induction xs)
  case Nil
  show ?case by simp
next
  case (Cons x xs)
  have ins: "set ys \<subseteq> set xs \<Longrightarrow> js_insert cmp' (f x) (map f ys) = map f (js_insert cmp x ys)" for ys
    using Cons.prems by (induction ys) auto
  from Cons show ?case by (simp add: ins)
qed

context comparator_on
begin

abbreviation le :: "'a \<Rightarrow> 'a \<Rightarrow> bool" where
  "le x y \<equiv> cmp x y \<le> 0"

lemma le_total: "x \<in> A \<Longrightarrow> y \<in> A \<Longrightarrow> le x y \<or> le y x"
  using cmp_sym [of x y] by (auto simp: sgn_if split: if_splits)

lemma not_le_imp: "x \<in> A \<Longrightarrow> y \<in> A \<Longrightarrow> \<not> le x y \<Longrightarrow> le y x"
  using le_total by blast

lemma cmp_zero_sym: "x \<in> A \<Longrightarrow> y \<in> A \<Longrightarrow> cmp x y = 0 \<longleftrightarrow> cmp y x = 0"
  using cmp_sym [of x y] by (auto simp: sgn_if split: if_splits)

lemma cmp_zero_iff: "x \<in> A \<Longrightarrow> y \<in> A \<Longrightarrow> cmp x y = 0 \<longleftrightarrow> le x y \<and> le y x"
  using cmp_sym [of x y] by (auto simp: sgn_if split: if_splits)

lemma sorted_js_insert:
  "x \<in> A \<Longrightarrow> set xs \<subseteq> A \<Longrightarrow> sorted_wrt le xs \<Longrightarrow> sorted_wrt le (js_insert cmp x xs)"
proof (induction xs)
  case Nil
  then show ?case by simp
next
  case (Cons y ys)
  show ?case
  proof (cases "le x y")
    case True
    then show ?thesis using Cons.prems by (auto intro: cmp_trans [of x y])
  next
    case False
    then have "le y x" using Cons.prems not_le_imp [of x y] by auto
    then show ?thesis using Cons False by auto
  qed
qed

lemma sorted_js_sort: "set xs \<subseteq> A \<Longrightarrow> sorted_wrt le (js_sort cmp xs)"
  by (induction xs) (auto intro!: sorted_js_insert)

lemma filter_eq_js_insert:
  assumes "x \<in> A" "z \<in> A" "set xs \<subseteq> A" "sorted_wrt le xs"
  shows "filter (\<lambda>y. cmp z y = 0) (js_insert cmp x xs) = filter (\<lambda>y. cmp z y = 0) (x # xs)"
  using assms
proof (induction xs)
  case Nil
  then show ?case by simp
next
  case (Cons y ys)
  have eq: False if xy: "\<not> le x y" and zx: "cmp z x = 0" and zy: "cmp z y = 0"
  proof -
    have "le x z" "le z y" using Cons.prems zx zy cmp_zero_sym [of z x] by auto
    then have "le x y" using Cons.prems cmp_trans [of x z y] by auto
    with xy show False by simp
  qed
  from Cons eq show ?case by auto
qed

text \<open>Stability: the elements that compare equal to a given one keep their relative order.\<close>

lemma stable_js_sort:
  "z \<in> A \<Longrightarrow> set xs \<subseteq> A \<Longrightarrow> filter (\<lambda>y. cmp z y = 0) (js_sort cmp xs) = filter (\<lambda>y. cmp z y = 0) xs"
proof (induction xs)
  case Nil
  show ?case by simp
next
  case (Cons x xs)
  then have "filter (\<lambda>y. cmp z y = 0) (js_insert cmp x (js_sort cmp xs))
      = filter (\<lambda>y. cmp z y = 0) (x # js_sort cmp xs)"
    by (intro filter_eq_js_insert) (auto intro!: sorted_js_sort)
  with Cons show ?case by simp
qed

lemma js_insert_front: "(\<forall>y \<in> set xs. le x y) \<Longrightarrow> js_insert cmp x xs = x # xs"
  by (cases xs) auto

text \<open>Sorting a sorted array changes nothing.\<close>

lemma js_sort_sorted: "sorted_wrt le xs \<Longrightarrow> js_sort cmp xs = xs"
  by (induction xs) (auto simp: js_insert_front)

lemma js_sort_idem: "set xs \<subseteq> A \<Longrightarrow> js_sort cmp (js_sort cmp xs) = js_sort cmp xs"
  by (intro js_sort_sorted sorted_js_sort)

lemma comparator_reverse: "comparator_on A (\<lambda>x y. - cmp x y)"
proof
  fix x y z
  assume A: "x \<in> A" "y \<in> A"
  show "sgn (- cmp x y) = - sgn (- cmp y x)" using cmp_sym [OF A] by simp
  assume z: "z \<in> A" and le: "- cmp x y \<le> 0" "- cmp y z \<le> 0"
  have "le y x" "le z y"
    using le cmp_sym [OF A] cmp_sym [OF A(2) z] by (auto simp: sgn_if split: if_splits)
  then have "le z x" using A z cmp_trans by blast
  then show "- cmp x z \<le> 0" using cmp_sym [OF A(1) z] by (auto simp: sgn_if split: if_splits)
qed (simp add: cmp_refl)

end

lemma comparator_on_pullback:
  assumes "comparator_on B cmp" and "\<And>x. x \<in> A \<Longrightarrow> f x \<in> B"
  shows "comparator_on A (\<lambda>x y. cmp (f x) (f y))"
proof -
  show ?thesis
  proof
    fix x y z
    assume x: "x \<in> A"
    show "cmp (f x) (f x) = 0"
      using assms x by (simp add: comparator_on.cmp_refl)
    assume y: "y \<in> A"
    show "sgn (cmp (f x) (f y)) = - sgn (cmp (f y) (f x))"
      using assms(2) x y by (intro comparator_on.cmp_sym [OF assms(1)])
    assume z: "z \<in> A" and "cmp (f x) (f y) \<le> 0" "cmp (f y) (f z) \<le> 0"
    then show "cmp (f x) (f z) \<le> 0"
      using comparator_on.cmp_trans [OF assms(1), of "f x" "f y" "f z"] assms(2) x y by simp
  qed
qed

lemma comparator_on_cong:
  assumes "comparator_on A c" and eq: "\<And>x y. x \<in> A \<Longrightarrow> y \<in> A \<Longrightarrow> c' x y = c x y"
  shows "comparator_on A c'"
proof
  fix x y z
  assume x: "x \<in> A"
  show "c' x x = 0" using comparator_on.cmp_refl [OF assms(1) x] x by (simp add: eq)
  assume y: "y \<in> A"
  show "sgn (c' x y) = - sgn (c' y x)"
    using comparator_on.cmp_sym [OF assms(1) x y] x y by (simp only: eq)
  assume z: "z \<in> A" and "c' x y \<le> 0" "c' y z \<le> 0"
  then show "c' x z \<le> 0" using comparator_on.cmp_trans [OF assms(1) x y z] x y by (simp only: eq)
qed

text \<open>Compare by one key, and by a second where the first ties.\<close>

definition then_cmp :: "'a cmp \<Rightarrow> 'a cmp \<Rightarrow> 'a cmp" where
  "then_cmp c1 c2 x y = (let r = c1 x y in if r \<noteq> 0 then r else c2 x y)"

lemma comparator_on_then:
  assumes "comparator_on A c1" and "comparator_on A c2"
  shows "comparator_on A (then_cmp c1 c2)"
proof
  fix x y z
  assume x: "x \<in> A"
  show "then_cmp c1 c2 x x = 0"
    using assms x by (simp add: then_cmp_def comparator_on.cmp_refl)
  assume y: "y \<in> A"
  note z1 = comparator_on.cmp_zero_sym [OF assms(1)]
  show "sgn (then_cmp c1 c2 x y) = - sgn (then_cmp c1 c2 y x)"
    using x y z1 [of x y] comparator_on.cmp_sym [OF assms(1) x y] comparator_on.cmp_sym [OF assms(2) x y]
    by (simp add: then_cmp_def Let_def)
  assume z: "z \<in> A" and le: "then_cmp c1 c2 x y \<le> 0" "then_cmp c1 c2 y z \<le> 0"
  note t1 = comparator_on.cmp_trans [OF assms(1)] and t2 = comparator_on.cmp_trans [OF assms(2)]
  have le1: "c1 x y \<le> 0" "c1 y z \<le> 0"
    using le by (auto simp: then_cmp_def Let_def split: if_splits)
  show "then_cmp c1 c2 x z \<le> 0"
  proof (cases "c1 x z = 0")
    case False
    then show ?thesis using t1 [OF x y z le1] by (simp add: then_cmp_def Let_def)
  next
    case True
    then have zx: "c1 z x = 0" using z1 x z by blast
    have "c1 y x \<le> 0" using t1 [OF y z x le1(2)] zx by simp
    moreover have "c1 z y \<le> 0" using t1 [OF z x y] zx le1(1) by simp
    ultimately have "c1 x y = 0" "c1 y z = 0"
      using le1 x y z comparator_on.cmp_zero_iff [OF assms(1)] by auto
    with le have "c2 x y \<le> 0" "c2 y z \<le> 0" by (simp_all add: then_cmp_def)
    then show ?thesis using True t2 [OF x y z] by (simp add: then_cmp_def)
  qed
qed

lemma subseq_set: "subseq xs ys \<Longrightarrow> set xs \<subseteq> set ys"
  by (induction rule: list_emb.induct) auto

lemma subseq_distinct: "subseq xs ys \<Longrightarrow> distinct ys \<Longrightarrow> distinct xs"
  by (induction rule: list_emb.induct) (auto dest: subseq_set)

end
