(* ===== verification/JsString.thy ===== *)
theory JsString
  imports Prelude
begin

text \<open>
  String operations of the JavaScript standard library as the Web UI scripts use them:
  \<open>split\<close>, \<open>join\<close>, \<open>includes\<close>, \<open>startsWith\<close>, \<open>trim\<close>, \<open>toLowerCase\<close> (on ASCII letters),
  \<open>lastIndexOf\<close>, \<open>substring\<close>, \<open>replace\<close> with a string pattern, and the conversions between
  numbers and strings (\<open>Number\<close> on decimal literals, \<open>Number.prototype.toString\<close>).
\<close>

section \<open>Searching and cutting\<close>

fun js_includes :: "string \<Rightarrow> string \<Rightarrow> bool" where
  "js_includes [] t \<longleftrightarrow> t = []"
| "js_includes (c # s) t \<longleftrightarrow> prefix t (c # s) \<or> js_includes s t"

abbreviation startsWith :: "string \<Rightarrow> string \<Rightarrow> bool" where
  "startsWith s p \<equiv> prefix p s"

abbreviation endsWith :: "string \<Rightarrow> string \<Rightarrow> bool" where
  "endsWith s p \<equiv> suffix p s"

definition substring_from :: "nat \<Rightarrow> string \<Rightarrow> string" where
  "substring_from i s = drop i s"

definition js_substring :: "nat \<Rightarrow> nat \<Rightarrow> string \<Rightarrow> string" where
  "js_substring i j s = take (j - i) (drop i s)"

fun lastIndexOf_from :: "nat \<Rightarrow> char \<Rightarrow> string \<Rightarrow> int" where
  "lastIndexOf_from i c [] = -1"
| "lastIndexOf_from i c (d # s) =
     (let r = lastIndexOf_from (Suc i) c s in if r \<noteq> -1 then r else if d = c then int i else -1)"

definition lastIndexOf :: "char \<Rightarrow> string \<Rightarrow> int" where
  "lastIndexOf c s = lastIndexOf_from 0 c s"

lemma js_includes_sublist: "js_includes s t \<longleftrightarrow> sublist t s"
  by (induction s) (auto simp: sublist_Cons_right)

lemma js_includes_refl [simp]: "js_includes s s"
  by (simp add: js_includes_sublist)

lemma lastIndexOf_from_none: "c \<notin> set s \<longleftrightarrow> lastIndexOf_from i c s = -1"
  by (induction s arbitrary: i) (auto simp: Let_def)

lemma lastIndexOf_from_last:
  "c \<notin> set t \<Longrightarrow> lastIndexOf_from i c (s @ c # t) = int (i + length s)"
proof (induction s arbitrary: i)
  case Nil
  then show ?case using lastIndexOf_from_none [of c t "Suc i"] by (simp add: Let_def)
next
  case (Cons d s)
  then show ?case by (simp add: Let_def)
qed

lemma lastIndexOf_none: "lastIndexOf c s = -1 \<longleftrightarrow> c \<notin> set s"
  using lastIndexOf_from_none [of c s 0] by (simp add: lastIndexOf_def)

lemma lastIndexOf_last: "c \<notin> set t \<Longrightarrow> lastIndexOf c (s @ c # t) = int (length s)"
  using lastIndexOf_from_last [of c t 0 s] by (simp add: lastIndexOf_def)

section \<open>Splitting and joining\<close>

text \<open>\<open>split_go sep acc s\<close>: the pieces of \<open>s\<close>, the current one held reversed in \<open>acc\<close>.\<close>

function split_go :: "string \<Rightarrow> string \<Rightarrow> string \<Rightarrow> string list" where
  "split_go sep acc s =
     (if s = [] then [rev acc]
      else if sep \<noteq> [] \<and> prefix sep s then rev acc # split_go sep [] (drop (length sep) s)
      else split_go sep (hd s # acc) (tl s))"
  by pat_completeness auto
termination
  by (relation "measure (\<lambda>(sep, acc, s). length s)") (auto simp: prefix_def)

declare split_go.simps [simp del]

definition js_split :: "string \<Rightarrow> string \<Rightarrow> string list" where
  "js_split sep s = split_go sep [] s"

fun js_join :: "string \<Rightarrow> string list \<Rightarrow> string" where
  "js_join sep [] = []"
| "js_join sep [x] = x"
| "js_join sep (x # y # ys) = x @ sep @ js_join sep (y # ys)"

lemma split_go_Nil [simp]: "split_go sep acc [] = [rev acc]"
  by (subst split_go.simps) simp

lemma split_go_Cons:
  "split_go sep acc (c # s) =
     (if sep \<noteq> [] \<and> prefix sep (c # s) then rev acc # split_go sep [] (drop (length sep) (c # s))
      else split_go sep (c # acc) s)"
  by (subst split_go.simps) simp

lemma split_go_nonempty [simp]: "split_go sep acc s \<noteq> []"
  by (induction sep acc s rule: split_go.induct) (subst split_go.simps, simp)

lemma js_join_Cons: "xs \<noteq> [] \<Longrightarrow> js_join sep (x # xs) = x @ sep @ js_join sep xs"
  by (cases xs) auto

lemma js_join_split_go: "js_join sep (split_go sep acc s) = rev acc @ s"
proof (induction sep acc s rule: split_go.induct)
  case (1 sep acc s)
  consider "s = []" | "s \<noteq> []" "sep \<noteq> [] \<and> prefix sep s" | "s \<noteq> []" "\<not> (sep \<noteq> [] \<and> prefix sep s)"
    by blast
  then show ?case
  proof cases
    case 1
    then show ?thesis by simp
  next
    case 2
    then have "sep @ drop (length sep) s = s" by (auto simp: prefix_def)
    with 2 "1.IH"(1) show ?thesis by (subst split_go.simps) (simp add: js_join_Cons)
  next
    case 3
    with "1.IH"(2) show ?thesis by (subst split_go.simps) (simp add: 3(2))
  qed
qed

theorem js_join_split: "js_join sep (js_split sep s) = s"
  by (simp add: js_split_def js_join_split_go)

lemma split_go_run:
  "c \<notin> set x \<Longrightarrow> split_go (c # cs) acc (x @ s) = split_go (c # cs) (rev x @ acc) s"
  by (induction x arbitrary: acc) (auto simp: split_go_Cons)

lemma split_go_join:
  "xs \<noteq> [] \<Longrightarrow> \<forall>x \<in> set xs. c \<notin> set x \<Longrightarrow> split_go (c # cs) [] (js_join (c # cs) xs) = xs"
proof (induction xs)
  case Nil
  then show ?case by simp
next
  case (Cons x xs)
  show ?case
  proof (cases xs)
    case Nil
    then show ?thesis using Cons.prems split_go_run [of c x cs "[]" "[]"] by simp
  next
    case (Cons y ys)
    then have "split_go (c # cs) [] (js_join (c # cs) xs) = xs"
      using Cons.IH Cons.prems by simp
    then show ?thesis
      using Cons Cons.prems split_go_run [of c x cs "[]"]
      by (simp add: js_join_Cons split_go_Cons)
  qed
qed

lemma js_split_join:
  "xs \<noteq> [] \<Longrightarrow> \<forall>x \<in> set xs. c \<notin> set x \<Longrightarrow> js_split (c # cs) (js_join (c # cs) xs) = xs"
  by (simp add: js_split_def split_go_join)

lemma js_split_no_sep: "c \<notin> set s \<Longrightarrow> js_split (c # cs) s = [s]"
  using js_split_join [of "[s]" c cs] by simp

lemma js_split_nonempty [simp]: "js_split sep s \<noteq> []"
  by (simp add: js_split_def)

section \<open>Case and white space\<close>

definition lower_char :: "char \<Rightarrow> char" where
  "lower_char c = (let n = of_char c :: nat in if 65 \<le> n \<and> n \<le> 90 then char_of (n + 32) else c)"

definition toLowerCase :: "string \<Rightarrow> string" where
  "toLowerCase s = map lower_char s"

definition is_space :: "char \<Rightarrow> bool" where
  "is_space c = (let n = of_char c :: nat in n = 32 \<or> (9 \<le> n \<and> n \<le> 13))"

definition js_trim :: "string \<Rightarrow> string" where
  "js_trim s = rev (dropWhile is_space (rev (dropWhile is_space s)))"

lemma of_char_lower_char:
  "(of_char (lower_char c) :: nat) =
     (let n = of_char c :: nat in if 65 \<le> n \<and> n \<le> 90 then n + 32 else n)"
  by (simp add: lower_char_def Let_def)

lemma lower_char_idem [simp]: "lower_char (lower_char c) = lower_char c"
proof (cases "65 \<le> (of_char c :: nat) \<and> (of_char c :: nat) \<le> 90")
  case True
  then show ?thesis by (simp add: lower_char_def [of "lower_char c"] of_char_lower_char Let_def)
next
  case False
  then have "lower_char c = c" by (auto simp: lower_char_def Let_def)
  then show ?thesis by simp
qed

lemma toLowerCase_idem [simp]: "toLowerCase (toLowerCase s) = toLowerCase s"
  by (simp add: toLowerCase_def)

lemma js_trim_Nil [simp]: "js_trim [] = []"
  by (simp add: js_trim_def)

section \<open>Replacing the first occurrence\<close>

fun js_replace :: "string \<Rightarrow> string \<Rightarrow> string \<Rightarrow> string" where
  "js_replace pat rep [] = (if pat = [] then rep else [])"
| "js_replace pat rep (c # s) =
     (if prefix pat (c # s) then rep @ drop (length pat) (c # s) else c # js_replace pat rep s)"

section \<open>Numbers and strings\<close>

definition digit_char :: "nat \<Rightarrow> char" where
  "digit_char d = char_of (48 + d)"

definition is_digit :: "char \<Rightarrow> bool" where
  "is_digit c = (let n = of_char c :: nat in 48 \<le> n \<and> n \<le> 57)"

definition digit_val :: "char \<Rightarrow> nat" where
  "digit_val c = of_char c - 48"

fun nat_str :: "nat \<Rightarrow> string" where
  "nat_str n = (if n < 10 then [digit_char n] else nat_str (n div 10) @ [digit_char (n mod 10)])"

declare nat_str.simps [simp del]

definition int_str :: "int \<Rightarrow> string" where
  "int_str i = (if i < 0 then ''-'' @ nat_str (nat (- i)) else nat_str (nat i))"

definition digits_val :: "string \<Rightarrow> nat" where
  "digits_val ds = foldl (\<lambda>a c. 10 * a + digit_val c) 0 ds"

lemma digit_val_char [simp]: "d < 10 \<Longrightarrow> digit_val (digit_char d) = d"
  by (simp add: digit_val_def digit_char_def)

lemma is_digit_char [simp]: "d < 10 \<Longrightarrow> is_digit (digit_char d)"
  by (simp add: is_digit_def digit_char_def)

lemma digits_val_Nil [simp]: "digits_val [] = 0"
  by (simp add: digits_val_def)

lemma digits_val_snoc [simp]: "digits_val (ds @ [c]) = 10 * digits_val ds + digit_val c"
  by (simp add: digits_val_def)

lemma digits_val_append: "digits_val (xs @ ys) = digits_val xs * 10 ^ length ys + digits_val ys"
  by (induction ys rule: rev_induct) (auto simp: append_assoc [symmetric] algebra_simps simp del: append_assoc)

lemma nat_str_nonempty [simp]: "nat_str n \<noteq> []"
  by (subst nat_str.simps) simp

lemma nat_str_digits: "c \<in> set (nat_str n) \<Longrightarrow> is_digit c"
proof (induction n rule: nat_str.induct)
  case (1 n)
  then show ?case by (cases "n < 10") (auto simp: nat_str.simps [of n])
qed

theorem digits_val_nat_str [simp]: "digits_val (nat_str n) = n"
proof (induction n rule: nat_str.induct)
  case (1 n)
  show ?case
  proof (cases "n < 10")
    case True
    then show ?thesis using digits_val_snoc [of "[]"] by (simp add: nat_str.simps [of n])
  next
    case False
    with 1 show ?thesis by (simp add: nat_str.simps [of n])
  qed
qed

lemma nat_str_inj: "nat_str m = nat_str n \<Longrightarrow> m = n"
  by (metis digits_val_nat_str)

text \<open>
  \<open>js_Number\<close> is \<open>Number(s)\<close> on decimal literals: white space trimmed, the empty string is
  0, an optional sign, digits with an optional fraction, an optional exponent; anything else
  is NaN. (Hexadecimal, octal and binary literals and \<open>Infinity\<close> do not occur in the data
  the scripts convert and are NaN here.)
\<close>

definition js_exponent :: "string \<Rightarrow> int option" where
  "js_exponent s =
     (case s of
        [] \<Rightarrow> None
      | c # r \<Rightarrow>
          if c = CHR ''-'' \<and> r \<noteq> [] \<and> list_all is_digit r then Some (- int (digits_val r))
          else if c = CHR ''+'' \<and> r \<noteq> [] \<and> list_all is_digit r then Some (int (digits_val r))
          else if list_all is_digit s then Some (int (digits_val s)) else None)"

definition pow10 :: "int \<Rightarrow> rat" where
  "pow10 e = (if 0 \<le> e then 10 ^ nat e else 1 / 10 ^ nat (- e))"

definition js_unsigned :: "string \<Rightarrow> rat option" where
  "js_unsigned s =
     (let ip = takeWhile is_digit s; s1 = dropWhile is_digit s;
          fp = (case s1 of [] \<Rightarrow> [] | c # r \<Rightarrow> if c = CHR ''.'' then takeWhile is_digit r else []);
          s2 = (case s1 of [] \<Rightarrow> [] | c # r \<Rightarrow> if c = CHR ''.'' then dropWhile is_digit r else s1);
          m = of_nat (digits_val ip) + of_nat (digits_val fp) / 10 ^ length fp
      in if ip = [] \<and> fp = [] then None
         else case s2 of
             [] \<Rightarrow> Some m
           | c # r \<Rightarrow> if c = CHR ''e'' \<or> c = CHR ''E''
                     then map_option (\<lambda>e. m * pow10 e) (js_exponent r) else None)"

definition js_Number :: "string \<Rightarrow> rat option" where
  "js_Number s =
     (case js_trim s of
        [] \<Rightarrow> Some 0
      | c # r \<Rightarrow> if c = CHR ''-'' then map_option uminus (js_unsigned r)
                else if c = CHR ''+'' then js_unsigned r else js_unsigned (c # r))"

text \<open>
  \<open>Number.prototype.toString\<close>: plain decimal notation for \<open>1e-6 \<le> |x| < 1e21\<close> and for 0,
  exponent notation otherwise. At most 25 fractional digits are produced, which covers the
  17 significant digits of a double in that range; in exponent notation the exponent is
  searched up to 400, beyond the range of a double.
\<close>

fun frac_digits :: "nat \<Rightarrow> rat \<Rightarrow> string" where
  "frac_digits 0 r = []"
| "frac_digits (Suc n) r =
     (if r = 0 then []
      else let d = nat \<lfloor>10 * r\<rfloor> in digit_char d # frac_digits n (10 * r - of_nat d))"

definition dec_str :: "rat \<Rightarrow> string" where
  "dec_str x =
     (let i = nat \<lfloor>x\<rfloor>; f = frac_digits 25 (x - of_nat i)
      in nat_str i @ (if f = [] then [] else CHR ''.'' # f))"

fun exp_down :: "nat \<Rightarrow> nat \<Rightarrow> rat \<Rightarrow> nat \<times> rat" where
  "exp_down 0 k x = (k, x)"
| "exp_down (Suc n) k x = (if x < 1 then exp_down n (Suc k) (10 * x) else (k, x))"

fun exp_up :: "nat \<Rightarrow> nat \<Rightarrow> rat \<Rightarrow> nat \<times> rat" where
  "exp_up 0 k x = (k, x)"
| "exp_up (Suc n) k x = (if 10 \<le> x then exp_up n (Suc k) (x / 10) else (k, x))"

definition abs_str :: "rat \<Rightarrow> string" where
  "abs_str x =
     (if x \<noteq> 0 \<and> x < 1 / 10 ^ 6
      then (let (k, m) = exp_down 400 0 x in dec_str m @ ''e-'' @ nat_str k)
      else if 10 ^ 21 \<le> x
      then (let (k, m) = exp_up 400 0 x in dec_str m @ ''e+'' @ nat_str k)
      else dec_str x)"

definition js_num_str :: "rat \<Rightarrow> string" where
  "js_num_str x = (if x < 0 then ''-'' @ abs_str (- x) else abs_str x)"

lemma frac_digits_zero [simp]: "frac_digits n 0 = []"
  by (cases n) auto

lemma abs_str_plain: "x = 0 \<or> 1 / 10 ^ 6 \<le> x \<Longrightarrow> x < 10 ^ 21 \<Longrightarrow> abs_str x = dec_str x"
  by (auto simp: abs_str_def)

lemma dec_str_nat: "dec_str (of_nat n) = nat_str n"
  by (simp add: dec_str_def)

lemma js_num_str_nat: "n < 10 ^ 21 \<Longrightarrow> js_num_str (of_nat n) = nat_str n"
proof -
  assume "n < 10 ^ 21"
  then have b: "(of_nat n :: rat) < 10 ^ 21"
    by (metis of_nat_less_iff of_nat_numeral of_nat_power)
  have "(of_nat n :: rat) = 0 \<or> (1 :: rat) / 10 ^ 6 \<le> of_nat n"
    by (cases n) auto
  then show ?thesis using b by (simp add: js_num_str_def abs_str_plain dec_str_nat)
qed

text \<open>
  Printing and reading back. A number is a decimal here when 25 fractional digits suffice.
\<close>

definition is_decimal :: "rat \<Rightarrow> bool" where
  "is_decimal x \<longleftrightarrow> x * 10 ^ 25 = of_int \<lfloor>x * 10 ^ 25\<rfloor>"

lemma digits_val_Cons: "digits_val (c # ds) = digit_val c * 10 ^ length ds + digits_val ds"
  using digits_val_append [of "[c]" ds] digits_val_snoc [of "[]" c] by simp

lemma frac_digits_correct:
  "0 \<le> r \<Longrightarrow> r < 1 \<Longrightarrow> r * 10 ^ n = of_int k \<Longrightarrow>
     list_all is_digit (frac_digits n r) \<and>
     of_nat (digits_val (frac_digits n r)) / 10 ^ length (frac_digits n r) = r"
proof (induction n arbitrary: r k)
  case 0
  then have "r = of_int k" by simp
  with 0 have "k = 0" by simp
  with \<open>r = of_int k\<close> show ?case by simp
next
  case (Suc n)
  show ?case
  proof (cases "r = 0")
    case True
    then show ?thesis by simp
  next
    case False
    define d where "d = nat \<lfloor>10 * r\<rfloor>"
    define r' where "r' = 10 * r - of_nat d"
    have fl: "0 \<le> \<lfloor>10 * r\<rfloor>" "\<lfloor>10 * r\<rfloor> < 10" using Suc.prems by (simp_all add: floor_less_iff)
    then have d: "d < 10" using nat_less_iff [of "\<lfloor>10 * r\<rfloor>" 10] by (simp add: d_def del: floor_less_numeral)
    have dr: "of_nat d = (of_int \<lfloor>10 * r\<rfloor> :: rat)" using fl(1) by (simp add: d_def)
    have r': "0 \<le> r'" "r' < 1"
      unfolding r'_def dr by linarith+
    have "r' * 10 ^ n = of_int (k - int d * 10 ^ n)"
      using Suc.prems(3) by (simp add: r'_def algebra_simps)
    with Suc.IH [OF r'] have ih: "list_all is_digit (frac_digits n r')"
      "of_nat (digits_val (frac_digits n r')) / 10 ^ length (frac_digits n r') = r'" by blast+
    have f: "frac_digits (Suc n) r = digit_char d # frac_digits n r'"
      using False by (simp add: d_def r'_def Let_def)
    have "(of_nat (digits_val (digit_char d # frac_digits n r')) :: rat)
        / 10 ^ length (digit_char d # frac_digits n r') = (of_nat d + r') / 10"
      using ih(2) d by (simp add: digits_val_Cons field_simps)
    also have "\<dots> = r" by (simp add: r'_def)
    finally show ?thesis unfolding f using ih(1) d by simp
  qed
qed

lemma is_digit_consts [simp]:
  "\<not> is_digit (CHR ''.'')" "\<not> is_digit (CHR ''e'')" "\<not> is_digit (CHR ''-'')" "\<not> is_digit (CHR ''+'')"
  by (simp_all add: is_digit_def)

lemma takeWhile_digits:
  "list_all is_digit xs \<Longrightarrow> takeWhile is_digit (xs @ ys) = xs @ takeWhile is_digit ys"
  "list_all is_digit xs \<Longrightarrow> dropWhile is_digit (xs @ ys) = dropWhile is_digit ys"
  by (induction xs) auto

lemma list_all_nat_str [simp]: "list_all is_digit (nat_str n)"
  using nat_str_digits by (auto simp: list_all_iff)

lemma hd_nat_str: "nat_str n = c # r \<Longrightarrow> is_digit c"
  using nat_str_digits [of c n] by simp

lemma js_exponent_nat_str: "js_exponent (nat_str n) = Some (int n)"
proof -
  obtain c r where cr: "nat_str n = c # r" using nat_str_nonempty [of n] by (cases "nat_str n") auto
  have "is_digit c" using cr by (rule hd_nat_str)
  then have "c \<noteq> CHR ''-''" "c \<noteq> CHR ''+''" by auto
  moreover have "list_all is_digit (c # r)" "digits_val (c # r) = n"
    using cr list_all_nat_str [of n] digits_val_nat_str [of n] by simp_all
  ultimately show ?thesis by (auto simp: js_exponent_def cr)
qed

lemma js_unsigned_dec_str:
  assumes "0 \<le> x" and "is_decimal x"
  shows "js_unsigned (dec_str x) = Some x"
    and "js_unsigned (dec_str x @ ''e'' @ nat_str d) = Some (x * 10 ^ d)"
proof -
  define i where "i = nat \<lfloor>x\<rfloor>"
  define f where "f = frac_digits 25 (x - of_nat i)"
  have i: "of_nat i = (of_int \<lfloor>x\<rfloor> :: rat)" using assms(1) by (simp add: i_def)
  have fr: "0 \<le> x - of_nat i" "x - of_nat i < 1" unfolding i by linarith+
  have "(x - of_nat i) * 10 ^ 25 = of_int (\<lfloor>x * 10 ^ 25\<rfloor> - int i * 10 ^ 25)"
    using assms(2) by (simp add: is_decimal_def left_diff_distrib)
  from frac_digits_correct [OF fr this]
  have f: "list_all is_digit f" "of_nat (digits_val f) / 10 ^ length f = x - of_nat i"
    unfolding f_def by blast+
  have tw: "takeWhile is_digit f = f" "dropWhile is_digit f = []"
    using f(1) by (auto simp: list_all_iff takeWhile_eq_all_conv dropWhile_eq_Nil_conv)
  have tn: "takeWhile is_digit (nat_str i) = nat_str i" "dropWhile is_digit (nat_str i) = []"
    using takeWhile_digits [of "nat_str i" "[]"] by simp_all
  have val: "of_nat i + of_nat (digits_val f) / 10 ^ length f = x" using f(2) by simp
  have ds: "dec_str x = nat_str i @ (if f = [] then [] else CHR ''.'' # f)"
    by (simp add: dec_str_def i_def [symmetric] f_def [symmetric] Let_def)
  show "js_unsigned (dec_str x) = Some x"
    using val by (cases "f = []") (simp_all add: ds js_unsigned_def tn takeWhile_digits tw Let_def)
  show "js_unsigned (dec_str x @ ''e'' @ nat_str d) = Some (x * 10 ^ d)"
    using val by (cases "f = []")
      (simp_all add: ds js_unsigned_def takeWhile_digits f(1) Let_def js_exponent_nat_str pow10_def)
qed

end
