(* ===== verification/JsMisc.thy ===== *)
theory JsMisc
  imports JsString
begin

text \<open>
  \<open>misc.js\<close>, \<open>filesystem.js\<close> and \<open>progressbar.js\<close> of the Web UI: formatting of sizes,
  speeds, durations and percentages, host names of trackers, the term filter used by every
  table, path splitting, debouncing, and the value a progress bar shows. Texts marked for
  translation appear as their English source text.
\<close>

section \<open>Paths (filesystem.js)\<close>

definition PathSeparator :: char where
  "PathSeparator = CHR ''/''"

definition fileExtension :: "string \<Rightarrow> string" where
  "fileExtension filename =
     (let pointIndex = lastIndexOf (CHR ''.'') filename
      in if pointIndex = -1 then [] else substring_from (nat (pointIndex + 1)) filename)"

definition fileName :: "string \<Rightarrow> string" where
  "fileName filepath =
     (let slashIndex = lastIndexOf PathSeparator filepath
      in if slashIndex = -1 then filepath else substring_from (nat (slashIndex + 1)) filepath)"

definition folderName :: "string \<Rightarrow> string" where
  "folderName filepath =
     (let slashIndex = lastIndexOf PathSeparator filepath
      in if slashIndex = -1 then [] else js_substring 0 (nat slashIndex) filepath)"

lemma split_last_sep: "c \<in> set s \<Longrightarrow> \<exists>a b. s = a @ c # b \<and> c \<notin> set b"
  by (metis split_list_last)

lemma fileName_plain: "PathSeparator \<notin> set p \<Longrightarrow> fileName p = p \<and> folderName p = []"
  by (simp add: fileName_def folderName_def lastIndexOf_none Let_def)

lemma fileName_split: "PathSeparator \<notin> set b \<Longrightarrow> fileName (a @ PathSeparator # b) = b"
  by (auto simp: fileName_def Let_def lastIndexOf_last substring_from_def nat_add_distrib)

lemma folderName_split: "PathSeparator \<notin> set b \<Longrightarrow> folderName (a @ PathSeparator # b) = a"
  by (auto simp: folderName_def Let_def lastIndexOf_last js_substring_def)

section \<open>Tracker hosts\<close>

text \<open>
  \<open>urlHostname\<close> stands for the browser's \<open>new URL(s).hostname\<close>; \<open>None\<close> is its exception.
\<close>

definition getHost :: "(string \<Rightarrow> string option) \<Rightarrow> string \<Rightarrow> string" where
  "getHost urlHostname url =
     (let l = toLowerCase url in
      if \<not> (startsWith l ''http:'' \<or> startsWith l ''https:'' \<or> startsWith l ''udp:'') then url
      else case urlHostname (if startsWith l ''udp:'' then ''https:'' @ drop 4 url else url) of
          None \<Rightarrow> url
        | Some host \<Rightarrow> if host = [] then url else host)"

section \<open>Debouncing\<close>

text \<open>
  The handler holds at most one pending timer, with the parameters of the last call. Time is
  in milliseconds; a timer that is due when a call arrives has already fired.
\<close>

record 'p debounce =
  timer :: "(nat \<times> 'p) option"
  invoked :: "'p list"

definition debounce_init :: "'p debounce" where
  "debounce_init = \<lparr>timer = None, invoked = []\<rparr>"

definition debounce_fire :: "nat \<Rightarrow> 'p debounce \<Rightarrow> 'p debounce" where
  "debounce_fire now d =
     (case timer d of
        None \<Rightarrow> d
      | Some (due, p) \<Rightarrow> if due \<le> now then d\<lparr>timer := None, invoked := invoked d @ [p]\<rparr> else d)"

definition debounce_call :: "nat \<Rightarrow> nat \<Rightarrow> 'p \<Rightarrow> 'p debounce \<Rightarrow> 'p debounce" where
  "debounce_call delay now p d = (debounce_fire now d)\<lparr>timer := Some (now + delay, p)\<rparr>"

fun debounce_run :: "nat \<Rightarrow> (nat \<times> 'p) list \<Rightarrow> 'p debounce \<Rightarrow> 'p debounce" where
  "debounce_run delay [] d = d"
| "debounce_run delay ((t, p) # cs) d = debounce_run delay cs (debounce_call delay t p d)"

text \<open>The calls whose quiet period was long enough, when the clock is read at \<open>horizon\<close>.\<close>

fun quiet_calls :: "nat \<Rightarrow> nat \<Rightarrow> (nat \<times> 'p) list \<Rightarrow> 'p list" where
  "quiet_calls delay horizon [] = []"
| "quiet_calls delay horizon [(t, p)] = (if t + delay \<le> horizon then [p] else [])"
| "quiet_calls delay horizon ((t, p) # (t', p') # cs) =
     (if t + delay \<le> t' then [p] else []) @ quiet_calls delay horizon ((t', p') # cs)"

lemma debounce_run_quiet:
  "invoked (debounce_fire horizon (debounce_run delay cs d)) =
     (case timer d of
        None \<Rightarrow> invoked d @ quiet_calls delay horizon cs
      | Some (due, p) \<Rightarrow>
          invoked d @ (if due \<le> (case cs of [] \<Rightarrow> horizon | (t, q) # _ \<Rightarrow> t) then [p] else [])
            @ quiet_calls delay horizon cs)"
proof (induction cs arbitrary: d)
  case Nil
  then show ?case by (auto simp: debounce_fire_def split: option.splits)
next
  case (Cons c cs)
  obtain t p where c: "c = (t, p)" by (cases c)
  have q: "quiet_calls delay horizon ((t, p) # cs) =
      (if t + delay \<le> (case cs of [] \<Rightarrow> horizon | (t, q) # _ \<Rightarrow> t) then [p] else [])
        @ quiet_calls delay horizon cs"
    by (cases cs) auto
  define X where "X = (case cs of [] \<Rightarrow> horizon | (t, q) # _ \<Rightarrow> t)"
  have fire: "invoked (debounce_fire t d) =
      (case timer d of None \<Rightarrow> invoked d | Some (due, p) \<Rightarrow> invoked d @ (if due \<le> t then [p] else []))"
    by (auto simp: debounce_fire_def split: option.splits)
  have "invoked (debounce_fire horizon (debounce_run delay ((t, p) # cs) d)) =
      invoked (debounce_fire t d) @ (if t + delay \<le> X then [p] else []) @ quiet_calls delay horizon cs"
    unfolding debounce_run.simps Cons.IH X_def by (simp add: debounce_call_def)
  then show ?case
    unfolding c q X_def [symmetric] by (cases "timer d") (simp_all add: fire split_beta)
qed

section \<open>Fixed point numbers\<close>

definition js_trunc :: "rat option \<Rightarrow> rat option" where
  "js_trunc v = map_option (\<lambda>x. if x < 0 then - of_int \<lfloor>- x\<rfloor> else of_int \<lfloor>x\<rfloor>) v"

definition num_text :: "rat option \<Rightarrow> string" where
  "num_text v = (case v of None \<Rightarrow> ''NaN'' | Some x \<Rightarrow> js_num_str x)"

definition toFixedPointString :: "rat option \<Rightarrow> int \<Rightarrow> string" where
  "toFixedPointString number digits =
     (case number of
        None \<Rightarrow> ''NaN''
      | Some x \<Rightarrow>
          let sign = (if x < 0 then ''-'' else '''');
              tmp = num_text (js_trunc (js_Number (js_num_str \<bar>x\<bar> @ ''e'' @ int_str digits)))
          in if digits \<le> 0 then (if tmp = ''0'' then tmp else sign @ tmp)
             else if digits < int (length tmp)
             then (let idx = length tmp - nat digits
                   in sign @ take idx tmp @ ''.'' @ drop idx tmp)
             else sign @ ''0.'' @ replicate (nat digits - length tmp) (CHR ''0'') @ tmp)"

lemma js_trim_digits:
  assumes "s \<noteq> []" "\<not> is_space (hd s)" "\<not> is_space (last s)"
  shows "js_trim s = s"
proof -
  have "dropWhile is_space s = s" using assms(1,2) by (cases s) auto
  moreover have "dropWhile is_space (rev s) = rev s"
    using assms(1,3) by (cases s rule: rev_cases) auto
  ultimately show ?thesis by (simp add: js_trim_def)
qed

lemma is_digit_not_space: "is_digit c \<Longrightarrow> \<not> is_space c"
  by (auto simp: is_digit_def is_space_def Let_def)

lemma js_Number_scaled:
  assumes "0 \<le> x" "is_decimal x" "x = 0 \<or> 1 / 10 ^ 6 \<le> x" "x < 10 ^ 21"
  shows "js_Number (js_num_str x @ ''e'' @ nat_str d) = Some (x * 10 ^ d)"
proof -
  have pr: "js_num_str x = dec_str x"
    using assms by (simp add: js_num_str_def abs_str_plain)
  obtain c r where cr: "nat_str (nat \<lfloor>x\<rfloor>) = c # r" and dc: "is_digit c"
    using nat_str_nonempty hd_nat_str by (metis neq_Nil_conv)
  obtain r' where r': "dec_str x = c # r'"
    by (simp add: dec_str_def cr Let_def)
  have lastd: "is_digit (last (nat_str d))"
    using nat_str_digits [of "last (nat_str d)" d] by simp
  have "js_trim (dec_str x @ ''e'' @ nat_str d) = dec_str x @ ''e'' @ nat_str d"
    by (rule js_trim_digits) (use dc lastd is_digit_not_space in \<open>auto simp: r'\<close>)
  moreover have "c \<noteq> CHR ''-''" "c \<noteq> CHR ''+''" using dc by auto
  ultimately show ?thesis
    using js_unsigned_dec_str(2) [OF assms(1,2), of d] by (simp add: pr js_Number_def r')
qed

text \<open>The digits shown are those of the value times \<open>10 ^ d\<close>, rounded towards zero.\<close>

lemma toFixedPointString_digits:
  fixes x :: rat and d :: nat
  assumes dec: "is_decimal \<bar>x\<bar>" and rng: "x = 0 \<or> 1 / 10 ^ 6 \<le> \<bar>x\<bar>" and up: "\<bar>x\<bar> * 10 ^ d < 10 ^ 21"
    and d: "0 < d"
  shows "\<exists>ip fp. toFixedPointString (Some x) (int d) = (if x < 0 then ''-'' else '''') @ ip @ ''.'' @ fp
      \<and> length fp = d \<and> ip \<noteq> [] \<and> list_all is_digit (ip @ fp)
      \<and> int (digits_val (ip @ fp)) = \<lfloor>\<bar>x\<bar> * 10 ^ d\<rfloor>"
proof -
  define q where "q = nat \<lfloor>\<bar>x\<bar> * 10 ^ d\<rfloor>"
  have q: "int q = \<lfloor>\<bar>x\<bar> * 10 ^ d\<rfloor>" by (simp add: q_def)
  have "\<bar>x\<bar> * 1 \<le> \<bar>x\<bar> * 10 ^ d" by (intro mult_left_mono) auto
  then have xb: "\<bar>x\<bar> < 10 ^ 21" using up by simp
  have "(of_nat q :: rat) \<le> \<bar>x\<bar> * 10 ^ d" by (simp add: q_def)
  then have "(of_nat q :: rat) < 10 ^ 21" using up by simp
  then have qb: "q < 10 ^ 21" by (metis of_nat_less_iff of_nat_numeral of_nat_power)
  have ist: "int_str (int d) = nat_str d" by (simp add: int_str_def)
  have "js_Number (js_num_str \<bar>x\<bar> @ ''e'' @ int_str (int d)) = Some (\<bar>x\<bar> * 10 ^ d)"
    unfolding ist by (rule js_Number_scaled) (use dec rng xb in auto)
  then have tmp: "num_text (js_trunc (js_Number (js_num_str \<bar>x\<bar> @ ''e'' @ int_str (int d)))) = nat_str q"
    using js_num_str_nat [OF qb] q not_less [of "\<bar>x\<bar> * 10 ^ d" 0]
    by (simp add: js_trunc_def num_text_def q [symmetric])
  define t where "t = nat_str q"
  have td: "list_all is_digit t" "digits_val t = q" by (simp_all add: t_def)
  show ?thesis
  proof (cases "d < length t")
    case True
    let ?i = "length t - d"
    have "toFixedPointString (Some x) (int d) =
        (if x < 0 then ''-'' else '''') @ take ?i t @ ''.'' @ drop ?i t"
      unfolding toFixedPointString_def using d True tmp by (simp add: t_def Let_def)
    moreover have "length (drop ?i t) = d" "take ?i t \<noteq> []" using True by auto
    ultimately show ?thesis using td q by (metis append_take_drop_id)
  next
    case False
    let ?z = "replicate (d - length t) (CHR ''0'')"
    have "toFixedPointString (Some x) (int d) = (if x < 0 then ''-'' else '''') @ ''0'' @ ''.'' @ ?z @ t"
      unfolding toFixedPointString_def using d False tmp by (simp add: t_def Let_def)
    moreover have "length (?z @ t) = d" using False by simp
    moreover have z0: "digits_val (replicate n (CHR ''0'')) = 0" for n
      by (induction n) (auto simp: digits_val_Cons digit_val_def)
    have "digits_val (''0'' @ ?z @ t) = q"
      using z0 td by (simp add: digits_val_append digits_val_Cons digit_val_def)
    moreover have "list_all is_digit (''0'' @ ?z @ t)"
      using td by (auto simp: list_all_iff is_digit_def)
    ultimately show ?thesis using q by (metis list.discI)
  qed
qed

section \<open>Sizes and speeds\<close>

definition unit_names :: "string list" where
  "unit_names = [''B'', ''KiB'', ''MiB'', ''GiB'', ''TiB'', ''PiB'', ''EiB'']"

definition friendlyUnitPrecision :: "nat \<Rightarrow> int" where
  "friendlyUnitPrecision sizeUnit = (if sizeUnit \<le> 2 then 1 else if sizeUnit = 3 then 2 else 3)"

function unit_scale :: "nat \<Rightarrow> rat \<Rightarrow> nat \<times> rat" where
  "unit_scale i value = (if 1024 \<le> value \<and> i < 6 then unit_scale (Suc i) (value / 1024) else (i, value))"
  by pat_completeness auto
termination
  by (relation "measure (\<lambda>(i, value). 6 - i)") auto

declare unit_scale.simps [simp del]

text \<open>\<open>None\<close> stands for \<open>undefined\<close>, \<open>null\<close> and NaN, which the code treats alike.\<close>

definition friendlyUnit :: "rat option \<Rightarrow> bool \<Rightarrow> string" where
  "friendlyUnit value isSpeed =
     (case value of
        None \<Rightarrow> ''Unknown''
      | Some v \<Rightarrow>
          if v < 0 then ''Unknown''
          else let (i, w) = unit_scale 0 v;
                   ret = (if i = 0 then js_num_str w @ '' '' @ unit_names ! i
                          else toFixedPointString (Some w) (friendlyUnitPrecision i) @ '' '' @ unit_names ! i)
               in if isSpeed then ret @ ''/s'' else ret)"

lemma unit_scale_correct:
  "i \<le> 6 \<Longrightarrow> 0 \<le> v \<Longrightarrow> unit_scale i v = (j, w) \<Longrightarrow>
     i \<le> j \<and> j \<le> 6 \<and> w * 1024 ^ j = v * 1024 ^ i \<and> 0 \<le> w \<and> (w < 1024 \<or> j = 6) \<and> (i < j \<longrightarrow> 1 \<le> w)"
proof (induction i v rule: unit_scale.induct)
  case (1 i v)
  show ?case
  proof (cases "1024 \<le> v \<and> i < 6")
    case True
    then have "unit_scale (Suc i) (v / 1024) = (j, w)"
      using "1.prems" by (simp add: unit_scale.simps [of i v])
    with "1.IH" [OF True] True "1.prems" have ih: "Suc i \<le> j" "j \<le> 6"
      "w * 1024 ^ j = v / 1024 * 1024 ^ Suc i" "0 \<le> w" "w < 1024 \<or> j = 6" "Suc i < j \<longrightarrow> 1 \<le> w" by auto
    have "1 \<le> w"
    proof (cases "Suc i < j")
      case True
      then show ?thesis using ih by simp
    next
      case False
      then have "j = Suc i" using ih by simp
      then have "w = v / 1024" using ih(3) by simp
      then show ?thesis using True by simp
    qed
    then show ?thesis using ih by auto
  next
    case False
    then have "unit_scale i v = (i, v)" by (subst unit_scale.simps) auto
    then have "j = i" "w = v" using "1.prems" by simp_all
    then show ?thesis using "1.prems" False by auto
  qed
qed

section \<open>Durations\<close>

definition infinity_sign :: string where
  "infinity_sign = [CHR 0xE2, CHR 0x88, CHR 0x9E]"

definition MAX_ETA :: rat where
  "MAX_ETA = 8640000"

definition js_mod :: "rat \<Rightarrow> rat \<Rightarrow> rat" where
  "js_mod x m = x - m * of_int \<lfloor>x / m\<rfloor>" \<comment> \<open>for \<open>0 \<le> x\<close>, \<open>0 < m\<close>\<close>

definition floor_text :: "rat \<Rightarrow> string" where
  "floor_text x = int_str \<lfloor>x\<rfloor>"

definition friendlyDuration :: "rat \<Rightarrow> rat \<Rightarrow> string" where
  "friendlyDuration seconds maxCap =
     (if seconds < 0 \<or> (maxCap \<le> seconds \<and> 0 \<le> maxCap) then infinity_sign
      else if seconds = 0 then ''0''
      else if seconds < 60 then ''< 1m''
      else let minutes = seconds / 60 in
        if minutes < 60 then js_replace ''%1'' (floor_text minutes) ''%1m''
      else let hours = minutes / 60; minutes = js_mod minutes 60 in
        if hours < 24
        then js_replace ''%2'' (floor_text minutes) (js_replace ''%1'' (floor_text hours) ''%1h %2m'')
      else let days = hours / 24; hours = js_mod hours 24 in
        if days < 365
        then js_replace ''%2'' (floor_text hours) (js_replace ''%1'' (floor_text days) ''%1d %2h'')
      else let years = days / 365; days = js_mod days 365 in
        js_replace ''%2'' (floor_text days) (js_replace ''%1'' (floor_text years) ''%1y %2d''))"

lemma js_replace_skip:
  "hd pat \<notin> set a \<Longrightarrow> pat \<noteq> [] \<Longrightarrow> js_replace pat rep (a @ s) = a @ js_replace pat rep s"
  by (induction a) (auto simp: prefix_def neq_Nil_conv)

lemma percent_int_str [simp]: "CHR ''%'' \<notin> set (int_str i)"
proof -
  have "CHR ''%'' \<notin> set (nat_str n)" for n
    using nat_str_digits [of "CHR ''%''" n] by (auto simp: is_digit_def)
  then show ?thesis by (simp add: int_str_def)
qed

lemma floor_div_nat:
  fixes x :: rat
  assumes "0 < m"
  shows "\<lfloor>x / of_nat m\<rfloor> = \<lfloor>x\<rfloor> div int m"
proof (rule floor_unique)
  let ?q = "\<lfloor>x\<rfloor> div int m"
  have "?q * int m \<le> \<lfloor>x\<rfloor>" using assms by (simp add: minus_mod_eq_div_mult [symmetric])
  then have "(of_int (?q * int m) :: rat) \<le> x" by (simp only: le_floor_iff)
  then show "of_int ?q \<le> x / of_nat m" using assms by (simp add: pos_le_divide_eq)
  have "\<lfloor>x\<rfloor> < (?q + 1) * int m"
    using assms by (simp add: algebra_simps) (metis add.commute minus_mod_eq_mult_div mult.commute
      diff_less_eq less_add_same_cancel1 of_nat_0_less_iff pos_mod_bound minus_mult_div_eq_mod)
  then have "x < of_int ((?q + 1) * int m)" by (simp only: floor_less_iff)
  then show "x / of_nat m < of_int ?q + 1" using assms by (simp add: pos_divide_less_eq)
qed

lemma floor_js_mod:
  fixes x :: rat
  assumes "0 < m"
  shows "\<lfloor>js_mod x (of_nat m)\<rfloor> = \<lfloor>x\<rfloor> mod int m"
proof -
  have "js_mod x (of_nat m) = x - of_int (int m * (\<lfloor>x\<rfloor> div int m))"
    by (simp add: js_mod_def floor_div_nat [OF assms])
  then have "\<lfloor>js_mod x (of_nat m)\<rfloor> = \<lfloor>x\<rfloor> - int m * (\<lfloor>x\<rfloor> div int m)"
    by (simp only: floor_diff_of_int)
  then show ?thesis by (simp add: minus_mult_div_eq_mod)
qed

text \<open>Every duration is shown as its two leading units, rounded down, of the whole minutes.\<close>

lemma friendlyDuration_units:
  fixes s cap :: rat
  assumes "60 \<le> s" and cap: "cap < 0 \<or> s < cap"
  defines "M \<equiv> \<lfloor>s\<rfloor> div 60"
  shows "friendlyDuration s cap =
    (if M < 60 then int_str M @ ''m''
     else if M < 1440 then int_str (M div 60) @ ''h '' @ int_str (M mod 60) @ ''m''
     else if M < 525600 then int_str (M div 1440) @ ''d '' @ int_str (M div 60 mod 24) @ ''h''
     else int_str (M div 525600) @ ''y '' @ int_str (M div 1440 mod 365) @ ''d'')"
proof -
  have M: "\<lfloor>s / 60\<rfloor> = M" using floor_div_nat [of 60 s] by (simp add: M_def)
  have H: "\<lfloor>s / 60 / 60\<rfloor> = M div 60" using floor_div_nat [of 60 "s / 60"] M by simp
  have D: "\<lfloor>s / 60 / 60 / 24\<rfloor> = M div 1440"
    using floor_div_nat [of 24 "s / 60 / 60"] H by (simp add: div_mult2_eq [symmetric] zdiv_zmult2_eq [symmetric])
  have Y: "\<lfloor>s / 60 / 60 / 24 / 365\<rfloor> = M div 525600"
    using floor_div_nat [of 365 "s / 60 / 60 / 24"] D by (simp add: zdiv_zmult2_eq [symmetric])
  have m: "\<lfloor>js_mod (s / 60) 60\<rfloor> = M mod 60" using floor_js_mod [of 60 "s / 60"] M by simp
  have h: "\<lfloor>js_mod (s / 60 / 60) 24\<rfloor> = M div 60 mod 24" using floor_js_mod [of 24 "s / 60 / 60"] H by simp
  have dd: "\<lfloor>js_mod (s / 60 / 60 / 24) 365\<rfloor> = M div 1440 mod 365"
    using floor_js_mod [of 365 "s / 60 / 60 / 24"] D by simp
  have c1: "s / 60 < 60 \<longleftrightarrow> M < 60" using floor_less_iff [of "s / 60" 60] M by simp
  have c2: "s / 60 / 60 < 24 \<longleftrightarrow> M < 1440"
  proof -
    have "s / 60 / 60 < 24 \<longleftrightarrow> M div 60 < 24" unfolding H [symmetric] by (simp add: floor_less_iff)
    then show ?thesis by linarith
  qed
  have c3: "s / 60 / 60 / 24 < 365 \<longleftrightarrow> M < 525600"
  proof -
    have "s / 60 / 60 / 24 < 365 \<longleftrightarrow> M div 1440 < 365" unfolding D [symmetric] by (simp add: floor_less_iff)
    then show ?thesis by linarith
  qed
  note fl = M H D Y m h dd and cs = c1 c2 c3
  have rep: "js_replace ''%1'' u ''%1m'' = u @ ''m''"
    "js_replace ''%1'' u ''%1h %2m'' = u @ ''h %2m''" "js_replace ''%1'' u ''%1d %2h'' = u @ ''d %2h''"
    "js_replace ''%1'' u ''%1y %2d'' = u @ ''y %2d''" for u
    by simp_all
  have rep2: "js_replace ''%2'' v (int_str i @ ''h %2m'') = int_str i @ ''h '' @ v @ ''m''"
    "js_replace ''%2'' v (int_str i @ ''d %2h'') = int_str i @ ''d '' @ v @ ''h''"
    "js_replace ''%2'' v (int_str i @ ''y %2d'') = int_str i @ ''y '' @ v @ ''d''" for v i
    by (subst js_replace_skip; simp)+
  have s0: "\<not> (s < 0 \<or> (cap \<le> s \<and> 0 \<le> cap))" "s \<noteq> 0" "\<not> s < 60" using assms by auto
  show ?thesis
    unfolding friendlyDuration_def Let_def floor_text_def fl rep rep2 cs
    using s0 by auto
qed

section \<open>Percentages and versions\<close>

definition friendlyPercentage :: "rat option \<Rightarrow> string" where
  "friendlyPercentage value =
     (let percentage = map_option (\<lambda>v. v * 100) value;
          percentage = (case percentage of None \<Rightarrow> 0 | Some p \<Rightarrow> if p < 0 then 0 else p);
          percentage = (if 100 < percentage then 100 else percentage)
      in toFixedPointString (Some percentage) 1 @ ''%'')"

record version_info =
  valid :: bool
  major :: jsval
  minor :: jsval
  fix_ver :: jsval
  patch :: jsval

definition tryToNumber :: "string \<Rightarrow> jsval" where
  "tryToNumber str = (case js_Number str of None \<Rightarrow> JStr str | Some n \<Rightarrow> JNum n)"

definition nth_or_undef :: "jsval list \<Rightarrow> nat \<Rightarrow> jsval" where
  "nth_or_undef vs i = (if i < length vs then vs ! i else JUndef)"

definition parseVersion :: "jsval \<Rightarrow> version_info" where
  "parseVersion versionString =
     (case versionString of
        JStr s \<Rightarrow>
          (let ver = map tryToNumber (take 4 (js_split ''.'' s))
           in \<lparr>valid = True, major = nth_or_undef ver 0, minor = nth_or_undef ver 1,
               fix_ver = nth_or_undef ver 2, patch = nth_or_undef ver 3\<rparr>)
      | _ \<Rightarrow> \<lparr>valid = False, major = JUndef, minor = JUndef, fix_ver = JUndef, patch = JUndef\<rparr>)"

fun js_ToNumber :: "jsval \<Rightarrow> rat option" where
  "js_ToNumber (JNum x) = Some x"
| "js_ToNumber (JStr s) = js_Number s"
| "js_ToNumber (JBool b) = Some (if b then 1 else 0)"
| "js_ToNumber JNull = Some 0"
| "js_ToNumber _ = None"

definition safeTrim :: "jsval \<Rightarrow> string" where
  "safeTrim value = (case value of JStr s \<Rightarrow> js_trim s | _ \<Rightarrow> [])"

section \<open>The term filter\<close>

definition term_matches :: "string \<Rightarrow> string \<Rightarrow> bool" where
  "term_matches textToSearch t =
     (let isTermRequired = startsWith t ''+''; isTermExcluded = startsWith t ''-''
      in if (isTermRequired \<or> isTermExcluded) \<and> length t = 1 then True
         else let t' = (if isTermRequired \<or> isTermExcluded then substring_from 1 t else t);
                  textContainsTerm = js_includes textToSearch t'
              in if isTermExcluded then \<not> textContainsTerm else textContainsTerm)"

definition containsAllTerms :: "string \<Rightarrow> string list \<Rightarrow> bool" where
  "containsAllTerms text terms =
     (let textToSearch = toLowerCase text in list_all (term_matches textToSearch) terms)"

text \<open>The reading of one term: plain or \<open>+\<close> demands, \<open>-\<close> forbids, a lone sign says nothing.\<close>

lemma term_matches_simps [simp]:
  "term_matches s [] \<longleftrightarrow> js_includes s []"
  "term_matches s ''+''" "term_matches s ''-''"
  "t \<noteq> [] \<Longrightarrow> term_matches s (CHR ''+'' # t) \<longleftrightarrow> js_includes s t"
  "t \<noteq> [] \<Longrightarrow> term_matches s (CHR ''-'' # t) \<longleftrightarrow> \<not> js_includes s t"
  "c \<noteq> CHR ''+'' \<Longrightarrow> c \<noteq> CHR ''-'' \<Longrightarrow> term_matches s (c # t) \<longleftrightarrow> js_includes s (c # t)"
  by (auto simp: term_matches_def Let_def substring_from_def)

lemma js_includes_Nil [simp]: "js_includes s []"
  by (simp add: js_includes_sublist)

lemma containsAllTerms_Nil [simp]: "containsAllTerms text []"
  by (simp add: containsAllTerms_def Let_def)

lemma containsAllTerms_append:
  "containsAllTerms text (ts @ us) \<longleftrightarrow> containsAllTerms text ts \<and> containsAllTerms text us"
  by (simp add: containsAllTerms_def Let_def)

section \<open>Downloads and dates\<close>

text \<open>
  The outcome of \<open>fetch\<close>: a network error, or a response with its status, its
  \<open>content-disposition\<close> header (absent is \<open>None\<close>) and its body.
\<close>

datatype 'b fetched = FetchFailed | Fetched bool "string option" 'b

datatype 'b download_outcome = Alert string | Saved string 'b

definition unquote :: "string \<Rightarrow> string" where
  "unquote f = (if startsWith f [CHR 0x22] \<and> endsWith f [CHR 0x22] then take (length f - 2) (drop 1 f) else f)"

definition downloadFile :: "'b fetched \<Rightarrow> string \<Rightarrow> string \<Rightarrow> 'b download_outcome" where
  "downloadFile response defaultFileName errorMessage =
     (case response of
        FetchFailed \<Rightarrow> Alert errorMessage
      | Fetched ok fileNameHeader blob \<Rightarrow>
          if \<not> ok then Alert errorMessage
          else let fileNamePrefix = ''attachment; filename=''
               in case fileNameHeader of
                    None \<Rightarrow> Alert errorMessage \<comment> \<open>\<open>null.startsWith\<close> throws; the handler alerts\<close>
                  | Some h \<Rightarrow>
                      if startsWith h fileNamePrefix
                      then Saved (unquote (substring_from (length fileNamePrefix) h)) blob
                      else Saved defaultFileName blob)"

record date_options =
  locale_name :: string
  year_opt :: string
  month_opt :: string
  day_opt :: string
  hour_opt :: string
  minute_opt :: string
  second_opt :: string
  hour12 :: bool

definition date_opts :: "string \<Rightarrow> string \<Rightarrow> string \<Rightarrow> bool \<Rightarrow> date_options" where
  "date_opts loc mon hr h12 =
     \<lparr>locale_name = loc, year_opt = ''numeric'', month_opt = mon, day_opt = ''2-digit'',
      hour_opt = hr, minute_opt = ''2-digit'', second_opt = ''2-digit'', hour12 = h12\<rparr>"

definition DateFormatOptions :: "(string \<times> date_options) list" where
  "DateFormatOptions =
     [(''MM/dd/yyyy, h:mm:ss AM/PM'', date_opts ''en-US'' ''2-digit'' ''numeric'' True),
      (''MM/dd/yyyy, HH:mm:ss'', date_opts ''en-US'' ''2-digit'' ''2-digit'' False),
      (''dd/MM/yyyy, HH:mm:ss'', date_opts ''en-GB'' ''2-digit'' ''2-digit'' False),
      (''yyyy-MM-dd HH:mm:ss'', date_opts ''sv-SE'' ''2-digit'' ''2-digit'' False),
      (''yyyy/MM/dd HH:mm:ss'', date_opts ''ja-JP'' ''2-digit'' ''2-digit'' False),
      (''dd.MM.yyyy, HH:mm:ss'', date_opts ''en-GB'' ''2-digit'' ''2-digit'' False),
      (''MMM dd, yyyy, h:mm:ss AM/PM'', date_opts ''en-US'' ''short'' ''numeric'' True),
      (''dd MMM yyyy, HH:mm:ss'', date_opts ''en-GB'' ''short'' ''2-digit'' False)]"

text \<open>
  \<open>toLocale\<close> stands for \<open>Date.prototype.toLocaleString\<close> and \<open>intlFormat\<close> for the formatter of
  \<open>Intl.DateTimeFormat\<close>; dates are seconds.
\<close>

definition slash_to_dot :: "string \<Rightarrow> string" where
  "slash_to_dot s = map (\<lambda>c. if c = CHR ''/'' then CHR ''.'' else c) s"

definition formatDate ::
  "(rat \<Rightarrow> string) \<Rightarrow> (date_options \<Rightarrow> rat \<Rightarrow> string) \<Rightarrow> rat \<Rightarrow> string \<Rightarrow> string" where
  "formatDate toLocale intlFormat date format =
     (if format = ''default'' then toLocale date
      else case map_of DateFormatOptions format of
          None \<Rightarrow> toLocale date
        | Some opts \<Rightarrow>
            let formatted = js_replace '' at '' '', '' (intlFormat opts date)
            in if js_includes format ''.'' then slash_to_dot formatted else formatted)"

section \<open>Progress bars (progressbar.js)\<close>

record progress_bar =
  pb_value :: rat
  pb_text :: string
  dark_clip :: string
  light_clip :: string

definition pb_setValue :: "rat option \<Rightarrow> progress_bar" where
  "pb_setValue value =
     (let v = (case value of None \<Rightarrow> 0 | Some x \<Rightarrow> x);
          v = min (max v 0) 100
      in \<lparr>pb_value = v, pb_text = toFixedPointString (Some v) 1 @ ''%'',
          dark_clip = ''inset(0 '' @ js_num_str (100 - v) @ ''% 0 0)'',
          light_clip = ''inset(0 0 0 '' @ js_num_str v @ ''%)''\<rparr>)"

lemma pb_value_range: "0 \<le> pb_value (pb_setValue v) \<and> pb_value (pb_setValue v) \<le> 100"
  by (simp add: pb_setValue_def Let_def)

lemma pb_value_id: "0 \<le> x \<Longrightarrow> x \<le> 100 \<Longrightarrow> pb_value (pb_setValue (Some x)) = x"
  by (simp add: pb_setValue_def Let_def)

section \<open>Properties\<close>

text \<open>the file name and the folder name of a path partition it. A path with a separator is
  the folder name, the separator and the file name, and the file name holds no separator; a
  path without one is its own file name with an empty folder name.\<close>

theorem path_partition:
  "PathSeparator \<notin> set (fileName p) \<and>
   p = (if PathSeparator \<in> set p then folderName p @ [PathSeparator] @ fileName p else fileName p) \<and>
   (PathSeparator \<in> set p \<or> folderName p = [])"
proof (cases "PathSeparator \<in> set p")
  case True
  then obtain a b where p: "p = a @ PathSeparator # b" and b: "PathSeparator \<notin> set b"
    using split_last_sep by metis
  then show ?thesis by (simp add: fileName_split folderName_split)
next
  case False
  then show ?thesis using fileName_plain [OF False] by simp
qed

text \<open>a number is shown truncated, never rounded up. For a decimal \<open>x\<close> at least \<open>1e-6\<close> in size
  the text is an optional minus sign, an integer part, a point and exactly \<open>d\<close> fraction digits,
  and the digits read \<open>|x| * 10 ^ d\<close> rounded down.\<close>

theorem toFixedPointString_truncates:
  fixes x :: rat and d :: nat
  assumes "is_decimal \<bar>x\<bar>" and "x = 0 \<or> 1 / 10 ^ 6 \<le> \<bar>x\<bar>" and "\<bar>x\<bar> * 10 ^ d < 10 ^ 21" and "0 < d"
  shows "\<exists>ip fp. toFixedPointString (Some x) (int d) = (if x < 0 then ''-'' else '''') @ ip @ ''.'' @ fp
      \<and> length fp = d \<and> ip \<noteq> [] \<and> list_all is_digit (ip @ fp)
      \<and> int (digits_val (ip @ fp)) = \<lfloor>\<bar>x\<bar> * 10 ^ d\<rfloor>"
  using toFixedPointString_digits [OF assms] .

theorem toFixedPointString_truncates_witness:
  "\<exists>ip fp. toFixedPointString (Some (1999 / 1000)) (int 2) = (if (1999 / 1000 :: rat) < 0 then ''-'' else '''') @ ip @ ''.'' @ fp
      \<and> length fp = 2 \<and> ip \<noteq> [] \<and> list_all is_digit (ip @ fp)
      \<and> int (digits_val (ip @ fp)) = \<lfloor>\<bar>1999 / 1000 :: rat\<bar> * 10 ^ 2\<rfloor>"
  by (rule toFixedPointString_truncates) (simp_all add: is_decimal_def)

text \<open>below \<open>1e-6\<close> the formatter breaks: \<open>Number.prototype.toString\<close> switches to exponent
  notation, the text with a second exponent appended is not a number, and the letters of
  \<open>NaN\<close> are cut as if they were digits.\<close>

theorem toFixedPointString_tiny:
  "toFixedPointString (Some (1 / 10 ^ 7)) 2 = ''N.aN'' \<and> toFixedPointString (Some (15 / 10 ^ 8)) 1 = ''Na.N''"
  by code_simp

text \<open>a size is scaled to the largest unit that keeps it at least 1 (up to EiB), without losing
  any of its value.\<close>

theorem friendlyUnit_scale:
  assumes "0 \<le> v" and "unit_scale 0 v = (i, w)"
  shows "i \<le> 6 \<and> v = w * 1024 ^ i \<and> (w < 1024 \<or> i = 6) \<and> (0 < i \<longrightarrow> 1 \<le> w)
    \<and> friendlyUnit (Some v) False =
        (if i = 0 then js_num_str v else toFixedPointString (Some w) (friendlyUnitPrecision i))
          @ '' '' @ unit_names ! i"
  using unit_scale_correct [of 0 v i w] assms by (auto simp: friendlyUnit_def Let_def)

theorem friendlyUnit_scale_witness:
  "(3145728 :: rat) = 3 * 1024 ^ 2 \<and>
   friendlyUnit (Some 3145728) False = toFixedPointString (Some 3) (friendlyUnitPrecision 2) @ '' '' @ unit_names ! 2"
  using friendlyUnit_scale [of 3145728 2 3] by (simp add: unit_scale.simps)

text \<open>a duration of at least a minute (below the cap) is shown as its two leading units in whole
  minutes, rounded down: minutes, hours and minutes, days and hours, or years and days.\<close>

theorem friendlyDuration_shows:
  fixes s cap :: rat
  assumes "60 \<le> s" and "cap < 0 \<or> s < cap"
  shows "friendlyDuration s cap =
    (let M = \<lfloor>s\<rfloor> div 60 in
     if M < 60 then int_str M @ ''m''
     else if M < 1440 then int_str (M div 60) @ ''h '' @ int_str (M mod 60) @ ''m''
     else if M < 525600 then int_str (M div 1440) @ ''d '' @ int_str (M div 60 mod 24) @ ''h''
     else int_str (M div 525600) @ ''y '' @ int_str (M div 1440 mod 365) @ ''d'')"
  using friendlyDuration_units [OF assms] by (simp add: Let_def)

theorem friendlyDuration_shows_witness:
  "friendlyDuration 100000 MAX_ETA = int_str 1 @ ''d '' @ int_str 3 @ ''h''"
  using friendlyDuration_shows [of 100000 MAX_ETA] by (simp add: MAX_ETA_def)

text \<open>C38: debouncing delivers a call if and only if no later call comes before its delay has passed
  (and its time has come), in call order, and nothing else.\<close>

theorem debounce_correct:
  "invoked (debounce_fire horizon (debounce_run delay calls debounce_init)) = quiet_calls delay horizon calls"
  by (simp add: debounce_run_quiet debounce_init_def)

end
