(* ===== verification/FileTree.thy ===== *)
theory FileTree
  imports JsMisc
begin

text \<open>
  \<open>file-tree.js\<close>: the tree of files and folders behind the content tables. Nodes are mutable
  objects that the tree, its node map and the tables share, so they live in a store from
  addresses to nodes; a node holds the addresses of its children and of its parent (\<open>root\<close> in
  the code). The ghost type \<open>shape\<close> names the tree that a part of the store represents; it
  occurs in statements only. The field \<open>parent_of\<close> is the property \<open>parent\<close> that the table adds.
\<close>

section \<open>Priorities, check states and nodes\<close>

datatype FilePriority = Ignored | Normal | High | Maximum | Mixed

datatype TriState = Unchecked | Checked | Partial

fun priority_code :: "FilePriority \<Rightarrow> int" where
  "priority_code Ignored = 0"
| "priority_code Normal = 1"
| "priority_code High = 6"
| "priority_code Maximum = 7"
| "priority_code Mixed = -1"

fun tristate_code :: "TriState \<Rightarrow> nat" where
  "tristate_code Unchecked = 0"
| "tristate_code Checked = 1"
| "tristate_code Partial = 2"

type_synonym addr = nat

record node =
  name :: string
  path :: string
  rowId :: "nat option"
  fileId :: int
  size_of :: rat
  checked :: TriState
  remaining :: rat
  progress :: rat
  priority :: FilePriority
  availability :: rat
  depth :: nat
  root :: "addr option"
  parent_of :: "addr option"
  isFolder :: bool
  children :: "addr list"
  autoCalculateCheckedState :: bool

type_synonym store = "addr \<Rightarrow> node"

definition new_FileNode :: node where
  "new_FileNode = \<lparr>name = [], path = [], rowId = None, fileId = 0, size_of = 0, checked = Unchecked,
     remaining = 0, progress = 0, priority = Normal, availability = 0, depth = 0, root = None, parent_of = None,
     isFolder = False, children = [], autoCalculateCheckedState = True\<rparr>"

definition new_FolderNode :: node where
  "new_FolderNode = new_FileNode\<lparr>isFolder := True, fileId := -1\<rparr>"

definition isIgnored :: "node \<Rightarrow> bool" where
  "isIgnored n \<longleftrightarrow> priority n = Ignored"

definition serialize :: "node \<Rightarrow> jsobj" where
  "serialize n =
     [(''name'', JStr (name n)), (''path'', JStr (path n)), (''fileId'', JNum (of_int (fileId n))),
      (''size'', JNum (size_of n)), (''checked'', JNum (of_nat (tristate_code (checked n)))),
      (''remaining'', JNum (remaining n)), (''progress'', JNum (progress n)),
      (''priority'', JNum (of_int (priority_code (priority n)))), (''availability'', JNum (availability n))]"

definition file_remaining :: "node \<Rightarrow> rat" where
  "file_remaining n = (if isIgnored n then 0 else size_of n * (1 - progress n / 100))"

section \<open>Remaining amounts\<close>

text \<open>
  \<open>calculateRemaining\<close> recurses through the children of a folder. The first argument bounds the
  depth of the recursion; \<open>None\<close> is a recursion that went deeper (a cyclic store).
\<close>

fun calculateRemaining :: "nat \<Rightarrow> store \<Rightarrow> addr \<Rightarrow> store option" where
  "calculateRemaining 0 h a = None"
| "calculateRemaining (Suc fuel) h a =
     (if isFolder (h a)
      then map_option (\<lambda>(h', amount). h'(a := (h' a)\<lparr>remaining := amount\<rparr>))
        (foldl (\<lambda>acc c. case acc of
              None \<Rightarrow> None
            | Some (h', amount) \<Rightarrow>
                (case calculateRemaining fuel h' c of
                   None \<Rightarrow> None
                 | Some h'' \<Rightarrow> Some (h'', amount + remaining (h'' c))))
          (Some (h, 0)) (children (h a)))
      else Some (h(a := (h a)\<lparr>remaining := file_remaining (h a)\<rparr>)))"

definition addChild :: "nat \<Rightarrow> store \<Rightarrow> addr \<Rightarrow> addr \<Rightarrow> store option" where
  "addChild fuel h parent c =
     map_option (\<lambda>h'. h'(parent := (h' parent)\<lparr>children := children (h' parent) @ [c]\<rparr>))
       (calculateRemaining fuel h c)"

section \<open>Sizes and aggregated state\<close>

text \<open>The loop over the children of a folder, with \<open>isFirstFile\<close> as the flag.\<close>

fun absorb_child :: "node \<times> bool \<Rightarrow> node \<Rightarrow> node \<times> bool" where
  "absorb_child (r, isFirstFile) child =
     (let r = r\<lparr>size_of := size_of r + size_of child\<rparr>;
          r = (if isFirstFile then r\<lparr>priority := priority child, checked := checked child\<rparr>
               else let r = (if priority r \<noteq> priority child then r\<lparr>priority := Mixed\<rparr> else r)
                    in if checked r \<noteq> checked child then r\<lparr>checked := Partial\<rparr> else r);
          r = (if \<not> isIgnored child
               then r\<lparr>remaining := remaining r + remaining child,
                      progress := progress r + progress child * size_of child,
                      availability := availability r + availability child * size_of child\<rparr>
               else r)
      in (r, False))"

definition folder_summary :: "node \<Rightarrow> node list \<Rightarrow> node" where
  "folder_summary r cs =
     (let r = r\<lparr>size_of := 0, remaining := 0, progress := 0, availability := 0,
                checked := Unchecked, priority := Normal\<rparr>;
          r = fst (foldl absorb_child (r, True) cs)
      in r\<lparr>checked := (if autoCalculateCheckedState r then checked r else Checked),
           progress := (if 0 < size_of r then progress r / size_of r else 0),
           availability := (if 0 < size_of r then availability r / size_of r else 0)\<rparr>)"

definition summarize :: "store \<Rightarrow> addr \<Rightarrow> store" where
  "summarize h a = h(a := folder_summary (h a) (map h (children (h a))))"

text \<open>
  \<open>calculateSize\<close>: the loop over a stack and a list of folders whose children are pushed.
  One iteration is \<open>size_step\<close>; both lists have their top at the end, as the arrays do.
\<close>

fun size_step :: "store \<times> addr list \<times> addr list \<Rightarrow> store \<times> addr list \<times> addr list" where
  "size_step (h, stack, visited) =
     (let r = last stack in
      if isFolder (h r)
      then if visited = [] \<or> last visited \<noteq> r
           then (h, stack @ children (h r), visited @ [r])
           else (summarize h r, butlast stack, butlast visited)
      else (h, butlast stack, visited))"

fun size_loop :: "nat \<Rightarrow> store \<times> addr list \<times> addr list \<Rightarrow> store option" where
  "size_loop 0 (h, stack, visited) = (if stack = [] then Some h else None)"
| "size_loop (Suc fuel) (h, stack, visited) =
     (if stack = [] then Some h else size_loop fuel (size_step (h, stack, visited)))"

definition calculateSize :: "nat \<Rightarrow> store \<Rightarrow> addr \<Rightarrow> store option" where
  "calculateSize fuel h a = size_loop fuel (h, [a], [])"

section \<open>The tree object\<close>

record file_tree =
  tree_root :: "addr option"
  nodeMap :: "nat \<Rightarrow> addr option"

definition new_FileTree :: file_tree where
  "new_FileTree = \<lparr>tree_root = None, nodeMap = Map.empty\<rparr>"

text \<open>\<open>generateNodeMap\<close>: pop the last address, record it unless it is a root, push its children.\<close>

fun map_loop :: "nat \<Rightarrow> store \<Rightarrow> addr list \<Rightarrow> (nat \<Rightarrow> addr option) \<Rightarrow> (nat \<Rightarrow> addr option) option" where
  "map_loop 0 h stack m = (if stack = [] then Some m else None)"
| "map_loop (Suc fuel) h stack m =
     (if stack = [] then Some m
      else let a = last stack;
               m' = (if root (h a) \<noteq> None
                     then (case rowId (h a) of None \<Rightarrow> m | Some r \<Rightarrow> m(r \<mapsto> a)) else m)
           in map_loop fuel h (butlast stack @ children (h a)) m')"

definition setRoot :: "nat \<Rightarrow> store \<Rightarrow> file_tree \<Rightarrow> addr \<Rightarrow> (store \<times> file_tree) option" where
  "setRoot fuel h t a =
     (case map_loop fuel h [a] (nodeMap t) of
        None \<Rightarrow> None
      | Some m \<Rightarrow>
          let t' = t\<lparr>tree_root := Some a, nodeMap := m\<rparr> in
          if isFolder (h a)
          then map_option (\<lambda>h'. (h', t')) (calculateSize fuel h a)
          else Some (h, t'))"

definition getNode :: "file_tree \<Rightarrow> nat \<Rightarrow> addr option" where
  "getNode t r = nodeMap t r"

definition getRowId :: "store \<Rightarrow> addr \<Rightarrow> nat option" where
  "getRowId h a = rowId (h a)"

fun array_loop :: "nat \<Rightarrow> store \<Rightarrow> addr list \<Rightarrow> addr list \<Rightarrow> addr list option" where
  "array_loop 0 h stack ret = (if stack = [] then Some ret else None)"
| "array_loop (Suc fuel) h stack ret =
     (if stack = [] then Some ret
      else let a = last stack
           in array_loop fuel h (butlast stack @ rev (children (h a))) (ret @ [a]))"

definition toArray :: "nat \<Rightarrow> store \<Rightarrow> file_tree \<Rightarrow> addr list option" where
  "toArray fuel h t =
     (case tree_root t of
        None \<Rightarrow> Some []
      | Some a \<Rightarrow> array_loop fuel h (rev (children (h a))) [])"

section \<open>Trees in the store\<close>

datatype shape = Sh addr "shape list"

fun top :: "shape \<Rightarrow> addr" where
  "top (Sh a ss) = a"

fun addrs :: "shape \<Rightarrow> addr list" where
  "addrs (Sh a ss) = a # concat (map addrs ss)"

fun subshapes :: "shape \<Rightarrow> shape list" where
  "subshapes (Sh a ss) = Sh a ss # concat (map subshapes ss)"

fun weight :: "shape \<Rightarrow> nat" where
  "weight (Sh a ss) = Suc (sum_list (map weight ss))"

fun height :: "shape \<Rightarrow> nat" where
  "height (Sh a ss) = Suc (Max (insert 0 (set (map height ss))))"

text \<open>\<open>links h s\<close>: the store holds the tree \<open>s\<close>; only folders have children.\<close>

fun links :: "store \<Rightarrow> shape \<Rightarrow> bool" where
  "links h (Sh a ss) \<longleftrightarrow> children (h a) = map top ss \<and> (ss \<noteq> [] \<longrightarrow> isFolder (h a))
     \<and> (\<forall>s \<in> set ss. links h s)"

lemma top_in_addrs [simp]: "top s \<in> set (addrs s)"
  by (cases s) simp

lemma length_addrs: "length (addrs s) = weight s"
  by (induction s) (simp add: length_concat comp_def cong: map_cong)

lemma weight_pos [simp]: "0 < weight s"
  by (cases s) simp

lemma weight_nonzero [simp]: "weight s \<noteq> 0"
  by (cases s) simp

lemma links_cong:
  "(\<And>a. a \<in> set (addrs s) \<Longrightarrow> children (h' a) = children (h a) \<and> isFolder (h' a) = isFolder (h a)) \<Longrightarrow>
     links h' s = links h s"
  by (induction s) auto

text \<open>What the two operations leave alone.\<close>

lemma absorb_child_keeps [simp]:
  "children (fst (absorb_child p c)) = children (fst p)"
  "isFolder (fst (absorb_child p c)) = isFolder (fst p)"
  "autoCalculateCheckedState (fst (absorb_child p c)) = autoCalculateCheckedState (fst p)"
  "rowId (fst (absorb_child p c)) = rowId (fst p)"
  "root (fst (absorb_child p c)) = root (fst p)"
  by (cases p; simp add: Let_def)+

lemma foldl_absorb_keeps [simp]:
  "children (fst (foldl absorb_child p cs)) = children (fst p)"
  "isFolder (fst (foldl absorb_child p cs)) = isFolder (fst p)"
  "autoCalculateCheckedState (fst (foldl absorb_child p cs)) = autoCalculateCheckedState (fst p)"
  by (induction cs arbitrary: p) simp_all

lemma folder_summary_keeps [simp]:
  "children (folder_summary r cs) = children r" "isFolder (folder_summary r cs) = isFolder r"
  by (simp_all add: folder_summary_def Let_def)

lemma summarize_keeps [simp]:
  "children (summarize h a b) = children (h b)" "isFolder (summarize h a b) = isFolder (h b)"
  by (simp_all add: summarize_def)

lemma foldl_absorb_size: "size_of (fst (foldl absorb_child p cs)) = size_of (fst p) + sum_list (map size_of cs)"
proof (induction cs arbitrary: p)
  case (Cons c cs)
  have "size_of (fst (absorb_child p c)) = size_of (fst p) + size_of c"
    by (cases p) (simp add: Let_def)
  with Cons show ?case by simp
qed simp

lemma folder_summary_size [simp]: "size_of (folder_summary r cs) = sum_list (map size_of cs)"
  by (simp add: folder_summary_def Let_def foldl_absorb_size)

section \<open>Aggregation visits every folder once, children first\<close>

fun summed :: "store \<Rightarrow> shape \<Rightarrow> store" where
  "summed h (Sh a ss) =
     (if isFolder (h a) then summarize (foldr (\<lambda>s h. summed h s) ss h) a else h)"

fun steps :: "store \<Rightarrow> shape \<Rightarrow> nat" where
  "steps h (Sh a ss) = (if isFolder (h a) then 2 + sum_list (map (steps h) ss) else 1)"

lemma foldr_keep:
  assumes "\<And>h x. x \<in> set xs \<Longrightarrow> P (f x h) = P h"
  shows "P (foldr f xs h) = P h"
  using assms by (induction xs) simp_all

lemma summed_keeps [simp]:
  "isFolder (summed h s b) = isFolder (h b)" "children (summed h s b) = children (h b)"
proof (induction s arbitrary: h b)
  case (Sh a ss)
  {
    case 1
    show ?case using Sh(1) by (simp add: foldr_keep [where P = "\<lambda>h. isFolder (h b)"])
  next
    case 2
    show ?case using Sh(2) by (simp add: foldr_keep [where P = "\<lambda>h. children (h b)"])
  }
qed

lemma links_summed [simp]: "links (summed h s) t = links h t"
  by (rule links_cong) simp

lemma summed_outside: "b \<notin> set (addrs s) \<Longrightarrow> summed h s b = h b"
proof (induction s arbitrary: h)
  case (Sh a ss)
  then have "foldr (\<lambda>s h. summed h s) ss h b = h b"
    by (intro foldr_keep [where P = "\<lambda>h. h b"]) auto
  with Sh.prems show ?case by (simp add: summarize_def)
qed

lemma foldr_summed_outside:
  "b \<notin> set (concat (map addrs ss)) \<Longrightarrow> foldr (\<lambda>s h. summed h s) ss h b = h b"
  by (intro foldr_keep [where P = "\<lambda>h. h b"]) (auto intro: summed_outside)

lemma steps_cong: "(\<And>b. isFolder (h' b) = isFolder (h b)) \<Longrightarrow> steps h' s = steps h s"
  by (induction s) (auto cong: map_cong)

lemma steps_summed: "steps (summed h s) = steps h"
  by (rule ext, rule steps_cong) simp

lemma steps_bound: "steps h s \<le> 2 * weight s"
proof (induction s)
  case (Sh a ss)
  then have "sum_list (map (steps h) ss) \<le> sum_list (map (\<lambda>s. 2 * weight s) ss)"
    by (intro sum_list_mono) auto
  then have "sum_list (map (steps h) ss) \<le> 2 * sum_list (map weight ss)"
    by (simp add: sum_list_const_mult)
  then show ?case by simp
qed

lemma size_loop_children:
  assumes each: "\<And>s h stack visited k. s \<in> set ss \<Longrightarrow> links h s \<Longrightarrow> distinct (addrs s) \<Longrightarrow>
      visited = [] \<or> last visited \<notin> set (addrs s) \<Longrightarrow>
      size_loop (steps h s + k) (h, stack @ [top s], visited) = size_loop k (summed h s, stack, visited)"
    and "\<forall>s \<in> set ss. links h s" "distinct (concat (map addrs ss))"
    and "visited = [] \<or> last visited \<notin> set (concat (map addrs ss))"
  shows "size_loop (sum_list (map (steps h) ss) + k) (h, stack @ map top ss, visited)
    = size_loop k (foldr (\<lambda>s h. summed h s) ss h, stack, visited)"
  using assms
proof (induction ss arbitrary: h k rule: rev_induct)
  case Nil
  show ?case by simp
next
  case (snoc s ss)
  have "size_loop (steps h s + (sum_list (map (steps h) ss) + k)) (h, (stack @ map top ss) @ [top s], visited)
      = size_loop (sum_list (map (steps h) ss) + k) (summed h s, stack @ map top ss, visited)"
    by (rule snoc.prems(1)) (use snoc.prems(2-) in auto)
  also have "\<dots> = size_loop (sum_list (map (steps (summed h s)) ss) + k) (summed h s, stack @ map top ss, visited)"
    by (simp add: steps_summed)
  also have "\<dots> = size_loop k (foldr (\<lambda>s h. summed h s) ss (summed h s), stack, visited)"
    by (rule snoc.IH) (use snoc.prems(2-) in \<open>auto intro!: snoc.prems(1)\<close>)
  finally show ?case by (simp add: ac_simps)
qed

lemma size_loop_enter:
  "isFolder (h a) \<Longrightarrow> visited = [] \<or> last visited \<noteq> a \<Longrightarrow>
     size_loop (Suc n) (h, stack @ [a], visited) = size_loop n (h, (stack @ [a]) @ children (h a), visited @ [a])"
  by auto

lemma size_loop_leave:
  "isFolder (h a) \<Longrightarrow>
     size_loop (Suc n) (h, stack @ [a], visited @ [a]) = size_loop n (summarize h a, stack, visited)"
  by simp

lemma size_loop_file:
  "\<not> isFolder (h a) \<Longrightarrow> size_loop (Suc n) (h, stack @ [a], visited) = size_loop n (h, stack, visited)"
  by simp

declare size_step.simps [simp del] size_loop.simps [simp del]

lemma size_loop_done [simp]: "size_loop k (h, [], visited) = Some h"
  by (cases k) (simp_all add: size_loop.simps)

lemma size_loop_tree:
  "links h s \<Longrightarrow> distinct (addrs s) \<Longrightarrow> visited = [] \<or> last visited \<notin> set (addrs s) \<Longrightarrow>
     size_loop (steps h s + k) (h, stack @ [top s], visited) = size_loop k (summed h s, stack, visited)"
proof (induction s arbitrary: h stack visited k)
  case (Sh a ss)
  let ?h' = "foldr (\<lambda>s h. summed h s) ss h"
  show ?case
  proof (cases "isFolder (h a)")
    case False
    then show ?thesis by (simp add: size_loop_file)
  next
    case True
    have ch: "children (h a) = map top ss" and sub: "\<forall>s \<in> set ss. links h s"
      using Sh.prems by auto
    have F: "isFolder (?h' a)"
      using True by (simp add: foldr_keep [where P = "\<lambda>h. isFolder (h a)"])
    have "size_loop (Suc (sum_list (map (steps h) ss) + Suc k)) (h, stack @ [a], visited)
        = size_loop (sum_list (map (steps h) ss) + Suc k) (h, (stack @ [a]) @ map top ss, visited @ [a])"
      using Sh.prems(3) size_loop_enter [where a = a and h = h and visited = visited and stack = stack, OF True]
      by (auto simp: ch)
    also have "\<dots> = size_loop (Suc k) (?h', stack @ [a], visited @ [a])"
      using Sh.prems(2) sub by (intro size_loop_children Sh.IH) auto
    also have "\<dots> = size_loop k (summarize ?h' a, stack, visited)"
      using F by (rule size_loop_leave)
    finally show ?thesis using True by simp
  qed
qed

lemma calculateSize_summed:
  assumes "links h s" "distinct (addrs s)" "2 * weight s \<le> fuel"
  shows "calculateSize fuel h (top s) = Some (summed h s)"
proof -
  have "fuel = steps h s + (fuel - steps h s)"
    using steps_bound [of h s] assms(3) by simp
  then show ?thesis
    using size_loop_tree [OF assms(1,2), of "[]" "fuel - steps h s" "[]"]
    by (simp add: calculateSize_def)
qed

lemma children_below: "links h s \<Longrightarrow> a \<in> set (addrs s) \<Longrightarrow> set (children (h a)) \<subseteq> set (addrs s)"
proof (induction s)
  case (Sh b ss)
  show ?case
  proof (cases "a = b")
    case True
    with Sh.prems have "children (h a) = map top ss" by simp
    then show ?thesis by (auto intro!: bexI [where x = "_ :: shape"])
  next
    case False
    with Sh obtain t where "t \<in> set ss" "set (children (h a)) \<subseteq> set (addrs t)" by auto
    then show ?thesis by auto
  qed
qed

definition consistent_at :: "store \<Rightarrow> store \<Rightarrow> addr \<Rightarrow> bool" where
  "consistent_at h h' a \<longleftrightarrow>
     h' a = (if isFolder (h a) then folder_summary (h a) (map h' (children (h a))) else h a)"

lemma consistent_at_cong:
  "h1 a = h2 a \<Longrightarrow> h1' a = h2' a \<Longrightarrow> (\<And>c. c \<in> set (children (h1 a)) \<Longrightarrow> h1' c = h2' c) \<Longrightarrow>
     consistent_at h1 h1' a = consistent_at h2 h2' a"
  by (simp add: consistent_at_def cong: map_cong)

lemma consistent_children:
  assumes each: "\<And>s h a. s \<in> set ss \<Longrightarrow> links h s \<Longrightarrow> distinct (addrs s) \<Longrightarrow> a \<in> set (addrs s) \<Longrightarrow>
      consistent_at h (summed h s) a"
    and "\<forall>s \<in> set ss. links h s" "distinct (concat (map addrs ss))" "a \<in> set (concat (map addrs ss))"
  shows "consistent_at h (foldr (\<lambda>s h. summed h s) ss h) a"
  using assms
proof (induction ss)
  case Nil
  then show ?case by simp
next
  case (Cons t ts)
  let ?g = "foldr (\<lambda>s h. summed h s) ts h"
  have lt: "links ?g t"
    using Cons.prems(2) by (simp add: foldr_keep [where P = "\<lambda>h. links h t"])
  show ?case
  proof (cases "a \<in> set (addrs t)")
    case True
    have "?g a = h a" using Cons.prems(3) True by (intro foldr_summed_outside) auto
    moreover have "consistent_at ?g (summed ?g t) a"
      using Cons.prems(3) lt True by (intro Cons.prems(1)) auto
    ultimately show ?thesis
      using consistent_at_cong [of h a ?g "summed ?g t" "summed ?g t"] by simp
  next
    case False
    then obtain u where u: "u \<in> set ts" "a \<in> set (addrs u)" using Cons.prems(4) by auto
    have "consistent_at h ?g a"
      using Cons.prems False by (intro Cons.IH) auto
    moreover have "set (children (h a)) \<inter> set (addrs t) = {}"
      using children_below [of h u a] u Cons.prems(2,3) by fastforce
    ultimately show ?thesis
      using consistent_at_cong [of h a h "summed ?g t" ?g] False
      by (auto simp: summed_outside disjoint_iff)
  qed
qed

lemma summed_consistent:
  "links h s \<Longrightarrow> distinct (addrs s) \<Longrightarrow> a \<in> set (addrs s) \<Longrightarrow> consistent_at h (summed h s) a"
proof (induction s arbitrary: h a)
  case (Sh b ss)
  let ?H = "foldr (\<lambda>s h. summed h s) ss h"
  have ch: "children (h b) = map top ss" using Sh.prems by simp
  show ?case
  proof (cases "isFolder (h b)")
    case False
    with Sh.prems show ?thesis by (auto simp: consistent_at_def)
  next
    case True
    have hb: "?H b = h b" using Sh.prems by (intro foldr_summed_outside) auto
    have tops: "b \<notin> set (map top ss)" using Sh.prems(2) top_in_addrs by auto
    show ?thesis
    proof (cases "a = b")
      case True
      have "map (?H(b := x)) cs = map ?H cs" if "b \<notin> set cs" for x cs
        using that by auto
      from this [OF tops] show ?thesis
        using True \<open>isFolder (h b)\<close> by (simp only: consistent_at_def summarize_def hb ch summed.simps if_True fun_upd_same)
    next
      case False
      then have a: "a \<in> set (concat (map addrs ss))" using Sh.prems by auto
      then obtain u where u: "u \<in> set ss" "a \<in> set (addrs u)" by auto
      have "b \<notin> set (children (h a))"
        using children_below [of h u a] u Sh.prems by auto
      moreover have "consistent_at h ?H a"
        using Sh.prems a by (intro consistent_children Sh.IH) auto
      ultimately have "consistent_at h (?H(b := x)) a" for x
        using False by (subst consistent_at_cong [of h a h _ ?H]) auto
      then show ?thesis using True by (simp only: summed.simps summarize_def if_True)
    qed
  qed
qed

text \<open>The size of a folder is the sum of the sizes of its files; shares are averages.\<close>

definition file_addrs :: "store \<Rightarrow> shape \<Rightarrow> addr list" where
  "file_addrs h s = filter (\<lambda>a. \<not> isFolder (h a)) (addrs s)"

lemma file_addrs_Sh:
  "links h (Sh a ss) \<Longrightarrow>
     file_addrs h (Sh a ss) = (if isFolder (h a) then concat (map (file_addrs h) ss) else [a])"
  by (auto simp: file_addrs_def [abs_def] filter_concat comp_def)

lemma file_addrs_cong: "(\<And>b. isFolder (h' b) = isFolder (h b)) \<Longrightarrow> file_addrs h' s = file_addrs h s"
  by (simp add: file_addrs_def)

lemma total_size:
  assumes "\<And>a. a \<in> set (addrs s) \<Longrightarrow> consistent_at h h' a" and "links h s"
  shows "size_of (h' (top s)) = sum_list (map (size_of \<circ> h) (file_addrs h s))"
  using assms
proof (induction s)
  case (Sh a ss)
  have each: "size_of (h' (top t)) = sum_list (map (size_of \<circ> h) (file_addrs h t))" if "t \<in> set ss" for t
    using that Sh.prems by (intro Sh.IH) auto
  have "consistent_at h h' a" using Sh.prems(1) by simp
  then show ?case
    using Sh.prems(2) each
    by (auto simp: consistent_at_def file_addrs_Sh [OF Sh.prems(2)] map_concat comp_def sum_list_concat
        intro!: arg_cong [where f = sum_list])
qed

lemma absorb_progress_bounds:
  assumes "0 \<le> progress (fst p)" "progress (fst p) \<le> 100 * size_of (fst p)"
    and "0 \<le> size_of c" "0 \<le> progress c" "progress c \<le> 100"
  shows "0 \<le> progress (fst (absorb_child p c)) \<and>
    progress (fst (absorb_child p c)) \<le> 100 * size_of (fst (absorb_child p c))"
proof -
  have "progress c * size_of c \<le> 100 * size_of c" "0 \<le> progress c * size_of c"
    using assms by (auto intro: mult_right_mono)
  with assms show ?thesis
    by (cases p) (auto simp: Let_def isIgnored_def algebra_simps)
qed

lemma foldl_progress_bounds:
  assumes "0 \<le> progress (fst p)" "progress (fst p) \<le> 100 * size_of (fst p)"
    and "\<And>c. c \<in> set cs \<Longrightarrow> 0 \<le> size_of c \<and> 0 \<le> progress c \<and> progress c \<le> 100"
  shows "0 \<le> progress (fst (foldl absorb_child p cs)) \<and>
    progress (fst (foldl absorb_child p cs)) \<le> 100 * size_of (fst (foldl absorb_child p cs))"
  using assms
proof (induction cs arbitrary: p)
  case (Cons c cs)
  have "0 \<le> progress (fst (absorb_child p c)) \<and>
      progress (fst (absorb_child p c)) \<le> 100 * size_of (fst (absorb_child p c))"
    using Cons.prems by (intro absorb_progress_bounds) auto
  then show ?case using Cons.prems Cons.IH [of "absorb_child p c"] by auto
qed simp

lemma folder_summary_progress:
  assumes "\<And>c. c \<in> set cs \<Longrightarrow> 0 \<le> size_of c \<and> 0 \<le> progress c \<and> progress c \<le> 100"
  shows "0 \<le> progress (folder_summary r cs) \<and> progress (folder_summary r cs) \<le> 100"
proof -
  let ?p = "(r\<lparr>size_of := 0, remaining := 0, progress := 0, availability := 0,
                checked := Unchecked, priority := Normal\<rparr>, True)"
  have "0 \<le> progress (fst (foldl absorb_child ?p cs)) \<and>
      progress (fst (foldl absorb_child ?p cs)) \<le> 100 * size_of (fst (foldl absorb_child ?p cs))"
    using assms by (intro foldl_progress_bounds) auto
  then show ?thesis by (auto simp: folder_summary_def Let_def divide_le_eq)
qed

text \<open>The priority and check state that a folder shows.\<close>

lemma absorb_child_second:
  "snd (absorb_child p c) = False"
  "priority (fst (absorb_child (r, False) c)) = (if priority r \<noteq> priority c then Mixed else priority r)"
  "checked (fst (absorb_child (r, False) c)) = (if checked r \<noteq> checked c then Partial else checked r)"
  "priority (fst (absorb_child (r, True) c)) = priority c"
  "checked (fst (absorb_child (r, True) c)) = checked c"
  by (cases p; simp add: Let_def)+

lemma absorb_child_pair: "absorb_child p c = (fst (absorb_child p c), False)"
  by (metis absorb_child_second(1) prod.collapse)

lemma foldl_absorb_priority:
  "priority (fst (foldl absorb_child (r, False) cs)) =
     (if \<forall>c \<in> set cs. priority c = priority r then priority r else Mixed)"
proof (induction cs arbitrary: r)
  case (Cons c cs)
  show ?case
    by (subst foldl_Cons, subst absorb_child_pair, subst Cons.IH)
      (auto simp: absorb_child_second simp del: absorb_child.simps)
qed simp

lemma folder_summary_priority:
  "priority (folder_summary r cs) =
     (case cs of [] \<Rightarrow> Normal
      | c # cs' \<Rightarrow> if \<forall>d \<in> set cs'. priority d = priority c then priority c else Mixed)"
proof (cases cs)
  case (Cons c cs')
  have "priority (fst (foldl absorb_child (r', True) (c # cs'))) =
      (if \<forall>d \<in> set cs'. priority d = priority c then priority c else Mixed)" for r'
    by (subst foldl_Cons, subst absorb_child_pair, subst foldl_absorb_priority)
      (simp add: absorb_child_second del: absorb_child.simps)
  with Cons show ?thesis by (simp add: folder_summary_def Let_def del: absorb_child.simps foldl_Cons)
qed (simp add: folder_summary_def)

lemma foldl_absorb_checked:
  "checked (fst (foldl absorb_child (r, False) cs)) =
     (if \<forall>c \<in> set cs. checked c = checked r then checked r else Partial)"
proof (induction cs arbitrary: r)
  case (Cons c cs)
  show ?case
    by (subst foldl_Cons, subst absorb_child_pair, subst Cons.IH)
      (auto simp: absorb_child_second simp del: absorb_child.simps)
qed simp

lemma folder_summary_checked:
  "autoCalculateCheckedState r \<Longrightarrow> checked (folder_summary r cs) =
     (case cs of [] \<Rightarrow> Unchecked
      | c # cs' \<Rightarrow> if \<forall>d \<in> set cs'. checked d = checked c then checked c else Partial)"
proof (cases cs)
  case (Cons c cs')
  have "checked (fst (foldl absorb_child (r', True) (c # cs'))) =
      (if \<forall>d \<in> set cs'. checked d = checked c then checked c else Partial)" for r'
    by (subst foldl_Cons, subst absorb_child_pair, subst foldl_absorb_checked)
      (simp add: absorb_child_second del: absorb_child.simps)
  moreover assume "autoCalculateCheckedState r"
  ultimately show ?thesis using Cons by (simp add: folder_summary_def Let_def del: absorb_child.simps foldl_Cons)
qed (simp add: folder_summary_def)

section \<open>The remaining amounts, the array and the node map\<close>

definition same_but_remaining :: "store \<Rightarrow> store \<Rightarrow> bool" where
  "same_but_remaining h h' \<longleftrightarrow> (\<forall>b. \<exists>x. h' b = (h b)\<lparr>remaining := x\<rparr>)"

lemma same_but_remaining_refl [simp]: "same_but_remaining h h"
  unfolding same_but_remaining_def by (metis node.surjective node.update_convs(7))

lemma same_but_remaining_trans:
  assumes "same_but_remaining h h1" "same_but_remaining h1 h2"
  shows "same_but_remaining h h2"
proof -
  have "\<exists>x. h2 b = (h b)\<lparr>remaining := x\<rparr>" for b
  proof -
    obtain x where x: "h1 b = (h b)\<lparr>remaining := x\<rparr>" using assms(1) by (auto simp: same_but_remaining_def)
    obtain y where "h2 b = (h1 b)\<lparr>remaining := y\<rparr>" using assms(2) by (auto simp: same_but_remaining_def)
    with x show ?thesis by auto
  qed
  then show ?thesis by (simp add: same_but_remaining_def)
qed

lemma same_but_remaining_upd:
  assumes "same_but_remaining h h'"
  shows "same_but_remaining h (h'(a := (h' a)\<lparr>remaining := x\<rparr>))"
proof -
  obtain y where "h' a = (h a)\<lparr>remaining := y\<rparr>" using assms by (auto simp: same_but_remaining_def)
  then show ?thesis using assms by (auto simp: same_but_remaining_def)
qed

lemma same_but_remainingD:
  assumes "same_but_remaining h h'"
  shows "isFolder (h' b) = isFolder (h b)" "children (h' b) = children (h b)"
    "file_remaining (h' b) = file_remaining (h b)"
proof -
  obtain x where "h' b = (h b)\<lparr>remaining := x\<rparr>" using assms by (auto simp: same_but_remaining_def)
  then show "isFolder (h' b) = isFolder (h b)" "children (h' b) = children (h b)"
    "file_remaining (h' b) = file_remaining (h b)"
    by (simp_all add: file_remaining_def isIgnored_def)
qed

definition files_left :: "store \<Rightarrow> shape \<Rightarrow> rat" where
  "files_left h s = sum_list (map (file_remaining \<circ> h) (file_addrs h s))"

lemma files_left_cong: "same_but_remaining h h' \<Longrightarrow> files_left h' s = files_left h s"
  by (simp add: files_left_def file_addrs_def same_but_remainingD comp_def)

definition remaining_spec :: "store \<Rightarrow> shape \<Rightarrow> store option \<Rightarrow> bool" where
  "remaining_spec h s res \<longleftrightarrow> (\<exists>h'. res = Some h' \<and> same_but_remaining h h'
     \<and> remaining (h' (top s)) = files_left h s \<and> (\<forall>b. b \<notin> set (addrs s) \<longrightarrow> h' b = h b))"

lemma height_child: "t \<in> set ss \<Longrightarrow> height t < height (Sh a ss)"
  by (auto simp: less_Suc_eq_le intro!: Max_ge)

lemma remaining_children:
  assumes each: "\<And>t h. t \<in> set ss \<Longrightarrow> links h t \<Longrightarrow> remaining_spec h t (calculateRemaining fuel h (top t))"
    and "\<forall>t \<in> set ss. links h t"
  shows "\<exists>h'. foldl (\<lambda>acc c. case acc of None \<Rightarrow> None
            | Some (h', amount) \<Rightarrow>
                (case calculateRemaining fuel h' c of
                   None \<Rightarrow> None
                 | Some h'' \<Rightarrow> Some (h'', amount + remaining (h'' c)))) (Some (h, amount)) (map top ss)
      = Some (h', amount + sum_list (map (files_left h) ss))
    \<and> same_but_remaining h h' \<and> (\<forall>b. b \<notin> set (concat (map addrs ss)) \<longrightarrow> h' b = h b)"
  using assms
proof (induction ss arbitrary: h amount)
  case Nil
  show ?case by simp
next
  case (Cons t ts)
  obtain h1 where h1: "calculateRemaining fuel h (top t) = Some h1" "same_but_remaining h h1"
      "remaining (h1 (top t)) = files_left h t" "\<forall>b. b \<notin> set (addrs t) \<longrightarrow> h1 b = h b"
    using Cons.prems(1) [of t h] Cons.prems(2) by (auto simp: remaining_spec_def)
  have "\<forall>u \<in> set ts. links h1 u"
    using Cons.prems(2) h1(2) by (auto simp: same_but_remainingD links_cong [of _ h1 h])
  from Cons.IH [OF Cons.prems(1) this, of "amount + files_left h t"]
  obtain h2 where "foldl (\<lambda>acc c. case acc of None \<Rightarrow> None
            | Some (h', amount) \<Rightarrow>
                (case calculateRemaining fuel h' c of
                   None \<Rightarrow> None
                 | Some h'' \<Rightarrow> Some (h'', amount + remaining (h'' c)))) (Some (h1, amount + files_left h t)) (map top ts)
      = Some (h2, amount + files_left h t + sum_list (map (files_left h1) ts))"
      "same_but_remaining h1 h2" "\<forall>b. b \<notin> set (concat (map addrs ts)) \<longrightarrow> h2 b = h1 b"
    by auto
  moreover have "map (files_left h1) ts = map (files_left h) ts"
    by (simp add: files_left_cong [OF h1(2)])
  ultimately show ?case
    using h1 by (auto simp: add.assoc intro: same_but_remaining_trans)
qed

lemma calculateRemaining_spec:
  "links h s \<Longrightarrow> height s \<le> fuel \<Longrightarrow> remaining_spec h s (calculateRemaining fuel h (top s))"
proof (induction s arbitrary: h fuel)
  case (Sh a ss)
  obtain k where k: "fuel = Suc k" using Sh.prems(2) by (cases fuel) auto
  show ?case
  proof (cases "isFolder (h a)")
    case False
    then show ?thesis
      using Sh.prems(1) k
      by (auto simp: remaining_spec_def files_left_def file_addrs_def same_but_remaining_upd)
  next
    case True
    have each: "t \<in> set ss \<Longrightarrow> links h t \<Longrightarrow> remaining_spec h t (calculateRemaining k h (top t))" for t h
      using Sh.IH [of t h k] Sh.prems(2) height_child [of t ss a] k by auto
    have ch: "children (h a) = map top ss" and sub: "\<forall>t \<in> set ss. links h t" using Sh.prems by auto
    have left: "sum_list (map (files_left h) ss) = files_left h (Sh a ss)"
      using True by (simp add: files_left_def [abs_def] file_addrs_Sh [OF Sh.prems(1)] map_concat sum_list_concat comp_def)
    from remaining_children [OF each sub, of 0] True ch left show ?thesis
      unfolding k by (auto simp: remaining_spec_def intro!: same_but_remaining_upd)
  qed
qed

text \<open>The array lists the tree in preorder, the root left out.\<close>

lemma array_loop_forest:
  "\<forall>t \<in> set ss. links h t \<Longrightarrow> sum_list (map weight ss) \<le> fuel \<Longrightarrow>
     array_loop fuel h (rev (map top ss)) ret = Some (ret @ concat (map addrs ss))"
proof (induction fuel arbitrary: ss ret)
  case 0
  then have "ss = []" using weight_pos by (cases ss) auto
  then show ?case by simp
next
  case (Suc fuel)
  show ?case
  proof (cases ss)
    case Nil
    then show ?thesis by simp
  next
    case (Cons t ts)
    obtain a us where t: "t = Sh a us" by (cases t)
    have "array_loop fuel h (rev (map top (us @ ts))) (ret @ [a]) = Some ((ret @ [a]) @ concat (map addrs (us @ ts)))"
      using Suc.prems Cons t by (intro Suc.IH) auto
    with Suc.prems Cons t show ?thesis by (simp add: rev_map)
  qed
qed

text \<open>The node map: the loop stores the rows of the nodes it pops.\<close>

definition row_entries :: "store \<Rightarrow> addr list \<Rightarrow> (nat \<times> addr) list" where
  "row_entries h as = concat (map (\<lambda>a. case rowId (h a) of
      Some r \<Rightarrow> (if root (h a) \<noteq> None then [(r, a)] else []) | None \<Rightarrow> []) as)"

fun put_row :: "(nat \<Rightarrow> addr option) \<Rightarrow> nat \<times> addr \<Rightarrow> nat \<Rightarrow> addr option" where
  "put_row m (r, a) = m(r \<mapsto> a)"

fun popped :: "shape \<Rightarrow> addr list" where
  "popped (Sh a ss) = a # concat (map popped (rev ss))"

lemma set_popped: "set (popped s) = set (addrs s)"
  by (induction s) auto

lemma row_entries_append: "row_entries h (as @ bs) = row_entries h as @ row_entries h bs"
  by (simp add: row_entries_def)

lemma map_loop_pop:
  "map_loop (Suc fuel) h (stack @ [a]) m =
     map_loop fuel h (stack @ children (h a)) (foldl put_row m (row_entries h [a]))"
  by (cases "rowId (h a)") (simp_all add: row_entries_def)

lemma map_loop_forest:
  "\<forall>t \<in> set ss. links h t \<Longrightarrow> sum_list (map weight ss) \<le> fuel \<Longrightarrow>
     map_loop fuel h (map top ss) m = Some (foldl put_row m (row_entries h (concat (map popped (rev ss)))))"
proof (induction fuel arbitrary: ss m)
  case 0
  then have "ss = []" using weight_pos by (cases ss) auto
  then show ?case by (simp add: row_entries_def)
next
  case (Suc fuel)
  show ?case
  proof (cases ss rule: rev_cases)
    case Nil
    then show ?thesis by (simp add: row_entries_def)
  next
    case (snoc ts t)
    obtain a us where t: "t = Sh a us" by (cases t)
    have "map_loop fuel h (map top (ts @ us)) m'
        = Some (foldl put_row m' (row_entries h (concat (map popped (rev (ts @ us))))))" for m'
      using Suc.prems snoc t by (intro Suc.IH) auto
    moreover have "children (h a) = map top us" using Suc.prems snoc t by simp
    moreover have "concat (map popped (rev ss)) = [a] @ concat (map popped (rev (ts @ us)))"
      using snoc t by simp
    moreover have "map top ss = map top ts @ [a]" using snoc t by simp
    ultimately show ?thesis
      by (simp only: map_loop_pop row_entries_append foldl_append map_append)
  qed
qed

lemma foldl_map_upd_notin: "r \<notin> fst ` set es \<Longrightarrow> foldl put_row m es r = m r"
  by (induction es arbitrary: m) auto

lemma foldl_map_upd_in:
  "(r, a) \<in> set es \<Longrightarrow> \<forall>e \<in> set es. fst e = r \<longrightarrow> snd e = a \<Longrightarrow> foldl put_row m es r = Some a"
proof (induction es arbitrary: m)
  case (Cons e es)
  show ?case
  proof (cases "(r, a) \<in> set es")
    case True
    then show ?thesis using Cons.IH [OF True] Cons.prems(2) by simp
  next
    case False
    then have "r \<notin> fst ` set es" using Cons.prems(2) by (metis (no_types, lifting) image_iff list.set_intros(2) prod.collapse)
    moreover have "e = (r, a)" using False Cons.prems(1) by simp
    ultimately show ?thesis by (simp add: foldl_map_upd_notin)
  qed
qed simp

lemma set_row_entries:
  "(r, a) \<in> set (row_entries h as) \<longleftrightarrow> a \<in> set as \<and> rowId (h a) = Some r \<and> root (h a) \<noteq> None"
  by (force simp: row_entries_def split: option.splits)

section \<open>Properties\<close>

text \<open>A store for the examples: a folder with a file and a folder that holds one file.\<close>

definition ex_store :: store where
  "ex_store a = (if a = 0 then new_FolderNode\<lparr>children := [1, 2]\<rparr>
     else if a = 1 then new_FileNode\<lparr>size_of := 10, progress := 50, rowId := Some 7, root := Some 0\<rparr>
     else if a = 2 then new_FolderNode\<lparr>children := [3], rowId := Some 8, root := Some 0\<rparr>
     else new_FileNode\<lparr>size_of := 30, progress := 100, priority := Ignored, rowId := Some 9, root := Some 2\<rparr>)"

definition ex_shape :: shape where
  "ex_shape = Sh 0 [Sh 1 [], Sh 2 [Sh 3 []]]"

lemma ex_links: "links ex_store ex_shape" "distinct (addrs ex_shape)" "weight ex_shape = 4" "height ex_shape = 3"
  by (simp_all add: ex_store_def ex_shape_def new_FolderNode_def new_FileNode_def)

text \<open>
  C13: On every tree of nodes, \<open>calculateSize\<close> returns: the loop needs at most two iterations per
  node. Every folder then holds the summary of its children, nothing else changes, and the size
  of the root is the sum of the sizes of its files.
\<close>

theorem calculateSize_correct:
  assumes "links h s" and "distinct (addrs s)" and "2 * weight s \<le> fuel"
  shows "\<exists>h'. calculateSize fuel h (top s) = Some h'
    \<and> (\<forall>a \<in> set (addrs s). h' a = (if isFolder (h a)
          then folder_summary (h a) (map h' (children (h a))) else h a))
    \<and> (\<forall>a. a \<notin> set (addrs s) \<longrightarrow> h' a = h a)
    \<and> size_of (h' (top s)) = sum_list (map (size_of \<circ> h) (file_addrs h s))"
  using calculateSize_summed [OF assms] summed_consistent [OF assms(1,2)] total_size [of s h "summed h s"]
    assms(1) summed_outside [of _ s h]
  by (intro exI [of _ "summed h s"]) (simp add: consistent_at_def)

theorem calculateSize_correct_witness:
  "\<exists>h'. calculateSize 8 ex_store 0 = Some h' \<and> size_of (h' 0) = 40"
proof -
  have "file_addrs ex_store ex_shape = [1, 3]"
    by (simp add: file_addrs_def ex_shape_def ex_store_def new_FolderNode_def new_FileNode_def)
  moreover have "top ex_shape = 0" by (simp add: ex_shape_def)
  ultimately show ?thesis
    using calculateSize_correct [of ex_store ex_shape 8] ex_links
    by (auto simp: ex_store_def new_FolderNode_def new_FileNode_def)
qed

text \<open>
  After \<open>calculateSize\<close>, every folder's progress is between 0 and 100 when the files' are and
  no file has a negative size; a folder of size 0 shows 0.
\<close>

theorem calculateSize_progress_range:
  assumes "links h s" and "distinct (addrs s)" and "2 * weight s \<le> fuel"
    and "\<And>a. a \<in> set (file_addrs h s) \<Longrightarrow> 0 \<le> size_of (h a) \<and> 0 \<le> progress (h a) \<and> progress (h a) \<le> 100"
    and "calculateSize fuel h (top s) = Some h'" and "a \<in> set (addrs s)"
  shows "0 \<le> size_of (h' a) \<and> 0 \<le> progress (h' a) \<and> progress (h' a) \<le> 100"
proof -
  have h': "h' = summed h s" using assms(5) calculateSize_summed [OF assms(1-3)] by simp
  then have con: "consistent_at h h' b" if "b \<in> set (addrs s)" for b
    using that summed_consistent assms(1,2) by blast
  have "\<forall>a \<in> set (addrs t). 0 \<le> size_of (h' a) \<and> 0 \<le> progress (h' a) \<and> progress (h' a) \<le> 100"
    if "links h t" "set (addrs t) \<subseteq> set (addrs s)" for t
    using that
  proof (induction t)
    case (Sh b ts)
    have below: "\<forall>c \<in> set (concat (map addrs ts)). 0 \<le> size_of (h' c) \<and> 0 \<le> progress (h' c) \<and> progress (h' c) \<le> 100"
      using Sh.prems Sh.IH by fastforce
    then have "0 \<le> size_of (h' (top t)) \<and> 0 \<le> progress (h' (top t)) \<and> progress (h' (top t)) \<le> 100"
      if "t \<in> set ts" for t using that by fastforce
    then have kids: "\<And>c. c \<in> set (map (\<lambda>t. h' (top t)) ts) \<Longrightarrow> 0 \<le> size_of c \<and> 0 \<le> progress c \<and> progress c \<le> 100"
      by auto
    have "0 \<le> size_of (h' b) \<and> 0 \<le> progress (h' b) \<and> progress (h' b) \<le> 100"
    proof (cases "isFolder (h b)")
      case True
      then have "h' b = folder_summary (h b) (map (\<lambda>t. h' (top t)) ts)"
        using con [of b] Sh.prems by (simp add: consistent_at_def comp_def)
      then show ?thesis
        using folder_summary_progress [of "map (\<lambda>t. h' (top t)) ts" "h b", OF kids] kids by (auto intro!: sum_list_nonneg)
    next
      case False
      then show ?thesis using con [of b] Sh.prems assms(4) [of b] by (simp add: consistent_at_def file_addrs_def)
    qed
    with below show ?case by auto
  qed
  from this [OF assms(1)] assms(6) show ?thesis by blast
qed

theorem calculateSize_progress_range_witness:
  "\<exists>h'. calculateSize 8 ex_store 0 = Some h' \<and> progress (h' 2) \<le> 100"
proof -
  have files: "\<And>a. a \<in> set (file_addrs ex_store ex_shape) \<Longrightarrow>
      0 \<le> size_of (ex_store a) \<and> 0 \<le> progress (ex_store a) \<and> progress (ex_store a) \<le> 100"
    by (auto simp: file_addrs_def ex_shape_def ex_store_def new_FolderNode_def new_FileNode_def)
  have "2 \<in> set (addrs ex_shape)" "top ex_shape = 0" by (simp_all add: ex_shape_def)
  then show ?thesis
    using calculateSize_summed [of ex_store ex_shape 8] ex_links
      calculateSize_progress_range [OF ex_links(1,2) _ files, of 8 _ 2] by auto
qed

text \<open>
  C35: On every tree, \<open>calculateRemaining\<close> returns (its recursion is as deep as the tree), changes
  nothing but \<open>remaining\<close> fields, and leaves in the root the sum over its files of the part of
  their size that is not downloaded, ignored files counting 0.
\<close>

theorem calculateRemaining_correct:
  assumes "links h s" and "height s \<le> fuel"
  shows "\<exists>h'. calculateRemaining fuel h (top s) = Some h'
    \<and> (\<forall>b. \<exists>x. h' b = (h b)\<lparr>remaining := x\<rparr>)
    \<and> (\<forall>b. b \<notin> set (addrs s) \<longrightarrow> h' b = h b)
    \<and> remaining (h' (top s)) = sum_list (map (\<lambda>a. if priority (h a) = Ignored then 0
         else size_of (h a) * (1 - progress (h a) / 100)) (file_addrs h s))"
  using calculateRemaining_spec [OF assms]
  by (auto simp: remaining_spec_def same_but_remaining_def files_left_def file_remaining_def isIgnored_def comp_def)

theorem calculateRemaining_correct_witness:
  "\<exists>h'. calculateRemaining 3 ex_store 0 = Some h' \<and> remaining (h' 0) = 5"
proof -
  have "file_addrs ex_store ex_shape = [1, 3]"
    by (simp add: file_addrs_def ex_shape_def ex_store_def new_FolderNode_def new_FileNode_def)
  moreover have "top ex_shape = 0" by (simp add: ex_shape_def)
  ultimately show ?thesis
    using calculateRemaining_correct [of ex_store ex_shape 3] ex_links
    by (auto simp: ex_store_def new_FolderNode_def new_FileNode_def)
qed

text \<open>
  C32: \<open>setRoot\<close> on a fresh tree object with distinct row ids returns; then \<open>getNode\<close> finds
  exactly the nodes of the tree other than the root, by their row ids, and \<open>toArray\<close> lists the
  same nodes in preorder.
\<close>

theorem setRoot_index:
  assumes "links h s" and "distinct (addrs s)" and "2 * weight s \<le> fuel"
    and "\<And>a b. a \<in> set (addrs s) \<Longrightarrow> b \<in> set (addrs s) \<Longrightarrow> rowId (h a) \<noteq> None \<Longrightarrow> rowId (h a) = rowId (h b) \<Longrightarrow> a = b"
  shows "\<exists>h' t. setRoot fuel h new_FileTree (top s) = Some (h', t)
    \<and> (\<forall>r a. getNode t r = Some a \<longleftrightarrow> a \<in> set (addrs s) \<and> rowId (h a) = Some r \<and> root (h a) \<noteq> None)
    \<and> toArray fuel h' t = Some (tl (addrs s))"
proof -
  obtain a ss where s: "s = Sh a ss" by (cases s)
  let ?es = "row_entries h (popped s)" and ?h' = "if isFolder (h a) then summed h s else h"
  let ?t = "\<lparr>tree_root = Some a, nodeMap = foldl put_row Map.empty ?es\<rparr>"
  have "map_loop fuel h (map top [s]) Map.empty = Some (foldl put_row Map.empty (row_entries h (concat (map popped (rev [s])))))"
    using assms by (intro map_loop_forest) auto
  then have res: "setRoot fuel h new_FileTree (top s) = Some (?h', ?t)"
    using calculateSize_summed [OF assms(1-3)] s by (simp add: setRoot_def new_FileTree_def)
  have uniq: "\<forall>e \<in> set ?es. fst e = r \<longrightarrow> snd e = b" if "(r, b) \<in> set ?es" for r b
    using that assms(4) by (auto simp: set_row_entries set_popped)
  have "foldl put_row Map.empty ?es r = Some b \<longleftrightarrow> (r, b) \<in> set ?es" for r b
  proof (cases "r \<in> fst ` set ?es")
    case True
    then obtain c where "(r, c) \<in> set ?es" by auto
    with foldl_map_upd_in [OF this uniq [OF this]] uniq [OF this] show ?thesis by force
  next
    case False
    then show ?thesis by (force simp: foldl_map_upd_notin)
  qed
  then have get: "getNode ?t r = Some b \<longleftrightarrow> b \<in> set (addrs s) \<and> rowId (h b) = Some r \<and> root (h b) \<noteq> None" for r b
    by (simp add: getNode_def set_row_entries set_popped)
  have ch: "children (?h' a) = map top ss" using assms(1) s by (simp del: summed.simps)
  have "array_loop fuel ?h' (rev (map top ss)) [] = Some ([] @ concat (map addrs ss))"
    using assms(1,3) s by (intro array_loop_forest) (auto simp del: summed.simps)
  then have "toArray fuel ?h' ?t = Some (tl (addrs s))"
    using ch by (simp add: toArray_def s)
  with res get show ?thesis by blast
qed

theorem setRoot_index_witness:
  "\<exists>h' t. setRoot 8 ex_store new_FileTree 0 = Some (h', t) \<and> getNode t 9 = Some 3 \<and> toArray 8 h' t = Some [1, 2, 3]"
proof -
  have rows: "rowId (ex_store 3) = Some 9" "root (ex_store 3) \<noteq> None"
    "\<And>a b. a \<in> set (addrs ex_shape) \<Longrightarrow> b \<in> set (addrs ex_shape) \<Longrightarrow>
      rowId (ex_store a) \<noteq> None \<Longrightarrow> rowId (ex_store a) = rowId (ex_store b) \<Longrightarrow> a = b"
    by (auto simp: ex_shape_def ex_store_def new_FolderNode_def new_FileNode_def)
  have ex: "addrs ex_shape = [0, 1, 2, 3]" "top ex_shape = 0" by (simp_all add: ex_shape_def)
  have "\<exists>h' t. setRoot 8 ex_store new_FileTree (top ex_shape) = Some (h', t)
      \<and> (\<forall>r a. getNode t r = Some a \<longleftrightarrow> a \<in> set (addrs ex_shape) \<and> rowId (ex_store a) = Some r \<and> root (ex_store a) \<noteq> None)
      \<and> toArray 8 h' t = Some (tl (addrs ex_shape))"
    by (rule setRoot_index) (use ex_links rows(3) in auto)
  with rows(1,2) ex show ?thesis by (elim exE conjE) (intro exI conjI; simp)
qed

end
