(* ===== verification/TableCore.thy ===== *)
theory TableCore
  imports JsMisc "HOL-Library.Multiset"
begin

text \<open>
  The class \<open>DynamicTable\<close> of \<open>dynamicTable.js\<close>: rows keyed by their ids, columns with their
  order and visibility, the selection, sorting, and the two ways a table is drawn (all rows in
  the document, reordered in place, or a window of rows over the scrolled area). Methods that a
  subclass overrides are arguments of the definitions that call them: \<open>fsr\<close> is
  \<open>getFilteredAndSortedRows\<close>. The collator of the browser is the argument \<open>collate\<close>. An
  element of the table body is its row id with its two classes.
\<close>

section \<open>Comparing values\<close>

definition compareNumbers :: "rat cmp" where
  "compareNumbers val1 val2 = (if val1 < val2 then -1 else if val2 < val1 then 1 else 0)"

fun js_String :: "jsval \<Rightarrow> string" where
  "js_String JUndef = ''undefined''"
| "js_String JNull = ''null''"
| "js_String (JBool b) = (if b then ''true'' else ''false'')"
| "js_String (JNum x) = js_num_str x"
| "js_String (JStr s) = s"
| "js_String (JArr xs) = js_join '','' (map (\<lambda>x. if x = JUndef \<or> x = JNull then [] else js_String x) xs)"
| "js_String (JObj m) = ''[object Object]''"

definition compareValues :: "string cmp \<Rightarrow> jsval cmp" where
  "compareValues collate value1 value2 =
     (case (value1, value2) of
        (JNum x, JNum y) \<Rightarrow> compareNumbers x y
      | _ \<Rightarrow> collate (js_String value1) (js_String value2))"

definition is_number :: "jsval \<Rightarrow> bool" where
  "is_number v = (case v of JNum _ \<Rightarrow> True | _ \<Rightarrow> False)"

interpretation numbers: comparator_on UNIV compareNumbers
  by unfold_locales (auto simp: compareNumbers_def split: if_splits)

lemma compareNumbers_le [cmp_simps]: "compareNumbers x y \<le> 0 \<longleftrightarrow> x \<le> y"
  by (auto simp: compareNumbers_def)

lemma compareNumbers_eq [cmp_simps]: "compareNumbers x y = 0 \<longleftrightarrow> x = y"
  by (auto simp: compareNumbers_def)

text \<open>
  The default comparison is consistent on a column whose values are all numbers and on a column
  that holds none.
\<close>

lemma compareValues_numbers: "comparator_on (Collect is_number) (compareValues collate)"
proof
  fix x y z
  assume "x \<in> Collect is_number"
  then obtain a where x: "x = JNum a" by (auto simp: is_number_def split: jsval.splits)
  show "compareValues collate x x = 0" by (simp add: x compareValues_def numbers.cmp_refl)
  assume "y \<in> Collect is_number"
  then obtain b where y: "y = JNum b" by (auto simp: is_number_def split: jsval.splits)
  show "sgn (compareValues collate x y) = - sgn (compareValues collate y x)"
    using numbers.cmp_sym [of a b] by (simp add: x y compareValues_def)
  assume "z \<in> Collect is_number"
  then obtain c where z: "z = JNum c" by (auto simp: is_number_def split: jsval.splits)
  assume "compareValues collate x y \<le> 0" "compareValues collate y z \<le> 0"
  then show "compareValues collate x z \<le> 0"
    by (simp add: x y z compareValues_def cmp_simps)
qed

lemma compareValues_text:
  assumes "comparator_on UNIV collate"
  shows "comparator_on {v. \<not> is_number v} (compareValues collate)"
proof -
  have "compareValues collate x y = collate (js_String x) (js_String y)" if "\<not> is_number x" for x y
    using that by (cases x) (simp_all add: compareValues_def is_number_def)
  then show ?thesis
    by (intro comparator_on_cong [OF comparator_on_pullback [OF assms, of "{v. \<not> is_number v}" js_String]]) simp_all
qed

section \<open>Columns\<close>

record column =
  col_name :: string
  caption :: string
  col_style :: string
  visible :: string
  force_hide :: bool
  width :: "rat option"
  dataProperties :: "string list"

record row =
  row_id :: string
  full_data :: jsobj
  delta :: jsobj

type_synonym preferences = "(string, string) jsmap"

record tr_class =
  is_invisible :: bool
  is_marked :: bool

record table =
  tableId :: string
  columns :: "column list"
  rows :: "(string, row) jsmap"
  selectedRows :: "string list"
  sortedColumn :: string
  reverseSort :: string
  useVirtualList :: bool
  trs :: "(string, tr_class) jsmap"
  rowHeight :: rat
  renderedHeight :: rat
  renderedOffset :: rat

definition pref_or :: "preferences \<Rightarrow> string \<Rightarrow> string \<Rightarrow> string" where
  "pref_or prefs key dflt = (case map_get prefs key of None \<Rightarrow> dflt | Some v \<Rightarrow> v)"

definition column_pref :: "string \<Rightarrow> string \<Rightarrow> string \<Rightarrow> string" where
  "column_pref nm what tbl = ''column_'' @ nm @ ''_'' @ what @ ''_'' @ tbl"

definition newColumn ::
  "preferences \<Rightarrow> string \<Rightarrow> string \<Rightarrow> string \<Rightarrow> rat \<Rightarrow> bool \<Rightarrow> table \<Rightarrow> table" where
  "newColumn prefs nm style cap defaultWidth defaultVisible t =
     t\<lparr>columns := columns t @
        [\<lparr>col_name = nm, caption = cap, col_style = style,
          visible = pref_or prefs (column_pref nm ''visible'' (tableId t)) (if defaultVisible then ''1'' else ''0''),
          force_hide = False,
          width = (if defaultWidth = -1 then None
                   else js_Number (pref_or prefs (column_pref nm ''width'' (tableId t)) (js_num_str defaultWidth))),
          dataProperties = [nm]\<rparr>]\<rparr>"

definition isVisible :: "column \<Rightarrow> bool" where
  "isVisible c \<longleftrightarrow> visible c = ''1'' \<and> \<not> force_hide c"

definition find_column :: "table \<Rightarrow> string \<Rightarrow> column option" where
  "find_column t nm = find (\<lambda>c. col_name c = nm) (columns t)"

definition order_key :: "table \<Rightarrow> string" where
  "order_key t = ''columns_order_'' @ tableId t"

text \<open>\<open>loadColumnsOrder\<close>: the saved names that are columns, once each, then the other columns.\<close>

definition merged_order :: "string list \<Rightarrow> string list \<Rightarrow> string list" where
  "merged_order saved present =
     (let order = foldl (\<lambda>order nm. if nm \<in> set present then set_add nm order else order) [] saved
      in foldl (\<lambda>order nm. set_add nm order) order present)"

definition loadColumnsOrder :: "preferences \<Rightarrow> table \<Rightarrow> table" where
  "loadColumnsOrder prefs t =
     (case map_get prefs (order_key t) of
        None \<Rightarrow> t
      | Some savedOrder \<Rightarrow>
          let byName = map (\<lambda>c. (col_name c, c)) (columns t);
              orderedNames = merged_order (js_split '','' savedOrder) (map col_name (columns t))
          in t\<lparr>columns := map (\<lambda>nm. the (map_of byName nm)) (take (length (columns t)) orderedNames)\<rparr>)"

definition saveColumnsOrder :: "table \<Rightarrow> preferences \<Rightarrow> preferences" where
  "saveColumnsOrder t prefs =
     map_set (order_key t)
       (foldl (\<lambda>val (i, c). (if 0 < i then val @ '','' else val) @ col_name c) []
          (zip [0 ..< length (columns t)] (columns t)))
       prefs"

fun pos_from :: "nat \<Rightarrow> string \<Rightarrow> column list \<Rightarrow> int" where
  "pos_from i nm [] = -1"
| "pos_from i nm (c # cs) = (if col_name c = nm then int i else pos_from (Suc i) nm cs)"

definition getColumnPos :: "table \<Rightarrow> string \<Rightarrow> int" where
  "getColumnPos t nm = pos_from 0 nm (columns t)"

definition list_splice :: "nat \<Rightarrow> 'a \<Rightarrow> 'a list \<Rightarrow> 'a list" where
  "list_splice pos x xs = take pos xs @ [x] @ drop pos xs"

fun index_of :: "'a \<Rightarrow> 'a list \<Rightarrow> int" where
  "index_of x [] = -1"
| "index_of x (y # ys) = (if x = y then 0 else let i = index_of x ys in if i = -1 then -1 else i + 1)"

definition splice_pos :: "int \<Rightarrow> nat \<Rightarrow> nat" where
  "splice_pos pos len = (if pos < 0 then nat (max 0 (int len + pos)) else min (nat pos) len)"

definition showColumn :: "string \<Rightarrow> bool \<Rightarrow> preferences \<Rightarrow> table \<Rightarrow> preferences \<times> table" where
  "showColumn nm sh prefs t =
     (map_set (column_pref nm ''visible'' (tableId t)) (if sh then ''1'' else ''0'') prefs,
      t\<lparr>columns := map (\<lambda>c. if col_name c = nm then c\<lparr>visible := if sh then ''1'' else ''0''\<rparr> else c) (columns t)\<rparr>)"

text \<open>\<open>onDrag\<close> of a resize: the width follows the pointer, with a minimum.\<close>

definition dragWidth :: "rat \<Rightarrow> rat \<Rightarrow> rat \<Rightarrow> rat" where
  "dragWidth startWidth pageX dragStartX =
     (let width = startWidth + (pageX - dragStartX) in if width < 16 then 16 else width)"

definition prop_get :: "jsobj \<Rightarrow> string \<Rightarrow> jsval" where
  "prop_get o' p = (case map_of o' p of None \<Rightarrow> JUndef | Some v \<Rightarrow> v)"

definition getRowValue :: "column \<Rightarrow> row \<Rightarrow> nat \<Rightarrow> jsval" where
  "getRowValue c r pos =
     (if pos < length (dataProperties c) then prop_get (full_data r) (dataProperties c ! pos) else JUndef)"

definition compareRows :: "string cmp \<Rightarrow> column \<Rightarrow> row cmp" where
  "compareRows collate c row1 row2 = compareValues collate (getRowValue c row1 0) (getRowValue c row2 0)"

section \<open>Rows\<close>

definition merge_props :: "jsobj \<Rightarrow> jsobj \<Rightarrow> jsobj" where
  "merge_props full data = foldl (\<lambda>o' (x, v). map_set x v o') full data"

definition updateRowData :: "jsobj \<Rightarrow> table \<Rightarrow> table" where
  "updateRowData d t =
     (let rid = js_String (prop_get d ''rowId'');
          r = (case map_get (rows t) rid of
                 None \<Rightarrow> \<lparr>row_id = rid, full_data = [], delta = []\<rparr> | Some r \<Rightarrow> r)
      in t\<lparr>rows := map_set rid (r\<lparr>delta := d, full_data := merge_props (full_data r) d\<rparr>) (rows t)\<rparr>)"

definition setRows :: "jsobj list \<Rightarrow> table \<Rightarrow> table" where
  "setRows ds t =
     (let t' = foldl (\<lambda>t d. updateRowData d t) t ds;
          newRowIds = set_of_list (map (\<lambda>d. js_String (prop_get d ''rowId'')) ds)
      in t'\<lparr>rows := foldl (\<lambda>m rid. if rid \<in> set newRowIds then m else map_delete rid m) (rows t') (keys (rows t'))\<rparr>)"

definition sort_rows :: "row cmp \<Rightarrow> bool \<Rightarrow> row list \<Rightarrow> row list" where
  "sort_rows cmp isReverseSort rs =
     js_sort (\<lambda>row1 row2. let result = cmp row1 row2 in if isReverseSort then result else - result) rs"

text \<open>
  The method collects the rows in an array and also assigns each row to the property named by
  its id; an id that is an array index writes an element of the array. Holes are sorted last
  and skipped here.
\<close>

definition array_index :: "string \<Rightarrow> nat option" where
  "array_index s = (let n = digits_val s in
     if s \<noteq> [] \<and> list_all is_digit s \<and> nat_str n = s \<and> n < 2 ^ 32 - 1 then Some n else None)"

definition array_put :: "string \<Rightarrow> 'a \<Rightarrow> 'a option list \<Rightarrow> 'a option list" where
  "array_put key x arr =
     (case array_index key of
        None \<Rightarrow> arr
      | Some i \<Rightarrow> (arr @ replicate (Suc i - length arr) None)[i := Some x])"

definition collect_rows :: "row list \<Rightarrow> row option list" where
  "collect_rows rs = foldl (\<lambda>arr r. array_put (row_id r) r (arr @ [Some r])) [] rs"

definition array_elements :: "'a option list \<Rightarrow> 'a list" where
  "array_elements arr = concat (map (\<lambda>e. case e of None \<Rightarrow> [] | Some x \<Rightarrow> [x]) arr)"

definition getFilteredAndSortedRows :: "(table \<Rightarrow> row cmp) \<Rightarrow> table \<Rightarrow> row list" where
  "getFilteredAndSortedRows cmp t =
     sort_rows (cmp t) (reverseSort t = ''0'') (array_elements (collect_rows (map snd (rows t))))"

section \<open>Selection\<close>

definition getSelectedRowId :: "table \<Rightarrow> string" where
  "getSelectedRowId t = (if selectedRows t \<noteq> [] then hd (selectedRows t) else [])"

definition isRowSelected :: "table \<Rightarrow> string \<Rightarrow> bool" where
  "isRowSelected t rid \<longleftrightarrow> rid \<in> set (selectedRows t)"

definition setRowClass :: "table \<Rightarrow> table" where
  "setRowClass t = t\<lparr>trs := map (\<lambda>(rid, c). (rid, c\<lparr>is_marked := isRowSelected t rid\<rparr>)) (trs t)\<rparr>"

definition deselectAll :: "table \<Rightarrow> table" where
  "deselectAll t = t\<lparr>selectedRows := []\<rparr>"

definition selectAll :: "(table \<Rightarrow> row list) \<Rightarrow> table \<Rightarrow> table" where
  "selectAll fsr t =
     (let t = deselectAll t;
          t = foldl (\<lambda>u r. u\<lparr>selectedRows := selectedRows u @ [row_id r]\<rparr>) t (fsr t)
      in setRowClass t)"

definition selectRow :: "string \<Rightarrow> table \<Rightarrow> table" where
  "selectRow rid t = setRowClass (t\<lparr>selectedRows := selectedRows t @ [rid]\<rparr>)"

definition deselectRow :: "string \<Rightarrow> table \<Rightarrow> table" where
  "deselectRow rid t = setRowClass (t\<lparr>selectedRows := filter (\<lambda>x. x \<noteq> rid) (selectedRows t)\<rparr>)"

fun range_loop :: "table \<Rightarrow> string \<Rightarrow> string \<Rightarrow> bool \<Rightarrow> row list \<Rightarrow> string list \<Rightarrow> string list" where
  "range_loop t rowId1 rowId2 select [] sel = sel"
| "range_loop t rowId1 rowId2 select (r # rs) sel =
     (if row_id r = rowId1 \<or> row_id r = rowId2
      then range_loop t rowId1 rowId2 (\<not> select) rs (sel @ [row_id r])
      else if select
      then (if useVirtualList t then range_loop t rowId1 rowId2 select rs (sel @ [row_id r])
            else (case map_get (trs t) (row_id r) of
                    Some c \<Rightarrow> if is_invisible c then range_loop t rowId1 rowId2 select rs sel
                              else range_loop t rowId1 rowId2 select rs (sel @ [row_id r])
                  | None \<Rightarrow> range_loop t rowId1 rowId2 select rs sel))
      else range_loop t rowId1 rowId2 select rs sel)"

definition selectRows :: "(table \<Rightarrow> row list) \<Rightarrow> string \<Rightarrow> string \<Rightarrow> table \<Rightarrow> table" where
  "selectRows fsr rowId1 rowId2 t =
     (let t = deselectAll t in
      if rowId1 = rowId2 then selectRow rowId1 t
      else setRowClass (t\<lparr>selectedRows := range_loop t rowId1 rowId2 False (fsr t) []\<rparr>))"

definition reselectRows :: "string list \<Rightarrow> table \<Rightarrow> table" where
  "reselectRows rowIds t = setRowClass ((deselectAll t)\<lparr>selectedRows := rowIds\<rparr>)"

text \<open>The mouse and keyboard handlers of the table.\<close>

definition clickRow :: "(table \<Rightarrow> row list) \<Rightarrow> bool \<Rightarrow> bool \<Rightarrow> string option \<Rightarrow> table \<Rightarrow> table" where
  "clickRow fsr ctrlKey shiftKey target t =
     (case target of
        None \<Rightarrow> setRowClass (deselectAll t)
      | Some rid \<Rightarrow>
          if ctrlKey then (if isRowSelected t rid then deselectRow rid t else selectRow rid t)
          else if shiftKey \<and> length (selectedRows t) = 1 then selectRows fsr (getSelectedRowId t) rid t
          else selectRow rid (deselectAll t))"

definition contextmenuRow :: "string option \<Rightarrow> table \<Rightarrow> table" where
  "contextmenuRow target t =
     (case target of
        None \<Rightarrow> t
      | Some rid \<Rightarrow> if isRowSelected t rid then t else selectRow rid (deselectAll t))"

definition visible_ids :: "table \<Rightarrow> string list" where
  "visible_ids t = map fst (filter (\<lambda>(rid, c). \<not> is_invisible c) (trs t))"

definition selectNextRow :: "table \<Rightarrow> table" where
  "selectNextRow t =
     (let visibleRows = visible_ids t;
          selectedIndex = index_of (getSelectedRowId t) visibleRows;
          isLastRowSelected = selectedIndex \<ge> int (length visibleRows) - 1
      in if \<not> isLastRowSelected then selectRow (visibleRows ! nat (selectedIndex + 1)) (deselectAll t) else t)"

definition selectPreviousRow :: "table \<Rightarrow> table" where
  "selectPreviousRow t =
     (let visibleRows = visible_ids t;
          selectedIndex = index_of (getSelectedRowId t) visibleRows;
          isFirstRowSelected = selectedIndex \<le> 0
      in if \<not> isFirstRowSelected then selectRow (visibleRows ! nat (selectedIndex - 1)) (deselectAll t) else t)"

section \<open>Drawing\<close>

text \<open>
  \<open>updateRow\<close>: the columns whose cells are redrawn, and the row with its changes consumed.
\<close>

definition has_own :: "jsobj \<Rightarrow> string \<Rightarrow> bool" where
  "has_own o' p \<longleftrightarrow> p \<in> set (map fst o')"

definition updateRow :: "string \<Rightarrow> bool \<Rightarrow> table \<Rightarrow> string list \<times> table" where
  "updateRow rid fullUpdate t =
     (case map_get (rows t) rid of
        None \<Rightarrow> ([], t)
      | Some r \<Rightarrow>
          let d = (if fullUpdate then full_data r else delta r)
          in (map col_name (filter (\<lambda>c. list_ex (has_own d) (dataProperties c)) (columns t)),
              t\<lparr>rows := map_set rid (r\<lparr>delta := []\<rparr>) (rows t)\<rparr>))"

text \<open>Pruning the selection: \<open>splice\<close> at \<open>i\<close> and step back.\<close>

function prune_loop :: "string set \<Rightarrow> nat \<Rightarrow> string list \<Rightarrow> string list" where
  "prune_loop rowIds i sel =
     (if i < length sel
      then (if sel ! i \<notin> rowIds then prune_loop rowIds i (take i sel @ drop (Suc i) sel)
            else prune_loop rowIds (Suc i) sel)
      else sel)"
  by auto

termination
  by (relation "measure (\<lambda>(r, i, sel). length sel - i)") auto

declare prune_loop.simps [simp del]

fun insert_after :: "'a \<Rightarrow> 'a \<Rightarrow> 'a list \<Rightarrow> 'a list" where
  "insert_after p x [] = []"
| "insert_after p x (y # ys) = (if y = p then y # x # ys else y # insert_after p x ys)"

text \<open>
  The reordering of the body: \<open>snapshot\<close> is the body before new elements were appended, \<open>body\<close>
  the body as it is moved around.
\<close>

fun reorder_loop :: "'a list \<Rightarrow> nat \<Rightarrow> 'a list \<Rightarrow> 'a option \<Rightarrow> 'a list \<Rightarrow> 'a list" where
  "reorder_loop [] rowPos snapshot prevTr body = body"
| "reorder_loop (x # xs) rowPos snapshot prevTr body =
     (let isInCorrectLocation = (rowPos < length snapshot \<and> snapshot ! rowPos = x);
          body' = (if isInCorrectLocation then body
                  else case prevTr of
                      None \<Rightarrow> if snapshot = [] then remove1 x body @ [x] else x # remove1 x body
                    | Some p \<Rightarrow> insert_after p x (remove1 x body))
      in reorder_loop xs (Suc rowPos) snapshot (Some x) body')"

definition reorder :: "'a list \<Rightarrow> 'a list \<Rightarrow> 'a list" where
  "reorder snapshot targets =
     (let body = snapshot @ filter (\<lambda>x. x \<notin> set snapshot) targets;
          body' = reorder_loop targets 0 snapshot None body
      in filter (\<lambda>x. x \<in> set targets) body')"

definition blank_tr :: tr_class where
  "blank_tr = \<lparr>is_invisible = False, is_marked = False\<rparr>"

definition visibleRowCount :: "table \<Rightarrow> nat" where
  "visibleRowCount t = nat \<lceil>renderedHeight t / rowHeight t\<rceil> + 40"

definition startRow :: "table \<Rightarrow> nat" where
  "startRow t =
     (let s = nat (max (\<lfloor>renderedOffset t / rowHeight t\<rfloor> - 20) 0)
      in if s mod 2 = 1 then max 0 (s - 1) else s)"

definition rerender_window :: "table \<Rightarrow> row list \<Rightarrow> (string \<times> rat) list" where
  "rerender_window t rs =
     (let endRow = min (startRow t + visibleRowCount t) (length rs)
      in map (\<lambda>i. (row_id (rs ! i), of_nat i * rowHeight t)) [startRow t ..< endRow])"

definition refresh_all :: "(string \<Rightarrow> bool) \<Rightarrow> string list \<Rightarrow> table \<Rightarrow> table" where
  "refresh_all full ids t = foldl (\<lambda>t rid. snd (updateRow rid (full rid) t)) t ids"

definition rerender :: "row list \<Rightarrow> table \<Rightarrow> table" where
  "rerender rs t =
     (if renderedHeight t = 0 then t
      else let ids = map fst (rerender_window t rs);
               t = setRowClass (t\<lparr>trs := map (\<lambda>rid. (rid, blank_tr)) ids\<rparr>)
           in refresh_all (\<lambda>_. True) ids t)"

definition updateTable :: "(table \<Rightarrow> row list) \<Rightarrow> bool \<Rightarrow> table \<Rightarrow> table" where
  "updateTable fsr fullUpdate t =
     (let rs = fsr t;
          ids = map row_id rs;
          t = t\<lparr>selectedRows := prune_loop (set ids) 0 (selectedRows t)\<rparr>
      in if useVirtualList t then rerender rs t
         else let old = keys (trs t);
                  t = refresh_all (\<lambda>rid. if rid \<in> set old then fullUpdate else True) ids t
              in t\<lparr>trs := map (\<lambda>rid. (rid, case map_get (trs t) rid of Some c \<Rightarrow> c | None \<Rightarrow> blank_tr))
                             (reorder old ids)\<rparr>)"

definition removeRow :: "(table \<Rightarrow> row list) \<Rightarrow> string \<Rightarrow> table \<Rightarrow> table" where
  "removeRow fsr rid t =
     (let t = t\<lparr>selectedRows := filter (\<lambda>x. x \<noteq> rid) (selectedRows t), rows := map_delete rid (rows t)\<rparr>
      in if useVirtualList t then rerender (fsr t) t else t\<lparr>trs := map_delete rid (trs t)\<rparr>)"

definition clear_table :: "(table \<Rightarrow> row list) \<Rightarrow> table \<Rightarrow> table" where
  "clear_table fsr t =
     (let t = (deselectAll t)\<lparr>rows := []\<rparr>
      in if useVirtualList t then rerender (fsr t) t else t\<lparr>trs := []\<rparr>)"

text \<open>
  Dropping the header of one column on another (\<open>onComplete\<close> of a drag): the order is saved,
  the dragged name leaves the list and is put before or after the column it was dropped on, and
  the body is drawn afresh. The array of names is read back from the text of the preference.
\<close>

definition dropped_order :: "string \<Rightarrow> string \<Rightarrow> bool \<Rightarrow> preferences \<Rightarrow> table \<Rightarrow> preferences" where
  "dropped_order dragged target dropRight prefs t =
     (let prefs = saveColumnsOrder t prefs;
          val = js_split '','' (pref_or prefs (order_key t) []);
          val = filter (\<lambda>nm. nm \<noteq> dragged) val;
          pos = index_of target val;
          pos = (if dropRight then pos + 1 else pos);
          val = list_splice (splice_pos pos (length val)) dragged val
      in map_set (order_key t) (js_join '','' val) prefs)"

definition dropColumn ::
  "(table \<Rightarrow> row list) \<Rightarrow> string \<Rightarrow> string \<Rightarrow> bool \<Rightarrow> preferences \<Rightarrow> table \<Rightarrow> preferences \<times> table" where
  "dropColumn fsr dragged target dropRight prefs t =
     (if dragged = target then (prefs, t)
      else let prefs = dropped_order dragged target dropRight prefs t;
               t = loadColumnsOrder prefs t;
               t = updateTable fsr True (t\<lparr>trs := []\<rparr>)
           in (prefs, reselectRows (selectedRows t) t))"

definition setColumnWidth :: "(table \<Rightarrow> row list) \<Rightarrow> string \<Rightarrow> rat \<Rightarrow> table \<Rightarrow> table" where
  "setColumnWidth fsr nm w t =
     (let t = t\<lparr>columns := map (\<lambda>c. if col_name c = nm then c\<lparr>width := Some w\<rparr> else c) (columns t)\<rparr>
      in if useVirtualList t then rerender (fsr t) t else t)"

definition setSortedColumn ::
  "(table \<Rightarrow> row list) \<Rightarrow> string \<Rightarrow> string option \<Rightarrow> preferences \<Rightarrow> table \<Rightarrow> preferences \<times> table" where
  "setSortedColumn fsr col reverse prefs t =
     (let t = (if col \<noteq> sortedColumn t
               then t\<lparr>sortedColumn := col, reverseSort := (case reverse of Some r \<Rightarrow> r | None \<Rightarrow> ''0'')\<rparr>
               else t\<lparr>reverseSort := (case reverse of Some r \<Rightarrow> r
                        | None \<Rightarrow> if reverseSort t = ''0'' then ''1'' else ''0'')\<rparr>);
          prefs = map_set (''reverse_sort_'' @ tableId t) (reverseSort t)
                    (map_set (''sorted_column_'' @ tableId t) col prefs)
      in (prefs, updateTable fsr False t))"

section \<open>The body is put into the order of the rows\<close>

lemma set_insert_after: "p \<in> set ys \<Longrightarrow> set (insert_after p x ys) = insert x (set ys)"
  by (induction ys) auto

lemma insert_after_split: "p \<notin> set u \<Longrightarrow> insert_after p x (u @ p # v) = u @ p # x # v"
  by (induction u) auto

lemma insert_after_last:
  assumes "u \<noteq> []" "distinct (u @ v)" "last u = p"
  shows "insert_after p x (u @ v) = u @ x # v"
proof -
  obtain u' where u: "u = u' @ [p]" using assms by (metis append_butlast_last_id)
  then show ?thesis using insert_after_split [of p u' x v] assms(2) by auto
qed

text \<open>
  The state between two steps: \<open>P\<close> is placed in the front part \<open>u\<close>, which ends with the last
  target placed; the rest of the snapshot that is still unplaced follows in \<open>v\<close> in its order.
\<close>

definition placed_in :: "'a list \<Rightarrow> 'a list \<Rightarrow> 'a list \<Rightarrow> 'a list \<Rightarrow> bool" where
  "placed_in P rest u v \<longleftrightarrow> distinct (u @ v) \<and> set P \<subseteq> set u \<and> filter (\<lambda>x. x \<in> set P) u = P
     \<and> (P \<noteq> [] \<longrightarrow> u \<noteq> [] \<and> last u = last P)
     \<and> filter (\<lambda>x. x \<in> set rest) v = filter (\<lambda>x. x \<notin> set P) rest"

lemma remove1_filter: "distinct xs \<Longrightarrow> remove1 x xs = filter (\<lambda>y. y \<noteq> x) xs"
  by (simp add: distinct_remove1_removeAll removeAll_filter_not_eq) (rule filter_cong, auto)

lemma filter_snoc_new:
  "x \<notin> set u \<Longrightarrow> x \<notin> set P \<Longrightarrow> filter (\<lambda>y. y \<in> set P \<or> y = x) u = filter (\<lambda>y. y \<in> set P) u"
  by (rule filter_cong) auto

lemma placed_in_moved:
  assumes pl: "placed_in P rest u v" and x: "x \<notin> set P" and "distinct rest"
  shows "placed_in (P @ [x]) (drop 1 rest) (filter (\<lambda>y. y \<noteq> x) u @ [x]) (filter (\<lambda>y. y \<noteq> x) v)"
proof -
  let ?u = "filter (\<lambda>y. y \<noteq> x) u"
  have P: "filter (\<lambda>y. y \<in> set P) u = P" "set P \<subseteq> set u" using pl by (auto simp: placed_in_def)
  have "filter (\<lambda>y. y \<in> set (P @ [x])) ?u = filter (\<lambda>y. y \<in> set P) u"
    unfolding filter_filter by (rule filter_cong) (use x in auto)
  then have "filter (\<lambda>y. y \<in> set (P @ [x])) (?u @ [x]) = P @ [x]"
    using P by (simp only: filter_append) simp
  moreover have "filter (\<lambda>y. y \<in> set (drop 1 rest)) (filter (\<lambda>y. y \<noteq> x) v)
      = filter (\<lambda>y. y \<notin> set (P @ [x])) (drop 1 rest)"
  proof -
    have r: "filter (\<lambda>y. y \<in> set rest) v = filter (\<lambda>y. y \<notin> set P) rest" using pl by (simp add: placed_in_def)
    have "filter (\<lambda>y. y \<in> set (drop 1 rest)) (filter (\<lambda>y. y \<noteq> x) v)
        = filter (\<lambda>y. y \<in> set (drop 1 rest) \<and> y \<noteq> x) (filter (\<lambda>y. y \<in> set rest) v)"
      unfolding filter_filter by (rule filter_cong) (auto dest: in_set_dropD)
    also have "\<dots> = filter (\<lambda>y. y \<notin> set (P @ [x])) (drop 1 rest)"
      unfolding r filter_filter using \<open>distinct rest\<close> by (cases rest) (auto intro!: filter_cong)
    finally show ?thesis .
  qed
  moreover have "distinct ((?u @ [x]) @ filter (\<lambda>y. y \<noteq> x) v)"
    using pl by (auto simp: placed_in_def)
  ultimately show ?thesis
    using P x unfolding placed_in_def by auto
qed

lemma placed_in_kept:
  assumes pl: "placed_in P (x # rest) u v" and x: "x \<notin> set P" and "distinct (x # rest)"
  shows "\<exists>u' v'. u @ v = u' @ v' \<and> placed_in (P @ [x]) rest u' v'"
proof -
  have r: "filter (\<lambda>y. y \<in> set (x # rest)) v = x # filter (\<lambda>y. y \<notin> set P) rest"
    using pl x by (simp add: placed_in_def)
  from filter_eq_ConsD [OF r] obtain v1 v2 where v: "v = v1 @ x # v2" "\<forall>y \<in> set v1. y \<notin> set (x # rest)"
      "filter (\<lambda>y. y \<notin> set P) rest = filter (\<lambda>y. y \<in> set (x # rest)) v2"
    by auto
  have d: "distinct (u @ v)" and P: "filter (\<lambda>y. y \<in> set P) u = P" "set P \<subseteq> set u"
    using pl by (auto simp: placed_in_def)
  have "filter (\<lambda>y. y \<in> set (P @ [x])) (u @ v1 @ [x]) = P @ [x]"
  proof -
    have "filter (\<lambda>y. y \<in> set (P @ [x])) u = P"
      using P d v by (subst P(1) [symmetric]) (rule filter_cong, auto)
    moreover have "filter (\<lambda>y. y \<in> set (P @ [x])) v1 = []"
      using P d v by (auto simp: filter_empty_conv)
    ultimately show ?thesis by simp
  qed
  moreover have "filter (\<lambda>y. y \<in> set rest) v2 = filter (\<lambda>y. y \<notin> set (P @ [x])) rest"
  proof -
    have "filter (\<lambda>y. y \<in> set rest) v2 = filter (\<lambda>y. y \<in> set (x # rest)) v2"
      using d v by (intro filter_cong) auto
    also have "\<dots> = filter (\<lambda>y. y \<notin> set (P @ [x])) rest"
      unfolding v(3) [symmetric] using assms(3) by (intro filter_cong) auto
    finally show ?thesis .
  qed
  ultimately have "placed_in (P @ [x]) rest (u @ v1 @ [x]) v2"
    using d v P unfolding placed_in_def by auto
  with v show ?thesis by (intro exI [of _ "u @ v1 @ [x]"] exI [of _ v2]) simp
qed

lemma reorder_step:
  assumes pl: "placed_in P (drop (length P) snapshot) u v" and x: "x \<notin> set P" "x \<in> set (u @ v)"
    and sn: "distinct snapshot" and first: "P = [] \<Longrightarrow> u = [] \<and> take (length snapshot) v = snapshot"
  shows "\<exists>u' v'. (if length P < length snapshot \<and> snapshot ! length P = x then u @ v
         else case (if P = [] then None else Some (last P)) of
             None \<Rightarrow> if snapshot = [] then remove1 x (u @ v) @ [x] else x # remove1 x (u @ v)
           | Some p \<Rightarrow> insert_after p x (remove1 x (u @ v))) = u' @ v'
     \<and> placed_in (P @ [x]) (drop (Suc (length P)) snapshot) u' v' \<and> set (u' @ v') = set (u @ v)"
proof (cases "length P < length snapshot \<and> snapshot ! length P = x")
  case True
  then have "drop (length P) snapshot = x # drop (Suc (length P)) snapshot"
    by (metis Cons_nth_drop_Suc)
  moreover from this have "distinct (x # drop (Suc (length P)) snapshot)"
    using sn by (metis distinct_drop)
  ultimately obtain u' v' where uv: "u @ v = u' @ v'"
      "placed_in (P @ [x]) (drop (Suc (length P)) snapshot) u' v'"
    using placed_in_kept [of P x "drop (Suc (length P)) snapshot" u v] pl x by auto
  then have "set (u' @ v') = set (u @ v)" by simp
  with True uv show ?thesis by auto
next
  case False
  let ?f = "filter (\<lambda>y. y \<noteq> x)"
  have d: "distinct (u @ v)" using pl by (simp add: placed_in_def)
  then have rem: "remove1 x (u @ v) = ?f u @ ?f v" by (simp add: remove1_filter)
  have m: "placed_in (P @ [x]) (drop (Suc (length P)) snapshot) (?f u @ [x]) (?f v)"
    using placed_in_moved [OF pl x(1)] sn by (simp add: distinct_drop)
  have st: "set ((?f u @ [x]) @ ?f v) = set (u @ v)" using x by auto
  show ?thesis
  proof (cases "P = []")
    case True
    then have u: "u = []" using first by simp
    show ?thesis
    proof (cases "snapshot = []")
      case True
      have "placed_in (P @ [x]) (drop (Suc (length P)) snapshot) (?f v @ [x]) []"
        using d \<open>P = []\<close> True by (auto simp: placed_in_def)
      moreover have "set ((?f v @ [x]) @ []) = set (u @ v)" using u x by auto
      ultimately show ?thesis
        using True \<open>P = []\<close> rem u by (intro exI [of _ "?f v @ [x]"] exI [of _ "[]"]) simp
    next
      case sne: False
      have "(if length P < length snapshot \<and> snapshot ! length P = x then u @ v
         else case (if P = [] then None else Some (last P)) of
             None \<Rightarrow> if snapshot = [] then remove1 x (u @ v) @ [x] else x # remove1 x (u @ v)
           | Some p \<Rightarrow> insert_after p x (remove1 x (u @ v))) = (?f u @ [x]) @ ?f v"
        unfolding if_not_P [OF False] if_P [OF True] if_not_P [OF sne] rem using u by simp
      with m st show ?thesis by blast
    qed
  next
    case ne: False
    have last: "last u = last P" "u \<noteq> []" using pl ne by (auto simp: placed_in_def)
    have "last P \<noteq> x" using ne x by auto
    moreover obtain u0 where "u = u0 @ [last P]" using last append_butlast_last_id [of u] by metis
    ultimately have "last (?f u) = last P" "?f u \<noteq> []" by simp_all
    moreover have "distinct (?f u @ ?f v)" using d by auto
    ultimately have "insert_after (last P) x (remove1 x (u @ v)) = (?f u @ [x]) @ ?f v"
      unfolding rem by (subst insert_after_last) auto
    then have "(if length P < length snapshot \<and> snapshot ! length P = x then u @ v
         else case (if P = [] then None else Some (last P)) of
             None \<Rightarrow> if snapshot = [] then remove1 x (u @ v) @ [x] else x # remove1 x (u @ v)
           | Some p \<Rightarrow> insert_after p x (remove1 x (u @ v))) = (?f u @ [x]) @ ?f v"
      unfolding if_not_P [OF False] if_not_P [OF ne] by simp
    with m st show ?thesis by blast
  qed
qed

lemma reorder_loop_placed:
  assumes "placed_in P (drop (length P) snapshot) u v" "distinct (P @ targets)" "set targets \<subseteq> set (u @ v)"
    and "distinct snapshot" and "P = [] \<Longrightarrow> u = [] \<and> take (length snapshot) v = snapshot"
  shows "\<exists>u' v'. reorder_loop targets (length P) snapshot (if P = [] then None else Some (last P)) (u @ v) = u' @ v'
    \<and> placed_in (P @ targets) (drop (length (P @ targets)) snapshot) u' v' \<and> set (u' @ v') = set (u @ v)"
  using assms
proof (induction targets arbitrary: P u v)
  case Nil
  then show ?case by auto
next
  case (Cons x xs)
  obtain u1 v1 where step: "(if length P < length snapshot \<and> snapshot ! length P = x then u @ v
         else case (if P = [] then None else Some (last P)) of
             None \<Rightarrow> if snapshot = [] then remove1 x (u @ v) @ [x] else x # remove1 x (u @ v)
           | Some p \<Rightarrow> insert_after p x (remove1 x (u @ v))) = u1 @ v1"
     and pl: "placed_in (P @ [x]) (drop (Suc (length P)) snapshot) u1 v1" and st: "set (u1 @ v1) = set (u @ v)"
    using reorder_step [OF Cons.prems(1), of x] Cons.prems by auto
  have "\<exists>u' v'. reorder_loop xs (length (P @ [x])) snapshot (if P @ [x] = [] then None else Some (last (P @ [x]))) (u1 @ v1) = u' @ v'
    \<and> placed_in ((P @ [x]) @ xs) (drop (length ((P @ [x]) @ xs)) snapshot) u' v' \<and> set (u' @ v') = set (u1 @ v1)"
    using Cons.prems pl st by (intro Cons.IH) auto
  with step st show ?case by (simp add: Let_def)
qed

lemma reorder_correct:
  assumes "distinct snapshot" "distinct targets"
  shows "reorder snapshot targets = targets"
proof -
  let ?b = "snapshot @ filter (\<lambda>x. x \<notin> set snapshot) targets"
  have pl: "placed_in [] (drop (length ([] :: 'a list)) snapshot) [] ?b"
    using assms by (auto simp: placed_in_def filter_empty_conv)
  have "\<exists>u' v'. reorder_loop targets (length ([] :: 'a list)) snapshot (if ([] :: 'a list) = [] then None else Some (last [])) ([] @ ?b) = u' @ v'
    \<and> placed_in ([] @ targets) (drop (length ([] @ targets)) snapshot) u' v' \<and> set (u' @ v') = set ([] @ ?b)"
    using assms by (intro reorder_loop_placed [OF pl]) auto
  then obtain u v where b: "reorder_loop targets 0 snapshot None ?b = u @ v" and
      "placed_in targets (drop (length targets) snapshot) u v" by auto
  then have "filter (\<lambda>x. x \<in> set targets) (u @ v) = targets"
    by (auto simp: placed_in_def filter_empty_conv)
  then show ?thesis by (simp add: reorder_def Let_def b)
qed

section \<open>Pruning, drawing and windows\<close>

lemma prune_loop_filter:
  "i \<le> length sel \<Longrightarrow> set (take i sel) \<subseteq> R \<Longrightarrow> prune_loop R i sel = filter (\<lambda>x. x \<in> R) sel"
proof (induction R i sel rule: prune_loop.induct)
  case (1 R i sel)
  show ?case
  proof (cases "i < length sel")
    case False
    then have "filter (\<lambda>x. x \<in> R) sel = sel" using 1 by (auto simp: filter_id_conv)
    with False show ?thesis by (simp add: prune_loop.simps)
  next
    case True
    then have split: "sel = take i sel @ sel ! i # drop (Suc i) sel" by (simp add: id_take_nth_drop)
    show ?thesis
    proof (cases "sel ! i \<in> R")
      case False
      have "prune_loop R i (take i sel @ drop (Suc i) sel) = filter (\<lambda>x. x \<in> R) (take i sel @ drop (Suc i) sel)"
        using 1 True False by (intro 1(1)) auto
      also have "\<dots> = filter (\<lambda>x. x \<in> R) sel"
        using False by (subst (3) split) simp
      finally show ?thesis using True False by (simp add: prune_loop.simps [of R i sel])
    next
      case inR: True
      then have "prune_loop R (Suc i) sel = filter (\<lambda>x. x \<in> R) sel"
        using 1 True by (intro 1(2)) (auto simp: take_Suc_conv_app_nth)
      then show ?thesis using True inR by (simp add: prune_loop.simps [of R i sel])
    qed
  qed
qed

lemma prune_filter [simp]: "prune_loop R 0 sel = filter (\<lambda>x. x \<in> R) sel"
  by (rule prune_loop_filter) simp_all

lemma updateRow_keeps [simp]:
  "trs (snd (updateRow rid full t)) = trs t" "selectedRows (snd (updateRow rid full t)) = selectedRows t"
  "columns (snd (updateRow rid full t)) = columns t" "useVirtualList (snd (updateRow rid full t)) = useVirtualList t"
  "sortedColumn (snd (updateRow rid full t)) = sortedColumn t" "reverseSort (snd (updateRow rid full t)) = reverseSort t"
  by (simp_all add: updateRow_def Let_def split: option.split)

lemma map_set_same_keys: "map_get m k = Some v \<Longrightarrow> keys (map_set k v' m) = keys m"
  by (simp add: keys_set) (metis domI dom_map_of_conv_image_fst image_set)

lemma updateRow_row_keys [simp]: "keys (rows (snd (updateRow rid full t))) = keys (rows t)"
  by (auto simp: updateRow_def Let_def map_set_same_keys split: option.split)

lemma refresh_all_keeps [simp]:
  "trs (refresh_all full ids t) = trs t" "selectedRows (refresh_all full ids t) = selectedRows t"
  "columns (refresh_all full ids t) = columns t" "useVirtualList (refresh_all full ids t) = useVirtualList t"
  "sortedColumn (refresh_all full ids t) = sortedColumn t" "reverseSort (refresh_all full ids t) = reverseSort t"
  "keys (rows (refresh_all full ids t)) = keys (rows t)"
  by (induction ids arbitrary: t) (simp_all add: refresh_all_def)

lemma keys_pairs [simp]: "keys (map (\<lambda>x. (x, f x)) xs) = xs"
  by (induction xs) auto

lemma setRowClass_keys [simp]: "keys (trs (setRowClass t)) = keys (trs t)"
  by (induction "trs t") (auto simp: setRowClass_def split: prod.splits)

lemma setRowClass_keeps [simp]:
  "rows (setRowClass t) = rows t" "selectedRows (setRowClass t) = selectedRows t"
  "columns (setRowClass t) = columns t" "useVirtualList (setRowClass t) = useVirtualList t"
  by (simp_all add: setRowClass_def)

lemma updateTable_selection: "selectedRows (updateTable fsr full t) = filter (\<lambda>x. x \<in> set (map row_id (fsr t))) (selectedRows t)"
  by (simp add: updateTable_def Let_def rerender_def)

lemma updateTable_columns [simp]: "columns (updateTable fsr full t) = columns t"
  by (simp add: updateTable_def Let_def rerender_def)

lemma reselectRows_columns [simp]: "columns (reselectRows ids t) = columns t"
  by (simp add: reselectRows_def deselectAll_def)

lemma updateTable_trs:
  "\<not> useVirtualList t \<Longrightarrow> distinct_keys (trs t) \<Longrightarrow> distinct (map row_id (fsr t)) \<Longrightarrow>
     keys (trs (updateTable fsr full t)) = map row_id (fsr t)"
  by (simp add: updateTable_def Let_def reorder_correct)

lemma startRow_even: "startRow t mod 2 = 0"
proof -
  have "(if n mod 2 = 1 then max 0 (n - 1) else n) mod 2 = 0" for n :: nat
    by (cases "n mod 2 = 1") (auto, presburger)
  then show ?thesis by (simp add: startRow_def Let_def)
qed

lemma startRow_le: "startRow t \<le> nat (max (\<lfloor>renderedOffset t / rowHeight t\<rfloor> - 20) 0)"
  by (simp add: startRow_def Let_def)

lemma startRow_ge: "nat (max (\<lfloor>renderedOffset t / rowHeight t\<rfloor> - 20) 0) \<le> startRow t + 1"
  by (simp add: startRow_def Let_def)

lemma window_covers:
  assumes "0 < rowHeight t" "0 \<le> renderedOffset t" "0 \<le> renderedHeight t"
    and "renderedOffset t < (of_nat i + 1) * rowHeight t"
    and "of_nat i * rowHeight t < renderedOffset t + renderedHeight t"
  shows "startRow t \<le> i \<and> i < startRow t + visibleRowCount t"
proof -
  let ?q = "renderedOffset t / rowHeight t" and ?n = "renderedHeight t / rowHeight t"
  have q: "?q < of_nat i + 1" using assms by (simp add: divide_less_eq)
  have n: "of_nat i < ?q + ?n" using assms by (simp add: add_divide_distrib [symmetric] less_divide_eq)
  have q0: "0 \<le> ?q" "0 \<le> ?n" using assms by simp_all
  have "\<lfloor>?q\<rfloor> < int i + 1" using q by (simp only: floor_less_iff of_int_add of_int_of_nat_eq of_int_1)
  then have lo: "startRow t \<le> i" using startRow_le [of t] by linarith
  have "int i < \<lfloor>?q\<rfloor> + 1 + \<lceil>?n\<rceil>"
  proof -
    have "(of_int (int i) :: rat) < of_int (\<lfloor>?q\<rfloor> + 1 + \<lceil>?n\<rceil>)"
      using n floor_correct [of ?q] le_of_int_ceiling [of ?n] unfolding of_int_add by (simp only: of_int_of_nat_eq of_int_1) linarith
    then show ?thesis by (simp only: of_int_less_iff)
  qed
  moreover have "0 \<le> \<lfloor>?q\<rfloor>" "0 \<le> \<lceil>?n\<rceil>" using q0 by simp_all
  ultimately have "i < startRow t + visibleRowCount t"
    using startRow_ge [of t] unfolding visibleRowCount_def by linarith
  with lo show ?thesis by simp
qed

section \<open>Column order\<close>

lemma merged_order_aux: "distinct order \<Longrightarrow> set order \<subseteq> set present \<Longrightarrow>
   distinct (foldl (\<lambda>order nm. if nm \<in> set present then set_add nm order else order) order saved) \<and>
   set (foldl (\<lambda>order nm. if nm \<in> set present then set_add nm order else order) order saved) \<subseteq> set present"
  by (induction saved arbitrary: order) auto

lemma merged_order_perm: "distinct (merged_order saved present) \<and> set (merged_order saved present) = set present"
  using merged_order_aux [of "[]" present saved] by (auto simp: merged_order_def Let_def)

lemma merged_order_length: "distinct present \<Longrightarrow> length (merged_order saved present) = length present"
  using merged_order_perm [of saved present] by (metis distinct_card)

lemma merged_order_saved:
  assumes "distinct saved" "set saved = set present"
  shows "merged_order saved present = saved"
proof -
  have "foldl (\<lambda>order nm. if nm \<in> set present then set_add nm order else order) s xs = s @ xs"
    if "distinct (s @ xs)" "set xs \<subseteq> set present" for s xs
    using that by (induction xs arbitrary: s) (auto simp: set_add_def)
  from this [of "[]" saved] have 1: "foldl (\<lambda>order nm. if nm \<in> set present then set_add nm order else order) [] saved = saved"
    using assms by simp
  have "foldl (\<lambda>order nm. set_add nm order) s xs = s" if "set xs \<subseteq> set s" for s and xs :: "string list"
    using that by (induction xs) (auto simp: set_add_def)
  with 1 assms show ?thesis by (simp add: merged_order_def Let_def)
qed

lemma loadColumnsOrder_names:
  assumes "distinct (map col_name (columns t))"
  shows "map col_name (columns (loadColumnsOrder prefs t)) =
    (case map_get prefs (order_key t) of None \<Rightarrow> map col_name (columns t)
     | Some s \<Rightarrow> merged_order (js_split '','' s) (map col_name (columns t)))"
proof (cases "map_get prefs (order_key t)")
  case None
  then show ?thesis by (simp add: loadColumnsOrder_def)
next
  case (Some s)
  let ?o = "merged_order (js_split '','' s) (map col_name (columns t))"
  have o: "set ?o = set (map col_name (columns t))" "length ?o = length (columns t)"
    using merged_order_perm merged_order_length [OF assms] by (blast, simp)
  have "col_name (the (map_of (map (\<lambda>c. (col_name c, c)) (columns t)) nm)) = nm" if nm: "nm \<in> set ?o" for nm
  proof -
    obtain c where "c \<in> set (columns t)" "col_name c = nm" using nm o by auto
    then have "map_of (map (\<lambda>c. (col_name c, c)) (columns t)) nm = Some c"
      using assms by (intro map_of_is_SomeI) (auto simp: comp_def)
    then show ?thesis using \<open>col_name c = nm\<close> by simp
  qed
  then have "map (\<lambda>nm. col_name (the (map_of (map (\<lambda>c. (col_name c, c)) (columns t)) nm))) ?o = ?o"
    by (intro map_idI) simp
  with Some o show ?thesis by (simp add: loadColumnsOrder_def Let_def comp_def)
qed

lemma loadColumnsOrder_set:
  assumes "distinct (map col_name (columns t))"
  shows "set (columns (loadColumnsOrder prefs t)) = set (columns t)"
proof (cases "map_get prefs (order_key t)")
  case None
  then show ?thesis by (simp add: loadColumnsOrder_def)
next
  case (Some s)
  let ?m = "map_of (map (\<lambda>c. (col_name c, c)) (columns t))"
  let ?o = "merged_order (js_split '','' s) (map col_name (columns t))"
  have m: "?m (col_name c) = Some c" if "c \<in> set (columns t)" for c
    using assms that by (intro map_of_is_SomeI) (auto simp: comp_def)
  have o: "set ?o = col_name ` set (columns t)" "length ?o = length (columns t)"
    using merged_order_perm [of "js_split '','' s" "map col_name (columns t)"] merged_order_length [OF assms] by simp_all
  have "set (columns (loadColumnsOrder prefs t)) = (\<lambda>c. the (?m (col_name c))) ` set (columns t)"
    using Some o by (simp add: loadColumnsOrder_def Let_def image_image)
  also have "\<dots> = set (columns t)" using m by (auto simp: image_iff)
  finally show ?thesis .
qed

lemma saved_order_text:
  "map_get (saveColumnsOrder t prefs) (order_key t) = Some (js_join '','' (map col_name (columns t)))"
proof -
  have "foldl (\<lambda>val (i, c). (if 0 < i then val @ '','' else val) @ col_name c) acc (zip [n ..< n + length cs] cs)
      = acc @ concat (map (\<lambda>c. '','' @ col_name c) cs)" if "0 < n" for acc n and cs :: "column list"
    using that
  proof (induction cs arbitrary: acc n)
    case (Cons c cs)
    have "[n ..< n + length (c # cs)] = n # [Suc n ..< Suc n + length cs]"
      by (simp add: upt_conv_Cons del: upt_Suc)
    then show ?case using Cons.IH [of "Suc n" "acc @ '','' @ col_name c"] Cons.prems by (simp del: upt_Suc)
  qed simp
  note rest = this [of 1]
  have join: "js_join '','' (s # ss) = s @ concat (map (\<lambda>x. '','' @ x) ss)" for s ss
    by (induction ss arbitrary: s) auto
  show ?thesis
  proof (cases "columns t")
    case Nil
    then show ?thesis by (simp add: saveColumnsOrder_def)
  next
    case (Cons c cs)
    then have "zip [0 ..< length (columns t)] (columns t) = (0, c) # zip [1 ..< 1 + length cs] cs"
      by (simp add: upt_conv_Cons del: upt_Suc)
    then show ?thesis using rest [of "col_name c" cs] join [of "col_name c" "map col_name cs"] Cons
      by (simp add: saveColumnsOrder_def comp_def)
  qed
qed

lemma load_saved_order:
  assumes "distinct (map col_name cs)" "set (map col_name cs) = set (map col_name (columns t))"
    and "distinct (map col_name (columns t))" "cs \<noteq> []"
    and "\<And>c. c \<in> set cs \<Longrightarrow> CHR '','' \<notin> set (col_name c)"
    and "map_get prefs (order_key t) = Some (js_join '','' (map col_name cs))"
  shows "map col_name (columns (loadColumnsOrder prefs t)) = map col_name cs"
proof -
  have "js_split '','' (js_join '','' (map col_name cs)) = map col_name cs"
    using assms(4,5) by (intro js_split_join) auto
  then show ?thesis
    using loadColumnsOrder_names [OF assms(3), of prefs] assms by (simp add: merged_order_saved)
qed

lemma index_of_append: "x \<notin> set u \<Longrightarrow> index_of x (u @ x # v) = int (length u)"
  by (induction u) (auto simp: Let_def)

section \<open>Properties\<close>

text \<open>
  C12: Redrawing a table leaves its body with exactly the filtered and sorted rows, in their order,
  whatever order the old body had, and keeps of the selection exactly the ids that are still
  shown, in order.
\<close>

theorem updateTable_draws:
  assumes "\<not> useVirtualList t" and "distinct_keys (trs t)" and "distinct (map row_id (fsr t))"
  shows "keys (trs (updateTable fsr full t)) = map row_id (fsr t)
    \<and> selectedRows (updateTable fsr full t) = filter (\<lambda>x. x \<in> set (map row_id (fsr t))) (selectedRows t)
    \<and> keys (rows (updateTable fsr full t)) = keys (rows t)"
  using updateTable_trs [where fsr = fsr, OF assms] updateTable_selection assms(1) by (simp add: updateTable_def Let_def)

definition ex_row :: "string \<Rightarrow> rat \<Rightarrow> row" where
  "ex_row i n = \<lparr>row_id = i, full_data = [(''rowId'', JStr i), (''size'', JNum n)], delta = []\<rparr>"

definition ex_table :: table where
  "ex_table = \<lparr>tableId = ''t'', columns = [\<lparr>col_name = ''name'', caption = ''Name'', col_style = [], visible = ''1'',
       force_hide = False, width = Some 50, dataProperties = [''name'']\<rparr>,
      \<lparr>col_name = ''size'', caption = ''Size'', col_style = [], visible = ''1'',
       force_hide = False, width = Some 50, dataProperties = [''size'']\<rparr>],
     rows = map (\<lambda>r. (row_id r, r)) [ex_row ''a'' 3, ex_row ''b'' 1, ex_row ''c'' 2],
     selectedRows = [''b'', ''x''], sortedColumn = ''size'', reverseSort = ''0'', useVirtualList = False,
     trs = map (\<lambda>i. (i, blank_tr)) [''c'', ''z'', ''a''], rowHeight = 26, renderedHeight = 260, renderedOffset = 1300\<rparr>"

theorem updateTable_draws_witness:
  "keys (trs (updateTable (\<lambda>_. [ex_row ''b'' 1, ex_row ''c'' 2, ex_row ''a'' 3]) False ex_table)) = [''b'', ''c'', ''a'']"
  using updateTable_draws [of ex_table "\<lambda>_. [ex_row ''b'' 1, ex_row ''c'' 2, ex_row ''a'' 3]" False]
  by (simp add: ex_table_def ex_row_def)

text \<open>
  C29: In a virtual table, every row of which a pixel lies in the visible area is in the rendered
  window (with at most twenty rows of margin rounded to an even start), at its own offset.
\<close>

theorem rerender_window_covers:
  assumes "0 < rowHeight t" "0 \<le> renderedOffset t" "0 \<le> renderedHeight t" and "i < length rs"
    and "renderedOffset t < (of_nat i + 1) * rowHeight t"
    and "of_nat i * rowHeight t < renderedOffset t + renderedHeight t"
  shows "(row_id (rs ! i), of_nat i * rowHeight t) \<in> set (rerender_window t rs)
    \<and> length (rerender_window t rs) \<le> visibleRowCount t \<and> even (startRow t)"
  using window_covers [OF assms(1-3,5,6)] assms(4) startRow_even [of t]
  by (auto simp: rerender_window_def Let_def even_iff_mod_2_eq_zero)

theorem rerender_window_covers_witness:
  "(''a'', 52 * 26) \<in> set (rerender_window ex_table (replicate 100 (ex_row ''a'' 1)))"
proof -
  have "replicate 100 (ex_row ''a'' 1) ! 52 = ex_row ''a'' 1" by (rule nth_replicate) simp
  then show ?thesis
    using rerender_window_covers [of ex_table 52 "replicate 100 (ex_row ''a'' 1)"]
    by (simp add: ex_table_def ex_row_def)
qed

text \<open>
  C34: Saving the column order of a table and loading it into a table with the same columns in any
  order gives the saved order, and whatever text the preference holds, loading is a permutation
  of the columns.
\<close>

theorem columns_order_roundtrip:
  assumes "distinct (map col_name (columns t))" and "distinct (map col_name (columns u))"
    and "set (map col_name (columns t)) = set (map col_name (columns u))" and "tableId t = tableId u"
    and "columns t \<noteq> []" and "\<And>c. c \<in> set (columns t) \<Longrightarrow> CHR '','' \<notin> set (col_name c)"
  shows "map col_name (columns (loadColumnsOrder (saveColumnsOrder t prefs) u)) = map col_name (columns t)
    \<and> set (columns (loadColumnsOrder prefs' u)) = set (columns u)
    \<and> distinct (map col_name (columns (loadColumnsOrder prefs' u)))"
proof -
  have k: "order_key t = order_key u" using assms(4) by (simp add: order_key_def)
  have "map col_name (columns (loadColumnsOrder (saveColumnsOrder t prefs) u)) = map col_name (columns t)"
    using assms saved_order_text [of t prefs] k by (intro load_saved_order) auto
  moreover have "distinct (map col_name (columns (loadColumnsOrder prefs' u)))"
    using loadColumnsOrder_names [OF assms(2), of prefs'] assms(2) merged_order_perm
    by (simp split: option.splits)
  ultimately show ?thesis using loadColumnsOrder_set [OF assms(2)] by blast
qed

theorem columns_order_roundtrip_witness:
  "map col_name (columns (loadColumnsOrder (saveColumnsOrder ex_table []) (ex_table\<lparr>columns := rev (columns ex_table)\<rparr>)))
    = [''name'', ''size'']"
proof -
  let ?u = "ex_table\<lparr>columns := rev (columns ex_table)\<rparr>"
  have c: "\<And>c. c \<in> set (columns ex_table) \<Longrightarrow> CHR '','' \<notin> set (col_name c)"
    by (auto simp: ex_table_def)
  have "map col_name (columns (loadColumnsOrder (saveColumnsOrder ex_table []) ?u)) = map col_name (columns ex_table)"
    by (rule columns_order_roundtrip [THEN conjunct1, OF _ _ _ _ _ c]) (auto simp: ex_table_def)
  then show ?thesis by (simp add: ex_table_def)
qed

text \<open>
  Dropping one column header on another puts the dragged column directly before or after the
  target, keeps the order of all others, and saves that order.
\<close>

theorem dropColumn_order:
  assumes "map col_name (columns t) = names" and "distinct names" and "\<And>nm. nm \<in> set names \<Longrightarrow> CHR '','' \<notin> set nm"
    and "dragged \<in> set names" and "filter (\<lambda>nm. nm \<noteq> dragged) names = before @ target # behind"
    and "dropColumn fsr dragged target dropRight prefs t = (prefs', t')"
  shows "map col_name (columns t') =
      (if dropRight then before @ [target, dragged] @ behind else before @ [dragged, target] @ behind)
    \<and> map_get prefs' (order_key t) = Some (js_join '','' (map col_name (columns t')))"
proof -
  let ?new = "if dropRight then before @ [target, dragged] @ behind else before @ [dragged, target] @ behind"
  have ne: "names \<noteq> []" using assms(4) by auto
  have split: "js_split '','' (js_join '','' names) = names"
    using assms(3) ne by (intro js_split_join) auto
  have d: "distinct (before @ target # behind)"
    using distinct_filter [OF assms(2), of "\<lambda>nm. nm \<noteq> dragged"] unfolding assms(5) .
  have "set (filter (\<lambda>nm. nm \<noteq> dragged) names) = set names - {dragged}" by auto
  then have rest: "set (before @ target # behind) = set names - {dragged}" unfolding assms(5) .
  then have nd: "dragged \<notin> set (before @ target # behind)" by blast
  have st: "set names = insert dragged (set (before @ target # behind))" unfolding rest using assms(4) by blast
  have ix: "index_of target (before @ target # behind) = int (length before)"
    using d by (intro index_of_append) auto
  have sp: "list_splice (splice_pos (if dropRight then int (length before) + 1 else int (length before)) (length (before @ target # behind)))
      dragged (before @ target # behind) = ?new"
    by (simp add: list_splice_def splice_pos_def nat_add_distrib)
  have pref: "pref_or (saveColumnsOrder t prefs) (order_key t) [] = js_join '','' names"
    using saved_order_text [of t prefs] assms(1) by (simp add: pref_or_def)
  have ne': "dragged \<noteq> target" using nd by auto
  have p': "prefs' = map_set (order_key t) (js_join '','' ?new) (saveColumnsOrder t prefs)"
    using assms(6) ne' unfolding dropColumn_def dropped_order_def Let_def pref split assms(5) ix sp by auto
  have t': "columns t' = columns (loadColumnsOrder prefs' t)"
    using assms(6) ne' by (auto simp: dropColumn_def Let_def)
  have new: "set ?new = set names" "distinct ?new" "?new \<noteq> []" using st d nd by auto
  then have spn: "js_split '','' (js_join '','' ?new) = ?new"
    using assms(3) by (intro js_split_join) auto
  have "map col_name (columns t') = merged_order (js_split '','' (js_join '','' ?new)) names"
    using loadColumnsOrder_names [of t prefs'] assms(1,2) p' t' by simp
  also have "\<dots> = ?new" unfolding spn using new by (intro merged_order_saved) auto
  finally have "map col_name (columns t') = ?new" .
  then show ?thesis using p' by simp
qed

theorem dropColumn_order_witness:
  "map col_name (columns (snd (dropColumn (\<lambda>_. []) ''size'' ''name'' False [] ex_table))) = [''size'', ''name'']"
proof -
  obtain p t' where d: "dropColumn (\<lambda>_. []) ''size'' ''name'' False [] ex_table = (p, t')" by fastforce
  have "map col_name (columns t') = (if False then [] @ [''name'', ''size''] @ [] else [] @ [''size'', ''name''] @ [])"
    by (rule dropColumn_order [where names = "[''name'', ''size'']", THEN conjunct1, OF _ _ _ _ _ d])
      (auto simp: ex_table_def)
  then show ?thesis by (simp add: d)
qed

section \<open>Rows, sorting and selection\<close>

lemma map_foldl_delete:
  "map_get (foldl (\<lambda>m rid. if rid \<in> S then m else map_delete rid m) m ks) k
     = (if k \<in> set ks \<and> k \<notin> S then None else map_get m k)"
  by (induction ks arbitrary: m) auto

lemma keys_foldl_delete:
  "keys (foldl (\<lambda>m rid. if rid \<in> S then m else map_delete rid m) m ks) = filter (\<lambda>k. k \<in> S \<or> k \<notin> set ks) (keys m)"
  by (induction ks arbitrary: m) (auto simp: keys_delete intro!: filter_cong)

definition data_id :: "jsobj \<Rightarrow> string" where
  "data_id d = js_String (prop_get d ''rowId'')"

text \<open>Rows are keyed by their own ids, and the ids are among those the table is meant for (\<open>ok\<close>).\<close>

definition wf_rows :: "(string \<Rightarrow> bool) \<Rightarrow> table \<Rightarrow> bool" where
  "wf_rows ok t \<longleftrightarrow> distinct_keys (rows t) \<and> (\<forall>(k, r) \<in> set (rows t). row_id r = k \<and> ok k)"

lemma wf_rows_get: "wf_rows ok t \<Longrightarrow> map_get (rows t) k = Some r \<Longrightarrow> row_id r = k \<and> ok k"
  by (auto simp: wf_rows_def dest!: map_of_SomeD)

lemma wf_rows_ids: "wf_rows ok t \<Longrightarrow> map row_id (map snd (rows t)) = keys (rows t)"
  by (auto simp: wf_rows_def split_beta)

lemma set_map_set:
  assumes "distinct_keys m"
  shows "(a, b) \<in> set (map_set k v m) \<longleftrightarrow> (if a = k then b = v else (a, b) \<in> set m)"
proof -
  have "(a, b) \<in> set (map_set k v m) \<longleftrightarrow> map_get (map_set k v m) a = Some b"
    using distinct_keys_set [OF assms, of k v] by (rule map_of_eq_Some_iff [symmetric])
  moreover have "(a, b) \<in> set m \<longleftrightarrow> map_get m a = Some b"
    using assms by (rule map_of_eq_Some_iff [symmetric])
  ultimately show ?thesis by auto
qed

lemma wf_updateRowData: "wf_rows ok t \<Longrightarrow> ok (data_id d) \<Longrightarrow> wf_rows ok (updateRowData d t)"
  using wf_rows_get [of ok t "js_String (prop_get d ''rowId'')"]
  by (auto simp: wf_rows_def updateRowData_def data_id_def Let_def set_map_set split: option.splits if_splits)

lemma keys_updateRowData: "keys (rows (updateRowData d t)) = set_add (data_id d) (keys (rows t))"
  by (simp add: updateRowData_def Let_def keys_set set_add_def data_id_def)

lemma wf_updateRowData_all: "wf_rows ok t \<Longrightarrow> \<forall>d \<in> set ds. ok (data_id d) \<Longrightarrow> wf_rows ok (foldl (\<lambda>t d. updateRowData d t) t ds)"
  by (induction ds arbitrary: t) (auto intro: wf_updateRowData)

lemma keys_updateRowData_all:
  "keys (rows (foldl (\<lambda>t d. updateRowData d t) t ds)) = foldl (\<lambda>s x. set_add x s) (keys (rows t)) (map data_id ds)"
  by (induction ds arbitrary: t) (auto simp: keys_updateRowData)

lemma foldl_delete_subset:
  "set (foldl (\<lambda>m rid. if rid \<in> S then m else map_delete rid m) m ks) \<subseteq> set m"
proof (induction ks arbitrary: m)
  case (Cons k ks)
  have "set (map_delete k m) \<subseteq> set m" by (auto simp: AList.delete_eq)
  with Cons [of m] Cons [of "map_delete k m"] show ?case by auto
qed simp

lemma wf_setRows: "wf_rows ok t \<Longrightarrow> \<forall>d \<in> set ds. ok (data_id d) \<Longrightarrow> wf_rows ok (setRows ds t)"
proof -
  assume "wf_rows ok t" "\<forall>d \<in> set ds. ok (data_id d)"
  then have w: "wf_rows ok (foldl (\<lambda>t d. updateRowData d t) t ds)" by (rule wf_updateRowData_all)
  then show ?thesis
    using foldl_delete_subset
    by (fastforce simp: setRows_def Let_def wf_rows_def keys_foldl_delete)
qed

lemma merge_props_get:
  "distinct_keys d \<Longrightarrow> map_of (merge_props full d) p = (case map_of d p of None \<Rightarrow> map_of full p | Some v \<Rightarrow> Some v)"
proof (induction d arbitrary: full)
  case Nil
  then show ?case by (simp add: merge_props_def)
next
  case (Cons e d)
  obtain x v where e: "e = (x, v)" by (cases e)
  have "map_of (merge_props (map_set x v full) d) p
      = (case map_of d p of None \<Rightarrow> map_of (map_set x v full) p | Some v \<Rightarrow> Some v)"
    using Cons by simp
  moreover have "map_of d x = None" using Cons.prems e by (simp add: map_of_eq_None_iff)
  ultimately show ?case using e by (cases "p = x") (auto simp: merge_props_def split: option.split)
qed

lemma updateRowData_get:
  "map_get (rows (updateRowData d t)) k =
     (if k = data_id d
      then Some \<lparr>row_id = (case map_get (rows t) k of None \<Rightarrow> k | Some r \<Rightarrow> row_id r),
                 full_data = merge_props (case map_get (rows t) k of None \<Rightarrow> [] | Some r \<Rightarrow> full_data r) d, delta = d\<rparr>
      else map_get (rows t) k)"
  by (auto simp: updateRowData_def Let_def data_id_def split: option.splits)

lemma updateRowData_all_other:
  "k \<notin> data_id ` set ds \<Longrightarrow> map_get (rows (foldl (\<lambda>t d. updateRowData d t) t ds)) k = map_get (rows t) k"
  by (induction ds arbitrary: t) (auto simp: updateRowData_get)

lemma updateRowData_all_get:
  assumes "d \<in> set ds" "distinct (map data_id ds)"
  shows "\<exists>r. map_get (rows (foldl (\<lambda>t d. updateRowData d t) t ds)) (data_id d) = Some r
     \<and> full_data r = merge_props (case map_get (rows t) (data_id d) of None \<Rightarrow> [] | Some r \<Rightarrow> full_data r) d"
  using assms
proof (induction ds arbitrary: t)
  case (Cons e ds)
  show ?case
  proof (cases "e = d")
    case True
    then show ?thesis using Cons.prems by (auto simp: updateRowData_all_other updateRowData_get)
  next
    case False
    then have "d \<in> set ds" using Cons.prems by simp
    moreover from this have "data_id d \<noteq> data_id e" using Cons.prems(2) by (metis distinct.simps(2) image_eqI list.simps(9) set_map)
    ultimately show ?thesis using Cons.IH [of "updateRowData e t"] Cons.prems by (simp add: updateRowData_get)
  qed
qed simp

lemma setRows_get:
  "map_get (rows (setRows ds t)) k =
     (if k \<in> data_id ` set ds then map_get (rows (foldl (\<lambda>t d. updateRowData d t) t ds)) k else None)"
proof -
  let ?t = "foldl (\<lambda>t d. updateRowData d t) t ds"
  have "k \<notin> set (keys (rows ?t)) \<Longrightarrow> map_get (rows ?t) k = None" by (simp add: map_of_eq_None_iff)
  then show ?thesis
    by (auto simp: setRows_def Let_def map_foldl_delete data_id_def [abs_def])
qed

lemma sort_rows_correct:
  assumes "comparator_on A cmp" "set rs \<subseteq> A"
  shows "sorted_wrt (\<lambda>x y. if asc then cmp x y \<le> 0 else 0 \<le> cmp x y) (sort_rows cmp asc rs)"
    and "count_list (sort_rows cmp asc rs) r = count_list rs r"
    and "z \<in> A \<Longrightarrow> filter (\<lambda>y. cmp z y = 0) (sort_rows cmp asc rs) = filter (\<lambda>y. cmp z y = 0) rs"
proof -
  let ?c = "\<lambda>x y. if asc then cmp x y else - cmp x y"
  have c: "comparator_on A ?c" using assms(1) comparator_on.comparator_reverse [OF assms(1)] by (cases asc) simp_all
  have s: "sort_rows cmp asc rs = js_sort ?c rs" by (simp add: sort_rows_def Let_def)
  show "sorted_wrt (\<lambda>x y. if asc then cmp x y \<le> 0 else 0 \<le> cmp x y) (sort_rows cmp asc rs)"
    using comparator_on.sorted_js_sort [OF c assms(2)] unfolding s by (cases asc) simp_all
  show "count_list (sort_rows cmp asc rs) r = count_list rs r" by (simp add: s)
  show "z \<in> A \<Longrightarrow> filter (\<lambda>y. cmp z y = 0) (sort_rows cmp asc rs) = filter (\<lambda>y. cmp z y = 0) rs"
    using comparator_on.stable_js_sort [OF c _ assms(2), of z] unfolding s by (cases asc) simp_all
qed

lemma set_sort_rows [simp]: "set (sort_rows cmp asc rs) = set rs"
  by (simp add: sort_rows_def)

lemma mset_js_insert: "mset (js_insert cmp x xs) = add_mset x (mset xs)"
  by (induction xs) auto

lemma mset_js_sort: "mset (js_sort cmp xs) = mset xs"
  by (induction xs) (simp_all add: mset_js_insert)

lemma distinct_ids_sort_rows [simp]: "distinct (map row_id (sort_rows cmp asc rs)) = distinct (map row_id rs)"
proof -
  have "mset (map row_id (sort_rows cmp asc rs)) = mset (map row_id rs)"
    by (simp add: sort_rows_def mset_js_sort)
  then show ?thesis by (rule mset_eq_imp_distinct_iff)
qed

text \<open>
  What a table's view promises to the drawing and selection code: rows of the table, once each.
\<close>

locale table_view =
  fixes fsr :: "table \<Rightarrow> row list" and ok :: "string \<Rightarrow> bool"
  assumes view_distinct: "wf_rows ok t \<Longrightarrow> distinct (map row_id (fsr t))"
    and view_rows: "wf_rows ok t \<Longrightarrow> set (map row_id (fsr t)) \<subseteq> set (keys (rows t))"

text \<open>Ids that are not array indices collect to the rows themselves.\<close>

definition plain_id :: "string \<Rightarrow> bool" where
  "plain_id k \<longleftrightarrow> array_index k = None"

lemma plain_id_letter: "c \<in> set s \<Longrightarrow> \<not> is_digit c \<Longrightarrow> plain_id s"
  by (auto simp: plain_id_def array_index_def Let_def list_all_iff)

lemma collect_plain: "\<forall>r \<in> set rs. plain_id (row_id r) \<Longrightarrow> collect_rows rs = map Some rs"
proof (induction rs rule: rev_induct)
  case (snoc r rs)
  then show ?case by (simp add: collect_rows_def array_put_def plain_id_def)
qed (simp add: collect_rows_def)

lemma array_elements_Some [simp]: "array_elements (map Some xs) = xs"
  by (induction xs) (simp_all add: array_elements_def)

lemma base_rows:
  "wf_rows plain_id t \<Longrightarrow>
     getFilteredAndSortedRows cmp t = sort_rows (cmp t) (reverseSort t = ''0'') (map snd (rows t))"
  unfolding getFilteredAndSortedRows_def
  by (subst collect_plain) (auto simp: wf_rows_def simp del: map_map)

interpretation base_view: table_view "getFilteredAndSortedRows cmp" plain_id
proof
  fix t :: table
  assume w: "wf_rows plain_id t"
  then have ids: "map row_id (map snd (rows t)) = keys (rows t)" "distinct_keys (rows t)"
    by (rule wf_rows_ids, simp add: wf_rows_def)
  then show "distinct (map row_id (getFilteredAndSortedRows cmp t))"
    by (simp only: base_rows [OF w] distinct_ids_sort_rows)
  have "set (map row_id (getFilteredAndSortedRows cmp t)) = set (map row_id (map snd (rows t)))"
    by (simp only: base_rows [OF w] set_map set_sort_rows)
  then show "set (map row_id (getFilteredAndSortedRows cmp t)) \<subseteq> set (keys (rows t))"
    unfolding ids by simp
qed

text \<open>
  The operations that a page performs on a table, as steps. \<open>Draw\<close> is \<open>updateTable\<close>; data and
  rows may change any number of times between two drawings.
\<close>

inductive table_step ::
  "(table \<Rightarrow> row list) \<Rightarrow> (string \<Rightarrow> bool) \<Rightarrow> table \<Rightarrow> table \<Rightarrow> bool" for fsr ok where
  step_data: "ok (data_id d) \<Longrightarrow> table_step fsr ok t (updateRowData d t)"
| step_rows: "\<forall>d \<in> set ds. ok (data_id d) \<Longrightarrow> table_step fsr ok t (setRows ds t)"
| step_draw: "table_step fsr ok t (updateTable fsr full t)"
| step_remove: "table_step fsr ok t (removeRow fsr rid t)"
| step_clear: "table_step fsr ok t (clear_table fsr t)"
| step_click: "table_step fsr ok t (clickRow fsr ctrl sh target t)"
| step_context: "table_step fsr ok t (contextmenuRow target t)"
| step_all: "table_step fsr ok t (selectAll fsr t)"
| step_next: "table_step fsr ok t (selectNextRow t)"
| step_previous: "table_step fsr ok t (selectPreviousRow t)"
| step_sort: "setSortedColumn fsr col rev' prefs t = (prefs', t') \<Longrightarrow> table_step fsr ok t t'"
| step_drop: "dropColumn fsr dragged target right prefs t = (prefs', t') \<Longrightarrow> table_step fsr ok t t'"
| step_scroll: "table_step fsr ok t (rerender (fsr t) (t\<lparr>renderedOffset := x\<rparr>))"

definition wf_table :: "(string \<Rightarrow> bool) \<Rightarrow> table \<Rightarrow> bool" where
  "wf_table ok t \<longleftrightarrow> wf_rows ok t \<and> distinct_keys (trs t) \<and> distinct (map col_name (columns t))"

text \<open>Operations that touch only the selection and the classes.\<close>

definition same_content :: "table \<Rightarrow> table \<Rightarrow> bool" where
  "same_content t u \<longleftrightarrow> rows u = rows t \<and> keys (trs u) = keys (trs t) \<and> columns u = columns t"

lemma same_content_trans [trans]: "same_content t u \<Longrightarrow> same_content u v \<Longrightarrow> same_content t v"
  by (simp add: same_content_def)

lemma selection_same_content [intro, simp]:
  "same_content t t"
  "same_content t (setRowClass t)" "same_content t (deselectAll t)" "same_content t (t\<lparr>selectedRows := sel\<rparr>)"
  "same_content t (selectRow rid t)" "same_content t (deselectRow rid t)"
  by (simp_all add: same_content_def deselectAll_def selectRow_def deselectRow_def)

lemma foldl_select_same [simp]:
  "same_content t (foldl (\<lambda>u r. u\<lparr>selectedRows := selectedRows u @ [row_id r]\<rparr>) t rs)"
  by (induction rs arbitrary: t) (simp_all add: same_content_def)

lemma handlers_same_content:
  "same_content t (selectAll fsr t)" "same_content t (selectRows fsr a b t)"
  "same_content t (clickRow fsr ctrl sh target t)" "same_content t (contextmenuRow target t)"
  "same_content t (selectNextRow t)" "same_content t (selectPreviousRow t)"
proof -
  have d: "same_content t (selectRow rid (deselectAll t))" "same_content t (setRowClass (deselectAll t))" for rid
    by (simp_all add: same_content_def deselectAll_def selectRow_def)
  show "same_content t (selectAll fsr t)"
    using foldl_select_same [of "deselectAll t" "fsr (deselectAll t)"]
    by (simp add: selectAll_def Let_def same_content_def deselectAll_def)
  show rows: "same_content t (selectRows fsr a b t)" for a b
    by (simp add: selectRows_def selectRow_def Let_def same_content_def deselectAll_def)
  show "same_content t (clickRow fsr ctrl sh target t)"
    using d rows [of "getSelectedRowId t"] selection_same_content(5,6) by (auto simp: clickRow_def split: option.split)
  show "same_content t (contextmenuRow target t)" "same_content t (selectNextRow t)" "same_content t (selectPreviousRow t)"
    using d by (simp_all add: contextmenuRow_def selectNextRow_def selectPreviousRow_def Let_def split: option.split)
qed

lemma same_content_wf: "same_content t u \<Longrightarrow> wf_table ok t \<Longrightarrow> wf_table ok u"
  by (simp add: same_content_def wf_table_def wf_rows_def)

lemma wf_rows_set: "wf_rows ok t \<Longrightarrow> row_id r = k \<Longrightarrow> ok k \<Longrightarrow> rows u = map_set k r (rows t) \<Longrightarrow> wf_rows ok u"
  by (auto simp: wf_rows_def set_map_set split: if_splits)

lemma wf_rows_updateRow: "wf_rows ok t \<Longrightarrow> wf_rows ok (snd (updateRow rid full t))"
proof (cases "map_get (rows t) rid")
  case (Some r)
  moreover assume w: "wf_rows ok t"
  ultimately show ?thesis
    using wf_rows_get [OF w Some] by (intro wf_rows_set [OF w, of "r\<lparr>delta := []\<rparr>" rid]) (simp_all add: updateRow_def Let_def)
qed (simp add: updateRow_def)

lemma wf_rows_refresh: "wf_rows ok t \<Longrightarrow> wf_rows ok (refresh_all full ids t)"
  by (induction ids arbitrary: t) (auto simp: refresh_all_def intro: wf_rows_updateRow)

lemma wf_rows_cong: "rows u = rows t \<Longrightarrow> wf_rows ok u = wf_rows ok t"
  by (simp add: wf_rows_def)

lemma rerender_window_ids:
  "distinct (map row_id rs) \<Longrightarrow> distinct (map fst (rerender_window t rs))"
proof -
  assume d: "distinct (map row_id rs)"
  let ?e = "min (startRow t + visibleRowCount t) (length rs)"
  have "map fst (rerender_window t rs) = map (\<lambda>i. map row_id rs ! i) [startRow t ..< ?e]"
    by (simp add: rerender_window_def Let_def)
  moreover have "inj_on ((!) (map row_id rs)) (set [startRow t ..< ?e])"
    using d by (intro inj_on_nth) auto
  ultimately show ?thesis by (simp add: distinct_map)
qed

lemma rerender_wf:
  assumes "wf_table ok t" "distinct (map row_id rs)"
  shows "wf_table ok (rerender rs t)"
proof (cases "renderedHeight t = 0")
  case True
  then show ?thesis using assms by (simp add: rerender_def)
next
  case False
  let ?u = "setRowClass (t\<lparr>trs := map (\<lambda>rid. (rid, blank_tr)) (map fst (rerender_window t rs))\<rparr>)"
  have "keys (trs ?u) = map fst (rerender_window t rs)" by (simp add: comp_def)
  then have "distinct_keys (trs ?u)" using rerender_window_ids [OF assms(2)] by metis
  moreover have "wf_rows ok ?u" using assms(1) by (simp add: wf_table_def wf_rows_def)
  ultimately show ?thesis
    using False assms(1) by (simp add: rerender_def Let_def wf_table_def wf_rows_refresh)
qed

context table_view
begin

lemma updateTable_wf:
  assumes "wf_table ok t"
  shows "wf_table ok (updateTable fsr full t)"
proof -
  let ?u = "t\<lparr>selectedRows := prune_loop (set (map row_id (fsr t))) 0 (selectedRows t)\<rparr>"
  have u: "wf_table ok ?u" using assms by (simp add: wf_table_def wf_rows_def)
  have d: "distinct (map row_id (fsr t))" using assms view_distinct by (simp add: wf_table_def)
  show ?thesis
  proof (cases "useVirtualList t")
    case True
    then show ?thesis using rerender_wf [OF u d] by (simp add: updateTable_def Let_def)
  next
    case False
    have "distinct_keys (trs (updateTable fsr full t))"
      using updateTable_trs [OF False, where fsr = fsr] assms d by (simp add: wf_table_def)
    moreover have "wf_rows ok (updateTable fsr full t)"
    proof -
      have "wf_rows ok (refresh_all f ids ?u)" for f ids
        using u by (intro wf_rows_refresh) (simp add: wf_table_def)
      then show ?thesis using False by (simp add: updateTable_def Let_def wf_rows_def)
    qed
    moreover have "columns (updateTable fsr full t) = columns t"
      using False by (simp add: updateTable_def Let_def)
    ultimately show ?thesis using assms by (simp add: wf_table_def)
  qed
qed

lemma clear_rerender_wf:
  "wf_rows ok u \<Longrightarrow> wf_table ok t \<Longrightarrow> trs u = trs t \<Longrightarrow> columns u = columns t \<Longrightarrow> wf_table ok (rerender (fsr u) u)"
  by (rule rerender_wf [OF _ view_distinct]) (simp_all add: wf_table_def)

lemma step_wf: "table_step fsr ok t u \<Longrightarrow> wf_table ok t \<Longrightarrow> wf_table ok u"
proof (induction rule: table_step.induct)
  case (step_data d t)
  then show ?case
    using wf_updateRowData [of ok t d] by (simp add: wf_table_def updateRowData_def Let_def)
next
  case (step_rows ds t)
  have "trs (foldl (\<lambda>t d. updateRowData d t) t ds) = trs t \<and> columns (foldl (\<lambda>t d. updateRowData d t) t ds) = columns t"
    by (induction ds arbitrary: t) (simp_all add: updateRowData_def Let_def)
  then show ?case
    using step_rows wf_setRows [of ok t ds] by (simp add: wf_table_def setRows_def Let_def)
next
  case (step_draw t full)
  then show ?case by (rule updateTable_wf)
next
  case (step_remove t rid)
  let ?u = "t\<lparr>selectedRows := filter (\<lambda>x. x \<noteq> rid) (selectedRows t), rows := map_delete rid (rows t)\<rparr>"
  have "wf_rows ok ?u"
    using step_remove distinct_keys_delete [of "rows t" rid] by (simp add: wf_table_def wf_rows_def) (simp add: AList.delete_eq)
  then show ?case
    using step_remove clear_rerender_wf [of ?u t]
    by (auto simp: removeRow_def Let_def wf_table_def wf_rows_def)
next
  case (step_clear t)
  let ?u = "(deselectAll t)\<lparr>rows := []\<rparr>"
  have "wf_rows ok ?u" by (simp add: wf_rows_def)
  then show ?case
    using step_clear clear_rerender_wf [of ?u t]
    by (auto simp: clear_table_def Let_def wf_table_def wf_rows_def deselectAll_def)
next
  case (step_sort col rev' prefs t prefs' t')
  let ?u = "if col \<noteq> sortedColumn t
      then t\<lparr>sortedColumn := col, reverseSort := (case rev' of Some r \<Rightarrow> r | None \<Rightarrow> ''0'')\<rparr>
      else t\<lparr>reverseSort := (case rev' of Some r \<Rightarrow> r | None \<Rightarrow> if reverseSort t = ''0'' then ''1'' else ''0'')\<rparr>"
  have "t' = updateTable fsr False ?u"
    using step_sort(1) unfolding setSortedColumn_def Let_def by simp
  moreover have "wf_table ok ?u" using step_sort(2) by (simp add: wf_table_def wf_rows_def)
  ultimately show ?case by (simp only: updateTable_wf)
next
  case (step_drop dragged target right prefs t prefs' t')
  show ?case
  proof (cases "dragged = target")
    case True
    then show ?thesis using step_drop by (simp add: dropColumn_def)
  next
    case False
    let ?u = "(loadColumnsOrder prefs' t)\<lparr>trs := []\<rparr>"
    have "wf_table ok ?u"
      using step_drop(2) loadColumnsOrder_names [of t prefs'] merged_order_perm
      by (auto simp: wf_table_def wf_rows_def loadColumnsOrder_def Let_def split: option.splits)
    then have "wf_table ok (updateTable fsr True ?u)" by (rule updateTable_wf)
    moreover have "t' = reselectRows (selectedRows (updateTable fsr True ?u)) (updateTable fsr True ?u)"
      using step_drop(1) False by (auto simp: dropColumn_def Let_def)
    ultimately show ?thesis
      by (simp add: same_content_wf [of "updateTable fsr True ?u"] reselectRows_def same_content_def deselectAll_def)
  qed
next
  case (step_scroll t x)
  have "wf_table ok (t\<lparr>renderedOffset := x\<rparr>)" using step_scroll by (simp add: wf_table_def wf_rows_def)
  moreover have "distinct (map row_id (fsr t))" using view_distinct step_scroll by (simp add: wf_table_def)
  ultimately show ?case by (rule rerender_wf)
qed (blast intro: same_content_wf handlers_same_content)+

end

lemma range_loop_off:
  "\<forall>r \<in> set rs. row_id r \<noteq> a \<and> row_id r \<noteq> b \<Longrightarrow> range_loop t a b False (rs @ rs') sel = range_loop t a b False rs' sel"
  by (induction rs) auto

lemma range_loop_on:
  "useVirtualList t \<Longrightarrow> \<forall>r \<in> set rs. row_id r \<noteq> a \<and> row_id r \<noteq> b \<Longrightarrow>
     range_loop t a b True (rs @ rs') sel = range_loop t a b True rs' (sel @ map row_id rs)"
  by (induction rs arbitrary: sel) auto

section \<open>Properties of the operations together\<close>

lemma wf_ex_table: "wf_rows plain_id ex_table" "wf_table plain_id ex_table"
  by (simp_all add: wf_table_def wf_rows_def ex_table_def ex_row_def plain_id_letter is_digit_def)

text \<open>
  C11: Every sequence of operations on a table keeps its rows keyed by their own ids, its body free
  of duplicates and its column names distinct, and after it a redraw of a table that is not
  virtual shows exactly the rows of the table, once each, in sorted order.
\<close>

theorem table_steps_invariant:
  assumes "(table_step (getFilteredAndSortedRows cmp) plain_id)\<^sup>*\<^sup>* t u" and "wf_table plain_id t"
  shows "wf_table plain_id u \<and> (useVirtualList u \<or>
    keys (trs (updateTable (getFilteredAndSortedRows cmp) full u)) = map row_id (getFilteredAndSortedRows cmp u)
      \<and> set (keys (trs (updateTable (getFilteredAndSortedRows cmp) full u))) = set (keys (rows u)))"
proof -
  have w: "wf_table plain_id u"
    using assms by (induction rule: rtranclp_induct) (auto intro: base_view.step_wf)
  then have d: "distinct (map row_id (getFilteredAndSortedRows cmp u))" "distinct_keys (trs u)" "wf_rows plain_id u"
    by (auto simp: wf_table_def intro: base_view.view_distinct)
  have "set (map row_id (getFilteredAndSortedRows cmp u)) = set (map row_id (map snd (rows u)))"
    by (simp only: base_rows [OF d(3)] set_map set_sort_rows)
  then have all: "set (map row_id (getFilteredAndSortedRows cmp u)) = set (keys (rows u))"
    unfolding wf_rows_ids [OF d(3)] .
  show ?thesis
  proof (cases "useVirtualList u")
    case False
    then show ?thesis
      using w all updateTable_trs [where fsr = "getFilteredAndSortedRows cmp" and full = full, OF _ d(2,1)]
      by (simp only:) simp
  qed (simp add: w)
qed

theorem table_steps_invariant_witness:
  "wf_table plain_id (updateRowData [(''rowId'', JStr ''d''), (''size'', JNum 9)] ex_table)"
proof -
  have "plain_id (data_id [(''rowId'', JStr ''d''), (''size'', JNum 9)])"
    by (simp add: plain_id_letter is_digit_def data_id_def prop_get_def)
  then have "(table_step (getFilteredAndSortedRows (\<lambda>t. compareRows (\<lambda>a b. 0) (hd (columns t)))) plain_id)\<^sup>*\<^sup>* ex_table
      (updateRowData [(''rowId'', JStr ''d''), (''size'', JNum 9)] ex_table)"
    by (intro r_into_rtranclp step_data)
  then show ?thesis using table_steps_invariant wf_ex_table(2) by blast
qed

text \<open>
  C33: On a column whose values are all numbers, or none of them, the rows of a table are sorted by
  the column in the direction chosen, are the rows of the table, and rows that tie keep their
  insertion order. The collator is any total preorder on texts.
\<close>

theorem rows_sorted:
  assumes "comparator_on UNIV collate" and w: "wf_rows plain_id t"
    and "(\<forall>r \<in> snd ` set (rows t). is_number (getRowValue c r 0))
      \<or> (\<forall>r \<in> snd ` set (rows t). \<not> is_number (getRowValue c r 0))"
  shows "sorted_wrt (\<lambda>x y. if reverseSort t = ''0'' then compareRows collate c x y \<le> 0 else 0 \<le> compareRows collate c x y)
      (getFilteredAndSortedRows (\<lambda>_. compareRows collate c) t)
    \<and> mset (getFilteredAndSortedRows (\<lambda>_. compareRows collate c) t) = mset (map snd (rows t))
    \<and> (\<forall>z \<in> snd ` set (rows t).
         filter (\<lambda>y. compareRows collate c z y = 0) (getFilteredAndSortedRows (\<lambda>_. compareRows collate c) t)
           = filter (\<lambda>y. compareRows collate c z y = 0) (map snd (rows t)))"
proof -
  let ?A = "snd ` set (rows t)"
  have cmp: "comparator_on ?A (compareRows collate c)"
    using assms(3)
  proof
    assume "\<forall>r \<in> ?A. is_number (getRowValue c r 0)"
    then show ?thesis
      unfolding compareRows_def [abs_def] by (intro comparator_on_pullback [OF compareValues_numbers]) blast
  next
    assume "\<forall>r \<in> ?A. \<not> is_number (getRowValue c r 0)"
    then show ?thesis
      unfolding compareRows_def [abs_def] by (intro comparator_on_pullback [OF compareValues_text [OF assms(1)]]) blast
  qed
  have "set (map snd (rows t)) \<subseteq> ?A" by simp
  note sort_rows_correct(1,3) [OF cmp this]
  moreover have "mset (getFilteredAndSortedRows (\<lambda>_. compareRows collate c) t) = mset (map snd (rows t))"
    by (simp add: base_rows [OF w] sort_rows_def mset_js_sort)
  ultimately show ?thesis by (simp add: base_rows [OF w])
qed

lemma comparator_length: "comparator_on UNIV (\<lambda>s t :: string. int (length s) - int (length t))"
  by unfold_locales (auto simp: sgn_if)

theorem rows_sorted_witness:
  "mset (getFilteredAndSortedRows (\<lambda>_. compareRows (\<lambda>s t. int (length s) - int (length t)) (columns ex_table ! 1)) ex_table)
     = mset (map snd (rows ex_table))"
  by (rule rows_sorted [OF comparator_length, THEN conjunct2, THEN conjunct1])
     (simp_all add: wf_ex_table(1), simp add: ex_table_def ex_row_def getRowValue_def prop_get_def is_number_def)

text \<open>
  \<open>setRows\<close> leaves exactly the rows it is given, old properties of a row that was there before
  staying unless the new data has them.
\<close>

theorem setRows_replaces:
  assumes "wf_rows ok t" and "\<forall>d \<in> set ds. ok (data_id d)" and "distinct (map data_id ds)" and "\<forall>d \<in> set ds. distinct_keys d"
  shows "wf_rows ok (setRows ds t) \<and> set (keys (rows (setRows ds t))) = data_id ` set ds
    \<and> (\<forall>d \<in> set ds. \<exists>r. map_get (rows (setRows ds t)) (data_id d) = Some r
         \<and> (\<forall>p. map_of (full_data r) p = (case map_of d p of
                 Some v \<Rightarrow> Some v
               | None \<Rightarrow> (case map_get (rows t) (data_id d) of None \<Rightarrow> None | Some r' \<Rightarrow> map_of (full_data r') p))))"
proof (intro conjI ballI)
  show "wf_rows ok (setRows ds t)" using assms(1,2) by (rule wf_setRows)
  have dom: "k \<in> set (keys m) \<longleftrightarrow> map_get m k \<noteq> None" for k and m :: "(string, row) jsmap"
    by (simp add: map_of_eq_None_iff)
  have "map_get (rows (foldl (\<lambda>t d. updateRowData d t) t ds)) k \<noteq> None" if "k \<in> data_id ` set ds" for k
    using that updateRowData_all_get [OF _ assms(3)] by fastforce
  then show "set (keys (rows (setRows ds t))) = data_id ` set ds"
    unfolding set_eq_iff dom setRows_get by simp
next
  fix d
  assume d: "d \<in> set ds"
  from updateRowData_all_get [OF d assms(3), of t] obtain r where
    "map_get (rows (foldl (\<lambda>t d. updateRowData d t) t ds)) (data_id d) = Some r"
    "full_data r = merge_props (case map_get (rows t) (data_id d) of None \<Rightarrow> [] | Some r \<Rightarrow> full_data r) d" by blast
  moreover from this(2) have "map_of (full_data r) p = (case map_of d p of
                 Some v \<Rightarrow> Some v
               | None \<Rightarrow> (case map_get (rows t) (data_id d) of None \<Rightarrow> None | Some r' \<Rightarrow> map_of (full_data r') p))" for p
    using merge_props_get [OF assms(4) [rule_format, OF d]] by (simp split: option.split)
  ultimately show "\<exists>r. map_get (rows (setRows ds t)) (data_id d) = Some r
         \<and> (\<forall>p. map_of (full_data r) p = (case map_of d p of
                 Some v \<Rightarrow> Some v
               | None \<Rightarrow> (case map_get (rows t) (data_id d) of None \<Rightarrow> None | Some r' \<Rightarrow> map_of (full_data r') p)))"
    using d by (auto simp: setRows_get)
qed

theorem setRows_replaces_witness:
  "set (keys (rows (setRows [[(''rowId'', JStr ''b''), (''size'', JNum 9)], [(''rowId'', JStr ''q'')]] ex_table))) = {''b'', ''q''}"
proof -
  have "plain_id ''b''" "plain_id ''q''" by (simp_all add: plain_id_letter is_digit_def)
  then show ?thesis
    using setRows_replaces [OF wf_ex_table(1), of "[[(''rowId'', JStr ''b''), (''size'', JNum 9)], [(''rowId'', JStr ''q'')]]"]
    by (simp add: data_id_def prop_get_def)
qed

text \<open>
  Selecting a range in a virtual table selects the two rows given, in either order, and exactly
  the rows between them in the current view.
\<close>

theorem selectRows_range:
  assumes "useVirtualList t" and "fsr (deselectAll t) = before @ r1 # between @ r2 # behind"
    and "distinct (map row_id (before @ r1 # between @ r2 # behind))"
    and "{a, b} = {row_id r1, row_id r2}"
  shows "selectedRows (selectRows fsr a b t) = map row_id (r1 # between @ [r2])"
proof -
  let ?t = "deselectAll t"
  have ne: "a \<noteq> b" using assms(3,4) by (auto simp: doubleton_eq_iff)
  have off: "\<forall>r \<in> set before. row_id r \<noteq> a \<and> row_id r \<noteq> b" "\<forall>r \<in> set between. row_id r \<noteq> a \<and> row_id r \<noteq> b"
    "\<forall>r \<in> set behind. row_id r \<noteq> a \<and> row_id r \<noteq> b"
    using assms(3,4) by (auto simp: doubleton_eq_iff image_iff)
  have on: "row_id r1 = a \<or> row_id r1 = b" "row_id r2 = a \<or> row_id r2 = b"
    using assms(4) by (auto simp: doubleton_eq_iff)
  have "range_loop ?t a b False (before @ r1 # between @ r2 # behind @ []) [] = map row_id (r1 # between @ [r2])"
    using off on assms(1)
    by (simp add: range_loop_off range_loop_on deselectAll_def) (simp add: range_loop_off [of behind, where rs' = "[]", simplified])
  then show ?thesis using ne assms(2) by (simp add: selectRows_def Let_def deselectAll_def)
qed

theorem selectRows_range_witness:
  "selectedRows (selectRows (\<lambda>_. [ex_row ''a'' 1, ex_row ''b'' 2, ex_row ''c'' 3]) ''c'' ''b'' (ex_table\<lparr>useVirtualList := True\<rparr>))
     = [''b'', ''c'']"
  using selectRows_range [of "ex_table\<lparr>useVirtualList := True\<rparr>" "\<lambda>_. [ex_row ''a'' 1, ex_row ''b'' 2, ex_row ''c'' 3]"
      "[ex_row ''a'' 1]" "ex_row ''b'' 2" "[]" "ex_row ''c'' 3" "[]" "''c''" "''b''"]
  by (auto simp: ex_row_def)

section \<open>Drawing keeps the data\<close>

text \<open>Drawing a row forgets what changed since it was drawn last, and nothing else of it.\<close>

definition row_data :: "string \<times> row \<Rightarrow> string \<times> string \<times> jsobj" where
  "row_data e = (fst e, row_id (snd e), full_data (snd e))"

lemma map_map_set_same:
  "map_get m k = Some r \<Longrightarrow> g (k, r') = g (k, r) \<Longrightarrow> map g (map_set k r' m) = map g m"
  by (induction m) (auto split: if_splits)

lemma row_data_updateRow [simp]: "map row_data (rows (snd (updateRow rid f u))) = map row_data (rows u)"
  by (auto simp: updateRow_def row_data_def Let_def split: option.split intro: map_map_set_same)

lemma row_data_refresh [simp]: "map row_data (rows (refresh_all f ids u)) = map row_data (rows u)"
  by (induction ids arbitrary: u) (simp_all add: refresh_all_def)

lemma row_data_rerender [simp]: "map row_data (rows (rerender rs t)) = map row_data (rows t)"
  by (simp add: rerender_def Let_def setRowClass_def)

lemma row_data_updateTable [simp]: "map row_data (rows (updateTable fsr full t)) = map row_data (rows t)"
  by (simp add: updateTable_def Let_def)

lemma row_data_removeRow [simp]: "map row_data (rows (removeRow fsr rid t)) = map row_data (map_delete rid (rows t))"
  by (simp add: removeRow_def Let_def)

lemma rerender_no_rows [simp]: "rows (rerender rs t) = [] \<longleftrightarrow> rows t = []"
  using arg_cong [OF row_data_rerender [of rs t], of length] by (simp del: row_data_rerender flip: length_0_conv)

lemma rows_clear_table [simp]: "rows (clear_table fsr t) = []"
  by (simp add: clear_table_def Let_def)

lemma row_data_keys: "map row_data (rows u) = map row_data m \<Longrightarrow> keys (rows u) = keys m"
  by (drule arg_cong [of _ _ "map fst"]) (simp add: row_data_def comp_def)

lemma row_data_full:
  assumes "map row_data m' = map row_data m"
  shows "map_option full_data (map_get m' k) = map_option full_data (map_get m k)"
proof -
  have "map_option full_data (map_get m k) = map_option snd (map_get (map row_data m) k)" for m
    by (induction m) (auto simp: row_data_def)
  then show ?thesis using assms by metis
qed

lemma wf_rows_data:
  assumes "map row_data (rows u) = map row_data (rows t)" and "wf_rows ok t"
  shows "wf_rows ok u"
proof -
  have "keys (rows u) = keys (rows t)"
    using arg_cong [OF assms(1), of "map fst"] by (simp add: row_data_def comp_def)
  moreover have "row_id r = k \<and> ok k" if "(k, r) \<in> set (rows u)" for k r
  proof -
    have "row_data (k, r) \<in> row_data ` set (rows t)" using that assms(1) by (metis image_eqI set_map)
    then show ?thesis using assms(2) by (auto simp: row_data_def wf_rows_def)
  qed
  ultimately show ?thesis using assms(2) by (auto simp: wf_rows_def)
qed

text \<open>
  Ids that are array indices are unsafe: a row stored under an id that is the index of another
  element replaces it.
\<close>

lemma index_ids_duplicate:
  "map row_id (getFilteredAndSortedRows (\<lambda>_ _ _. 0)
     (ex_table\<lparr>rows := map (\<lambda>r. (row_id r, r)) [ex_row ''2'' 1, ex_row ''0'' 1]\<rparr>)) = [''0'', ''2'', ''0'']"
proof -
  have "nat_str 2 = ''2''" "nat_str 0 = ''0''" by code_simp+
  then have ix: "array_index ''2'' = Some 2" "array_index ''0'' = Some 0"
    by (simp_all add: array_index_def digits_val_def is_digit_def digit_val_def Let_def)
  have "collect_rows [ex_row ''2'' 1, ex_row ''0'' 1]
      = [Some (ex_row ''0'' 1), None, Some (ex_row ''2'' 1), Some (ex_row ''0'' 1)]"
    by (simp add: collect_rows_def array_put_def ix ex_row_def numeral_2_eq_2)
  then show ?thesis
    by (simp add: getFilteredAndSortedRows_def array_elements_def sort_rows_def ex_table_def) (simp add: ex_row_def)
qed

end
