(* ===== verification/FilesTable.thy ===== *)
theory FilesTable
  imports FileTree TableCore
begin

text \<open>
  The class \<open>TorrentFilesTable\<close> of \<open>dynamicTable.js\<close>: a table over the tree of \<open>FileTree\<close>. Its
  state is the table, the store, the tree object, the collapse state of the folders, the filter
  and the cache of the last view. Loops over the tree that use a stack take fuel.
\<close>

section \<open>State\<close>

record collapse_info =
  ci_depth :: nat
  ci_collapsed :: bool

type_synonym file_signature =
  "string \<times> string \<times> int \<times> rat \<times> TriState \<times> rat \<times> rat \<times> FilePriority \<times> rat \<times> bool"

record files_table =
  base :: table
  heap :: store
  fileTree :: file_tree
  supportCollapsing :: bool
  collapseState :: "(nat, collapse_info) jsmap"
  fileNameColumn :: string
  filterTerms :: "string list"
  prevFilterTerms :: "string list"
  prevRows :: "file_signature list option"
  prevFilteredRows :: "row option list"
  prevSortedColumn :: "string option"
  prevReverseSort :: "string option"
  headerCheckbox :: "TriState option"

definition row_key :: "nat \<Rightarrow> string" where
  "row_key r = nat_str r"

definition ft_root :: "files_table \<Rightarrow> addr option" where
  "ft_root ft = tree_root (fileTree ft)"

definition node_row :: "files_table \<Rightarrow> addr \<Rightarrow> row option" where
  "node_row ft a =
     (case getRowId (heap ft) a of None \<Rightarrow> None | Some r \<Rightarrow> map_get (rows (base ft)) (row_key r))"

definition getRowFileId :: "files_table \<Rightarrow> nat \<Rightarrow> int option" where
  "getRowFileId ft r = map_option (\<lambda>a. fileId (heap ft a)) (getNode (fileTree ft) r)"

section \<open>The header checkbox\<close>

definition isAllCheckboxesChecked :: "store \<Rightarrow> addr list \<Rightarrow> bool" where
  "isAllCheckboxesChecked h as = list_all (\<lambda>a. checked (h a) = Checked) as"

definition isAllCheckboxesUnchecked :: "store \<Rightarrow> addr list \<Rightarrow> bool" where
  "isAllCheckboxesUnchecked h as = list_all (\<lambda>a. checked (h a) \<noteq> Checked) as"

definition header_state :: "store \<Rightarrow> addr list \<Rightarrow> TriState" where
  "header_state h as =
     (if isAllCheckboxesChecked h as then Checked
      else if isAllCheckboxesUnchecked h as then Unchecked else Partial)"

definition updateHeaderCheckbox :: "nat \<Rightarrow> files_table \<Rightarrow> files_table option" where
  "updateHeaderCheckbox fuel ft =
     (if headerCheckbox ft = None \<or> rows (base ft) = [] then Some ft
      else map_option (\<lambda>as. ft\<lparr>headerCheckbox := Some (header_state (heap ft) as)\<rparr>)
             (toArray fuel (heap ft) (fileTree ft)))"

section \<open>Collapsing\<close>

definition isCollapsed :: "files_table \<Rightarrow> nat \<Rightarrow> bool" where
  "isCollapsed ft r =
     (supportCollapsing ft \<and>
      (case map_get (collapseState ft) r of None \<Rightarrow> False | Some st \<Rightarrow> ci_collapsed st))"

definition set_invisible :: "string \<Rightarrow> bool \<Rightarrow> table \<Rightarrow> table" where
  "set_invisible key hide t =
     t\<lparr>trs := map (\<lambda>(k, c). (k, if k = key then c\<lparr>is_invisible := hide\<rparr> else c)) (trs t)\<rparr>"

definition updateNodeVisibility :: "addr \<Rightarrow> bool \<Rightarrow> files_table \<Rightarrow> files_table" where
  "updateNodeVisibility a shouldHide ft =
     (case rowId (heap ft a) of
        None \<Rightarrow> ft
      | Some r \<Rightarrow> ft\<lparr>base := set_invisible (row_key r) shouldHide (base ft)\<rparr>)"

definition parent_collapsed :: "files_table \<Rightarrow> addr \<Rightarrow> bool" where
  "parent_collapsed ft a =
     (case root (heap ft a) of
        None \<Rightarrow> False
      | Some p \<Rightarrow> (case rowId (heap ft p) of None \<Rightarrow> False | Some r \<Rightarrow> isCollapsed ft r))"

fun visibility_loop :: "nat \<Rightarrow> bool \<Rightarrow> addr list \<Rightarrow> files_table \<Rightarrow> files_table option" where
  "visibility_loop 0 shouldHide stack ft = (if stack = [] then Some ft else None)"
| "visibility_loop (Suc fuel) shouldHide stack ft =
     (if stack = [] then Some ft
      else let a = last stack;
               ft = updateNodeVisibility a (if shouldHide then shouldHide else parent_collapsed ft a) ft
           in visibility_loop fuel shouldHide (butlast stack @ children (heap ft a)) ft)"

definition updateNodeState :: "nat \<Rightarrow> nat \<Rightarrow> bool \<Rightarrow> files_table \<Rightarrow> files_table option" where
  "updateNodeState fuel r shouldCollapse ft =
     (if useVirtualList (base ft) then Some ft
      else case getNode (fileTree ft) r of
          None \<Rightarrow> None
        | Some a \<Rightarrow>
            if \<not> isFolder (heap ft a) then Some ft
            else visibility_loop fuel shouldCollapse (children (heap ft a)) ft)"

definition set_collapsed :: "nat \<Rightarrow> bool \<Rightarrow> files_table \<Rightarrow> files_table" where
  "set_collapsed r b ft =
     (case map_get (collapseState ft) r of
        None \<Rightarrow> ft
      | Some st \<Rightarrow> ft\<lparr>collapseState := map_set r (st\<lparr>ci_collapsed := b\<rparr>) (collapseState ft)\<rparr>)"

definition expandNode :: "nat \<Rightarrow> nat \<Rightarrow> files_table \<Rightarrow> files_table option" where
  "expandNode fuel r ft =
     (if \<not> supportCollapsing ft then Some ft else updateNodeState fuel r False (set_collapsed r False ft))"

definition collapseNode :: "nat \<Rightarrow> nat \<Rightarrow> files_table \<Rightarrow> files_table option" where
  "collapseNode fuel r ft =
     (if \<not> supportCollapsing ft then Some ft else updateNodeState fuel r True (set_collapsed r True ft))"

fun each_node :: "(nat \<Rightarrow> files_table \<Rightarrow> files_table option) \<Rightarrow> nat list \<Rightarrow> files_table \<Rightarrow> files_table option" where
  "each_node f [] ft = Some ft"
| "each_node f (r # rs) ft = Option.bind (f r ft) (each_node f rs)"

section \<open>Sorting and filtering the tree\<close>

text \<open>The value of a node in a column; the progress of a file is the text the page was given.\<close>

definition node_value :: "node \<Rightarrow> string \<Rightarrow> jsval" where
  "node_value n p =
     (if p = ''name'' then JStr (name n)
      else if p = ''size'' then JNum (size_of n)
      else if p = ''checked'' then JNum (of_nat (tristate_code (checked n)))
      else if p = ''progress'' then (if isFolder n then JNum (progress n)
                                     else JStr (toFixedPointString (Some (progress n)) 1))
      else if p = ''priority'' then JNum (of_int (priority_code (priority n)))
      else if p = ''remaining'' then JNum (remaining n)
      else if p = ''availability'' then JNum (availability n)
      else JUndef)"

definition compareNodes :: "string cmp \<Rightarrow> string \<Rightarrow> string \<Rightarrow> bool \<Rightarrow> node cmp" where
  "compareNodes collate nameColumn col isReverseSort node1 node2 =
     (let isColumnName = (col = nameColumn) in
      if isColumnName \<and> isFolder node1 \<and> \<not> isFolder node2 then -1
      else if isColumnName \<and> \<not> isFolder node1 \<and> isFolder node2 then 1
      else let result = compareValues collate (node_value node1 col) (node_value node2 col)
           in if isReverseSort then result else - result)"

fun sort_loop :: "nat \<Rightarrow> node cmp \<Rightarrow> addr list \<Rightarrow> store \<Rightarrow> store option" where
  "sort_loop 0 cmp stack h = (if stack = [] then Some h else None)"
| "sort_loop (Suc fuel) cmp stack h =
     (if stack = [] then Some h
      else let a = last stack;
               h = h(a := (h a)\<lparr>children := js_sort (\<lambda>x y. cmp (h x) (h y)) (children (h a))\<rparr>)
           in sort_loop fuel cmp (butlast stack @ children (h a)) h)"

definition sortNodesByColumn :: "nat \<Rightarrow> string cmp \<Rightarrow> files_table \<Rightarrow> addr \<Rightarrow> string \<Rightarrow> files_table option" where
  "sortNodesByColumn fuel collate ft a col =
     map_option (\<lambda>h. ft\<lparr>heap := h\<rparr>)
       (sort_loop fuel (compareNodes collate (fileNameColumn ft) col (reverseSort (base ft) = ''0'')) [a] (heap ft))"

text \<open>
  \<open>filterNodes\<close>: \<open>opened\<close> tells which folders are looked into; the marks \<open>_visited\<close> and
  \<open>_hasChildrenAdded\<close> that the loop sets on nodes and deletes again are sets of addresses.
\<close>

record filter_state =
  f_stack :: "addr list"
  f_visited :: "addr list"
  f_added :: "addr list"
  f_ret :: "addr list"

definition mark_parent :: "store \<Rightarrow> addr \<Rightarrow> addr list \<Rightarrow> addr list" where
  "mark_parent h a added = (case root (h a) of None \<Rightarrow> added | Some p \<Rightarrow> set_add p added)"

definition filter_step :: "store \<Rightarrow> (addr \<Rightarrow> bool) \<Rightarrow> (addr \<Rightarrow> bool) \<Rightarrow> filter_state \<Rightarrow> filter_state" where
  "filter_step h opened matches s =
     (let a = last (f_stack s) in
      if opened a
      then if a \<notin> set (f_visited s)
           then s\<lparr>f_visited := set_add a (f_visited s), f_stack := f_stack s @ children (h a)\<rparr>
           else let s = (if a \<in> set (f_added s) \<or> matches a
                         then s\<lparr>f_ret := f_ret s @ [a], f_added := mark_parent h a (set_delete a (f_added s))\<rparr>
                         else s)
                in s\<lparr>f_visited := set_delete a (f_visited s), f_stack := butlast (f_stack s)\<rparr>
      else let s = (if matches a then s\<lparr>f_ret := f_ret s @ [a], f_added := mark_parent h a (f_added s)\<rparr> else s)
           in s\<lparr>f_stack := butlast (f_stack s)\<rparr>)"

fun filter_loop :: "nat \<Rightarrow> store \<Rightarrow> (addr \<Rightarrow> bool) \<Rightarrow> (addr \<Rightarrow> bool) \<Rightarrow> filter_state \<Rightarrow> filter_state option" where
  "filter_loop 0 h opened matches s = (if f_stack s = [] then Some s else None)"
| "filter_loop (Suc fuel) h opened matches s =
     (if f_stack s = [] then Some s else filter_loop fuel h opened matches (filter_step h opened matches s))"

definition looks_into :: "files_table \<Rightarrow> addr \<Rightarrow> bool" where
  "looks_into ft a =
     (isFolder (heap ft a) \<and> (\<not> useVirtualList (base ft) \<or>
        \<not> (case rowId (heap ft a) of None \<Rightarrow> False | Some r \<Rightarrow> isCollapsed ft r)))"

definition name_matches :: "files_table \<Rightarrow> addr \<Rightarrow> bool" where
  "name_matches ft a = containsAllTerms (name (heap ft a)) (filterTerms ft)"

definition filterNodes :: "nat \<Rightarrow> files_table \<Rightarrow> addr list \<Rightarrow> addr \<Rightarrow> (addr list \<times> addr list) option" where
  "filterNodes fuel ft added a =
     map_option (\<lambda>s. (rev (f_ret s), f_added s))
       (filter_loop fuel (heap ft) (looks_into ft) (name_matches ft)
          \<lparr>f_stack = [a], f_visited = [], f_added = added, f_ret = []\<rparr>)"

fun filter_all :: "nat \<Rightarrow> files_table \<Rightarrow> addr list \<Rightarrow> addr list \<Rightarrow> addr list option" where
  "filter_all fuel ft added [] = Some []"
| "filter_all fuel ft added (a # as) =
     (case filterNodes fuel ft added a of
        None \<Rightarrow> None
      | Some (rs, added') \<Rightarrow> map_option (\<lambda>rest. rs @ rest) (filter_all fuel ft added' as))"

definition setFilter :: "string \<Rightarrow> files_table \<Rightarrow> files_table" where
  "setFilter text ft =
     (let terms = js_split '' '' (toLowerCase (js_trim text))
      in ft\<lparr>filterTerms := (if terms = [[]] then [] else terms)\<rparr>)"

section \<open>The view and its cache\<close>

definition signature_of :: "files_table \<Rightarrow> addr \<Rightarrow> file_signature" where
  "signature_of ft a =
     (let n = heap ft a in
      (name n, path n, fileId n, size_of n, checked n, remaining n, progress n, priority n, availability n,
       case rowId n of None \<Rightarrow> False | Some r \<Rightarrow> isCollapsed ft r))"

definition row_node :: "files_table \<Rightarrow> row \<Rightarrow> addr option" where
  "row_node ft r = (case js_Number (row_id r) of
       Some x \<Rightarrow> if x = of_nat (nat \<lfloor>x\<rfloor>) then getNode (fileTree ft) (nat \<lfloor>x\<rfloor>) else None | None \<Rightarrow> None)"

text \<open>A row without a node throws; the signature is \<open>None\<close> then.\<close>

definition generateRowsSignature :: "files_table \<Rightarrow> file_signature list option" where
  "generateRowsSignature ft =
     (let ns = map (row_node ft) (map snd (rows (base ft)))
      in if None \<in> set ns then None else Some (map (signature_of ft) (map the ns)))"

definition terms_changed :: "string list \<Rightarrow> string list \<Rightarrow> bool" where
  "terms_changed ts prev =
     foldl (\<lambda>acc (index, t). acc \<or> \<not> (index < length prev \<and> t = prev ! index)) False (zip [0 ..< length ts] ts)"

definition hasRowsChanged :: "files_table \<Rightarrow> file_signature list \<Rightarrow> bool" where
  "hasRowsChanged ft sig =
     (let rowsChanged = (Some sig \<noteq> prevRows ft);
          isFilterTermsChanged = terms_changed (filterTerms ft) (prevFilterTerms ft);
          isFilterChanged = (length (filterTerms ft) \<noteq> length (prevFilterTerms ft)
                             \<or> (0 < length (filterTerms ft) \<and> isFilterTermsChanged));
          isSortedColumnChanged = (prevSortedColumn ft \<noteq> Some (sortedColumn (base ft)));
          isReverseSortChanged = (prevReverseSort ft \<noteq> Some (reverseSort (base ft)))
      in rowsChanged \<or> isFilterChanged \<or> isSortedColumnChanged \<or> isReverseSortChanged)"

definition view_nodes :: "nat \<Rightarrow> files_table \<Rightarrow> addr \<Rightarrow> addr list option" where
  "view_nodes fuel ft a =
     (if \<not> useVirtualList (base ft) \<and> filterTerms ft = []
      then toArray fuel (heap ft) (fileTree ft)
      else filter_all fuel ft [] (children (heap ft a)))"

definition ft_getFilteredAndSortedRows ::
  "nat \<Rightarrow> string cmp \<Rightarrow> files_table \<Rightarrow> (row option list \<times> files_table) option" where
  "ft_getFilteredAndSortedRows fuel collate ft =
     (case ft_root ft of
        None \<Rightarrow> Some ([], ft)
      | Some a \<Rightarrow>
          (case generateRowsSignature ft of
             None \<Rightarrow> None
           | Some sig \<Rightarrow>
               if \<not> hasRowsChanged ft sig then Some (prevFilteredRows ft, ft)
               else (case sortNodesByColumn fuel collate ft a (sortedColumn (base ft)) of
                       None \<Rightarrow> None
                     | Some ft1 \<Rightarrow>
                         (case view_nodes fuel ft1 a of
                            None \<Rightarrow> None
                          | Some as \<Rightarrow>
                              let rs = map (node_row ft1) as
                              in Some (rs, ft1\<lparr>prevFilterTerms := filterTerms ft1, prevRows := Some sig,
                                     prevFilteredRows := rs, prevSortedColumn := Some (sortedColumn (base ft1)),
                                     prevReverseSort := Some (reverseSort (base ft1))\<rparr>)))))"

section \<open>The operations of the table\<close>

text \<open>Views with an undefined row throw in \<open>updateTable\<close>; \<open>rerender\<close> skips them.\<close>

definition ft_updateTable :: "nat \<Rightarrow> string cmp \<Rightarrow> bool \<Rightarrow> files_table \<Rightarrow> files_table option" where
  "ft_updateTable fuel collate full ft =
     (case ft_getFilteredAndSortedRows fuel collate ft of
        None \<Rightarrow> None
      | Some (rs, ft1) \<Rightarrow>
          if None \<in> set rs then None
          else Some (ft1\<lparr>base := updateTable (\<lambda>_. array_elements rs) full (base ft1)\<rparr>))"

definition ft_rerender :: "nat \<Rightarrow> string cmp \<Rightarrow> files_table \<Rightarrow> files_table option" where
  "ft_rerender fuel collate ft =
     (case ft_getFilteredAndSortedRows fuel collate ft of
        None \<Rightarrow> None
      | Some (rs, ft1) \<Rightarrow> Some (ft1\<lparr>base := rerender (array_elements rs) (base ft1)\<rparr>))"

definition expandAllNodes :: "nat \<Rightarrow> string cmp \<Rightarrow> files_table \<Rightarrow> files_table option" where
  "expandAllNodes fuel collate ft =
     (if \<not> supportCollapsing ft then Some ft
      else case each_node (expandNode fuel) (keys (collapseState ft)) ft of
          None \<Rightarrow> None
        | Some ft1 \<Rightarrow> if useVirtualList (base ft1) then ft_rerender fuel collate ft1 else Some ft1)"

definition collapseAllNodes :: "nat \<Rightarrow> string cmp \<Rightarrow> files_table \<Rightarrow> files_table option" where
  "collapseAllNodes fuel collate ft =
     (if \<not> supportCollapsing ft then Some ft
      else case each_node (collapseNode fuel)
                  (map fst (filter (\<lambda>(k, st). 1 \<le> ci_depth st) (collapseState ft))) ft of
          None \<Rightarrow> None
        | Some ft1 \<Rightarrow> if useVirtualList (base ft1) then ft_rerender fuel collate ft1 else Some ft1)"

definition toggleFolder :: "bool \<Rightarrow> nat \<Rightarrow> string cmp \<Rightarrow> nat \<Rightarrow> files_table \<Rightarrow> files_table option" where
  "toggleFolder collapse fuel collate r ft =
     (if \<not> supportCollapsing ft then Some ft
      else case getNode (fileTree ft) r of
          None \<Rightarrow> None
        | Some a \<Rightarrow>
            if isFolder (heap ft a)
            then (case (if collapse then collapseNode fuel r ft else expandNode fuel r ft) of
                    None \<Rightarrow> None
                  | Some ft1 \<Rightarrow> if useVirtualList (base ft1) then ft_rerender fuel collate ft1 else Some ft1)
            else Some ft)"

fun addNodeToTable :: "nat \<Rightarrow> addr \<Rightarrow> nat \<Rightarrow> addr \<Rightarrow> files_table \<Rightarrow> files_table option" where
  "addNodeToTable 0 a d p ft = None"
| "addNodeToTable (Suc fuel) a d p ft =
     (let h = (heap ft)(a := (heap ft a)\<lparr>depth := d, parent_of := Some p\<rparr>);
          ft = ft\<lparr>heap := h\<rparr>;
          ft = (case rowId (h a) of
                  None \<Rightarrow> ft
                | Some r \<Rightarrow>
                    (let ft = (if isFolder (h a) \<and> supportCollapsing ft \<and> \<not> map_has (collapseState ft) r
                               then ft\<lparr>collapseState := map_set r \<lparr>ci_depth = d, ci_collapsed = False\<rparr> (collapseState ft)\<rparr>
                               else ft)
                     in ft\<lparr>base := updateRowData [(''rowId'', JNum (of_nat r))] (base ft)\<rparr>))
      in foldl (\<lambda>acc c. case acc of None \<Rightarrow> None | Some ft \<Rightarrow> addNodeToTable fuel c (d + 1) a ft)
           (Some ft) (children (h a)))"

definition populateTable :: "nat \<Rightarrow> addr \<Rightarrow> files_table \<Rightarrow> files_table option" where
  "populateTable fuel a ft =
     (case setRoot fuel (heap ft) (fileTree ft) a of
        None \<Rightarrow> None
      | Some (h, t) \<Rightarrow>
          foldl (\<lambda>acc c. case acc of None \<Rightarrow> None | Some ft \<Rightarrow> addNodeToTable fuel c 0 a ft)
            (Some (ft\<lparr>heap := h, fileTree := t\<rparr>)) (children (h a)))"

definition ft_clear :: "nat \<Rightarrow> string cmp \<Rightarrow> files_table \<Rightarrow> files_table option" where
  "ft_clear fuel collate ft =
     (let ft = ft\<lparr>base := (deselectAll (base ft))\<lparr>rows := []\<rparr>\<rparr>
      in map_option (\<lambda>ft. ft\<lparr>collapseState := []\<rparr>)
           (if useVirtualList (base ft) then ft_rerender fuel collate ft
            else Some (ft\<lparr>base := (base ft)\<lparr>trs := []\<rparr>\<rparr>)))"

section \<open>What the filter shows\<close>

fun shown :: "(addr \<Rightarrow> bool) \<Rightarrow> (addr \<Rightarrow> bool) \<Rightarrow> shape \<Rightarrow> addr list" where
  "shown opened matches (Sh a ss) =
     (if opened a
      then let kids = concat (map (shown opened matches) ss)
           in if kids \<noteq> [] \<or> matches a then a # kids else []
      else if matches a then [a] else [])"

fun rooted :: "store \<Rightarrow> shape \<Rightarrow> bool" where
  "rooted h (Sh a ss) \<longleftrightarrow> (\<forall>s \<in> set ss. root (h (top s)) = Some a \<and> rooted h s)"

fun filter_steps :: "(addr \<Rightarrow> bool) \<Rightarrow> shape \<Rightarrow> nat" where
  "filter_steps opened (Sh a ss) = (if opened a then 2 + sum_list (map (filter_steps opened) ss) else 1)"

lemma filter_steps_bound: "filter_steps opened s \<le> 2 * weight s"
proof (induction s)
  case (Sh a ss)
  then have "sum_list (map (filter_steps opened) ss) \<le> sum_list (map (\<lambda>s. 2 * weight s) ss)"
    by (intro sum_list_mono) auto
  then show ?case by (simp add: sum_list_const_mult)
qed

lemma set_delete_add [simp]: "x \<notin> set xs \<Longrightarrow> set_delete x (set_add x xs) = xs"
  by (auto simp: set_delete_def set_add_def filter_id_conv)

lemma set_delete_absent [simp]: "x \<notin> set xs \<Longrightarrow> set_delete x xs = xs"
  by (auto simp: set_delete_def filter_id_conv)

lemma filter_loop_enter:
  "opened a \<Longrightarrow> a \<notin> set vis \<Longrightarrow>
     filter_loop (Suc n) h opened matches \<lparr>f_stack = stack @ [a], f_visited = vis, f_added = added, f_ret = ret\<rparr>
     = filter_loop n h opened matches
         \<lparr>f_stack = (stack @ [a]) @ children (h a), f_visited = set_add a vis, f_added = added, f_ret = ret\<rparr>"
  by (simp add: filter_step_def)

lemma filter_loop_leave:
  "opened a \<Longrightarrow> a \<notin> set vis \<Longrightarrow>
     filter_loop (Suc n) h opened matches \<lparr>f_stack = stack @ [a], f_visited = set_add a vis, f_added = added, f_ret = ret\<rparr>
     = filter_loop n h opened matches
         (if a \<in> set added \<or> matches a
          then \<lparr>f_stack = stack, f_visited = vis, f_added = mark_parent h a (set_delete a added), f_ret = ret @ [a]\<rparr>
          else \<lparr>f_stack = stack, f_visited = vis, f_added = added, f_ret = ret\<rparr>)"
  by (simp add: filter_step_def)

lemma filter_loop_leaf:
  "\<not> opened a \<Longrightarrow>
     filter_loop (Suc n) h opened matches \<lparr>f_stack = stack @ [a], f_visited = vis, f_added = added, f_ret = ret\<rparr>
     = filter_loop n h opened matches
         (if matches a
          then \<lparr>f_stack = stack, f_visited = vis, f_added = mark_parent h a added, f_ret = ret @ [a]\<rparr>
          else \<lparr>f_stack = stack, f_visited = vis, f_added = added, f_ret = ret\<rparr>)"
  by (simp add: filter_step_def)

declare filter_loop.simps [simp del]

definition fstate :: "addr list \<Rightarrow> addr list \<Rightarrow> addr list \<Rightarrow> addr list \<Rightarrow> filter_state" where
  "fstate stack vis added ret = \<lparr>f_stack = stack, f_visited = vis, f_added = added, f_ret = ret\<rparr>"

lemma filter_loop_children:
  assumes each: "\<And>s stack vis added ret k. s \<in> set ss \<Longrightarrow> links h s \<Longrightarrow> rooted h s \<Longrightarrow> distinct (addrs s) \<Longrightarrow>
      set (addrs s) \<inter> (set vis \<union> set added) = {} \<Longrightarrow>
      filter_loop (filter_steps opened s + k) h opened matches (fstate (stack @ [top s]) vis added ret)
      = filter_loop k h opened matches (fstate stack vis
          (if shown opened matches s \<noteq> [] then mark_parent h (top s) added else added) (ret @ rev (shown opened matches s)))"
    and "\<forall>s \<in> set ss. links h s \<and> rooted h s \<and> root (h (top s)) = Some p" "distinct (concat (map addrs ss))"
    and "set (concat (map addrs ss)) \<inter> (set vis \<union> set added) = {}" and "p \<notin> set (concat (map addrs ss))"
  shows "filter_loop (sum_list (map (filter_steps opened) ss) + k) h opened matches (fstate (stack @ map top ss) vis added ret)
    = filter_loop k h opened matches (fstate stack vis
        (if concat (map (shown opened matches) ss) \<noteq> [] then set_add p added else added)
        (ret @ rev (concat (map (shown opened matches) ss))))"
  using assms
proof (induction ss arbitrary: added ret k rule: rev_induct)
  case Nil
  show ?case by simp
next
  case (snoc s ss)
  let ?added = "if shown opened matches s \<noteq> [] then set_add p added else added"
  have "filter_loop (filter_steps opened s + (sum_list (map (filter_steps opened) ss) + k)) h opened matches
        (fstate ((stack @ map top ss) @ [top s]) vis added ret)
      = filter_loop (sum_list (map (filter_steps opened) ss) + k) h opened matches
        (fstate (stack @ map top ss) vis (if shown opened matches s \<noteq> [] then mark_parent h (top s) added else added)
          (ret @ rev (shown opened matches s)))"
    using snoc.prems(2-) by (intro snoc.prems(1)) auto
  also have "(if shown opened matches s \<noteq> [] then mark_parent h (top s) added else added) = ?added"
    using snoc.prems(2) by (simp add: mark_parent_def)
  also have "filter_loop (sum_list (map (filter_steps opened) ss) + k) h opened matches
        (fstate (stack @ map top ss) vis ?added (ret @ rev (shown opened matches s)))
      = filter_loop k h opened matches (fstate stack vis
        (if concat (map (shown opened matches) ss) \<noteq> [] then set_add p ?added else ?added)
        ((ret @ rev (shown opened matches s)) @ rev (concat (map (shown opened matches) ss))))"
    using snoc.prems(2-) by (intro snoc.IH snoc.prems(1)) (auto split: if_splits)
  also have "(if concat (map (shown opened matches) ss) \<noteq> [] then set_add p ?added else ?added)
      = (if concat (map (shown opened matches) (ss @ [s])) \<noteq> [] then set_add p added else added)"
    by (auto simp: set_add_def)
  finally show ?case by (simp add: ac_simps)
qed

lemma filter_loop_tree:
  "links h s \<Longrightarrow> rooted h s \<Longrightarrow> distinct (addrs s) \<Longrightarrow> set (addrs s) \<inter> (set vis \<union> set added) = {} \<Longrightarrow>
     filter_loop (filter_steps opened s + k) h opened matches (fstate (stack @ [top s]) vis added ret)
     = filter_loop k h opened matches (fstate stack vis
         (if shown opened matches s \<noteq> [] then mark_parent h (top s) added else added) (ret @ rev (shown opened matches s)))"
proof (induction s arbitrary: stack vis added ret k)
  case (Sh a ss)
  show ?case
  proof (cases "opened a")
    case False
    then show ?thesis by (simp add: fstate_def filter_loop_leaf)
  next
    case True
    let ?kids = "concat (map (shown opened matches) ss)"
    have ch: "children (h a) = map top ss" and sub: "\<forall>s \<in> set ss. links h s \<and> rooted h s \<and> root (h (top s)) = Some a"
      using Sh.prems by auto
    have na: "a \<notin> set vis" "a \<notin> set added" using Sh.prems(4) by auto
    have "filter_loop (Suc (sum_list (map (filter_steps opened) ss) + Suc k)) h opened matches (fstate (stack @ [a]) vis added ret)
        = filter_loop (sum_list (map (filter_steps opened) ss) + Suc k) h opened matches
            (fstate ((stack @ [a]) @ map top ss) (set_add a vis) added ret)"
      unfolding fstate_def ch [symmetric] using True na(1) by (rule filter_loop_enter)
    also have "\<dots> = filter_loop (Suc k) h opened matches (fstate (stack @ [a]) (set_add a vis)
        (if ?kids \<noteq> [] then set_add a added else added) (ret @ rev ?kids))"
      using Sh.prems(3,4) sub by (intro filter_loop_children Sh.IH) auto
    also have "\<dots> = filter_loop k h opened matches (fstate stack vis
         (if shown opened matches (Sh a ss) \<noteq> [] then mark_parent h a added else added)
         (ret @ rev (shown opened matches (Sh a ss))))"
    proof (cases "?kids \<noteq> []")
      case kids: True
      show ?thesis
        unfolding fstate_def if_P [OF kids] filter_loop_leave [where stack = stack and a = a and vis = vis and opened = opened, OF True na(1)]
        using kids na True by auto
    next
      case kids: False
      then have k0: "?kids = []" by blast
      show ?thesis
        unfolding fstate_def if_not_P [OF kids] filter_loop_leave [where stack = stack and a = a and vis = vis and opened = opened, OF True na(1)]
          shown.simps k0 Let_def
        using na True by simp
    qed
    finally show ?thesis using True by simp
  qed
qed

lemma filter_loop_done [simp]: "filter_loop k h opened matches (fstate [] vis added ret) = Some (fstate [] vis added ret)"
  by (cases k) (simp_all add: filter_loop.simps fstate_def)

lemma filterNodes_shown:
  assumes "links (heap ft) s" "rooted (heap ft) s" "distinct (addrs s)" "set (addrs s) \<inter> set added = {}"
    and "2 * weight s \<le> fuel"
  shows "filterNodes fuel ft added (top s) = Some (shown (looks_into ft) (name_matches ft) s,
    if shown (looks_into ft) (name_matches ft) s \<noteq> [] then mark_parent (heap ft) (top s) added else added)"
proof -
  have "fuel = filter_steps (looks_into ft) s + (fuel - filter_steps (looks_into ft) s)"
    using filter_steps_bound [of "looks_into ft" s] assms(5) by simp
  then have "filter_loop fuel (heap ft) (looks_into ft) (name_matches ft) (fstate ([] @ [top s]) [] added [])
      = Some (fstate [] [] (if shown (looks_into ft) (name_matches ft) s \<noteq> [] then mark_parent (heap ft) (top s) added else added)
          ([] @ rev (shown (looks_into ft) (name_matches ft) s)))"
    using filter_loop_tree [OF assms(1-3), of "[]" added "looks_into ft" _ "name_matches ft" "[]" "[]"] assms(4)
    by (metis Un_empty_left filter_loop_done list.set(1))
  then show ?thesis by (simp add: filterNodes_def fstate_def)
qed

lemma filter_all_shown:
  assumes "\<forall>s \<in> set ss. links (heap ft) s \<and> rooted (heap ft) s \<and> root (heap ft (top s)) = Some p"
    and "distinct (concat (map addrs ss))" "p \<notin> set (concat (map addrs ss))" "set added \<subseteq> {p}"
    and "2 * sum_list (map weight ss) \<le> fuel"
  shows "filter_all fuel ft added (map top ss) = Some (concat (map (shown (looks_into ft) (name_matches ft)) ss))"
  using assms
proof (induction ss arbitrary: added)
  case (Cons s ss)
  let ?sh = "shown (looks_into ft) (name_matches ft)"
  let ?added = "if ?sh s \<noteq> [] then mark_parent (heap ft) (top s) added else added"
  have 1: "filterNodes fuel ft added (top s) = Some (?sh s, ?added)"
    using Cons.prems by (intro filterNodes_shown) auto
  have "set ?added \<subseteq> {p}" using Cons.prems by (auto simp: mark_parent_def)
  then have "filter_all fuel ft ?added (map top ss) = Some (concat (map ?sh ss))"
    using Cons.prems by (intro Cons.IH) auto
  with 1 show ?case by simp
qed simp

text \<open>The list is in preorder, and a node is in it iff it is reachable through opened folders and it,
  or something below it that is reachable, matches.\<close>

inductive reach :: "(addr \<Rightarrow> bool) \<Rightarrow> shape \<Rightarrow> shape \<Rightarrow> bool" for opened where
  reach_self: "reach opened s s"
| reach_child: "opened a \<Longrightarrow> t \<in> set ss \<Longrightarrow> reach opened t u \<Longrightarrow> reach opened (Sh a ss) u"

inductive_cases reach_Sh: "reach opened (Sh a ss) u"

lemma shown_subseq: "subseq (shown opened matches s) (addrs s)"
proof (induction s)
  case (Sh a ss)
  have "subseq (concat (map f ss)) (concat (map g ss))" if "\<And>s. s \<in> set ss \<Longrightarrow> subseq (f s) (g s)" for f g :: "shape \<Rightarrow> addr list"
    using that by (induction ss) (auto intro: list_emb_append_mono)
  from this [OF Sh] show ?case by (auto simp: Let_def)
qed

lemma shown_top: "shown opened matches s \<noteq> [] \<Longrightarrow> top s \<in> set (shown opened matches s)"
  by (cases s) (auto simp: Let_def split: if_splits)

lemma shown_nonempty:
  "shown opened matches s \<noteq> [] \<longleftrightarrow> (\<exists>u. reach opened s u \<and> matches (top u))"
proof (induction s)
  case (Sh a ss)
  have self: "matches a \<Longrightarrow> \<exists>u. reach opened (Sh a ss) u \<and> matches (top u)"
    using reach_self [of opened "Sh a ss"] by force
  show ?case
  proof (cases "opened a")
    case False
    then show ?thesis using self by (auto elim: reach_Sh)
  next
    case True
    then have "(\<exists>t \<in> set ss. \<exists>u. reach opened t u \<and> matches (top u)) \<longleftrightarrow> concat (map (shown opened matches) ss) \<noteq> []"
      using Sh by auto
    moreover have "(\<exists>u. reach opened (Sh a ss) u \<and> matches (top u)) \<longleftrightarrow>
        matches a \<or> (\<exists>t \<in> set ss. \<exists>u. reach opened t u \<and> matches (top u))"
      using True self by (auto elim!: reach_Sh intro: reach_child)
    ultimately show ?thesis using True by (auto simp: Let_def)
  qed
qed

lemma shown_iff:
  "b \<in> set (shown opened matches s) \<longleftrightarrow>
     (\<exists>u. reach opened s u \<and> top u = b \<and> (\<exists>v. reach opened u v \<and> matches (top v)))"
proof (induction s)
  case (Sh a ss)
  have ne: "shown opened matches (Sh a ss) \<noteq> [] \<longleftrightarrow> (\<exists>v. reach opened (Sh a ss) v \<and> matches (top v))"
    by (rule shown_nonempty)
  have mem: "b \<in> set (shown opened matches (Sh a ss)) \<longleftrightarrow>
      (b = a \<and> shown opened matches (Sh a ss) \<noteq> []) \<or> (opened a \<and> (\<exists>t \<in> set ss. b \<in> set (shown opened matches t)))"
    by (auto simp: Let_def)
  have "(\<exists>u. reach opened (Sh a ss) u \<and> P u) \<longleftrightarrow> P (Sh a ss) \<or> (opened a \<and> (\<exists>t \<in> set ss. \<exists>u. reach opened t u \<and> P u))" for P
    by (auto elim!: reach_Sh intro: reach_self reach_child)
  from this [of "\<lambda>u. top u = b \<and> (\<exists>v. reach opened u v \<and> matches (top v))"] show ?case
    unfolding mem ne using Sh by auto
qed

section \<open>Sorting\<close>

definition children_blind :: "node cmp \<Rightarrow> bool" where
  "children_blind cmp \<longleftrightarrow> (\<forall>x y ch ch'. cmp (x\<lparr>children := ch\<rparr>) (y\<lparr>children := ch'\<rparr>) = cmp x y)"

lemma compareNodes_blind: "children_blind (compareNodes collate nameColumn col rev')"
proof -
  have "node_value (x\<lparr>children := ch\<rparr>) p = node_value x p" for x ch p by (simp add: node_value_def)
  moreover have "isFolder (x\<lparr>children := ch\<rparr>) = isFolder x" for x :: node and ch by simp
  ultimately show ?thesis unfolding children_blind_def compareNodes_def by (simp only: simp_thms)
qed

definition sorted_children :: "node cmp \<Rightarrow> store \<Rightarrow> addr \<Rightarrow> addr list" where
  "sorted_children cmp h a = js_sort (\<lambda>x y. cmp (h x) (h y)) (children (h a))"

definition sorted_store :: "node cmp \<Rightarrow> store \<Rightarrow> addr set \<Rightarrow> store" where
  "sorted_store cmp h A b = (if b \<in> A then (h b)\<lparr>children := sorted_children cmp h b\<rparr> else h b)"

lemma blind_sort:
  assumes "children_blind cmp" "\<And>b. \<exists>ch. h' b = (h b)\<lparr>children := ch\<rparr>"
  shows "js_sort (\<lambda>x y. cmp (h' x) (h' y)) xs = js_sort (\<lambda>x y. cmp (h x) (h y)) xs"
proof -
  have "cmp (h' x) (h' y) = cmp (h x) (h y)" for x y
    using assms by (metis children_blind_def)
  then show ?thesis by simp
qed

lemma sum_list_perm:
  fixes f :: "'a \<Rightarrow> 'b :: comm_monoid_add"
  assumes "mset xs = mset ys"
  shows "sum_list (map f xs) = sum_list (map f ys)"
proof -
  have "sum_mset (mset (map f xs)) = sum_mset (mset (map f ys))" using assms by simp
  then show ?thesis by (simp only: sum_mset_sum_list)
qed

lemma mset_concat_perm: "mset xs = mset ys \<Longrightarrow> mset (concat (map f xs)) = mset (concat (map f ys))"
  unfolding mset_concat map_map by (rule sum_list_perm)

lemma sort_loop_forest:
  "children_blind cmp \<Longrightarrow> \<forall>t \<in> set ss. links h t \<Longrightarrow> distinct (concat (map addrs ss)) \<Longrightarrow> sum_list (map weight ss) \<le> fuel \<Longrightarrow>
     sort_loop fuel cmp (map top ss) h = Some (sorted_store cmp h (set (concat (map addrs ss))))"
proof (induction fuel arbitrary: ss h)
  case 0
  then have "ss = []" by (cases ss) auto
  then show ?case by (simp add: sorted_store_def fun_eq_iff)
next
  case (Suc fuel)
  show ?case
  proof (cases ss rule: rev_cases)
    case Nil
    then show ?thesis by (simp add: sorted_store_def fun_eq_iff)
  next
    case (snoc ts t)
    obtain a us where t: "t = Sh a us" by (cases t)
    have ch: "children (h a) = map top us" using Suc.prems(2) snoc t by simp
    let ?us = "js_sort (\<lambda>x y. cmp (h (top x)) (h (top y))) us"
    let ?h = "h(a := (h a)\<lparr>children := map top ?us\<rparr>)"
    have sorted: "js_sort (\<lambda>x y. cmp (h x) (h y)) (children (h a)) = map top ?us"
      unfolding ch by (rule js_sort_map) simp
    have a: "a \<notin> set (concat (map addrs (ts @ us)))" using Suc.prems(3) snoc t by auto
    have su: "set ?us = set us" "mset ?us = mset us" by (simp_all add: mset_js_sort)
    have "\<forall>u \<in> set (ts @ ?us). links ?h u"
    proof
      fix u
      assume u: "u \<in> set (ts @ ?us)"
      then have "links h u" using Suc.prems(2) snoc t su by auto
      moreover have "b \<noteq> a" if "b \<in> set (addrs u)" for b using that u a su by auto
      ultimately show "links ?h u" by (subst links_cong [of _ _ h]) auto
    qed
    moreover have "distinct (concat (map addrs (ts @ us)))" using Suc.prems(3) snoc t by auto
    then have d: "distinct (concat (map addrs (ts @ ?us)))"
      using mset_eq_imp_distinct_iff [of "concat (map addrs (ts @ ?us))" "concat (map addrs (ts @ us))"]
        mset_concat_perm [OF su(2), of addrs] by simp
    moreover have "sum_list (map weight ?us) = sum_list (map weight us)"
      by (rule sum_list_perm [OF su(2)])
    then have "sum_list (map weight (ts @ ?us)) \<le> fuel" using Suc.prems(4) snoc t by simp
    ultimately have "sort_loop fuel cmp (map top (ts @ ?us)) ?h = Some (sorted_store cmp ?h (set (concat (map addrs (ts @ ?us)))))"
      using Suc.prems(1) by (intro Suc.IH)
    moreover have "sorted_store cmp ?h (set (concat (map addrs (ts @ ?us)))) = sorted_store cmp h (set (concat (map addrs ss)))"
    proof
      fix b
      have "\<exists>ch. ?h b = (h b)\<lparr>children := ch\<rparr>" for b
        by (cases "b = a") (auto intro: exI [of _ "children (h b)"])
      then have blind: "js_sort (\<lambda>x y. cmp (?h x) (?h y)) xs = js_sort (\<lambda>x y. cmp (h x) (h y)) xs" for xs
        using Suc.prems(1) by (intro blind_sort)
      have sets: "set (concat (map addrs (ts @ ?us))) = set (concat (map addrs (ts @ us)))"
          "set (concat (map addrs ss)) = insert a (set (concat (map addrs (ts @ us))))"
        using su(1) snoc t by auto
      show "sorted_store cmp ?h (set (concat (map addrs (ts @ ?us)))) b = sorted_store cmp h (set (concat (map addrs ss))) b"
      proof (cases "b = a")
        case True
        then show ?thesis
          unfolding sorted_store_def sets sorted_children_def using a by (simp add: sorted)
      next
        case False
        then have "?h b = h b" by simp
        moreover from this have "sorted_children cmp ?h b = sorted_children cmp h b"
          by (simp only: sorted_children_def blind)
        ultimately show ?thesis unfolding sorted_store_def sets using False by (simp only: insert_iff simp_thms)
      qed
    qed
    ultimately show ?thesis using snoc t sorted by simp
  qed
qed

section \<open>Properties\<close>

text \<open>
  C23: The filter lists, in the order of the tree, exactly the nodes that can be reached through
  folders that are looked into and that match, or have below them such a node that matches. The
  loop needs two iterations per node.
\<close>

theorem filter_shows_matches:
  assumes "\<forall>s \<in> set ss. links (heap ft) s \<and> rooted (heap ft) s \<and> root (heap ft (top s)) = Some p"
    and "distinct (p # concat (map addrs ss))" and "2 * sum_list (map weight ss) \<le> fuel"
  shows "\<exists>as. filter_all fuel ft [] (map top ss) = Some as
    \<and> subseq as (concat (map addrs ss))
    \<and> (\<forall>b. b \<in> set as \<longleftrightarrow> (\<exists>s \<in> set ss. \<exists>u v. reach (looks_into ft) s u \<and> top u = b
         \<and> reach (looks_into ft) u v \<and> name_matches ft (top v)))"
proof (intro exI conjI)
  let ?as = "concat (map (shown (looks_into ft) (name_matches ft)) ss)"
  show "filter_all fuel ft [] (map top ss) = Some ?as"
    using assms by (intro filter_all_shown) auto
  show "subseq ?as (concat (map addrs ss))"
    by (induction ss) (auto intro: list_emb_append_mono shown_subseq)
  show "\<forall>b. b \<in> set ?as \<longleftrightarrow> (\<exists>s \<in> set ss. \<exists>u v. reach (looks_into ft) s u \<and> top u = b
         \<and> reach (looks_into ft) u v \<and> name_matches ft (top v))"
    by (auto simp: shown_iff)
qed

definition ex_ft :: files_table where
  "ex_ft = \<lparr>base = ex_table\<lparr>rows := [], trs := map (\<lambda>r. (row_key r, blank_tr)) [7, 8, 9]\<rparr>, heap = ex_store,
     fileTree = \<lparr>tree_root = Some 0, nodeMap = [7 \<mapsto> 1, 8 \<mapsto> 2, 9 \<mapsto> 3]\<rparr>, supportCollapsing = True,
     collapseState = [(8, \<lparr>ci_depth = 0, ci_collapsed = False\<rparr>)], fileNameColumn = ''name'',
     filterTerms = [''b''], prevFilterTerms = [], prevRows = None, prevFilteredRows = [],
     prevSortedColumn = None, prevReverseSort = None, headerCheckbox = None\<rparr>"

theorem filter_shows_matches_witness:
  "\<exists>as. filter_all 6 ex_ft [] [1, 2] = Some as \<and> subseq as [1, 2, 3]"
proof -
  have "\<forall>s \<in> set [Sh 1 [], Sh 2 [Sh 3 []]].
      links (heap ex_ft) s \<and> rooted (heap ex_ft) s \<and> root (heap ex_ft (top s)) = Some 0"
    by (simp add: ex_ft_def ex_store_def new_FolderNode_def new_FileNode_def)
  from filter_shows_matches [OF this, of 6] show ?thesis by auto
qed



text \<open>Collapsing in a table that is not virtual: the class of every row below the folder.\<close>

lemma updateNodeVisibility_keeps [simp]:
  "heap (updateNodeVisibility a b ft) = heap ft" "fileTree (updateNodeVisibility a b ft) = fileTree ft"
  "collapseState (updateNodeVisibility a b ft) = collapseState ft"
  "supportCollapsing (updateNodeVisibility a b ft) = supportCollapsing ft"
  by (simp_all add: updateNodeVisibility_def split: option.split)

definition tr_hidden :: "files_table \<Rightarrow> string \<Rightarrow> bool option" where
  "tr_hidden ft k = map_option is_invisible (map_get (trs (base ft)) k)"

lemma map_get_map_snd: "map_get (map (\<lambda>(k, c). (k, f k c)) m) k = map_option (f k) (map_get m k)"
  by (induction m) auto

lemma tr_hidden_update:
  "tr_hidden (updateNodeVisibility a b ft) k =
     (if rowId (heap ft a) \<noteq> None \<and> k = row_key (the (rowId (heap ft a)))
      then map_option (\<lambda>_. b) (tr_hidden ft k) else tr_hidden ft k)"
  by (auto simp: tr_hidden_def updateNodeVisibility_def set_invisible_def map_get_map_snd option.map_comp comp_def
      split: option.splits intro!: map_option_cong)

definition hide_all :: "bool \<Rightarrow> addr list \<Rightarrow> files_table \<Rightarrow> files_table" where
  "hide_all shouldHide as ft =
     foldl (\<lambda>ft a. updateNodeVisibility a (if shouldHide then shouldHide else parent_collapsed ft a) ft) ft as"

lemma hide_all_heap [simp]: "heap (hide_all b as ft) = heap ft" "collapseState (hide_all b as ft) = collapseState ft"
  "supportCollapsing (hide_all b as ft) = supportCollapsing ft"
  by (induction as arbitrary: ft) (simp_all add: hide_all_def)

lemma visibility_pop:
  "visibility_loop (Suc n) b (stack @ [a]) ft = visibility_loop n b (stack @ children (heap ft a))
     (updateNodeVisibility a (if b then b else parent_collapsed ft a) ft)"
  by (simp add: Let_def)

lemma hide_all_Cons:
  "hide_all b (a # as) ft = hide_all b as (updateNodeVisibility a (if b then b else parent_collapsed ft a) ft)"
  by (simp add: hide_all_def)

lemma visibility_loop_forest:
  "\<forall>s \<in> set ss. links (heap ft) s \<Longrightarrow> sum_list (map weight ss) \<le> fuel \<Longrightarrow>
     visibility_loop fuel b (map top ss) ft = Some (hide_all b (concat (map popped (rev ss))) ft)"
proof (induction fuel arbitrary: ss ft)
  case 0
  then have "ss = []" by (cases ss) auto
  then show ?case by (simp add: hide_all_def)
next
  case (Suc fuel)
  show ?case
  proof (cases ss rule: rev_cases)
    case Nil
    then show ?thesis by (simp add: hide_all_def)
  next
    case (snoc ts t)
    obtain a us where t: "t = Sh a us" by (cases t)
    let ?ft = "updateNodeVisibility a (if b then b else parent_collapsed ft a) ft"
    have "visibility_loop fuel b (map top (ts @ us)) ?ft = Some (hide_all b (concat (map popped (rev (ts @ us)))) ?ft)"
      using Suc.prems snoc t by (intro Suc.IH) auto
    moreover have "children (heap ft a) = map top us" using Suc.prems snoc t by simp
    moreover have "map top ss = map top ts @ [a]"
        "concat (map popped (rev ss)) = a # concat (map popped (rev (ts @ us)))"
      using snoc t by simp_all
    ultimately show ?thesis by (simp only: visibility_pop hide_all_Cons map_append)
  qed
qed

lemma parent_collapsed_cong:
  "heap ft' = heap ft \<Longrightarrow> collapseState ft' = collapseState ft \<Longrightarrow> supportCollapsing ft' = supportCollapsing ft \<Longrightarrow>
     parent_collapsed ft' a = parent_collapsed ft a"
  by (simp add: parent_collapsed_def isCollapsed_def split: option.split)

text \<open>
  The visibility of a row after the loop depends on its own node only.
\<close>

lemma tr_hidden_hide_all:
  assumes "inj_on (\<lambda>a. rowId (heap ft a)) (set as)" "a \<in> set as" "rowId (heap ft a) = Some r"
  shows "tr_hidden (hide_all b as ft) (row_key r)
    = map_option (\<lambda>_. if b then b else parent_collapsed ft a) (tr_hidden ft (row_key r))"
  using assms
proof (induction as rule: rev_induct)
  case (snoc x as)
  let ?ft = "hide_all b as ft"
  have pc: "parent_collapsed ?ft y = parent_collapsed ft y" for y by (intro parent_collapsed_cong) simp_all
  have key: "row_key r = row_key r' \<Longrightarrow> r = r'" for r' by (simp add: row_key_def nat_str_inj)
  have step: "hide_all b (as @ [x]) ft = updateNodeVisibility x (if b then b else parent_collapsed ?ft x) ?ft"
    by (simp add: hide_all_def)
  show ?case
  proof (cases "x = a")
    case True
    have "tr_hidden ?ft (row_key r) = None \<longleftrightarrow> tr_hidden ft (row_key r) = None"
      by (induction as rule: rev_induct) (auto simp: hide_all_def tr_hidden_update)
    then show ?thesis
      unfolding step using True snoc.prems(3) pc
      by (cases "tr_hidden ft (row_key r)") (auto simp: tr_hidden_update)
  next
    case False
    then have "rowId (heap ft x) \<noteq> Some r" using snoc.prems by (auto simp: inj_on_def)
    then have "tr_hidden (hide_all b (as @ [x]) ft) (row_key r) = tr_hidden ?ft (row_key r)"
      unfolding step using key by (auto simp: tr_hidden_update)
    moreover have "tr_hidden ?ft (row_key r) = map_option (\<lambda>_. if b then b else parent_collapsed ft a) (tr_hidden ft (row_key r))"
      using snoc.prems False by (intro snoc.IH) (auto simp: inj_on_def)
    ultimately show ?thesis by simp
  qed
qed simp

lemma collapse_hides_below:
  assumes "\<not> useVirtualList (base ft)" "supportCollapsing ft" "getNode (fileTree ft) r = Some a"
    and "links (heap ft) (Sh a ss)" "isFolder (heap ft a)" "sum_list (map weight ss) \<le> fuel"
    and "inj_on (\<lambda>b. rowId (heap ft b)) (set (concat (map addrs ss)))"
    and "b \<in> set (concat (map addrs ss))" "rowId (heap ft b) = Some rb"
  shows "\<exists>ft'. collapseNode fuel r ft = Some ft' \<and> tr_hidden ft' (row_key rb) = map_option (\<lambda>_. True) (tr_hidden ft (row_key rb))"
proof -
  let ?ft = "set_collapsed r True ft"
  have keep: "heap ?ft = heap ft" "base ?ft = base ft" "fileTree ?ft = fileTree ft"
    by (simp_all add: set_collapsed_def split: option.split)
  have ch: "children (heap ft a) = map top ss" using assms(4) by simp
  have same: "set (concat (map popped (rev ss))) = set (concat (map addrs ss))"
    by (simp add: set_popped)
  have "collapseNode fuel r ft = visibility_loop fuel True (map top ss) ?ft"
    using assms(1-3,5) ch by (simp add: collapseNode_def updateNodeState_def keep)
  also have "\<dots> = Some (hide_all True (concat (map popped (rev ss))) ?ft)"
    using assms(4,6) by (intro visibility_loop_forest) (auto simp: keep)
  finally have run: "collapseNode fuel r ft = Some (hide_all True (concat (map popped (rev ss))) ?ft)" .
  have "tr_hidden (hide_all True (concat (map popped (rev ss))) ?ft) (row_key rb) = map_option (\<lambda>_. True) (tr_hidden ?ft (row_key rb))"
    using tr_hidden_hide_all [of ?ft "concat (map popped (rev ss))" b rb True] assms(7-9)
    by (simp only: keep same if_True)
  moreover have "tr_hidden ?ft = tr_hidden ft" by (simp add: tr_hidden_def fun_eq_iff keep)
  ultimately show ?thesis using run by simp
qed

text \<open>
  C36: Collapsing a folder of a table that is not virtual returns and hides every row of the body
  that belongs to a node below the folder, however deep.
\<close>

theorem collapseNode_hides:
  assumes "\<not> useVirtualList (base ft)" "supportCollapsing ft" "getNode (fileTree ft) r = Some a"
    and "links (heap ft) (Sh a ss)" "isFolder (heap ft a)" "sum_list (map weight ss) \<le> fuel"
    and "inj_on (\<lambda>b. rowId (heap ft b)) (set (concat (map addrs ss)))"
  shows "\<exists>ft'. collapseNode fuel r ft = Some ft'
    \<and> (\<forall>b \<in> set (concat (map addrs ss)). \<forall>rb. rowId (heap ft b) = Some rb \<longrightarrow>
         tr_hidden ft' (row_key rb) = map_option (\<lambda>_. True) (tr_hidden ft (row_key rb)))"
proof -
  have "\<exists>ft'. collapseNode fuel r ft = Some ft'"
  proof -
    have keep: "heap (set_collapsed r True ft) = heap ft" "base (set_collapsed r True ft) = base ft"
      "fileTree (set_collapsed r True ft) = fileTree ft"
      by (simp_all add: set_collapsed_def split: option.split)
    have "children (heap ft a) = map top ss" using assms(4) by simp
    then have "collapseNode fuel r ft = visibility_loop fuel True (map top ss) (set_collapsed r True ft)"
      using assms(1-3,5) by (simp add: collapseNode_def updateNodeState_def keep)
    then show ?thesis
      using visibility_loop_forest [of ss "set_collapsed r True ft" fuel True] assms(4,6) by (auto simp: keep)
  qed
  then obtain ft' where run: "collapseNode fuel r ft = Some ft'" by blast
  show ?thesis using run collapse_hides_below [OF assms] by fastforce
qed

theorem collapseNode_hides_witness:
  "\<exists>ft'. collapseNode 1 8 ex_ft = Some ft' \<and> tr_hidden ft' (row_key 9) = Some True"
proof -
  have "links (heap ex_ft) (Sh 2 [Sh 3 []])" "isFolder (heap ex_ft 2)" "getNode (fileTree ex_ft) 8 = Some 2"
    "\<not> useVirtualList (base ex_ft)" "supportCollapsing ex_ft" and r: "rowId (heap ex_ft 3) = Some 9"
    by (simp_all add: ex_ft_def ex_table_def getNode_def ex_store_def new_FolderNode_def new_FileNode_def)
  from collapseNode_hides [OF this(4,5,3,1,2), of 1] r obtain ft' where
    "collapseNode 1 8 ex_ft = Some ft'" "tr_hidden ft' (row_key 9) = map_option (\<lambda>_. True) (tr_hidden ex_ft (row_key 9))"
    by auto
  moreover have "tr_hidden ex_ft (row_key 9) = Some False"
    by (simp add: tr_hidden_def ex_ft_def row_key_def blank_tr_def)
  ultimately show ?thesis by auto
qed

definition nested_store :: store where
  "nested_store a = (if a < 4 then new_FolderNode\<lparr>children := [a + 1], rowId := (if a = 0 then None else Some a),
       root := (if a = 0 then None else Some (a - 1))\<rparr>
     else new_FileNode\<lparr>rowId := Some 4, root := Some 3\<rparr>)"

definition nested_ft :: files_table where
  "nested_ft = ex_ft\<lparr>base := ex_table\<lparr>rows := [], trs := map (\<lambda>r. (row_key r, blank_tr)) [1, 2, 3, 4]\<rparr>, heap := nested_store,
     fileTree := \<lparr>tree_root = Some 0, nodeMap = [1 \<mapsto> 1, 2 \<mapsto> 2, 3 \<mapsto> 3, 4 \<mapsto> 4]\<rparr>,
     collapseState := map (\<lambda>r. (r, \<lparr>ci_depth = r - 1, ci_collapsed = False\<rparr>)) [1, 2, 3]\<rparr>"

text \<open>
  Expanding a folder of a table that is not virtual looks only at the direct parent of each
  row: with folder 2 collapsed inside folder 1, collapsing and expanding folder 1 leaves folder 3
  (in 2) hidden but shows row 4 (in 3), which lies in the collapsed folder 2.
\<close>

theorem expandNode_shows_hidden_rows:
  "map_option (\<lambda>ft. (tr_hidden ft (row_key 2), tr_hidden ft (row_key 3), tr_hidden ft (row_key 4), isCollapsed ft 2))
     (Option.bind (collapseNode 9 2 nested_ft) (\<lambda>ft. Option.bind (collapseNode 9 1 ft) (expandNode 9 1)))
   = Some (Some False, Some True, Some False, True)"
  by code_simp

section \<open>The cache of the view\<close>

lemma sort_loop_keeps:
  "sort_loop fuel cmp stack h = Some h' \<Longrightarrow> \<exists>ch. h' b = (h b)\<lparr>children := ch\<rparr>"
proof (induction fuel arbitrary: stack h)
  case 0
  then show ?case by (auto split: if_splits intro: exI [of _ "children (h b)"])
next
  case (Suc fuel)
  show ?case
  proof (cases "stack = []")
    case True
    then show ?thesis using Suc.prems by (auto intro: exI [of _ "children (h b)"])
  next
    case False
    let ?h = "h(last stack := (h (last stack))\<lparr>children := js_sort (\<lambda>x y. cmp (h x) (h y)) (children (h (last stack)))\<rparr>)"
    have "sort_loop fuel cmp (butlast stack @ children (?h (last stack))) ?h = Some h'"
      using Suc.prems False by (simp add: Let_def)
    then obtain ch where "h' b = (?h b)\<lparr>children := ch\<rparr>" using Suc.IH by blast
    then show ?thesis by (cases "b = last stack") auto
  qed
qed

lemma terms_changed_self [simp]: "\<not> terms_changed ts ts"
proof -
  have "foldl (\<lambda>acc (index, t). acc \<or> \<not> (index < length ts \<and> t = ts ! index)) False xs = False"
    if "\<forall>(i, t) \<in> set xs. i < length ts \<and> t = ts ! i" for xs
    using that by (induction xs) auto
  moreover have "\<forall>(i, t) \<in> set (zip [0 ..< length ts] ts). i < length ts \<and> t = ts ! i"
    by (auto simp: set_zip)
  ultimately show ?thesis by (simp add: terms_changed_def)
qed

lemma generateRowsSignature_cong:
  assumes "base ft' = base ft" "fileTree ft' = fileTree ft" "collapseState ft' = collapseState ft"
    "supportCollapsing ft' = supportCollapsing ft" and ch: "\<And>b. \<exists>ch. heap ft' b = (heap ft b)\<lparr>children := ch\<rparr>"
  shows "generateRowsSignature ft' = generateRowsSignature ft"
proof -
  have "signature_of ft' b = signature_of ft b" for b
  proof -
    obtain c where "heap ft' b = (heap ft b)\<lparr>children := c\<rparr>" using ch by blast
    moreover have "isCollapsed ft' = isCollapsed ft" using assms by (simp add: isCollapsed_def fun_eq_iff)
    ultimately show ?thesis by (simp add: signature_of_def Let_def split: option.split)
  qed
  moreover have "row_node ft' = row_node ft" using assms by (simp add: row_node_def fun_eq_iff split: option.split)
  ultimately show ?thesis by (simp add: generateRowsSignature_def assms)
qed

text \<open>
  Asking for the view twice computes it once: the second call finds the signature, the filter
  and the sorting unchanged, and returns the same rows and state, whatever its fuel.
\<close>

theorem view_cached:
  assumes "ft_getFilteredAndSortedRows fuel collate ft = Some (rs, ft1)"
  shows "ft_getFilteredAndSortedRows fuel' collate ft1 = Some (rs, ft1)"
proof (cases "ft_root ft")
  case None
  then show ?thesis using assms by (auto simp: ft_getFilteredAndSortedRows_def)
next
  case (Some a)
  from assms Some obtain sig where sig: "generateRowsSignature ft = Some sig"
    by (auto simp: ft_getFilteredAndSortedRows_def split: option.splits)
  show ?thesis
  proof (cases "hasRowsChanged ft sig")
    case False
    then show ?thesis using assms Some sig by (auto simp: ft_getFilteredAndSortedRows_def)
  next
    case True
    from assms Some sig True obtain ft0 as where
      srt: "sortNodesByColumn fuel collate ft a (sortedColumn (base ft)) = Some ft0" and
      as: "view_nodes fuel ft0 a = Some as" and
      eq: "rs = map (node_row ft0) as" "ft1 = ft0\<lparr>prevFilterTerms := filterTerms ft0, prevRows := Some sig,
             prevFilteredRows := rs, prevSortedColumn := Some (sortedColumn (base ft0)),
             prevReverseSort := Some (reverseSort (base ft0))\<rparr>"
      by (auto simp: ft_getFilteredAndSortedRows_def Let_def split: option.splits)
    from srt obtain h where h: "ft0 = ft\<lparr>heap := h\<rparr>"
        "sort_loop fuel (compareNodes collate (fileNameColumn ft) (sortedColumn (base ft)) (reverseSort (base ft) = ''0'')) [a] (heap ft) = Some h"
      by (auto simp: sortNodesByColumn_def)
    have "generateRowsSignature ft1 = generateRowsSignature ft"
      using sort_loop_keeps [OF h(2)] by (intro generateRowsSignature_cong) (simp_all add: eq h)
    moreover have "\<not> hasRowsChanged ft1 sig"
      by (simp add: hasRowsChanged_def eq Let_def)
    moreover have "ft_root ft1 = Some a" using Some by (simp add: ft_root_def eq h)
    ultimately show ?thesis using sig by (simp add: ft_getFilteredAndSortedRows_def eq)
  qed
qed

theorem view_cached_witness:
  "\<exists>rs ft1. ft_getFilteredAndSortedRows 9 (\<lambda>s t. 0) ex_ft = Some (rs, ft1)
     \<and> ft_getFilteredAndSortedRows 0 (\<lambda>s t. 0) ft1 = Some (rs, ft1)"
proof -
  have "ft_getFilteredAndSortedRows 9 (\<lambda>s t. 0) ex_ft \<noteq> None" by code_simp
  then obtain rs ft1 where "ft_getFilteredAndSortedRows 9 (\<lambda>s t. 0) ex_ft = Some (rs, ft1)" by auto
  with view_cached [OF this] show ?thesis by blast
qed

end
