(* ===== verification/TorrentContent.thy ===== *)
theory TorrentContent
  imports FilesTable
begin

text \<open>
  \<open>torrent-content.js\<close> and the request of \<open>prop-files.js\<close>: building the tree of a torrent's
  files, and the priorities and check boxes that propagate down to the files and up to the
  folders. A failure is \<open>None\<close>: a lookup that gives \<open>null\<close> and is dereferenced, or fuel that ran
  out.
\<close>

section \<open>Priorities and check states\<close>

definition normalizePriority :: "jsval \<Rightarrow> FilePriority" where
  "normalizePriority p =
     (case js_ToNumber p of
        None \<Rightarrow> Normal
      | Some x \<Rightarrow> if x = of_int (priority_code Ignored) then Ignored
                  else if x = of_int (priority_code Normal) then Normal
                  else if x = of_int (priority_code High) then High
                  else if x = of_int (priority_code Maximum) then Maximum
                  else if x = of_int (priority_code Mixed) then Mixed
                  else Normal)"

fun triStateFromPriority :: "FilePriority \<Rightarrow> TriState" where
  "triStateFromPriority Ignored = Unchecked"
| "triStateFromPriority Normal = Checked"
| "triStateFromPriority High = Checked"
| "triStateFromPriority Maximum = Checked"
| "triStateFromPriority Mixed = Partial"

definition isFolderId :: "int \<Rightarrow> bool" where
  "isFolderId fid \<longleftrightarrow> fid = -1"

section \<open>Form controls\<close>

record checkbox =
  cb_state :: TriState
  cb_indeterminate :: bool
  cb_checked :: bool

definition setCheckboxChecked :: "checkbox \<Rightarrow> checkbox" where
  "setCheckboxChecked c = c\<lparr>cb_state := Checked, cb_indeterminate := False, cb_checked := True\<rparr>"

definition setCheckboxUnchecked :: "checkbox \<Rightarrow> checkbox" where
  "setCheckboxUnchecked c = c\<lparr>cb_state := Unchecked, cb_indeterminate := False, cb_checked := False\<rparr>"

definition setCheckboxPartial :: "checkbox \<Rightarrow> checkbox" where
  "setCheckboxPartial c = c\<lparr>cb_state := Partial, cb_indeterminate := True\<rparr>"

fun updateCheckbox :: "TriState \<Rightarrow> checkbox \<Rightarrow> checkbox" where
  "updateCheckbox Checked c = setCheckboxChecked c"
| "updateCheckbox Unchecked c = setCheckboxUnchecked c"
| "updateCheckbox Partial c = setCheckboxPartial c"

record combo_option =
  opt_value :: FilePriority
  opt_selected :: bool
  opt_disabled :: bool
  opt_text :: string

record combobox =
  cmb_options :: "combo_option list"
  cmb_value :: FilePriority

definition createPriorityCombo :: "FilePriority \<Rightarrow> combobox" where
  "createPriorityCombo selectedPriority =
     (let createOption = (\<lambda>p dis text. \<lparr>opt_value = p, opt_selected = (p = selectedPriority), opt_disabled = dis, opt_text = text\<rparr>)
      in \<lparr>cmb_options = [createOption Ignored False ''Do not download'', createOption Normal False ''Normal'',
            createOption High False ''High'', createOption Maximum False ''Maximum'', createOption Mixed True ''Mixed''],
          cmb_value = selectedPriority\<rparr>)"

definition selectComboboxPriority :: "combobox \<Rightarrow> FilePriority \<Rightarrow> combobox" where
  "selectComboboxPriority c p =
     c\<lparr>cmb_options := map (\<lambda>opt. opt\<lparr>opt_selected := (opt_value opt = p)\<rparr>) (cmb_options c), cmb_value := p\<rparr>"

definition updatePriorityCombo :: "combobox \<Rightarrow> FilePriority \<Rightarrow> combobox" where
  "updatePriorityCombo c selectedPriority =
     (if cmb_value c \<noteq> selectedPriority then selectComboboxPriority c selectedPriority else c)"

section \<open>The state of the page\<close>

text \<open>\<open>sent\<close> records the calls of the handler \<open>onFilePriorityChanged\<close>, when there is one.\<close>

record content =
  torrentFilesTable :: files_table
  has_handler :: bool
  sent :: "(int list \<times> FilePriority) list"

definition notify :: "int list \<Rightarrow> FilePriority \<Rightarrow> content \<Rightarrow> content" where
  "notify fileIds p c = (if has_handler c then c\<lparr>sent := sent c @ [(fileIds, p)]\<rparr> else c)"

text \<open>The body that \<open>prop-files.js\<close> posts for a call: folders have no id of their own.\<close>

definition filePrio_request :: "string \<Rightarrow> int list \<Rightarrow> FilePriority \<Rightarrow> (string \<times> string) list" where
  "filePrio_request current_hash fileIds p =
     [(''hash'', current_hash), (''id'', js_join ''|'' (map int_str (filter (\<lambda>i. \<not> isFolderId i) fileIds))),
      (''priority'', int_str (priority_code p))]"

definition tree_node :: "content \<Rightarrow> nat \<Rightarrow> addr option" where
  "tree_node c r = getNode (fileTree (torrentFilesTable c)) r"

definition node_at :: "content \<Rightarrow> addr \<Rightarrow> node" where
  "node_at c a = heap (torrentFilesTable c) a"

definition set_heap :: "store \<Rightarrow> content \<Rightarrow> content" where
  "set_heap h c = c\<lparr>torrentFilesTable := (torrentFilesTable c)\<lparr>heap := h\<rparr>\<rparr>"

section \<open>Downward: a priority for a node and everything below it\<close>

fun getChildFiles :: "nat \<Rightarrow> store \<Rightarrow> addr \<Rightarrow> addr list option" where
  "getChildFiles 0 h a = None"
| "getChildFiles (Suc fuel) h a =
     (if isFolder (h a)
      then map_option (\<lambda>ls. a # concat ls) (those (map (getChildFiles fuel h) (children (h a))))
      else Some [a])"

definition getAllChildren :: "nat \<Rightarrow> content \<Rightarrow> nat \<Rightarrow> (nat option list \<times> int list) option" where
  "getAllChildren fuel c r =
     (case tree_node c r of
        None \<Rightarrow> None
      | Some a \<Rightarrow>
          map_option (\<lambda>ls. let as = a # concat ls in
              (map (\<lambda>a. rowId (node_at c a)) as, map (\<lambda>a. fileId (node_at c a)) as))
            (those (map (getChildFiles fuel (heap (torrentFilesTable c))) (children (node_at c a)))))"

definition put_priority :: "FilePriority \<Rightarrow> addr \<Rightarrow> store \<Rightarrow> store" where
  "put_priority p a h = h(a := (h a)\<lparr>priority := p, checked := triStateFromPriority p\<rparr>)"

fun recalculate :: "nat \<Rightarrow> addr list \<Rightarrow> store \<Rightarrow> store option" where
  "recalculate fuel [] h = Some h"
| "recalculate fuel (a # as) h = Option.bind (calculateRemaining fuel h a) (recalculate fuel as)"

definition lookup_ids :: "content \<Rightarrow> nat option list \<Rightarrow> addr list option" where
  "lookup_ids c ids = those (map (\<lambda>i. Option.bind i (tree_node c)) ids)"

definition setFilePriority ::
  "nat \<Rightarrow> nat option list \<Rightarrow> int list \<Rightarrow> FilePriority \<Rightarrow> content \<Rightarrow> content option" where
  "setFilePriority fuel ids fileIds p c =
     (let c = notify fileIds p c in
      case lookup_ids c ids of
        None \<Rightarrow> None
      | Some nodes \<Rightarrow>
          let h = fold (put_priority p) nodes (heap (torrentFilesTable c))
          in map_option (\<lambda>h. set_heap h c) (recalculate fuel nodes h))"

section \<open>Upward: the folders above\<close>

record sibling_counts =
  checkedCount :: nat
  uncheckedCount :: nat
  indeterminateCount :: nat
  desiredPriority :: "FilePriority option"

definition count_sibling :: "sibling_counts \<Rightarrow> node \<Rightarrow> sibling_counts" where
  "count_sibling k n =
     (let k = (case checked n of
                 Checked \<Rightarrow> k\<lparr>checkedCount := checkedCount k + 1\<rparr>
               | Unchecked \<Rightarrow> k\<lparr>uncheckedCount := uncheckedCount k + 1\<rparr>
               | Partial \<Rightarrow> k\<lparr>indeterminateCount := indeterminateCount k + 1\<rparr>)
      in case desiredPriority k of
           None \<Rightarrow> k\<lparr>desiredPriority := Some (priority n)\<rparr>
         | Some d \<Rightarrow> if d \<noteq> priority n then k\<lparr>desiredPriority := Some Mixed\<rparr> else k)"

definition desired_state :: "node list \<Rightarrow> TriState \<times> FilePriority option" where
  "desired_state siblings =
     (let k = foldl count_sibling \<lparr>checkedCount = 0, uncheckedCount = 0, indeterminateCount = 0, desiredPriority = None\<rparr> siblings;
          desiredCheckboxState =
            (if 0 < indeterminateCount k \<or> (0 < checkedCount k \<and> 0 < uncheckedCount k) then Partial
             else if 0 < checkedCount k then Checked else Unchecked)
      in (desiredCheckboxState, desiredPriority k))"

definition updateComplete :: "nat \<Rightarrow> string cmp \<Rightarrow> content \<Rightarrow> content option" where
  "updateComplete fuel collate c =
     (case updateHeaderCheckbox fuel (torrentFilesTable c) of
        None \<Rightarrow> None
      | Some ft \<Rightarrow>
          (case ft_root ft of
             None \<Rightarrow> None
           | Some a \<Rightarrow>
               (case calculateRemaining fuel (heap ft) a of
                  None \<Rightarrow> None
                | Some h \<Rightarrow> map_option (\<lambda>ft. c\<lparr>torrentFilesTable := ft\<rparr>)
                              (ft_updateTable fuel collate True (ft\<lparr>heap := h\<rparr>)))))"

text \<open>
  \<open>getComboboxPriority\<close> looks a node up again by its row id; \<open>siblings\<close> are read that way for
  their priorities.
\<close>

definition combobox_node :: "content \<Rightarrow> addr \<Rightarrow> node option" where
  "combobox_node c a = map_option (node_at c) (Option.bind (rowId (node_at c a)) (tree_node c))"

definition sibling_view :: "content \<Rightarrow> addr \<Rightarrow> node option" where
  "sibling_view c a = map_option (\<lambda>n. (node_at c a)\<lparr>priority := priority n\<rparr>) (combobox_node c a)"

text \<open>One level of the climb: \<open>Inl\<close> when it is complete, \<open>Inr\<close> with the folder to go on from.\<close>

definition climb_step :: "nat \<Rightarrow> content \<Rightarrow> (unit + nat \<times> content) option" where
  "climb_step r c =
     (case tree_node c r of
        None \<Rightarrow> None
      | Some a \<Rightarrow>
          (case parent_of (node_at c a) of
             None \<Rightarrow> None
           | Some p \<Rightarrow>
               if ft_root (torrentFilesTable c) = Some p then Some (Inl ())
               else (case (those (map (sibling_view c) (children (node_at c p))), combobox_node c p, rowId (node_at c p)) of
                       (Some siblings, Some pn, Some pr) \<Rightarrow>
                         (let (st, pri) = desired_state siblings in
                          if checked (node_at c p) \<noteq> st \<or> Some (priority pn) \<noteq> pri
                          then (case (tree_node c pr, pri) of
                                  (Some b, Some q) \<Rightarrow>
                                    Some (Inr (pr, set_heap ((heap (torrentFilesTable c))
                                        (b := (node_at c b)\<lparr>priority := q, checked := st\<rparr>)) c))
                                | _ \<Rightarrow> None)
                          else Some (Inl ()))
                     | _ \<Rightarrow> None)))"

fun climb :: "nat \<Rightarrow> nat \<Rightarrow> content \<Rightarrow> content option" where
  "climb 0 r c = None"
| "climb (Suc fuel) r c =
     (case climb_step r c of
        None \<Rightarrow> None
      | Some (Inl _) \<Rightarrow> Some c
      | Some (Inr (pr, c')) \<Rightarrow> climb fuel pr c')"

definition updateParentFolder :: "nat \<Rightarrow> string cmp \<Rightarrow> nat \<Rightarrow> content \<Rightarrow> content option" where
  "updateParentFolder fuel collate r c = Option.bind (climb fuel r c) (updateComplete fuel collate)"

section \<open>The handlers\<close>

definition set_and_propagate :: "nat \<Rightarrow> string cmp \<Rightarrow> nat \<Rightarrow> FilePriority \<Rightarrow> content \<Rightarrow> content option" where
  "set_and_propagate fuel collate r p c =
     (case getAllChildren fuel c r of
        None \<Rightarrow> None
      | Some (rowIds, fileIds) \<Rightarrow>
          Option.bind (setFilePriority fuel rowIds fileIds p c) (updateParentFolder fuel collate r))"

definition fileCheckboxClicked :: "nat \<Rightarrow> string cmp \<Rightarrow> bool \<Rightarrow> nat \<Rightarrow> content \<Rightarrow> content option" where
  "fileCheckboxClicked fuel collate isChecked r c =
     set_and_propagate fuel collate r (if isChecked then Normal else Ignored) c"

definition fileComboboxChanged :: "nat \<Rightarrow> string cmp \<Rightarrow> jsval \<Rightarrow> nat \<Rightarrow> content \<Rightarrow> content option" where
  "fileComboboxChanged fuel collate val r c = set_and_propagate fuel collate r (normalizePriority val) c"

fun propagate_all :: "nat \<Rightarrow> string cmp \<Rightarrow> nat list \<Rightarrow> content \<Rightarrow> content option" where
  "propagate_all fuel collate [] c = Some c"
| "propagate_all fuel collate (r # rs) c =
     Option.bind (updateParentFolder fuel collate r c) (propagate_all fuel collate rs)"

definition filesPriorityMenuClicked ::
  "nat \<Rightarrow> string cmp \<Rightarrow> FilePriority \<Rightarrow> nat list \<Rightarrow> content \<Rightarrow> content option" where
  "filesPriorityMenuClicked fuel collate p selected c =
     (if selected = [] then Some c
      else case those (map (getAllChildren fuel c) selected) of
          None \<Rightarrow> None
        | Some all \<Rightarrow>
            let uniqueRowIds = set_of_list (concat (map fst all));
                uniqueFileIds = set_of_list (concat (map snd all))
            in Option.bind (setFilePriority fuel uniqueRowIds uniqueFileIds p c) (propagate_all fuel collate selected))"

fun switch_rows :: "FilePriority \<Rightarrow> TriState \<Rightarrow> nat list \<Rightarrow> content \<Rightarrow> int list \<Rightarrow> (content \<times> int list) option" where
  "switch_rows p st [] c fileIds = Some (c, fileIds)"
| "switch_rows p st (r # rs) c fileIds =
     (case tree_node c r of
        None \<Rightarrow> None
      | Some a \<Rightarrow>
          let n = node_at c a;
              fileIds = (if has_handler c \<and> priority n \<noteq> p then fileIds @ [fileId n] else fileIds)
          in switch_rows p st rs
               (set_heap ((heap (torrentFilesTable c))(a := n\<lparr>priority := p, checked := st\<rparr>)) c) fileIds)"

definition switchGlobalCheckboxState ::
  "nat \<Rightarrow> string cmp \<Rightarrow> checkbox \<Rightarrow> nat list \<Rightarrow> content \<Rightarrow> (checkbox \<times> content) option" where
  "switchGlobalCheckboxState fuel collate cb rowIds c =
     (let checked = (if cb_state cb = Checked then Unchecked else Checked);
          cb = (if checked = Unchecked then setCheckboxUnchecked cb else setCheckboxChecked cb);
          p = (if cb_state cb = Checked then Normal else Ignored)
      in case switch_rows p checked rowIds c [] of
           None \<Rightarrow> None
         | Some (c, fileIds) \<Rightarrow>
             map_option (\<lambda>ft. (cb, notify fileIds p (c\<lparr>torrentFilesTable := ft\<rparr>)))
               (ft_updateTable fuel collate True (torrentFilesTable c)))"

section \<open>What a level of the climb computes\<close>

lemma count_sibling_counts:
  "checkedCount (foldl count_sibling k ns) = checkedCount k + length (filter (\<lambda>n. checked n = Checked) ns)"
  "uncheckedCount (foldl count_sibling k ns) = uncheckedCount k + length (filter (\<lambda>n. checked n = Unchecked) ns)"
  "indeterminateCount (foldl count_sibling k ns) = indeterminateCount k + length (filter (\<lambda>n. checked n = Partial) ns)"
  by (induction ns arbitrary: k)
    (auto simp: count_sibling_def Let_def split: TriState.splits option.splits)

lemma count_sibling_priority:
  "desiredPriority k = Some d \<Longrightarrow> desiredPriority (foldl count_sibling k ns) =
     Some (if \<forall>n \<in> set ns. priority n = d then d else Mixed)"
proof (induction ns arbitrary: k d)
  case (Cons n ns)
  have "desiredPriority (count_sibling k n) = Some (if d \<noteq> priority n then Mixed else d)"
    using Cons.prems by (simp add: count_sibling_def Let_def split: TriState.split)
  from Cons.IH [OF this] show ?case by auto
qed simp

definition common :: "'a \<Rightarrow> 'a list \<Rightarrow> 'a option" where
  "common none xs = (case xs of [] \<Rightarrow> None | x # ys \<Rightarrow> Some (if \<forall>y \<in> set ys. y = x then x else none))"

lemma desired_priority_common: "snd (desired_state ns) = common Mixed (map priority ns)"
proof (cases ns)
  case Nil
  then show ?thesis by (simp add: desired_state_def common_def)
next
  case (Cons n ms)
  have "desiredPriority (count_sibling \<lparr>checkedCount = 0, uncheckedCount = 0, indeterminateCount = 0, desiredPriority = None\<rparr> n)
      = Some (priority n)"
    by (simp add: count_sibling_def Let_def split: TriState.split)
  from count_sibling_priority [OF this, of ms] show ?thesis using Cons by (simp add: desired_state_def Let_def common_def)
qed

lemma desired_checked_common:
  "fst (desired_state ns) = (case common Partial (map checked ns) of None \<Rightarrow> Unchecked | Some s \<Rightarrow> s)"
proof -
  have "fst (desired_state ns) = (if (\<exists>n \<in> set ns. checked n = Partial)
        \<or> ((\<exists>n \<in> set ns. checked n = Checked) \<and> (\<exists>n \<in> set ns. checked n = Unchecked)) then Partial
      else if \<exists>n \<in> set ns. checked n = Checked then Checked else Unchecked)"
    by (auto simp: desired_state_def Let_def count_sibling_counts filter_empty_conv)
  also have "\<dots> = (case common Partial (map checked ns) of None \<Rightarrow> Unchecked | Some s \<Rightarrow> s)"
  proof (cases ns)
    case (Cons n ms)
    show ?thesis
    proof (cases "\<forall>m \<in> set ms. checked m = checked n")
      case True
      then show ?thesis using Cons by (cases "checked n") (auto simp: common_def)
    next
      case False
      then obtain m where "m \<in> set ms" "checked m \<noteq> checked n" by auto
      then show ?thesis using Cons
        by (cases "checked n"; cases "checked m") (auto simp: common_def)
    qed
  qed (simp add: common_def)
  finally show ?thesis .
qed

text \<open>
  C28: The climb of \<open>torrent-content.js\<close> and the aggregation of \<open>file-tree.js\<close> agree: on the
  children of a non-empty folder both give the same check state and the same priority, the
  common one or partial and mixed.
\<close>

theorem desired_state_is_summary:
  assumes "cs \<noteq> []" and "autoCalculateCheckedState r"
  shows "desired_state cs = (checked (folder_summary r cs), Some (priority (folder_summary r cs)))"
proof (rule prod_eqI)
  obtain c ds where c: "cs = c # ds" using assms(1) by (cases cs) auto
  show "fst (desired_state cs) = fst (checked (folder_summary r cs), Some (priority (folder_summary r cs)))"
    using folder_summary_checked [OF assms(2), of cs] by (simp add: desired_checked_common common_def c)
  show "snd (desired_state cs) = snd (checked (folder_summary r cs), Some (priority (folder_summary r cs)))"
    using folder_summary_priority [of r cs] by (simp add: desired_priority_common common_def c)
qed

theorem desired_state_is_summary_witness:
  "desired_state [new_FileNode, new_FileNode\<lparr>checked := Checked\<rparr>] = (Partial, Some Normal)"
proof -
  have "autoCalculateCheckedState new_FolderNode" by (simp add: new_FolderNode_def new_FileNode_def)
  from desired_state_is_summary [OF _ this, of "[new_FileNode, new_FileNode\<lparr>checked := Checked\<rparr>]"]
  show ?thesis
    by (simp add: folder_summary_checked [OF \<open>autoCalculateCheckedState new_FolderNode\<close>] folder_summary_priority new_FileNode_def)
qed

section \<open>The climb repairs the folders above\<close>

definition settled :: "store \<Rightarrow> addr \<Rightarrow> bool" where
  "settled h b \<longleftrightarrow> (checked (h b), Some (priority (h b))) = desired_state (map h (children (h b)))"

fun parented :: "store \<Rightarrow> shape \<Rightarrow> bool" where
  "parented h (Sh a ss) \<longleftrightarrow> (\<forall>s \<in> set ss. parent_of (h (top s)) = Some a \<and> parented h s)"

inductive chain :: "store \<Rightarrow> addr \<Rightarrow> addr \<Rightarrow> nat \<Rightarrow> bool" for h t where
  chain_top: "parent_of (h a) = Some t \<Longrightarrow> chain h t a 0"
| chain_up: "parent_of (h a) = Some p \<Longrightarrow> p \<noteq> t \<Longrightarrow> chain h t p n \<Longrightarrow> chain h t a (Suc n)"

text \<open>What is assumed of the state: the table holds the tree \<open>s\<close> and finds its nodes by row id.\<close>

definition holds_tree :: "content \<Rightarrow> shape \<Rightarrow> bool" where
  "holds_tree c s \<longleftrightarrow> ft_root (torrentFilesTable c) = Some (top s) \<and> distinct (addrs s)
     \<and> links (heap (torrentFilesTable c)) s \<and> parented (heap (torrentFilesTable c)) s
     \<and> (\<forall>a \<in> set (addrs s) - {top s}. \<exists>r. rowId (node_at c a) = Some r \<and> tree_node c r = Some a)"

definition same_but_state :: "store \<Rightarrow> store \<Rightarrow> bool" where
  "same_but_state h h' \<longleftrightarrow> (\<forall>b. \<exists>x y z. h' b = (h b)\<lparr>priority := x, checked := y, remaining := z\<rparr>)"

lemma same_but_stateE:
  "same_but_state h h' \<Longrightarrow> (\<And>x y z. h' b = (h b)\<lparr>priority := x, checked := y, remaining := z\<rparr> \<Longrightarrow> thesis) \<Longrightarrow> thesis"
  unfolding same_but_state_def by (drule spec [of _ b], elim exE)

lemma same_but_stateD:
  assumes "same_but_state h h'"
  shows "isFolder (h' b) = isFolder (h b)" "children (h' b) = children (h b)" "parent_of (h' b) = parent_of (h b)"
    "rowId (h' b) = rowId (h b)" "fileId (h' b) = fileId (h b)"
  by (rule same_but_stateE [OF assms, of b], simp)+

lemma same_but_state_refl [simp]: "same_but_state h h"
  unfolding same_but_state_def
proof
  fix b
  show "\<exists>x y z. h b = (h b)\<lparr>priority := x, checked := y, remaining := z\<rparr>"
    by (intro exI [of _ "priority (h b)"] exI [of _ "checked (h b)"] exI [of _ "remaining (h b)"]) simp
qed

lemma same_but_state_trans:
  assumes "same_but_state h h1" "same_but_state h1 h2"
  shows "same_but_state h h2"
  unfolding same_but_state_def
proof
  fix b
  show "\<exists>x y z. h2 b = (h b)\<lparr>priority := x, checked := y, remaining := z\<rparr>"
  proof (rule same_but_stateE [OF assms(1), of b], rule same_but_stateE [OF assms(2), of b])
    fix x y z x' y' z'
    assume "h1 b = (h b)\<lparr>priority := x, checked := y, remaining := z\<rparr>"
      "h2 b = (h1 b)\<lparr>priority := x', checked := y', remaining := z'\<rparr>"
    then show ?thesis by (intro exI [of _ x'] exI [of _ y'] exI [of _ z']) simp
  qed
qed

lemma same_but_state_put: "same_but_state h (h(a := (h a)\<lparr>priority := x, checked := y\<rparr>))"
proof -
  have "\<exists>x' y' z'. (h(a := (h a)\<lparr>priority := x, checked := y\<rparr>)) b = (h b)\<lparr>priority := x', checked := y', remaining := z'\<rparr>" for b
  proof (cases "b = a")
    case True
    then show ?thesis by (intro exI [of _ x] exI [of _ y] exI [of _ "remaining (h a)"]) simp
  next
    case False
    then show ?thesis by (intro exI [of _ "priority (h b)"] exI [of _ "checked (h b)"] exI [of _ "remaining (h b)"]) simp
  qed
  then show ?thesis unfolding same_but_state_def by blast
qed

lemma parented_cong: "(\<And>b. parent_of (h' b) = parent_of (h b)) \<Longrightarrow> parented h' s = parented h s"
  by (induction s) auto

lemma chain_cong: "(\<And>b. parent_of (h' b) = parent_of (h b)) \<Longrightarrow> chain h' t a n = chain h t a n"
proof -
  assume eq: "\<And>b. parent_of (h' b) = parent_of (h b)"
  have "chain h1 t a n \<Longrightarrow> (\<And>b. parent_of (h2 b) = parent_of (h1 b)) \<Longrightarrow> chain h2 t a n" for h1 h2
    by (induction rule: chain.induct) (auto intro: chain.intros)
  then show ?thesis using eq by metis
qed

lemma tree_node_set_heap [simp]: "tree_node (set_heap h c) r = tree_node c r" "node_at (set_heap h c) a = h a"
  "heap (torrentFilesTable (set_heap h c)) = h" "ft_root (torrentFilesTable (set_heap h c)) = ft_root (torrentFilesTable c)"
  "sent (set_heap h c) = sent c" "has_handler (set_heap h c) = has_handler c"
  by (simp_all add: tree_node_def node_at_def set_heap_def ft_root_def)

lemma holds_tree_set_heap:
  "holds_tree c s \<Longrightarrow> same_but_state (heap (torrentFilesTable c)) h \<Longrightarrow> holds_tree (set_heap h c) s"
  unfolding holds_tree_def
  by (simp add: same_but_stateD links_cong [of _ h "heap (torrentFilesTable c)"] parented_cong [of h "heap (torrentFilesTable c)"])
     (simp add: node_at_def same_but_stateD)

lemma children_parent:
  "links h s \<Longrightarrow> parented h s \<Longrightarrow> b \<in> set (addrs s) \<Longrightarrow> x \<in> set (children (h b)) \<Longrightarrow> parent_of (h x) = Some b"
  by (induction s) (auto split: if_splits)

lemma children_not_self:
  "links h s \<Longrightarrow> distinct (addrs s) \<Longrightarrow> b \<in> set (addrs s) \<Longrightarrow> b \<notin> set (children (h b))"
proof (induction s)
  case (Sh a ss)
  show ?case
  proof (cases "b = a")
    case True
    then show ?thesis using Sh.prems top_in_addrs by force
  next
    case False
    then obtain t where t: "t \<in> set ss" "b \<in> set (addrs t)" using Sh.prems by auto
    then have "distinct (addrs t)" using Sh.prems by (auto simp: distinct_concat_iff)
    then show ?thesis using Sh t by auto
  qed
qed

lemma children_not_top:
  assumes "links h s" "distinct (addrs s)" "b \<in> set (addrs s)"
  shows "top s \<notin> set (children (h b))"
proof (cases s)
  case (Sh a ss)
  show ?thesis
  proof (cases "b = a")
    case True
    then show ?thesis using children_not_self [OF assms] Sh by simp
  next
    case False
    then obtain t where t: "t \<in> set ss" "b \<in> set (addrs t)" using assms Sh by auto
    then have "set (children (h b)) \<subseteq> set (addrs t)" using assms Sh by (intro children_below) auto
    then show ?thesis using assms Sh t by auto
  qed
qed

lemma parent_in_tree:
  "links h s \<Longrightarrow> parented h s \<Longrightarrow> a \<in> set (addrs s) \<Longrightarrow> a \<noteq> top s \<Longrightarrow>
     \<exists>p \<in> set (addrs s). parent_of (h a) = Some p \<and> a \<in> set (children (h p))"
proof (induction s)
  case (Sh b ss)
  then obtain t where t: "t \<in> set ss" "a \<in> set (addrs t)" by auto
  show ?case
  proof (cases "a = top t")
    case True
    then show ?thesis using Sh.prems t by auto
  next
    case False
    with Sh.IH [OF t(1)] Sh.prems t obtain p where "p \<in> set (addrs t)" "parent_of (h a) = Some p" "a \<in> set (children (h p))"
      by auto
    then show ?thesis using t by auto
  qed
qed

lemma chain_below:
  "parented h u \<Longrightarrow> chain h t (top u) n \<Longrightarrow> t \<notin> set (addrs u) \<Longrightarrow> a \<in> set (addrs u) \<Longrightarrow>
     \<exists>m. chain h t a m \<and> m < n + height u"
proof (induction u arbitrary: n)
  case (Sh b ss)
  show ?case
  proof (cases "a = b")
    case True
    then show ?thesis using Sh.prems by (intro exI [of _ n]) simp
  next
    case False
    then obtain v where v: "v \<in> set ss" "a \<in> set (addrs v)" using Sh.prems by auto
    have "chain h t (top v) (Suc n)" using Sh.prems v by (intro chain_up [of h "top v" b]) auto
    then obtain m where "chain h t a m" "m < Suc n + height v"
      using Sh.IH [OF v(1), of "Suc n"] Sh.prems v by auto
    then show ?thesis using height_child [OF v(1), of b] by (intro exI [of _ m]) linarith
  qed
qed

lemma chain_in_tree:
  "parented h s \<Longrightarrow> distinct (addrs s) \<Longrightarrow> a \<in> set (addrs s) \<Longrightarrow> a \<noteq> top s \<Longrightarrow> \<exists>m. chain h (top s) a m \<and> m < height s"
proof (cases s)
  case (Sh b ss)
  assume A: "parented h s" "distinct (addrs s)" "a \<in> set (addrs s)" "a \<noteq> top s"
  then obtain u where u: "u \<in> set ss" "a \<in> set (addrs u)" using Sh by auto
  have "chain h b (top u) 0" using A u Sh by (intro chain_top) auto
  then obtain m where "chain h b a m" "m < 0 + height u"
    using chain_below [of h u b 0 a] A u Sh by auto
  then show ?thesis using height_child [OF u(1), of b] Sh by (intro exI [of _ m]) simp
qed

lemma those_map_Some: "(\<And>x. x \<in> set xs \<Longrightarrow> f x = Some (g x)) \<Longrightarrow> those (map f xs) = Some (map g xs)"
  by (induction xs) auto

lemma holds_tree_find:
  "holds_tree c s \<Longrightarrow> a \<in> set (addrs s) \<Longrightarrow> a \<noteq> top s \<Longrightarrow> \<exists>r. rowId (node_at c a) = Some r \<and> tree_node c r = Some a"
  by (auto simp: holds_tree_def)

lemma holds_tree_view:
  assumes "holds_tree c s" "a \<in> set (addrs s)" "a \<noteq> top s"
  shows "combobox_node c a = Some (node_at c a)" "sibling_view c a = Some (node_at c a)"
  using holds_tree_find [OF assms] by (auto simp: combobox_node_def sibling_view_def)

definition new_state :: "store \<Rightarrow> addr \<Rightarrow> store" where
  "new_state h p = h(p := (h p)\<lparr>priority := the (snd (desired_state (map h (children (h p))))),
                               checked := fst (desired_state (map h (children (h p))))\<rparr>)"

lemma climb_step_inner:
  assumes ht: "holds_tree c s" and a: "a \<in> set (addrs s)" "a \<noteq> top s" "tree_node c r = Some a"
    and p: "parent_of (node_at c a) = Some p" "p \<noteq> top s"
  shows "\<exists>pr. rowId (node_at c p) = Some pr \<and> tree_node c pr = Some p \<and> climb_step r c =
    Some (if settled (heap (torrentFilesTable c)) p then Inl ()
          else Inr (pr, set_heap (new_state (heap (torrentFilesTable c)) p) c))"
proof -
  let ?h = "heap (torrentFilesTable c)"
  note ht' = ht [unfolded holds_tree_def]
  have na: "node_at c b = ?h b" for b by (simp add: node_at_def)
  obtain q where q: "q \<in> set (addrs s)" "parent_of (?h a) = Some q" "a \<in> set (children (?h q))"
    using parent_in_tree [of ?h s a] ht' a by auto
  then have pq: "p \<in> set (addrs s)" "a \<in> set (children (?h p))" using p by (auto simp: na)
  obtain pr where pr: "rowId (node_at c p) = Some pr" "tree_node c pr = Some p"
    using holds_tree_find [OF ht pq(1) p(2)] by blast
  have kids: "sibling_view c b = Some (?h b)" if b: "b \<in> set (children (?h p))" for b
  proof -
    have "b \<in> set (addrs s)" using children_below [of ?h s p] ht' pq(1) b by auto
    moreover have "b \<noteq> top s" using children_not_top [of ?h s p] ht' pq(1) b by auto
    ultimately show ?thesis using holds_tree_view [OF ht] by (simp add: na)
  qed
  have sib: "those (map (sibling_view c) (children (node_at c p))) = Some (map ?h (children (?h p)))"
    unfolding na by (rule those_map_Some) (rule kids)
  have ne: "children (?h p) \<noteq> []" using pq(2) by auto
  have comb: "combobox_node c p = Some (?h p)" using holds_tree_view [OF ht pq(1) p(2)] by (simp add: na)
  obtain st pri where ds: "desired_state (map ?h (children (?h p))) = (st, pri)" by fastforce
  moreover have "pri \<noteq> None"
    using desired_priority_common [of "map ?h (children (?h p))"] ne ds by (auto simp: common_def split: list.splits)
  ultimately obtain q where ds: "desired_state (map ?h (children (?h p))) = (st, Some q)" by auto
  have nr: "ft_root (torrentFilesTable c) \<noteq> Some p" using ht' p(2) by auto
  have "climb_step r c = Some (if settled ?h p then Inl ()
          else Inr (pr, set_heap (new_state ?h p) c))"
    using pr nr p(1) a(3) sib comb by (simp add: climb_step_def ds settled_def new_state_def na)
  with pr show ?thesis by blast
qed

lemma settled_new_state:
  assumes "links h s" "distinct (addrs s)" "p \<in> set (addrs s)" "children (h p) \<noteq> []"
  shows "settled (new_state h p) p"
proof -
  have kids: "map (new_state h p) (children (h p)) = map h (children (h p))"
    using children_not_self [OF assms(1-3)] by (auto simp: new_state_def)
  have "children (new_state h p p) = children (h p)" by (simp add: new_state_def)
  moreover have "snd (desired_state (map h (children (h p)))) \<noteq> None"
    using assms(4) by (auto simp: desired_priority_common common_def split: list.splits)
  ultimately show ?thesis
    by (auto simp: settled_def kids) (auto simp: new_state_def prod_eq_iff)
qed

lemma settled_elsewhere:
  assumes "links h s" "parented h s" "b \<in> set (addrs s)" "b \<noteq> p" "parent_of (h p) \<noteq> Some b"
  shows "settled (new_state h p) b = settled h b"
proof -
  have "p \<notin> set (children (h b))" using children_parent [OF assms(1-3)] assms(5) by auto
  then have m: "map (new_state h p) (children (h b)) = map h (children (h b))" by (auto simp: new_state_def)
  have n: "new_state h p b = h b" using assms(4) by (simp add: new_state_def)
  show ?thesis unfolding settled_def n m ..
qed

definition settled_except :: "content \<Rightarrow> shape \<Rightarrow> addr option \<Rightarrow> bool" where
  "settled_except c s x \<longleftrightarrow> (\<forall>b \<in> set (addrs s) - {top s}. children (node_at c b) \<noteq> [] \<longrightarrow> Some b \<noteq> x \<longrightarrow>
     settled (heap (torrentFilesTable c)) b)"

lemma climb_correct:
  assumes "chain (heap (torrentFilesTable c)) (top s) a n" "holds_tree c s" "a \<in> set (addrs s)" "a \<noteq> top s"
    and "tree_node c r = Some a" "settled_except c s (parent_of (node_at c a))" "n < fuel"
  shows "\<exists>h. climb fuel r c = Some (set_heap h c) \<and> same_but_state (heap (torrentFilesTable c)) h
    \<and> settled_except (set_heap h c) s None \<and> (\<forall>b. children (node_at c b) = [] \<longrightarrow> h b = node_at c b)"
  using assms
proof (induction fuel arbitrary: a n r c)
  case 0
  then show ?case by simp
next
  case (Suc fuel)
  let ?h = "heap (torrentFilesTable c)"
  note ht = Suc.prems(2) note ht' = ht [unfolded holds_tree_def]
  have self: "set_heap ?h c = c" by (simp add: set_heap_def)
  obtain p where p: "p \<in> set (addrs s)" "parent_of (?h a) = Some p" "a \<in> set (children (?h p))"
    using parent_in_tree [of ?h s a] ht' Suc.prems(3,4) by auto
  show ?case
  proof (cases "p = top s")
    case True
    then have "climb_step r c = Some (Inl ())"
      using Suc.prems(5) p ht' by (simp add: climb_step_def node_at_def)
    moreover have "settled_except c s None"
      using Suc.prems(6) p True by (auto simp: settled_except_def node_at_def)
    ultimately show ?thesis using self by (intro exI [of _ ?h]) (simp add: node_at_def)
  next
    case False
    obtain pr where pr: "rowId (node_at c p) = Some pr" "tree_node c pr = Some p"
      "climb_step r c = Some (if settled ?h p then Inl () else Inr (pr, set_heap (new_state ?h p) c))"
      using climb_step_inner [OF ht Suc.prems(3-5), of p] p False by (auto simp: node_at_def)
    show ?thesis
    proof (cases "settled ?h p")
      case True
      then have "settled_except c s None"
        using Suc.prems(6) p by (auto simp: settled_except_def node_at_def)
      then show ?thesis using pr True self by (intro exI [of _ ?h]) (simp add: node_at_def)
    next
      case notset: False
      let ?c = "set_heap (new_state ?h p) c"
      have same: "same_but_state ?h (new_state ?h p)" unfolding new_state_def by (rule same_but_state_put)
      have ht1: "holds_tree ?c s" using ht same by (rule holds_tree_set_heap)
      obtain m where m: "n = Suc m" "chain ?h (top s) p m"
        using Suc.prems(1) p(2) False by (auto elim: chain.cases)
      then have ch: "chain (new_state ?h p) (top s) p m"
        using chain_cong [of "new_state ?h p" ?h] same_but_stateD(3) [OF same] by blast
      have par: "parent_of (new_state ?h p p) = parent_of (?h p)" by (simp add: new_state_def)
      have "settled_except ?c s (parent_of (node_at ?c p))"
        unfolding settled_except_def
      proof (intro ballI impI)
        fix b
        assume b: "b \<in> set (addrs s) - {top s}" "children (node_at ?c b) \<noteq> []" "Some b \<noteq> parent_of (node_at ?c p)"
        have cb: "children (?h b) \<noteq> []" using b(2) same_but_stateD(2) [OF same] by simp
        show "settled (heap (torrentFilesTable ?c)) b"
        proof (cases "b = p")
          case True
          then show ?thesis using settled_new_state [of ?h s p] ht' p cb by simp
        next
          case False
          have "settled ?h b"
            using Suc.prems(6) b(1) cb False p(2) by (auto simp: settled_except_def node_at_def)
          moreover have "parent_of (?h p) \<noteq> Some b" using b(3) par by auto
          ultimately show ?thesis using settled_elsewhere [of ?h s b p] ht' b(1) False by simp
        qed
      qed
      then obtain h where h: "climb fuel pr ?c = Some (set_heap h ?c)" "same_but_state (new_state ?h p) h"
          "settled_except (set_heap h ?c) s None"
          "\<forall>b. children (node_at ?c b) = [] \<longrightarrow> h b = node_at ?c b"
        using Suc.IH [of ?c p m pr] ch ht1 p(1) False pr(2) m Suc.prems(7) by auto
      have "set_heap h ?c = set_heap h c" by (simp add: set_heap_def)
      moreover have "children (node_at c b) = [] \<Longrightarrow> h b = node_at c b" for b
      proof -
        assume b: "children (node_at c b) = []"
        then have "b \<noteq> p" using p(3) by (auto simp: node_at_def)
        then have "node_at ?c b = node_at c b" by (simp add: new_state_def) (simp add: node_at_def)
        then show ?thesis using h(4) b by simp
      qed
      ultimately show ?thesis
        using h(1-3) pr(3) notset same_but_state_trans [OF same h(2)] by (intro exI [of _ h]) simp
    qed
  qed
qed

section \<open>A priority for a subtree, and the folders above it\<close>

lemma subshape_facts:
  "u \<in> set (subshapes s) \<Longrightarrow> set (addrs u) \<subseteq> set (addrs s) \<and> height u \<le> height s
     \<and> (links h s \<longrightarrow> links h u) \<and> (parented h s \<longrightarrow> parented h u) \<and> (distinct (addrs s) \<longrightarrow> distinct (addrs u))"
proof (induction s)
  case (Sh a ss)
  show ?case
  proof (cases "u = Sh a ss")
    case False
    then obtain t where t: "t \<in> set ss" "u \<in> set (subshapes t)" using Sh.prems by auto
    have d: "distinct (addrs (Sh a ss)) \<Longrightarrow> distinct (addrs t)" using t(1) by (auto simp: distinct_concat_iff)
    have "set (addrs t) \<subseteq> set (addrs (Sh a ss))" "height t < height (Sh a ss)"
      using t(1) height_child by auto
    then show ?thesis using Sh.IH [OF t] t(1) d by (auto simp del: height.simps)
  qed simp
qed

lemma subshape_of: "a \<in> set (addrs s) \<Longrightarrow> \<exists>u \<in> set (subshapes s). top u = a"
  by (induction s) auto

lemma getChildFiles_addrs:
  "links h u \<Longrightarrow> height u \<le> fuel \<Longrightarrow> getChildFiles fuel h (top u) = Some (addrs u)"
proof (induction u arbitrary: fuel)
  case (Sh a ss)
  obtain k where k: "fuel = Suc k" using Sh.prems(2) by (cases fuel) auto
  have "those (map (getChildFiles k h) (map top ss)) = Some (map addrs ss)"
    unfolding map_map comp_def
  proof (rule those_map_Some)
    fix t
    assume t: "t \<in> set ss"
    have "height t \<le> k" using height_child [OF t, of a] Sh.prems(2) k by linarith
    then show "getChildFiles k h (top t) = Some (addrs t)" using Sh t by auto
  qed
  then show ?case using Sh.prems k by auto
qed

lemma getAllChildren_addrs:
  assumes "tree_node c r = Some (top u)" "links (heap (torrentFilesTable c)) u" "height u \<le> Suc fuel"
  shows "getAllChildren fuel c r =
    Some (map (\<lambda>a. rowId (node_at c a)) (addrs u), map (\<lambda>a. fileId (node_at c a)) (addrs u))"
proof -
  obtain a ss where u: "u = Sh a ss" by (cases u)
  have "those (map (getChildFiles fuel (heap (torrentFilesTable c))) (map top ss)) = Some (map addrs ss)"
    unfolding map_map comp_def
  proof (rule those_map_Some)
    fix t
    assume t: "t \<in> set ss"
    have "height t \<le> fuel" using height_child [OF t, of a] assms(3) unfolding u by linarith
    then show "getChildFiles fuel (heap (torrentFilesTable c)) (top t) = Some (addrs t)"
      using assms(2) t u by (intro getChildFiles_addrs) auto
  qed
  then show ?thesis using assms u by (simp add: getAllChildren_def node_at_def Let_def)
qed

lemma fold_put_priority:
  "fold (put_priority p) as h b =
     (if b \<in> set as then (h b)\<lparr>priority := p, checked := triStateFromPriority p\<rparr> else h b)"
  by (induction as arbitrary: h) (auto simp: put_priority_def)

lemma recalculate_Some:
  assumes "links h s" "set as \<subseteq> set (addrs s)" "height s \<le> fuel"
  shows "\<exists>h'. recalculate fuel as h = Some h' \<and> same_but_remaining h h'"
  using assms
proof (induction as arbitrary: h)
  case (Cons a as)
  obtain u where u: "u \<in> set (subshapes s)" "top u = a" using subshape_of [of a s] Cons.prems by auto
  have "remaining_spec h u (calculateRemaining fuel h (top u))"
    using subshape_facts [OF u(1), of h] Cons.prems by (intro calculateRemaining_spec) auto
  then obtain h1 where h1: "calculateRemaining fuel h a = Some h1" "same_but_remaining h h1"
    using u(2) by (auto simp: remaining_spec_def)
  have "links h1 s" using Cons.prems(1) h1(2) links_cong [of s h1 h] by (simp add: same_but_remainingD)
  from Cons.IH [OF this] Cons.prems obtain h2 where "recalculate fuel as h1 = Some h2" "same_but_remaining h1 h2"
    by auto
  then show ?case using h1 same_but_remaining_trans by auto
qed simp

lemma settled_cong:
  assumes "checked (h' b) = checked (h b)" "priority (h' b) = priority (h b)" "children (h' b) = children (h b)"
    "\<And>x. x \<in> set (children (h b)) \<Longrightarrow> checked (h' x) = checked (h x) \<and> priority (h' x) = priority (h x)"
  shows "settled h' b = settled h b"
proof -
  have "map checked (map h' (children (h b))) = map checked (map h (children (h b)))"
    "map priority (map h' (children (h b))) = map priority (map h (children (h b)))"
    using assms(4) by auto
  then have "desired_state (map h' (children (h b))) = desired_state (map h (children (h b)))"
    by (intro prod_eqI) (simp_all only: desired_priority_common desired_checked_common)
  then show ?thesis unfolding settled_def assms(1-3) by simp
qed

lemma settled_uniform:
  assumes "\<forall>x \<in> insert b (set (children (h b))). checked (h x) = st \<and> priority (h x) = p" "children (h b) \<noteq> []"
  shows "settled h b"
proof -
  obtain x xs where c: "children (h b) = x # xs" using assms(2) by (cases "children (h b)") auto
  have "desired_state (map h (children (h b))) = (st, Some p)"
    using assms(1) by (intro prod_eqI) (simp_all add: desired_priority_common desired_checked_common common_def c)
  then show ?thesis using assms(1) by (simp add: settled_def)
qed

lemma children_outside:
  assumes "links h s" "parented h s" "u \<in> set (subshapes s)" "b \<in> set (addrs s)" "b \<notin> set (addrs u)"
    "parent_of (h (top u)) \<noteq> Some b" "x \<in> set (children (h b))"
  shows "x \<notin> set (addrs u)"
proof
  assume x: "x \<in> set (addrs u)"
  have up: "parent_of (h x) = Some b" using children_parent [OF assms(1,2,4,7)] .
  then have "x \<noteq> top u" using assms(6) by auto
  then obtain p where "p \<in> set (addrs u)" "parent_of (h x) = Some p"
    using parent_in_tree [of h u x] subshape_facts [OF assms(3), of h] assms(1,2) x by auto
  then show False using up assms(5) by simp
qed

lemma subtree_not_top:
  assumes "links h s" "parented h s" "distinct (addrs s)" "u \<in> set (subshapes s)" "top u \<noteq> top s"
  shows "top s \<notin> set (addrs u)"
proof
  assume "top s \<in> set (addrs u)"
  then obtain q where "q \<in> set (addrs u)" "top s \<in> set (children (h q))"
    using parent_in_tree [of h u "top s"] subshape_facts [OF assms(4), of h] assms by auto
  then show False using children_not_top [OF assms(1,3), of q] subshape_facts [OF assms(4)] by auto
qed

lemma lookup_own_ids:
  assumes "holds_tree c s" "set as \<subseteq> set (addrs s) - {top s}"
  shows "lookup_ids c (map (\<lambda>a. rowId (node_at c a)) as) = Some as"
proof -
  have "those (map (\<lambda>a. Option.bind (rowId (node_at c a)) (tree_node c)) as) = Some (map id as)"
  proof (rule those_map_Some)
    fix a
    assume "a \<in> set as"
    then have "a \<in> set (addrs s)" "a \<noteq> top s" using assms(2) by auto
    then show "Option.bind (rowId (node_at c a)) (tree_node c) = Some (id a)"
      using holds_tree_find [OF assms(1)] by fastforce
  qed
  then show ?thesis by (simp add: lookup_ids_def comp_def)
qed

lemma notify_simps [simp]: "torrentFilesTable (notify is p c) = torrentFilesTable c"
    "tree_node (notify is p c) = tree_node c" "node_at (notify is p c) = node_at c"
    "holds_tree (notify is p c) s = holds_tree c s" "settled_except (notify is p c) s x = settled_except c s x"
    "lookup_ids (notify is p c) = lookup_ids c"
  by (simp_all add: notify_def tree_node_def [abs_def] node_at_def [abs_def] holds_tree_def settled_except_def lookup_ids_def [abs_def])

lemma same_but_remaining_state: "same_but_remaining h h' \<Longrightarrow> same_but_state h h'"
  unfolding same_but_remaining_def same_but_state_def
proof
  fix b
  assume "\<forall>b. \<exists>x. h' b = (h b)\<lparr>remaining := x\<rparr>"
  then obtain z where "h' b = (h b)\<lparr>remaining := z\<rparr>" by blast
  then show "\<exists>x y z. h' b = (h b)\<lparr>priority := x, checked := y, remaining := z\<rparr>"
    by (intro exI [of _ "priority (h b)"] exI [of _ "checked (h b)"] exI [of _ z]) simp
qed

lemma same_but_remaining_view:
  assumes "same_but_remaining h h'"
  shows "checked (h' b) = checked (h b)" "priority (h' b) = priority (h b)" "children (h' b) = children (h b)"
proof -
  obtain z where "h' b = (h b)\<lparr>remaining := z\<rparr>" using assms unfolding same_but_remaining_def by blast
  then show "checked (h' b) = checked (h b)" "priority (h' b) = priority (h b)" "children (h' b) = children (h b)" by simp_all
qed

lemma same_but_state_put_all: "same_but_state h (fold (put_priority p) as h)"
proof (induction as arbitrary: h)
  case (Cons a as)
  have "same_but_state h (put_priority p a h)" unfolding put_priority_def by (rule same_but_state_put)
  then show ?case using same_but_state_trans [OF _ Cons.IH] by simp
qed simp

text \<open>Setting a whole subtree leaves only the folder right above it to be settled.\<close>

lemma setFilePriority_subtree:
  assumes ht: "holds_tree c s" and u: "u \<in> set (subshapes s)" "top u \<noteq> top s"
    and st: "settled_except c s None" and fuel: "height s \<le> fuel"
  shows "\<exists>h. setFilePriority fuel (map (\<lambda>a. rowId (node_at c a)) (addrs u)) is p c = Some (set_heap h (notify is p c))
    \<and> same_but_state (heap (torrentFilesTable c)) h \<and> settled_except (set_heap h c) s (parent_of (node_at c (top u)))
    \<and> (\<forall>b \<in> set (addrs u). priority (h b) = p \<and> checked (h b) = triStateFromPriority p)
    \<and> (\<forall>b. b \<notin> set (addrs u) \<longrightarrow> priority (h b) = priority (node_at c b) \<and> checked (h b) = checked (node_at c b))"
proof -
  let ?h = "heap (torrentFilesTable c)" and ?as = "addrs u"
  let ?h1 = "fold (put_priority p) ?as ?h"
  note ht' = ht [unfolded holds_tree_def]
  note sub = subshape_facts [OF u(1), of ?h]
  have "top s \<notin> set ?as" using subtree_not_top [OF _ _ _ u] ht' by blast
  then have look: "lookup_ids c (map (\<lambda>a. rowId (node_at c a)) ?as) = Some ?as"
    using lookup_own_ids [OF ht] sub by auto
  have "same_but_state ?h ?h1" by (rule same_but_state_put_all)
  then have l1: "links ?h1 s" using ht' links_cong [of s ?h1 ?h] by (simp add: same_but_stateD)
  obtain h where h: "recalculate fuel ?as ?h1 = Some h" "same_but_remaining ?h1 h"
    using recalculate_Some [OF l1 _ fuel] sub by blast
  note view = same_but_remaining_view [OF h(2)] fold_put_priority
  have same: "same_but_state ?h h"
    using same_but_state_trans [OF same_but_state_put_all same_but_remaining_state [OF h(2)]] .
  have kids: "children (h b) = children (?h b)" for b using same_but_stateD(2) [OF same] .
  have "settled_except (set_heap h c) s (parent_of (node_at c (top u)))"
    unfolding settled_except_def
  proof (intro ballI impI)
    fix b
    assume b: "b \<in> set (addrs s) - {top s}" "children (node_at (set_heap h c) b) \<noteq> []" "Some b \<noteq> parent_of (node_at c (top u))"
    have "settled h b"
    proof (cases "b \<in> set ?as")
      case True
      then have "set (children (?h b)) \<subseteq> set ?as" using children_below sub ht' by blast
      then have "\<forall>x \<in> insert b (set (children (h b))). checked (h x) = triStateFromPriority p \<and> priority (h x) = p"
        using True by (auto simp: view kids)
      then show ?thesis using b(2) by (intro settled_uniform) auto
    next
      case False
      have "x \<notin> set ?as" if "x \<in> set (children (?h b))" for x
        using children_outside [of ?h s u b x] ht' u(1) b False that by (auto simp: node_at_def)
      then have "settled h b = settled ?h b"
        using False by (intro settled_cong) (auto simp: view kids)
      then show ?thesis using st b kids by (auto simp: settled_except_def node_at_def)
    qed
    then show "settled (heap (torrentFilesTable (set_heap h c))) b" by simp
  qed
  moreover have "setFilePriority fuel (map (\<lambda>a. rowId (node_at c a)) ?as) is p c = Some (set_heap h (notify is p c))"
    by (simp add: setFilePriority_def look h)
  ultimately show ?thesis using same by (intro exI [of _ h]) (simp add: view node_at_def)
qed

lemma folder_of_subtree:
  "links h u \<Longrightarrow> (\<forall>b \<in> set (addrs u). children (h b) \<noteq> [] \<longrightarrow> settled h b) \<Longrightarrow>
     (\<forall>b \<in> set (addrs u). children (h b) = [] \<longrightarrow> checked (h b) = st \<and> priority (h b) = p) \<Longrightarrow>
     checked (h (top u)) = st \<and> priority (h (top u)) = p"
proof (induction u)
  case (Sh a ss)
  show ?case
  proof (cases ss)
    case Nil
    then show ?thesis using Sh.prems by simp
  next
    case (Cons t ts)
    have kids: "checked (h (top t)) = st \<and> priority (h (top t)) = p" if "t \<in> set ss" for t
      using Sh.IH [OF that] Sh.prems that by auto
    have "desired_state (map h (map top ss)) = (st, Some p)"
      using kids by (intro prod_eqI) (simp_all add: desired_priority_common desired_checked_common common_def Cons)
    then show ?thesis using Sh.prems Cons by (simp add: settled_def)
  qed
qed

lemma set_and_propagate_settles:
  assumes ht: "holds_tree c s" and a: "u \<in> set (subshapes s)" "top u \<noteq> top s" "tree_node c r = Some (top u)"
    and st: "settled_except c s None" and fuel: "height s \<le> fuel"
  shows "\<exists>h. set_and_propagate fuel collate r p c =
      updateComplete fuel collate (set_heap h (notify (map (\<lambda>a. fileId (node_at c a)) (addrs u)) p c))
    \<and> same_but_state (heap (torrentFilesTable c)) h \<and> settled_except (set_heap h c) s None
    \<and> (\<forall>b \<in> set (addrs u). children (h b) = [] \<longrightarrow> priority (h b) = p \<and> checked (h b) = triStateFromPriority p)
    \<and> (\<forall>b. b \<notin> set (addrs u) \<and> children (h b) = [] \<longrightarrow>
         priority (h b) = priority (node_at c b) \<and> checked (h b) = checked (node_at c b))"
proof -
  let ?h = "heap (torrentFilesTable c)" and ?is = "map (\<lambda>a. fileId (node_at c a)) (addrs u)"
  note ht' = ht [unfolded holds_tree_def]
  note sub = subshape_facts [OF a(1), of ?h]
  have all: "getAllChildren fuel c r = Some (map (\<lambda>a. rowId (node_at c a)) (addrs u), ?is)"
    using a(3) sub ht' fuel by (intro getAllChildren_addrs) auto
  obtain h1 where h1: "setFilePriority fuel (map (\<lambda>a. rowId (node_at c a)) (addrs u)) ?is p c = Some (set_heap h1 (notify ?is p c))"
      "same_but_state ?h h1" "settled_except (set_heap h1 c) s (parent_of (node_at c (top u)))"
      "\<forall>b \<in> set (addrs u). priority (h1 b) = p \<and> checked (h1 b) = triStateFromPriority p"
      "\<forall>b. b \<notin> set (addrs u) \<longrightarrow> priority (h1 b) = priority (node_at c b) \<and> checked (h1 b) = checked (node_at c b)"
    using setFilePriority_subtree [OF ht a(1,2) st fuel] by blast
  let ?c = "set_heap h1 (notify ?is p c)"
  have ht1: "holds_tree ?c s" using holds_tree_set_heap [of "notify ?is p c" s h1] ht h1(2) by simp
  have top: "top u \<in> set (addrs s)" using sub top_in_addrs by blast
  obtain n where n: "chain ?h (top s) (top u) n" "n < height s"
    using chain_in_tree [OF _ _ top a(2)] ht' by blast
  have "chain h1 (top s) (top u) n" using n(1) chain_cong [of h1 ?h] same_but_stateD(3) [OF h1(2)] by blast
  moreover have "settled_except ?c s (parent_of (node_at ?c (top u)))"
    using h1(3) same_but_stateD(3) [OF h1(2)] by (simp add: settled_except_def) (simp add: node_at_def)
  ultimately obtain h where h: "climb fuel r ?c = Some (set_heap h ?c)" "same_but_state h1 h"
      "settled_except (set_heap h ?c) s None" "\<forall>b. children (node_at ?c b) = [] \<longrightarrow> h b = node_at ?c b"
    using climb_correct [of ?c s "top u" n r fuel] ht1 top a(2,3) n(2) fuel by auto
  have set: "set_heap h ?c = set_heap h (notify ?is p c)" by (simp add: set_heap_def)
  have leaf: "h b = h1 b" if "children (h b) = []" for b
    using h(4) same_but_stateD(2) [OF h(2), of b] that by simp
  have "set_and_propagate fuel collate r p c = updateComplete fuel collate (set_heap h (notify ?is p c))"
    using all h1(1) h(1) by (simp add: set_and_propagate_def updateParentFolder_def set)
  moreover have "settled_except (set_heap h c) s None" using h(3) by (simp add: settled_except_def)
  ultimately show ?thesis
    using same_but_state_trans [OF h1(2) h(2)] h1(4,5) leaf by (intro exI [of _ h]) metis
qed

lemma subshape_state:
  assumes "links h u" "\<forall>b \<in> set (addrs u). children (h b) \<noteq> [] \<longrightarrow> settled h b"
    "\<forall>b \<in> set (addrs u). children (h b) = [] \<longrightarrow> priority (h b) = p \<and> checked (h b) = st" "b \<in> set (addrs u)"
  shows "priority (h b) = p \<and> checked (h b) = st"
proof -
  obtain v where v: "v \<in> set (subshapes u)" "top v = b" using subshape_of [OF assms(4)] by auto
  have "set (addrs v) \<subseteq> set (addrs u)" "links h v" using subshape_facts [OF v(1), of h] assms(1) by auto
  then have "checked (h (top v)) = st \<and> priority (h (top v)) = p"
    using assms(2,3) by (intro folder_of_subtree) auto
  then show ?thesis using v(2) by simp
qed

text \<open>
  C3: A click on the check box of a file or folder. When every folder below the root shows the
  state of its children, the handler returns up to the closing \<open>updateComplete\<close>; the server is
  told the ids of the whole subtree; every node of the subtree gets the priority and its check
  state, every file outside keeps its own, and again every folder below the root shows the
  common state of its children, or partial and mixed.
\<close>

theorem fileCheckboxClicked_settles:
  assumes "holds_tree c s" and "u \<in> set (subshapes s)" and "top u \<noteq> top s" and "tree_node c r = Some (top u)"
    and "settled_except c s None" and "height s \<le> fuel"
    and "p = (if isChecked then Normal else Ignored)"
  shows "\<exists>h. fileCheckboxClicked fuel collate isChecked r c =
      updateComplete fuel collate (set_heap h (notify (map (\<lambda>a. fileId (node_at c a)) (addrs u)) p c))
    \<and> settled_except (set_heap h c) s None
    \<and> (\<forall>b \<in> set (addrs u). priority (h b) = p \<and> checked (h b) = triStateFromPriority p)
    \<and> (\<forall>b. children (h b) = children (node_at c b))
    \<and> (\<forall>b. b \<notin> set (addrs u) \<and> children (node_at c b) = [] \<longrightarrow>
         priority (h b) = priority (node_at c b) \<and> checked (h b) = checked (node_at c b))"
proof -
  note sub = subshape_facts [OF assms(2), of "heap (torrentFilesTable c)"]
  note ht = assms(1) [unfolded holds_tree_def]
  obtain h where h: "set_and_propagate fuel collate r p c =
        updateComplete fuel collate (set_heap h (notify (map (\<lambda>a. fileId (node_at c a)) (addrs u)) p c))"
      "same_but_state (heap (torrentFilesTable c)) h" "settled_except (set_heap h c) s None"
      "\<forall>b \<in> set (addrs u). children (h b) = [] \<longrightarrow> priority (h b) = p \<and> checked (h b) = triStateFromPriority p"
      "\<forall>b. b \<notin> set (addrs u) \<and> children (h b) = [] \<longrightarrow>
         priority (h b) = priority (node_at c b) \<and> checked (h b) = checked (node_at c b)"
    using set_and_propagate_settles [OF assms(1-6), where p = p] by blast
  have "links h u" using sub ht links_cong [of u h "heap (torrentFilesTable c)"] by (simp add: same_but_stateD [OF h(2)])
  moreover have "top s \<notin> set (addrs u)" using subtree_not_top [OF _ _ _ assms(2,3)] ht by blast
  then have "\<forall>b \<in> set (addrs u). children (h b) \<noteq> [] \<longrightarrow> settled h b"
    using h(3) sub by (auto simp: settled_except_def)
  ultimately have "\<forall>b \<in> set (addrs u). priority (h b) = p \<and> checked (h b) = triStateFromPriority p"
    using subshape_state [of h u p "triStateFromPriority p"] h(4) by blast
  moreover have kids: "\<forall>b. children (h b) = children (node_at c b)" using same_but_stateD(2) [OF h(2)] by (simp add: node_at_def)
  moreover have "\<forall>b. b \<notin> set (addrs u) \<and> children (node_at c b) = [] \<longrightarrow>
         priority (h b) = priority (node_at c b) \<and> checked (h b) = checked (node_at c b)"
    using h(5) kids by metis
  ultimately show ?thesis using h(1,3) assms(7) by (intro exI [of _ h]) (simp add: fileCheckboxClicked_def)
qed

definition ex_content :: content where
  "ex_content = \<lparr>torrentFilesTable = ex_ft\<lparr>
       heap := (\<lambda>a. if a = 0 then new_FolderNode\<lparr>children := [1, 2]\<rparr>
         else if a = 1 then new_FileNode\<lparr>fileId := 0, rowId := Some 7, parent_of := Some 0, checked := Checked\<rparr>
         else if a = 2 then new_FolderNode\<lparr>children := [3], rowId := Some 8, parent_of := Some 0, checked := Checked\<rparr>
         else new_FileNode\<lparr>fileId := 1, rowId := Some 9, parent_of := Some 2, checked := Checked\<rparr>),
       fileTree := \<lparr>tree_root = Some 0, nodeMap = [7 \<mapsto> 1, 8 \<mapsto> 2, 9 \<mapsto> 3]\<rparr>\<rparr>,
     has_handler = True, sent = []\<rparr>"

lemma ex_content_simps:
  "ft_root (torrentFilesTable ex_content) = Some 0" "tree_node ex_content 7 = Some 1" "tree_node ex_content 8 = Some 2"
  "tree_node ex_content 9 = Some 3" "node_at ex_content = heap (torrentFilesTable ex_content)"
  by (simp_all add: ex_content_def ft_root_def tree_node_def getNode_def node_at_def [abs_def])

lemma ex_content_heap: "heap (torrentFilesTable ex_content) = (\<lambda>a.
         if a = 0 then new_FolderNode\<lparr>children := [1, 2]\<rparr>
         else if a = 1 then new_FileNode\<lparr>fileId := 0, rowId := Some 7, parent_of := Some 0, checked := Checked\<rparr>
         else if a = 2 then new_FolderNode\<lparr>children := [3], rowId := Some 8, parent_of := Some 0, checked := Checked\<rparr>
         else new_FileNode\<lparr>fileId := 1, rowId := Some 9, parent_of := Some 2, checked := Checked\<rparr>)"
  by (simp add: ex_content_def)

lemmas ex_content_defs = ex_content_simps ex_content_heap ex_shape_def new_FolderNode_def new_FileNode_def

lemma ex_content_state: "holds_tree ex_content ex_shape" "settled_except ex_content ex_shape None"
    "Sh 3 [] \<in> set (subshapes ex_shape)" "top (Sh 3 []) \<noteq> top ex_shape" "height ex_shape \<le> 3"
  by (simp_all add: holds_tree_def ex_content_defs)
    (auto simp: settled_except_def settled_def prod_eq_iff desired_priority_common desired_checked_common common_def
      ex_content_defs)

theorem fileCheckboxClicked_settles_witness:
  "\<exists>h. fileCheckboxClicked 3 (\<lambda>s t. int (length s) - int (length t)) False 9 ex_content =
      updateComplete 3 (\<lambda>s t. int (length s) - int (length t)) (set_heap h (notify [1] Ignored ex_content))
    \<and> checked (h 3) = Unchecked \<and> priority (h 1) = Normal \<and> settled h 2"
proof -
  obtain h where h: "fileCheckboxClicked 3 (\<lambda>s t. int (length s) - int (length t)) False 9 ex_content =
      updateComplete 3 (\<lambda>s t. int (length s) - int (length t)) (set_heap h (notify [1] Ignored ex_content))"
    "settled_except (set_heap h ex_content) ex_shape None" "checked (h 3) = Unchecked"
    "\<forall>b. children (h b) = children (node_at ex_content b)" "priority (h 1) = priority (node_at ex_content 1)"
    using fileCheckboxClicked_settles [where c = ex_content and s = ex_shape and u = "Sh 3 []" and r = 9 and fuel = 3
        and p = Ignored and isChecked = False and collate = "\<lambda>s t. int (length s) - int (length t)", OF ex_content_state(1,3,4) _ ex_content_state(2,5)]
    by (auto simp: ex_content_defs)
  have "settled h 2" using h(2,4) by (simp add: settled_except_def ex_shape_def ex_content_defs)
  then show ?thesis using h(1,3,5) by (intro exI [of _ h]) (simp add: ex_content_defs)
qed

end
