(* ===== verification/ContentRows.thy ===== *)
theory ContentRows
  imports TorrentContent
begin

text \<open>
  \<open>updateData\<close> and \<open>addRowsToTable\<close> of \<open>torrent-content.js\<close>: the tree that is built from the
  server's list of files. Every update allots the nodes afresh, from address 0; the nodes of the
  tree it replaces are unreachable.
\<close>

section \<open>The rows of a list of files\<close>

record file_info =
  fi_name :: string
  fi_size :: rat
  fi_progress :: rat
  fi_priority :: rat
  fi_availability :: rat

record content_row =
  cr_fileId :: int
  cr_checked :: TriState
  cr_fileName :: string
  cr_name :: string
  cr_size :: rat
  cr_progress :: string
  cr_priority :: FilePriority
  cr_availability :: rat

definition content_row_of :: "file_info \<Rightarrow> nat \<Rightarrow> content_row" where
  "content_row_of file index =
     (let ignore = (fi_priority file = of_int (priority_code Ignored))
      in \<lparr>cr_fileId = int index, cr_checked = (if ignore then Unchecked else Checked), cr_fileName = fi_name file,
          cr_name = fileName (fi_name file), cr_size = fi_size file,
          cr_progress = toFixedPointString (Some (fi_progress file * 100)) 1,
          cr_priority = normalizePriority (JNum (fi_priority file)), cr_availability = fi_availability file\<rparr>)"

section \<open>Building the tree\<close>

record builder =
  b_store :: store
  b_next :: addr
  b_row :: nat

text \<open>A new node takes the next address and the next row id, and becomes a child of \<open>p\<close>; a
  \<open>FileNode\<close> has no \<open>addChild\<close>.\<close>

definition attach :: "node \<Rightarrow> addr \<Rightarrow> builder \<Rightarrow> (addr \<times> builder) option" where
  "attach n p b =
     (if isFolder (b_store b p)
      then map_option (\<lambda>h. (b_next b, \<lparr>b_store = h, b_next = Suc (b_next b), b_row = Suc (b_row b)\<rparr>))
             (addChild 1 ((b_store b)(b_next b := n\<lparr>rowId := Some (b_row b), root := Some p\<rparr>)) p (b_next b))
      else None)"

definition find_child :: "string \<Rightarrow> addr \<Rightarrow> builder \<Rightarrow> addr option" where
  "find_child fname p b = find (\<lambda>a. name (b_store b a) = fname) (children (b_store b p))"

definition new_folder :: "string \<Rightarrow> addr \<Rightarrow> builder \<Rightarrow> node" where
  "new_folder fname p b = new_FolderNode\<lparr>name := fname,
     path := (let pp = path (b_store b p) in if pp = [] then fname else js_join [PathSeparator] [pp, fname])\<rparr>"

fun walk_folders :: "string list \<Rightarrow> addr \<Rightarrow> builder \<Rightarrow> (addr \<times> builder) option" where
  "walk_folders [] p b = Some (p, b)"
| "walk_folders (f # fs) p b =
     (if f = ''.unwanted'' then walk_folders fs p b
      else case find_child f p b of
             Some a \<Rightarrow> walk_folders fs a b
           | None \<Rightarrow> (case attach (new_folder f p b) p b of
                         None \<Rightarrow> None
                       | Some (a, b') \<Rightarrow> walk_folders fs a b'))"

text \<open>A progress text that reads as \<open>NaN\<close> (see \<open>toFixedPointString\<close>) is outside the model of a
  node and gives \<open>None\<close>.\<close>

definition add_content_row :: "content_row \<Rightarrow> builder \<Rightarrow> builder option" where
  "add_content_row row b =
     (case js_Number (cr_progress row) of
        None \<Rightarrow> None
      | Some pr \<Rightarrow>
          (case walk_folders (butlast (js_split [PathSeparator] (cr_fileName row))) 0 b of
             None \<Rightarrow> None
           | Some (p, b) \<Rightarrow>
               map_option snd (attach (new_FileNode\<lparr>name := cr_name row, path := cr_fileName row, fileId := cr_fileId row,
                 size_of := cr_size row, checked := cr_checked row, progress := pr, priority := cr_priority row,
                 availability := cr_availability row\<rparr>) p b)))"

definition new_builder :: builder where
  "new_builder = \<lparr>b_store = (\<lambda>_. new_FolderNode), b_next = 1, b_row = 0\<rparr>"

fun build_rows :: "content_row list \<Rightarrow> builder \<Rightarrow> builder option" where
  "build_rows [] b = Some b"
| "build_rows (row # rs) b = Option.bind (add_content_row row b) (build_rows rs)"

definition addRowsToTable :: "nat \<Rightarrow> string cmp \<Rightarrow> content_row list \<Rightarrow> content \<Rightarrow> content option" where
  "addRowsToTable fuel collate rs c =
     (let selectedFiles = selectedRows (base (torrentFilesTable c))
      in case build_rows rs new_builder of
           None \<Rightarrow> None
         | Some b \<Rightarrow>
             (case populateTable fuel 0 ((torrentFilesTable c)\<lparr>heap := b_store b\<rparr>) of
                None \<Rightarrow> None
              | Some ft \<Rightarrow>
                  map_option (\<lambda>ft. c\<lparr>torrentFilesTable := (if selectedFiles = [] then ft
                      else ft\<lparr>base := reselectRows selectedFiles (base ft)\<rparr>)\<rparr>)
                    (ft_updateTable fuel collate False ft)))"

definition updateData :: "nat \<Rightarrow> string cmp \<Rightarrow> file_info list \<Rightarrow> content \<Rightarrow> content option" where
  "updateData fuel collate files c =
     (let rs = map (\<lambda>(file, index). content_row_of file index) (zip files [0..<length files])
      in case addRowsToTable fuel collate rs c of
           None \<Rightarrow> None
         | Some c \<Rightarrow> map_option (\<lambda>ft. c\<lparr>torrentFilesTable := ft\<rparr>) (updateHeaderCheckbox fuel (torrentFilesTable c)))"

section \<open>What is built is a tree\<close>

fun grow :: "addr \<Rightarrow> addr \<Rightarrow> shape \<Rightarrow> shape" where
  "grow p a (Sh b ss) = Sh b (map (grow p a) ss @ (if b = p then [Sh a []] else []))"

lemma top_grow [simp]: "top (grow p a s) = top s"
  by (cases s) simp

lemma grow_id: "p \<notin> set (addrs s) \<Longrightarrow> grow p a s = s"
  by (induction s) (auto intro: map_idI)

lemma mset_grow:
  "p \<in> set (addrs s) \<Longrightarrow> distinct (addrs s) \<Longrightarrow> mset (addrs (grow p a s)) = add_mset a (mset (addrs s))"
proof (induction s)
  case (Sh b ss)
  show ?case
  proof (cases "b = p")
    case True
    have "map (grow p a) ss = ss" using Sh.prems True by (intro map_idI) (auto intro: grow_id)
    then show ?thesis using True by simp
  next
    case False
    obtain t where t: "t \<in> set ss" "p \<in> set (addrs t)" using Sh.prems False by auto
    obtain xs ys where ss: "ss = xs @ t # ys" using t(1) by (meson split_list)
    have "map (grow p a) xs = xs" "map (grow p a) ys = ys"
      using Sh.prems(2) t(2) unfolding ss by (auto intro!: map_idI grow_id)
    moreover have "distinct (addrs t)" using Sh.prems(2) unfolding ss by simp
    ultimately show ?thesis using Sh.IH [OF t(1,2)] False unfolding ss by simp
  qed
qed

definition grown :: "store \<Rightarrow> addr \<Rightarrow> addr \<Rightarrow> node \<Rightarrow> store" where
  "grown h p a n = (h(a := n))(p := (h p)\<lparr>children := children (h p) @ [a]\<rparr>)"

lemma links_grown:
  "links h s \<Longrightarrow> distinct (addrs s) \<Longrightarrow> a \<notin> set (addrs s) \<Longrightarrow> children n = [] \<Longrightarrow> isFolder (h p) \<Longrightarrow> a \<noteq> p \<Longrightarrow>
     links (grown h p a n) (grow p a s)"
proof (induction s)
  case (Sh b ss)
  have "links (grown h p a n) (grow p a t)" if "t \<in> set ss" for t
    using Sh that by (auto simp: distinct_concat_iff)
  moreover have "children (grown h p a n b) = map top ss @ (if b = p then [a] else [])"
    "isFolder (grown h p a n b)  = isFolder (h b)"
    using Sh.prems by (auto simp: grown_def)
  moreover have "links (grown h p a n) (Sh a [])" using Sh.prems by (simp add: grown_def)
  ultimately show ?case using Sh.prems by auto
qed

section \<open>What the builder keeps\<close>

text \<open>The path a chain of folder names gives, and the names that lead to a row's file.\<close>

definition add_path :: "string \<Rightarrow> string \<Rightarrow> string" where
  "add_path pp f = (if pp = [] then f else js_join [PathSeparator] [pp, f])"

definition row_folders :: "content_row \<Rightarrow> string list" where
  "row_folders row = filter (\<lambda>f. f \<noteq> ''.unwanted'') (butlast (js_split [PathSeparator] (cr_fileName row)))"

definition row_trail :: "content_row \<Rightarrow> string list" where
  "row_trail row = row_folders row @ [cr_name row]"

definition row_content where
  "row_content row = (cr_name row, cr_fileName row, cr_fileId row, cr_size row, cr_checked row,
     js_Number (cr_progress row), cr_priority row, cr_availability row)"

definition node_content where
  "node_content n = (name n, path n, fileId n, size_of n, checked n, Some (progress n), priority n, availability n)"

definition files_of :: "builder \<Rightarrow> addr list" where
  "files_of b = filter (\<lambda>a. \<not> isFolder (b_store b a)) [0..<b_next b]"

text \<open>\<open>t\<close> gives every node the names on its way from the root.\<close>

definition node_ok :: "store \<Rightarrow> (addr \<Rightarrow> string list) \<Rightarrow> addr \<Rightarrow> bool" where
  "node_ok h t a \<longleftrightarrow> (\<exists>p < a. root (h a) = Some p \<and> isFolder (h p) \<and> a \<in> set (children (h p))
     \<and> t a = t p @ [name (h a)] \<and> rowId (h a) = Some (a - 1)
     \<and> (isFolder (h a) \<longrightarrow> path (h a) = foldl add_path [] (t a)))"

definition built :: "builder \<Rightarrow> (addr \<Rightarrow> string list) \<Rightarrow> shape \<Rightarrow> bool" where
  "built b t s \<longleftrightarrow> links (b_store b) s \<and> top s = 0 \<and> mset (addrs s) = mset [0..<b_next b] \<and> 0 < b_next b
     \<and> b_row b = b_next b - 1 \<and> isFolder (b_store b 0) \<and> path (b_store b 0) = [] \<and> t 0 = []
     \<and> (\<forall>a \<in> {1..<b_next b}. node_ok (b_store b) t a)
     \<and> (\<forall>p < b_next b. \<forall>a \<in> set (children (b_store b p)). 0 < a \<and> a < b_next b \<and> root (b_store b a) = Some p)
     \<and> inj_on t {a. a < b_next b \<and> isFolder (b_store b a)}"

lemma built_addrs: "built b t s \<Longrightarrow> set (addrs s) = {0..<b_next b} \<and> distinct (addrs s)"
proof -
  assume "built b t s"
  then have m: "mset (addrs s) = mset [0..<b_next b]" by (simp add: built_def)
  from mset_eq_setD [OF m] mset_eq_imp_distinct_iff [OF m] show ?thesis by simp
qed

lemma attach_eq:
  assumes "isFolder (b_store b p)" "p \<noteq> b_next b" "children n = []"
  shows "attach n p b = Some (b_next b, \<lparr>b_store = grown (b_store b) p (b_next b)
      (n\<lparr>rowId := Some (b_row b), root := Some p, remaining := (if isFolder n then 0 else file_remaining n)\<rparr>),
    b_next = Suc (b_next b), b_row = Suc (b_row b)\<rparr>)"
  using assms by (simp add: attach_def addChild_def grown_def file_remaining_def isIgnored_def fun_upd_twist)

lemma node_ok_grown:
  assumes "node_ok h t a" "a < k" "p < k"
  shows "node_ok (grown h p k n) (t(k := x)) a"
proof -
  obtain q where "q < a" "root (h a) = Some q" "isFolder (h q)" "a \<in> set (children (h q))" "t a = t q @ [name (h a)]"
    "rowId (h a) = Some (a - 1)" "isFolder (h a) \<longrightarrow> path (h a) = foldl add_path [] (t a)"
    using assms(1) by (auto simp: node_ok_def)
  then show ?thesis unfolding node_ok_def using assms(2,3) by (intro exI [of _ q]) (auto simp: grown_def)
qed

lemma built_attach:
  assumes b: "built b t s" and p: "p < b_next b" "isFolder (b_store b p)" and n: "children n = []"
    and folder: "isFolder n \<Longrightarrow> path n = foldl add_path [] (t p @ [name n])"
    and new: "isFolder n \<Longrightarrow> name n \<notin> (name \<circ> b_store b) ` set (children (b_store b p))"
  shows "\<exists>b'. attach n p b = Some (b_next b, b') \<and> b_next b' = Suc (b_next b)
    \<and> built b' (t(b_next b := t p @ [name n])) (grow p (b_next b) s)
    \<and> isFolder (b_store b' (b_next b)) = isFolder n \<and> node_content (b_store b' (b_next b)) = node_content n
    \<and> (\<forall>a < b_next b. isFolder (b_store b' a) = isFolder (b_store b a) \<and> node_content (b_store b' a) = node_content (b_store b a))"
proof -
  let ?k = "b_next b" and ?h = "b_store b" and ?t = "t(b_next b := t p @ [name n])"
  define n' where "n' = n\<lparr>rowId := Some (b_row b), root := Some p, remaining := (if isFolder n then 0 else file_remaining n)\<rparr>"
  define h' where "h' = grown ?h p ?k n'"
  have new': "rowId n' = Some (b_row b)" "root n' = Some p" "children n' = []" "isFolder n' = isFolder n"
    "name n' = name n" "path n' = path n" "node_content n' = node_content n"
    using n by (simp_all add: n'_def node_content_def)
  let ?b = "\<lparr>b_store = h', b_next = Suc ?k, b_row = Suc (b_row b)\<rparr>"
  note b' = b [unfolded built_def] and addrs = built_addrs [OF b]
  have view: "h' a = (if a = p then (?h p)\<lparr>children := children (?h p) @ [?k]\<rparr> else if a = ?k then n' else ?h a)" for a
    using p(1) by (simp add: h'_def grown_def)
  have "links h' (grow p ?k s)" unfolding h'_def using b' addrs p new' by (intro links_grown) auto
  moreover have "mset (addrs (grow p ?k s)) = mset [0..<Suc ?k]"
    using mset_grow [of p s ?k] b' addrs p(1) by simp
  moreover have "\<forall>a \<in> {1..<Suc ?k}. node_ok h' ?t a"
  proof
    fix a
    assume a: "a \<in> {1..<Suc ?k}"
    show "node_ok h' ?t a"
    proof (cases "a = ?k")
      case True
      have "node_ok h' ?t ?k" unfolding node_ok_def
        using p folder b' new' by (intro exI [of _ p]) (auto simp: view)
      then show ?thesis using True by simp
    next
      case False
      then show ?thesis unfolding h'_def using b' a p(1) by (intro node_ok_grown) auto
    qed
  qed
  moreover have "\<forall>q < Suc ?k. \<forall>a \<in> set (children (h' q)). 0 < a \<and> a < Suc ?k \<and> root (h' a) = Some q"
    using b' p(1) new' by (auto simp: view less_Suc_eq)
  moreover have "inj_on ?t {a. a < Suc ?k \<and> isFolder (h' a)}"
  proof -
    have inj: "inj_on t {a. a < ?k \<and> isFolder (?h a)}" using b' by blast
    have old: "?t a \<noteq> t p @ [name n]" if a: "a < ?k" "isFolder (?h a)" "isFolder n" for a
    proof
      assume eq: "?t a = t p @ [name n]"
      then have ta: "t a = t p @ [name n]" using a(1) by simp
      have "a \<noteq> 0" using ta b' by (intro notI) simp
      then have "node_ok ?h t a" using b' a(1) by simp
      then obtain q where q: "q < a" "isFolder (?h q)" "a \<in> set (children (?h q))" "t a = t q @ [name (?h a)]"
        unfolding node_ok_def by blast
      then have "t q = t p" "name (?h a) = name n" using ta by simp_all
      then have "q = p" using inj p q(1,2) a(1) by (intro inj_onD [of t]) auto
      then show False using new [OF a(3)] q(3) \<open>name (?h a) = name n\<close> by force
    qed
    have fold: "isFolder (h' a) \<longleftrightarrow> (if a = ?k then isFolder n else isFolder (?h a))" for a
      using p new' by (auto simp: view)
    show ?thesis
    proof (rule inj_onI)
      fix x y
      assume xy: "x \<in> {a. a < Suc ?k \<and> isFolder (h' a)}" "y \<in> {a. a < Suc ?k \<and> isFolder (h' a)}" "?t x = ?t y"
      show "x = y"
        using xy old [of x] old [of y] inj unfolding inj_on_def
        by (cases "x = ?k"; cases "y = ?k") (auto simp: fold less_Suc_eq)
    qed
  qed
  ultimately have "built ?b ?t (grow p ?k s)"
    using b' p by (simp add: built_def view)
  moreover have "attach n p b = Some (?k, ?b)" unfolding h'_def n'_def using p n by (intro attach_eq) auto
  ultimately show ?thesis
    using p new' by (intro exI [of _ ?b]) (auto simp: view, auto simp: node_content_def)
qed

text \<open>\<open>b'\<close> comes from \<open>b\<close> by adding folders.\<close>

definition extends :: "builder \<Rightarrow> (addr \<Rightarrow> string list) \<Rightarrow> builder \<Rightarrow> (addr \<Rightarrow> string list) \<Rightarrow> bool" where
  "extends b t b' t' \<longleftrightarrow> b_next b \<le> b_next b'
     \<and> (\<forall>a < b_next b. t' a = t a \<and> isFolder (b_store b' a) = isFolder (b_store b a)
          \<and> node_content (b_store b' a) = node_content (b_store b a))
     \<and> (\<forall>a \<in> {b_next b..<b_next b'}. isFolder (b_store b' a))"

lemma extends_refl [simp]: "extends b t b t"
  by (simp add: extends_def)

lemma extends_trans: "extends b t b1 t1 \<Longrightarrow> extends b1 t1 b2 t2 \<Longrightarrow> extends b t b2 t2"
  unfolding extends_def by (metis (no_types, lifting) atLeastLessThan_iff leI le_trans order_less_le_trans)

definition no_file_on :: "builder \<Rightarrow> (addr \<Rightarrow> string list) \<Rightarrow> string list \<Rightarrow> bool" where
  "no_file_on b t ns \<longleftrightarrow> (\<forall>a \<in> set (files_of b). \<not> prefix (t a) ns)"

lemma no_file_on_extends: "extends b t b' t' \<Longrightarrow> no_file_on b t ns \<Longrightarrow> no_file_on b' t' ns"
  unfolding extends_def no_file_on_def files_of_def by auto

lemma find_Some_iff_in: "find P xs = Some x \<Longrightarrow> P x \<and> x \<in> set xs"
  by (auto simp: find_Some_iff)

lemma walk_folders_ok:
  assumes "built b t s" "p < b_next b" "isFolder (b_store b p)"
    and "no_file_on b t (t p @ filter (\<lambda>f. f \<noteq> ''.unwanted'') fs)"
  shows "\<exists>q b' t' s'. walk_folders fs p b = Some (q, b') \<and> built b' t' s' \<and> q < b_next b' \<and> isFolder (b_store b' q)
    \<and> t' q = t p @ filter (\<lambda>f. f \<noteq> ''.unwanted'') fs \<and> extends b t b' t'"
  using assms
proof (induction fs arbitrary: p b t s)
  case Nil
  then show ?case by (intro exI [of _ p] exI [of _ b] exI [of _ t] exI [of _ s]) simp
next
  case (Cons f fs)
  note b = Cons.prems(1) [unfolded built_def]
  show ?case
  proof (cases "f = ''.unwanted''")
    case True
    then show ?thesis using Cons.IH [OF Cons.prems(1-3)] Cons.prems(4) by simp
  next
    case unwanted: False
    show ?thesis
    proof (cases "find_child f p b")
      case (Some a)
      then have a: "name (b_store b a) = f" "a \<in> set (children (b_store b p))"
        unfolding find_child_def by (auto dest: find_Some_iff_in)
      then have an: "0 < a" "a < b_next b" "root (b_store b a) = Some p" using b Cons.prems(2) by auto
      then have "node_ok (b_store b) t a" using b by simp
      then have ta: "t a = t p @ [f]" using an(3) a(1) by (auto simp: node_ok_def)
      have "isFolder (b_store b a)"
      proof (rule ccontr)
        assume "\<not> isFolder (b_store b a)"
        then have "a \<in> set (files_of b)" using an by (simp add: files_of_def)
        then show False using Cons.prems(4) ta unwanted by (auto simp: no_file_on_def prefix_def)
      qed
      then show ?thesis
        using Cons.IH [OF Cons.prems(1) an(2)] Cons.prems(4) ta unwanted Some by simp
    next
      case None
      let ?n = "new_folder f p b"
      have n: "children ?n = []" "isFolder ?n" "name ?n = f" by (simp_all add: new_folder_def new_FolderNode_def new_FileNode_def)
      have "path (b_store b p) = foldl add_path [] (t p)"
        using b Cons.prems(2,3) by (cases "p = 0") (auto simp: node_ok_def)
      then have path: "path ?n = foldl add_path [] (t p @ [name ?n])"
        using n(3) by (simp add: new_folder_def add_path_def Let_def)
      have "name ?n \<notin> (name \<circ> b_store b) ` set (children (b_store b p))"
        using None n(3) by (auto simp: find_child_def find_None_iff)
      then obtain b1 where b1: "attach ?n p b = Some (b_next b, b1)" "b_next b1 = Suc (b_next b)"
          "built b1 (t(b_next b := t p @ [f])) (grow p (b_next b) s)" "isFolder (b_store b1 (b_next b))"
          "\<forall>a < b_next b. isFolder (b_store b1 a) = isFolder (b_store b a) \<and> node_content (b_store b1 a) = node_content (b_store b a)"
        using built_attach [OF Cons.prems(1-3) n(1)] path n(2,3) by auto
      let ?t = "t(b_next b := t p @ [f])"
      have e: "extends b t b1 ?t" using b1(2,4,5) by (auto simp: extends_def less_Suc_eq)
      have "no_file_on b1 ?t (?t (b_next b) @ filter (\<lambda>f. f \<noteq> ''.unwanted'') fs)"
        using no_file_on_extends [OF e Cons.prems(4)] unwanted by simp
      from Cons.IH [OF b1(3) _ b1(4) this] b1(2)
      obtain q b' t' s' where "walk_folders fs (b_next b) b1 = Some (q, b')" "built b' t' s'" "q < b_next b'"
          "isFolder (b_store b' q)" "t' q = ?t (b_next b) @ filter (\<lambda>f. f \<noteq> ''.unwanted'') fs" "extends b1 ?t b' t'"
        unfolding b1(2) by blast
      then show ?thesis
        using extends_trans [OF e] None unwanted b1(1)
        by (intro exI [of _ q] exI [of _ b'] exI [of _ t'] exI [of _ s']) simp
    qed
  qed
qed

lemma files_of_extends:
  assumes "extends b t b' t'"
  shows "files_of b' = files_of b" "map t' (files_of b) = map t (files_of b)"
    "map (node_content \<circ> b_store b') (files_of b) = map (node_content \<circ> b_store b) (files_of b)"
proof -
  have le: "b_next b \<le> b_next b'" using assms by (simp add: extends_def)
  have "[0..<b_next b'] = [0..<b_next b] @ [b_next b..<b_next b']"
    using upt_add_eq_append [of 0 "b_next b" "b_next b' - b_next b"] le by simp
  moreover have "filter (\<lambda>a. \<not> isFolder (b_store b' a)) [b_next b..<b_next b'] = []"
    using assms by (auto simp: extends_def filter_empty_conv)
  moreover have "filter (\<lambda>a. \<not> isFolder (b_store b' a)) [0..<b_next b] = files_of b"
    unfolding files_of_def using assms by (intro filter_cong) (auto simp: extends_def)
  ultimately show "files_of b' = files_of b" by (simp add: files_of_def)
  show "map t' (files_of b) = map t (files_of b)"
    "map (node_content \<circ> b_store b') (files_of b) = map (node_content \<circ> b_store b) (files_of b)"
    using assms by (auto simp: extends_def files_of_def)
qed

definition file_view where
  "file_view b t = map (\<lambda>a. (t a, node_content (b_store b a))) (files_of b)"

lemma file_view_extends: "extends b t b' t' \<Longrightarrow> file_view b' t' = file_view b t"
  unfolding file_view_def by (simp add: files_of_extends(1)) (auto simp: extends_def files_of_def)

lemma add_content_row_ok:
  assumes b: "built b t s" and free: "no_file_on b t (row_folders row)" and pr: "js_Number (cr_progress row) \<noteq> None"
  shows "\<exists>b' t' s'. add_content_row row b = Some b' \<and> built b' t' s'
    \<and> file_view b' t' = file_view b t @ [(row_trail row, row_content row)]"
proof -
  obtain x where x: "js_Number (cr_progress row) = Some x" using pr by blast
  have "0 < b_next b" "isFolder (b_store b 0)" "t 0 = []" using b by (auto simp: built_def)
  from walk_folders_ok [OF b this(1,2), of "butlast (js_split [PathSeparator] (cr_fileName row))"] free this(3)
  obtain q b1 t1 s1 where q: "walk_folders (butlast (js_split [PathSeparator] (cr_fileName row))) 0 b = Some (q, b1)"
      "built b1 t1 s1" "q < b_next b1" "isFolder (b_store b1 q)" "t1 q = row_folders row" "extends b t b1 t1"
    unfolding row_folders_def by auto
  let ?n = "new_FileNode\<lparr>name := cr_name row, path := cr_fileName row, fileId := cr_fileId row,
      size_of := cr_size row, checked := cr_checked row, progress := x, priority := cr_priority row,
      availability := cr_availability row\<rparr>"
  let ?t = "t1(b_next b1 := t1 q @ [name ?n])"
  have n: "children ?n = []" "\<not> isFolder ?n" "node_content ?n = row_content row"
    by (simp_all add: new_FileNode_def node_content_def row_content_def x)
  obtain b2 where b2: "attach ?n q b1 = Some (b_next b1, b2)" "b_next b2 = Suc (b_next b1)"
      "built b2 ?t (grow q (b_next b1) s1)" "isFolder (b_store b2 (b_next b1)) = isFolder ?n"
      "node_content (b_store b2 (b_next b1)) = node_content ?n"
      "\<forall>a < b_next b1. isFolder (b_store b2 a) = isFolder (b_store b1 a) \<and> node_content (b_store b2 a) = node_content (b_store b1 a)"
    using built_attach [OF q(2-4) n(1)] n(2) by auto
  have old: "filter (\<lambda>a. \<not> isFolder (b_store b2 a)) [0..<b_next b1] = files_of b1"
    unfolding files_of_def using b2(6) by (intro filter_cong) auto
  have lt: "a < b_next b1" if "a \<in> set (files_of b1)" for a using that by (simp add: files_of_def)
  have "files_of b2 = files_of b1 @ [b_next b1]"
    using old b2(2,4) n(2) by (simp add: files_of_def)
  then have "file_view b2 ?t = file_view b1 t1 @ [(row_trail row, row_content row)]"
    using b2(5,6) lt n(3) q(5) by (auto simp: file_view_def row_trail_def)
  then show ?thesis
    using q(1) b2(1,3) x file_view_extends [OF q(6)]
    by (intro exI [of _ b2] exI [of _ ?t] exI [of _ "grow q (b_next b1) s1"]) (simp add: add_content_row_def)
qed

lemma build_rows_ok:
  assumes "built b t s" "file_view b t = map (\<lambda>r. (row_trail r, row_content r)) ds"
    "sorted_wrt (\<lambda>r r'. \<not> prefix (row_trail r) (row_folders r')) (ds @ rs)"
    "\<forall>r \<in> set rs. js_Number (cr_progress r) \<noteq> None"
  shows "\<exists>b' t' s'. build_rows rs b = Some b' \<and> built b' t' s'
    \<and> file_view b' t' = map (\<lambda>r. (row_trail r, row_content r)) (ds @ rs)"
  using assms
proof (induction rs arbitrary: b t s ds)
  case Nil
  then show ?case by auto
next
  case (Cons r rs)
  have "no_file_on b t (row_folders r)"
    unfolding no_file_on_def
  proof
    fix a
    assume "a \<in> set (files_of b)"
    then have "(t a, node_content (b_store b a)) \<in> set (map (\<lambda>r. (row_trail r, row_content r)) ds)"
      unfolding Cons.prems(2) [symmetric] file_view_def by simp
    then show "\<not> prefix (t a) (row_folders r)" using Cons.prems(3) by (auto simp: sorted_wrt_append)
  qed
  from add_content_row_ok [OF Cons.prems(1) this] Cons.prems(4)
  obtain b1 t1 s1 where b1: "add_content_row r b = Some b1" "built b1 t1 s1"
      "file_view b1 t1 = file_view b t @ [(row_trail r, row_content r)]" by auto
  then have "file_view b1 t1 = map (\<lambda>r. (row_trail r, row_content r)) (ds @ [r])" using Cons.prems(2) by simp
  from Cons.IH [OF b1(2) this] Cons.prems(3,4) b1(1) show ?case by simp
qed

lemma built_new: "built new_builder (\<lambda>_. []) (Sh 0 [])"
  by (auto simp: built_def new_builder_def new_FolderNode_def new_FileNode_def inj_on_def)

text \<open>
  C2: Building the tree of a torrent's files returns when no file lies on the folder path of a
  later one. The result is a tree over consecutive addresses whose row ids are distinct and
  count from 0. Its files are the rows, one node each, in order, with the row's data; each lies
  in a folder whose path joins the row's folder names without \<open>.unwanted\<close>; and folders with
  the same name never share a parent.
\<close>

theorem build_rows_tree:
  assumes "sorted_wrt (\<lambda>r r'. \<not> prefix (row_trail r) (row_folders r')) rs"
    and "\<forall>r \<in> set rs. js_Number (cr_progress r) \<noteq> None"
  shows "\<exists>b s. build_rows rs new_builder = Some b \<and> links (b_store b) s \<and> top s = 0 \<and> distinct (addrs s)
    \<and> set (addrs s) = {0..<b_next b} \<and> (\<forall>a \<in> {1..<b_next b}. rowId (b_store b a) = Some (a - 1))
    \<and> map (node_content \<circ> b_store b) (files_of b) = map row_content rs
    \<and> list_all2 (\<lambda>a r. \<exists>p. root (b_store b a) = Some p \<and> a \<in> set (children (b_store b p))
        \<and> path (b_store b p) = foldl add_path [] (row_folders r)) (files_of b) rs
    \<and> (\<forall>p < b_next b. \<forall>a \<in> set (children (b_store b p)). \<forall>a' \<in> set (children (b_store b p)).
        isFolder (b_store b a) \<and> isFolder (b_store b a') \<and> name (b_store b a) = name (b_store b a') \<longrightarrow> a = a')"
proof -
  have "file_view new_builder (\<lambda>_. []) = map (\<lambda>r. (row_trail r, row_content r)) []"
    by (simp add: file_view_def files_of_def new_builder_def new_FolderNode_def new_FileNode_def)
  from build_rows_ok [OF built_new this, of rs] assms
  obtain b t s where b: "build_rows rs new_builder = Some b" "built b t s"
      "file_view b t = map (\<lambda>r. (row_trail r, row_content r)) rs" by auto
  note b' = b(2) [unfolded built_def] and addrs = built_addrs [OF b(2)]
  have ok: "node_ok (b_store b) t a" if "a \<in> {1..<b_next b}" for a using that b' by blast
  have files: "map (\<lambda>a. (t a, node_content (b_store b a))) (files_of b) = map (\<lambda>r. (row_trail r, row_content r)) rs"
    using b(3) by (simp add: file_view_def)
  have content: "map (node_content \<circ> b_store b) (files_of b) = map row_content rs"
    using arg_cong [OF files, of "map snd"] by (simp add: comp_def)
  have trails: "map t (files_of b) = map row_trail rs" using arg_cong [OF files, of "map fst"] by (simp add: comp_def)
  have pathp: "path (b_store b p) = foldl add_path [] (t p)" if "p < b_next b" "isFolder (b_store b p)" for p
    using b' ok [of p] that by (cases "p = 0") (auto simp: node_ok_def)
  have placed: "\<exists>p. root (b_store b a) = Some p \<and> a \<in> set (children (b_store b p))
      \<and> path (b_store b p) = foldl add_path [] (row_folders r)" if a: "a \<in> set (files_of b)" "t a = row_trail r" for a r
  proof -
    have an: "a < b_next b" "a \<noteq> 0" using a(1) b' by (auto simp: files_of_def intro!: gr0I)
    then have "node_ok (b_store b) t a" using ok by simp
    then obtain p where p: "p < a" "root (b_store b a) = Some p" "isFolder (b_store b p)" "a \<in> set (children (b_store b p))"
        "t a = t p @ [name (b_store b a)]" unfolding node_ok_def by blast
    have "t p = row_folders r" using p(5) a(2) by (simp add: row_trail_def)
    then show ?thesis using p pathp [of p] an by auto
  qed
  have len: "length (files_of b) = length rs" using trails map_eq_imp_length_eq by blast
  have "t (files_of b ! i) = row_trail (rs ! i)" if "i < length rs" for i
    using arg_cong [OF trails, of "\<lambda>xs. xs ! i"] that len by simp
  then have "list_all2 (\<lambda>a r. \<exists>p. root (b_store b a) = Some p \<and> a \<in> set (children (b_store b p))
        \<and> path (b_store b p) = foldl add_path [] (row_folders r)) (files_of b) rs"
    unfolding list_all2_conv_all_nth using placed len by simp
  moreover have "a = a'" if "p < b_next b" "a \<in> set (children (b_store b p))" "a' \<in> set (children (b_store b p))"
    "isFolder (b_store b a)" "isFolder (b_store b a')" "name (b_store b a) = name (b_store b a')" for p a a'
  proof -
    have n: "0 < a \<and> a < b_next b \<and> root (b_store b a) = Some p" "0 < a' \<and> a' < b_next b \<and> root (b_store b a') = Some p"
      using b' that by blast+
    then have "t a = t a'" using ok [of a] ok [of a'] that(6) by (auto simp: node_ok_def)
    then show ?thesis using b' n that(4,5) by (intro inj_onD [of t]) auto
  qed
  moreover have "rowId (b_store b a) = Some (a - 1)" if "a \<in> {1..<b_next b}" for a
    using ok [OF that] by (auto simp: node_ok_def)
  ultimately show ?thesis using b(1) b' addrs content by (intro exI [of _ b] exI [of _ s]) blast
qed

definition ex_rows :: "content_row list" where
  "ex_rows = map (\<lambda>(nm, i). content_row_of \<lparr>fi_name = nm, fi_size = 3, fi_progress = 0, fi_priority = 1, fi_availability = 1\<rparr> i)
     [(''a/b'', 0), (''a/.unwanted/c'', 1)]"

theorem build_rows_tree_witness:
  "\<exists>b. build_rows ex_rows new_builder = Some b \<and> map (node_content \<circ> b_store b) (files_of b) = map row_content ex_rows"
proof -
  have split: "js_split ''/'' ''a/b'' = [''a'', ''b'']" "js_split ''/'' ''a/.unwanted/c'' = [''a'', ''.unwanted'', ''c'']"
    by code_simp+
  have "sorted_wrt (\<lambda>r r'. \<not> prefix (row_trail r) (row_folders r')) ex_rows"
    by (simp add: ex_rows_def content_row_of_def row_trail_def row_folders_def PathSeparator_def split)
  moreover have "\<forall>r \<in> set ex_rows. js_Number (cr_progress r) \<noteq> None" by code_simp
  ultimately show ?thesis using build_rows_tree [of ex_rows] by blast
qed

end
