(* ===== verification/TorrentsTable.thy ===== *)
theory TorrentsTable
  imports TableCore
begin

text \<open>
  The class \<open>TorrentsTable\<close> of \<open>dynamicTable.js\<close>: its columns, the text of each cell, the order
  of each column, the filters of the side bar and the text filter. The browser's collator, the
  formatting of a date and the regular expressions are arguments. A cell is the text shown, \<open>None\<close>
  where the code leaves it alone or makes a text from \<open>NaN\<close>.
\<close>

section \<open>Columns\<close>

definition torrents_columns :: "(string \<times> string \<times> rat \<times> bool) list" where
  "torrents_columns = [
     (''priority'', ''#'', 30, True), (''state_icon'', ''Status Icon'', 30, False), (''name'', ''Name'', 200, True),
     (''size'', ''Size'', 100, True), (''total_size'', ''Total Size'', 100, False), (''progress'', ''Progress'', 85, True),
     (''status'', ''Status'', 100, True), (''num_seeds'', ''Seeds'', 100, True), (''num_leechs'', ''Peers'', 100, True),
     (''dlspeed'', ''Down Speed'', 100, True), (''upspeed'', ''Up Speed'', 100, True), (''eta'', ''ETA'', 100, True),
     (''ratio'', ''Ratio'', 100, True), (''popularity'', ''Popularity'', 100, True), (''category'', ''Category'', 100, True),
     (''tags'', ''Tags'', 100, True), (''creation_date'', ''Created On'', 100, False), (''added_on'', ''Added On'', 100, True),
     (''completion_on'', ''Completed On'', 100, False), (''tracker'', ''Tracker'', 100, False),
     (''dl_limit'', ''Down Limit'', 100, False), (''up_limit'', ''Up Limit'', 100, False),
     (''downloaded'', ''Downloaded'', 100, False), (''uploaded'', ''Uploaded'', 100, False),
     (''downloaded_session'', ''Session Downloaded'', 100, False), (''uploaded_session'', ''Session Uploaded'', 100, False),
     (''amount_left'', ''Remaining'', 100, False), (''time_active'', ''Time Active'', 100, False),
     (''save_path'', ''Save path'', 100, False), (''completed'', ''Completed'', 100, False),
     (''max_ratio'', ''Ratio Limit'', 100, False), (''seen_complete'', ''Last Seen Complete'', 100, False),
     (''last_activity'', ''Last Activity'', 100, False), (''availability'', ''Availability'', 100, False),
     (''download_path'', ''Incomplete Save Path'', 100, False), (''infohash_v1'', ''Info Hash v1'', 100, False),
     (''infohash_v2'', ''Info Hash v2'', 100, False), (''reannounce'', ''Reannounce In'', 100, False),
     (''private'', ''Private'', 100, False)]"

definition add_columns :: "preferences \<Rightarrow> (string \<times> string \<times> rat \<times> bool) list \<Rightarrow> table \<Rightarrow> table" where
  "add_columns prefs cs t = foldl (\<lambda>t (nm, cap, w, vis). newColumn prefs nm [] cap w vis t) t cs"

definition set_properties :: "string \<Rightarrow> (string list \<Rightarrow> string list) \<Rightarrow> table \<Rightarrow> table" where
  "set_properties nm f t =
     t\<lparr>columns := map (\<lambda>c. if col_name c = nm then c\<lparr>dataProperties := f (dataProperties c)\<rparr> else c) (columns t)\<rparr>"

definition torrents_initColumns :: "preferences \<Rightarrow> table \<Rightarrow> table" where
  "torrents_initColumns prefs t =
     set_properties ''time_active'' (\<lambda>ps. ps @ [''seeding_time''])
      (set_properties ''num_leechs'' (\<lambda>ps. ps @ [''num_incomplete''])
       (set_properties ''num_seeds'' (\<lambda>ps. ps @ [''num_complete''])
        (set_properties ''name'' (\<lambda>ps. ps @ [''state''])
         (set_properties ''state_icon'' (\<lambda>ps. ps[0 := ''state'']) (add_columns prefs torrents_columns t)))))"

section \<open>Torrent states\<close>

text \<open>The states of \<open>torrent.h\<close> and the names the server sends.\<close>

datatype TorrentState =
    Unknown | ForcedDownloading | Downloading | DownloadingMetadata | ForcedDownloadingMetadata | StalledDownloading
  | ForcedUploading | Uploading | StalledUploading | CheckingResumeData | QueuedDownloading | QueuedUploading
  | CheckingUploading | CheckingDownloading | StoppedDownloading | StoppedUploading | Moving | MissingFiles | Error

fun torrentStateToString :: "TorrentState \<Rightarrow> string" where
  "torrentStateToString Error = ''error''"
| "torrentStateToString MissingFiles = ''missingFiles''"
| "torrentStateToString Uploading = ''uploading''"
| "torrentStateToString StoppedUploading = ''stoppedUP''"
| "torrentStateToString QueuedUploading = ''queuedUP''"
| "torrentStateToString StalledUploading = ''stalledUP''"
| "torrentStateToString CheckingUploading = ''checkingUP''"
| "torrentStateToString ForcedUploading = ''forcedUP''"
| "torrentStateToString Downloading = ''downloading''"
| "torrentStateToString DownloadingMetadata = ''metaDL''"
| "torrentStateToString ForcedDownloadingMetadata = ''forcedMetaDL''"
| "torrentStateToString StoppedDownloading = ''stoppedDL''"
| "torrentStateToString QueuedDownloading = ''queuedDL''"
| "torrentStateToString StalledDownloading = ''stalledDL''"
| "torrentStateToString CheckingDownloading = ''checkingDL''"
| "torrentStateToString ForcedDownloading = ''forcedDL''"
| "torrentStateToString CheckingResumeData = ''checkingResumeData''"
| "torrentStateToString Moving = ''moving''"
| "torrentStateToString Unknown = ''unknown''"

text \<open>A \<open>switch\<close> over strings: the first case that equals the value.\<close>

fun switch_text :: "(string list \<times> 'a) list \<Rightarrow> 'a \<Rightarrow> jsval \<Rightarrow> 'a" where
  "switch_text [] dflt v = dflt"
| "switch_text ((labels, x) # cs) dflt v = (if v \<in> JStr ` set labels then x else switch_text cs dflt v)"

definition getStateIconClasses :: "jsval \<Rightarrow> string" where
  "getStateIconClasses state = ''stateIcon '' @ switch_text [
     ([''forcedDL'', ''metaDL'', ''forcedMetaDL'', ''downloading''], ''stateDownloading''),
     ([''forcedUP'', ''uploading''], ''stateUploading''), ([''stalledUP''], ''stateStalledUP''),
     ([''stalledDL''], ''stateStalledDL''), ([''stoppedDL''], ''stateStoppedDL''), ([''stoppedUP''], ''stateStoppedUP''),
     ([''queuedDL'', ''queuedUP''], ''stateQueued''),
     ([''checkingDL'', ''checkingUP'', ''queuedForChecking'', ''checkingResumeData''], ''stateChecking''),
     ([''moving''], ''stateMoving''), ([''error'', ''unknown'', ''missingFiles''], ''stateError'')] ''stateUnknown'' state"

definition js_truthy :: "jsval \<Rightarrow> bool" where
  "js_truthy v \<longleftrightarrow> v \<notin> {JUndef, JNull, JBool False, JNum 0, JStr []}"

definition status_cell :: "jsval \<Rightarrow> string option" where
  "status_cell state =
     (if \<not> js_truthy state then None
      else Some (switch_text [
        ([''downloading''], ''Downloading''), ([''stalledDL''], ''Stalled''), ([''metaDL''], ''Downloading metadata''),
        ([''forcedMetaDL''], ''[F] Downloading metadata''), ([''forcedDL''], ''[F] Downloading''),
        ([''uploading'', ''stalledUP''], ''Seeding''), ([''forcedUP''], ''[F] Seeding''), ([''queuedDL'', ''queuedUP''], ''Queued''),
        ([''checkingDL'', ''checkingUP''], ''Checking''), ([''queuedForChecking''], ''Queued for checking''),
        ([''checkingResumeData''], ''Checking resume data''), ([''stoppedDL''], ''Stopped''), ([''stoppedUP''], ''Completed''),
        ([''moving''], ''Moving''), ([''missingFiles''], ''Missing Files''), ([''error''], ''Errored'')] ''Unknown'' state))"

definition state_icon_cell :: "column \<Rightarrow> row \<Rightarrow> string" where
  "state_icon_cell c r = getStateIconClasses (getRowValue c r 0) @ '' stateIconColumn''"

text \<open>The name with the class of its span: the icon is shown here when its own column is hidden.\<close>

definition name_cell :: "table \<Rightarrow> column \<Rightarrow> row \<Rightarrow> string \<times> jsval" where
  "name_cell t c r =
     (let isStateIconShown = (case find_column t ''state_icon'' of None \<Rightarrow> True | Some s \<Rightarrow> \<not> isVisible s)
      in (if isStateIconShown then getStateIconClasses (getRowValue c r 1) else [], getRowValue c r 0))"

section \<open>Cells\<close>

definition num_arg :: "jsval \<Rightarrow> rat option" where
  "num_arg v = (case v of JNull \<Rightarrow> None | _ \<Rightarrow> js_ToNumber v)"

text \<open>The relation \<open><\<close> of a value and a number: false for \<open>NaN\<close>.\<close>

definition js_below :: "jsval \<Rightarrow> rat \<Rightarrow> bool" where
  "js_below v x \<longleftrightarrow> (case js_ToNumber v of None \<Rightarrow> False | Some y \<Rightarrow> y < x)"

definition js_above :: "jsval \<Rightarrow> rat \<Rightarrow> bool" where
  "js_above v x \<longleftrightarrow> (case js_ToNumber v of None \<Rightarrow> False | Some y \<Rightarrow> x < y)"

definition priority_cell :: "jsval \<Rightarrow> string" where
  "priority_cell queuePos = (if js_below queuePos 1 then ''*'' else js_String queuePos)"

definition size_cell :: "jsval \<Rightarrow> string" where
  "size_cell v = friendlyUnit (num_arg v) False"

definition speed_cell :: "jsval \<Rightarrow> string" where
  "speed_cell v = friendlyUnit (num_arg v) True"

definition progress_cell :: "jsval \<Rightarrow> string" where
  "progress_cell v = toFixedPointString (map_option (\<lambda>x. x * 100) (js_ToNumber v)) 1"

definition seeds_cell :: "jsval \<Rightarrow> jsval \<Rightarrow> string" where
  "seeds_cell num_seeds num_complete =
     (if num_complete \<noteq> JNum (-1) then js_String num_seeds @ '' ('' @ js_String num_complete @ '')'' else js_String num_seeds)"

definition duration_text :: "jsval \<Rightarrow> rat \<Rightarrow> string option" where
  "duration_text v maxCap = map_option (\<lambda>x. friendlyDuration x maxCap) (js_ToNumber v)"

definition eta_cell :: "jsval \<Rightarrow> string option" where
  "eta_cell v = duration_text v MAX_ETA"

definition ratio_cell :: "jsval \<Rightarrow> string" where
  "ratio_cell v = (if v = JNum (-1) then infinity_sign else toFixedPointString (js_ToNumber v) 2)"

definition popularity_cell :: "jsval \<Rightarrow> string" where
  "popularity_cell v = (if v = JNum (-1) then infinity_sign else toFixedPointString (js_ToNumber v) 2)"

definition added_cell :: "(rat \<Rightarrow> string) \<Rightarrow> jsval \<Rightarrow> string option" where
  "added_cell dateText v = map_option dateText (js_ToNumber v)"

definition creation_cell :: "(rat \<Rightarrow> string) \<Rightarrow> jsval \<Rightarrow> string option" where
  "creation_cell dateText v =
     (if v = JNum 4294967295 \<or> js_below v 0 then Some [] else added_cell dateText v)"

definition completion_cell :: "(rat \<Rightarrow> string) \<Rightarrow> jsval \<Rightarrow> string option" where
  "completion_cell dateText v =
     (if v = JNum 4294967295 \<or> js_below v 0 then Some [] else added_cell dateText v)"

definition tracker_cell :: "(string \<Rightarrow> string option) \<Rightarrow> bool \<Rightarrow> string \<Rightarrow> string" where
  "tracker_cell urlHostname displayFullURLTrackerColumn value =
     (if displayFullURLTrackerColumn then value else getHost urlHostname value)"

definition limit_cell :: "jsval \<Rightarrow> string" where
  "limit_cell speed = (if speed = JNum 0 then infinity_sign else friendlyUnit (num_arg speed) True)"

definition time_active_cell :: "jsval \<Rightarrow> jsval \<Rightarrow> string option" where
  "time_active_cell activeTime seedingTime =
     (case duration_text activeTime (-1) of
        None \<Rightarrow> None
      | Some a \<Rightarrow>
          if js_above seedingTime 0
          then map_option (\<lambda>s. js_replace ''%2'' s (js_replace ''%1'' a ''%1 (seeded for %2)'')) (duration_text seedingTime (-1))
          else Some a)"

definition last_activity_cell :: "rat \<Rightarrow> jsval \<Rightarrow> string option" where
  "last_activity_cell now val =
     (if js_below val 1 then Some infinity_sign
      else map_option (\<lambda>x. js_replace ''%1'' (friendlyDuration (now - x) (-1)) ''%1 ago'') (js_ToNumber val))"

definition availability_cell :: "jsval \<Rightarrow> string" where
  "availability_cell v = toFixedPointString (js_ToNumber v) 3"

definition infohash_v1_cell :: "jsval \<Rightarrow> string" where
  "infohash_v1_cell v = (if v \<noteq> JStr [] then js_String v else ''N/A'')"

definition infohash_v2_cell :: "jsval \<Rightarrow> string" where
  "infohash_v2_cell v = (if v \<noteq> JStr [] then js_String v else ''N/A'')"

definition reannounce_cell :: "jsval \<Rightarrow> string option" where
  "reannounce_cell v = duration_text v (-1)"

definition private_cell :: "row \<Rightarrow> column \<Rightarrow> string" where
  "private_cell r c =
     (if js_truthy (prop_get (full_data r) ''has_metadata'')
      then (if js_truthy (getRowValue c r 0) then ''Yes'' else ''No'') else ''N/A'')"

section \<open>The order of a column\<close>

text \<open>
  \<open>compareNumbers\<close> on values: \<open><\<close> and \<open>>\<close> compare two strings as strings and everything else as
  numbers. \<open>localeCompare\<close> is called on the value itself: a value that is no string throws.
\<close>

fun string_less :: "string \<Rightarrow> string \<Rightarrow> bool" where
  "string_less s [] = False"
| "string_less [] (d # t) = True"
| "string_less (c # s) (d # t) = (of_char c < (of_char d :: nat) \<or> (c = d \<and> string_less s t))"

definition js_less :: "jsval \<Rightarrow> jsval \<Rightarrow> bool" where
  "js_less v w =
     (case (v, w) of
        (JStr s, JStr t) \<Rightarrow> string_less s t
      | _ \<Rightarrow> (case (js_ToNumber v, js_ToNumber w) of (Some x, Some y) \<Rightarrow> x < y | _ \<Rightarrow> False))"

definition js_compareNumbers :: "jsval cmp" where
  "js_compareNumbers val1 val2 = (if js_less val1 val2 then -1 else if js_less val2 val1 then 1 else 0)"

definition status_compare :: "row cmp" where
  "status_compare row1 row2 =
     js_compareNumbers (prop_get (full_data row1) ''_statusOrder'') (prop_get (full_data row2) ''_statusOrder'')"

definition queue_value :: "jsval \<Rightarrow> jsval" where
  "queue_value v = (if js_below v 1 then JNum 1000000 else v)"

definition priority_compare :: "column \<Rightarrow> row cmp" where
  "priority_compare c row1 row2 = js_compareNumbers (queue_value (getRowValue c row1 0)) (queue_value (getRowValue c row2 0))"

definition name_compare :: "string cmp \<Rightarrow> column \<Rightarrow> row \<Rightarrow> row \<Rightarrow> int option" where
  "name_compare localeCompare c row1 row2 =
     (case getRowValue c row1 0 of
        JStr s \<Rightarrow> Some (localeCompare s (js_String (getRowValue c row2 0)))
      | _ \<Rightarrow> None)"

definition seeds_compare :: "column \<Rightarrow> row cmp" where
  "seeds_compare c row1 row2 =
     (let result = js_compareNumbers (getRowValue c row1 1) (getRowValue c row2 1)
      in if result \<noteq> 0 then result else js_compareNumbers (getRowValue c row1 0) (getRowValue c row2 0))"

definition torrents_compare :: "string cmp \<Rightarrow> string cmp \<Rightarrow> column \<Rightarrow> row \<Rightarrow> row \<Rightarrow> int option" where
  "torrents_compare collate localeCompare c row1 row2 =
     (if col_name c = ''status'' then Some (status_compare row1 row2)
      else if col_name c = ''priority'' then Some (priority_compare c row1 row2)
      else if col_name c \<in> {''name'', ''category'', ''tags''} then name_compare localeCompare c row1 row2
      else if col_name c \<in> {''num_seeds'', ''num_leechs''} then Some (seeds_compare c row1 row2)
      else Some (compareRows collate c row1 row2))"

section \<open>Filters\<close>

text \<open>The constants of \<open>client.js\<close>.\<close>

definition CATEGORIES_ALL :: string where "CATEGORIES_ALL = ''b4af0e4c-e76d-4bac-a392-46cbc18d9655''"
definition CATEGORIES_UNCATEGORIZED :: string where "CATEGORIES_UNCATEGORIZED = ''e24bd469-ea22-404c-8e2e-a17c82f37ea0''"
definition TAGS_ALL :: string where "TAGS_ALL = ''b4af0e4c-e76d-4bac-a392-46cbc18d9655''"
definition TAGS_UNTAGGED :: string where "TAGS_UNTAGGED = ''e24bd469-ea22-404c-8e2e-a17c82f37ea0''"
definition TRACKERS_ALL :: string where "TRACKERS_ALL = ''b4af0e4c-e76d-4bac-a392-46cbc18d9655''"
definition TRACKERS_ANNOUNCE_ERROR :: string where "TRACKERS_ANNOUNCE_ERROR = ''d0b4cad2-9f6f-4e7f-8d4b-f80a103dd436''"
definition TRACKERS_ERROR :: string where "TRACKERS_ERROR = ''b551cfc3-64e9-4393-bc88-5d6ea2fab5cc''"
definition TRACKERS_TRACKERLESS :: string where "TRACKERS_TRACKERLESS = ''e24bd469-ea22-404c-8e2e-a17c82f37ea0''"
definition TRACKERS_WARNING :: string where "TRACKERS_WARNING = ''82a702c5-210c-412b-829f-97632d7557e9''"

text \<open>
  What the filters read of the page: the names in \<open>categoryMap\<close>, \<open>trackerMap\<close> (host, then URL,
  then the hashes), and the property that the text filter looks at.
\<close>

record filter_page =
  fp_categories :: "string list"
  fp_trackers :: "(string, (string, string list) jsmap) jsmap"
  fp_filterBy :: string

datatype filter_terms = NoTerms | Terms "string list" | Pattern "string \<Rightarrow> bool"

fun js_has_text :: "jsval \<Rightarrow> string \<Rightarrow> bool option" where
  "js_has_text (JStr s) t = Some (js_includes s t)"
| "js_has_text _ t = None"

fun js_nonempty :: "jsval \<Rightarrow> bool option" where
  "js_nonempty (JStr s) = Some (s \<noteq> [])"
| "js_nonempty (JArr xs) = Some (xs \<noteq> [])"
| "js_nonempty JUndef = None"
| "js_nonempty JNull = None"
| "js_nonempty _ = Some False"

definition passes_status :: "string \<Rightarrow> jsobj \<Rightarrow> bool option" where
  "passes_status filterName d =
     (let state = prop_get d ''state'';
          is = (\<lambda>ss. state \<in> JStr ` set ss);
          r = js_above (prop_get d ''upspeed'') 0 \<or> js_above (prop_get d ''dlspeed'') 0
      in if filterName = ''downloading'' then (if is [''downloading''] then Some True else js_has_text state ''DL'')
         else if filterName = ''seeding'' then Some (is [''uploading'', ''forcedUP'', ''stalledUP'', ''queuedUP'', ''checkingUP''])
         else if filterName = ''completed'' then (if is [''uploading''] then Some True else js_has_text state ''UP'')
         else if filterName = ''stopped'' then js_has_text state ''stopped''
         else if filterName = ''running'' then map_option Not (js_has_text state ''stopped'')
         else if filterName = ''stalled'' then Some (is [''stalledUP'', ''stalledDL''])
         else if filterName = ''stalled_uploading'' then Some (is [''stalledUP''])
         else if filterName = ''stalled_downloading'' then Some (is [''stalledDL''])
         else if filterName = ''inactive'' then Some (\<not> r)
         else if filterName = ''active'' then Some r
         else if filterName = ''checking'' then Some (is [''checkingUP'', ''checkingDL'', ''checkingResumeData''])
         else if filterName = ''moving'' then Some (is [''moving''])
         else if filterName = ''errored'' then Some (is [''error'', ''unknown'', ''missingFiles''])
         else Some True)"

definition passes_category :: "filter_page \<Rightarrow> string \<Rightarrow> jsobj \<Rightarrow> bool option" where
  "passes_category pg category d =
     (if category = CATEGORIES_ALL then Some True
      else if category = CATEGORIES_UNCATEGORIZED then map_option Not (js_nonempty (prop_get d ''category''))
      else if category \<in> set (fp_categories pg)
      then Some (startsWith (js_String (prop_get d ''category'') @ ''/'') (category @ ''/''))
      else Some True)"

definition passes_tag :: "string \<Rightarrow> jsobj \<Rightarrow> bool option" where
  "passes_tag tag d =
     (if tag = TAGS_ALL then Some True
      else if tag = TAGS_UNTAGGED then map_option Not (js_nonempty (prop_get d ''tags''))
      else case prop_get d ''tags'' of JStr s \<Rightarrow> Some (tag \<in> set (js_split '', '' s)) | _ \<Rightarrow> None)"

definition passes_tracker :: "filter_page \<Rightarrow> string \<Rightarrow> jsobj \<Rightarrow> bool" where
  "passes_tracker pg trackerHost d =
     (if trackerHost = TRACKERS_ALL then True
      else if trackerHost = TRACKERS_ANNOUNCE_ERROR then js_truthy (prop_get d ''has_other_announce_error'')
      else if trackerHost = TRACKERS_ERROR then js_truthy (prop_get d ''has_tracker_error'')
      else if trackerHost = TRACKERS_TRACKERLESS then \<not> js_above (prop_get d ''trackers_count'') 0
      else if trackerHost = TRACKERS_WARNING then js_truthy (prop_get d ''has_tracker_warning'')
      else case map_get (fp_trackers pg) trackerHost of
             None \<Rightarrow> True
           | Some trackerTorrentMap \<Rightarrow>
               list_ex (\<lambda>(url, torrents). prop_get d ''rowId'' \<in> JStr ` set torrents) trackerTorrentMap)"

definition passes_text :: "filter_page \<Rightarrow> filter_terms \<Rightarrow> jsobj \<Rightarrow> bool option" where
  "passes_text pg filterTerms d =
     (let textToSearch = (case prop_get d (fp_filterBy pg) of JStr s \<Rightarrow> Some (toLowerCase s) | _ \<Rightarrow> None)
      in case filterTerms of
           NoTerms \<Rightarrow> Some True
         | Pattern test \<Rightarrow> map_option test textToSearch
         | Terms ts \<Rightarrow> map_option (\<lambda>s. ts = [] \<or> containsAllTerms s ts) textToSearch)"

text \<open>\<open>applyFilter\<close>: the checks in their order, the first refusal or \<open>TypeError\<close> ends it.\<close>

definition applyFilter ::
  "filter_page \<Rightarrow> row \<Rightarrow> string \<Rightarrow> string \<Rightarrow> string \<Rightarrow> string \<Rightarrow> filter_terms \<Rightarrow> js_error + bool" where
  "applyFilter pg row filterName category tag trackerHost filterTerms =
     (let d = full_data row in
      case passes_status filterName d of None \<Rightarrow> Inl TypeError | Some False \<Rightarrow> Inr False | Some True \<Rightarrow>
     (case passes_category pg category d of None \<Rightarrow> Inl TypeError | Some False \<Rightarrow> Inr False | Some True \<Rightarrow>
     (case passes_tag tag d of None \<Rightarrow> Inl TypeError | Some False \<Rightarrow> Inr False | Some True \<Rightarrow>
     (if \<not> passes_tracker pg trackerHost d then Inr False
      else case passes_text pg filterTerms d of None \<Rightarrow> Inl TypeError | Some b \<Rightarrow> Inr b))))"

fun filter_rows :: "(row \<Rightarrow> js_error + bool) \<Rightarrow> row list \<Rightarrow> js_error + row list" where
  "filter_rows test [] = Inr []"
| "filter_rows test (r # rs) =
     (case test r of
        Inl e \<Rightarrow> Inl e
      | Inr b \<Rightarrow> (case filter_rows test rs of Inl e \<Rightarrow> Inl e | Inr ss \<Rightarrow> Inr (if b then r # ss else ss)))"

definition getFilteredTorrentsNumber ::
  "filter_page \<Rightarrow> string \<Rightarrow> string \<Rightarrow> string \<Rightarrow> string \<Rightarrow> table \<Rightarrow> js_error + nat" where
  "getFilteredTorrentsNumber pg filterName category tag tracker t =
     (case filter_rows (\<lambda>r. applyFilter pg r filterName category tag tracker NoTerms) (map snd (rows t)) of
        Inl e \<Rightarrow> Inl e | Inr rs \<Rightarrow> Inr (length rs))"

text \<open>
  The text field: \<open>regex\<close> compiles a pattern, \<open>None\<close> being its \<open>SyntaxError\<close>. A field that holds
  nothing filters nothing.
\<close>

definition parse_terms :: "(string \<Rightarrow> (string \<Rightarrow> bool) option) \<Rightarrow> bool \<Rightarrow> string \<Rightarrow> filter_terms option" where
  "parse_terms regex useRegex val =
     (let filterText = toLowerCase (js_trim val)
      in if filterText = [] then Some NoTerms
         else if useRegex then map_option Pattern (regex filterText) else Some (Terms (js_split '' '' filterText)))"

text \<open>The handler of a bad pattern names a variable that is not in its scope.\<close>

definition getFilteredTorrentsHashes ::
  "(string \<Rightarrow> (string \<Rightarrow> bool) option) \<Rightarrow> filter_page \<Rightarrow> bool \<Rightarrow> string \<Rightarrow> string \<Rightarrow> string \<Rightarrow> string \<Rightarrow> string \<Rightarrow> table \<Rightarrow>
     js_error + string list" where
  "getFilteredTorrentsHashes regex pg useRegex val filterName category tag tracker t =
     (case parse_terms regex useRegex val of
        None \<Rightarrow> Inl ReferenceError
      | Some filterTerms \<Rightarrow>
          (case filter_rows (\<lambda>r. applyFilter pg r filterName category tag tracker filterTerms) (map snd (rows t)) of
             Inl e \<Rightarrow> Inl e | Inr rs \<Rightarrow> Inr (map row_id rs)))"

text \<open>What the side bar has selected.\<close>

record selection =
  selectedStatus :: string
  selectedCategory :: string
  selectedTag :: string
  selectedTracker :: string

definition torrents_view ::
  "(string \<Rightarrow> (string \<Rightarrow> bool) option) \<Rightarrow> filter_page \<Rightarrow> bool \<Rightarrow> string \<Rightarrow> selection \<Rightarrow> row cmp \<Rightarrow> table \<Rightarrow> js_error + row list" where
  "torrents_view regex pg useRegex val sel cmp t =
     (case parse_terms regex useRegex val of
        None \<Rightarrow> Inr []
      | Some filterTerms \<Rightarrow>
          (case filter_rows (\<lambda>r. applyFilter pg r (selectedStatus sel) (selectedCategory sel) (selectedTag sel)
                  (selectedTracker sel) filterTerms) (map snd (rows t)) of
             Inl e \<Rightarrow> Inl e
           | Inr rs \<Rightarrow> Inr (sort_rows cmp (reverseSort t = ''0'') (array_elements (collect_rows rs)))))"

definition dblclick_pref :: "jsval \<Rightarrow> string" where
  "dblclick_pref state =
     (if state \<notin> JStr ` {''uploading'', ''stoppedUP'', ''forcedUP'', ''stalledUP'', ''queuedUP'', ''checkingUP''}
      then ''dblclick_download'' else ''dblclick_complete'')"

text \<open>The double click: \<open>Some True\<close> starts the torrent, \<open>Some False\<close> stops it, \<open>None\<close> does neither.\<close>

definition dblclick :: "(string \<Rightarrow> string option) \<Rightarrow> string \<Rightarrow> table \<Rightarrow> table \<times> (js_error + bool option)" where
  "dblclick clientData rid t =
     (let t' = selectRow rid (deselectAll t) in
      (t', case map_get (rows t') rid of
             None \<Rightarrow> Inl TypeError
           | Some r \<Rightarrow>
               (let state = prop_get (full_data r) ''state'' in
                if clientData (dblclick_pref state) \<noteq> Some ''1'' then Inr None
                else case js_has_text state ''stopped'' of None \<Rightarrow> Inl TypeError | Some b \<Rightarrow> Inr (Some b))))"

definition isStopped :: "string \<Rightarrow> table \<Rightarrow> js_error + bool" where
  "isStopped hash t =
     (case map_get (rows t) hash of
        None \<Rightarrow> Inr True
      | Some r \<Rightarrow> (case js_has_text (prop_get (full_data r) ''state'') ''stopped'' of None \<Rightarrow> Inl TypeError | Some b \<Rightarrow> Inr b))"

section \<open>The server's filter\<close>

text \<open>\<open>TorrentFilter::matchStatus\<close> over the state, the rates and the stopped flag of a torrent.\<close>

datatype status_filter =
    All | DownloadingF | Seeding | Completed | StoppedF | Running | Active | Inactive | Stalled
  | StalledUploadingF | StalledDownloadingF | Checking | MovingF | Errored

definition isDownloading :: "TorrentState \<Rightarrow> bool" where
  "isDownloading s \<longleftrightarrow> s \<in> {Downloading, DownloadingMetadata, ForcedDownloadingMetadata, StalledDownloading,
     CheckingDownloading, StoppedDownloading, QueuedDownloading, ForcedDownloading}"

definition isUploading :: "TorrentState \<Rightarrow> bool" where
  "isUploading s \<longleftrightarrow> s \<in> {Uploading, StalledUploading, CheckingUploading, QueuedUploading, ForcedUploading}"

definition isCompleted :: "TorrentState \<Rightarrow> bool" where
  "isCompleted s \<longleftrightarrow> s \<in> {Uploading, StalledUploading, CheckingUploading, StoppedUploading, QueuedUploading, ForcedUploading}"

fun matchStatus :: "status_filter \<Rightarrow> TorrentState \<Rightarrow> bool \<Rightarrow> rat \<Rightarrow> rat \<Rightarrow> bool" where
  "matchStatus All s stopped up down = True"
| "matchStatus DownloadingF s stopped up down = isDownloading s"
| "matchStatus Seeding s stopped up down = isUploading s"
| "matchStatus Completed s stopped up down = isCompleted s"
| "matchStatus StoppedF s stopped up down = stopped"
| "matchStatus Running s stopped up down = (\<not> stopped)"
| "matchStatus Active s stopped up down = (0 < up \<or> 0 < down)"
| "matchStatus Inactive s stopped up down = (\<not> (0 < up \<or> 0 < down))"
| "matchStatus Stalled s stopped up down = (s = StalledUploading \<or> s = StalledDownloading)"
| "matchStatus StalledUploadingF s stopped up down = (s = StalledUploading)"
| "matchStatus StalledDownloadingF s stopped up down = (s = StalledDownloading)"
| "matchStatus Checking s stopped up down = (s = CheckingUploading \<or> s = CheckingDownloading \<or> s = CheckingResumeData)"
| "matchStatus MovingF s stopped up down = (s = Moving)"
| "matchStatus Errored s stopped up down = (s = MissingFiles \<or> s = Error)"

text \<open>The name of a filter in the page and in the API (\<open>torrentfilter.cpp\<close> and \<open>client.js\<close>).\<close>

fun filter_name :: "status_filter \<Rightarrow> string" where
  "filter_name All = ''all''" | "filter_name DownloadingF = ''downloading''" | "filter_name Seeding = ''seeding''"
| "filter_name Completed = ''completed''" | "filter_name StoppedF = ''stopped''" | "filter_name Running = ''running''"
| "filter_name Active = ''active''" | "filter_name Inactive = ''inactive''" | "filter_name Stalled = ''stalled''"
| "filter_name StalledUploadingF = ''stalled_uploading''" | "filter_name StalledDownloadingF = ''stalled_downloading''"
| "filter_name Checking = ''checking''" | "filter_name MovingF = ''moving''" | "filter_name Errored = ''errored''"

text \<open>
  How the state comes about (\<open>TorrentImpl::updateState\<close>): the status of libtorrent with the flags
  of the session. A check of the resume data, a move, missing files and an error come before the
  stopped flag.
\<close>

datatype lt_state = Checking_files | Downloading_metadata | Downloading_data | Finished | Seeding_data | Checking_resume_data

record torrent_impl =
  lt_status :: lt_state
  moveInProgress :: bool
  missing_files :: bool
  has_error :: bool
  metadata_valid :: bool
  stopped_flag :: bool
  queueing_enabled :: bool
  auto_managed :: bool
  lt_paused :: bool
  forced_mode :: bool
  finished_status :: bool
  upload_payload_rate :: int
  download_payload_rate :: int

definition impl_isQueued :: "torrent_impl \<Rightarrow> bool" where
  "impl_isQueued n \<longleftrightarrow> (if \<not> queueing_enabled n then False else \<not> stopped_flag n \<and> auto_managed n \<and> lt_paused n)"

definition impl_isForced :: "torrent_impl \<Rightarrow> bool" where
  "impl_isForced n \<longleftrightarrow> \<not> stopped_flag n \<and> forced_mode n"

definition impl_isFinished :: "torrent_impl \<Rightarrow> bool" where
  "impl_isFinished n \<longleftrightarrow> lt_status n = Finished \<or> lt_status n = Seeding_data"

definition updateState :: "torrent_impl \<Rightarrow> TorrentState" where
  "updateState n =
     (if lt_status n = Checking_resume_data then CheckingResumeData
      else if moveInProgress n then Moving
      else if missing_files n then MissingFiles
      else if has_error n then Error
      else if \<not> metadata_valid n
      then (if stopped_flag n then StoppedDownloading
            else if impl_isQueued n then QueuedDownloading
            else if impl_isForced n then ForcedDownloadingMetadata else DownloadingMetadata)
      else if lt_status n = Checking_files \<and> \<not> stopped_flag n
      then (if finished_status n then CheckingUploading else CheckingDownloading)
      else if impl_isFinished n
      then (if stopped_flag n then StoppedUploading
            else if impl_isQueued n then QueuedUploading
            else if impl_isForced n then ForcedUploading
            else if 0 < upload_payload_rate n then Uploading else StalledUploading)
      else (if stopped_flag n then StoppedDownloading
            else if impl_isQueued n then QueuedDownloading
            else if impl_isForced n then ForcedDownloading
            else if 0 < download_payload_rate n then Downloading else StalledDownloading))"

text \<open>What the state shows in place of the stopped flag.\<close>

definition covers_stop :: "torrent_impl \<Rightarrow> bool" where
  "covers_stop n \<longleftrightarrow> lt_status n = Checking_resume_data \<or> moveInProgress n \<or> missing_files n \<or> has_error n"

definition shows_stop :: "TorrentState \<Rightarrow> bool" where
  "shows_stop s \<longleftrightarrow> s = StoppedDownloading \<or> s = StoppedUploading"

lemma updateState_known [simp]: "updateState n \<noteq> Unknown"
  by (simp add: updateState_def)

lemma updateState_stopped: "shows_stop (updateState n) \<longleftrightarrow> stopped_flag n \<and> \<not> covers_stop n"
  by (auto simp: updateState_def covers_stop_def shows_stop_def)

section \<open>Sample rows\<close>

definition ex_torrent :: "string \<Rightarrow> TorrentState \<Rightarrow> rat \<Rightarrow> row" where
  "ex_torrent hash s up = \<lparr>row_id = hash, full_data = [(''rowId'', JStr hash), (''state'', JStr (torrentStateToString s)),
     (''upspeed'', JNum up), (''dlspeed'', JNum 0), (''category'', JStr []), (''tags'', JStr []), (''name'', JStr hash),
     (''size'', JNum up)], delta = []\<rparr>"

definition ex_torrents :: table where
  "ex_torrents = ex_table\<lparr>rows := [(''a1'', ex_torrent ''a1'' Uploading 7), (''b2'', ex_torrent ''b2'' StoppedDownloading 0),
     (''c3'', ex_torrent ''c3'' StalledUploading 0)], reverseSort := ''0''\<rparr>"

definition ex_page :: filter_page where
  "ex_page = \<lparr>fp_categories = [], fp_trackers = [], fp_filterBy = ''name''\<rparr>"

section \<open>The page's filters and the server's\<close>

text \<open>
  What each filter of the page reads from the state, whatever state it is: the server's choice, with
  the stop taken from the state and the unknown state counted as an error.
\<close>

definition status_chosen :: "status_filter \<Rightarrow> TorrentState \<Rightarrow> rat \<Rightarrow> rat \<Rightarrow> bool" where
  "status_chosen f s up down =
     (if f = Errored \<and> s = Unknown then True else matchStatus f s (shows_stop s) up down)"

lemma passes_status_chosen:
  assumes "prop_get d ''state'' = JStr (torrentStateToString s)"
    and "prop_get d ''upspeed'' = JNum up" and "prop_get d ''dlspeed'' = JNum down"
  shows "passes_status (filter_name f) d = Some (status_chosen f s up down)"
proof (cases f)
  case DownloadingF
  then show ?thesis using assms(1)
    by (cases s) (simp_all add: passes_status_def status_chosen_def isDownloading_def prefix_def)
next
  case Seeding
  then show ?thesis using assms(1) by (cases s) (simp_all add: passes_status_def status_chosen_def isUploading_def)
next
  case Completed
  then show ?thesis using assms(1)
    by (cases s) (simp_all add: passes_status_def status_chosen_def isCompleted_def prefix_def)
next
  case StoppedF
  then show ?thesis using assms(1)
    by (cases s) (simp_all add: passes_status_def status_chosen_def shows_stop_def prefix_def)
next
  case Running
  then show ?thesis using assms(1)
    by (cases s) (simp_all add: passes_status_def status_chosen_def shows_stop_def prefix_def)
next
  case Active
  then show ?thesis using assms(2,3) by (simp add: passes_status_def status_chosen_def js_above_def)
next
  case Inactive
  then show ?thesis using assms(2,3) by (simp add: passes_status_def status_chosen_def js_above_def)
qed (use assms(1) in \<open>cases s; simp add: passes_status_def status_chosen_def\<close>)+


definition ex_impl :: torrent_impl where
  "ex_impl = \<lparr>lt_status = Finished, moveInProgress = False, missing_files = False, has_error = False, metadata_valid = True,
     stopped_flag = True, queueing_enabled = True, auto_managed = True, lt_paused = True, forced_mode = False,
     finished_status = True, upload_payload_rate = 0, download_payload_rate = 0\<rparr>"


text \<open>A stopped torrent whose files are missing: the server's filter lists it as stopped, the page as running.\<close>

lemma stopped_missing_runs:
  "updateState (ex_impl\<lparr>missing_files := True\<rparr>) = MissingFiles"
  "matchStatus StoppedF MissingFiles (stopped_flag (ex_impl\<lparr>missing_files := True\<rparr>)) 0 0"
  "passes_status ''running'' [(''state'', JStr ''missingFiles'')] = Some True"
  by code_simp+

text \<open>
  Filtering by a category that exists selects the torrents of the category and of its
  subcategories, where one name lies below another when a slash continues it.
\<close>

theorem passes_category_subcategories:
  assumes "category \<in> set (fp_categories pg)" and "category \<notin> {CATEGORIES_ALL, CATEGORIES_UNCATEGORIZED}"
    and "prop_get d ''category'' = JStr c"
  shows "passes_category pg category d = Some (c = category \<or> prefix (category @ ''/'') c)"
proof -
  have "prefix (category @ ''/'') (c @ ''/'') \<longleftrightarrow> c = category \<or> prefix (category @ ''/'') c"
    by (auto simp: prefix_snoc)
  then show ?thesis using assms by (simp add: passes_category_def)
qed

theorem passes_category_subcategories_witness:
  "passes_category \<lparr>fp_categories = [''tv''], fp_trackers = [], fp_filterBy = ''name''\<rparr> ''tv'' [(''category'', JStr ''tv/new'')]
    = Some True"
  using passes_category_subcategories [of "''tv''" "\<lparr>fp_categories = [''tv''], fp_trackers = [], fp_filterBy = ''name''\<rparr>"
      "[(''category'', JStr ''tv/new'')]" "''tv/new''"]
  by (simp add: prop_get_def CATEGORIES_ALL_def CATEGORIES_UNCATEGORIZED_def)

section \<open>The view of the table\<close>

text \<open>The rows as the server sends them: the texts that the filters read are strings.\<close>

definition torrent_row_ok :: "filter_page \<Rightarrow> row \<Rightarrow> bool" where
  "torrent_row_ok pg r \<longleftrightarrow> (\<forall>p \<in> {''state'', ''category'', ''tags'', fp_filterBy pg}. \<exists>s. prop_get (full_data r) p = JStr s)"

definition shows_row :: "filter_page \<Rightarrow> selection \<Rightarrow> filter_terms \<Rightarrow> row \<Rightarrow> bool" where
  "shows_row pg sel ts r \<longleftrightarrow>
     applyFilter pg r (selectedStatus sel) (selectedCategory sel) (selectedTag sel) (selectedTracker sel) ts = Inr True"

lemma passes_status_total: "torrent_row_ok pg r \<Longrightarrow> passes_status st (full_data r) \<noteq> None"
proof -
  assume "torrent_row_ok pg r"
  then obtain s where "prop_get (full_data r) ''state'' = JStr s" by (auto simp: torrent_row_ok_def)
  then show ?thesis by (simp add: passes_status_def Let_def del: not_None_eq)
qed

lemma applyFilter_total:
  assumes "torrent_row_ok pg r"
  shows "\<exists>b. applyFilter pg r st cat tag tr ts = Inr b"
proof -
  obtain s1 s2 s3 s4 where v: "prop_get (full_data r) ''state'' = JStr s1" "prop_get (full_data r) ''category'' = JStr s2"
      "prop_get (full_data r) ''tags'' = JStr s3" "prop_get (full_data r) (fp_filterBy pg) = JStr s4"
    using assms by (auto simp: torrent_row_ok_def)
  have "passes_status st (full_data r) \<noteq> None" by (rule passes_status_total [OF assms])
  moreover have "passes_category pg cat (full_data r) \<noteq> None" by (simp add: passes_category_def v del: not_None_eq)
  moreover have "passes_tag tag (full_data r) \<noteq> None" by (simp add: passes_tag_def v del: not_None_eq)
  moreover have "passes_text pg ts (full_data r) \<noteq> None" by (simp add: passes_text_def v Let_def del: not_None_eq split: filter_terms.split)
  ultimately show ?thesis by (auto simp: applyFilter_def Let_def split: bool.split)
qed

lemma filter_rows_total:
  "(\<And>r. r \<in> set rs \<Longrightarrow> \<exists>b. test r = Inr b) \<Longrightarrow> filter_rows test rs = Inr (filter (\<lambda>r. test r = Inr True) rs)"
proof (induction rs)
  case (Cons r rs)
  then obtain b where "test r = Inr b" by auto
  then show ?case using Cons by simp
qed simp

lemma filter_rows_subseq: "filter_rows test rs = Inr ss \<Longrightarrow> subseq ss rs"
  by (induction rs arbitrary: ss) (auto split: sum.splits)

text \<open>What is drawn when nothing throws; an exception leaves the table as it is.\<close>

definition torrents_rows where
  "torrents_rows regex pg useRegex val sel cmp t =
     (case torrents_view regex pg useRegex val sel cmp t of Inl e \<Rightarrow> [] | Inr rs \<Rightarrow> rs)"

lemma torrents_rows_cases:
  assumes "wf_rows plain_id t"
  shows "\<exists>ss. subseq ss (map snd (rows t)) \<and> torrents_rows regex pg useRegex val sel cmp t = sort_rows cmp (reverseSort t = ''0'') ss"
proof -
  have nil: "sort_rows cmp asc [] = []" for asc by (simp add: sort_rows_def)
  show ?thesis
  proof (cases "torrents_view regex pg useRegex val sel cmp t")
    case (Inl e)
    then show ?thesis by (intro exI [of _ "[]"]) (simp add: torrents_rows_def nil)
  next
    case (Inr rs)
    show ?thesis
    proof (cases "parse_terms regex useRegex val")
      case None
      then show ?thesis using Inr by (intro exI [of _ "[]"]) (simp add: torrents_rows_def torrents_view_def nil)
    next
      case (Some ts)
      then obtain ss where ss: "filter_rows (\<lambda>r. applyFilter pg r (selectedStatus sel) (selectedCategory sel) (selectedTag sel)
            (selectedTracker sel) ts) (map snd (rows t)) = Inr ss"
          "rs = sort_rows cmp (reverseSort t = ''0'') (array_elements (collect_rows ss))"
        using Inr by (auto simp: torrents_view_def split: sum.splits)
      have sub: "subseq ss (map snd (rows t))" using filter_rows_subseq [OF ss(1)] .
      then have "set ss \<subseteq> set (map snd (rows t))" by (rule subseq_set)
      then have "collect_rows ss = map Some ss"
        using assms by (intro collect_plain) (fastforce simp: wf_rows_def)
      then show ?thesis using sub ss(2) Inr by (intro exI [of _ ss]) (simp add: torrents_rows_def)
    qed
  qed
qed

interpretation torrents_table: table_view "torrents_rows regex pg useRegex val sel cmp" plain_id
proof
  fix t :: table
  assume w: "wf_rows plain_id t"
  obtain ss where ss: "subseq ss (map snd (rows t))" "torrents_rows regex pg useRegex val sel cmp t = sort_rows cmp (reverseSort t = ''0'') ss"
    using torrents_rows_cases [OF w] by blast
  have ids: "map row_id (map snd (rows t)) = keys (rows t)" "distinct_keys (rows t)"
    using w by (rule wf_rows_ids, simp add: wf_rows_def)
  have sub: "subseq (map row_id ss) (keys (rows t))" using subseq_map [OF ss(1), of row_id] by (simp add: ids(1) [symmetric])
  from subseq_distinct [OF sub] ids(2) show "distinct (map row_id (torrents_rows regex pg useRegex val sel cmp t))"
    by (simp add: ss(2))
  have "set (map row_id ss) \<subseteq> set (keys (rows t))" using sub by (rule subseq_set)
  then show "set (map row_id (torrents_rows regex pg useRegex val sel cmp t)) \<subseteq> set (keys (rows t))"
    by (simp add: ss(2))
qed

lemma torrents_view_ok:
  assumes w: "wf_rows plain_id t" and ok: "\<forall>r \<in> snd ` set (rows t). torrent_row_ok pg r"
    and ts: "parse_terms regex useRegex val = Some ts"
  shows "torrents_view regex pg useRegex val sel cmp t =
    Inr (sort_rows cmp (reverseSort t = ''0'') (filter (shows_row pg sel ts) (map snd (rows t))))"
proof -
  have f: "filter_rows (\<lambda>r. applyFilter pg r (selectedStatus sel) (selectedCategory sel) (selectedTag sel) (selectedTracker sel) ts)
      (map snd (rows t)) = Inr (filter (shows_row pg sel ts) (map snd (rows t)))"
    using filter_rows_total [of "map snd (rows t)" "\<lambda>r. applyFilter pg r (selectedStatus sel) (selectedCategory sel) (selectedTag sel)
        (selectedTracker sel) ts"] applyFilter_total ok
    by (simp add: shows_row_def [abs_def])
  have "collect_rows (filter (shows_row pg sel ts) (map snd (rows t))) = map Some (filter (shows_row pg sel ts) (map snd (rows t)))"
    using w by (intro collect_plain) (fastforce simp: wf_rows_def)
  then show ?thesis by (simp add: torrents_view_def ts f)
qed

text \<open>
  What the filters mean, over the facts of a torrent that the server has sent. A row carries them
  as the server's serialization writes them: the tags joined into one text.
\<close>

record torrent_facts =
  tf_state :: TorrentState
  tf_up :: rat
  tf_down :: rat
  tf_category :: string
  tf_tags :: "string list"
  tf_trackers :: nat
  tf_trackerError :: bool
  tf_announceError :: bool
  tf_warning :: bool
  tf_text :: string

definition carries :: "filter_page \<Rightarrow> torrent_facts \<Rightarrow> row \<Rightarrow> bool" where
  "carries pg i r \<longleftrightarrow>
     prop_get (full_data r) ''rowId'' = JStr (row_id r)
     \<and> prop_get (full_data r) ''state'' = JStr (torrentStateToString (tf_state i))
     \<and> prop_get (full_data r) ''upspeed'' = JNum (tf_up i) \<and> prop_get (full_data r) ''dlspeed'' = JNum (tf_down i)
     \<and> prop_get (full_data r) ''category'' = JStr (tf_category i)
     \<and> prop_get (full_data r) ''tags'' = JStr (js_join '', '' (tf_tags i))
     \<and> list_all (\<lambda>t. t \<noteq> [] \<and> CHR '','' \<notin> set t) (tf_tags i)
     \<and> prop_get (full_data r) ''trackers_count'' = JNum (of_nat (tf_trackers i))
     \<and> prop_get (full_data r) ''has_tracker_error'' = JBool (tf_trackerError i)
     \<and> prop_get (full_data r) ''has_other_announce_error'' = JBool (tf_announceError i)
     \<and> prop_get (full_data r) ''has_tracker_warning'' = JBool (tf_warning i)
     \<and> prop_get (full_data r) (fp_filterBy pg) = JStr (tf_text i)"

text \<open>A category stands for itself and for what lies below it; one that is gone filters nothing.\<close>

definition category_chosen :: "filter_page \<Rightarrow> string \<Rightarrow> string \<Rightarrow> bool" where
  "category_chosen pg cat c \<longleftrightarrow>
     cat = CATEGORIES_ALL \<or> (cat = CATEGORIES_UNCATEGORIZED \<and> c = [])
     \<or> (cat \<notin> {CATEGORIES_ALL, CATEGORIES_UNCATEGORIZED} \<and>
        (cat \<in> set (fp_categories pg) \<longrightarrow> c = cat \<or> prefix (cat @ ''/'') c))"

definition tag_chosen :: "string \<Rightarrow> string list \<Rightarrow> bool" where
  "tag_chosen tag ts \<longleftrightarrow>
     tag = TAGS_ALL \<or> (tag = TAGS_UNTAGGED \<and> ts = []) \<or> (tag \<notin> {TAGS_ALL, TAGS_UNTAGGED} \<and> tag \<in> set ts)"

text \<open>A host stands for the torrents listed under one of its URLs; one that is gone filters nothing.\<close>

definition tracker_chosen :: "filter_page \<Rightarrow> string \<Rightarrow> string \<Rightarrow> torrent_facts \<Rightarrow> bool" where
  "tracker_chosen pg tr hash i \<longleftrightarrow>
     tr = TRACKERS_ALL \<or> (tr = TRACKERS_ANNOUNCE_ERROR \<and> tf_announceError i) \<or> (tr = TRACKERS_ERROR \<and> tf_trackerError i)
     \<or> (tr = TRACKERS_WARNING \<and> tf_warning i) \<or> (tr = TRACKERS_TRACKERLESS \<and> tf_trackers i = 0)
     \<or> (tr \<notin> {TRACKERS_ALL, TRACKERS_ANNOUNCE_ERROR, TRACKERS_ERROR, TRACKERS_WARNING, TRACKERS_TRACKERLESS} \<and>
        (\<forall>urls. map_get (fp_trackers pg) tr = Some urls \<longrightarrow> (\<exists>(url, hashes) \<in> set urls. hash \<in> set hashes)))"

text \<open>
  The text field: every word must occur in the text, one after a minus must not; the case does
  not matter. With the regular expressions on, the text must match the pattern.
\<close>

definition word_holds :: "string \<Rightarrow> string \<Rightarrow> bool" where
  "word_holds s w \<longleftrightarrow>
     (case w of
        [] \<Rightarrow> True
      | c # v \<Rightarrow> if c = CHR ''-'' then v = [] \<or> \<not> sublist v s else if c = CHR ''+'' then sublist v s else sublist w s)"

definition text_chosen :: "(string \<Rightarrow> (string \<Rightarrow> bool) option) \<Rightarrow> bool \<Rightarrow> string \<Rightarrow> string \<Rightarrow> bool" where
  "text_chosen regex useRegex val s \<longleftrightarrow>
     (js_trim val = []
      \<or> (if useRegex then (\<exists>test. regex (toLowerCase (js_trim val)) = Some test \<and> test (toLowerCase s))
         else \<forall>w \<in> set (js_split '' '' (toLowerCase (js_trim val))). word_holds (toLowerCase s) w))"

definition side_chosen :: "filter_page \<Rightarrow> status_filter \<Rightarrow> string \<Rightarrow> string \<Rightarrow> string \<Rightarrow> torrent_facts \<Rightarrow> row \<Rightarrow> bool" where
  "side_chosen pg f cat tag tr i r \<longleftrightarrow>
     status_chosen f (tf_state i) (tf_up i) (tf_down i) \<and> category_chosen pg cat (tf_category i)
     \<and> tag_chosen tag (tf_tags i) \<and> tracker_chosen pg tr (row_id r) i"

lemma carries_ok: "carries pg i r \<Longrightarrow> torrent_row_ok pg r"
  by (simp add: carries_def torrent_row_ok_def)

lemma passes_category_chosen:
  "prop_get d ''category'' = JStr c \<Longrightarrow> passes_category pg cat d = Some (category_chosen pg cat c)"
  by (auto simp: passes_category_def category_chosen_def prefix_snoc CATEGORIES_ALL_def CATEGORIES_UNCATEGORIZED_def)

lemma passes_tag_chosen:
  assumes "prop_get d ''tags'' = JStr (js_join '', '' ts)" and "list_all (\<lambda>t. t \<noteq> [] \<and> CHR '','' \<notin> set t) ts" and "tag \<noteq> []"
  shows "passes_tag tag d = Some (tag_chosen tag ts)"
proof (cases ts)
  case Nil
  then show ?thesis using assms(1,3)
    by (auto simp: passes_tag_def tag_chosen_def js_split_def TAGS_ALL_def TAGS_UNTAGGED_def)
next
  case (Cons t us)
  have "js_split '', '' (js_join '', '' ts) = ts"
    using assms(2) by (intro js_split_join) (auto simp: Cons list_all_iff)
  moreover have "js_join '', '' ts \<noteq> []" using assms(2) by (cases us) (auto simp: Cons)
  ultimately show ?thesis using assms(1) Cons
    by (auto simp: passes_tag_def tag_chosen_def TAGS_ALL_def TAGS_UNTAGGED_def)
qed

lemma passes_tracker_chosen:
  assumes "carries pg i r"
  shows "passes_tracker pg tr (full_data r) \<longleftrightarrow> tracker_chosen pg tr (row_id r) i"
proof -
  note c = assms [unfolded carries_def]
  show ?thesis
  proof (cases "tr \<in> {TRACKERS_ALL, TRACKERS_ANNOUNCE_ERROR, TRACKERS_ERROR, TRACKERS_WARNING, TRACKERS_TRACKERLESS}")
    case True
    then show ?thesis using c
      by (auto simp: passes_tracker_def tracker_chosen_def js_truthy_def js_above_def TRACKERS_ALL_def TRACKERS_ANNOUNCE_ERROR_def
          TRACKERS_ERROR_def TRACKERS_WARNING_def TRACKERS_TRACKERLESS_def)
  next
    case False
    then show ?thesis using c
      by (auto simp: passes_tracker_def tracker_chosen_def list_ex_iff split: option.split)
  qed
qed

lemma word_holds_matches: "term_matches s w \<longleftrightarrow> word_holds s w"
proof (cases w)
  case (Cons c v)
  then show ?thesis
    by (cases "v = []"; cases "c = CHR ''-''"; cases "c = CHR ''+''") (simp_all add: word_holds_def js_includes_sublist)
qed (simp add: word_holds_def)

lemma passes_text_chosen:
  assumes "prop_get d (fp_filterBy pg) = JStr s" and "parse_terms regex useRegex val = Some ts"
  shows "passes_text pg ts d = Some (text_chosen regex useRegex val s)"
proof -
  have e: "toLowerCase x = [] \<longleftrightarrow> x = []" for x by (simp add: toLowerCase_def)
  from assms(2) consider (none) "js_trim val = []" "ts = NoTerms"
    | (regex) test where "js_trim val \<noteq> []" "useRegex" "regex (toLowerCase (js_trim val)) = Some test" "ts = Pattern test"
    | (words) "js_trim val \<noteq> []" "\<not> useRegex" "ts = Terms (js_split '' '' (toLowerCase (js_trim val)))"
    by (auto simp: parse_terms_def Let_def e split: if_splits)
  then show ?thesis using assms(1)
    by cases (auto simp: passes_text_def text_chosen_def containsAllTerms_def list_all_iff word_holds_matches)
qed

lemma applyFilter_chosen:
  assumes "carries pg i r" and "tag \<noteq> []" and "passes_text pg ts (full_data r) = Some b"
  shows "applyFilter pg r (filter_name f) cat tag tr ts = Inr (side_chosen pg f cat tag tr i r \<and> b)"
proof -
  note c = assms(1) [unfolded carries_def]
  have "passes_status (filter_name f) (full_data r) = Some (status_chosen f (tf_state i) (tf_up i) (tf_down i))"
    by (rule passes_status_chosen) (use c in auto)
  moreover have "passes_category pg cat (full_data r) = Some (category_chosen pg cat (tf_category i))"
    by (rule passes_category_chosen) (use c in auto)
  moreover have "passes_tag tag (full_data r) = Some (tag_chosen tag (tf_tags i))"
    by (rule passes_tag_chosen) (use c assms(2) in auto)
  ultimately show ?thesis
    using assms(3) passes_tracker_chosen [OF assms(1)] by (simp add: applyFilter_def Let_def side_chosen_def split: bool.split)
qed


lemma ex_torrents_ok: "wf_rows plain_id ex_torrents" "\<forall>r \<in> snd ` set (rows ex_torrents). torrent_row_ok ex_page r"
proof -
  have "plain_id ''a1''" "plain_id ''b2''" "plain_id ''c3''"
    by (rule plain_id_letter [of "CHR ''a''"], simp, simp add: is_digit_def)
      (rule plain_id_letter [of "CHR ''b''"], simp, simp add: is_digit_def,
       rule plain_id_letter [of "CHR ''c''"], simp, simp add: is_digit_def)
  then show "wf_rows plain_id ex_torrents" by (simp add: wf_rows_def ex_torrents_def ex_torrent_def)
  show "\<forall>r \<in> snd ` set (rows ex_torrents). torrent_row_ok ex_page r"
    by (simp add: ex_torrents_def ex_torrent_def torrent_row_ok_def ex_page_def prop_get_def)
qed

definition ex_facts :: "row \<Rightarrow> torrent_facts" where
  "ex_facts r = (let s = (if row_id r = ''a1'' then Uploading else if row_id r = ''b2'' then StoppedDownloading else StalledUploading)
     in \<lparr>tf_state = s, tf_up = (if row_id r = ''a1'' then 7 else 0), tf_down = 0, tf_category = [], tf_tags = [''x'', ''new one''],
         tf_trackers = 1, tf_trackerError = False, tf_announceError = False, tf_warning = False, tf_text = row_id r\<rparr>)"

definition ex_sent :: "string \<Rightarrow> TorrentState \<Rightarrow> rat \<Rightarrow> row" where
  "ex_sent hash s up = (ex_torrent hash s up)\<lparr>full_data := [(''rowId'', JStr hash), (''state'', JStr (torrentStateToString s)),
     (''upspeed'', JNum up), (''dlspeed'', JNum 0), (''category'', JStr []), (''tags'', JStr ''x, new one''), (''name'', JStr hash),
     (''size'', JNum up), (''trackers_count'', JNum 1), (''has_tracker_error'', JBool False),
     (''has_other_announce_error'', JBool False), (''has_tracker_warning'', JBool False)]\<rparr>"

definition ex_sent_table :: table where
  "ex_sent_table = ex_torrents\<lparr>rows := [(''a1'', ex_sent ''a1'' Uploading 7), (''b2'', ex_sent ''b2'' StoppedDownloading 0),
     (''c3'', ex_sent ''c3'' StalledUploading 0)]\<rparr>"


text \<open>
  The running and the stopped torrents partition the list, and so do the active and the
  inactive ones: the counts in the side bar add up to the number of torrents.
\<close>

theorem status_counts_partition:
  assumes "\<forall>r \<in> snd ` set (rows t). torrent_row_ok pg r"
  shows "\<exists>a b c d. getFilteredTorrentsNumber pg ''running'' CATEGORIES_ALL TAGS_ALL TRACKERS_ALL t = Inr a
    \<and> getFilteredTorrentsNumber pg ''stopped'' CATEGORIES_ALL TAGS_ALL TRACKERS_ALL t = Inr b \<and> a + b = length (rows t)
    \<and> getFilteredTorrentsNumber pg ''active'' CATEGORIES_ALL TAGS_ALL TRACKERS_ALL t = Inr c
    \<and> getFilteredTorrentsNumber pg ''inactive'' CATEGORIES_ALL TAGS_ALL TRACKERS_ALL t = Inr d \<and> c + d = length (rows t)"
proof -
  let ?rs = "map snd (rows t)"
  let ?p = "\<lambda>st r. applyFilter pg r st CATEGORIES_ALL TAGS_ALL TRACKERS_ALL NoTerms = Inr True"
  have n: "getFilteredTorrentsNumber pg st CATEGORIES_ALL TAGS_ALL TRACKERS_ALL t = Inr (length (filter (?p st) ?rs))" for st
    using filter_rows_total [of ?rs "\<lambda>r. applyFilter pg r st CATEGORIES_ALL TAGS_ALL TRACKERS_ALL NoTerms"]
      applyFilter_total assms
    by (simp add: getFilteredTorrentsNumber_def)
  have all: "?p st r \<longleftrightarrow> passes_status st (full_data r) = Some True" for st r
    by (auto simp: applyFilter_def passes_category_def passes_tag_def passes_tracker_def passes_text_def Let_def
        split: option.split bool.split)
  have "passes_status ''stopped'' (full_data r) = Some True \<longleftrightarrow> passes_status ''running'' (full_data r) \<noteq> Some True"
    if "r \<in> set ?rs" for r
  proof -
    have "passes_status ''running'' (full_data r) \<noteq> None" using passes_status_total [of pg r] assms that by (auto simp del: not_None_eq)
    then show ?thesis by (cases "js_has_text (prop_get (full_data r) ''state'') ''stopped''") (simp_all add: passes_status_def Let_def)
  qed
  then have rs: "filter (?p ''stopped'') ?rs = filter (\<lambda>r. \<not> ?p ''running'' r) ?rs"
    unfolding all by (intro filter_cong) auto
  have ai: "filter (?p ''inactive'') ?rs = filter (\<lambda>r. \<not> ?p ''active'' r) ?rs"
    unfolding all by (intro filter_cong) (auto simp: passes_status_def Let_def)
  show ?thesis
    unfolding n rs ai using sum_length_filter_compl [of "?p ''running''" ?rs] sum_length_filter_compl [of "?p ''active''" ?rs]
    by (intro exI conjI) (rule refl, rule refl, simp, rule refl, rule refl, simp)
qed

theorem status_counts_partition_witness:
  "\<exists>a b. getFilteredTorrentsNumber ex_page ''running'' CATEGORIES_ALL TAGS_ALL TRACKERS_ALL ex_torrents = Inr a
    \<and> getFilteredTorrentsNumber ex_page ''stopped'' CATEGORIES_ALL TAGS_ALL TRACKERS_ALL ex_torrents = Inr b \<and> a + b = 3"
proof -
  have "length (rows ex_torrents) = 3" by (simp add: ex_torrents_def)
  then show ?thesis using status_counts_partition [OF ex_torrents_ok(2)] by metis
qed

text \<open>
  A pattern that does not compile empties the view, but the commands on the filtered
  torrents get a \<open>ReferenceError\<close>: the handler returns a variable of another method.
\<close>

theorem bad_pattern_hashes_throw:
  assumes "regex (toLowerCase (js_trim val)) = None" and "js_trim val \<noteq> []"
  shows "torrents_view regex pg True val sel cmp t = Inr []
    \<and> getFilteredTorrentsHashes regex pg True val st cat tag tr t = Inl ReferenceError"
proof -
  have "parse_terms regex True val = None"
    using assms by (cases "js_trim val") (simp_all add: parse_terms_def Let_def toLowerCase_def)
  then show ?thesis by (simp add: torrents_view_def getFilteredTorrentsHashes_def)
qed

theorem bad_pattern_hashes_throw_witness:
  "getFilteredTorrentsHashes (\<lambda>_. None) ex_page True ''(a'' ''all'' CATEGORIES_ALL TAGS_ALL TRACKERS_ALL ex_torrents = Inl ReferenceError"
proof -
  have "js_trim ''(a'' \<noteq> []" by code_simp
  from bad_pattern_hashes_throw [where regex = "\<lambda>_. None", OF refl this] show ?thesis by blast
qed

text \<open>
  On a browser whose client data was never stored, a double click neither starts nor stops
  a torrent, while the settings page shows start and stop as what it does.
\<close>

theorem dblclick_unset_does_nothing:
  assumes "map_get (rows t) rid = Some r" and "clientData ''dblclick_download'' = None" and "clientData ''dblclick_complete'' = None"
  shows "snd (dblclick clientData rid t) = Inr None"
  using assms by (simp add: dblclick_def dblclick_pref_def selectRow_def deselectAll_def setRowClass_def Let_def)

theorem dblclick_unset_does_nothing_witness:
  "snd (dblclick (\<lambda>_. None) ''a1'' ex_torrents) = Inr None"
  by (rule dblclick_unset_does_nothing) (simp_all add: ex_torrents_def)

end
