(* ===== verification/ListTables.thy ===== *)
theory ListTables
  imports TorrentsTable
begin

text \<open>
  The other tables of \<open>dynamicTable.js\<close> that list what the server sends: peers, search results,
  search plug-ins, RSS items, log entries and torrent creation tasks; their columns, cells,
  orders and filters.
\<close>

section \<open>Peers\<close>

definition peers_columns :: "(string \<times> string \<times> rat \<times> bool) list" where
  "peers_columns = [
     (''country'', ''Country/Region'', 22, True), (''ip'', ''IP/Address'', 80, True), (''port'', ''Port'', 35, True),
     (''connection'', ''Connection'', 50, True), (''flags'', ''Flags'', 50, True), (''client'', ''Client'', 140, True),
     (''peer_id_client'', ''Peer ID Client'', 60, False), (''progress'', ''Progress'', 50, True),
     (''dl_speed'', ''Down Speed'', 50, True), (''up_speed'', ''Up Speed'', 50, True), (''downloaded'', ''Downloaded'', 50, True),
     (''uploaded'', ''Uploaded'', 50, True), (''relevance'', ''Relevance'', 30, True), (''files'', ''Files'', 100, True),
     (''shadowbanned'', ''Files'', 100, False)]"

definition peers_initColumns :: "preferences \<Rightarrow> table \<Rightarrow> table" where
  "peers_initColumns prefs t =
     set_properties ''flags'' (\<lambda>ps. ps @ [''flags_desc''])
      (set_properties ''ip'' (\<lambda>ps. ps @ [''host_name''])
       (set_properties ''country'' (\<lambda>ps. ps @ [''country_code'']) (add_columns prefs peers_columns t)))"

text \<open>The flag image and the text of a country.\<close>

definition country_cell :: "column \<Rightarrow> row \<Rightarrow> string \<times> jsval" where
  "country_cell c r =
     (let country_code = getRowValue c r 1 in
      (''url('' @ [CHR 0x27] @ ''images/flags/'' @ (if js_truthy country_code then js_String country_code else ''xx'') @ ''.svg'' @ [CHR 0x27] @ '')'',
       getRowValue c r 0))"

definition ip_cell :: "column \<Rightarrow> row \<Rightarrow> jsval" where
  "ip_cell c r = (if js_nonempty (getRowValue c r 1) = Some True then getRowValue c r 1 else getRowValue c r 0)"

definition ip_compare :: "string cmp \<Rightarrow> column \<Rightarrow> row cmp" where
  "ip_compare collate c row1 row2 = collate (js_String (getRowValue c row1 0)) (js_String (getRowValue c row2 0))"

definition flags_cell :: "column \<Rightarrow> row \<Rightarrow> jsval \<times> jsval" where
  "flags_cell c r = (getRowValue c r 0, getRowValue c r 1)"

definition peer_progress_cell :: "jsval \<Rightarrow> string" where
  "peer_progress_cell v = toFixedPointString (map_option (\<lambda>x. x * 100) (js_ToNumber v)) 1 @ ''%''"

definition peer_speed_cell :: "jsval \<Rightarrow> string" where
  "peer_speed_cell v = (if v = JNum 0 then [] else friendlyUnit (num_arg v) True)"

definition peer_size_cell :: "jsval \<Rightarrow> string" where
  "peer_size_cell v = friendlyUnit (num_arg v) False"

text \<open>The files of a peer: one line per file in the tip, semicolons in the cell.\<close>

definition files_cell :: "jsval \<Rightarrow> (string \<times> string) option" where
  "files_cell v = (case v of JStr s \<Rightarrow> Some (map (\<lambda>ch. if ch = CHR 10 then CHR '';'' else ch) s, s) | _ \<Rightarrow> None)"

section \<open>Search results\<close>

definition search_columns :: "(string \<times> string \<times> rat \<times> bool) list" where
  "search_columns = [
     (''fileName'', ''Name'', 500, True), (''fileSize'', ''Size'', 100, True), (''nbSeeders'', ''Seeders'', 100, True),
     (''nbLeechers'', ''Leechers'', 100, True), (''engineName'', ''Engine'', 100, True), (''siteUrl'', ''Engine URL'', 250, True),
     (''pubDate'', ''Published On'', 200, True)]"

definition displayNum :: "jsval \<Rightarrow> string" where
  "displayNum v = (if v = JStr ''-1'' then ''Unknown'' else js_String v)"

definition displayDate :: "(rat \<Rightarrow> string) \<Rightarrow> jsval \<Rightarrow> string" where
  "displayDate dateText v =
     (case js_ToNumber v of None \<Rightarrow> [] | Some x \<Rightarrow> if x * 1000 \<le> 0 then [] else dateText (x * 1000))"

text \<open>
  The filters of the search page. The seed bounds are kept as the code stores them: numbers at
  first, then the text of their input fields.
\<close>

record search_filters =
  sf_pattern :: string
  sf_filterPattern :: string
  sf_inName :: bool
  size_min :: jsval
  size_minUnit :: nat
  size_max :: jsval
  size_maxUnit :: nat
  seeds_min :: jsval
  seeds_max :: jsval

definition size_bound :: "jsval \<Rightarrow> nat \<Rightarrow> rat" where
  "size_bound v unit = (case js_ToNumber v of None \<Rightarrow> 0 | Some x \<Rightarrow> if 0 < x then x * 1024 ^ unit else 0)"

definition getSizeFilters :: "search_filters \<Rightarrow> rat \<times> rat" where
  "getSizeFilters f =
     (let minSize = size_bound (size_min f) (size_minUnit f);
          maxSize = size_bound (size_max f) (size_maxUnit f)
      in if maxSize < minSize \<and> 0 < maxSize then (maxSize, minSize) else (minSize, maxSize))"

definition getSeedsFilters :: "search_filters \<Rightarrow> jsval \<times> jsval" where
  "getSeedsFilters f =
     (let minSeeds = (if js_above (seeds_min f) 0 then seeds_min f else JNum 0);
          maxSeeds = (if js_above (seeds_max f) 0 then seeds_max f else JNum 0)
      in if js_less maxSeeds minSeeds \<and> js_above maxSeeds 0 then (maxSeeds, minSeeds) else (minSeeds, maxSeeds))"

definition search_terms :: "string \<Rightarrow> string list" where
  "search_terms text = js_split '' '' (toLowerCase text)"

definition passes_search :: "search_filters \<Rightarrow> row \<Rightarrow> js_error + bool" where
  "passes_search f r =
     (let d = full_data r;
          (minSize, maxSize) = getSizeFilters f;
          (minSeeds, maxSeeds) = getSeedsFilters f
      in case prop_get d ''fileName'' of
           JStr name \<Rightarrow>
             Inr ((\<not> sf_inName f \<or> containsAllTerms name (search_terms (sf_pattern f)))
               \<and> containsAllTerms name (search_terms (sf_filterPattern f))
               \<and> \<not> (0 < minSize \<and> js_less (prop_get d ''fileSize'') (JNum minSize))
               \<and> \<not> (0 < maxSize \<and> js_less (JNum maxSize) (prop_get d ''fileSize''))
               \<and> \<not> (js_above minSeeds 0 \<and> js_less (prop_get d ''nbSeeders'') minSeeds)
               \<and> \<not> (js_above maxSeeds 0 \<and> js_less maxSeeds (prop_get d ''nbSeeders'')))
         | _ \<Rightarrow> Inl TypeError)"

text \<open>The test before the loop is always true: splitting a text gives at least one term.\<close>

definition search_view :: "search_filters \<Rightarrow> row cmp \<Rightarrow> table \<Rightarrow> js_error + row list" where
  "search_view f cmp t =
     (case filter_rows (passes_search f) (map snd (rows t)) of
        Inl e \<Rightarrow> Inl e
      | Inr rs \<Rightarrow> Inr (sort_rows cmp (reverseSort t = ''0'') rs))"

lemma search_terms_nonempty: "search_terms text \<noteq> []"
  by (simp add: search_terms_def)

section \<open>Search plug-ins\<close>

definition plugins_columns :: "(string \<times> string \<times> rat \<times> bool) list" where
  "plugins_columns = [(''fullName'', ''Name'', 175, True), (''version'', ''Version'', 100, True), (''url'', ''Url'', 175, True),
     (''enabled'', ''Enabled'', 100, True)]"

definition enabled_cell :: "jsval \<Rightarrow> string \<times> string" where
  "enabled_cell v = (if js_truthy v then (''Yes'', ''green'') else (''No'', ''red''))"

section \<open>RSS\<close>

text \<open>The name of a feed with its unread count, and its image and indentation.\<close>

definition feed_cell :: "row \<Rightarrow> string \<times> string \<times> rat option" where
  "feed_cell r =
     (let d = full_data r;
          statusImg = switch_text [([''hasError''], ''images/task-reject.svg''), ([''isLoading''], ''images/spinner.svg''),
            ([''unread''], ''images/mail-inbox.svg''), ([''isFolder''], ''images/folder-documents.svg'')]
            ''images/application-rss.svg'' (prop_get d ''status'')
      in (js_String (prop_get d ''name'') @ '' ('' @ js_String (prop_get d ''unread'') @ '')'', statusImg,
          map_option (\<lambda>x. x * 20) (js_ToNumber (prop_get d ''indentation''))))"

definition rss_view :: "table \<Rightarrow> row list" where
  "rss_view t = map snd (rows t)"

text \<open>Selecting an article marks it as read; the pair is what \<open>showDetails\<close> is called with.\<close>

definition select_article :: "string \<Rightarrow> table \<Rightarrow> (table \<times> jsval \<times> jsval) option" where
  "select_article rid t =
     (let t = selectRow rid t in
      case map_get (rows t) rid of
        None \<Rightarrow> None
      | Some r \<Rightarrow>
          Some (t\<lparr>rows := map_set rid (r\<lparr>full_data := map_set ''isRead'' (JBool True) (full_data r)\<rparr>) (rows t)\<rparr>,
            prop_get (full_data r) ''feedUid'', prop_get (full_data r) ''dataId''))"

definition select_feed :: "string \<Rightarrow> table \<Rightarrow> (table \<times> jsval) option" where
  "select_feed rid t =
     (let t = selectRow rid t in
      map_option (\<lambda>r. (t, prop_get (full_data r) ''dataPath'')) (map_get (rows t) rid))"

definition select_rule :: "string \<Rightarrow> table \<Rightarrow> (table \<times> jsval) option" where
  "select_rule rid t =
     (let t = selectRow rid t in
      map_option (\<lambda>r. (t, prop_get (full_data r) ''name'')) (map_get (rows t) rid))"

text \<open>The check boxes of the downloader's rules and feeds; the rule's new state is reported.\<close>

definition check_rule :: "string \<Rightarrow> bool \<Rightarrow> table \<Rightarrow> (table \<times> jsval \<times> bool) option" where
  "check_rule rid checked t =
     (case map_get (rows t) rid of
        None \<Rightarrow> None
      | Some r \<Rightarrow>
          Some (updateRowData [(''rowId'', JStr (row_id r)), (''checked'', JBool checked)] t, prop_get (full_data r) ''name'', checked))"

definition check_feed :: "string \<Rightarrow> bool \<Rightarrow> table \<Rightarrow> table option" where
  "check_feed rid checked t =
     map_option (\<lambda>r. updateRowData [(''rowId'', JStr (row_id r)), (''checked'', JBool checked)] t) (map_get (rows t) rid)"

definition article_row_class :: "row \<Rightarrow> string" where
  "article_row_class r = (if js_truthy (prop_get (full_data r) ''isFeed'') then ''articleTableFeed'' else ''articleTableArticle'')"

section \<open>Logs\<close>

definition log_columns :: "(string \<times> string \<times> rat \<times> bool) list" where
  "log_columns = [(''rowId'', ''ID'', 50, True), (''message'', ''Message'', 350, True), (''timestamp'', ''Timestamp'', 150, True),
     (''type'', ''Log Type'', 100, True)]"

definition log_peer_columns :: "(string \<times> string \<times> rat \<times> bool) list" where
  "log_peer_columns = [(''rowId'', ''ID'', 50, True), (''ip'', ''IP'', 150, True), (''timestamp'', ''Timestamp'', 150, True),
     (''blocked'', ''Status'', 150, True), (''reason'', ''Reason'', 150, True)]"

definition log_type_cell :: "jsval \<Rightarrow> string \<times> string" where
  "log_type_cell v =
     (case js_ToNumber v of
        Some x \<Rightarrow>
          if x = 1 then (''Normal'', ''logTableRowlogNormal'')
          else if x = 2 then (''Info'', ''logTableRowlogInfo'')
          else if x = 4 then (''Warning'', ''logTableRowlogWarning'')
          else if x = 8 then (''Critical'', ''logTableRowlogCritical'')
          else (''Unknown'', ''logTableRowlogUnknown'')
      | None \<Rightarrow> (''Unknown'', ''logTableRowlogUnknown''))"

definition blocked_cell :: "jsval \<Rightarrow> string \<times> string" where
  "blocked_cell v = (if js_truthy v then (''Blocked'', ''logTableRowpeerBlocked'') else (''Banned'', ''logTableRowpeerBanned''))"

definition log_terms :: "string \<Rightarrow> string list" where
  "log_terms filterText = (if filterText \<noteq> [] then js_split '' '' (toLowerCase filterText) else [])"

definition js_text_has_terms :: "jsval \<Rightarrow> string list \<Rightarrow> js_error + bool" where
  "js_text_has_terms v ts = (case v of JStr s \<Rightarrow> Inr (containsAllTerms s ts) | _ \<Rightarrow> Inl TypeError)"

text \<open>\<open>type.toString()\<close> throws on \<open>undefined\<close> and \<open>null\<close>.\<close>

definition passes_log :: "string list \<Rightarrow> string list \<Rightarrow> row \<Rightarrow> js_error + bool" where
  "passes_log logLevels filterTerms r =
     (let d = full_data r in
      if prop_get d ''type'' \<in> {JUndef, JNull} then Inl TypeError
      else if js_String (prop_get d ''type'') \<notin> set logLevels then Inr False
      else if filterTerms = [] then Inr True
      else js_text_has_terms (prop_get d ''message'') filterTerms)"

definition log_view :: "string \<Rightarrow> string list \<Rightarrow> row cmp \<Rightarrow> table \<Rightarrow> js_error + row list" where
  "log_view filterText logLevels cmp t =
     (let filterTerms = log_terms filterText;
          filtered = (if filterTerms \<noteq> [] \<or> length logLevels < 4
                      then filter_rows (passes_log logLevels filterTerms) (map snd (rows t)) else Inr (map snd (rows t)))
      in case filtered of Inl e \<Rightarrow> Inl e | Inr rs \<Rightarrow> Inr (sort_rows cmp (reverseSort t = ''0'') rs))"

definition log_peer_view :: "string \<Rightarrow> row cmp \<Rightarrow> table \<Rightarrow> js_error + row list" where
  "log_peer_view filterText cmp t =
     (let filterTerms = log_terms filterText;
          filtered = (if filterTerms \<noteq> []
                      then filter_rows (\<lambda>r. js_text_has_terms (prop_get (full_data r) ''ip'') filterTerms) (map snd (rows t))
                      else Inr (map snd (rows t)))
      in case filtered of Inl e \<Rightarrow> Inl e | Inr rs \<Rightarrow> Inr (sort_rows cmp (reverseSort t = ''0'') rs))"

section \<open>Torrent creation tasks\<close>

definition tasks_columns :: "(string \<times> string \<times> rat \<times> bool) list" where
  "tasks_columns = [
     (''state_icon'', ''Status Icon'', 30, False), (''source_path'', ''Source Path'', 200, True), (''progress'', ''Progress'', 85, True),
     (''status'', ''Status'', 100, True), (''torrent_format'', ''Format'', 100, True), (''piece_size'', ''Piece Size'', 100, True),
     (''private'', ''Private'', 30, True), (''added_on'', ''Added On'', 100, True), (''start_on'', ''Started On'', 100, True),
     (''completion_on'', ''Completed On'', 100, True), (''trackers'', ''Trackers'', 100, True),
     (''web_seeds'', ''Web Seeds'', 100, False), (''comment'', ''Comment'', 100, True), (''source'', ''Source'', 100, False),
     (''error_message'', ''Error Message'', 100, True)]"

definition tasks_initColumns :: "preferences \<Rightarrow> table \<Rightarrow> table" where
  "tasks_initColumns prefs t =
     set_properties ''source_path'' (\<lambda>ps. ps @ [''status''])
      (set_properties ''state_icon'' (\<lambda>ps. ps[0 := ''status'']) (add_columns prefs tasks_columns t))"

definition task_icon_classes :: "jsval \<Rightarrow> string" where
  "task_icon_classes state = ''stateIcon '' @ switch_text [([''Running''], ''stateRunning''), ([''Queued''], ''stateQueued''),
     ([''Finished''], ''stateStoppedUP''), ([''Failed''], ''stateError'')] ''stateUnknown'' state"

definition task_state_icon_cell :: "jsval \<Rightarrow> string" where
  "task_state_icon_cell v = task_icon_classes v @ '' stateIconColumn''"

definition source_path_cell :: "table \<Rightarrow> column \<Rightarrow> row \<Rightarrow> string \<times> jsval" where
  "source_path_cell t c r =
     (let isStateIconShown = (case find_column t ''state_icon'' of None \<Rightarrow> True | Some s \<Rightarrow> \<not> isVisible s)
      in (if isStateIconShown then task_icon_classes (getRowValue c r 1) else [], getRowValue c r 0))"

definition task_status_cell :: "jsval \<Rightarrow> string option" where
  "task_status_cell v =
     (if \<not> js_truthy v then None
      else Some (switch_text [([''Queued''], ''Queued''), ([''Running''], ''Running''), ([''Finished''], ''Finished''),
        ([''Failed''], ''Failed'')] ''Unknown'' v))"

definition torrent_format_cell :: "jsval \<Rightarrow> string option" where
  "torrent_format_cell v =
     (if \<not> js_truthy v then None
      else Some (switch_text [([''v1''], ''V1''), ([''v2''], ''V2''), ([''hybrid''], ''Hybrid'')] ''Unknown'' v))"

definition piece_size_cell :: "jsval \<Rightarrow> string" where
  "piece_size_cell v = (if v = JNum 0 then ''N/A'' else friendlyUnit (num_arg v) False)"

definition task_private_cell :: "jsval \<Rightarrow> string" where
  "task_private_cell v = (if js_truthy v then ''Yes'' else ''No'')"

definition task_date_cell :: "(jsval \<Rightarrow> string) \<Rightarrow> jsval \<Rightarrow> string" where
  "task_date_cell dateText v = (if js_truthy v then dateText v else [])"

section \<open>Properties of the filters\<close>

definition ordered_bounds :: "rat \<Rightarrow> rat \<Rightarrow> rat \<times> rat" where
  "ordered_bounds x y = (let m = (if 0 < x then x else 0); n = (if 0 < y then y else 0)
     in if n < m \<and> 0 < n then (n, m) else (m, n))"

text \<open>A value between two bounds given in either order; a bound that is not positive is none.\<close>

definition between :: "rat \<Rightarrow> rat \<Rightarrow> rat \<Rightarrow> bool" where
  "between x y v \<longleftrightarrow> (if 0 < x \<and> 0 < y then min x y \<le> v \<and> v \<le> max x y
     else if 0 < x then x \<le> v else if 0 < y then v \<le> y else True)"

lemma between_ordered_bounds:
  "ordered_bounds x y = (lo, hi) \<Longrightarrow> between x y v \<longleftrightarrow> \<not> (0 < lo \<and> v < lo) \<and> \<not> (0 < hi \<and> hi < v)"
  by (cases "0 < x"; cases "0 < y") (auto simp: ordered_bounds_def between_def Let_def min_def max_def split: if_splits)

text \<open>
  A result passes the size and seed bounds exactly when its size and its seeds lie between
  the bounds, taken in either order, a bound that is not positive being none; here the bounds on
  the seeds are numbers.
\<close>

theorem passes_search_bounds:
  assumes "prop_get (full_data r) ''fileName'' = JStr name" and "prop_get (full_data r) ''fileSize'' = JNum sz"
    and "prop_get (full_data r) ''nbSeeders'' = JNum seeds"
    and "size_min f = JNum a" and "size_max f = JNum b" and "seeds_min f = JNum c" and "seeds_max f = JNum d"
  shows "passes_search f r = Inr (
     (\<not> sf_inName f \<or> containsAllTerms name (search_terms (sf_pattern f)))
     \<and> containsAllTerms name (search_terms (sf_filterPattern f))
     \<and> between (a * 1024 ^ size_minUnit f) (b * 1024 ^ size_maxUnit f) sz \<and> between c d seeds)"
proof -
  have pos: "0 < x * 1024 ^ n \<longleftrightarrow> 0 < x" for x :: rat and n by (simp add: zero_less_mult_iff)
  have szb: "size_bound (JNum x) n = (if 0 < x * 1024 ^ n then x * 1024 ^ n else 0)" for x n
    by (simp add: size_bound_def pos)
  obtain lo hi where s: "getSizeFilters f = (lo, hi)" by fastforce
  obtain l h where e: "ordered_bounds c d = (l, h)" by fastforce
  have sizes: "ordered_bounds (a * 1024 ^ size_minUnit f) (b * 1024 ^ size_maxUnit f) = (lo, hi)"
    using s by (simp add: getSizeFilters_def ordered_bounds_def assms szb Let_def)
  have "getSeedsFilters f = (JNum l, JNum h)"
    using e by (auto simp: getSeedsFilters_def ordered_bounds_def assms Let_def js_above_def js_less_def split: if_splits)
  moreover have "js_less (JNum x) (JNum y) \<longleftrightarrow> x < y" "js_above (JNum x) 0 \<longleftrightarrow> 0 < x" for x y
    by (simp_all add: js_less_def js_above_def)
  ultimately show ?thesis
    unfolding passes_search_def Let_def s prod.case assms(1-3) jsval.case
    by (simp only: prod.case between_ordered_bounds [OF sizes] between_ordered_bounds [OF e] conj_assoc)
qed

definition ex_result :: row where
  "ex_result = \<lparr>row_id = ''0'', full_data = [(''fileName'', JStr ''Linux ISO''), (''fileSize'', JNum 3000000), (''nbSeeders'', JNum 7)],
     delta = []\<rparr>"

definition ex_filters :: search_filters where
  "ex_filters = \<lparr>sf_pattern = ''linux'', sf_filterPattern = [], sf_inName = True, size_min = JNum 1, size_minUnit = 2,
     size_max = JNum 1, size_maxUnit = 3, seeds_min = JNum 10, seeds_max = JNum 5\<rparr>"

theorem passes_search_bounds_witness:
  "passes_search ex_filters ex_result = Inr True"
proof -
  have "containsAllTerms ''Linux ISO'' (search_terms ''linux'')" "containsAllTerms ''Linux ISO'' (search_terms [])" by code_simp+
  moreover have "prop_get (full_data ex_result) ''fileName'' = JStr ''Linux ISO''"
    "prop_get (full_data ex_result) ''fileSize'' = JNum 3000000" "prop_get (full_data ex_result) ''nbSeeders'' = JNum 7"
    by (simp_all add: ex_result_def prop_get_def)
  ultimately show ?thesis
    using passes_search_bounds [of ex_result "''Linux ISO''" 3000000 7 ex_filters 1 1 10 5]
    by (simp add: ex_filters_def between_def)
qed

text \<open>
  The fields for the seeds are stored as text, and two texts compare as texts: with 5 as the
  least and 10 as the greatest number of seeds the bounds are exchanged, and no result passes.
\<close>

theorem seeds_text_bounds_hide_all:
  assumes "seeds_min f = JStr ''5''" and "seeds_max f = JStr ''10''" and "prop_get (full_data r) ''nbSeeders'' = JNum n"
  shows "passes_search f r \<noteq> Inr True"
proof -
  have num: "js_Number ''5'' = Some 5" "js_Number ''10'' = Some 10" by code_simp+
  then have "getSeedsFilters f = (JStr ''10'', JStr ''5'')"
    by (simp add: getSeedsFilters_def assms js_above_def js_less_def Let_def)
  moreover have "js_above (JStr ''10'') 0" "js_above (JStr ''5'') 0" by (simp_all add: js_above_def num)
  moreover have "js_less (JNum n) (JStr ''10'') \<or> js_less (JStr ''5'') (JNum n)" by (auto simp: js_less_def num)
  ultimately show ?thesis
    by (auto simp: passes_search_def assms(3) Let_def split: jsval.split prod.split)
qed

theorem seeds_text_bounds_hide_all_witness:
  "passes_search (ex_filters\<lparr>seeds_min := JStr ''5'', seeds_max := JStr ''10''\<rparr>) ex_result \<noteq> Inr True"
  by (rule seeds_text_bounds_hide_all [of _ _ 7]) (simp_all add: ex_result_def prop_get_def)

text \<open>
  With all four levels chosen and no text the log shows every entry, and otherwise those of
  the chosen levels whose message has the terms; the early exit for the full list shows what
  the loop would show when the four levels are all there are.
\<close>

theorem log_view_full:
  assumes "\<forall>r \<in> snd ` set (rows t). \<exists>ty m. prop_get (full_data r) ''type'' = JNum ty \<and> prop_get (full_data r) ''message'' = JStr m
      \<and> js_num_str ty \<in> set levels"
    and "length levels = 4"
  shows "log_view [] levels cmp t = Inr (sort_rows cmp (reverseSort t = ''0'') (map snd (rows t)))
    \<and> filter_rows (passes_log levels []) (map snd (rows t)) = Inr (map snd (rows t))"
proof -
  have ok: "passes_log levels [] r = Inr True" if "r \<in> set (map snd (rows t))" for r
    using assms(1) that by (auto simp: passes_log_def Let_def)
  have "filter_rows (passes_log levels []) rs = Inr rs" if "\<forall>r \<in> set rs. passes_log levels [] r = Inr True" for rs
    using that by (induction rs) auto
  then show ?thesis using ok assms(2) by (simp add: log_view_def log_terms_def)
qed

section \<open>Showing a column\<close>

text \<open>The class that \<open>updateColumn\<close> gives the header and the cells of a column; without such a
  column it reads a property of \<open>undefined\<close>.\<close>

definition updateColumn :: "string \<Rightarrow> table \<Rightarrow> js_error + bool" where
  "updateColumn columnName t = (case find_column t columnName of None \<Rightarrow> Inl TypeError | Some c \<Rightarrow> Inr (isVisible c))"

text \<open>Switching the icon column of the creation tasks: both columns are redrawn in turn.\<close>

definition tasks_showIcon :: "bool \<Rightarrow> preferences \<Rightarrow> table \<Rightarrow> (preferences \<times> table) \<times> (js_error + bool)" where
  "tasks_showIcon sh prefs t =
     (let (prefs, t) = showColumn ''state_icon'' sh prefs t
      in ((prefs, t), (case updateColumn ''state_icon'' t of Inl e \<Rightarrow> Inl e | Inr _ \<Rightarrow> updateColumn ''name'' t)))"

lemma add_columns_names: "map col_name (columns (add_columns prefs cs t)) = map col_name (columns t) @ map fst cs"
  by (induction cs arbitrary: t) (auto simp: add_columns_def newColumn_def)

lemma set_properties_names [simp]: "map col_name (columns (set_properties nm f t)) = map col_name (columns t)"
  by (simp add: set_properties_def comp_def if_distrib [of col_name])

text \<open>
  Showing or hiding the icon column of the creation tasks stores the choice and then throws:
  the handler redraws a column \<open>name\<close>, which only the table of torrents has.
\<close>

theorem tasks_showIcon_throws:
  assumes "columns t = []"
  shows "snd (tasks_showIcon sh prefs' (tasks_initColumns prefs t)) = Inl TypeError
    \<and> map_get (fst (fst (tasks_showIcon sh prefs' (tasks_initColumns prefs t))))
        (column_pref ''state_icon'' ''visible'' (tableId (tasks_initColumns prefs t))) = Some (if sh then ''1'' else ''0'')"
proof -
  have names: "map col_name (columns (snd (showColumn nm sh prefs' u))) = map col_name (columns u)" for nm u
    by (simp add: showColumn_def comp_def if_distrib [of col_name])
  have "map col_name (columns (tasks_initColumns prefs t)) = map fst tasks_columns"
    by (simp add: tasks_initColumns_def add_columns_names assms)
  then have n: "map col_name (columns (snd (showColumn ''state_icon'' sh prefs' (tasks_initColumns prefs t)))) = map fst tasks_columns"
    using names [of "''state_icon''" "tasks_initColumns prefs t"] by simp
  have "''name'' \<notin> set (map fst tasks_columns)" by (simp add: tasks_columns_def)
  then have "''name'' \<notin> set (map col_name (columns (snd (showColumn ''state_icon'' sh prefs' (tasks_initColumns prefs t)))))"
    unfolding n .
  then have "find_column (snd (showColumn ''state_icon'' sh prefs' (tasks_initColumns prefs t))) ''name'' = None"
    unfolding find_column_def find_None_iff by (metis image_eqI set_map)
  then have none: "updateColumn ''name'' (snd (showColumn ''state_icon'' sh prefs' (tasks_initColumns prefs t))) = Inl TypeError"
    by (simp add: updateColumn_def)
  obtain p u where pu: "showColumn ''state_icon'' sh prefs' (tasks_initColumns prefs t) = (p, u)" by fastforce
  have p: "map_set (column_pref ''state_icon'' ''visible'' (tableId (tasks_initColumns prefs t))) (if sh then ''1'' else ''0'') prefs' = p"
    using arg_cong [OF pu, of fst] by (simp only: showColumn_def fst_conv)
  have icon: "updateColumn ''state_icon'' u = Inl e \<Longrightarrow> e = TypeError" for e
    by (simp add: updateColumn_def split: option.splits)
  have "tasks_showIcon sh prefs' (tasks_initColumns prefs t) = ((p, u), Inl TypeError)"
    using none icon unfolding tasks_showIcon_def pu by (cases "updateColumn ''state_icon'' u") simp_all
  then show ?thesis by (simp add: p [symmetric])
qed

theorem tasks_showIcon_throws_witness:
  "snd (tasks_showIcon True [] (tasks_initColumns [] (ex_table\<lparr>columns := []\<rparr>))) = Inl TypeError"
  by (rule tasks_showIcon_throws [THEN conjunct1]) simp

end
