(* ===== verification/TrackersTable.thy ===== *)
theory TrackersTable
  imports FilesTable ListTables
begin

text \<open>
  The class \<open>TorrentTrackersTable\<close> of \<open>dynamicTable.js\<close>: trackers with their announce endpoints
  listed below them. An endpoint names its tracker in \<open>_tracker\<close>; a tracker starts collapsed.
  Collapsed endpoints are left out of a virtual table and hidden in the other.
\<close>

section \<open>State and view\<close>

record trackers_table =
  tt_base :: table
  tt_collapse :: "(string, bool) jsmap"

definition isTrackerCollapsed :: "trackers_table \<Rightarrow> string \<Rightarrow> bool" where
  "isTrackerCollapsed tt rid = (case map_get (tt_collapse tt) rid of None \<Rightarrow> True | Some b \<Rightarrow> b)"

definition clearCollapseState :: "trackers_table \<Rightarrow> trackers_table" where
  "clearCollapseState tt = tt\<lparr>tt_collapse := []\<rparr>"

definition tracker_of :: "row \<Rightarrow> string option" where
  "tracker_of r = (case prop_get (full_data r) ''_tracker'' of JStr s \<Rightarrow> if s = [] then None else Some s | _ \<Rightarrow> None)"

definition updateEndpointVisibility :: "string \<Rightarrow> bool \<Rightarrow> trackers_table \<Rightarrow> trackers_table" where
  "updateEndpointVisibility endpoint shouldHide tt = tt\<lparr>tt_base := set_invisible endpoint shouldHide (tt_base tt)\<rparr>"

definition updateTrackerRowState :: "string \<Rightarrow> bool \<Rightarrow> trackers_table \<Rightarrow> trackers_table" where
  "updateTrackerRowState rid shouldCollapse tt =
     (if useVirtualList (tt_base tt) then tt
      else fold (\<lambda>r tt. if tracker_of r = Some rid then updateEndpointVisibility (row_id r) shouldCollapse tt else tt)
             (map snd (rows (tt_base tt))) tt)"

definition toggleTrackerCollapsed :: "string \<Rightarrow> trackers_table \<Rightarrow> trackers_table" where
  "toggleTrackerCollapsed rid tt =
     (let tt = tt\<lparr>tt_collapse := map_set rid (\<not> isTrackerCollapsed tt rid) (tt_collapse tt)\<rparr>
      in updateTrackerRowState rid (isTrackerCollapsed tt rid) tt)"

text \<open>The first loop of the view: the trackers, and the endpoints under their trackers.\<close>

definition collect_tracker ::
  "trackers_table \<Rightarrow> row list \<times> (string, row list) jsmap \<Rightarrow> row \<Rightarrow> row list \<times> (string, row list) jsmap" where
  "collect_tracker tt acc r =
     (case acc of (trackers, endpoints) \<Rightarrow>
        (case tracker_of r of
           Some tracker \<Rightarrow>
             if useVirtualList (tt_base tt) \<and> isTrackerCollapsed tt tracker then (trackers, endpoints)
             else (case map_get endpoints tracker of
                     None \<Rightarrow> (trackers, map_set tracker [r] endpoints)
                   | Some es \<Rightarrow> (trackers, map_set tracker (es @ [r]) endpoints))
         | None \<Rightarrow> (trackers @ [r], endpoints)))"

text \<open>
  \<open>Array.prototype.sort\<close> is the argument \<open>srt\<close>: the comparisons of this table are no orders, as a
  row that is not sortable ties with every other, and then the language leaves it open which
  order the sort gives.
\<close>

definition sort_by :: "(row cmp \<Rightarrow> row list \<Rightarrow> row list) \<Rightarrow> row cmp \<Rightarrow> bool \<Rightarrow> row list \<Rightarrow> row list" where
  "sort_by srt cmp isReverseSort rs =
     srt (\<lambda>row1 row2. let result = cmp row1 row2 in if isReverseSort then result else - result) rs"

definition trackers_view :: "(row cmp \<Rightarrow> row list \<Rightarrow> row list) \<Rightarrow> row cmp \<Rightarrow> trackers_table \<Rightarrow> row list" where
  "trackers_view srt cmp tt =
     (let (trackers, endpoints) = foldl (collect_tracker tt) ([], []) (map snd (rows (tt_base tt)));
          asc = (reverseSort (tt_base tt) = ''0'')
      in concat (map (\<lambda>tracker. tracker # sort_by srt cmp asc
             (case map_get endpoints (row_id tracker) of None \<Rightarrow> [] | Some es \<Rightarrow> es))
           (sort_by srt cmp asc trackers)))"

text \<open>The rows decide the view; \<open>super.updateTable\<close> runs with the collapse state unchanged.\<close>

definition trackers_fsr :: "(row cmp \<Rightarrow> row list \<Rightarrow> row list) \<Rightarrow> row cmp \<Rightarrow> trackers_table \<Rightarrow> table \<Rightarrow> row list" where
  "trackers_fsr srt cmp tt t = trackers_view srt cmp (tt\<lparr>tt_base := t\<rparr>)"

definition hide_endpoints :: "trackers_table \<Rightarrow> trackers_table" where
  "hide_endpoints tt =
     fold (\<lambda>r tt. if js_truthy (prop_get (full_data r) ''_isTracker'') then tt
             else updateEndpointVisibility (row_id r) (case tracker_of r of None \<Rightarrow> True | Some k \<Rightarrow> isTrackerCollapsed tt k) tt)
       (map snd (rows (tt_base tt))) tt"

definition trackers_updateTable ::
  "(row cmp \<Rightarrow> row list \<Rightarrow> row list) \<Rightarrow> row cmp \<Rightarrow> bool \<Rightarrow> trackers_table \<Rightarrow> trackers_table" where
  "trackers_updateTable srt cmp full tt =
     (let tt = tt\<lparr>tt_base := updateTable (trackers_fsr srt cmp tt) full (tt_base tt)\<rparr>
      in if useVirtualList (tt_base tt) then tt else hide_endpoints tt)"

section \<open>Cells and orders\<close>

definition trackers_columns :: "(string \<times> string \<times> rat \<times> bool) list" where
  "trackers_columns = [
     (''url'', ''URL/Announce Endpoint'', 250, True), (''tier'', ''Tier'', 35, True), (''btVersion'', ''BT Protocol'', 35, True),
     (''status'', ''Status'', 125, True), (''peers'', ''Peers'', 75, True), (''seeds'', ''Seeds'', 75, True),
     (''leeches'', ''Leeches'', 75, True), (''downloaded'', ''Times Downloaded'', 100, True), (''message'', ''Message'', 250, True),
     (''nextAnnounce'', ''Next Announce'', 150, True), (''minAnnounce'', ''Min Announce'', 150, True)]"

definition sortable :: "row \<Rightarrow> bool" where
  "sortable r \<longleftrightarrow> js_truthy (prop_get (full_data r) ''_sortable'')"

definition naturalSort :: "string cmp \<Rightarrow> column \<Rightarrow> row cmp" where
  "naturalSort collate c row1 row2 =
     (if \<not> sortable row1 \<or> \<not> sortable row2 then 0
      else collate (js_String (getRowValue c row1 0)) (js_String (getRowValue c row2 0)))"

definition sortNumbers :: "column \<Rightarrow> row cmp" where
  "sortNumbers c row1 row2 =
     (if \<not> sortable row1 \<or> \<not> sortable row2 then 0
      else if getRowValue c row1 0 = JStr [] then -1
      else if getRowValue c row2 0 = JStr [] then 1
      else js_compareNumbers (getRowValue c row1 0) (getRowValue c row2 0))"

definition sortMixed :: "column \<Rightarrow> row cmp" where
  "sortMixed c row1 row2 =
     (if \<not> sortable row1 \<or> \<not> sortable row2 then 0
      else if getRowValue c row1 0 = JStr ''N/A'' then -1
      else if getRowValue c row2 0 = JStr ''N/A'' then 1
      else js_compareNumbers (getRowValue c row1 0) (getRowValue c row2 0))"

text \<open>The icon of the first column (shown, visible, rotated), the text and its indentation.\<close>

definition tracker_url_cell :: "trackers_table \<Rightarrow> row \<Rightarrow> (bool \<times> bool \<times> bool) option \<times> jsval \<times> nat" where
  "tracker_url_cell tt r =
     (let d = full_data r; isTracker = js_truthy (prop_get d ''_isTracker'') in
      (if isTracker then Some (True, js_truthy (prop_get d ''_hasEndpoints''), isTrackerCollapsed tt (row_id r)) else None,
       prop_get d ''url'', if isTracker then 0 else 20))"

definition tracker_status_class :: "jsval \<Rightarrow> string" where
  "tracker_status_class status = switch_text [([''Disabled''], ''trackerDisabled''), ([''Not contacted yet''], ''trackerNotContacted''),
     ([''Working''], ''trackerWorking''), ([''Updating...''], ''trackerUpdating''),
     ([''Not working'', ''Tracker error'', ''Unreachable''], ''trackerNotWorking'')] ''trackerUnknown'' status"

definition announce_cell :: "rat \<Rightarrow> jsval \<Rightarrow> string option" where
  "announce_cell now v =
     (case js_ToNumber (if v = JUndef then JNum 0 else v) of
        None \<Rightarrow> None
      | Some x \<Rightarrow> Some (friendlyDuration (max (x - now) 0) MAX_ETA))"

definition trackers_dblclick :: "string \<Rightarrow> string option" where
  "trackers_dblclick rid = (if startsWith rid ''** ['' \<or> startsWith rid ''endpoint|'' then None else Some rid)"

section \<open>Endpoints follow their tracker\<close>

definition shown_endpoints :: "trackers_table \<Rightarrow> string \<Rightarrow> row list" where
  "shown_endpoints tt tracker =
     (if useVirtualList (tt_base tt) \<and> isTrackerCollapsed tt tracker then []
      else filter (\<lambda>r. tracker_of r = Some tracker) (map snd (rows (tt_base tt))))"

definition get_list :: "(string, row list) jsmap \<Rightarrow> string \<Rightarrow> row list" where
  "get_list m k = (case map_get m k of None \<Rightarrow> [] | Some es \<Rightarrow> es)"

lemma collect_trackers:
  "foldl (collect_tracker tt) (ts, m) rs = (ts', m') \<Longrightarrow>
     ts' = ts @ filter (\<lambda>r. tracker_of r = None) rs
     \<and> get_list m' k = get_list m k @ (if useVirtualList (tt_base tt) \<and> isTrackerCollapsed tt k then []
          else filter (\<lambda>r. tracker_of r = Some k) rs)"
proof (induction rs arbitrary: ts m)
  case (Cons r rs)
  obtain ts1 m1 where c: "collect_tracker tt (ts, m) r = (ts1, m1)" by fastforce
  have "ts1 = ts @ (if tracker_of r = None then [r] else [])"
    using c by (auto simp: collect_tracker_def split: option.splits if_splits)
  moreover have "get_list m1 k = get_list m k @ (if tracker_of r = Some k
      \<and> \<not> (useVirtualList (tt_base tt) \<and> isTrackerCollapsed tt k) then [r] else [])"
    using c by (auto simp: collect_tracker_def get_list_def split: option.splits if_splits)
  ultimately show ?case using Cons.IH [of ts1 m1] Cons.prems c by auto
qed simp

lemma trackers_view_eq:
  "trackers_view srt cmp tt = (let asc = (reverseSort (tt_base tt) = ''0'') in
     concat (map (\<lambda>t. t # sort_by srt cmp asc (shown_endpoints tt (row_id t)))
       (sort_by srt cmp asc (filter (\<lambda>r. tracker_of r = None) (map snd (rows (tt_base tt)))))))"
proof -
  obtain ts m where f: "foldl (collect_tracker tt) ([], []) (map snd (rows (tt_base tt))) = (ts, m)" by fastforce
  have "ts = filter (\<lambda>r. tracker_of r = None) (map snd (rows (tt_base tt)))" "get_list m k = shown_endpoints tt k" for k
    using collect_trackers [OF f, of k] by (simp_all add: shown_endpoints_def get_list_def)
  then show ?thesis unfolding trackers_view_def f by (simp add: get_list_def Let_def)
qed

lemma distinct_concat_map:
  "distinct xs \<Longrightarrow> (\<And>x. x \<in> set xs \<Longrightarrow> distinct (f x)) \<Longrightarrow>
     (\<And>x y. x \<in> set xs \<Longrightarrow> y \<in> set xs \<Longrightarrow> x \<noteq> y \<Longrightarrow> set (f x) \<inter> set (f y) = {}) \<Longrightarrow> distinct (concat (map f xs))"
  by (induction xs) auto

lemma wf_rows_distinct:
  assumes "wf_rows ok t"
  shows "distinct (map snd (rows t))" "r \<in> set (map snd (rows t)) \<Longrightarrow> r' \<in> set (map snd (rows t)) \<Longrightarrow> row_id r = row_id r' \<Longrightarrow> r = r'"
proof -
  have d: "distinct (map row_id (map snd (rows t)))" using assms by (simp only: wf_rows_ids [OF assms]) (simp add: wf_rows_def)
  then show "distinct (map snd (rows t))" by (simp only: distinct_map)
  show "r \<in> set (map snd (rows t)) \<Longrightarrow> r' \<in> set (map snd (rows t)) \<Longrightarrow> row_id r = row_id r' \<Longrightarrow> r = r'"
    using d unfolding distinct_map by (auto dest: inj_onD)
qed

text \<open>
  What the language promises of its sort: the result has the elements of the array, and where the
  comparison is an order on them it is the stable sorted one, which \<open>js_sort\<close> computes.
\<close>

locale array_sorting =
  fixes srt :: "row cmp \<Rightarrow> row list \<Rightarrow> row list"
  assumes srt_mset: "mset (srt cmp xs) = mset xs"
    and srt_order: "comparator_on (set xs) cmp \<Longrightarrow> srt cmp xs = js_sort cmp xs"
begin

lemma sort_by_mset [simp]: "mset (sort_by srt cmp asc rs) = mset rs"
  by (simp add: sort_by_def srt_mset)

lemma sort_by_set [simp]: "set (sort_by srt cmp asc rs) = set rs"
  by (rule mset_eq_setD) simp

lemma sort_by_distinct [simp]: "distinct (sort_by srt cmp asc rs) = distinct rs"
  by (rule mset_eq_imp_distinct_iff) simp

lemma sort_by_rows: "comparator_on (set rs) cmp \<Longrightarrow> sort_by srt cmp asc rs = sort_rows cmp asc rs"
  using comparator_on.comparator_reverse [of "set rs" cmp] by (cases asc) (simp_all add: sort_by_def sort_rows_def srt_order)

lemma sort_by_sorted:
  "comparator_on (set rs) cmp \<Longrightarrow>
     sorted_wrt (\<lambda>x y. if asc then cmp x y \<le> 0 else 0 \<le> cmp x y) (sort_by srt cmp asc rs)"
  using sort_rows_correct(1) [of "set rs" cmp rs asc] by (simp add: sort_by_rows)

end

interpretation js_sorting: array_sorting js_sort
  by unfold_locales (simp_all add: mset_js_sort)

lemma shown_endpoints_in: "r \<in> set (shown_endpoints tt k) \<Longrightarrow> r \<in> set (map snd (rows (tt_base tt))) \<and> tracker_of r = Some k"
  by (auto simp: shown_endpoints_def split: if_splits)

lemma trackers_view_distinct:
  assumes "array_sorting srt" and "wf_rows ok (tt_base tt)"
  shows "distinct (trackers_view srt cmp tt)" "set (trackers_view srt cmp tt) \<subseteq> set (map snd (rows (tt_base tt)))"
proof -
  note [simp] = array_sorting.sort_by_set [OF assms(1)] array_sorting.sort_by_distinct [OF assms(1)]
  let ?rs = "map snd (rows (tt_base tt))"
  let ?ts = "sort_by srt cmp (reverseSort (tt_base tt) = ''0'') (filter (\<lambda>r. tracker_of r = None) ?rs)"
  have d: "distinct (shown_endpoints tt k)" for k using wf_rows_distinct(1) [OF assms(2)] by (simp add: shown_endpoints_def)
  have id: "row_id r \<noteq> row_id r'" if "r \<in> set ?ts" "r' \<in> set ?ts" "r \<noteq> r'" for r r'
    using wf_rows_distinct(2) [OF assms(2), of r r'] that by (auto simp del: set_map)
  show "distinct (trackers_view srt cmp tt)"
    unfolding trackers_view_eq Let_def
  proof (rule distinct_concat_map)
    show "distinct ?ts" using wf_rows_distinct(1) [OF assms(2)] by simp
    show "distinct (r # sort_by srt cmp (reverseSort (tt_base tt) = ''0'') (shown_endpoints tt (row_id r)))" if "r \<in> set ?ts" for r
      using d that shown_endpoints_in [of r tt "row_id r"] by auto
    show "set (r # sort_by srt cmp (reverseSort (tt_base tt) = ''0'') (shown_endpoints tt (row_id r)))
        \<inter> set (r' # sort_by srt cmp (reverseSort (tt_base tt) = ''0'') (shown_endpoints tt (row_id r'))) = {}"
      if "r \<in> set ?ts" "r' \<in> set ?ts" "r \<noteq> r'" for r r'
      using id [OF that] that shown_endpoints_in by (auto dest!: shown_endpoints_in)
  qed
  show "set (trackers_view srt cmp tt) \<subseteq> set ?rs"
    unfolding trackers_view_eq Let_def using shown_endpoints_in by fastforce
qed


text \<open>
  A row that is not sortable, and every table has those of DHT, PeX and LSD, ties with two trackers
  that are different: the trackers have no order with it.
\<close>

lemma unsortable_no_order:
  assumes "\<not> sortable u" and "naturalSort collate c x y > 0" and "u \<in> A" "x \<in> A" "y \<in> A"
  shows "\<not> comparator_on A (naturalSort collate c)"
proof
  assume "comparator_on A (naturalSort collate c)"
  moreover have "naturalSort collate c x u \<le> 0" "naturalSort collate c u y \<le> 0" using assms(1) by (simp_all add: naturalSort_def)
  ultimately have "naturalSort collate c x y \<le> 0" by (rule comparator_on.cmp_trans [OF _ assms(4,3,5)])
  then show False using assms(2) by simp
qed

context array_sorting
begin

sublocale trackers_fsr_view: table_view "trackers_fsr srt cmp tt" plain_id
proof
  fix t :: table
  assume w: "wf_rows plain_id t"
  let ?tt = "tt\<lparr>tt_base := t\<rparr>"
  have w': "wf_rows plain_id (tt_base ?tt)" using w by simp
  note v = trackers_view_distinct [OF array_sorting_axioms w', of cmp]
  have inj: "inj_on row_id (set (map snd (rows t)))" using wf_rows_distinct(2) [OF w] by (intro inj_onI) simp
  show "distinct (map row_id (trackers_fsr srt cmp tt t))"
    unfolding trackers_fsr_def distinct_map using v inj_on_subset [OF inj] by simp
  show "set (map row_id (trackers_fsr srt cmp tt t)) \<subseteq> set (keys (rows t))"
    unfolding trackers_fsr_def wf_rows_ids [OF w, symmetric] using v(2) by auto
qed

end

section \<open>Hidden endpoints\<close>

text \<open>In a table without a virtual list, the endpoint rows that are drawn are hidden exactly
  when their tracker is collapsed.\<close>

definition endpoints_hidden :: "trackers_table \<Rightarrow> bool" where
  "endpoints_hidden tt \<longleftrightarrow> (\<forall>r \<in> snd ` set (rows (tt_base tt)). \<forall>k c. tracker_of r = Some k \<longrightarrow>
     map_get (trs (tt_base tt)) (row_id r) = Some c \<longrightarrow> is_invisible c = isTrackerCollapsed tt k)"

text \<open>The rows of the trackers themselves are never hidden.\<close>

definition trackers_shown :: "trackers_table \<Rightarrow> bool" where
  "trackers_shown tt \<longleftrightarrow> (\<forall>r \<in> snd ` set (rows (tt_base tt)). \<forall>c. tracker_of r = None \<longrightarrow>
     map_get (trs (tt_base tt)) (row_id r) = Some c \<longrightarrow> \<not> is_invisible c)"

lemma get_set_invisible:
  "map_get (trs (set_invisible key b t)) k =
     (if k = key then map_option (\<lambda>c. c\<lparr>is_invisible := b\<rparr>) (map_get (trs t) k) else map_get (trs t) k)"
proof -
  have "map_get (map (\<lambda>(k, c). (k, if k = key then c\<lparr>is_invisible := b\<rparr> else c)) m) k =
     (if k = key then map_option (\<lambda>c. c\<lparr>is_invisible := b\<rparr>) (map_get m k) else map_get m k)" for m :: "(string, tr_class) jsmap"
    by (induction m) auto
  then show ?thesis by (simp add: set_invisible_def)
qed

lemma updateEndpointVisibility_simps [simp]:
  "rows (tt_base (updateEndpointVisibility e b tt)) = rows (tt_base tt)"
  "tt_collapse (updateEndpointVisibility e b tt) = tt_collapse tt"
  "useVirtualList (tt_base (updateEndpointVisibility e b tt)) = useVirtualList (tt_base tt)"
  "isTrackerCollapsed (updateEndpointVisibility e b tt) k = isTrackerCollapsed tt k"
  "map_get (trs (tt_base (updateEndpointVisibility e b tt))) k =
     (if k = e then map_option (\<lambda>c. c\<lparr>is_invisible := b\<rparr>) (map_get (trs (tt_base tt)) k) else map_get (trs (tt_base tt)) k)"
  by (simp_all add: updateEndpointVisibility_def isTrackerCollapsed_def get_set_invisible, simp_all add: set_invisible_def)

text \<open>A pass over rows that sets the visibility of the rows \<open>P\<close> to \<open>f\<close> of the row.\<close>

lemma fold_visibility:
  assumes "distinct (map row_id rs)" and "rows (tt_base tt) = rows0" "tt_collapse tt = col" "useVirtualList (tt_base tt) = vl"
    and "\<forall>r \<in> set rs. \<forall>u. tt_collapse u = col \<longrightarrow>
      step r u = (if P r then updateEndpointVisibility (row_id r) (f r) u else u)"
  shows "rows (tt_base (fold step rs tt)) = rows0 \<and> tt_collapse (fold step rs tt) = col
    \<and> useVirtualList (tt_base (fold step rs tt)) = vl
    \<and> (\<forall>r \<in> set rs. map_get (trs (tt_base (fold step rs tt))) (row_id r) =
         (if P r then map_option (\<lambda>c. c\<lparr>is_invisible := f r\<rparr>) (map_get (trs (tt_base tt)) (row_id r))
          else map_get (trs (tt_base tt)) (row_id r)))
    \<and> (\<forall>k. k \<notin> row_id ` set rs \<longrightarrow> map_get (trs (tt_base (fold step rs tt))) k = map_get (trs (tt_base tt)) k)"
  using assms
proof (induction rs arbitrary: tt)
  case (Cons r rs)
  define u where "u = (if P r then updateEndpointVisibility (row_id r) (f r) tt else tt)"
  have step: "step r tt = u" using Cons.prems unfolding u_def by simp
  have u: "rows (tt_base u) = rows0" "tt_collapse u = col" "useVirtualList (tt_base u) = vl"
    using Cons.prems(2-4) by (auto simp: u_def)
  have keep: "k \<noteq> row_id r \<Longrightarrow> map_get (trs (tt_base u)) k = map_get (trs (tt_base tt)) k" for k by (simp add: u_def)
  have own: "map_get (trs (tt_base u)) (row_id r) = (if P r then map_option (\<lambda>c. c\<lparr>is_invisible := f r\<rparr>) (map_get (trs (tt_base tt)) (row_id r))
          else map_get (trs (tt_base tt)) (row_id r))" by (simp add: u_def)
  have other: "row_id r \<notin> row_id ` set rs" using Cons.prems(1) by auto
  then have same: "map_get (trs (tt_base u)) (row_id x) = map_get (trs (tt_base tt)) (row_id x)" if "x \<in> set rs" for x
    using that keep [of "row_id x"] by (metis image_eqI)
  show ?case
    using Cons.IH [OF _ u] Cons.prems(1,5) other own same keep unfolding fold_simps step by simp
qed simp

text \<open>As the page makes the rows: a row is flagged as a tracker if it names no tracker that it is below.\<close>

definition rows_flagged :: "trackers_table \<Rightarrow> bool" where
  "rows_flagged tt \<longleftrightarrow> (\<forall>r \<in> snd ` set (rows (tt_base tt)).
     js_truthy (prop_get (full_data r) ''_isTracker'') = (tracker_of r = None))"

lemma hide_endpoints_hides:
  assumes "wf_rows ok (tt_base tt)" "rows_flagged tt"
  shows "endpoints_hidden (hide_endpoints tt)" "trackers_shown tt \<Longrightarrow> trackers_shown (hide_endpoints tt)"
proof -
  let ?rs = "map snd (rows (tt_base tt))"
  let ?f = "\<lambda>r. case tracker_of r of None \<Rightarrow> True | Some k \<Rightarrow> (case map_get (tt_collapse tt) k of None \<Rightarrow> True | Some b \<Rightarrow> b)"
  let ?P = "\<lambda>r. \<not> js_truthy (prop_get (full_data r) ''_isTracker'')"
  have d: "distinct (map row_id ?rs)" using assms(1) by (simp only: wf_rows_ids [OF assms(1)]) (simp add: wf_rows_def)
  let ?step = "\<lambda>r tt. if js_truthy (prop_get (full_data r) ''_isTracker'') then tt
             else updateEndpointVisibility (row_id r) (case tracker_of r of None \<Rightarrow> True | Some k \<Rightarrow> isTrackerCollapsed tt k) tt"
  have "\<forall>r \<in> set ?rs. \<forall>u. tt_collapse u = tt_collapse tt \<longrightarrow>
      ?step r u = (if ?P r then updateEndpointVisibility (row_id r) (?f r) u else u)"
    by (auto simp: isTrackerCollapsed_def split: option.split)
  note h = fold_visibility [OF d refl refl refl this]
  have drawn: "map_get (trs (tt_base (fold ?step ?rs tt))) (row_id r) =
      (if tracker_of r = None then map_get (trs (tt_base tt)) (row_id r)
       else map_option (\<lambda>c. c\<lparr>is_invisible := ?f r\<rparr>) (map_get (trs (tt_base tt)) (row_id r)))"
    if "r \<in> set ?rs" for r
  proof -
    have flag: "js_truthy (prop_get (full_data r) ''_isTracker'') = (tracker_of r = None)"
      by (rule bspec [OF assms(2) [unfolded rows_flagged_def]]) (use that in simp)
    have "map_get (trs (tt_base (fold ?step ?rs tt))) (row_id r) =
      (if ?P r then map_option (\<lambda>c. c\<lparr>is_invisible := ?f r\<rparr>) (map_get (trs (tt_base tt)) (row_id r)) else map_get (trs (tt_base tt)) (row_id r))"
      using h that by blast
    then show ?thesis unfolding flag by (cases "tracker_of r") (simp_all only: option.simps if_True if_False simp_thms not_None_eq)
  qed
  have in_rs: "r \<in> set ?rs" if "r \<in> snd ` set (rows (tt_base (fold ?step ?rs tt)))" for r
    using h that by (simp del: set_map) simp
  have "endpoints_hidden (fold ?step ?rs tt)"
    unfolding endpoints_hidden_def
  proof (intro ballI allI impI)
    fix r k c
    assume r: "r \<in> snd ` set (rows (tt_base (fold ?step ?rs tt)))" "tracker_of r = Some k"
      "map_get (trs (tt_base (fold ?step ?rs tt))) (row_id r) = Some c"
    then have "map_option (\<lambda>c. c\<lparr>is_invisible := ?f r\<rparr>) (map_get (trs (tt_base tt)) (row_id r)) = Some c"
      unfolding drawn [OF in_rs [OF r(1)]] by simp
    then have "is_invisible c = ?f r" by auto
    then show "is_invisible c = isTrackerCollapsed (fold ?step ?rs tt) k"
      using h r(2) by (simp add: isTrackerCollapsed_def)
  qed
  then show "endpoints_hidden (hide_endpoints tt)" by (simp add: hide_endpoints_def)
  show "trackers_shown (hide_endpoints tt)" if s: "trackers_shown tt"
    unfolding hide_endpoints_def trackers_shown_def
  proof (intro ballI allI impI)
    fix r c
    assume r: "r \<in> snd ` set (rows (tt_base (fold ?step ?rs tt)))" "tracker_of r = None"
      "map_get (trs (tt_base (fold ?step ?rs tt))) (row_id r) = Some c"
    then show "\<not> is_invisible c" using s in_rs [OF r(1)] unfolding drawn [OF in_rs [OF r(1)]] trackers_shown_def by auto
  qed
qed

lemma toggle_hides:
  assumes "wf_rows ok (tt_base tt)" "\<not> useVirtualList (tt_base tt)"
  shows "endpoints_hidden tt \<Longrightarrow> endpoints_hidden (toggleTrackerCollapsed k tt)"
    and "trackers_shown tt \<Longrightarrow> trackers_shown (toggleTrackerCollapsed k tt)"
proof -
  let ?tt = "tt\<lparr>tt_collapse := map_set k (\<not> isTrackerCollapsed tt k) (tt_collapse tt)\<rparr>"
  let ?rs = "map snd (rows (tt_base tt))"
  have d: "distinct (map row_id ?rs)" using assms(1) by (simp only: wf_rows_ids [OF assms(1)]) (simp add: wf_rows_def)
  let ?step = "\<lambda>r u. if tracker_of r = Some k then updateEndpointVisibility (row_id r) (isTrackerCollapsed ?tt k) u else u"
  have "\<forall>r \<in> set ?rs. \<forall>u. tt_collapse u = tt_collapse ?tt \<longrightarrow>
      ?step r u = (if tracker_of r = Some k then updateEndpointVisibility (row_id r) (isTrackerCollapsed ?tt k) u else u)"
    by simp
  note h = fold_visibility [where tt = ?tt and P = "\<lambda>r. tracker_of r = Some k" and f = "\<lambda>_. isTrackerCollapsed ?tt k",
      OF d refl refl refl this]
  have other: "isTrackerCollapsed ?tt k' = isTrackerCollapsed tt k'" if "k' \<noteq> k" for k'
    using that by (simp add: isTrackerCollapsed_def)
  have "endpoints_hidden (fold ?step ?rs ?tt)" if eh: "endpoints_hidden tt"
    unfolding endpoints_hidden_def
  proof (intro ballI allI impI)
    fix r k' c
    assume r: "r \<in> snd ` set (rows (tt_base (fold ?step ?rs ?tt)))" "tracker_of r = Some k'"
      "map_get (trs (tt_base (fold ?step ?rs ?tt))) (row_id r) = Some c"
    have same: "isTrackerCollapsed (fold ?step ?rs ?tt) k' = isTrackerCollapsed ?tt k'"
      using h by (simp add: isTrackerCollapsed_def)
    have in_rs: "r \<in> set ?rs" using h r(1) by (simp del: set_map) simp
    then have c: "(if tracker_of r = Some k then map_option (\<lambda>c. c\<lparr>is_invisible := isTrackerCollapsed ?tt k\<rparr>)
        (map_get (trs (tt_base ?tt)) (row_id r)) else map_get (trs (tt_base ?tt)) (row_id r)) = Some c"
      using h r(3) by (metis (no_types, lifting))
    show "is_invisible c = isTrackerCollapsed (fold ?step ?rs ?tt) k'"
    proof (cases "k' = k")
      case True
      then show ?thesis using c r(2) same by auto
    next
      case False
      then have "map_get (trs (tt_base tt)) (row_id r) = Some c" using c r(2) by simp
      then show ?thesis using eh in_rs r(2) same other [OF False] by (auto simp: endpoints_hidden_def)
    qed
  qed
  then show "endpoints_hidden tt \<Longrightarrow> endpoints_hidden (toggleTrackerCollapsed k tt)"
    using assms(2) by (simp add: toggleTrackerCollapsed_def updateTrackerRowState_def Let_def)
  have "trackers_shown (fold ?step ?rs ?tt)" if s: "trackers_shown tt"
    unfolding trackers_shown_def
  proof (intro ballI allI impI)
    fix r c
    assume r: "r \<in> snd ` set (rows (tt_base (fold ?step ?rs ?tt)))" "tracker_of r = None"
      "map_get (trs (tt_base (fold ?step ?rs ?tt))) (row_id r) = Some c"
    then have in_rs: "r \<in> set ?rs" using h by (simp del: set_map) simp
    have "map_get (trs (tt_base (fold ?step ?rs ?tt))) (row_id r) = map_get (trs (tt_base tt)) (row_id r)"
      using bspec [OF h [THEN conjunct2, THEN conjunct2, THEN conjunct2, THEN conjunct1] in_rs] r(2) by simp
    then have "map_get (trs (tt_base tt)) (row_id r) = Some c" using r(3) by simp
    then show "\<not> is_invisible c" using s in_rs r(2) by (auto simp: trackers_shown_def)
  qed
  then show "trackers_shown tt \<Longrightarrow> trackers_shown (toggleTrackerCollapsed k tt)"
    using assms(2) by (simp add: toggleTrackerCollapsed_def updateTrackerRowState_def Let_def)
qed

lemma rows_flagged_data:
  assumes "map row_data (rows (tt_base uu)) = map row_data (rows (tt_base tt))" and "rows_flagged tt"
  shows "rows_flagged uu"
  unfolding rows_flagged_def
proof
  fix r
  assume r: "r \<in> snd ` set (rows (tt_base uu))"
  then obtain k where "(k, r) \<in> set (rows (tt_base uu))" by auto
  then have "row_data (k, r) \<in> set (map row_data (rows (tt_base uu)))" by simp
  then obtain e where e: "e \<in> set (rows (tt_base tt))" "row_data e = row_data (k, r)" unfolding assms(1) by auto
  then have full: "full_data (snd e) = full_data r" by (simp add: row_data_def)
  then have same: "tracker_of (snd e) = tracker_of r" by (simp add: tracker_of_def)
  have "snd e \<in> snd ` set (rows (tt_base tt))" using e(1) by simp
  then show "js_truthy (prop_get (full_data r) ''_isTracker'') = (tracker_of r = None)"
    using assms(2) unfolding rows_flagged_def full [symmetric] same [symmetric] by blast
qed

text \<open>Drawing the base table hides no row: a row drawn before keeps its class, a new one has none.\<close>

lemma updateTable_hidden:
  assumes "\<not> useVirtualList t" and "map_get (trs (updateTable fsr full t)) k = Some c" and "is_invisible c"
  shows "map_get (trs t) k = Some c"
proof -
  have "map_get (map (\<lambda>rid. (rid, f rid)) ids) k = Some c \<Longrightarrow> f k = c" for f :: "string \<Rightarrow> tr_class" and ids
    by (induction ids) (auto split: if_splits)
  then show ?thesis using assms by (force simp: updateTable_def Let_def blank_tr_def split: option.splits)
qed

lemma trackers_shown_drawn:
  assumes "\<not> useVirtualList (tt_base tt)" and "trackers_shown tt"
  shows "trackers_shown (tt\<lparr>tt_base := updateTable fsr full (tt_base tt)\<rparr>)"
  unfolding trackers_shown_def
proof (intro ballI allI impI notI)
  let ?t = "updateTable fsr full (tt_base tt)"
  fix r c
  assume r: "r \<in> snd ` set (rows (tt_base (tt\<lparr>tt_base := ?t\<rparr>)))" "tracker_of r = None"
    "map_get (trs (tt_base (tt\<lparr>tt_base := ?t\<rparr>))) (row_id r) = Some c" "is_invisible c"
  then obtain k where "(k, r) \<in> set (rows ?t)" by auto
  then have "row_data (k, r) \<in> set (map row_data (rows ?t))" unfolding set_map by (rule imageI)
  then obtain e where e: "e \<in> set (rows (tt_base tt))" "row_data e = row_data (k, r)" unfolding row_data_updateTable by auto
  then have "snd e \<in> snd ` set (rows (tt_base tt))" "tracker_of (snd e) = None" "row_id (snd e) = row_id r"
    using r(2) by (simp_all add: row_data_def tracker_of_def)
  then show False
    using assms(2) [unfolded trackers_shown_def, rule_format, of "snd e" c]
      updateTable_hidden [OF assms(1), of fsr full "row_id r" c] r(3,4) by simp
qed

text \<open>
  C31: In a table without a virtual list, drawing the table hides exactly the endpoints of
  collapsed trackers, whatever endpoints were hidden before, and no tracker; opening or closing a
  tracker keeps that: the rows on the page always agree with the collapse state.
\<close>

theorem trackers_hidden_invariant:
  assumes "\<not> useVirtualList (tt_base tt)" and "wf_rows ok (tt_base tt)" and "rows_flagged tt" and "trackers_shown tt"
  shows "endpoints_hidden (trackers_updateTable srt cmp full tt) \<and> trackers_shown (trackers_updateTable srt cmp full tt)
    \<and> trackers_shown (toggleTrackerCollapsed k tt)
    \<and> (endpoints_hidden tt \<longrightarrow> endpoints_hidden (toggleTrackerCollapsed k tt))
    \<and> isTrackerCollapsed (toggleTrackerCollapsed k tt) k = (\<not> isTrackerCollapsed tt k)"
proof -
  let ?tt = "tt\<lparr>tt_base := updateTable (trackers_fsr srt cmp tt) full (tt_base tt)\<rparr>"
  have data: "map row_data (rows (tt_base ?tt)) = map row_data (rows (tt_base tt))"
    by simp
  have "wf_rows ok (tt_base ?tt)" by (rule wf_rows_data [OF data assms(2)])
  moreover have "rows_flagged ?tt" by (rule rows_flagged_data [OF data assms(3)])
  moreover have "trackers_shown ?tt" by (rule trackers_shown_drawn [OF assms(1,4)])
  moreover have "\<not> useVirtualList (tt_base ?tt)" using assms(1) by (simp add: updateTable_def Let_def)
  ultimately have "endpoints_hidden (trackers_updateTable srt cmp full tt)" "trackers_shown (trackers_updateTable srt cmp full tt)"
    using hide_endpoints_hides [of ok ?tt] by (simp_all add: trackers_updateTable_def Let_def)
  moreover have "tt_collapse (fold (\<lambda>r u. if tracker_of r = Some k then updateEndpointVisibility (row_id r) b u else u) rs u) = tt_collapse u"
    for rs b u by (induction rs arbitrary: u) simp_all
  then have "isTrackerCollapsed (toggleTrackerCollapsed k tt) k = (\<not> isTrackerCollapsed tt k)"
    by (simp add: toggleTrackerCollapsed_def updateTrackerRowState_def isTrackerCollapsed_def Let_def)
  ultimately show ?thesis using toggle_hides [OF assms(2,1), of k] assms(4) by blast
qed

definition ex_tracker_row :: "string \<Rightarrow> string \<Rightarrow> bool \<Rightarrow> row" where
  "ex_tracker_row rid tracker isTracker = \<lparr>row_id = rid, full_data = [(''rowId'', JStr rid), (''_tracker'', JStr tracker),
     (''_isTracker'', JBool isTracker), (''_sortable'', JBool True), (''peers'', JStr ''N/A'')], delta = []\<rparr>"

definition ex_trackers :: trackers_table where
  "ex_trackers = \<lparr>tt_base = ex_table\<lparr>rows := map (\<lambda>r. (row_id r, r)) [ex_tracker_row ''t'' [] True, ex_tracker_row ''u'' [] True,
     ex_tracker_row ''e'' ''t'' False], trs := [(''t'', blank_tr), (''e'', blank_tr)]\<rparr>, tt_collapse = [(''t'', False)]\<rparr>"

lemma ex_trackers_ok: "\<not> useVirtualList (tt_base ex_trackers)" "wf_rows (\<lambda>_. True) (tt_base ex_trackers)" "rows_flagged ex_trackers"
    "endpoints_hidden ex_trackers" "trackers_shown ex_trackers"
  by (simp_all add: ex_trackers_def ex_tracker_row_def ex_table_def wf_rows_def rows_flagged_def tracker_of_def prop_get_def
      js_truthy_def endpoints_hidden_def trackers_shown_def isTrackerCollapsed_def blank_tr_def)

text \<open>
  The rows as the page has them: those of DHT, PeX and LSD, which are not sortable, a tracker and
  its two endpoints, by address.
\<close>

definition ex_url_row :: "string \<Rightarrow> string \<Rightarrow> bool \<Rightarrow> row" where
  "ex_url_row rid tracker can_sort = \<lparr>row_id = rid, full_data = [(''rowId'', JStr rid), (''url'', JStr rid), (''_tracker'', JStr tracker),
     (''_isTracker'', JBool (tracker = [])), (''_sortable'', JBool can_sort)], delta = []\<rparr>"

definition ex_page_trackers :: trackers_table where
  "ex_page_trackers = \<lparr>tt_base = ex_table\<lparr>reverseSort := ''0'', rows := map (\<lambda>r. (row_id r, r)) [ex_url_row ''** [DHT] **'' [] False,
     ex_url_row ''** [PeX] **'' [] False, ex_url_row ''** [LSD] **'' [] False, ex_url_row ''u'' [] True, ex_url_row ''t'' [] True,
     ex_url_row ''e2'' ''t'' True, ex_url_row ''e1'' ''t'' True]\<rparr>, tt_collapse = []\<rparr>"

definition ex_url_column :: column where
  "ex_url_column = \<lparr>col_name = ''url'', caption = [], col_style = [], visible = [], force_hide = False, width = None,
     dataProperties = [''url'']\<rparr>"


theorem trackers_hidden_invariant_witness:
  "endpoints_hidden (toggleTrackerCollapsed ''t'' ex_trackers) \<and> trackers_shown (trackers_updateTable js_sort (\<lambda>_ _. 0) False ex_trackers)"
  using trackers_hidden_invariant [OF ex_trackers_ok(1-3,5), of js_sort "\<lambda>_ _. 0" False "''t''"] ex_trackers_ok(4) by blast

text \<open>
  The comparison of the peers, seeds, leeches and downloads of trackers is not consistent:
  of two trackers that show no number each comes before the other.
\<close>

theorem sortMixed_inconsistent:
  assumes "sortable r" and "sortable r'" and "getRowValue c r 0 = JStr ''N/A''" and "getRowValue c r' 0 = JStr ''N/A''"
  shows "sortMixed c r r' = -1 \<and> sortMixed c r' r = -1 \<and> sortMixed c r r = -1"
  using assms by (simp add: sortMixed_def)

theorem sortMixed_inconsistent_witness:
  "sortMixed \<lparr>col_name = ''peers'', caption = [], col_style = [], visible = [], force_hide = False, width = None, dataProperties = [''peers'']\<rparr>
     (ex_tracker_row ''t'' [] True) (ex_tracker_row ''t'' [] True) = -1"
  by (rule sortMixed_inconsistent [THEN conjunct1])
    (simp_all add: ex_tracker_row_def sortable_def getRowValue_def prop_get_def js_truthy_def)

end
