(* ===== verification/SyncClient.thy ===== *)
theory SyncClient
  imports ListTables
begin

text \<open>
  The main data of \<open>client.js\<close>: the response to \<open>sync/maindata\<close> merged into the torrents table,
  the maps of categories, tags and trackers and the server state; the side bar drawn from them;
  and the loop that asks again. The JSON of a response is taken as the record below: absent
  properties are \<open>None\<close>, and object properties are listed in their order of enumeration. In the
  objects of torrents, \<open>category\<close> and \<open>tags\<close> are texts when present, which is what the server
  sends; anything else stands for a \<open>TypeError\<close>.
\<close>

section \<open>The state of the page\<close>

record category_data =
  savePath :: jsval
  downloadPath :: jsval
  cat_torrents :: "string list"

record client =
  categoryMap :: "(string, category_data) jsmap"
  tagMap :: "(string, string list) jsmap"
  trackerMap :: "(string, (string, string list) jsmap) jsmap"
  torrentsTable :: table
  serverState :: jsobj
  syncMainDataLastResponseId :: rat
  chosen :: selection
  localPrefs :: preferences

text \<open>The part of the state that the filters of the torrents table read.\<close>

definition page_of :: "string \<Rightarrow> client \<Rightarrow> filter_page" where
  "page_of filterBy c = \<lparr>fp_categories = keys (categoryMap c), fp_trackers = trackerMap c, fp_filterBy = filterBy\<rparr>"

record sync_response =
  full_update :: bool
  response_id :: rat
  r_categories :: "(string \<times> jsobj) list option"
  categories_removed :: "string list option"
  r_tags :: "string list option"
  tags_removed :: "string list option"
  r_trackers :: "(string \<times> string list) list option"
  trackers_removed :: "string list option"
  r_torrents :: "(string \<times> jsobj) list option"
  torrents_removed :: "string list option"
  server_state :: "jsobj option"

text \<open>The lists that have to be drawn again.\<close>

record updates =
  updateStatuses :: bool
  updateCategories :: bool
  updateTags :: bool
  updateTrackers :: bool
  updateTorrents :: bool

section \<open>Torrents in the lists of categories and tags\<close>

definition removeTorrentFromCategoryList :: "string option \<Rightarrow> client \<Rightarrow> client \<times> bool" where
  "removeTorrentFromCategoryList hash c =
     (case hash of
        None \<Rightarrow> (c, False)
      | Some h \<Rightarrow> (c\<lparr>categoryMap := map (\<lambda>(n, d). (n, d\<lparr>cat_torrents := set_delete h (cat_torrents d)\<rparr>)) (categoryMap c)\<rparr>,
                  list_ex (\<lambda>(n, d). h \<in> set (cat_torrents d)) (categoryMap c)))"

definition addTorrentToCategoryList :: "string \<Rightarrow> jsobj \<Rightarrow> client \<Rightarrow> js_error + client \<times> bool" where
  "addTorrentToCategoryList hash torrent c =
     (case prop_get torrent ''category'' of
        JUndef \<Rightarrow> Inr (c, False)
      | JStr category \<Rightarrow>
          if category = [] then Inr (fst (removeTorrentFromCategoryList (Some hash) c), True)
          else let d = (case map_get (categoryMap c) category of
                          Some d \<Rightarrow> d
                        | None \<Rightarrow> \<lparr>savePath = JUndef, downloadPath = JUndef, cat_torrents = []\<rparr>);
                   c = c\<lparr>categoryMap := map_set category d (categoryMap c)\<rparr>
               in if hash \<in> set (cat_torrents d) then Inr (c, False)
                  else let c = fst (removeTorrentFromCategoryList (Some hash) c)
                       in Inr (c\<lparr>categoryMap :=
                            map_set category (d\<lparr>cat_torrents := set_add hash (cat_torrents d)\<rparr>) (categoryMap c)\<rparr>, True)
      | _ \<Rightarrow> Inl TypeError)"

definition removeTorrentFromTagList :: "string option \<Rightarrow> client \<Rightarrow> client \<times> bool" where
  "removeTorrentFromTagList hash c =
     (case hash of
        None \<Rightarrow> (c, False)
      | Some h \<Rightarrow> (c\<lparr>tagMap := map (\<lambda>(n, ts). (n, set_delete h ts)) (tagMap c)\<rparr>,
                  list_ex (\<lambda>(n, ts). h \<in> set ts) (tagMap c)))"

definition add_tag :: "string \<Rightarrow> client \<times> bool \<Rightarrow> string \<Rightarrow> client \<times> bool" where
  "add_tag hash = (\<lambda>(c, added) tag.
     (let ts = (case map_get (tagMap c) tag of Some ts \<Rightarrow> ts | None \<Rightarrow> [])
      in (c\<lparr>tagMap := map_set tag (set_add hash ts) (tagMap c)\<rparr>, added \<or> hash \<notin> set ts)))"

definition addTorrentToTagList :: "string \<Rightarrow> jsobj \<Rightarrow> client \<Rightarrow> js_error + client \<times> bool" where
  "addTorrentToTagList hash torrent c =
     (case prop_get torrent ''tags'' of
        JUndef \<Rightarrow> Inr (c, False)
      | JStr tags \<Rightarrow>
          (let c = fst (removeTorrentFromTagList (Some hash) c)
           in if tags = [] then Inr (c, True) else Inr (foldl (add_tag hash) (c, False) (js_split '', '' tags)))
      | _ \<Rightarrow> Inl TypeError)"

section \<open>Merging a response\<close>

text \<open>\<open>fsr\<close> is the table's \<open>getFilteredAndSortedRows\<close>, which reads the page.\<close>

definition clear_client :: "(client \<Rightarrow> table \<Rightarrow> row list) \<Rightarrow> client \<Rightarrow> client" where
  "clear_client fsr c =
     c\<lparr>torrentsTable := clear_table (fsr c) (torrentsTable c), categoryMap := [], tagMap := [], trackerMap := []\<rparr>"

definition merge_category :: "client \<Rightarrow> string \<times> jsobj \<Rightarrow> client" where
  "merge_category c = (\<lambda>(responseName, responseData).
     (let path = prop_get responseData ''savePath'';
          dpath = prop_get responseData ''download_path'';
          d = (case map_get (categoryMap c) responseName of
                 None \<Rightarrow> \<lparr>savePath = path, downloadPath = (if dpath = JUndef then JNull else dpath), cat_torrents = []\<rparr>
               | Some d \<Rightarrow> d\<lparr>savePath := (if path \<noteq> JUndef then path else savePath d),
                             downloadPath := (if dpath \<noteq> JUndef then dpath else downloadPath d)\<rparr>)
      in c\<lparr>categoryMap := map_set responseName d (categoryMap c)\<rparr>))"

definition remove_category :: "client \<Rightarrow> string \<Rightarrow> client" where
  "remove_category c category = c\<lparr>categoryMap := map_delete category (categoryMap c)\<rparr>"

definition merge_tag :: "client \<Rightarrow> string \<Rightarrow> client" where
  "merge_tag c tag = (if map_has (tagMap c) tag then c else c\<lparr>tagMap := map_set tag [] (tagMap c)\<rparr>)"

definition remove_tag :: "client \<Rightarrow> string \<Rightarrow> client" where
  "remove_tag c tag = c\<lparr>tagMap := map_delete tag (tagMap c)\<rparr>"

definition merge_tracker :: "(string \<Rightarrow> string option) \<Rightarrow> client \<Rightarrow> string \<times> string list \<Rightarrow> client" where
  "merge_tracker urlHostname c = (\<lambda>(tracker, torrents).
     (let host = getHost urlHostname tracker;
          trackerListItem = (case map_get (trackerMap c) host of None \<Rightarrow> [] | Some m \<Rightarrow> m)
      in c\<lparr>trackerMap := map_set host (map_set tracker (set_of_list torrents) trackerListItem) (trackerMap c)\<rparr>))"

definition remove_tracker :: "(string \<Rightarrow> string option) \<Rightarrow> client \<Rightarrow> string \<Rightarrow> client" where
  "remove_tracker urlHostname c tracker =
     (let host = getHost urlHostname tracker
      in case map_get (trackerMap c) host of
           None \<Rightarrow> c
         | Some m \<Rightarrow>
             (let m = map_delete tracker m
              in if m \<noteq> [] then c\<lparr>trackerMap := map_set host m (trackerMap c)\<rparr>
                 else let c = c\<lparr>trackerMap := map_delete host (trackerMap c)\<rparr>
                      in if selectedTracker (chosen c) = host
                         then c\<lparr>chosen := (chosen c)\<lparr>selectedTracker := TRACKERS_ALL\<rparr>,
                                localPrefs := map_set ''selected_tracker'' TRACKERS_ALL (localPrefs c)\<rparr>
                         else c))"

definition statusSortOrder :: "(string \<times> int) list" where
  "statusSortOrder = (''unknown'', -1) # zip
     [''forcedDL'', ''downloading'', ''forcedMetaDL'', ''metaDL'', ''stalledDL'', ''forcedUP'', ''uploading'',
      ''stalledUP'', ''checkingResumeData'', ''queuedDL'', ''queuedUP'', ''checkingUP'', ''checkingDL'',
      ''stoppedDL'', ''stoppedUP'', ''moving'', ''missingFiles'', ''error''] [0..17]"

definition status_order :: "jsval \<Rightarrow> jsval" where
  "status_order state = (case map_of statusSortOrder (js_String state) of None \<Rightarrow> JUndef | Some n \<Rightarrow> JNum (of_int n))"

definition complete_torrent :: "string \<Rightarrow> jsobj \<Rightarrow> jsobj" where
  "complete_torrent key torrent =
     (let t = map_set ''rowId'' (JStr key) (map_set ''hash'' (JStr key) torrent);
          state = prop_get t ''state''
      in if js_truthy state then map_set ''_statusOrder'' (status_order state) (map_set ''status'' state t) else t)"

definition merge_torrent :: "string \<times> jsobj \<Rightarrow> client \<times> updates \<Rightarrow> js_error + client \<times> updates" where
  "merge_torrent = (\<lambda>(key, torrent) (c, u).
     (let t = complete_torrent key torrent;
          c = c\<lparr>torrentsTable := updateRowData t (torrentsTable c)\<rparr>
      in case addTorrentToCategoryList key t c of
           Inl e \<Rightarrow> Inl e
         | Inr (c, cat) \<Rightarrow>
             (case addTorrentToTagList key t c of
                Inl e \<Rightarrow> Inl e
              | Inr (c, tag) \<Rightarrow>
                  Inr (c, u\<lparr>updateStatuses := updateStatuses u \<or> js_truthy (prop_get t ''state''),
                            updateCategories := updateCategories u \<or> cat, updateTags := updateTags u \<or> tag,
                            updateTrackers := True, updateTorrents := True\<rparr>))))"

fun merge_torrents :: "(string \<times> jsobj) list \<Rightarrow> client \<times> updates \<Rightarrow> js_error + client \<times> updates" where
  "merge_torrents [] s = Inr s"
| "merge_torrents (t # ts) s = (case merge_torrent t s of Inl e \<Rightarrow> Inl e | Inr s \<Rightarrow> merge_torrents ts s)"

definition remove_torrent :: "(client \<Rightarrow> table \<Rightarrow> row list) \<Rightarrow> client \<Rightarrow> string \<Rightarrow> client" where
  "remove_torrent fsr c hash =
     (let c = c\<lparr>torrentsTable := removeRow (fsr c) hash (torrentsTable c)\<rparr>;
          c = fst (removeTorrentFromCategoryList (Some hash) c)
      in fst (removeTorrentFromTagList (Some hash) c))"

definition foldo :: "('b \<Rightarrow> 'a \<Rightarrow> 'b) \<Rightarrow> 'a list option \<Rightarrow> 'b \<Rightarrow> 'b" where
  "foldo f xs b = (case xs of None \<Rightarrow> b | Some ys \<Rightarrow> foldl f b ys)"

text \<open>The part of the handler up to the torrents, and the torrents.\<close>

definition merge_lists :: "(client \<Rightarrow> table \<Rightarrow> row list) \<Rightarrow> (string \<Rightarrow> string option) \<Rightarrow> sync_response \<Rightarrow> client \<Rightarrow> client" where
  "merge_lists fsr urlHostname r c =
     (let c = (if full_update r then clear_client fsr c else c);
          c = (if response_id r \<noteq> 0 then c\<lparr>syncMainDataLastResponseId := response_id r\<rparr> else c);
          c = foldo merge_category (r_categories r) c;
          c = foldo remove_category (categories_removed r) c;
          c = foldo merge_tag (r_tags r) c;
          c = foldo remove_tag (tags_removed r) c;
          c = foldo (merge_tracker urlHostname) (r_trackers r) c
      in foldo (remove_tracker urlHostname) (trackers_removed r) c)"

definition list_updates :: "sync_response \<Rightarrow> updates" where
  "list_updates r =
     \<lparr>updateStatuses = full_update r,
      updateCategories = (full_update r \<or> r_categories r \<noteq> None \<or> categories_removed r \<noteq> None),
      updateTags = (full_update r \<or> r_tags r \<noteq> None \<or> tags_removed r \<noteq> None),
      updateTrackers = (full_update r \<or> r_trackers r \<noteq> None \<or> trackers_removed r \<noteq> None),
      updateTorrents = full_update r\<rparr>"

definition merge_removed :: "(client \<Rightarrow> table \<Rightarrow> row list) \<Rightarrow> sync_response \<Rightarrow> client \<times> updates \<Rightarrow> client \<times> updates" where
  "merge_removed fsr r = (\<lambda>(c, u).
     (case torrents_removed r of
        None \<Rightarrow> (c, u)
      | Some hs \<Rightarrow> (foldl (remove_torrent fsr) c hs,
          u\<lparr>updateStatuses := True, updateTorrents := True, updateCategories := updateCategories u \<or> hs \<noteq> [],
            updateTags := updateTags u \<or> hs \<noteq> [], updateTrackers := updateTrackers u \<or> hs \<noteq> []\<rparr>)))"

definition merge_response ::
  "(client \<Rightarrow> table \<Rightarrow> row list) \<Rightarrow> (string \<Rightarrow> string option) \<Rightarrow> sync_response \<Rightarrow> client \<Rightarrow> js_error + client \<times> updates" where
  "merge_response fsr urlHostname r c =
     (case merge_torrents (case r_torrents r of None \<Rightarrow> [] | Some ts \<Rightarrow> ts)
             (merge_lists fsr urlHostname r c, list_updates r) of
        Inl e \<Rightarrow> Inl e
      | Inr s \<Rightarrow> Inr (merge_removed fsr r s))"

section \<open>The side bar\<close>

record side_item =
  item_id :: string
  item_text :: string
  item_count :: "rat option"
  item_selected :: bool

definition count_text :: "rat option \<Rightarrow> string" where
  "count_text n = (case n of None \<Rightarrow> ''NaN'' | Some x \<Rightarrow> js_num_str x)"

definition shown_text :: "side_item \<Rightarrow> string" where
  "shown_text i = item_text i @ '' ('' @ count_text (item_count i) @ '')''"

text \<open>How many rows have an empty text (or list) in a property.\<close>

fun count_empty :: "string \<Rightarrow> row list \<Rightarrow> js_error + nat" where
  "count_empty p [] = Inr 0"
| "count_empty p (r # rs) =
     (case js_nonempty (prop_get (full_data r) p) of
        None \<Rightarrow> Inl TypeError
      | Some b \<Rightarrow> (case count_empty p rs of Inl e \<Rightarrow> Inl e | Inr n \<Rightarrow> Inr (if b then n else n + 1)))"

definition status_filters :: "(string \<times> string) list" where
  "status_filters = [(''all'', ''All''), (''downloading'', ''Downloading''), (''seeding'', ''Seeding''),
     (''completed'', ''Completed''), (''running'', ''Running''), (''stopped'', ''Stopped''), (''active'', ''Active''),
     (''inactive'', ''Inactive''), (''stalled'', ''Stalled''), (''stalled_uploading'', ''Stalled Uploading''),
     (''stalled_downloading'', ''Stalled Downloading''), (''checking'', ''Checking''), (''moving'', ''Moving''),
     (''errored'', ''Errored'')]"

text \<open>
  The text of an entry is its title with \<open>%1\<close> replaced by the count; an entry that is hidden
  keeps its old text: \<open>None\<close>.
\<close>

definition updateFilter :: "string \<Rightarrow> bool \<Rightarrow> client \<Rightarrow> string \<times> string \<Rightarrow> js_error + string \<times> string option" where
  "updateFilter filterBy useAutoHide c = (\<lambda>(fil, title).
     (case getFilteredTorrentsNumber (page_of filterBy c) fil CATEGORIES_ALL TAGS_ALL TRACKERS_ALL (torrentsTable c) of
        Inl e \<Rightarrow> Inl e
      | Inr n \<Rightarrow> Inr (fil, if useAutoHide \<and> n = 0 \<and> fil \<noteq> ''all'' then None
                          else Some (title @ '' ('' @ nat_str n @ '')''))))"

fun map_result :: "('a \<Rightarrow> 'e + 'b) \<Rightarrow> 'a list \<Rightarrow> 'e + 'b list" where
  "map_result f [] = Inr []"
| "map_result f (x # xs) =
     (case f x of Inl e \<Rightarrow> Inl e | Inr y \<Rightarrow> (case map_result f xs of Inl e \<Rightarrow> Inl e | Inr ys \<Rightarrow> Inr (y # ys)))"

text \<open>The entries, and whether the chosen one is now hidden and the filter has to be cleared.\<close>

definition updateFiltersList :: "string \<Rightarrow> bool \<Rightarrow> client \<Rightarrow> js_error + (string \<times> string option) list \<times> bool" where
  "updateFiltersList filterBy useAutoHide c =
     (case map_result (updateFilter filterBy useAutoHide c) status_filters of
        Inl e \<Rightarrow> Inl e
      | Inr is \<Rightarrow> Inr (is, useAutoHide \<and> (selectedStatus (chosen c), None) \<in> set is))"

subsection \<open>Tags and trackers\<close>

definition updateTagList :: "string cmp \<Rightarrow> client \<Rightarrow> js_error + side_item list" where
  "updateTagList collate c =
     (let sel = selectedTag (chosen c);
          createLink = (\<lambda>tag txt n. \<lparr>item_id = tag, item_text = txt, item_count = Some (of_nat n), item_selected = (tag = sel)\<rparr>)
      in case count_empty ''tags'' (map snd (rows (torrentsTable c))) of
           Inl e \<Rightarrow> Inl e
         | Inr untagged \<Rightarrow>
             Inr (createLink TAGS_ALL ''All'' (length (rows (torrentsTable c)))
                # createLink TAGS_UNTAGGED ''Untagged'' untagged
                # map (\<lambda>(n, ts). createLink n n (length ts)) (js_sort (\<lambda>l r. collate (fst l) (fst r)) (tagMap c))))"

text \<open>Adding a flag to a count; an absent flag makes the count \<open>NaN\<close>.\<close>

definition add_flag :: "string \<Rightarrow> rat option \<Rightarrow> row \<Rightarrow> rat option" where
  "add_flag p n r =
     (case (n, js_ToNumber (prop_get (full_data r) p)) of (Some x, Some y) \<Rightarrow> Some (x + y) | _ \<Rightarrow> None)"

definition trackerless :: "row \<Rightarrow> bool" where
  "trackerless r \<longleftrightarrow> prop_get (full_data r) ''trackers_count'' = JNum 0"

definition updateTrackerList :: "string cmp \<Rightarrow> client \<Rightarrow> side_item list" where
  "updateTrackerList collate c =
     (let sel = selectedTracker (chosen c);
          rs = map snd (rows (torrentsTable c));
          createLink = (\<lambda>host txt n. \<lparr>item_id = host, item_text = txt, item_count = n, item_selected = (host = sel)\<rparr>);
          counted = (\<lambda>p. foldl (add_flag p) (Some 0) rs);
          hosts = map (\<lambda>(host, m). (host, length (set_of_list (concat (map snd m))))) (trackerMap c)
      in [createLink TRACKERS_ALL ''All'' (Some (of_nat (length rs))),
          createLink TRACKERS_TRACKERLESS ''Trackerless'' (Some (of_nat (length (filter trackerless rs)))),
          createLink TRACKERS_ERROR ''Tracker error'' (counted ''has_tracker_error''),
          createLink TRACKERS_ANNOUNCE_ERROR ''Other error'' (counted ''has_other_announce_error''),
          createLink TRACKERS_WARNING ''Warning'' (counted ''has_tracker_warning'')]
         @ map (\<lambda>(host, n). createLink host host (Some (of_nat n))) (js_sort (\<lambda>l r. collate (fst l) (fst r)) hosts))"

subsection \<open>The tree of categories\<close>

text \<open>
  An entry of the sorted array; \<open>ce_children\<close> holds the positions of the entries in the array
  in place of the references.
\<close>

record cat_entry =
  ce_name :: string
  ce_count :: nat
  ce_segments :: "string list"
  ce_children :: "nat list"
  ce_isRoot :: bool
  ce_forceExpand :: bool

fun compare_segments :: "'a cmp \<Rightarrow> 'a list cmp" where
  "compare_segments collate (x # xs) (y # ys) =
     (let r = collate x y in if r \<noteq> 0 then r else compare_segments collate xs ys)"
| "compare_segments collate xs ys = int (length xs) - int (length ys)"

definition collapse_key :: "string \<Rightarrow> string" where
  "collapse_key n = ''category_'' @ n @ ''_collapsed''"

definition sorted_categories :: "string cmp \<Rightarrow> client \<Rightarrow> cat_entry list" where
  "sorted_categories collate c =
     js_sort (\<lambda>l r. compare_segments collate (ce_segments l) (ce_segments r))
       (map (\<lambda>(n, d). \<lparr>ce_name = n, ce_count = length (cat_torrents d), ce_segments = js_split ''/'' n,
               ce_children = [], ce_isRoot = True, ce_forceExpand = (map_get (localPrefs c) (collapse_key n) = None)\<rparr>)
            (categoryMap c))"

definition absorb_subcategory :: "nat \<Rightarrow> cat_entry list \<Rightarrow> nat \<Rightarrow> cat_entry list" where
  "absorb_subcategory i es j =
     (let c = es ! i; s = es ! j;
          c = c\<lparr>ce_count := ce_count c + ce_count s, ce_forceExpand := ce_forceExpand c \<or> ce_forceExpand s\<rparr>
      in if int (length (ce_segments s)) - int (length (ce_segments c)) = 1
         then (es[i := c\<lparr>ce_children := ce_children c @ [j]\<rparr>])[j := s\<lparr>ce_isRoot := False\<rparr>]
         else es[i := c])"

lemma length_absorb [simp]: "length (absorb_subcategory i es j) = length es"
  by (simp add: absorb_subcategory_def Let_def)

function subcategory_loop :: "nat \<Rightarrow> nat \<Rightarrow> cat_entry list \<Rightarrow> cat_entry list" where
  "subcategory_loop i j es =
     (if j < length es \<and> startsWith (ce_name (es ! j)) (ce_name (es ! i) @ ''/'')
      then subcategory_loop i (Suc j) (absorb_subcategory i es j)
      else es)"
  by pat_completeness auto
termination by (relation "measure (\<lambda>(i, j, es). length es - j)") auto

declare subcategory_loop.simps [simp del]

definition link_categories :: "cat_entry list \<Rightarrow> cat_entry list" where
  "link_categories es = foldl (\<lambda>es i. subcategory_loop i (Suc i) es) es [0..<length es]"

text \<open>
  The elements in the order they are appended, each with the category below whose element it
  is placed (\<open>None\<close> at the top).
\<close>

record cat_item =
  ci_parent :: "string option"
  ci_item :: side_item
  ci_padding :: nat
  ci_toggle :: bool
  ci_isCollapsed :: bool

definition make_item :: "client \<Rightarrow> preferences \<Rightarrow> string option \<Rightarrow> cat_entry \<Rightarrow> cat_item" where
  "make_item c prefs parent e =
     \<lparr>ci_parent = parent,
      ci_item = \<lparr>item_id = ce_name e, item_text = last (ce_segments e), item_count = Some (of_nat (ce_count e)),
                 item_selected = (ce_name e = selectedCategory (chosen c))\<rparr>,
      ci_padding = (length (ce_segments e) - 1) * 20 + 6,
      ci_toggle = (ce_children e \<noteq> []),
      ci_isCollapsed = (\<not> ce_forceExpand e \<and> pref_or prefs (collapse_key (ce_name e)) ''false'' = ''true'')\<rparr>"

fun tree_loop :: "nat \<Rightarrow> client \<Rightarrow> cat_entry list \<Rightarrow> (string option \<times> nat) list \<Rightarrow> cat_item list \<times> preferences \<Rightarrow>
    (cat_item list \<times> preferences) option" where
  "tree_loop 0 c es stack out = (if stack = [] then Some out else None)"
| "tree_loop (Suc fuel) c es stack out =
     (if stack = [] then Some out
      else let (parent, i) = last stack; e = es ! i; (items, prefs) = out;
               it = make_item c prefs parent e;
               prefs = map_set (collapse_key (ce_name e)) (if ci_isCollapsed it then ''true'' else ''false'') prefs
           in tree_loop fuel c es (butlast stack @ map (\<lambda>j. (Some (ce_name e), j)) (rev (ce_children e)))
                (items @ [it], prefs))"

fun create_trees :: "nat \<Rightarrow> client \<Rightarrow> cat_entry list \<Rightarrow> nat list \<Rightarrow> cat_item list \<times> preferences \<Rightarrow>
    (cat_item list \<times> preferences) option" where
  "create_trees fuel c es [] out = Some out"
| "create_trees fuel c es (i # is) out =
     (if ce_isRoot (es ! i) then Option.bind (tree_loop fuel c es [(None, i)] out) (create_trees fuel c es is)
      else create_trees fuel c es is out)"

definition category_head :: "nat \<Rightarrow> client \<Rightarrow> side_item list" where
  "category_head uncategorized c =
     [\<lparr>item_id = CATEGORIES_ALL, item_text = ''All'', item_count = Some (of_nat (length (rows (torrentsTable c)))),
        item_selected = (CATEGORIES_ALL = selectedCategory (chosen c))\<rparr>,
      \<lparr>item_id = CATEGORIES_UNCATEGORIZED, item_text = ''Uncategorized'', item_count = Some (of_nat uncategorized),
        item_selected = (CATEGORIES_UNCATEGORIZED = selectedCategory (chosen c))\<rparr>]"

definition updateCategoryList ::
  "nat \<Rightarrow> string cmp \<Rightarrow> client \<Rightarrow> (js_error + side_item list \<times> cat_item list \<times> client) option" where
  "updateCategoryList fuel collate c =
     (case count_empty ''category'' (map snd (rows (torrentsTable c))) of
        Inl e \<Rightarrow> Some (Inl e)
      | Inr uncategorized \<Rightarrow>
          (let es = link_categories (sorted_categories collate c)
           in map_option (\<lambda>(items, prefs). Inr (category_head uncategorized c, items, c\<lparr>localPrefs := prefs\<rparr>))
                (create_trees fuel c es [0..<length es] ([], localPrefs c))))"

section \<open>The server state\<close>

text \<open>\<open>String.prototype.replace\<close> with a text: the first occurrence.\<close>

fun replace_first :: "string \<Rightarrow> string \<Rightarrow> string \<Rightarrow> string" where
  "replace_first pat v [] = (if pat = [] then v else [])"
| "replace_first pat v (x # xs) =
     (if startsWith (x # xs) pat then v @ drop (length pat) (x # xs) else x # replace_first pat v xs)"

definition transfer_text :: "jsobj \<Rightarrow> string \<Rightarrow> string \<Rightarrow> string \<Rightarrow> string" where
  "transfer_text st speed limit amount =
     friendlyUnit (num_arg (prop_get st speed)) True
     @ (if js_above (prop_get st limit) 0 then '' ['' @ friendlyUnit (num_arg (prop_get st limit)) True @ '']'' else [])
     @ '' ('' @ friendlyUnit (num_arg (prop_get st amount)) False @ '')''"

definition external_label :: "jsobj \<Rightarrow> string" where
  "external_label st =
     (let v4 = prop_get st ''last_external_address_v4''; v6 = prop_get st ''last_external_address_v6'';
          has4 = (v4 \<noteq> JStr []); has6 = (v6 \<noteq> JStr []);
          label = (if has4 \<and> has6 then ''External IPs: %1, %2''
                   else if has4 \<or> has6 then ''External IP: %1%2'' else ''External IP: N/A'')
      in replace_first ''%2'' (js_String v6) (replace_first ''%1'' (js_String v4) label))"

definition connection_icon :: "jsobj \<Rightarrow> string" where
  "connection_icon st =
     (case prop_get st ''connection_status'' of
        JStr s \<Rightarrow> if s = ''connected'' then ''connected'' else if s = ''firewalled'' then ''firewalled'' else ''disconnected''
      | _ \<Rightarrow> ''disconnected'')"

record status_bar =
  dlInfos :: string
  upInfos :: string
  titlePrefix :: string
  freeSpace :: string
  externalIPs :: "string option"
  dhtNodes :: "string option"
  connectionStatus :: string
  queueing_enabled :: jsval
  alternativeSpeedLimits :: jsval
  serverSyncMainDataInterval :: "rat option"

text \<open>
  \<open>prefs\<close> is the cache of the preferences. \<open>Math.max\<close> of a value that is no number is \<open>NaN\<close>. The
  column of the queue position is hidden with the queueing.
\<close>

definition processServerState :: "jsobj \<Rightarrow> bool \<Rightarrow> jsobj \<Rightarrow> status_bar \<times> table \<Rightarrow> js_error + status_bar \<times> table" where
  "processServerState prefs speedInTitle st = (\<lambda>(bar, t).
     (let bar = bar\<lparr>dlInfos := transfer_text st ''dl_info_speed'' ''dl_rate_limit'' ''dl_info_data'',
           upInfos := transfer_text st ''up_info_speed'' ''up_rate_limit'' ''up_info_data'',
           titlePrefix := (if speedInTitle
             then replace_first ''%2'' (friendlyUnit (num_arg (prop_get st ''up_info_speed'')) True)
                   (replace_first ''%1'' (friendlyUnit (num_arg (prop_get st ''dl_info_speed'')) True) ''[D: %1, U: %2] '')
             else []),
           freeSpace := replace_first ''%1'' (friendlyUnit (num_arg (prop_get st ''free_space_on_disk'')) False) ''Free space: %1'',
           externalIPs := (if js_truthy (prop_get prefs ''status_bar_external_ip'') then Some (external_label st) else None),
           dhtNodes := (if js_truthy (prop_get prefs ''dht'')
             then Some (replace_first ''%1'' (js_String (prop_get st ''dht_nodes'')) ''DHT: %1 nodes'') else None),
           connectionStatus := connection_icon st\<rparr>;
         q = prop_get st ''queueing'';
         t' = t\<lparr>columns := map (\<lambda>col. if col_name col = ''priority'' then col\<lparr>force_hide := \<not> js_truthy q\<rparr> else col) (columns t)\<rparr>;
         step = (if queueing_enabled bar \<noteq> q
                 then (case updateColumn ''priority'' t' of Inl e \<Rightarrow> Inl e | Inr _ \<Rightarrow> Inr t')
                 else Inr t)
      in case step of
           Inl e \<Rightarrow> Inl e
         | Inr t \<Rightarrow> Inr (bar\<lparr>queueing_enabled := q, alternativeSpeedLimits := prop_get st ''use_alt_speed_limits'',
             serverSyncMainDataInterval := map_option (\<lambda>x. max x 500) (js_ToNumber (prop_get st ''refresh_interval''))\<rparr>, t)))"

section \<open>The handler\<close>

text \<open>What the browser and the settings contribute to the handler of a response.\<close>

record surroundings =
  view_rows :: "client \<Rightarrow> table \<Rightarrow> row list"
  url_hostname :: "string \<Rightarrow> string option"
  collator :: "string cmp"
  filter_by :: string
  prefs_cache :: jsobj
  speed_in_title :: bool
  auto_hide :: bool
  tree_fuel :: nat

record side_bar =
  statusList :: "(string \<times> string option) list"
  mustClearStatus :: bool
  categoryHead :: "side_item list"
  categoryList :: "cat_item list"
  tagList :: "side_item list"
  trackerList :: "side_item list"

record page =
  pg_client :: client
  pg_status :: status_bar
  pg_side :: side_bar

definition apply_server_state :: "surroundings \<Rightarrow> jsobj option \<Rightarrow> page \<Rightarrow> js_error + page" where
  "apply_server_state s st p =
     (case st of
        None \<Rightarrow> Inr p
      | Some tmp \<Rightarrow>
          (let c = pg_client p; state = merge_props (serverState c) tmp
           in case processServerState (prefs_cache s) (speed_in_title s) state (pg_status p, torrentsTable c) of
                Inl e \<Rightarrow> Inl e
              | Inr (bar, t) \<Rightarrow> Inr (p\<lparr>pg_client := c\<lparr>serverState := state, torrentsTable := t\<rparr>, pg_status := bar\<rparr>)))"

definition draw_status :: "surroundings \<Rightarrow> page \<Rightarrow> js_error + page" where
  "draw_status s p =
     (case updateFiltersList (filter_by s) (auto_hide s) (pg_client p) of
        Inl e \<Rightarrow> Inl e
      | Inr (is, clear) \<Rightarrow> Inr (p\<lparr>pg_side := (pg_side p)\<lparr>statusList := is, mustClearStatus := clear\<rparr>\<rparr>))"

definition draw_categories :: "surroundings \<Rightarrow> page \<Rightarrow> (js_error + page) option" where
  "draw_categories s p =
     map_option (\<lambda>res. case res of
          Inl e \<Rightarrow> Inl e
        | Inr (head, items, c) \<Rightarrow>
            Inr (p\<lparr>pg_client := c, pg_side := (pg_side p)\<lparr>categoryHead := head, categoryList := items\<rparr>\<rparr>))
       (updateCategoryList (tree_fuel s) (collator s) (pg_client p))"

definition draw_tags :: "surroundings \<Rightarrow> page \<Rightarrow> js_error + page" where
  "draw_tags s p =
     (case updateTagList (collator s) (pg_client p) of
        Inl e \<Rightarrow> Inl e | Inr is \<Rightarrow> Inr (p\<lparr>pg_side := (pg_side p)\<lparr>tagList := is\<rparr>\<rparr>))"

definition draw_trackers :: "surroundings \<Rightarrow> page \<Rightarrow> page" where
  "draw_trackers s p = p\<lparr>pg_side := (pg_side p)\<lparr>trackerList := updateTrackerList (collator s) (pg_client p)\<rparr>\<rparr>"

definition draw_table :: "surroundings \<Rightarrow> bool \<Rightarrow> page \<Rightarrow> page" where
  "draw_table s full p =
     (let c = pg_client p
      in p\<lparr>pg_client := c\<lparr>torrentsTable := updateTable (view_rows s c) full (torrentsTable c)\<rparr>\<rparr>)"

definition reselect :: "string list \<Rightarrow> page \<Rightarrow> page" where
  "reselect ids p = p\<lparr>pg_client := (pg_client p)\<lparr>torrentsTable := reselectRows ids (torrentsTable (pg_client p))\<rparr>\<rparr>"

text \<open>Steps that are taken when their flag is set, and the chain of steps that may throw.\<close>

definition if_set :: "bool \<Rightarrow> ('a \<Rightarrow> 'e + 'a) \<Rightarrow> 'a \<Rightarrow> 'e + 'a" where
  "if_set b f x = (if b then f x else Inr x)"

definition and_then :: "'e + 'a \<Rightarrow> ('a \<Rightarrow> 'e + 'b) \<Rightarrow> 'e + 'b" where
  "and_then r f = (case r of Inl e \<Rightarrow> Inl e | Inr x \<Rightarrow> f x)"

text \<open>
  The handler of a response that arrived in order; \<open>None\<close> is a tree of categories that the
  fuel does not suffice for.
\<close>

definition process_response :: "surroundings \<Rightarrow> sync_response \<Rightarrow> page \<Rightarrow> (js_error + page) option" where
  "process_response s r p =
     (let selected = selectedRows (torrentsTable (pg_client p))
      in case merge_response (view_rows s) (url_hostname s) r (pg_client p) of
           Inl e \<Rightarrow> Some (Inl e)
         | Inr (c, u) \<Rightarrow>
             (let p = p\<lparr>pg_client := c\<rparr>;
                  p = (if updateTorrents u then draw_table s (full_update r) p else p);
                  r1 = and_then (apply_server_state s (server_state r) p) (if_set (updateStatuses u) (draw_status s));
                  r2 = (case r1 of
                          Inl e \<Rightarrow> Some (Inl e)
                        | Inr p \<Rightarrow> if updateCategories u then draw_categories s p else Some (Inr p))
              in map_option (\<lambda>r2. and_then (and_then r2 (if_set (updateTags u) (draw_tags s)))
                   (\<lambda>p. let p = (if updateTrackers u then draw_trackers s p else p)
                        in Inr (if full_update r then reselect selected p else p))) r2))"

section \<open>The loop that asks again\<close>

text \<open>
  The state of the loop: the flag, the time-out that is set (with its delay), whether the page
  was stopped, and how many requests are under way.
\<close>

record sync_loop =
  syncRequestInProgress :: bool
  syncMainDataTimeout :: "rat option"
  loop_stopped :: bool
  in_flight :: nat

definition getSyncMainDataInterval :: "bool \<Rightarrow> rat \<Rightarrow> rat option \<Rightarrow> rat \<Rightarrow> rat" where
  "getSyncMainDataInterval hidden session_timeout custom server =
     (if hidden then session_timeout * 1000 / 2
      else case custom of Some x \<Rightarrow> if x \<noteq> 0 then x else server | None \<Rightarrow> server)"

definition syncData :: "rat \<Rightarrow> sync_loop \<Rightarrow> sync_loop" where
  "syncData delay l =
     (if syncRequestInProgress l then l
      else let l = l\<lparr>syncMainDataTimeout := None\<rparr>
           in if loop_stopped l then l else l\<lparr>syncMainDataTimeout := Some delay\<rparr>)"

definition syncMainData :: "sync_loop \<Rightarrow> sync_loop" where
  "syncMainData l = l\<lparr>syncRequestInProgress := True, in_flight := in_flight l + 1, syncMainDataTimeout := None\<rparr>"

definition updateMainData :: "sync_loop \<Rightarrow> sync_loop" where
  "updateMainData l = syncData 100 l"

text \<open>A request ends: handled (or refused by the server), handled with an exception, or failed.\<close>

definition request_done :: "rat \<Rightarrow> sync_loop \<Rightarrow> sync_loop" where
  "request_done delay l = syncData delay (l\<lparr>in_flight := in_flight l - 1, syncRequestInProgress := False\<rparr>)"

definition request_threw :: "sync_loop \<Rightarrow> sync_loop" where
  "request_threw l = l\<lparr>in_flight := in_flight l - 1\<rparr>"

inductive loop_step :: "sync_loop \<Rightarrow> sync_loop \<Rightarrow> bool" where
  timeout_fires: "syncMainDataTimeout l = Some d \<Longrightarrow> loop_step l (syncMainData l)"
| answered: "0 < in_flight l \<Longrightarrow> loop_step l (request_done delay l)"
| threw: "0 < in_flight l \<Longrightarrow> loop_step l (request_threw l)"
| failed: "0 < in_flight l \<Longrightarrow> loop_step l (request_done (if hidden then session_timeout * 1000 / 2 else 2000) l)"
| asked: "loop_step l (updateMainData l)"
| stopped: "loop_step l (l\<lparr>loop_stopped := True\<rparr>)"

section \<open>The loop never asks twice at once\<close>

text \<open>Idle with a time-out set, waiting for one answer, stopped, or dead: marked as asking with no request under way.\<close>

definition loop_dead :: "sync_loop \<Rightarrow> bool" where
  "loop_dead l \<longleftrightarrow> syncRequestInProgress l \<and> in_flight l = 0 \<and> syncMainDataTimeout l = None"

definition loop_ok :: "sync_loop \<Rightarrow> bool" where
  "loop_ok l \<longleftrightarrow> in_flight l \<le> 1 \<and> (syncRequestInProgress l \<longrightarrow> syncMainDataTimeout l = None)
     \<and> (in_flight l = 1 \<longrightarrow> syncRequestInProgress l)
     \<and> (loop_stopped l \<or> syncMainDataTimeout l \<noteq> None \<or> syncRequestInProgress l)"

inductive_cases loop_stepE: "loop_step l l'"

lemma loop_step_ok: "loop_step l l' \<Longrightarrow> loop_ok l \<Longrightarrow> loop_ok l'"
  by (erule loop_stepE)
    (auto simp: loop_ok_def syncMainData_def request_done_def request_threw_def updateMainData_def syncData_def Let_def)

lemma loop_step_dead: "loop_step l l' \<Longrightarrow> loop_dead l \<Longrightarrow> loop_dead l'"
  by (erule loop_stepE) (auto simp: loop_dead_def syncMainData_def updateMainData_def syncData_def)

lemma loop_step_dies: "loop_step l l' \<Longrightarrow> loop_ok l \<Longrightarrow> \<not> loop_dead l \<Longrightarrow> loop_dead l' \<Longrightarrow> l' = request_threw l \<and> in_flight l = 1"
  by (erule loop_stepE)
    (auto simp: loop_dead_def loop_ok_def syncMainData_def request_done_def request_threw_def updateMainData_def
      syncData_def Let_def split: if_splits)

text \<open>
  C24: Whatever happens in whatever order, never two requests are under way, and until the page
  is stopped either a time-out is set or a request is under way, except after the handler of an
  answer threw.
\<close>

theorem sync_loop_runs:
  assumes "loop_step\<^sup>*\<^sup>* l l'" and "loop_ok l"
  shows "in_flight l' \<le> 1 \<and> (loop_stopped l' \<or> loop_dead l' \<or> (syncMainDataTimeout l' \<noteq> None \<longleftrightarrow> in_flight l' \<noteq> 1))
    \<and> (\<forall>l''. loop_step l' l'' \<and> \<not> loop_dead l' \<and> loop_dead l'' \<longrightarrow> l'' = request_threw l' \<and> in_flight l' = 1)"
proof -
  have "loop_ok l'" using assms by (induction rule: rtranclp_induct) (auto intro: loop_step_ok)
  then show ?thesis using loop_step_dies [of l'] by (auto simp: loop_ok_def loop_dead_def)
qed

definition loop_init :: sync_loop where
  "loop_init = \<lparr>syncRequestInProgress = False, syncMainDataTimeout = Some 100, loop_stopped = False, in_flight = 0\<rparr>"

theorem sync_loop_runs_witness: "in_flight (syncMainData loop_init) = 1 \<and> syncMainDataTimeout (syncMainData loop_init) = None"
proof -
  have "loop_step\<^sup>*\<^sup>* loop_init (syncMainData loop_init)"
    by (intro r_into_rtranclp timeout_fires) (simp add: loop_init_def)
  from sync_loop_runs [OF this] show ?thesis
    by (simp add: loop_ok_def loop_init_def loop_dead_def syncMainData_def)
qed

text \<open>
  C25: An exception in the handler of an answer stops the updates for good: the flag stays set,
  so neither a time-out nor a command ever asks again, until the page is loaded afresh.
\<close>

theorem sync_loop_stuck:
  assumes "loop_ok l" and "in_flight l = 1" and "loop_step\<^sup>*\<^sup>* (request_threw l) l'"
  shows "in_flight l' = 0 \<and> syncMainDataTimeout l' = None \<and> syncRequestInProgress l'"
proof -
  have "loop_dead (request_threw l)" using assms(1,2) by (simp add: loop_dead_def request_threw_def loop_ok_def)
  with assms(3) have "loop_dead l'" by (induction rule: rtranclp_induct) (auto intro: loop_step_dead)
  then show ?thesis by (simp add: loop_dead_def)
qed

theorem sync_loop_stuck_witness:
  "in_flight (updateMainData (request_threw (syncMainData loop_init))) = 0"
proof -
  have "loop_step\<^sup>*\<^sup>* (request_threw (syncMainData loop_init)) (updateMainData (request_threw (syncMainData loop_init)))"
    by (intro r_into_rtranclp asked)
  from sync_loop_stuck [OF _ _ this] show ?thesis by (simp add: loop_ok_def loop_init_def syncMainData_def)
qed

end
