(* ===== verification/SyncServer.thy ===== *)
theory SyncServer
  imports SyncClient
begin

text \<open>
  The server side of the synchronisation, \<open>synccontroller.cpp\<close>: the differences between two
  structures of variants, and the answers about the peers of a torrent, which are differences to
  the last answer that the client says it has.
\<close>

section \<open>Variants\<close>

text \<open>
  The alternatives of \<open>QVariant\<close> that the code tells apart. Scalars are the JSON values they
  become; the invalid variant is \<open>JNull\<close>. A map and a hash are lists of entries without
  duplicate keys; reading an absent key gives the invalid variant.
\<close>

datatype qvariant =
    QScalar jsval
  | QMap "(string \<times> qvariant) list"
  | QHash "(string \<times> qvariant) list"
  | QList "qvariant list"

type_synonym qmap = "(string \<times> qvariant) list"

definition qget :: "qmap \<Rightarrow> string \<Rightarrow> qvariant" where
  "qget m k = (case map_get m k of None \<Rightarrow> QScalar JNull | Some v \<Rightarrow> v)"

fun toMap :: "qvariant \<Rightarrow> qmap" where
  "toMap (QMap m) = m"
| "toMap _ = []"

fun toHash :: "qvariant \<Rightarrow> qmap" where
  "toHash (QHash h) = h"
| "toHash _ = []"

fun toList :: "qvariant \<Rightarrow> qvariant list" where
  "toList (QList xs) = xs"
| "toList _ = []"

definition toInt :: "qvariant \<Rightarrow> int" where
  "toInt v = (case v of QScalar (JNum x) \<Rightarrow> \<lfloor>x\<rfloor> | _ \<Rightarrow> 0)"

text \<open>\<open>QJsonObject::fromVariantMap\<close>.\<close>

fun toJson :: "qvariant \<Rightarrow> jsval" where
  "toJson (QScalar v) = v"
| "toJson (QMap m) = JObj (map (\<lambda>(k, v). (k, toJson v)) m)"
| "toJson (QHash m) = JObj (map (\<lambda>(k, v). (k, toJson v)) m)"
| "toJson (QList xs) = JArr (map toJson xs)"

section \<open>Differences\<close>

fun processList_loop :: "qvariant list \<Rightarrow> qvariant list \<Rightarrow> qvariant list \<Rightarrow> qvariant list \<times> qvariant list" where
  "processList_loop prev [] sync = (sync, prev)"
| "processList_loop prev (item # data) sync =
     (if item \<notin> set prev then processList_loop prev data (sync @ [item])
      else processList_loop (remove1 item prev) data sync)"

definition processList :: "qvariant list \<Rightarrow> qvariant list \<Rightarrow> qvariant list \<times> qvariant list" where
  "processList prev data = (if prev = [] then (data, []) else processList_loop prev data [])"

definition KEY_SUFFIX_REMOVED :: string where "KEY_SUFFIX_REMOVED = ''_removed''"

text \<open>
  The loops over the entries, with the difference built so far. In a hash, entries that are
  neither maps nor lists of texts are unreachable code.
\<close>

fun processMap_loop :: "qmap \<Rightarrow> qmap \<Rightarrow> qmap \<Rightarrow> qmap"
  and processHash_loop :: "qmap \<Rightarrow> qmap \<Rightarrow> qmap \<Rightarrow> qmap \<times> qmap" where
  "processMap_loop prev [] sync = sync"
| "processMap_loop prev ((key, value) # data) sync =
     processMap_loop prev data
       (case value of
          QMap m \<Rightarrow> (let d = processMap_loop (toMap (qget prev key)) m []
                      in if d \<noteq> [] then map_set key (QMap d) sync else sync)
        | QHash h \<Rightarrow>
            (let p = toHash (qget prev key);
                 (d, removed) = (if p = [] then (foldl (\<lambda>acc (k, v). map_set k v acc) [] h, []) else processHash_loop p h []);
                 sync = (if d \<noteq> [] then map_set key (QMap d) sync else sync)
             in if removed \<noteq> [] then map_set (key @ KEY_SUFFIX_REMOVED) (QList (map (\<lambda>(k, v). QScalar (JStr k)) removed)) sync
                else sync)
        | QList xs \<Rightarrow>
            (let (d, removed) = processList (toList (qget prev key)) xs;
                 sync = (if d \<noteq> [] then map_set key (QList d) sync else sync)
             in if removed \<noteq> [] then map_set (key @ KEY_SUFFIX_REMOVED) (QList removed) sync else sync)
        | QScalar v \<Rightarrow> (if qget prev key \<noteq> value then map_set key value sync else sync))"
| "processHash_loop prev [] sync = (sync, prev)"
| "processHash_loop prev ((key, value) # data) sync =
     (case value of
        QMap m \<Rightarrow>
          if map_get prev key = None then processHash_loop prev data (map_set key value sync)
          else (let d = processMap_loop (toMap (qget prev key)) m []
                in processHash_loop (map_delete key prev) data (if d \<noteq> [] then map_set key (QMap d) sync else sync))
      | QList xs \<Rightarrow>
          if map_get prev key = None then processHash_loop prev data (map_set key value sync)
          else (let (d, removed) = processList (toList (qget prev key)) xs
                in processHash_loop (map_delete key prev) data (if d \<noteq> [] \<or> removed \<noteq> [] then map_set key value sync else sync))
      | _ \<Rightarrow> processHash_loop prev data sync)"

definition processMap :: "qmap \<Rightarrow> qmap \<Rightarrow> qmap" where
  "processMap prev data = processMap_loop prev data []"

definition processHash :: "qmap \<Rightarrow> qmap \<Rightarrow> qmap \<times> string list" where
  "processHash prev data =
     (if prev = [] then (foldl (\<lambda>acc (k, v). map_set k v acc) [] data, [])
      else let (d, rest) = processHash_loop prev data [] in (d, keys rest))"

section \<open>What a difference holds\<close>

text \<open>The maps of single values, as the code keeps them for a peer, a torrent or a category.\<close>

definition scalar_map :: "qmap \<Rightarrow> bool" where
  "scalar_map m \<longleftrightarrow> distinct_keys m \<and> (\<forall>(k, v) \<in> set m. case v of QScalar _ \<Rightarrow> True | _ \<Rightarrow> False)"

definition map_hash :: "qmap \<Rightarrow> bool" where
  "map_hash h \<longleftrightarrow> distinct_keys h \<and> (\<forall>(k, v) \<in> set h. case v of QMap m \<Rightarrow> scalar_map m | _ \<Rightarrow> False)"

lemma scalar_map_Cons [simp]:
  "scalar_map ((k, v) # m) \<longleftrightarrow> k \<notin> set (keys m) \<and> (\<exists>s. v = QScalar s) \<and> scalar_map m"
  by (auto simp: scalar_map_def split: qvariant.splits)

lemma map_hash_Cons [simp]:
  "map_hash ((k, v) # h) \<longleftrightarrow> k \<notin> set (keys h) \<and> (\<exists>m. v = QMap m \<and> scalar_map m) \<and> map_hash h"
  by (auto simp: map_hash_def split: qvariant.splits)

lemma scalar_map_set: "scalar_map m \<Longrightarrow> scalar_map (map_set k (QScalar s) m)"
  by (induction m) (auto simp: scalar_map_def)

lemma map_hash_set: "map_hash h \<Longrightarrow> scalar_map m \<Longrightarrow> map_hash (map_set k (QMap m) h)"
  by (induction h) (auto simp: map_hash_def)

lemma map_hash_get: "map_hash h \<Longrightarrow> map_get h k = Some v \<Longrightarrow> \<exists>m. v = QMap m \<and> scalar_map m"
  by (induction h) (auto split: if_splits)

lemma processMap_scalars:
  "scalar_map m \<Longrightarrow> map_get (processMap_loop p m sync) x =
     (case map_get m x of None \<Rightarrow> map_get sync x
      | Some v \<Rightarrow> if qget p x \<noteq> v then Some v else map_get sync x)"
proof (induction m arbitrary: sync)
  case (Cons e m)
  obtain k s where e: "e = (k, QScalar s)" and m: "scalar_map m" and "k \<notin> set (keys m)"
    using Cons.prems by (cases e) auto
  then have "map_get m k = None" by (simp add: map_of_eq_None_iff)
  with Cons.IH [OF m] e show ?case by (cases "x = k") (simp_all split: option.split)
qed simp

lemma processMap_loop_scalar: "scalar_map m \<Longrightarrow> scalar_map sync \<Longrightarrow> scalar_map (processMap_loop p m sync)"
proof (induction m arbitrary: sync)
  case (Cons e m)
  then show ?case by (cases e) (auto simp: scalar_map_set)
qed simp

lemma processMap_change:
  assumes "scalar_map m" "set (keys m0) \<subseteq> set (keys m)"
  shows "map_get (processMap m0 m) x = (if qget m0 x \<noteq> qget m x then Some (qget m x) else None)"
proof (cases "map_get m x")
  case None
  then have "map_get m0 x = None" using assms(2) by (auto simp: map_of_eq_None_iff)
  with None show ?thesis by (simp add: processMap_def processMap_scalars [OF assms(1)] qget_def)
next
  case (Some v)
  then show ?thesis by (simp add: processMap_def processMap_scalars [OF assms(1)] qget_def)
qed

lemma processMap_scalar_map: "scalar_map m \<Longrightarrow> scalar_map (processMap m0 m)"
  unfolding processMap_def by (rule processMap_loop_scalar) (simp_all add: scalar_map_def)

definition hash_change :: "qmap \<Rightarrow> string \<Rightarrow> qvariant \<Rightarrow> qvariant option" where
  "hash_change prev k v =
     (case map_get prev k of None \<Rightarrow> Some v
      | Some pv \<Rightarrow> (let d = processMap_loop (toMap pv) (toMap v) [] in if d = [] then None else Some (QMap d)))"

lemma processHash_loop_get:
  "map_hash data \<Longrightarrow> map_get (fst (processHash_loop prev data sync)) k =
     (case map_get data k of None \<Rightarrow> map_get sync k
      | Some v \<Rightarrow> (case hash_change prev k v of None \<Rightarrow> map_get sync k | Some c \<Rightarrow> Some c))"
proof (induction data arbitrary: prev sync)
  case (Cons e data)
  obtain k' v where e: "e = (k', v)" by (cases e)
  with Cons.prems obtain m where v: "v = QMap m" "map_hash data" "k' \<notin> set (keys data)" by auto
  then have n: "map_get data k' = None" by (simp add: map_of_eq_None_iff)
  have h: "k \<noteq> k' \<Longrightarrow> hash_change (map_delete k' prev) k w = hash_change prev k w" for w
    by (simp add: hash_change_def)
  show ?case
  proof (cases "k = k'")
    case True
    with Cons.IH [OF v(2)] n show ?thesis
      by (simp add: e v(1) hash_change_def qget_def Let_def split: option.split)
  next
    case False
    with Cons.IH [OF v(2)] h [OF False] show ?thesis
      by (simp add: e v(1) Let_def split: option.split)
  qed
qed simp

lemma processHash_loop_rest:
  "map_hash data \<Longrightarrow> map_get (snd (processHash_loop prev data sync)) k = (if map_get data k \<noteq> None then None else map_get prev k)"
proof (induction data arbitrary: prev sync)
  case (Cons e data)
  then show ?case by (cases e) (auto simp: Let_def)
qed simp

lemma processHash_loop_map_hash:
  "map_hash data \<Longrightarrow> map_hash sync \<Longrightarrow> map_hash (fst (processHash_loop prev data sync))"
proof (induction data arbitrary: prev sync)
  case (Cons e data)
  have "scalar_map m \<Longrightarrow> scalar_map (processMap_loop p m [])" for p m
    by (rule processMap_loop_scalar) (simp_all add: scalar_map_def)
  with Cons show ?case by (cases e) (auto simp: Let_def map_hash_set)
qed simp

lemma foldl_set_get:
  "distinct_keys h \<Longrightarrow> map_get (foldl (\<lambda>acc (k, v). map_set k v acc) m h) x =
     (case map_get h x of None \<Rightarrow> map_get m x | Some v \<Rightarrow> Some v)"
proof (induction h arbitrary: m)
  case (Cons e h)
  obtain k v where e: "e = (k, v)" by (cases e)
  with Cons.prems have "map_get h k = None" by (simp add: map_of_eq_None_iff)
  with Cons e show ?case by (cases "x = k") (simp_all split: option.split)
qed simp

lemma foldl_set_map_hash: "map_hash h \<Longrightarrow> map_hash m \<Longrightarrow> map_hash (foldl (\<lambda>acc (k, v). map_set k v acc) m h)"
proof (induction h arbitrary: m)
  case (Cons e h)
  then show ?case by (cases e) (auto simp: map_hash_set)
qed simp

text \<open>The entries that were added or changed, with their changes, and the keys that are gone.\<close>

lemma processHash_correct:
  assumes "map_hash data"
  shows "map_get (fst (processHash prev data)) k = (case map_get data k of None \<Rightarrow> None | Some v \<Rightarrow> hash_change prev k v)"
    and "set (snd (processHash prev data)) = set (keys prev) - set (keys data)"
    and "map_hash (fst (processHash prev data))"
proof -
  have key: "k \<in> set (keys m) \<longleftrightarrow> map_get m k \<noteq> None" for k and m :: qmap
    by (simp add: map_of_eq_None_iff)
  have rest: "set (keys (snd (processHash_loop prev data []))) = set (keys prev) - set (keys data)"
    using processHash_loop_rest [OF assms, of prev "[]"] unfolding set_eq_iff Diff_iff key by simp
  show "map_get (fst (processHash prev data)) k = (case map_get data k of None \<Rightarrow> None | Some v \<Rightarrow> hash_change prev k v)"
  proof (cases "prev = []")
    case True
    with assms show ?thesis
      by (simp add: processHash_def foldl_set_get map_hash_def hash_change_def split: option.split)
  next
    case False
    with processHash_loop_get [OF assms, of prev "[]" k] show ?thesis
      by (simp add: processHash_def split_beta split: option.split)
  qed
  show "set (snd (processHash prev data)) = set (keys prev) - set (keys data)"
    using rest by (simp add: processHash_def split_beta)
  have nil: "map_hash []" by (simp add: map_hash_def)
  show "map_hash (fst (processHash prev data))"
    using assms foldl_set_map_hash [OF assms nil] processHash_loop_map_hash [OF assms nil]
    by (simp add: processHash_def split_beta)
qed

section \<open>Answers relative to the last accepted one\<close>

definition KEY_RESPONSE_ID :: string where "KEY_RESPONSE_ID = ''rid''"
definition KEY_FULL_UPDATE :: string where "KEY_FULL_UPDATE = ''full_update''"

text \<open>The maps kept for a client: the last data it accepted and the last data sent.\<close>

record sync_memory =
  lastAcceptedData :: qmap
  lastData :: qmap

definition generateSyncData :: "int \<Rightarrow> qmap \<Rightarrow> sync_memory \<Rightarrow> qmap \<times> sync_memory" where
  "generateSyncData acceptedResponseId data m =
     (let lastResponseId = (if 0 < acceptedResponseId then toInt (qget (lastData m) KEY_RESPONSE_ID) else 0);
          accepted = (if 0 < lastResponseId \<and> lastResponseId = acceptedResponseId then lastData m else lastAcceptedData m);
          fullUpdate = \<not> (0 < lastResponseId \<and> toInt (qget accepted KEY_RESPONSE_ID) = acceptedResponseId);
          (accepted, syncData) = (if fullUpdate then ([], map_set KEY_FULL_UPDATE (QScalar (JBool True)) data)
                                  else (accepted, processMap accepted data));
          responseId = lastResponseId mod 1000000 + 1;
          rid = QScalar (JNum (of_int responseId))
      in (map_set KEY_RESPONSE_ID rid syncData,
          \<lparr>lastAcceptedData = accepted, lastData = map_set KEY_RESPONSE_ID rid data\<rparr>))"

section \<open>Clients of the answers\<close>

text \<open>
  A client keeps the id of the last answer it applied and sends it with the next request. An
  answer can be applied or be lost on the way; a request can be refused without touching the
  server's memory; and the client can start over. Requests follow one another: the next one is
  sent after the answer to the last one came or was given up.
\<close>

datatype 'd sync_event = Answered 'd | Lost 'd | Refused | Reset

definition rid_value :: "int \<Rightarrow> qvariant" where
  "rid_value i = QScalar (JNum (of_int i))"

definition rid_of_map :: "qmap \<Rightarrow> int" where
  "rid_of_map m = toInt (qget m KEY_RESPONSE_ID)"

fun protocol_step ::
  "('c \<Rightarrow> int) \<Rightarrow> (qmap \<Rightarrow> 'c \<Rightarrow> 'c) \<Rightarrow> ('c \<Rightarrow> 'c) \<Rightarrow> ('d \<Rightarrow> qmap) \<Rightarrow> sync_memory \<times> 'c \<Rightarrow> 'd sync_event \<Rightarrow> sync_memory \<times> 'c"
where
  "protocol_step rid_of handle reset encode (m, c) (Answered d) =
     (let (response, m) = generateSyncData (rid_of c) (encode d) m in (m, handle response c))"
| "protocol_step rid_of handle reset encode (m, c) (Lost d) =
     (let (response, m) = generateSyncData (rid_of c) (encode d) m in (m, c))"
| "protocol_step rid_of handle reset encode (m, c) Refused = (m, c)"
| "protocol_step rid_of handle reset encode (m, c) Reset = (m, reset c)"

text \<open>The specification: the client shows the data of the last answer it applied since it started over.\<close>

fun shown_step :: "'d option \<Rightarrow> 'd sync_event \<Rightarrow> 'd option" where
  "shown_step s (Answered d) = Some d"
| "shown_step s (Lost d) = s"
| "shown_step s Refused = s"
| "shown_step s Reset = None"

text \<open>
  Its limits: ids repeat after a million answers, and what the client shows must allow the
  next data to be sent as a difference (\<open>follows\<close>).
\<close>

fun fair_run :: "('d \<Rightarrow> bool) \<Rightarrow> ('d \<Rightarrow> 'd \<Rightarrow> bool) \<Rightarrow> 'd option \<Rightarrow> nat \<Rightarrow> 'd sync_event list \<Rightarrow> bool" where
  "fair_run ok follows s n [] \<longleftrightarrow> True"
| "fair_run ok follows s n (Answered d # es) \<longleftrightarrow>
     ok d \<and> (case s of None \<Rightarrow> True | Some d0 \<Rightarrow> follows d0 d) \<and> fair_run ok follows (Some d) 0 es"
| "fair_run ok follows s n (Lost d # es) \<longleftrightarrow> Suc n < 1000000 \<and> fair_run ok follows s (Suc n) es"
| "fair_run ok follows s n (Refused # es) \<longleftrightarrow> fair_run ok follows s n es"
| "fair_run ok follows s n (Reset # es) \<longleftrightarrow> fair_run ok follows None 0 es"

lemma toInt_rid [simp]: "toInt (rid_value i) = i"
  by (simp add: toInt_def rid_value_def)

lemma rid_of_map_set [simp]: "rid_of_map (map_set KEY_RESPONSE_ID (rid_value i) m) = i"
  by (simp add: rid_of_map_def qget_def)

lemma generate_full:
  "i \<le> 0 \<Longrightarrow> generateSyncData i d m =
     (map_set KEY_RESPONSE_ID (rid_value 1) (map_set KEY_FULL_UPDATE (QScalar (JBool True)) d),
      \<lparr>lastAcceptedData = [], lastData = map_set KEY_RESPONSE_ID (rid_value 1) d\<rparr>)"
  by (simp add: generateSyncData_def Let_def rid_value_def)

lemma generate_accept:
  assumes "0 < i" "rid_of_map (lastData m) = i"
  shows "generateSyncData i d m =
     (map_set KEY_RESPONSE_ID (rid_value (i mod 1000000 + 1)) (processMap (lastData m) d),
      \<lparr>lastAcceptedData = lastData m, lastData = map_set KEY_RESPONSE_ID (rid_value (i mod 1000000 + 1)) d\<rparr>)"
  using assms by (simp add: generateSyncData_def Let_def rid_value_def rid_of_map_def)

lemma generate_again:
  assumes "0 < i" "rid_of_map (lastAcceptedData m) = i" "rid_of_map (lastData m) = l" "0 < l" "l \<noteq> i"
  shows "generateSyncData i d m =
     (map_set KEY_RESPONSE_ID (rid_value (l mod 1000000 + 1)) (processMap (lastAcceptedData m) d),
      \<lparr>lastAcceptedData = lastAcceptedData m, lastData = map_set KEY_RESPONSE_ID (rid_value (l mod 1000000 + 1)) d\<rparr>)"
  using assms by (simp add: generateSyncData_def Let_def rid_value_def rid_of_map_def)

lemma generate_shape:
  fixes a m
  defines "j \<equiv> (if 0 < a then toInt (qget (lastData m) KEY_RESPONSE_ID) else 0) mod 1000000 + 1"
  shows "\<exists>sync acc. generateSyncData a d m =
      (map_set KEY_RESPONSE_ID (rid_value j) sync, \<lparr>lastAcceptedData = acc, lastData = map_set KEY_RESPONSE_ID (rid_value j) d\<rparr>)
    \<and> (sync = map_set KEY_FULL_UPDATE (QScalar (JBool True)) d \<or> (\<exists>base. sync = processMap base d))"
  unfolding generateSyncData_def Let_def rid_value_def j_def by (simp add: split_beta) blast

text \<open>The id of the answer after \<open>n\<close> lost ones.\<close>

definition later_id :: "int \<Rightarrow> nat \<Rightarrow> int" where
  "later_id i n = (i - 1 + int n) mod 1000000 + 1"

lemma later_id_range: "0 < later_id i n" "later_id i n \<le> 1000000"
  using pos_mod_bound [of 1000000 "i - 1 + int n"] by (simp_all add: later_id_def add_pos_nonneg)

lemma later_id_Suc: "later_id i n mod 1000000 + 1 = later_id i (Suc n)"
proof -
  have "((i - 1 + int n) mod 1000000 + 1) mod 1000000 = (i - 1 + int n + 1) mod 1000000" by (rule mod_add_left_eq)
  then show ?thesis by (simp add: later_id_def algebra_simps)
qed

lemma later_id_0: "0 < i \<Longrightarrow> i \<le> 1000000 \<Longrightarrow> later_id i 0 = i"
  by (simp add: later_id_def)

lemma later_id_fresh:
  assumes "0 < i" "i \<le> 1000000" "0 < n" "n < 1000000"
  shows "later_id i n \<noteq> i"
proof
  assume "later_id i n = i"
  then have "(i - 1 + int n) mod 1000000 = (i - 1) mod 1000000" using assms by (simp add: later_id_def)
  then have "1000000 dvd int n" by (simp add: mod_eq_dvd_iff)
  with assms show False by (auto dest: zdvd_imp_le)
qed

text \<open>What a client has to do with an answer for the protocol to keep it up to date.\<close>

locale rid_client =
  fixes rid_of :: "'c \<Rightarrow> int"
    and handle :: "qmap \<Rightarrow> 'c \<Rightarrow> 'c"
    and reset :: "'c \<Rightarrow> 'c"
    and encode :: "'d \<Rightarrow> qmap"
    and ok :: "'d \<Rightarrow> bool"
    and follows :: "'d \<Rightarrow> 'd \<Rightarrow> bool"
    and blank :: "'c \<Rightarrow> bool"
    and mirrors :: "'d \<Rightarrow> 'c \<Rightarrow> bool"
  assumes rid_handle: "0 < i \<Longrightarrow> rid_of (handle (map_set KEY_RESPONSE_ID (rid_value i) m) c) = i"
    and rid_reset: "rid_of (reset c) = 0"
    and blank_reset: "blank (reset c)"
    and handle_full: "ok d \<Longrightarrow> mirrors d (handle (map_set KEY_RESPONSE_ID (rid_value i)
                        (map_set KEY_FULL_UPDATE (QScalar (JBool True)) (encode d))) c)"
    and handle_change: "ok d0 \<Longrightarrow> ok d \<Longrightarrow> follows d0 d \<Longrightarrow> mirrors d0 c \<Longrightarrow>
                        mirrors d (handle (map_set KEY_RESPONSE_ID (rid_value i)
                          (processMap (map_set KEY_RESPONSE_ID (rid_value j) (encode d0)) (encode d))) c)"
begin

text \<open>
  The relation between what the client shows, the number of answers lost since, and the states of
  the server and the client.
\<close>

definition in_step :: "'d option \<Rightarrow> nat \<Rightarrow> sync_memory \<times> 'c \<Rightarrow> bool" where
  "in_step s n st \<longleftrightarrow>
     (case s of
        None \<Rightarrow> rid_of (snd st) = 0 \<and> blank (snd st)
      | Some d \<Rightarrow>
          ok d \<and> mirrors d (snd st) \<and> 0 < rid_of (snd st) \<and> rid_of (snd st) \<le> 1000000 \<and>
          (if n = 0 then lastData (fst st) = map_set KEY_RESPONSE_ID (rid_value (rid_of (snd st))) (encode d)
           else n < 1000000 \<and> lastAcceptedData (fst st) = map_set KEY_RESPONSE_ID (rid_value (rid_of (snd st))) (encode d)
                \<and> rid_of_map (lastData (fst st)) = later_id (rid_of (snd st)) n))"

lemma generated:
  assumes "in_step (Some d0) n (m, c)"
  shows "\<exists>j. generateSyncData (rid_of c) d m =
     (map_set KEY_RESPONSE_ID (rid_value (later_id (rid_of c) (Suc n))) (processMap (map_set KEY_RESPONSE_ID (rid_value j) (encode d0)) d),
      \<lparr>lastAcceptedData = map_set KEY_RESPONSE_ID (rid_value (rid_of c)) (encode d0),
       lastData = map_set KEY_RESPONSE_ID (rid_value (later_id (rid_of c) (Suc n))) d\<rparr>)"
proof (cases "n = 0")
  case True
  with assms have i: "0 < rid_of c" "rid_of c \<le> 1000000"
    and l: "lastData m = map_set KEY_RESPONSE_ID (rid_value (rid_of c)) (encode d0)"
    by (simp_all add: in_step_def)
  have "rid_of c mod 1000000 + 1 = later_id (rid_of c) (Suc n)"
    using later_id_Suc [of "rid_of c" 0] later_id_0 [OF i] True by simp
  with generate_accept [of "rid_of c" m d] l i show ?thesis by (metis rid_of_map_set)
next
  case False
  with assms have i: "0 < rid_of c" "rid_of c \<le> 1000000" "n < 1000000"
    and a: "lastAcceptedData m = map_set KEY_RESPONSE_ID (rid_value (rid_of c)) (encode d0)"
    and l: "rid_of_map (lastData m) = later_id (rid_of c) n"
    by (simp_all add: in_step_def)
  have "later_id (rid_of c) n \<noteq> rid_of c" using later_id_fresh i False by simp
  with generate_again [OF i(1) _ l later_id_range(1), of d] a show ?thesis
    by (simp add: later_id_Suc) blast
qed

lemma step_answered:
  assumes "in_step s n st" "ok d" "case s of None \<Rightarrow> True | Some d0 \<Rightarrow> follows d0 d"
  shows "in_step (Some d) 0 (protocol_step rid_of handle reset encode st (Answered d))"
proof (cases s)
  case None
  obtain m c where st: "st = (m, c)" by (cases st)
  with assms None have "rid_of c \<le> 0" by (simp add: in_step_def)
  from generate_full [OF this, of "encode d" m] st show ?thesis
    using handle_full [OF assms(2), of 1 c] assms(2) by (simp add: in_step_def rid_handle)
next
  case (Some d0)
  obtain m c where st: "st = (m, c)" by (cases st)
  with assms Some have i: "in_step (Some d0) n (m, c)" and f: "follows d0 d" by simp_all
  from i f have d0: "ok d0" "follows d0 d" "mirrors d0 c" by (simp_all add: in_step_def)
  from generated [OF i, of "encode d"] obtain j where
    "generateSyncData (rid_of c) (encode d) m =
     (map_set KEY_RESPONSE_ID (rid_value (later_id (rid_of c) (Suc n))) (processMap (map_set KEY_RESPONSE_ID (rid_value j) (encode d0)) (encode d)),
      \<lparr>lastAcceptedData = map_set KEY_RESPONSE_ID (rid_value (rid_of c)) (encode d0),
       lastData = map_set KEY_RESPONSE_ID (rid_value (later_id (rid_of c) (Suc n))) (encode d)\<rparr>)" ..
  with st show ?thesis
    using handle_change [OF d0(1) assms(2) d0(2,3), of "later_id (rid_of c) (Suc n)" j]
      later_id_range [of "rid_of c" "Suc n"] assms(2)
    by (simp add: in_step_def rid_handle)
qed

lemma step_lost:
  assumes "in_step s n st" "Suc n < 1000000"
  shows "in_step s (Suc n) (protocol_step rid_of handle reset encode st (Lost d))"
proof (cases s)
  case None
  with assms show ?thesis by (cases st) (simp add: in_step_def split_beta)
next
  case (Some d0)
  obtain m c where st: "st = (m, c)" by (cases st)
  with assms Some have i: "in_step (Some d0) n (m, c)" by simp
  from generated [OF i, of "encode d"] obtain j where
    "generateSyncData (rid_of c) (encode d) m =
     (map_set KEY_RESPONSE_ID (rid_value (later_id (rid_of c) (Suc n))) (processMap (map_set KEY_RESPONSE_ID (rid_value j) (encode d0)) (encode d)),
      \<lparr>lastAcceptedData = map_set KEY_RESPONSE_ID (rid_value (rid_of c)) (encode d0),
       lastData = map_set KEY_RESPONSE_ID (rid_value (later_id (rid_of c) (Suc n))) (encode d)\<rparr>)" ..
  with st Some i assms(2) show ?thesis by (simp add: in_step_def)
qed

lemma run_in_step:
  "in_step s n st \<Longrightarrow> fair_run ok follows s n es \<Longrightarrow>
     \<exists>n'. in_step (foldl shown_step s es) n' (foldl (protocol_step rid_of handle reset encode) st es)"
proof (induction es arbitrary: s n st)
  case (Cons e es)
  obtain m c where st: "st = (m, c)" by (cases st)
  show ?case
  proof (cases e)
    case (Answered d)
    with Cons step_answered [OF Cons.prems(1), of d] show ?thesis by simp
  next
    case (Lost d)
    with Cons step_lost [OF Cons.prems(1), of d] show ?thesis by simp
  next
    case Refused
    with Cons st show ?thesis by simp
  next
    case Reset
    have "in_step None 0 (m, reset c)" by (simp add: in_step_def rid_reset blank_reset)
    with Cons Reset st show ?thesis by simp
  qed
qed auto

lemma run_shows:
  assumes "rid_of c = 0" "blank c" "fair_run ok follows None 0 es"
  shows "case foldl shown_step None es of
       None \<Rightarrow> blank (snd (foldl (protocol_step rid_of handle reset encode) (m, c) es))
     | Some d \<Rightarrow> mirrors d (snd (foldl (protocol_step rid_of handle reset encode) (m, c) es))"
proof -
  have "in_step None 0 (m, c)" using assms by (simp add: in_step_def)
  from run_in_step [OF this assms(3)] show ?thesis by (auto simp: in_step_def split: option.splits)
qed

end

end
