(* ===== verification/SyncMaindata.thy ===== *)
theory SyncMaindata
  imports SyncServer
begin

text \<open>
  The main data of \<open>SyncController\<close>: the signals of the session collect the names of what changed,
  and each request turns them into changes to a snapshot, which are kept until the client
  accepts them. The session itself is a view: what \<open>serialize\<close>, \<open>categoryOptions\<close> and
  \<open>getTransferInfo\<close> read from it. Sets are lists without duplicates, their order being the order
  of iteration.
\<close>

section \<open>The session's data\<close>

datatype TrackerEndpointState = NotContacted | Working | NotWorking | TrackerError | Unreachable

record tracker_status =
  tracker_url :: string
  tracker_state :: TrackerEndpointState
  endpoints :: "(TrackerEndpointState \<times> string) list"

text \<open>A torrent: its serialized properties, with the id among them, and its trackers.\<close>

record torrent_info =
  serialized_info :: qmap
  torrent_trackers :: "tracker_status list"

record session_view =
  torrents :: "(string \<times> torrent_info) list"
  categoryOptions :: "(string \<times> qmap) list"
  session_tags :: "string list"
  transferInfo :: qmap
  isQueueingSystemEnabled :: bool
  isAltGlobalSpeedLimitEnabled :: bool
  refreshInterval :: int

definition hasWarningMessage :: "tracker_status \<Rightarrow> bool" where
  "hasWarningMessage st = list_ex (\<lambda>(state, message). state = Working \<and> message \<noteq> []) (endpoints st)"

fun announce_loop :: "tracker_status list \<Rightarrow> bool \<times> bool \<times> bool \<Rightarrow> bool \<times> bool \<times> bool" where
  "announce_loop [] flags = flags"
| "announce_loop (st # sts) (warning, error, other) =
     (let (warning, error, other) =
        (case tracker_state st of
           Working \<Rightarrow> (if \<not> warning \<and> hasWarningMessage st then True else warning, error, other)
         | TrackerError \<Rightarrow> (warning, True, other)
         | NotWorking \<Rightarrow> (warning, error, True)
         | Unreachable \<Rightarrow> (warning, error, True)
         | NotContacted \<Rightarrow> (warning, error, other))
      in if warning \<and> error \<and> other then (warning, error, other) else announce_loop sts (warning, error, other))"

definition addAnnounceStats :: "qmap \<Rightarrow> torrent_info \<Rightarrow> qmap" where
  "addAnnounceStats m t =
     (let (warning, error, other) = announce_loop (torrent_trackers t) (False, False, False)
      in map_set ''has_other_announce_error'' (QScalar (JBool other))
           (map_set ''has_tracker_error'' (QScalar (JBool error))
             (map_set ''has_tracker_warning'' (QScalar (JBool warning)) m)))"

section \<open>The controller\<close>

record sync_buf =
  b_categories :: "(string \<times> qmap) list"
  b_removedCategories :: "string list"
  b_tags :: "string list"
  b_removedTags :: "string list"
  b_torrents :: "(string \<times> qmap) list"
  b_removedTorrents :: "string list"
  b_trackers :: "(string \<times> string list) list"
  b_removedTrackers :: "string list"
  b_serverState :: qmap

record sync_controller =
  freeDiskSpace :: int
  knownTrackers :: "(string \<times> string list) list"
  updatedCategories :: "string list"
  removedCategories :: "string list"
  addedTags :: "string list"
  removedTags :: "string list"
  updatedTrackers :: "string list"
  removedTrackers :: "string list"
  updatedTorrents :: "string list"
  announcedTorrents :: "string list"
  removedTorrents :: "string list"
  maindataSnapshot :: sync_buf
  maindataSyncBuf :: sync_buf
  maindataLastSentID :: int
  maindataAcceptedID :: int

definition empty_buf :: sync_buf where
  "empty_buf = \<lparr>b_categories = [], b_removedCategories = [], b_tags = [], b_removedTags = [], b_torrents = [],
     b_removedTorrents = [], b_trackers = [], b_removedTrackers = [], b_serverState = []\<rparr>"

definition new_controller :: sync_controller where
  "new_controller = \<lparr>freeDiskSpace = 0, knownTrackers = [], updatedCategories = [], removedCategories = [],
     addedTags = [], removedTags = [], updatedTrackers = [], removedTrackers = [], updatedTorrents = [],
     announcedTorrents = [], removedTorrents = [], maindataSnapshot = empty_buf, maindataSyncBuf = empty_buf,
     maindataLastSentID = 0, maindataAcceptedID = -1\<rparr>"

section \<open>Signals of the session\<close>

definition onCategoryAdded :: "string \<Rightarrow> sync_controller \<Rightarrow> sync_controller" where
  "onCategoryAdded name k =
     k\<lparr>removedCategories := set_delete name (removedCategories k), updatedCategories := set_add name (updatedCategories k)\<rparr>"

definition onCategoryRemoved :: "string \<Rightarrow> sync_controller \<Rightarrow> sync_controller" where
  "onCategoryRemoved name k =
     k\<lparr>updatedCategories := set_delete name (updatedCategories k), removedCategories := set_add name (removedCategories k)\<rparr>"

definition onCategoryOptionsChanged :: "string \<Rightarrow> sync_controller \<Rightarrow> sync_controller" where
  "onCategoryOptionsChanged name k = k\<lparr>updatedCategories := set_add name (updatedCategories k)\<rparr>"

definition onSubcategoriesSupportChanged :: "session_view \<Rightarrow> sync_controller \<Rightarrow> sync_controller" where
  "onSubcategoriesSupportChanged s k =
     foldl (\<lambda>k name. if map_has (b_categories (maindataSnapshot k)) name then k else onCategoryAdded name k) k
       (keys (categoryOptions s))"

definition onTagAdded :: "string \<Rightarrow> sync_controller \<Rightarrow> sync_controller" where
  "onTagAdded tag k = k\<lparr>removedTags := set_delete tag (removedTags k), addedTags := set_add tag (addedTags k)\<rparr>"

definition onTagRemoved :: "string \<Rightarrow> sync_controller \<Rightarrow> sync_controller" where
  "onTagRemoved tag k = k\<lparr>addedTags := set_delete tag (addedTags k), removedTags := set_add tag (removedTags k)\<rparr>"

definition known_torrents :: "sync_controller \<Rightarrow> string \<Rightarrow> string list" where
  "known_torrents k tracker = (case map_get (knownTrackers k) tracker of None \<Rightarrow> [] | Some ids \<Rightarrow> ids)"

definition know_tracker :: "string \<Rightarrow> sync_controller \<Rightarrow> string \<Rightarrow> sync_controller" where
  "know_tracker tid k url =
     k\<lparr>knownTrackers := map_set url (set_add tid (known_torrents k url)) (knownTrackers k),
       updatedTrackers := set_add url (updatedTrackers k), removedTrackers := set_delete url (removedTrackers k)\<rparr>"

definition onTorrentAdded :: "string \<Rightarrow> torrent_info \<Rightarrow> sync_controller \<Rightarrow> sync_controller" where
  "onTorrentAdded tid t k =
     (let k = k\<lparr>removedTorrents := set_delete tid (removedTorrents k), updatedTorrents := set_add tid (updatedTorrents k),
                announcedTorrents := set_add tid (announcedTorrents k)\<rparr>
      in foldl (know_tracker tid) k (map tracker_url (torrent_trackers t)))"

definition forget_tracker :: "string \<Rightarrow> sync_controller \<Rightarrow> string \<Rightarrow> sync_controller" where
  "forget_tracker tid k url =
     (case map_get (knownTrackers k) url of
        None \<Rightarrow> k
      | Some ids \<Rightarrow>
          (let ids = set_delete tid ids
           in if ids = []
              then k\<lparr>knownTrackers := map_delete url (knownTrackers k),
                     updatedTrackers := set_delete url (updatedTrackers k),
                     removedTrackers := set_add url (removedTrackers k)\<rparr>
              else k\<lparr>knownTrackers := map_set url ids (knownTrackers k), updatedTrackers := set_add url (updatedTrackers k)\<rparr>))"

definition onTorrentAboutToBeRemoved :: "string \<Rightarrow> torrent_info \<Rightarrow> sync_controller \<Rightarrow> sync_controller" where
  "onTorrentAboutToBeRemoved tid t k =
     (let k = k\<lparr>announcedTorrents := set_delete tid (announcedTorrents k), updatedTorrents := set_delete tid (updatedTorrents k),
                removedTorrents := set_add tid (removedTorrents k)\<rparr>
      in foldl (forget_tracker tid) k (map tracker_url (torrent_trackers t)))"

text \<open>
  The handlers of the category, the metadata, the start, the save path, the saving mode, the tags
  and the update of a torrent all mark it as updated; stopping it also marks its announces.
\<close>

definition onTorrentUpdated :: "string \<Rightarrow> sync_controller \<Rightarrow> sync_controller" where
  "onTorrentUpdated tid k = k\<lparr>updatedTorrents := set_add tid (updatedTorrents k)\<rparr>"

definition onTorrentStopped :: "string \<Rightarrow> sync_controller \<Rightarrow> sync_controller" where
  "onTorrentStopped tid k =
     k\<lparr>updatedTorrents := set_add tid (updatedTorrents k), announcedTorrents := set_add tid (announcedTorrents k)\<rparr>"

definition onTorrentsUpdated :: "string list \<Rightarrow> sync_controller \<Rightarrow> sync_controller" where
  "onTorrentsUpdated tids k = foldl (\<lambda>k tid. onTorrentUpdated tid k) k tids"

definition onTorrentTrackerEntryStatusesUpdated :: "string \<Rightarrow> sync_controller \<Rightarrow> sync_controller" where
  "onTorrentTrackerEntryStatusesUpdated tid k = k\<lparr>announcedTorrents := set_add tid (announcedTorrents k)\<rparr>"

text \<open>
  A change of the trackers of a torrent: every known tracker is brought up to date in place or
  erased, then the new ones are added.
\<close>

definition revise_tracker :: "string \<Rightarrow> string list \<Rightarrow> sync_controller \<Rightarrow> string \<times> string list \<Rightarrow> sync_controller" where
  "revise_tracker tid current k = (\<lambda>(url, ids).
     if tid \<in> set ids \<and> url \<notin> set current then forget_tracker tid k url
     else if url \<in> set current \<and> tid \<notin> set ids
     then k\<lparr>knownTrackers := map_set url (set_add tid ids) (knownTrackers k), updatedTrackers := set_add url (updatedTrackers k)\<rparr>
     else k)"

definition onTorrentTrackersChanged :: "string \<Rightarrow> torrent_info \<Rightarrow> sync_controller \<Rightarrow> sync_controller" where
  "onTorrentTrackersChanged tid t k =
     (let current = set_of_list (map tracker_url (torrent_trackers t));
          k = foldl (revise_tracker tid current) k (knownTrackers k);
          k = foldl (\<lambda>k url. if map_has (knownTrackers k) url then k else know_tracker tid k url) k current
      in k\<lparr>announcedTorrents := set_add tid (announcedTorrents k)\<rparr>)"

definition updateFreeDiskSpace :: "int \<Rightarrow> sync_controller \<Rightarrow> sync_controller" where
  "updateFreeDiskSpace space k = k\<lparr>freeDiskSpace := space\<rparr>"

section \<open>The snapshot\<close>

definition adjust_category :: "string \<Rightarrow> qmap \<Rightarrow> qmap" where
  "adjust_category name m =
     map_set ''name'' (QScalar (JStr name)) (map_set ''savePath'' (qget m ''save_path'') (map_delete ''save_path'' m))"

definition server_state_map :: "session_view \<Rightarrow> sync_controller \<Rightarrow> qmap" where
  "server_state_map s k =
     map_set ''refresh_interval'' (QScalar (JNum (of_int (refreshInterval s))))
       (map_set ''use_alt_speed_limits'' (QScalar (JBool (isAltGlobalSpeedLimitEnabled s)))
         (map_set ''queueing'' (QScalar (JBool (isQueueingSystemEnabled s)))
           (map_set ''free_space_on_disk'' (QScalar (JNum (of_int (freeDiskSpace k)))) (transferInfo s))))"

definition serialize_torrent :: "torrent_info \<Rightarrow> qmap" where
  "serialize_torrent t = map_delete ''hash'' (serialized_info t)"

definition makeMaindataSnapshot :: "session_view \<Rightarrow> sync_controller \<Rightarrow> sync_controller" where
  "makeMaindataSnapshot s k =
     (let known = foldl (\<lambda>m (tid, t). foldl (\<lambda>m st. let url = tracker_url st
                     in map_set url (set_add tid (case map_get m url of None \<Rightarrow> [] | Some ids \<Rightarrow> ids)) m) m (torrent_trackers t))
                   [] (torrents s);
          snapshot = \<lparr>b_categories = map (\<lambda>(name, m). (name, adjust_category name m)) (categoryOptions s),
                      b_removedCategories = [], b_tags = session_tags s, b_removedTags = [],
                      b_torrents = map (\<lambda>(tid, t). (tid, addAnnounceStats (serialize_torrent t) t)) (torrents s),
                      b_removedTorrents = [], b_trackers = known, b_removedTrackers = [],
                      b_serverState = server_state_map s k\<rparr>
      in k\<lparr>knownTrackers := known, maindataAcceptedID := 0, maindataSnapshot := snapshot\<rparr>)"

section \<open>Changes to the snapshot\<close>

text \<open>
  Removed entries that are back are taken out of the list (\<open>removeOne\<close>), and the changes of
  entries that are gone out of the buffer.
\<close>

definition remove_ones :: "string list \<Rightarrow> string list \<Rightarrow> string list" where
  "remove_ones names xs = foldl (\<lambda>xs name. remove1 name xs) xs names"

definition remove_entries :: "string list \<Rightarrow> (string \<times> 'a) list \<Rightarrow> (string \<times> 'a) list" where
  "remove_entries names m = foldl (\<lambda>m name. map_delete name m) m names"

text \<open>
  The loop over entries that may have changed: \<open>new\<close> gives the present value from the last one,
  which is created empty when there is none, and what differs goes to the buffer.
\<close>

fun update_entries ::
  "(string \<Rightarrow> qmap \<Rightarrow> qmap) \<Rightarrow> string list \<Rightarrow> (string \<times> qmap) list \<times> (string \<times> qmap) list \<Rightarrow>
   (string \<times> qmap) list \<times> (string \<times> qmap) list"
where
  "update_entries new [] (snapshot, buf) = (snapshot, buf)"
| "update_entries new (name # names) (snapshot, buf) =
     (let old = (case map_get snapshot name of None \<Rightarrow> [] | Some m \<Rightarrow> m);
          snapshot = map_set name old snapshot;
          value' = new name old;
          syncData = processMap old value'
      in if syncData \<noteq> [] then update_entries new names (map_set name value' snapshot, map_set name syncData buf)
         else update_entries new names (snapshot, buf))"

definition session_torrent :: "session_view \<Rightarrow> string \<Rightarrow> torrent_info" where
  "session_torrent s tid =
     (case map_get (torrents s) tid of Some t \<Rightarrow> t | None \<Rightarrow> \<lparr>serialized_info = [], torrent_trackers = []\<rparr>)"

definition category_value :: "session_view \<Rightarrow> string \<Rightarrow> qmap \<Rightarrow> qmap" where
  "category_value s name old =
     adjust_category name (case map_get (categoryOptions s) name of Some m \<Rightarrow> m | None \<Rightarrow> [])"

definition updated_value :: "session_view \<Rightarrow> string list \<Rightarrow> string \<Rightarrow> qmap \<Rightarrow> qmap" where
  "updated_value s announced tid old =
     (let t = session_torrent s tid;
          m = serialize_torrent t
      in if tid \<in> set announced then addAnnounceStats m t
         else map_set ''has_other_announce_error'' (qget old ''has_other_announce_error'')
                (map_set ''has_tracker_error'' (qget old ''has_tracker_error'')
                  (map_set ''has_tracker_warning'' (qget old ''has_tracker_warning'') m)))"

definition announced_value :: "session_view \<Rightarrow> string \<Rightarrow> qmap \<Rightarrow> qmap" where
  "announced_value s tid old = addAnnounceStats old (session_torrent s tid)"

definition update_categories :: "session_view \<Rightarrow> sync_controller \<Rightarrow> sync_controller" where
  "update_categories s k =
     (let snapshot = maindataSnapshot k;
          buf = maindataSyncBuf k;
          (cats, changes) = update_entries (category_value s) (updatedCategories k)
             (b_categories snapshot, remove_entries (removedCategories k) (b_categories buf))
      in k\<lparr>maindataSnapshot := snapshot\<lparr>b_categories := remove_entries (removedCategories k) cats\<rparr>,
           maindataSyncBuf := buf\<lparr>b_categories := changes,
             b_removedCategories := remove_ones (updatedCategories k) (b_removedCategories buf) @ removedCategories k\<rparr>,
           updatedCategories := [], removedCategories := []\<rparr>)"

definition update_tags :: "sync_controller \<Rightarrow> sync_controller" where
  "update_tags k =
     (let snapshot = maindataSnapshot k;
          buf = maindataSyncBuf k
      in k\<lparr>maindataSnapshot := snapshot\<lparr>b_tags := remove_ones (removedTags k) (b_tags snapshot @ addedTags k)\<rparr>,
           maindataSyncBuf := buf\<lparr>b_tags := remove_ones (removedTags k) (b_tags buf) @ addedTags k,
             b_removedTags := remove_ones (addedTags k) (b_removedTags buf) @ removedTags k\<rparr>,
           addedTags := [], removedTags := []\<rparr>)"

definition update_torrents :: "session_view \<Rightarrow> sync_controller \<Rightarrow> sync_controller" where
  "update_torrents s k =
     (let snapshot = maindataSnapshot k;
          buf = maindataSyncBuf k;
          st = update_entries (updated_value s (announcedTorrents k)) (updatedTorrents k)
             (b_torrents snapshot, remove_entries (removedTorrents k) (b_torrents buf));
          (ts, changes) = update_entries (announced_value s) (filter (\<lambda>tid. tid \<notin> set (updatedTorrents k)) (announcedTorrents k)) st
      in k\<lparr>maindataSnapshot := snapshot\<lparr>b_torrents := remove_entries (removedTorrents k) ts\<rparr>,
           maindataSyncBuf := buf\<lparr>b_torrents := changes,
             b_removedTorrents := remove_ones (updatedTorrents k) (b_removedTorrents buf) @ removedTorrents k\<rparr>,
           updatedTorrents := [], announcedTorrents := [], removedTorrents := []\<rparr>)"

definition update_trackers :: "sync_controller \<Rightarrow> sync_controller" where
  "update_trackers k =
     (let snapshot = maindataSnapshot k;
          buf = maindataSyncBuf k;
          set_all = (\<lambda>m. foldl (\<lambda>m url. map_set url (known_torrents k url) m) m (updatedTrackers k))
      in k\<lparr>maindataSnapshot := snapshot\<lparr>b_trackers := remove_entries (removedTrackers k) (set_all (b_trackers snapshot))\<rparr>,
           maindataSyncBuf := buf\<lparr>b_trackers := set_all (remove_entries (removedTrackers k) (b_trackers buf)),
             b_removedTrackers := remove_ones (updatedTrackers k) (b_removedTrackers buf) @ removedTrackers k\<rparr>,
           updatedTrackers := [], removedTrackers := []\<rparr>)"

definition update_server_state :: "session_view \<Rightarrow> sync_controller \<Rightarrow> sync_controller" where
  "update_server_state s k =
     (let snapshot = maindataSnapshot k;
          buf = maindataSyncBuf k;
          serverState = server_state_map s k;
          syncData = processMap (b_serverState snapshot) serverState
      in if syncData \<noteq> []
         then k\<lparr>maindataSnapshot := snapshot\<lparr>b_serverState := serverState\<rparr>,
                maindataSyncBuf := buf\<lparr>b_serverState := syncData\<rparr>\<rparr>
         else k)"

definition unless_empty :: "('a list \<Rightarrow> 'b) \<Rightarrow> 'a list \<Rightarrow> 'b option" where
  "unless_empty f xs = (if xs = [] then None else Some (f xs))"

definition json_entries :: "(string \<times> qmap) list \<Rightarrow> (string \<times> jsobj) list" where
  "json_entries m = map (\<lambda>(name, e). (name, map (\<lambda>(k, v). (k, toJson v)) e)) m"

text \<open>The JSON object of the answer, as the record its handler reads.\<close>

definition answer_of :: "int \<Rightarrow> bool \<Rightarrow> sync_buf \<Rightarrow> sync_response" where
  "answer_of i fullUpdate buf =
     \<lparr>full_update = fullUpdate, response_id = of_int i,
      r_categories = unless_empty json_entries (b_categories buf),
      categories_removed = unless_empty id (b_removedCategories buf),
      r_tags = unless_empty id (b_tags buf), tags_removed = unless_empty id (b_removedTags buf),
      r_trackers = unless_empty id (b_trackers buf), trackers_removed = unless_empty id (b_removedTrackers buf),
      r_torrents = unless_empty json_entries (b_torrents buf),
      torrents_removed = unless_empty id (b_removedTorrents buf),
      server_state = unless_empty (map (\<lambda>(k, v). (k, toJson v))) (b_serverState buf)\<rparr>"

definition generateMaindataSyncData :: "session_view \<Rightarrow> int \<Rightarrow> bool \<Rightarrow> sync_controller \<Rightarrow> sync_response \<times> sync_controller" where
  "generateMaindataSyncData s i fullUpdate k =
     (let k = update_server_state s (update_trackers (update_torrents s (update_tags (update_categories s k))));
          k = (if fullUpdate then k\<lparr>maindataSyncBuf := maindataSnapshot k\<rparr> else k)
      in (answer_of i fullUpdate (maindataSyncBuf k), k))"

definition maindataAction :: "session_view \<Rightarrow> int \<Rightarrow> sync_controller \<Rightarrow> sync_response \<times> sync_controller" where
  "maindataAction s acceptedID k =
     (let k = (if maindataAcceptedID k < 0 then makeMaindataSnapshot s k else k);
          known = 0 < acceptedID \<and> 0 < maindataLastSentID k;
          k = (if known \<and> maindataLastSentID k = acceptedID
               then k\<lparr>maindataAcceptedID := acceptedID, maindataSyncBuf := empty_buf\<rparr> else k);
          fullUpdate = \<not> (known \<and> maindataAcceptedID k = acceptedID);
          i = maindataLastSentID k mod 1000000 + 1;
          (answer, k) = generateMaindataSyncData s i fullUpdate k
      in (answer, k\<lparr>maindataLastSentID := i\<rparr>))"

section \<open>What an update does to the torrents\<close>

lemma remove_entries_get: "map_get (remove_entries names m) x = (if x \<in> set names then None else map_get m x)"
  unfolding remove_entries_def by (induction names arbitrary: m) auto

lemma remove_entries_distinct: "distinct_keys m \<Longrightarrow> distinct_keys (remove_entries names m)"
  unfolding remove_entries_def by (induction names arbitrary: m) (auto intro!: distinct_keys_delete)

lemma remove_entries_Nil [simp]: "remove_entries names [] = []"
  unfolding remove_entries_def by (induction names) simp_all

lemma remove_ones_Nil [simp]: "remove_ones names [] = []"
  unfolding remove_ones_def by (induction names) simp_all

definition entry_or_empty :: "(string \<times> qmap) list \<Rightarrow> string \<Rightarrow> qmap" where
  "entry_or_empty m x = (case map_get m x of None \<Rightarrow> [] | Some e \<Rightarrow> e)"

lemma update_entries_get:
  "distinct names \<Longrightarrow>
     map_get (fst (update_entries new names (snapshot, buf))) x =
       (let old = entry_or_empty snapshot x
        in if x \<in> set names then Some (if processMap old (new x old) = [] then old else new x old) else map_get snapshot x)
   \<and> map_get (snd (update_entries new names (snapshot, buf))) x =
       (let old = entry_or_empty snapshot x
        in if x \<in> set names \<and> processMap old (new x old) \<noteq> [] then Some (processMap old (new x old)) else map_get buf x)"
proof (induction names arbitrary: snapshot buf)
  case (Cons name names)
  then have n: "name \<notin> set names" "distinct names" by simp_all
  show ?case
    using n Cons.IH [OF n(2)] by (cases "x = name") (simp_all add: Let_def entry_or_empty_def [symmetric] , simp_all add: entry_or_empty_def)
qed (simp add: Let_def)

lemma update_entries_distinct:
  "distinct_keys snapshot \<Longrightarrow> distinct_keys buf \<Longrightarrow>
     distinct_keys (fst (update_entries new names (snapshot, buf))) \<and> distinct_keys (snd (update_entries new names (snapshot, buf)))"
  by (induction names arbitrary: snapshot buf) (auto simp: Let_def intro!: distinct_keys_set)

text \<open>The present value of a torrent that may have changed, and what is sent of it.\<close>

definition touched :: "sync_controller \<Rightarrow> string set" where
  "touched k = set (updatedTorrents k) \<union> set (announcedTorrents k)"

definition present_value :: "session_view \<Rightarrow> sync_controller \<Rightarrow> string \<Rightarrow> qmap" where
  "present_value s k tid =
     (let old = entry_or_empty (b_torrents (maindataSnapshot k)) tid
      in if tid \<in> set (updatedTorrents k) then updated_value s (announcedTorrents k) tid old else announced_value s tid old)"

definition torrent_change :: "session_view \<Rightarrow> sync_controller \<Rightarrow> string \<Rightarrow> qmap" where
  "torrent_change s k tid = processMap (entry_or_empty (b_torrents (maindataSnapshot k)) tid) (present_value s k tid)"

lemma update_torrents_get:
  assumes "distinct (updatedTorrents k)" "distinct (announcedTorrents k)"
  shows "map_get (b_torrents (maindataSnapshot (update_torrents s k))) x =
      (if x \<in> set (removedTorrents k) then None
       else if x \<in> touched k
       then Some (if torrent_change s k x = [] then entry_or_empty (b_torrents (maindataSnapshot k)) x else present_value s k x)
       else map_get (b_torrents (maindataSnapshot k)) x)"
    and "map_get (b_torrents (maindataSyncBuf (update_torrents s k))) x =
      (if x \<in> touched k \<and> torrent_change s k x \<noteq> [] then Some (torrent_change s k x)
       else if x \<in> set (removedTorrents k) then None else map_get (b_torrents (maindataSyncBuf k)) x)"
proof -
  let ?snap = "b_torrents (maindataSnapshot k)" and ?buf = "remove_entries (removedTorrents k) (b_torrents (maindataSyncBuf k))"
  let ?only = "filter (\<lambda>tid. tid \<notin> set (updatedTorrents k)) (announcedTorrents k)"
  obtain t1 c1 where 1: "update_entries (updated_value s (announcedTorrents k)) (updatedTorrents k) (?snap, ?buf) = (t1, c1)"
    by fastforce
  obtain t2 c2 where 2: "update_entries (announced_value s) ?only (t1, c1) = (t2, c2)" by fastforce
  have only: "distinct ?only" using assms(2) by simp
  note u = update_entries_get [OF assms(1), of "updated_value s (announcedTorrents k)" ?snap ?buf x, unfolded 1 fst_conv snd_conv]
  note a = update_entries_get [OF only, of "announced_value s" t1 c1 x, unfolded 2 fst_conv snd_conv]
  have old: "x \<notin> set (updatedTorrents k) \<Longrightarrow> entry_or_empty t1 x = entry_or_empty ?snap x"
    using u by (simp add: entry_or_empty_def Let_def)
  have t2: "map_get t2 x =
      (if x \<in> touched k then Some (if torrent_change s k x = [] then entry_or_empty ?snap x else present_value s k x)
       else map_get ?snap x)"
    and c2: "map_get c2 x = (if x \<in> touched k \<and> torrent_change s k x \<noteq> [] then Some (torrent_change s k x) else map_get ?buf x)"
    using u a old by (auto simp: touched_def torrent_change_def present_value_def Let_def)
  have "b_torrents (maindataSnapshot (update_torrents s k)) = remove_entries (removedTorrents k) t2"
    "b_torrents (maindataSyncBuf (update_torrents s k)) = c2"
    by (simp_all add: update_torrents_def Let_def 1 2)
  then show "map_get (b_torrents (maindataSnapshot (update_torrents s k))) x =
      (if x \<in> set (removedTorrents k) then None
       else if x \<in> touched k
       then Some (if torrent_change s k x = [] then entry_or_empty (b_torrents (maindataSnapshot k)) x else present_value s k x)
       else map_get (b_torrents (maindataSnapshot k)) x)"
    "map_get (b_torrents (maindataSyncBuf (update_torrents s k))) x =
      (if x \<in> touched k \<and> torrent_change s k x \<noteq> [] then Some (torrent_change s k x)
       else if x \<in> set (removedTorrents k) then None else map_get (b_torrents (maindataSyncBuf k)) x)"
    by (simp_all add: remove_entries_get t2 c2)
qed

lemma update_torrents_distinct:
  assumes "distinct_keys (b_torrents (maindataSnapshot k))" "distinct_keys (b_torrents (maindataSyncBuf k))"
  shows "distinct_keys (b_torrents (maindataSnapshot (update_torrents s k)))
    \<and> distinct_keys (b_torrents (maindataSyncBuf (update_torrents s k)))"
proof -
  let ?only = "filter (\<lambda>tid. tid \<notin> set (updatedTorrents k)) (announcedTorrents k)"
  obtain t1 c1 where 1: "update_entries (updated_value s (announcedTorrents k)) (updatedTorrents k)
      (b_torrents (maindataSnapshot k), remove_entries (removedTorrents k) (b_torrents (maindataSyncBuf k))) = (t1, c1)"
    by fastforce
  obtain t2 c2 where 2: "update_entries (announced_value s) ?only (t1, c1) = (t2, c2)" by fastforce
  have "distinct_keys t1 \<and> distinct_keys c1"
    using update_entries_distinct [OF assms(1) remove_entries_distinct [OF assms(2)], of "updated_value s (announcedTorrents k)"] 1
    by (metis fst_conv snd_conv)
  then have "distinct_keys t2 \<and> distinct_keys c2"
    using update_entries_distinct [of t1 c1 "announced_value s" ?only] 2 by simp
  then show ?thesis by (simp add: update_torrents_def Let_def 1 2 remove_entries_distinct)
qed

section \<open>A request and the torrents\<close>

text \<open>The part of the controller that the torrents depend on.\<close>

definition torrent_part ::
  "sync_controller \<Rightarrow> (string \<times> qmap) list \<times> (string \<times> qmap) list \<times> string list \<times> string list \<times> string list \<times> string list"
where
  "torrent_part k = (b_torrents (maindataSnapshot k), b_torrents (maindataSyncBuf k), b_removedTorrents (maindataSyncBuf k),
     updatedTorrents k, announcedTorrents k, removedTorrents k)"

lemma updates_keep_torrents:
  "torrent_part (update_categories s k) = torrent_part k"
  "torrent_part (update_tags k) = torrent_part k"
  "torrent_part (update_trackers k) = torrent_part k"
  "torrent_part (update_server_state s k) = torrent_part k"
  by (simp_all add: torrent_part_def update_categories_def update_tags_def update_trackers_def update_server_state_def
      Let_def split_beta)

lemma update_torrents_cong:
  "torrent_part k = torrent_part k' \<Longrightarrow> torrent_part (update_torrents s k) = torrent_part (update_torrents s k')"
  by (simp add: torrent_part_def update_torrents_def Let_def split_beta)

definition all_updates :: "session_view \<Rightarrow> sync_controller \<Rightarrow> sync_controller" where
  "all_updates s k = update_server_state s (update_trackers (update_torrents s (update_tags (update_categories s k))))"

lemma all_updates_torrents: "torrent_part (all_updates s k) = torrent_part (update_torrents s k)"
  unfolding all_updates_def updates_keep_torrents
  by (rule update_torrents_cong) (simp add: updates_keep_torrents)

lemma updates_keep_ids:
  "maindataLastSentID (all_updates s k) = maindataLastSentID k" "maindataAcceptedID (all_updates s k) = maindataAcceptedID k"
  by (simp_all add: all_updates_def update_categories_def update_tags_def update_torrents_def update_trackers_def
      update_server_state_def Let_def split_beta)

lemma generate_unfold:
  "generateMaindataSyncData s i full k =
     (let k = all_updates s k; k = (if full then k\<lparr>maindataSyncBuf := maindataSnapshot k\<rparr> else k)
      in (answer_of i full (maindataSyncBuf k), k))"
  by (simp add: generateMaindataSyncData_def all_updates_def Let_def)

lemma update_torrents_removed:
  "b_removedTorrents (maindataSyncBuf (update_torrents s k)) =
     remove_ones (updatedTorrents k) (b_removedTorrents (maindataSyncBuf k)) @ removedTorrents k"
  "updatedTorrents (update_torrents s k) = []" "announcedTorrents (update_torrents s k) = []"
  "removedTorrents (update_torrents s k) = []"
  by (simp_all add: update_torrents_def Let_def split_beta)

text \<open>The answer to a client that has applied the last one.\<close>

lemma action_accepted:
  assumes "0 < maindataLastSentID k" "0 \<le> maindataAcceptedID k"
    and action: "maindataAction s (maindataLastSentID k) k = (answer, k')"
  defines "k0 \<equiv> update_torrents s (k\<lparr>maindataSyncBuf := empty_buf\<rparr>)"
  shows "full_update answer = False" "response_id answer = of_int (maindataLastSentID k mod 1000000 + 1)"
    "r_torrents answer = unless_empty json_entries (b_torrents (maindataSyncBuf k0))"
    "torrents_removed answer = unless_empty id (removedTorrents k)"
    "maindataLastSentID k' = maindataLastSentID k mod 1000000 + 1" "0 \<le> maindataAcceptedID k'"
    "b_torrents (maindataSnapshot k') = b_torrents (maindataSnapshot k0)"
    "updatedTorrents k' = []" "announcedTorrents k' = []" "removedTorrents k' = []"
proof -
  let ?k = "k\<lparr>maindataAcceptedID := maindataLastSentID k, maindataSyncBuf := empty_buf\<rparr>"
  have eq: "torrent_part (all_updates s ?k) = torrent_part k0"
    unfolding all_updates_torrents k0_def by (rule update_torrents_cong) (simp add: torrent_part_def)
  have a: "answer = answer_of (maindataLastSentID k mod 1000000 + 1) False (maindataSyncBuf (all_updates s ?k))"
    and k': "k' = (all_updates s ?k)\<lparr>maindataLastSentID := maindataLastSentID k mod 1000000 + 1\<rparr>"
    using action assms(1,2) by (auto simp: maindataAction_def generate_unfold Let_def)
  show "full_update answer = False" "response_id answer = of_int (maindataLastSentID k mod 1000000 + 1)"
    by (simp_all add: a answer_of_def)
  show "maindataLastSentID k' = maindataLastSentID k mod 1000000 + 1" "0 \<le> maindataAcceptedID k'"
    using assms(1) by (simp_all add: k' updates_keep_ids)
  show "r_torrents answer = unless_empty json_entries (b_torrents (maindataSyncBuf k0))"
    "torrents_removed answer = unless_empty id (removedTorrents k)"
    using eq by (simp_all add: a answer_of_def torrent_part_def k0_def update_torrents_removed empty_buf_def)
  show "b_torrents (maindataSnapshot k') = b_torrents (maindataSnapshot k0)"
    "updatedTorrents k' = []" "announcedTorrents k' = []" "removedTorrents k' = []"
    using eq by (simp_all add: k' torrent_part_def k0_def update_torrents_removed)
qed

text \<open>The first answer.\<close>

lemma action_first:
  assumes "maindataAcceptedID k < 0" "maindataLastSentID k = 0"
    and "updatedTorrents k = []" "announcedTorrents k = []" "removedTorrents k = []"
    and action: "maindataAction s i k = (answer, k')"
  shows "full_update answer = True" "response_id answer = 1"
    "r_torrents answer = unless_empty json_entries (map (\<lambda>(tid, t). (tid, addAnnounceStats (serialize_torrent t) t)) (torrents s))"
    "torrents_removed answer = None"
    "maindataLastSentID k' = 1" "0 \<le> maindataAcceptedID k'"
    "b_torrents (maindataSnapshot k') = map (\<lambda>(tid, t). (tid, addAnnounceStats (serialize_torrent t) t)) (torrents s)"
    "updatedTorrents k' = []" "announcedTorrents k' = []" "removedTorrents k' = []"
proof -
  let ?k = "makeMaindataSnapshot s k"
  have part: "b_torrents (maindataSnapshot ?k) = map (\<lambda>(tid, t). (tid, addAnnounceStats (serialize_torrent t) t)) (torrents s)"
    "updatedTorrents ?k = []" "announcedTorrents ?k = []" "removedTorrents ?k = []"
    "maindataLastSentID ?k = 0" "maindataAcceptedID ?k = 0"
    using assms by (simp_all add: makeMaindataSnapshot_def Let_def)
  have removed: "b_removedTorrents (maindataSnapshot (all_updates s ?k)) = []"
    by (simp add: all_updates_def update_categories_def update_tags_def update_torrents_def update_trackers_def
        update_server_state_def Let_def split_beta makeMaindataSnapshot_def)
  have eq: "torrent_part (all_updates s ?k) = torrent_part (update_torrents s ?k)" by (rule all_updates_torrents)
  have snap: "b_torrents (maindataSnapshot (all_updates s ?k)) = b_torrents (maindataSnapshot ?k)"
    using eq part by (simp add: torrent_part_def) (simp add: update_torrents_def Let_def remove_entries_def)
  have a: "answer = answer_of 1 True (maindataSnapshot (all_updates s ?k))"
    and k': "k' = (all_updates s ?k)\<lparr>maindataSyncBuf := maindataSnapshot (all_updates s ?k), maindataLastSentID := 1\<rparr>"
    using action assms(1,2) part by (auto simp: maindataAction_def generate_unfold Let_def)
  show "full_update answer = True" "response_id answer = 1" "torrents_removed answer = None"
    "r_torrents answer = unless_empty json_entries (map (\<lambda>(tid, t). (tid, addAnnounceStats (serialize_torrent t) t)) (torrents s))"
    by (simp_all add: a answer_of_def unless_empty_def removed snap part(1))
  show "maindataLastSentID k' = 1" "0 \<le> maindataAcceptedID k'"
    by (simp_all add: k' updates_keep_ids part)
  show "b_torrents (maindataSnapshot k') = map (\<lambda>(tid, t). (tid, addAnnounceStats (serialize_torrent t) t)) (torrents s)"
    "updatedTorrents k' = []" "announcedTorrents k' = []" "removedTorrents k' = []"
    using eq by (simp_all add: k' snap part torrent_part_def update_torrents_removed)
qed

end
