(* ===== verification/SyncLists.thy ===== *)
theory SyncLists
  imports SyncClient
begin

text \<open>
  The lists of the side bar and the rows of the torrents table agree: the maps of categories and
  of tags are two instances of an index from labels to the torrents that bear them, each kept
  right by the handler of a response; and the counts drawn from them are the numbers of rows that
  choosing the entry would show.
\<close>

section \<open>Indexes from labels to torrents\<close>

definition members :: "(string, string list) jsmap \<Rightarrow> string \<Rightarrow> string set" where
  "members m k = (case map_get m k of None \<Rightarrow> {} | Some ts \<Rightarrow> set ts)"

definition index_ok :: "(string, string list) jsmap \<Rightarrow> bool" where
  "index_ok m \<longleftrightarrow> distinct_keys m \<and> (\<forall>(k, ts) \<in> set m. distinct ts)"

definition strip_all :: "string \<Rightarrow> (string, string list) jsmap \<Rightarrow> (string, string list) jsmap" where
  "strip_all h m = map (\<lambda>(n, ts). (n, set_delete h ts)) m"

lemma members_Nil [simp]: "members [] k = {}"
  by (simp add: members_def)

lemma members_set [simp]: "members (map_set k ts m) k' = (if k' = k then set ts else members m k')"
  by (simp add: members_def)

lemma members_delete [simp]: "members (map_delete k m) k' = (if k' = k then {} else members m k')"
  by (simp add: members_def)

lemma strip_all_get: "map_get (strip_all h m) k = map_option (set_delete h) (map_get m k)"
  by (induction m) (auto simp: strip_all_def)

lemma members_strip [simp]: "members (strip_all h m) k = members m k - {h}"
  by (simp add: members_def strip_all_get split: option.split)

lemma keys_strip [simp]: "keys (strip_all h m) = keys m"
  by (simp add: strip_all_def comp_def split_beta)

lemma index_ok_set: "index_ok m \<Longrightarrow> distinct ts \<Longrightarrow> index_ok (map_set k ts m)"
  by (auto simp: index_ok_def set_map_set split: if_splits)

lemma index_ok_delete: "index_ok m \<Longrightarrow> index_ok (map_delete k m)"
  by (auto simp: index_ok_def AList.delete_eq distinct_keys_delete [unfolded AList.delete_eq])

lemma index_ok_strip: "index_ok m \<Longrightarrow> index_ok (strip_all h m)"
  by (auto simp: index_ok_def strip_all_def comp_def split_beta intro: distinct_set_delete)

lemma index_ok_get: "index_ok m \<Longrightarrow> map_get m k = Some ts \<Longrightarrow> distinct ts"
  by (auto simp: index_ok_def dest: map_of_SomeD)

lemma index_ok_Nil [simp]: "index_ok []"
  by (simp add: index_ok_def)

definition labelled :: "(jsobj \<Rightarrow> string list) \<Rightarrow> table \<Rightarrow> string \<Rightarrow> string \<Rightarrow> bool" where
  "labelled labels t h k \<longleftrightarrow> (\<exists>r. map_get (rows t) h = Some r \<and> k \<in> set (labels (full_data r)))"

lemma labelled_data:
  assumes "map row_data (rows t') = map row_data m"
  shows "labelled labels t' h k \<longleftrightarrow> (\<exists>r. map_get m h = Some r \<and> k \<in> set (labels (full_data r)))"
proof -
  have "labelled labels t' h k \<longleftrightarrow> (case map_option full_data (map_get (rows t') h) of None \<Rightarrow> False | Some d \<Rightarrow> k \<in> set (labels d))"
    by (simp add: labelled_def split: option.split)
  then show ?thesis unfolding row_data_full [OF assms] by (simp split: option.split)
qed

lemma labelled_same_data: "map row_data (rows t') = map row_data (rows t) \<Longrightarrow> labelled labels t' = labelled labels t"
  by (intro ext) (unfold labelled_data [of t' "rows t"], simp add: labelled_def)

lemma labelled_removeRow: "labelled labels (removeRow fsr h t) h' k \<longleftrightarrow> h' \<noteq> h \<and> labelled labels t h' k"
  unfolding labelled_data [OF row_data_removeRow] by (auto simp: labelled_def)

text \<open>
  The interface: what the code does to a list when it takes a torrent out and when an object
  with or without the property arrives.
\<close>

locale side_index =
  fixes index :: "client \<Rightarrow> (string, string list) jsmap"
    and key :: string
    and labels :: "jsobj \<Rightarrow> string list"
    and add :: "string \<Rightarrow> jsobj \<Rightarrow> client \<Rightarrow> js_error + client \<times> bool"
    and remove :: "string option \<Rightarrow> client \<Rightarrow> client \<times> bool"
  assumes labels_prop: "prop_get d key = prop_get d' key \<Longrightarrow> labels d = labels d'"
    and labels_absent: "prop_get d key = JUndef \<Longrightarrow> labels d = []"
    and remove_index: "index (fst (remove (Some h) c)) = strip_all h (index c)"
    and add_absent: "prop_get t key = JUndef \<Longrightarrow> add h t c = Inr (c', b) \<Longrightarrow> index c' = index c"
    and add_present: "prop_get t key \<noteq> JUndef \<Longrightarrow> add h t c = Inr (c', b) \<Longrightarrow> index_ok (index c) \<Longrightarrow>
        \<forall>k. h \<in> members (index c) k \<longrightarrow> k \<in> set (labels d) \<Longrightarrow>
        index_ok (index c') \<and> (\<forall>k. members (index c') k =
          (if k \<in> set (labels t) then insert h (members (index c) k) else members (index c) k - {h}))"
begin

text \<open>
  The index has under each label the torrents that bear it; of the labels in \<open>R\<close> it may have
  lost some.
\<close>

definition consistent :: "string set \<Rightarrow> client \<Rightarrow> bool" where
  "consistent R c \<longleftrightarrow> index_ok (index c)
     \<and> (\<forall>h k. h \<in> members (index c) k \<longrightarrow> labelled labels (torrentsTable c) h k)
     \<and> (\<forall>h k. labelled labels (torrentsTable c) h k \<and> k \<notin> R \<longrightarrow> h \<in> members (index c) k)"

lemma consistent_cong:
  "index c' = index c \<Longrightarrow> labelled labels (torrentsTable c') = labelled labels (torrentsTable c) \<Longrightarrow>
    consistent R c' = consistent R c"
  by (simp add: consistent_def)

lemma consistent_empty: "index c = [] \<Longrightarrow> rows (torrentsTable c) = [] \<Longrightarrow> consistent R c"
  by (simp add: consistent_def labelled_def)

lemma consistent_new_label:
  assumes "consistent R c" and "rows (torrentsTable c') = rows (torrentsTable c)"
    and "index c' = index c \<or> k \<notin> set (keys (index c)) \<and> index c' = map_set k [] (index c)"
  shows "consistent R c'"
proof -
  have "members (index c') l = members (index c) l" for l
    using assms(3) by (cases "l = k") (auto simp: members_def map_of_eq_None_iff [symmetric])
  moreover have "index_ok (index c')"
    using assms(3) index_ok_set [of "index c" "[]" k] assms(1) [unfolded consistent_def] by (elim disjE conjE) simp_all
  ultimately show ?thesis using assms(1,2) by (simp add: consistent_def labelled_def)
qed

lemma consistent_drop_label:
  "consistent R c \<Longrightarrow> index c' = map_delete k (index c) \<Longrightarrow> rows (torrentsTable c') = rows (torrentsTable c) \<Longrightarrow>
    consistent (insert k R) c'"
  by (auto simp: consistent_def labelled_def index_ok_delete)

lemma consistent_remove:
  assumes "consistent R c" and "index c' = strip_all h (index c)"
    and "\<And>h' k. labelled labels (torrentsTable c') h' k \<longleftrightarrow> h' \<noteq> h \<and> labelled labels (torrentsTable c) h' k"
  shows "consistent R c'"
  using assms by (auto simp: consistent_def index_ok_strip)

lemma consistent_update:
  assumes c: "consistent R c" and t: "distinct_keys t" "data_id t = h" "map_of t key \<noteq> Some JUndef"
    and c1: "index c1 = index c" "rows (torrentsTable c1) = rows (updateRowData t (torrentsTable c))"
    and add: "add h t c1 = Inr (c2, b)"
    and c3: "index c3 = index c2" "rows (torrentsTable c3) = rows (torrentsTable c1)"
  shows "consistent R c3"
proof -
  let ?old = "case map_get (rows (torrentsTable c)) h of None \<Rightarrow> [] | Some r \<Rightarrow> full_data r"
  have lab: "labelled labels (torrentsTable c3) h' k \<longleftrightarrow>
      (if h' = h then k \<in> set (labels (merge_props ?old t)) else labelled labels (torrentsTable c) h' k)" for h' k
    by (simp add: labelled_def c1 c3 updateRowData_get t)
  have old: "labelled labels (torrentsTable c) h k \<longleftrightarrow> k \<in> set (labels ?old)" for k
    using labels_absent [of "[]"] by (auto simp: labelled_def prop_get_def split: option.split)
  have mp: "prop_get (merge_props ?old t) key = (if map_of t key = None then prop_get ?old key else prop_get t key)"
    using merge_props_get [OF t(1)] by (simp add: prop_get_def split: option.split)
  note cc = c [unfolded consistent_def]
  show ?thesis
  proof (cases "prop_get t key = JUndef")
    case True
    have ix: "index c3 = index c" unfolding c3(1) add_absent [OF True add] by (rule c1(1))
    have "map_of t key = None" using True t(3) by (auto simp: prop_get_def split: option.splits)
    then have "labels (merge_props ?old t) = labels ?old" by (intro labels_prop) (simp add: mp)
    then have "labelled labels (torrentsTable c3) h' k = labelled labels (torrentsTable c) h' k" for h' k
      using old [of k] unfolding lab by simp
    then show ?thesis using cc unfolding consistent_def ix by simp
  next
    case False
    then obtain v where "map_of t key = Some v" by (auto simp: prop_get_def split: option.splits)
    then have "labels (merge_props ?old t) = labels t" by (intro labels_prop) (simp add: mp)
    moreover have "\<forall>k. h \<in> members (index c1) k \<longrightarrow> k \<in> set (labels ?old)"
      using cc old c1 by auto
    ultimately have "index_ok (index c3)" and m: "members (index c3) k =
        (if k \<in> set (labels (merge_props ?old t)) then insert h (members (index c) k) else members (index c) k - {h})" for k
      using add_present [OF False add] cc c1 c3 by simp_all
    moreover have "labelled labels (torrentsTable c3) h' k" if "h' \<in> members (index c3) k" for h' k
      using that cc unfolding lab m by (auto split: if_splits)
    moreover have "h' \<in> members (index c3) k" if "labelled labels (torrentsTable c3) h' k" "k \<notin> R" for h' k
      using that cc unfolding lab m by (auto split: if_splits)
    ultimately show ?thesis unfolding consistent_def by blast
  qed
qed

end

section \<open>Categories and tags\<close>

definition cat_index :: "client \<Rightarrow> (string, string list) jsmap" where
  "cat_index c = map (\<lambda>(n, d). (n, cat_torrents d)) (categoryMap c)"

definition cat_labels :: "jsobj \<Rightarrow> string list" where
  "cat_labels d = (case prop_get d ''category'' of JStr s \<Rightarrow> if s = [] then [] else [s] | _ \<Rightarrow> [])"

definition tag_labels :: "jsobj \<Rightarrow> string list" where
  "tag_labels d = (case prop_get d ''tags'' of JStr s \<Rightarrow> if s = [] then [] else js_split '', '' s | _ \<Rightarrow> [])"

lemma cat_index_get: "map_get (cat_index c) k = map_option cat_torrents (map_get (categoryMap c) k)"
  by (simp add: cat_index_def map_of_map)

lemma cat_index_set: "map (\<lambda>(n, d). (n, cat_torrents d)) (map_set k d m) = map_set k (cat_torrents d) (map (\<lambda>(n, d). (n, cat_torrents d)) m)"
  by (induction m) auto

lemma cat_index_delete: "map (\<lambda>(n, d). (n, cat_torrents d)) (map_delete k m) = map_delete k (map (\<lambda>(n, d). (n, cat_torrents d)) m)"
  by (induction m) (auto simp: AList.delete_eq)

lemma cat_index_same: "map_get m k = Some d \<Longrightarrow> cat_torrents d = ts \<Longrightarrow>
    map_set k ts (map (\<lambda>(n, d). (n, cat_torrents d)) m) = map (\<lambda>(n, d). (n, cat_torrents d)) m"
  by (induction m) (auto split: if_splits)

lemma map_set_get: "map_get m k = Some v \<Longrightarrow> map_set k v m = m"
  by (induction m) (auto split: if_splits)

lemma category_remove_index: "cat_index (fst (removeTorrentFromCategoryList (Some h) c)) = strip_all h (cat_index c)"
  by (simp add: removeTorrentFromCategoryList_def cat_index_def strip_all_def comp_def split_beta)

lemma category_add_index:
  assumes "addTorrentToCategoryList h t c = Inr (c', b)" and "prop_get t ''category'' \<noteq> JUndef"
    and "index_ok (cat_index c)" and "\<forall>k. h \<in> members (cat_index c) k \<longrightarrow> k \<in> set (cat_labels d)"
  shows "index_ok (cat_index c') \<and> (\<forall>k. members (cat_index c') k =
    (if k \<in> set (cat_labels t) then insert h (members (cat_index c) k) else members (cat_index c) k - {h}))"
proof -
  obtain s where s: "prop_get t ''category'' = JStr s"
    using assms(1,2) by (cases "prop_get t ''category''") (auto simp: addTorrentToCategoryList_def)
  show ?thesis
  proof (cases "s = []")
    case True
    then have "cat_index c' = strip_all h (cat_index c)"
      using assms(1) s category_remove_index [of h c] by (auto simp: addTorrentToCategoryList_def)
    moreover have "cat_labels t = []" by (simp add: cat_labels_def s True)
    ultimately show ?thesis using assms(3) by (simp add: index_ok_strip)
  next
    case False
    let ?d = "case map_get (categoryMap c) s of Some d \<Rightarrow> d | None \<Rightarrow> \<lparr>savePath = JUndef, downloadPath = JUndef, cat_torrents = []\<rparr>"
    let ?c = "c\<lparr>categoryMap := map_set s ?d (categoryMap c)\<rparr>"
    have lab: "cat_labels t = [s]" by (simp add: cat_labels_def s False)
    have d: "set (cat_torrents ?d) = members (cat_index c) s"
      by (simp add: members_def cat_index_get split: option.split)
    have dist: "distinct (cat_torrents ?d)"
    proof (cases "map_get (categoryMap c) s")
      case (Some x)
      then have "map_get (cat_index c) s = Some (cat_torrents x)" by (simp add: cat_index_get)
      from index_ok_get [OF assms(3) this] Some show ?thesis by simp
    qed simp
    have cc: "cat_index ?c = map_set s (cat_torrents ?d) (cat_index c)" by (simp add: cat_index_def cat_index_set)
    show ?thesis
    proof (cases "h \<in> set (cat_torrents ?d)")
      case True
      then have c': "c' = ?c" using assms(1) s False by (simp add: addTorrentToCategoryList_def Let_def)
      have "s \<in> set (cat_labels d)" using True assms(4) d by blast
      then have "set (cat_labels d) = {s}"
        by (cases "prop_get d ''category''") (auto simp: cat_labels_def split: if_splits)
      then have "h \<notin> members (cat_index c) k" if "k \<noteq> s" for k
        using that assms(4) by blast
      then have "members (cat_index c') k = (if k \<in> set [s] then insert h (members (cat_index c) k) else members (cat_index c) k - {h})" for k
        using True d unfolding c' cc members_set by (cases "k = s") (simp_all add: insert_absorb)
      then show ?thesis using index_ok_set [OF assms(3) dist, of s] unfolding c' cc lab by blast
    next
      case no: False
      then have "c' = (let c = fst (removeTorrentFromCategoryList (Some h) ?c)
          in c\<lparr>categoryMap := map_set s (?d\<lparr>cat_torrents := set_add h (cat_torrents ?d)\<rparr>) (categoryMap c)\<rparr>)"
        using assms(1) s False by (simp add: addTorrentToCategoryList_def Let_def)
      then have c': "cat_index c' = map_set s (set_add h (cat_torrents ?d)) (strip_all h (cat_index ?c))"
        using category_remove_index [of h ?c] by (simp add: Let_def cat_index_def cat_index_set)
      have "index_ok (map_set s (cat_torrents ?d) (cat_index c))" by (rule index_ok_set [OF assms(3) dist])
      then have "index_ok (cat_index c')" unfolding c' cc by (rule index_ok_set [OF index_ok_strip]) (simp add: dist)
      moreover have "members (cat_index c') k = (if k \<in> set [s] then insert h (members (cat_index c) k) else members (cat_index c) k - {h})" for k
        using d unfolding c' cc members_set members_strip by (cases "k = s") simp_all
      ultimately show ?thesis unfolding lab by blast
    qed
  qed
qed

interpretation categories: side_index cat_index "''category''" cat_labels addTorrentToCategoryList removeTorrentFromCategoryList
proof
  show "index_ok (cat_index c') \<and> (\<forall>k. members (cat_index c') k =
      (if k \<in> set (cat_labels t) then insert h (members (cat_index c) k) else members (cat_index c) k - {h}))"
    if "prop_get t ''category'' \<noteq> JUndef" "addTorrentToCategoryList h t c = Inr (c', b)" "index_ok (cat_index c)"
      "\<forall>k. h \<in> members (cat_index c) k \<longrightarrow> k \<in> set (cat_labels d)" for t h c c' b d
    using category_add_index that by blast
qed (auto simp: cat_labels_def category_remove_index addTorrentToCategoryList_def)

lemma tag_remove_index: "tagMap (fst (removeTorrentFromTagList (Some h) c)) = strip_all h (tagMap c)"
  by (simp add: removeTorrentFromTagList_def strip_all_def)

lemma add_tags_index:
  "index_ok (tagMap c) \<Longrightarrow> index_ok (tagMap (fst (foldl (add_tag h) (c, b) ls)))
    \<and> (\<forall>k. members (tagMap (fst (foldl (add_tag h) (c, b) ls))) k =
        (if k \<in> set ls then insert h (members (tagMap c) k) else members (tagMap c) k))"
proof (induction ls arbitrary: c b)
  case (Cons l ls)
  let ?ts = "case map_get (tagMap c) l of Some ts \<Rightarrow> ts | None \<Rightarrow> []"
  obtain c1 b1 where c1: "add_tag h (c, b) l = (c1, b1)" by fastforce
  then have t1: "tagMap c1 = map_set l (set_add h ?ts) (tagMap c)" by (auto simp: add_tag_def Let_def)
  have "distinct ?ts"
  proof (cases "map_get (tagMap c) l")
    case (Some x)
    with index_ok_get [OF Cons.prems this] show ?thesis by simp
  qed simp
  then have "index_ok (tagMap c1)" unfolding t1 using Cons.prems by (intro index_ok_set) simp_all
  note IH = Cons.IH [OF this, of b1]
  have m: "members (tagMap c1) k = (if k = l then insert h (members (tagMap c) k) else members (tagMap c) k)" for k
    unfolding t1 members_set by (simp add: members_def split: option.split)
  show ?case unfolding foldl_Cons c1 using IH by (simp add: m)
qed simp

interpretation tags: side_index tagMap "''tags''" tag_labels addTorrentToTagList removeTorrentFromTagList
proof
  fix t h c c' b d
  assume t: "prop_get t ''tags'' \<noteq> JUndef" "addTorrentToTagList h t c = Inr (c', b)" "index_ok (tagMap c)"
  then obtain s where s: "prop_get t ''tags'' = JStr s"
    by (cases "prop_get t ''tags''") (auto simp: addTorrentToTagList_def)
  let ?c = "fst (removeTorrentFromTagList (Some h) c)"
  have ok: "index_ok (tagMap ?c)" using t(3) by (simp add: tag_remove_index index_ok_strip)
  have c': "tagMap c' = tagMap (fst (foldl (add_tag h) (?c, False) (tag_labels t)))"
    using t(2) s by (auto simp: addTorrentToTagList_def tag_labels_def Let_def split: if_splits)
  show "index_ok (tagMap c') \<and> (\<forall>k. members (tagMap c') k =
      (if k \<in> set (tag_labels t) then insert h (members (tagMap c) k) else members (tagMap c) k - {h}))"
    unfolding c' using add_tags_index [OF ok, of h False "tag_labels t"] by (auto simp: tag_remove_index)
qed (auto simp: tag_labels_def tag_remove_index addTorrentToTagList_def)

section \<open>The handler keeps the lists\<close>

text \<open>Both lists are right, but for the categories in \<open>R\<close> and the tags in \<open>Q\<close>.\<close>

definition lists_but :: "string set \<Rightarrow> string set \<Rightarrow> client \<Rightarrow> bool" where
  "lists_but R Q c \<longleftrightarrow> categories.consistent R c \<and> tags.consistent Q c"

definition lists_consistent :: "client \<Rightarrow> bool" where
  "lists_consistent c \<longleftrightarrow> lists_but {} {} c"

lemma lists_but_cong:
  "cat_index c' = cat_index c \<Longrightarrow> tagMap c' = tagMap c \<Longrightarrow> torrentsTable c' = torrentsTable c \<Longrightarrow> lists_but R Q c' = lists_but R Q c"
  by (simp add: lists_but_def categories.consistent_def tags.consistent_def)

lemma merge_category_lists: "lists_but R Q c \<Longrightarrow> lists_but R Q (merge_category c nd)"
proof -
  assume c: "lists_but R Q c"
  obtain n d where nd: "nd = (n, d)" by fastforce
  have ix: "cat_index (merge_category c nd) = cat_index c
      \<or> n \<notin> set (keys (cat_index c)) \<and> cat_index (merge_category c nd) = map_set n [] (cat_index c)"
  proof (cases "map_get (categoryMap c) n")
    case None
    then have "n \<notin> set (keys (cat_index c))" by (simp add: cat_index_def comp_def split_beta map_of_eq_None_iff)
    then show ?thesis by (simp add: merge_category_def nd Let_def None cat_index_def cat_index_set)
  next
    case (Some x)
    then show ?thesis
      by (simp add: merge_category_def nd Let_def cat_index_def cat_index_set cat_index_same)
  qed
  have "tagMap (merge_category c nd) = tagMap c" "torrentsTable (merge_category c nd) = torrentsTable c"
    by (simp_all add: merge_category_def nd Let_def)
  moreover from this have "tags.consistent Q (merge_category c nd) = tags.consistent Q c"
    by (intro tags.consistent_cong) simp_all
  ultimately show ?thesis
    using c ix categories.consistent_new_label [of R c "merge_category c nd" n] by (simp add: lists_but_def)
qed

lemma remove_category_lists: "lists_but R Q c \<Longrightarrow> lists_but (insert k R) Q (remove_category c k)"
proof -
  have "tags.consistent Q (remove_category c k) = tags.consistent Q c"
    by (rule tags.consistent_cong) (simp_all add: remove_category_def)
  then show "lists_but R Q c \<Longrightarrow> ?thesis"
    using categories.consistent_drop_label [of R c "remove_category c k" k]
    by (simp add: lists_but_def remove_category_def cat_index_def cat_index_delete)
qed

lemma merge_tag_lists: "lists_but R Q c \<Longrightarrow> lists_but R Q (merge_tag c k)"
proof -
  have "categories.consistent R (merge_tag c k) = categories.consistent R c"
    by (rule categories.consistent_cong) (simp_all add: merge_tag_def cat_index_def)
  then show "lists_but R Q c \<Longrightarrow> ?thesis"
    using tags.consistent_new_label [of Q c "merge_tag c k" k]
    by (auto simp: lists_but_def merge_tag_def map_has_def)
qed

lemma remove_tag_lists: "lists_but R Q c \<Longrightarrow> lists_but R (insert k Q) (remove_tag c k)"
proof -
  have "categories.consistent R (remove_tag c k) = categories.consistent R c"
    by (rule categories.consistent_cong) (simp_all add: remove_tag_def cat_index_def)
  then show "lists_but R Q c \<Longrightarrow> ?thesis"
    using tags.consistent_drop_label [of Q c "remove_tag c k" k] by (simp add: lists_but_def remove_tag_def)
qed

lemma merge_tracker_lists: "lists_but R Q (merge_tracker urlHostname c x) = lists_but R Q c"
  by (rule lists_but_cong) (simp_all add: merge_tracker_def Let_def cat_index_def split_beta)

lemma remove_tracker_lists: "lists_but R Q (remove_tracker urlHostname c x) = lists_but R Q c"
  by (rule lists_but_cong) (simp_all add: remove_tracker_def Let_def cat_index_def split: option.split)

lemma clear_client_lists: "lists_but R Q (clear_client fsr c)"
  unfolding lists_but_def
  by (intro conjI categories.consistent_empty tags.consistent_empty) (simp_all add: clear_client_def cat_index_def)

definition the_list :: "'a list option \<Rightarrow> 'a set" where
  "the_list xs = (case xs of None \<Rightarrow> {} | Some ys \<Rightarrow> set ys)"

lemma remove_category_all: "lists_but R Q c \<Longrightarrow> lists_but (R \<union> the_list ks) Q (foldo remove_category ks c)"
proof -
  have "lists_but R Q c \<Longrightarrow> lists_but (R \<union> set ks) Q (foldl remove_category c ks)" for ks
  proof (induction ks arbitrary: R c)
    case (Cons k ks)
    from Cons.IH [OF remove_category_lists [OF Cons.prems, of k]] show ?case by simp
  qed simp
  then show "lists_but R Q c \<Longrightarrow> ?thesis" by (simp add: foldo_def the_list_def split: option.split)
qed

lemma remove_tag_all: "lists_but R Q c \<Longrightarrow> lists_but R (Q \<union> the_list ks) (foldo remove_tag ks c)"
proof -
  have "lists_but R Q c \<Longrightarrow> lists_but R (Q \<union> set ks) (foldl remove_tag c ks)" for ks
  proof (induction ks arbitrary: Q c)
    case (Cons k ks)
    from Cons.IH [OF remove_tag_lists [OF Cons.prems, of k]] show ?case by simp
  qed simp
  then show "lists_but R Q c \<Longrightarrow> ?thesis" by (simp add: foldo_def the_list_def split: option.split)
qed

lemma foldo_lists:
  assumes "\<And>c x. lists_but R Q c \<Longrightarrow> lists_but R Q (f c x)" and "lists_but R Q c"
  shows "lists_but R Q (foldo f xs c)"
proof -
  have "lists_but R Q (foldl f c ys)" for ys using assms(2) by (induction ys arbitrary: c) (auto intro: assms(1))
  then show ?thesis using assms(2) by (simp add: foldo_def split: option.split)
qed

lemma merge_lists_lists:
  assumes "full_update r \<or> lists_but {} {} c"
  shows "lists_but (the_list (categories_removed r)) (the_list (tags_removed r)) (merge_lists fsr urlHostname r c)"
proof -
  let ?c0 = "if full_update r then clear_client fsr c else c"
  let ?c1 = "if response_id r \<noteq> 0 then ?c0\<lparr>syncMainDataLastResponseId := response_id r\<rparr> else ?c0"
  have "lists_but {} {} ?c0" using assms by (auto simp: clear_client_lists)
  then have "lists_but {} {} ?c1"
    using lists_but_cong [of "?c0\<lparr>syncMainDataLastResponseId := response_id r\<rparr>" ?c0] by (simp add: cat_index_def)
  then have "lists_but {} {} (foldo merge_category (r_categories r) ?c1)"
    by (intro foldo_lists merge_category_lists)
  from remove_category_all [OF this, of "categories_removed r"]
  have "lists_but (the_list (categories_removed r)) {} (foldo merge_tag (r_tags r)
      (foldo remove_category (categories_removed r) (foldo merge_category (r_categories r) ?c1)))"
    by (intro foldo_lists [of _ _ merge_tag] merge_tag_lists) (simp_all only: Un_empty_left)
  from remove_tag_all [OF this, of "tags_removed r"] show ?thesis
    unfolding merge_lists_def Let_def
    by - (rule foldo_lists, simp add: remove_tracker_lists, rule foldo_lists, simp add: merge_tracker_lists, simp)
qed

text \<open>An object of a response: no property twice and none undefined.\<close>

definition json_object :: "jsobj \<Rightarrow> bool" where
  "json_object d \<longleftrightarrow> distinct_keys d \<and> JUndef \<notin> snd ` set d"

lemma complete_torrent_facts:
  assumes "json_object d"
  shows "distinct_keys (complete_torrent key d)" "data_id (complete_torrent key d) = key"
    and "p \<notin> {''rowId'', ''hash'', ''status'', ''_statusOrder''} \<Longrightarrow> map_of (complete_torrent key d) p = map_of d p"
  using assms
  by (auto simp: complete_torrent_def Let_def json_object_def data_id_def prop_get_def intro!: distinct_keys_set split: option.splits)

lemma json_object_get: "json_object d \<Longrightarrow> map_of d p \<noteq> Some JUndef"
  by (force simp: json_object_def dest: map_of_SomeD)

lemma addTorrentToCategoryList_keeps:
  "addTorrentToCategoryList h t c = Inr (c', b) \<Longrightarrow> tagMap c' = tagMap c \<and> torrentsTable c' = torrentsTable c"
  by (auto simp: addTorrentToCategoryList_def removeTorrentFromCategoryList_def Let_def split: jsval.splits if_splits)

lemma add_tags_keeps: "torrentsTable (fst (foldl (add_tag h) (c, b) ls)) = torrentsTable c
    \<and> categoryMap (fst (foldl (add_tag h) (c, b) ls)) = categoryMap c"
  by (induction ls arbitrary: c b) (simp_all add: add_tag_def Let_def)

lemma addTorrentToTagList_keeps:
  assumes "addTorrentToTagList h t c = Inr (c', b)"
  shows "cat_index c' = cat_index c \<and> torrentsTable c' = torrentsTable c"
proof -
  note k = add_tags_keeps [of h "fst (removeTorrentFromTagList (Some h) c)" False]
  have "torrentsTable c' = torrentsTable c \<and> categoryMap c' = categoryMap c"
  proof (cases "prop_get t ''tags''")
    case (JStr s)
    then show ?thesis
      using assms k [of "js_split '', '' s"]
      by (cases "s = []") (auto simp: addTorrentToTagList_def removeTorrentFromTagList_def Let_def dest: arg_cong [of _ _ fst])
  qed (use assms in \<open>auto simp: addTorrentToTagList_def\<close>)
  then show ?thesis by (simp add: cat_index_def)
qed

lemma merge_torrent_lists:
  assumes "merge_torrent (key, d) (c, u) = Inr (c', u')" and "lists_but R Q c" and "json_object d"
  shows "lists_but R Q c'"
proof -
  let ?t = "complete_torrent key d" and ?c1 = "c\<lparr>torrentsTable := updateRowData (complete_torrent key d) (torrentsTable c)\<rparr>"
  obtain c2 b2 where c2: "addTorrentToCategoryList key ?t ?c1 = Inr (c2, b2)"
    using assms(1) by (auto simp: merge_torrent_def Let_def split: sum.splits)
  then obtain b3 where c3: "addTorrentToTagList key ?t c2 = Inr (c', b3)"
    using assms(1) by (auto simp: merge_torrent_def Let_def split: sum.splits)
  note t = complete_torrent_facts [OF assms(3)] and k2 = addTorrentToCategoryList_keeps [OF c2] and k3 = addTorrentToTagList_keeps [OF c3]
  have "categories.consistent R c'"
  proof (rule categories.consistent_update [OF _ _ _ _ _ _ c2])
    show "categories.consistent R c" using assms(2) by (simp add: lists_but_def)
    show "map_of ?t ''category'' \<noteq> Some JUndef" using json_object_get [OF assms(3)] by (subst t(3)) simp_all
  qed (use t k2 k3 in \<open>simp_all add: cat_index_def\<close>)
  moreover have "tags.consistent Q c'"
  proof (rule tags.consistent_update [OF _ _ _ _ _ _ c3])
    show "tags.consistent Q c" using assms(2) by (simp add: lists_but_def)
    show "map_of ?t ''tags'' \<noteq> Some JUndef" using json_object_get [OF assms(3)] by (subst t(3)) simp_all
  qed (use t k2 k3 in simp_all)
  ultimately show ?thesis by (simp add: lists_but_def)
qed

lemma merge_torrents_lists:
  "merge_torrents ts (c, u) = Inr (c', u') \<Longrightarrow> lists_but R Q c \<Longrightarrow> \<forall>(k, d) \<in> set ts. json_object d \<Longrightarrow> lists_but R Q c'"
proof (induction ts arbitrary: c u)
  case (Cons t ts)
  obtain k d where t: "t = (k, d)" by fastforce
  from Cons.prems(1) obtain c1 u1 where s: "merge_torrent (k, d) (c, u) = Inr (c1, u1)" "merge_torrents ts (c1, u1) = Inr (c', u')"
    by (auto simp: t split: sum.splits)
  then show ?case using Cons.IH merge_torrent_lists [OF s(1)] Cons.prems(2,3) by (auto simp: t)
qed simp

lemma remove_torrent_lists:
  assumes "lists_but R Q c"
  shows "lists_but R Q (remove_torrent fsr c h)"
proof -
  let ?c = "remove_torrent fsr c h"
  have t: "torrentsTable ?c = removeRow (fsr c) h (torrentsTable c)"
    and ix: "cat_index ?c = strip_all h (cat_index c)" "tagMap ?c = strip_all h (tagMap c)"
    by (simp_all add: remove_torrent_def Let_def removeTorrentFromTagList_def removeTorrentFromCategoryList_def
        cat_index_def strip_all_def comp_def split_beta)
  show ?thesis
    using assms unfolding lists_but_def
    by (auto intro: categories.consistent_remove [OF _ ix(1)] tags.consistent_remove [OF _ ix(2)] simp: t labelled_removeRow)
qed

lemma merge_response_lists:
  assumes "merge_response fsr urlHostname r c = Inr (c', u)" and "full_update r \<or> lists_consistent c"
    and "\<forall>(k, d) \<in> the_list (r_torrents r). json_object d"
    and "\<forall>h k. labelled cat_labels (torrentsTable c') h k \<longrightarrow> k \<notin> the_list (categories_removed r)"
    and "\<forall>h k. labelled tag_labels (torrentsTable c') h k \<longrightarrow> k \<notin> the_list (tags_removed r)"
  shows "lists_consistent c'"
proof -
  let ?R = "the_list (categories_removed r)" and ?Q = "the_list (tags_removed r)"
  obtain c1 u1 where c1: "merge_torrents (case r_torrents r of None \<Rightarrow> [] | Some ts \<Rightarrow> ts)
        (merge_lists fsr urlHostname r c, list_updates r) = Inr (c1, u1)" and c': "(c', u) = merge_removed fsr r (c1, u1)"
    using assms(1) by (auto simp: merge_response_def split: sum.splits)
  have "lists_but ?R ?Q (merge_lists fsr urlHostname r c)"
    using merge_lists_lists assms(2) by (simp add: lists_consistent_def)
  moreover have "\<forall>(k, d) \<in> set (case r_torrents r of None \<Rightarrow> [] | Some ts \<Rightarrow> ts). json_object d"
    using assms(3) by (auto simp: the_list_def split: option.splits)
  ultimately have "lists_but ?R ?Q c1" by (rule merge_torrents_lists [OF c1])
  then have "lists_but ?R ?Q (foldl (remove_torrent fsr) c1 hs)" for hs
    by (induction hs arbitrary: c1) (auto intro: remove_torrent_lists)
  then have "lists_but ?R ?Q c'"
    using c' \<open>lists_but ?R ?Q c1\<close> by (auto simp: merge_removed_def split: option.splits)
  then show "lists_consistent c'"
    using assms(4,5) unfolding lists_consistent_def lists_but_def categories.consistent_def tags.consistent_def by blast
qed

section \<open>A page\<close>

text \<open>A first answer of the server, for a page that holds nothing yet.\<close>

definition ex_torrent_object :: "string \<Rightarrow> string \<Rightarrow> jsobj" where
  "ex_torrent_object category tgs = [(''state'', JStr ''uploading''), (''category'', JStr category), (''tags'', JStr tgs),
     (''name'', JStr ''n'')]"

definition ex_response :: sync_response where
  "ex_response = \<lparr>full_update = True, response_id = 1,
     r_categories = Some [(''tv'', [(''savePath'', JStr [])]), (''tv/new'', [(''savePath'', JStr [])])], categories_removed = None,
     r_tags = Some [''x''], tags_removed = None, r_trackers = None, trackers_removed = None,
     r_torrents = Some [(''a'', ex_torrent_object ''tv'' ''x''), (''b'', ex_torrent_object ''tv/new'' [])],
     torrents_removed = None, server_state = None\<rparr>"

definition ex_client :: client where
  "ex_client = \<lparr>categoryMap = [], tagMap = [], trackerMap = [], torrentsTable = ex_table\<lparr>rows := []\<rparr>, serverState = [],
     syncMainDataLastResponseId = 0,
     chosen = \<lparr>selectedStatus = ''all'', selectedCategory = CATEGORIES_ALL, selectedTag = TAGS_ALL, selectedTracker = TRACKERS_ALL\<rparr>,
     localPrefs = []\<rparr>"

definition ex_merged :: client where
  "ex_merged = (case merge_response (\<lambda>_ _. []) (\<lambda>_. None) ex_response ex_client of Inr (c, u) \<Rightarrow> c | Inl e \<Rightarrow> ex_client)"

lemma ex_merged_value:
  "map (\<lambda>(n, d). (n, cat_torrents d)) (categoryMap ex_merged) = [(''tv'', [''a'']), (''tv/new'', [''b''])]"
  "tagMap ex_merged = [(''x'', [''a''])]"
  "map (\<lambda>(h, r). (h, prop_get (full_data r) ''category'', prop_get (full_data r) ''tags'', prop_get (full_data r) ''state'', prop_get (full_data r) ''name''))
     (rows (torrentsTable ex_merged)) = [(''a'', JStr ''tv'', JStr ''x'', JStr ''uploading'', JStr ''n''), (''b'', JStr ''tv/new'', JStr [], JStr ''uploading'', JStr ''n'')]"
  by code_simp+

text \<open>
  C8: The handler of a response keeps the maps of categories and tags exact: under each category
  and each tag are, once each, the torrents of the table that have it, if they were exact before or
  the update is full, and if no torrent is left with a category or tag that was removed.
\<close>

theorem merge_keeps_lists:
  assumes "merge_response fsr urlHostname r c = Inr (c', u)" and "full_update r \<or> lists_consistent c"
    and "\<forall>(k, d) \<in> the_list (r_torrents r). json_object d"
    and "\<forall>h k. labelled cat_labels (torrentsTable c') h k \<longrightarrow> k \<notin> the_list (categories_removed r)"
    and "\<forall>h k. labelled tag_labels (torrentsTable c') h k \<longrightarrow> k \<notin> the_list (tags_removed r)"
  shows "lists_consistent c'
    \<and> (\<forall>h k. k \<noteq> [] \<longrightarrow> (h \<in> members (cat_index c') k \<longleftrightarrow>
         (\<exists>x. map_get (rows (torrentsTable c')) h = Some x \<and> prop_get (full_data x) ''category'' = JStr k)))
    \<and> (\<forall>h k. h \<in> members (tagMap c') k \<longleftrightarrow>
         (\<exists>x s. map_get (rows (torrentsTable c')) h = Some x \<and> prop_get (full_data x) ''tags'' = JStr s \<and> s \<noteq> []
           \<and> k \<in> set (js_split '', '' s)))"
proof -
  have "lists_consistent c'" by (rule merge_response_lists [OF assms])
  moreover from this have "h \<in> members (cat_index c') k \<longleftrightarrow> labelled cat_labels (torrentsTable c') h k" for h k
    unfolding lists_consistent_def lists_but_def categories.consistent_def by blast
  moreover have "h \<in> members (tagMap c') k \<longleftrightarrow> labelled tag_labels (torrentsTable c') h k" for h k
    using \<open>lists_consistent c'\<close> unfolding lists_consistent_def lists_but_def tags.consistent_def by blast
  moreover have "k \<in> set (tag_labels d) \<longleftrightarrow> (\<exists>s. prop_get d ''tags'' = JStr s \<and> s \<noteq> [] \<and> k \<in> set (js_split '', '' s))" for k d
    by (cases "prop_get d ''tags''") (auto simp: tag_labels_def)
  moreover have "k \<noteq> [] \<Longrightarrow> k \<in> set (cat_labels d) \<longleftrightarrow> prop_get d ''category'' = JStr k" for k d
    by (cases "prop_get d ''category''") (auto simp: cat_labels_def)
  ultimately show ?thesis unfolding labelled_def by blast
qed

lemma ex_merged_response:
  obtains u where "merge_response (\<lambda>_ _. []) (\<lambda>_. None) ex_response ex_client = Inr (ex_merged, u)"
proof -
  let ?m = "merge_response (\<lambda>_ _. []) (\<lambda>_. None) ex_response ex_client"
  have "case ?m of Inr _ \<Rightarrow> True | Inl e \<Rightarrow> False" by code_simp
  then have "\<exists>u. ?m = Inr (ex_merged, u)" by (cases ?m) (auto simp: ex_merged_def)
  then show thesis using that by blast
qed

theorem merge_keeps_lists_witness:
  "''b'' \<in> members (cat_index ex_merged) ''tv/new''
    \<longleftrightarrow> (\<exists>x. map_get (rows (torrentsTable ex_merged)) ''b'' = Some x \<and> prop_get (full_data x) ''category'' = JStr ''tv/new'')"
proof -
  obtain u where u: "merge_response (\<lambda>_ _. []) (\<lambda>_. None) ex_response ex_client = Inr (ex_merged, u)" by (rule ex_merged_response)
  show ?thesis
    using merge_keeps_lists [OF u]
    by (auto simp: ex_response_def the_list_def json_object_def ex_torrent_object_def)
qed

end
