(* ===== verification/SideBar.thy ===== *)
theory SideBar
  imports SyncLists
begin

text \<open>
  What the side bar shows: the count beside a category, with the torrents of its
  subcategories, beside a tag and beside the entries without a label is the number of rows that
  choosing the entry leaves in the table.
\<close>

section \<open>The order of the categories\<close>

lemma split_go_append:
  "split_go [c] acc (x @ c # s) = split_go [c] acc x @ js_split [c] s"
proof (induction x arbitrary: acc)
  case Nil
  show ?case by (simp add: split_go_Cons js_split_def)
next
  case (Cons d x)
  from Cons [of "[]"] Cons [of "d # acc"] show ?case by (auto simp: split_go_Cons)
qed

lemma js_split_append: "js_split [c] (x @ c # s) = js_split [c] x @ js_split [c] s"
  unfolding js_split_def split_go_append by simp

lemma js_join_append: "xs \<noteq> [] \<Longrightarrow> ys \<noteq> [] \<Longrightarrow> js_join sep (xs @ ys) = js_join sep xs @ sep @ js_join sep ys"
proof (induction xs)
  case (Cons x xs)
  then show ?case by (cases xs; cases ys) simp_all
qed simp

text \<open>A name continues another by a slash when its segments continue the other's.\<close>

lemma below_iff_segments:
  "prefix (n @ ''/'') k \<longleftrightarrow> strict_prefix (js_split ''/'' n) (js_split ''/'' k)"
proof
  assume "prefix (n @ ''/'') k"
  then obtain s where "k = n @ CHR ''/'' # s" by (auto simp: prefix_def)
  then show "strict_prefix (js_split ''/'' n) (js_split ''/'' k)" by (simp add: js_split_append strict_prefix_def)
next
  assume "strict_prefix (js_split ''/'' n) (js_split ''/'' k)"
  then obtain s where s: "js_split ''/'' k = js_split ''/'' n @ s" "s \<noteq> []" by (auto simp: strict_prefix_def prefix_def)
  have "k = js_join ''/'' (js_split ''/'' k)" by (simp add: js_join_split)
  also have "\<dots> = n @ ''/'' @ js_join ''/'' s" unfolding s(1) by (simp add: js_join_append s(2) js_join_split)
  finally show "prefix (n @ ''/'') k" by (metis append.assoc prefixI)
qed

text \<open>A comparison that tells different values apart; then so does the one on lists.\<close>

locale strict_comparator = comparator_on UNIV cmp for cmp :: "'a cmp" +
  assumes cmp_eq: "cmp x y = 0 \<Longrightarrow> x = y"
begin

lemma segments_refl [simp]: "compare_segments cmp xs xs = 0"
  by (induction xs) (simp_all add: cmp_refl)

lemma segments_sym: "sgn (compare_segments cmp xs ys) = - sgn (compare_segments cmp ys xs)"
proof (induction xs arbitrary: ys)
  case Nil
  show ?case by (cases ys) simp_all
next
  case (Cons x xs)
  show ?case
  proof (cases ys)
    case (Cons y ys')
    have "sgn (cmp x y) = - sgn (cmp y x)" by (rule cmp_sym) simp_all
    then show ?thesis using Cons.IH [of ys'] by (auto simp: Cons Let_def sgn_if split: if_splits)
  qed simp
qed

lemma segments_append: "s \<noteq> [] \<Longrightarrow> compare_segments cmp xs (xs @ s) < 0"
  by (induction xs) (auto simp: cmp_refl Let_def neq_Nil_conv)

lemma segments_between:
  "compare_segments cmp p y \<le> 0 \<Longrightarrow> compare_segments cmp y z \<le> 0 \<Longrightarrow> prefix p z \<Longrightarrow> prefix p y"
proof (induction p arbitrary: y z)
  case (Cons x p)
  then obtain z' where z: "z = x # z'" "prefix p z'" by (cases z) auto
  show ?case
  proof (cases y)
    case Nil
    then show ?thesis using Cons.prems(1) by simp
  next
    case (Cons w y')
    have "cmp x w \<le> 0" "cmp w x \<le> 0"
      using Cons.prems(1,2) by (auto simp: Cons z Let_def split: if_splits)
    then have "cmp x w = 0" using cmp_zero_iff [of x w] by simp
    then have "x = w" by (rule cmp_eq)
    then show ?thesis using Cons.IH [OF _ _ z(2), of y'] Cons.prems(1,2) by (simp add: Cons z cmp_refl)
  qed
qed simp

lemma segments_trans:
  "compare_segments cmp x y \<le> 0 \<Longrightarrow> compare_segments cmp y z \<le> 0 \<Longrightarrow> compare_segments cmp x z \<le> 0"
proof (induction x arbitrary: y z)
  case Nil
  then show ?case by (cases y; cases z) auto
next
  case (Cons a x)
  then obtain b y' where y: "y = b # y'" by (cases y) auto
  then obtain c z' where z: "z = c # z'" using Cons.prems(2) by (cases z) auto
  have ab: "cmp a b \<le> 0" and bc: "cmp b c \<le> 0" using Cons.prems by (auto simp: y z Let_def split: if_splits)
  have ac: "cmp a c \<le> 0" using cmp_trans [OF _ _ _ ab bc] by simp
  show ?case
  proof (cases "cmp a c = 0")
    case True
    then have "a = c" by (rule cmp_eq)
    then have "cmp a b = 0" using ab bc cmp_zero_iff [of a b] by simp
    then have "a = b" by (rule cmp_eq)
    then show ?thesis using Cons.IH [of y' z'] Cons.prems \<open>a = c\<close> by (simp add: y z cmp_refl)
  qed (use ac in \<open>simp add: z Let_def\<close>)
qed

lemma segments_eq: "compare_segments cmp xs ys = 0 \<Longrightarrow> xs = ys"
proof (induction xs arbitrary: ys)
  case Nil
  then show ?case by (cases ys) auto
next
  case (Cons x xs)
  then show ?case by (cases ys) (auto simp: Let_def dest: cmp_eq split: if_splits)
qed

lemma segments_strict: "strict_comparator (compare_segments cmp)"
  by unfold_locales (rule segments_refl, rule segments_sym, erule (1) segments_trans, erule segments_eq)

end

interpretation strict_numbers: strict_comparator compareNumbers
  by unfold_locales (simp add: cmp_simps)

text \<open>The order of texts by their code units is one such comparison.\<close>

definition compare_units :: "string cmp" where
  "compare_units = compare_segments (\<lambda>c d. int (of_char c) - int (of_char d))"

interpretation code_units: strict_comparator compare_units
  unfolding compare_units_def by (rule strict_comparator.segments_strict) (unfold_locales, auto simp: sgn_if)

section \<open>The counts of the tree\<close>

text \<open>Linking changes the counts, the children, the roots and the expansion, never a name.\<close>

lemma absorb_names [simp]:
  "map ce_name (absorb_subcategory i es j) = map ce_name es"
  "map ce_segments (absorb_subcategory i es j) = map ce_segments es"
  by (cases "j < length es"; cases "i < length es"; auto simp: absorb_subcategory_def Let_def map_update nth_list_update list_eq_iff_nth_eq)+

lemma subcategory_loop_go:
  "j < length es \<and> startsWith (ce_name (es ! j)) (ce_name (es ! i) @ ''/'') \<Longrightarrow>
    subcategory_loop i j es = subcategory_loop i (Suc j) (absorb_subcategory i es j)"
  by (subst subcategory_loop.simps) simp

lemma subcategory_loop_stop:
  "\<not> (j < length es \<and> startsWith (ce_name (es ! j)) (ce_name (es ! i) @ ''/'')) \<Longrightarrow> subcategory_loop i j es = es"
  by (subst subcategory_loop.simps) (rule if_not_P)

lemma subcategory_loop_names [simp]:
  "map ce_name (subcategory_loop i j es) = map ce_name es \<and> map ce_segments (subcategory_loop i j es) = map ce_segments es"
proof (induction i j es rule: subcategory_loop.induct)
  case (1 i j es)
  show ?case
  proof (cases "j < length es \<and> startsWith (ce_name (es ! j)) (ce_name (es ! i) @ ''/'')")
    case True
    then show ?thesis using 1 by (simp only: subcategory_loop_go absorb_names)
  next
    case False
    then have "subcategory_loop i j es = es" by (rule subcategory_loop_stop)
    then show ?thesis by simp
  qed
qed

lemma subcategory_loop_length [simp]: "length (subcategory_loop i j es) = length es"
  using subcategory_loop_names [of i j es] by (metis length_map)

lemma map_eq_nth: "map f xs = map f ys \<Longrightarrow> k < length ys \<Longrightarrow> f (xs ! k) = f (ys ! k)"
  using map_eq_imp_length_eq [of f xs f ys] by (metis nth_map)

text \<open>The positions from \<open>j\<close> on that the loop of \<open>i\<close> runs over.\<close>

definition run_from :: "cat_entry list \<Rightarrow> nat \<Rightarrow> nat \<Rightarrow> nat list" where
  "run_from es i j = takeWhile (\<lambda>k. startsWith (ce_name (es ! k)) (ce_name (es ! i) @ ''/'')) [j..<length es]"

lemma run_from_names: "map ce_name es' = map ce_name es \<Longrightarrow> run_from es' i j = run_from es i j" if "i < length es"
proof -
  assume n: "map ce_name es' = map ce_name es"
  then have l: "length es' = length es" by (metis length_map)
  have "ce_name (es' ! k) = ce_name (es ! k)" if "k < length es" for k
    by (rule map_eq_nth [OF n that])
  then show ?thesis unfolding run_from_def l using that by (intro takeWhile_cong) auto
qed

lemma absorb_count:
  assumes "i < j" "j < length es"
  shows "ce_count (absorb_subcategory i es j ! k) = (if k = i then ce_count (es ! i) + ce_count (es ! j) else ce_count (es ! k))"
  using assms by (auto simp: absorb_subcategory_def Let_def nth_list_update)

lemma absorb_children:
  assumes "i < j" "j < length es"
  shows "ce_children (absorb_subcategory i es j ! k) =
      (if k = i \<and> length (ce_segments (es ! j)) = length (ce_segments (es ! i)) + 1 then ce_children (es ! i) @ [j] else ce_children (es ! k))"
  using assms by (auto simp: absorb_subcategory_def Let_def nth_list_update)

lemma absorb_isRoot:
  assumes "i < j" "j < length es"
  shows "ce_isRoot (absorb_subcategory i es j ! k) =
      (if k = j \<and> length (ce_segments (es ! j)) = length (ce_segments (es ! i)) + 1 then False else ce_isRoot (es ! k))"
  using assms by (auto simp: absorb_subcategory_def Let_def nth_list_update)

lemma subcategory_loop_effect:
  assumes "i < j"
  shows "ce_count (subcategory_loop i j es ! k) = ce_count (es ! k) + (if k = i then sum_list (map (\<lambda>l. ce_count (es ! l)) (run_from es i j)) else 0)
    \<and> ce_children (subcategory_loop i j es ! k) = ce_children (es ! k) @
        (if k = i then filter (\<lambda>l. length (ce_segments (es ! l)) = length (ce_segments (es ! i)) + 1) (run_from es i j) else [])
    \<and> ce_isRoot (subcategory_loop i j es ! k) = (ce_isRoot (es ! k)
        \<and> \<not> (k \<in> set (run_from es i j) \<and> length (ce_segments (es ! k)) = length (ce_segments (es ! i)) + 1))"
  using assms
proof (induction i j es rule: subcategory_loop.induct)
  case (1 i j es)
  let ?P = "\<lambda>k. startsWith (ce_name (es ! k)) (ce_name (es ! i) @ ''/'')"
  show ?case
  proof (cases "j < length es \<and> ?P j")
    case False
    then have "run_from es i j = []" by (cases "j < length es") (auto simp: run_from_def upt_conv_Cons)
    then show ?thesis unfolding subcategory_loop_stop [OF False] by simp
  next
    case True
    let ?es = "absorb_subcategory i es j"
    have i: "i < length es" using True 1 by simp
    have run: "run_from es i j = j # run_from es i (Suc j)" using True by (simp add: run_from_def upt_conv_Cons)
    have run': "run_from ?es i (Suc j) = run_from es i (Suc j)" by (rule run_from_names [OF i]) simp
    have later: "l \<in> set (run_from es i (Suc j)) \<Longrightarrow> l > j \<and> l < length es" for l
      by (auto simp: run_from_def dest!: set_takeWhileD)
    have ni: "i \<notin> set (run_from es i (Suc j))" using later [of i] "1.prems" by auto
    have segs: "ce_segments (?es ! l) = ce_segments (es ! l)" if "l < length es" for l
      using that absorb_names(2) [of i es j] by (metis length_absorb nth_map)
    note eq = subcategory_loop_go [OF True]
    have cnt: "map (\<lambda>l. ce_count (?es ! l)) (run_from es i (Suc j)) = map (\<lambda>l. ce_count (es ! l)) (run_from es i (Suc j))"
      using ni True "1.prems" by (intro map_cong) (auto simp: absorb_count)
    have flt: "filter (\<lambda>l. length (ce_segments (?es ! l)) = length (ce_segments (?es ! i)) + 1) (run_from es i (Suc j))
        = filter (\<lambda>l. length (ce_segments (es ! l)) = length (ce_segments (es ! i)) + 1) (run_from es i (Suc j))"
      using later i by (intro filter_cong) (auto simp: segs)
    have mem: "(k \<in> set (run_from es i (Suc j)) \<and> length (ce_segments (?es ! k)) = length (ce_segments (?es ! i)) + 1)
        = (k \<in> set (run_from es i (Suc j)) \<and> length (ce_segments (es ! k)) = length (ce_segments (es ! i)) + 1)"
      using later [of k] i by (auto simp: segs)
    have "i < Suc j" using "1.prems" by simp
    note IH = "1.IH" [OF True this, unfolded run' cnt flt mem]
    note a = absorb_count [OF "1.prems", of es k] absorb_children [OF "1.prems", of es k] absorb_isRoot [OF "1.prems", of es k]
    show ?thesis
      using IH a True ni later [of j] "1.prems" unfolding eq run by (cases "k = i"; cases "k = j") simp_all
  qed
qed

definition below :: "cat_entry list \<Rightarrow> nat \<Rightarrow> nat list" where
  "below es i = run_from es i (Suc i)"

definition is_child :: "cat_entry list \<Rightarrow> nat \<Rightarrow> nat \<Rightarrow> bool" where
  "is_child es i k \<longleftrightarrow> k \<in> set (below es i) \<and> length (ce_segments (es ! k)) = length (ce_segments (es ! i)) + 1"

lemma below_later: "k \<in> set (below es i) \<Longrightarrow> i < k \<and> k < length es"
  by (auto simp: below_def run_from_def dest!: set_takeWhileD)

lemma link_upto:
  assumes "m \<le> length es"
  defines "fs \<equiv> foldl (\<lambda>es i. subcategory_loop i (Suc i) es) es [0..<m]"
  shows "map ce_name fs = map ce_name es \<and> map ce_segments fs = map ce_segments es
    \<and> (\<forall>k < length es.
      ce_count (fs ! k) = ce_count (es ! k) + (if k < m then sum_list (map (\<lambda>l. ce_count (es ! l)) (below es k)) else 0)
    \<and> ce_children (fs ! k) = ce_children (es ! k) @ (if k < m then filter (is_child es k) (below es k) else [])
    \<and> (ce_isRoot (fs ! k) \<longleftrightarrow> ce_isRoot (es ! k) \<and> (\<forall>i < m. \<not> is_child es i k)))"
  using assms(1) unfolding fs_def
proof (induction m)
  case (Suc m)
  let ?f = "foldl (\<lambda>es i. subcategory_loop i (Suc i) es) es [0..<m]"
  have m: "m < length es" and IH: "map ce_name ?f = map ce_name es" "map ce_segments ?f = map ce_segments es"
    "\<And>k. k < length es \<Longrightarrow> ce_count (?f ! k) = ce_count (es ! k) + (if k < m then sum_list (map (\<lambda>l. ce_count (es ! l)) (below es k)) else 0)"
    "\<And>k. k < length es \<Longrightarrow> ce_children (?f ! k) = ce_children (es ! k) @ (if k < m then filter (is_child es k) (below es k) else [])"
    "\<And>k. k < length es \<Longrightarrow> ce_isRoot (?f ! k) \<longleftrightarrow> ce_isRoot (es ! k) \<and> (\<forall>i < m. \<not> is_child es i k)"
    using Suc by simp_all
  have run: "run_from ?f m (Suc m) = below es m" unfolding below_def by (rule run_from_names [OF m IH(1)])
  have segs: "ce_segments (?f ! k) = ce_segments (es ! k)" if "k < length es" for k
    by (rule map_eq_nth [OF IH(2) that])
  have cnt: "map (\<lambda>l. ce_count (?f ! l)) (below es m) = map (\<lambda>l. ce_count (es ! l)) (below es m)"
    by (intro map_cong) (auto simp: IH(3) dest!: below_later)
  have flt: "filter (\<lambda>l. length (ce_segments (?f ! l)) = length (ce_segments (?f ! m)) + 1) (below es m) = filter (is_child es m) (below es m)"
    using m by (intro filter_cong) (auto simp: is_child_def segs dest: below_later)
  have mem: "(k \<in> set (below es m) \<and> length (ce_segments (?f ! k)) = length (ce_segments (?f ! m)) + 1) = is_child es m k" for k
    using m by (auto simp: is_child_def segs dest: below_later)
  note eff = subcategory_loop_effect [of m "Suc m" ?f, unfolded run cnt flt mem, simplified]
  have "(\<forall>i < Suc m. \<not> is_child es i k) \<longleftrightarrow> (\<forall>i < m. \<not> is_child es i k) \<and> \<not> is_child es m k" for k
    by (auto simp: less_Suc_eq)
  then show ?case using eff IH m by (simp add: less_Suc_eq)
qed simp

lemma link_categories_effect:
  assumes "k < length es"
  shows "ce_name (link_categories es ! k) = ce_name (es ! k)" "ce_segments (link_categories es ! k) = ce_segments (es ! k)"
    and "ce_count (link_categories es ! k) = ce_count (es ! k) + sum_list (map (\<lambda>l. ce_count (es ! l)) (below es k))"
    and "ce_children (link_categories es ! k) = ce_children (es ! k) @ filter (is_child es k) (below es k)"
    and "ce_isRoot (link_categories es ! k) \<longleftrightarrow> ce_isRoot (es ! k) \<and> (\<forall>i < length es. \<not> is_child es i k)"
proof -
  note l = link_upto [of "length es" es, folded link_categories_def]
  show "ce_name (link_categories es ! k) = ce_name (es ! k)" "ce_segments (link_categories es ! k) = ce_segments (es ! k)"
    using l assms by (auto intro: map_eq_nth)
qed (use link_upto [of "length es" es, folded link_categories_def] assms in simp_all)

lemma link_categories_length [simp]: "length (link_categories es) = length es"
  using link_upto [of "length es" es, folded link_categories_def] by (metis length_map order_refl)

lemma takeWhile_upt:
  "(\<And>l l'. k \<le> l' \<Longrightarrow> l' < l \<Longrightarrow> l < n \<Longrightarrow> P l \<Longrightarrow> P l') \<Longrightarrow> takeWhile P [k..<n] = filter P [k..<n]"
proof (induction "n - k" arbitrary: k)
  case (Suc d)
  then have k: "[k..<n] = k # [Suc k..<n]" by (simp add: upt_conv_Cons)
  show ?case
  proof (cases "P k")
    case True
    then show ?thesis using Suc.hyps(1) [of "Suc k"] Suc.hyps(2) Suc.prems unfolding k by auto
  next
    case False
    then have "filter P [Suc k..<n] = []" using Suc.prems [of k] by (auto simp: filter_empty_conv Suc_le_eq)
    then show ?thesis using False unfolding k by simp
  qed
qed simp

lemma below_sorted:
  assumes cmp: "strict_comparator collate"
    and srt: "sorted_wrt (\<lambda>x y. compare_segments collate (ce_segments x) (ce_segments y) \<le> 0) es"
    and segs: "\<forall>e \<in> set es. ce_segments e = js_split ''/'' (ce_name e)" and dist: "distinct (map ce_name es)" and k: "k < length es"
  shows "below es k = filter (\<lambda>l. prefix (ce_name (es ! k) @ ''/'') (ce_name (es ! l))) [0..<length es]"
proof -
  let ?P = "\<lambda>l. prefix (ce_name (es ! k) @ ''/'') (ce_name (es ! l))" and ?s = "\<lambda>l. ce_segments (es ! l)"
  have le: "compare_segments collate (?s l) (?s l') \<le> 0" if "l < l'" "l' < length es" for l l'
    using sorted_wrt_nth_less [OF srt that] .
  have P: "?P l \<longleftrightarrow> strict_prefix (?s k) (?s l)" if "l < length es" for l
    using that k segs by (simp add: below_iff_segments)
  have inj: "?s l \<noteq> ?s k" if "l < length es" "l \<noteq> k" for l
  proof
    assume "?s l = ?s k"
    then have "js_join ''/'' (js_split ''/'' (ce_name (es ! l))) = js_join ''/'' (js_split ''/'' (ce_name (es ! k)))"
      using segs that k by simp
    then show False using that k dist by (simp add: js_join_split distinct_conv_nth)
  qed
  have "takeWhile ?P [Suc k..<length es] = filter ?P [Suc k..<length es]"
  proof (rule takeWhile_upt)
    fix l l'
    assume l: "Suc k \<le> l'" "l' < l" "l < length es" "?P l"
    then have "prefix (?s k) (?s l)" using P by (auto simp: strict_prefix_def)
    then have "prefix (?s k) (?s l')"
      using strict_comparator.segments_between [OF cmp le [of k l'] le [of l' l]] l by simp
    then show "?P l'" using P [of l'] inj [of l'] l by (auto simp: strict_prefix_def)
  qed
  moreover have "filter ?P [0..<Suc k] = []"
  proof -
    have "\<not> ?P l" if "l \<le> k" for l
    proof
      assume "?P l"
      moreover have "l < length es" using that k by simp
      ultimately have "strict_prefix (?s k) (?s l)" using P by blast
      then obtain s where s: "?s l = ?s k @ s" "s \<noteq> []" by (auto simp: strict_prefix_def prefix_def)
      then have lt: "compare_segments collate (?s k) (?s l) < 0"
        using strict_comparator.segments_append [OF cmp s(2)] by simp
      then have "l \<noteq> k" using strict_comparator.segments_refl [OF cmp] by auto
      then have "compare_segments collate (?s l) (?s k) \<le> 0" using le [of l k] that k by simp
      then show False
        using lt strict_comparator.segments_sym [OF cmp, of "?s l" "?s k"] by (auto simp: sgn_if split: if_splits)
    qed
    then show ?thesis by (auto simp: filter_empty_conv)
  qed
  moreover have "[0..<length es] = [0..<Suc k] @ [Suc k..<length es]"
    using k by (metis Suc_leI le_add_diff_inverse upt_add_eq_append zero_le)
  ultimately show ?thesis unfolding below_def run_from_def by simp
qed

text \<open>The sorted array holds one entry for every category.\<close>

definition new_entry :: "client \<Rightarrow> string \<times> category_data \<Rightarrow> cat_entry" where
  "new_entry c = (\<lambda>(n, d). \<lparr>ce_name = n, ce_count = length (cat_torrents d), ce_segments = js_split ''/'' n,
     ce_children = [], ce_isRoot = True, ce_forceExpand = (map_get (localPrefs c) (collapse_key n) = None)\<rparr>)"

lemma sorted_categories_facts:
  assumes "strict_comparator collate" and "distinct_keys (categoryMap c)"
  shows "mset (sorted_categories collate c) = mset (map (new_entry c) (categoryMap c))"
    and "sorted_wrt (\<lambda>x y. compare_segments collate (ce_segments x) (ce_segments y) \<le> 0) (sorted_categories collate c)"
    and "distinct (map ce_name (sorted_categories collate c))"
    and "\<forall>e \<in> set (sorted_categories collate c). ce_segments e = js_split ''/'' (ce_name e) \<and> ce_children e = [] \<and> ce_isRoot e"
proof -
  have es: "sorted_categories collate c = js_sort (\<lambda>l r. compare_segments collate (ce_segments l) (ce_segments r)) (map (new_entry c) (categoryMap c))"
    by (simp add: sorted_categories_def new_entry_def)
  show m: "mset (sorted_categories collate c) = mset (map (new_entry c) (categoryMap c))"
    unfolding es by (rule mset_js_sort)
  have "comparator_on UNIV (compare_segments collate)"
    using strict_comparator.segments_strict [OF assms(1)] by (simp add: strict_comparator_def)
  then have "comparator_on UNIV (\<lambda>l r. compare_segments collate (ce_segments l) (ce_segments r))"
    by (rule comparator_on_pullback) simp
  then show "sorted_wrt (\<lambda>x y. compare_segments collate (ce_segments x) (ce_segments y) \<le> 0) (sorted_categories collate c)"
    unfolding es by (rule comparator_on.sorted_js_sort) simp
  have "mset (map ce_name (sorted_categories collate c)) = mset (map fst (categoryMap c))"
    using arg_cong [OF m, of "image_mset ce_name"] by (simp add: new_entry_def comp_def split_beta flip: mset_map)
  then show "distinct (map ce_name (sorted_categories collate c))" using assms(2) mset_eq_imp_distinct_iff by blast
  show "\<forall>e \<in> set (sorted_categories collate c). ce_segments e = js_split ''/'' (ce_name e) \<and> ce_children e = [] \<and> ce_isRoot e"
    using mset_eq_setD [OF m] by (auto simp: new_entry_def)
qed

lemma sum_list_mset_cong:
  fixes g :: "'a \<Rightarrow> nat"
  assumes "mset xs = mset ys"
  shows "sum_list (map g xs) = sum_list (map g ys)"
  using assms by (metis mset_map sum_mset_sum_list)

lemma cat_labels_one: "n \<in> set (cat_labels d) \<Longrightarrow> n' \<in> set (cat_labels d) \<Longrightarrow> n = n'"
  by (cases "prop_get d ''category''") (auto simp: cat_labels_def split: if_splits)

lemma link_count:
  assumes "strict_comparator collate" and "distinct_keys (categoryMap c)"
    and e: "e \<in> set (link_categories (sorted_categories collate c))"
  shows "ce_count e = sum_list (map (\<lambda>(n, d). if n = ce_name e \<or> prefix (ce_name e @ ''/'') n then length (cat_torrents d) else 0) (categoryMap c))"
proof -
  let ?es = "sorted_categories collate c"
  note f = sorted_categories_facts [OF assms(1,2)]
  obtain k where k: "k < length ?es" "e = link_categories ?es ! k" using e by (auto simp: in_set_conv_nth)
  let ?nm = "ce_name (?es ! k)"
  have nm: "ce_name e = ?nm" using link_categories_effect(1) [OF k(1)] k(2) by simp
  let ?P = "\<lambda>l. prefix (?nm @ ''/'') (ce_name (?es ! l))" and ?c = "\<lambda>l. ce_count (?es ! l)"
  have bl: "below ?es k = filter ?P [0..<length ?es]"
    by (rule below_sorted [OF assms(1) f(2) _ f(3) k(1)]) (use f(4) in blast)
  have self: "\<not> ?P k" by (auto simp: prefix_def)
  have own: "ce_name (?es ! l) = ?nm \<longleftrightarrow> l = k" if "l < length ?es" for l
    using that k(1) f(3) by (auto simp: distinct_conv_nth)
  have "ce_count e = ?c k + sum_list (map ?c (filter ?P [0..<length ?es]))"
    using link_categories_effect(3) [OF k(1)] k(2) bl by simp
  also have "\<dots> = ?c k + (\<Sum>l \<in> {l. l < length ?es \<and> ?P l}. ?c l)"
    by (subst sum_list_distinct_conv_sum_set) (auto simp: conj_commute intro!: sum.cong)
  also have "\<dots> = (\<Sum>l \<in> insert k {l. l < length ?es \<and> ?P l}. ?c l)" using self by (subst sum.insert) auto
  also have "insert k {l. l < length ?es \<and> ?P l} = {l \<in> {0..<length ?es}. ce_name (?es ! l) = ?nm \<or> ?P l}"
    using own k(1) by auto
  also have "(\<Sum>l \<in> \<dots>. ?c l) = (\<Sum>l \<in> {0..<length ?es}. if ce_name (?es ! l) = ?nm \<or> ?P l then ?c l else 0)"
    by (rule sum.inter_filter) simp
  also have "\<dots> = sum_list (map (\<lambda>x. if ce_name x = ?nm \<or> prefix (?nm @ ''/'') (ce_name x) then ce_count x else 0) ?es)"
    by (simp add: sum_list_sum_nth atLeast0LessThan)
  also have "\<dots> = sum_list (map (\<lambda>x. if ce_name x = ?nm \<or> prefix (?nm @ ''/'') (ce_name x) then ce_count x else 0)
      (map (new_entry c) (categoryMap c)))" by (rule sum_list_mset_cong [OF f(1)])
  also have "\<dots> = sum_list (map (\<lambda>(n, d). if n = ?nm \<or> prefix (?nm @ ''/'') n then length (cat_torrents d) else 0) (categoryMap c))"
    unfolding map_map by (intro arg_cong [of _ _ sum_list] map_cong) (auto simp: new_entry_def)
  finally show ?thesis unfolding nm .
qed

section \<open>The counts are those of the filter\<close>

lemma rows_with_category:
  assumes "categories.consistent {} c" and "distinct_keys (rows (torrentsTable c))" and "\<not> R []"
  shows "length (filter (\<lambda>r. \<exists>s. prop_get (full_data r) ''category'' = JStr s \<and> R s) (map snd (rows (torrentsTable c))))
    = sum_list (map (\<lambda>(n, d). if R n then length (cat_torrents d) else 0) (categoryMap c))"
proof -
  let ?ix = "cat_index c" and ?rows = "rows (torrentsTable c)"
  let ?Q = "\<lambda>r. \<exists>s. prop_get (full_data r) ''category'' = JStr s \<and> R s"
  note con = assms(1) [unfolded categories.consistent_def]
  have ix: "distinct_keys ?ix" using con by (simp add: index_ok_def)
  have mem: "members ?ix n = {h. labelled cat_labels (torrentsTable c) h n}" for n using con by auto
  have dj: "members ?ix n \<inter> members ?ix n' = {}" if "n \<noteq> n'" for n n'
    using that unfolding mem by (auto simp: labelled_def dest: cat_labels_one)
  have fin: "finite (members ?ix n)" for n by (simp add: members_def split: option.split)
  have "sum_list (map (\<lambda>(n, d). if R n then length (cat_torrents d) else 0) (categoryMap c))
      = sum_list (map (\<lambda>(n, ts). if R n then length ts else 0) ?ix)"
    unfolding cat_index_def map_map by (intro arg_cong [of _ _ sum_list] map_cong) auto
  also have "\<dots> = (\<Sum>(n, ts) \<in> set ?ix. if R n then length ts else 0)"
    using ix by (intro sum_list_distinct_conv_sum_set) (simp add: distinct_map)
  also have "\<dots> = (\<Sum>(n, ts) \<in> set ?ix. if R n then card (members ?ix n) else 0)"
  proof (intro sum.cong refl, clarify)
    fix n ts
    assume "(n, ts) \<in> set ?ix"
    moreover from this have "distinct ts" using con by (auto simp: index_ok_def)
    ultimately show "(if R n then length ts else 0) = (if R n then card (members ?ix n) else 0)"
      using ix by (simp add: members_def distinct_card)
  qed
  also have "\<dots> = (\<Sum>n \<in> fst ` set ?ix. if R n then card (members ?ix n) else 0)"
    using ix by (subst sum.reindex) (auto simp: distinct_map comp_def split_beta)
  also have "\<dots> = (\<Sum>n \<in> {n \<in> fst ` set ?ix. R n}. card (members ?ix n))" by (rule sum.inter_filter [symmetric]) simp
  also have "\<dots> = card (\<Union>n \<in> {n \<in> fst ` set ?ix. R n}. members ?ix n)"
    using fin dj by (subst card_UN_disjoint) auto
  also have "(\<Union>n \<in> {n \<in> fst ` set ?ix. R n}. members ?ix n) = {h. \<exists>r. map_get ?rows h = Some r \<and> ?Q r}"
  proof -
    have "members ?ix n = {} \<or> n \<in> fst ` set ?ix" for n
      by (cases "map_get ?ix n") (auto simp: members_def dest: map_of_SomeD intro: rev_image_eqI)
    then have "(\<Union>n \<in> {n \<in> fst ` set ?ix. R n}. members ?ix n) = {h. \<exists>n. R n \<and> labelled cat_labels (torrentsTable c) h n}"
      unfolding mem by blast
    also have "\<dots> = {h. \<exists>r. map_get ?rows h = Some r \<and> ?Q r}"
    proof (intro Collect_cong)
      have "(\<exists>n. R n \<and> n \<in> set (cat_labels d)) \<longleftrightarrow> (\<exists>s. prop_get d ''category'' = JStr s \<and> R s)" for d
        using assms(3) by (cases "prop_get d ''category''") (auto simp: cat_labels_def)
      then show "(\<exists>n. R n \<and> labelled cat_labels (torrentsTable c) h n) \<longleftrightarrow> (\<exists>r. map_get ?rows h = Some r \<and> ?Q r)" for h
        unfolding labelled_def by blast
    qed
    finally show ?thesis .
  qed
  also have "{h. \<exists>r. map_get ?rows h = Some r \<and> ?Q r} = fst ` set (filter (\<lambda>x. ?Q (snd x)) ?rows)"
    using assms(2) by (force simp: map_of_eq_Some_iff intro: rev_image_eqI)
  also have "card \<dots> = length (filter (\<lambda>x. ?Q (snd x)) ?rows)"
    using distinct_card [of "map fst (filter (\<lambda>x. ?Q (snd x)) ?rows)"] assms(2) by (simp add: distinct_map_filter)
  also have "\<dots> = length (filter ?Q (map snd ?rows))" by (simp add: filter_map comp_def split_beta)
  finally show ?thesis by simp
qed

section \<open>Every category is drawn once\<close>

definition forest :: "cat_entry list \<Rightarrow> bool" where
  "forest es \<longleftrightarrow> (\<forall>i < length es. distinct (ce_children (es ! i)) \<and> (\<forall>k \<in> set (ce_children (es ! i)). i < k \<and> k < length es))
     \<and> (\<forall>i < length es. \<forall>j < length es. \<forall>k. k \<in> set (ce_children (es ! i)) \<and> k \<in> set (ce_children (es ! j)) \<longrightarrow> i = j)
     \<and> (\<forall>k < length es. ce_isRoot (es ! k) \<longleftrightarrow> (\<forall>i < length es. k \<notin> set (ce_children (es ! i))))"

text \<open>An entry and all that hang below it, in the order of drawing.\<close>

function visit :: "cat_entry list \<Rightarrow> nat \<Rightarrow> nat list" where
  "visit es i = i # concat (map (visit es) (filter (\<lambda>k. i < k \<and> k < length es) (ce_children (es ! i))))"
  by pat_completeness auto
termination by (relation "measure (\<lambda>(es, i). length es - i)") auto

declare visit.simps [simp del]

lemma forest_child: "forest es \<Longrightarrow> k \<in> set (ce_children (es ! i)) \<Longrightarrow> i < length es \<Longrightarrow> i < k \<and> k < length es"
  unfolding forest_def by blast

lemma forest_parent:
  "forest es \<Longrightarrow> k \<in> set (ce_children (es ! i)) \<Longrightarrow> k \<in> set (ce_children (es ! j)) \<Longrightarrow> i < length es \<Longrightarrow> j < length es \<Longrightarrow> i = j"
  unfolding forest_def by blast

lemma forest_distinct: "forest es \<Longrightarrow> i < length es \<Longrightarrow> distinct (ce_children (es ! i))"
  unfolding forest_def by blast

lemma forest_root: "forest es \<Longrightarrow> k < length es \<Longrightarrow> ce_isRoot (es ! k) \<longleftrightarrow> (\<forall>i < length es. k \<notin> set (ce_children (es ! i)))"
  unfolding forest_def by blast

lemma visit_forest: "forest es \<Longrightarrow> i < length es \<Longrightarrow> visit es i = i # concat (map (visit es) (ce_children (es ! i)))"
  by (subst visit.simps) (simp add: forest_child filter_True)

inductive hangs :: "cat_entry list \<Rightarrow> nat \<Rightarrow> nat \<Rightarrow> bool" for es where
  here: "i < length es \<Longrightarrow> hangs es i i"
| lower: "hangs es i j \<Longrightarrow> k \<in> set (ce_children (es ! j)) \<Longrightarrow> hangs es i k"

lemma hangs_bounds: "hangs es i k \<Longrightarrow> forest es \<Longrightarrow> i \<le> k \<and> k < length es"
  by (induction rule: hangs.induct) (auto dest: forest_child)

lemma hangs_start: "hangs es i k \<Longrightarrow> i < length es"
  by (induction rule: hangs.induct) auto

lemma hangs_trans: "hangs es j k \<Longrightarrow> hangs es i j \<Longrightarrow> hangs es i k"
  by (induction rule: hangs.induct) (auto intro: hangs.lower)

lemma hangs_below: "forest es \<Longrightarrow> hangs es i k \<Longrightarrow> k = i \<or> (\<exists>c \<in> set (ce_children (es ! i)). hangs es c k)"
proof (rotate_tac, induction rule: hangs.induct)
  case (lower i j k)
  have j: "j < length es" using hangs_bounds lower.hyps(1) lower.prems by blast
  then have "k < length es" using forest_child lower by blast
  then show ?case using lower by (auto intro: hangs.intros)
qed simp

lemma visit_hangs:
  assumes "forest es" "i < length es"
  shows "k \<in> set (visit es i) \<longleftrightarrow> hangs es i k"
  using assms(2)
proof (induction "length es - i" arbitrary: i rule: less_induct)
  case less
  have ih: "k \<in> set (visit es c) \<longleftrightarrow> hangs es c k" if "c \<in> set (ce_children (es ! i))" for c
    using less.hyps [of c] forest_child [OF assms(1) that less.prems] by auto
  have up: "hangs es i k" if "c \<in> set (ce_children (es ! i))" "hangs es c k" for c
    by (rule hangs_trans [OF that(2) hangs.lower [OF hangs.here [OF less.prems] that(1)]])
  show ?case
    unfolding visit_forest [OF assms(1) less.prems]
    using ih up hangs_below [OF assms(1), of i k] hangs.here [OF less.prems] by auto
qed

text \<open>Of two entries above the same one, one hangs below the other.\<close>

lemma hangs_chain:
  assumes "forest es"
  shows "hangs es i k \<Longrightarrow> hangs es j k \<Longrightarrow> hangs es i j \<or> hangs es j i"
proof (induction arbitrary: j rule: hangs.induct)
  case (lower i l k)
  from lower.prems show ?case
  proof cases
    case here
    then show ?thesis using lower.hyps by (auto intro: hangs.lower)
  next
    case (lower m)
    have "m < length es" "l < length es"
      using hangs_bounds [OF _ assms] lower(1) \<open>hangs es i l\<close> by blast+
    then have "m = l" using forest_parent [OF assms lower(2) \<open>k \<in> set (ce_children (es ! l))\<close>] by blast
    then show ?thesis using lower.IH lower(1) \<open>\<And>j. hangs es j l \<Longrightarrow> hangs es i j \<or> hangs es j i\<close> by blast
  qed
qed simp

lemma siblings_apart:
  assumes "forest es" and "i < length es" and "j < length es" and "i \<noteq> j"
    and same: "\<And>p. p < length es \<Longrightarrow> j \<in> set (ce_children (es ! p)) \<Longrightarrow> p < i"
  shows "\<not> hangs es i j"
proof
  assume h: "hangs es i j"
  then show False
  proof cases
    case here
    then show ?thesis using assms(4) by simp
  next
    case (lower p)
    have "p < length es" "i \<le> p" using hangs_bounds [OF lower(1) assms(1)] by auto
    then show ?thesis using same [OF _ lower(2)] by simp
  qed
qed

lemma visits_distinct:
  assumes f: "forest es" and "distinct is" and "\<forall>i \<in> set is. i < length es"
    and apart: "\<And>i j. i \<in> set is \<Longrightarrow> j \<in> set is \<Longrightarrow> i \<noteq> j \<Longrightarrow> \<not> hangs es i j"
    and each: "\<And>i. i \<in> set is \<Longrightarrow> distinct (visit es i)"
  shows "distinct (concat (map (visit es) is))"
  using assms(2-5)
proof (induction "is")
  case (Cons i "is")
  have "set (visit es i) \<inter> set (concat (map (visit es) is)) = {}"
  proof (rule ccontr)
    assume "set (visit es i) \<inter> set (concat (map (visit es) is)) \<noteq> {}"
    then obtain k j where k: "k \<in> set (visit es i)" "j \<in> set is" "k \<in> set (visit es j)" by auto
    then have "hangs es i k" "hangs es j k" using visit_hangs [OF f] Cons.prems(2) by auto
    then have "hangs es i j \<or> hangs es j i" by (rule hangs_chain [OF f])
    moreover have "i \<noteq> j" using Cons.prems(1) k(2) by auto
    ultimately show False using Cons.prems(3) [of i j] Cons.prems(3) [of j i] k(2) by auto
  qed
  then show ?case using Cons by simp
qed simp

lemma visit_distinct:
  assumes f: "forest es" and "i < length es"
  shows "distinct (visit es i)"
  using assms(2)
proof (induction "length es - i" arbitrary: i rule: less_induct)
  case less
  let ?ch = "ce_children (es ! i)"
  have b: "i < c \<and> c < length es" if "c \<in> set ?ch" for c using forest_child [OF f that less.prems] .
  have "distinct (concat (map (visit es) ?ch))"
  proof (rule visits_distinct [OF f])
    show "distinct ?ch" by (rule forest_distinct [OF f less.prems])
    show "\<forall>c \<in> set ?ch. c < length es" using b by blast
    show "distinct (visit es c)" if "c \<in> set ?ch" for c
      using less.hyps [of c] b [OF that] by auto
    show "\<not> hangs es c c'" if "c \<in> set ?ch" "c' \<in> set ?ch" "c \<noteq> c'" for c c'
    proof (rule siblings_apart [OF f _ _ that(3)])
      show "p < c" if "p < length es" "c' \<in> set (ce_children (es ! p))" for p
        using forest_parent [OF f that(2) \<open>c' \<in> set ?ch\<close> that(1) less.prems] b [OF \<open>c \<in> set ?ch\<close>] by simp
    qed (use b that in auto)
  qed
  moreover have "i \<notin> set (visit es c)" if "c \<in> set ?ch" for c
    using visit_hangs [OF f, of c i] hangs_bounds [OF _ f, of c i] b [OF that] by auto
  ultimately show ?case unfolding visit_forest [OF f less.prems] by auto
qed

text \<open>The roots, visited in order, give every entry once.\<close>

definition roots :: "cat_entry list \<Rightarrow> nat list" where
  "roots es = filter (\<lambda>i. ce_isRoot (es ! i)) [0..<length es]"

lemma roots_visit:
  assumes f: "forest es"
  shows "distinct (concat (map (visit es) (roots es)))" and "set (concat (map (visit es) (roots es))) = {..<length es}"
proof -
  have r: "i < length es \<and> (\<forall>p < length es. i \<notin> set (ce_children (es ! p)))" if "i \<in> set (roots es)" for i
    using that forest_root [OF f, of i] by (auto simp: roots_def)
  show "distinct (concat (map (visit es) (roots es)))"
  proof (rule visits_distinct [OF f])
    show "\<not> hangs es i j" if "i \<in> set (roots es)" "j \<in> set (roots es)" "i \<noteq> j" for i j
      by (rule siblings_apart [OF f]) (use r that in blast)+
    show "distinct (roots es)" by (simp add: roots_def)
    show "\<forall>i \<in> set (roots es). i < length es" using r by blast
    show "distinct (visit es i)" if "i \<in> set (roots es)" for i using visit_distinct [OF f] r [OF that] by blast
  qed
  have "\<exists>i \<in> set (roots es). hangs es i k" if "k < length es" for k
    using that
  proof (induction k rule: less_induct)
    case (less k)
    show ?case
    proof (cases "ce_isRoot (es ! k)")
      case True
      then have "k \<in> set (roots es)" using less.prems by (simp add: roots_def)
      then show ?thesis using less.prems by (auto intro: hangs.here)
    next
      case False
      then obtain p where p: "p < length es" "k \<in> set (ce_children (es ! p))" using forest_root [OF f less.prems] by blast
      then show ?thesis using less.IH [of p] forest_child [OF f p(2,1)] by (auto intro: hangs.lower)
    qed
  qed
  then show "set (concat (map (visit es) (roots es))) = {..<length es}"
    using visit_hangs [OF f] r hangs_bounds [OF _ f] by fastforce
qed

lemma is_child_segments:
  assumes "i < length es" and segs: "\<forall>e \<in> set es. ce_segments e = js_split ''/'' (ce_name e)" and "is_child es i k"
  shows "ce_segments (es ! i) = butlast (ce_segments (es ! k))"
proof -
  have k: "k \<in> set (below es i)" "length (ce_segments (es ! k)) = length (ce_segments (es ! i)) + 1"
    using assms(3) by (simp_all add: is_child_def)
  then have "prefix (ce_name (es ! i) @ ''/'') (ce_name (es ! k))"
    by (auto simp: below_def run_from_def dest!: set_takeWhileD)
  then have "strict_prefix (ce_segments (es ! i)) (ce_segments (es ! k))"
    using segs assms(1) below_later [OF k(1)] by (simp add: below_iff_segments)
  then obtain s where s: "ce_segments (es ! k) = ce_segments (es ! i) @ s" by (auto simp: strict_prefix_def prefix_def)
  with k(2) obtain x where "s = [x]" by (cases s) auto
  then show ?thesis using s by simp
qed

lemma link_forest:
  assumes "strict_comparator collate" and "distinct_keys (categoryMap c)"
  shows "forest (link_categories (sorted_categories collate c))"
proof -
  let ?es = "sorted_categories collate c"
  note f = sorted_categories_facts [OF assms]
  have segs: "\<forall>e \<in> set ?es. ce_segments e = js_split ''/'' (ce_name e)" using f(4) by blast
  have ch: "ce_children (link_categories ?es ! i) = filter (is_child ?es i) (below ?es i)" if "i < length ?es" for i
    using link_categories_effect(4) [OF that] f(4) that by simp
  have bl: "below ?es i = filter (\<lambda>l. prefix (ce_name (?es ! i) @ ''/'') (ce_name (?es ! l))) [0..<length ?es]" if "i < length ?es" for i
    by (rule below_sorted [OF assms(1) f(2) segs f(3) that])
  have mem: "k \<in> set (ce_children (link_categories ?es ! i)) \<longleftrightarrow> is_child ?es i k" if "i < length ?es" for i k
    unfolding ch [OF that] by (auto simp: is_child_def)
  show ?thesis
    unfolding forest_def link_categories_length
  proof (intro conjI allI impI ballI)
    fix i k
    assume i: "i < length ?es"
    show "distinct (ce_children (link_categories ?es ! i))" unfolding ch [OF i] bl [OF i] by simp
    assume "k \<in> set (ce_children (link_categories ?es ! i))"
    then have "k \<in> set (below ?es i)" using mem [OF i] by (simp add: is_child_def)
    then show "i < k" "k < length ?es" using below_later by blast+
  next
    fix i j k
    assume i: "i < length ?es" and j: "j < length ?es"
      and "k \<in> set (ce_children (link_categories ?es ! i)) \<and> k \<in> set (ce_children (link_categories ?es ! j))"
    then have "ce_segments (?es ! i) = ce_segments (?es ! j)"
      using is_child_segments [OF i segs, of k] is_child_segments [OF j segs, of k] mem [OF i] mem [OF j] by simp
    then have "js_join ''/'' (js_split ''/'' (ce_name (?es ! i))) = js_join ''/'' (js_split ''/'' (ce_name (?es ! j)))"
      using segs i j by simp
    then show "i = j" using nth_eq_iff_index_eq [OF f(3), of i j] i j by (simp add: js_join_split)
  next
    fix k
    assume k: "k < length ?es"
    then show "ce_isRoot (link_categories ?es ! k) \<longleftrightarrow> (\<forall>i < length ?es. k \<notin> set (ce_children (link_categories ?es ! i)))"
      using link_categories_effect(5) [OF k] f(4) mem by simp
  qed
qed

text \<open>An element was drawn for entry \<open>i\<close>: below its parent, or at the top.\<close>

definition parent_ok :: "cat_entry list \<Rightarrow> string option \<Rightarrow> nat \<Rightarrow> bool" where
  "parent_ok es p i \<longleftrightarrow> i < length es \<and> (case p of None \<Rightarrow> ce_isRoot (es ! i)
     | Some n \<Rightarrow> \<exists>q < length es. n = ce_name (es ! q) \<and> i \<in> set (ce_children (es ! q)))"

definition drawn :: "client \<Rightarrow> cat_entry list \<Rightarrow> nat \<Rightarrow> cat_item \<Rightarrow> bool" where
  "drawn c es i it \<longleftrightarrow> (\<exists>prefs p. it = make_item c prefs p (es ! i) \<and> parent_ok es p i)"

lemma tree_loop_visits:
  assumes f: "forest es"
  shows "\<forall>(p, i) \<in> set st. parent_ok es p i \<Longrightarrow> length (concat (map (\<lambda>(p, i). visit es i) st)) \<le> fuel \<Longrightarrow>
    \<exists>its prefs'. tree_loop fuel c es st (items, prefs) = Some (items @ its, prefs')
      \<and> list_all2 (drawn c es) (concat (map (\<lambda>(p, i). visit es i) (rev st))) its"
proof (induction fuel arbitrary: st items prefs)
  case 0
  have "st = []"
  proof (cases st)
    case (Cons a st')
    then show ?thesis using 0 by (cases a) (subst (asm) visit.simps, simp)
  qed simp
  then show ?case by simp
next
  case (Suc fuel)
  show ?case
  proof (cases st rule: rev_cases)
    case (snoc st' a)
    obtain p i where a: "a = (p, i)" by fastforce
    let ?e = "es ! i"
    have ok: "parent_ok es p i" using Suc.prems(1) by (simp add: snoc a)
    then have i: "i < length es" by (simp add: parent_ok_def)
    let ?new = "map (\<lambda>j. (Some (ce_name ?e), j)) (rev (ce_children ?e))"
    obtain it prefs2 where step: "tree_loop (Suc fuel) c es st (items, prefs) = tree_loop fuel c es (st' @ ?new) (items @ [it], prefs2)"
        and it: "it = make_item c prefs p ?e"
      by (simp add: snoc a Let_def)
    have v: "visit es i = i # concat (map (visit es) (ce_children ?e))" by (rule visit_forest [OF f i])
    have new: "concat (map (\<lambda>(p, i). visit es i) (rev ?new)) = concat (map (visit es) (ce_children ?e))"
      by (simp add: rev_map comp_def)
    have len: "length (concat (map (\<lambda>(p, i). visit es i) ?new)) = length (concat (map (visit es) (ce_children ?e)))"
      by (simp add: length_concat rev_map [symmetric] comp_def sum_list_rev)
    have "\<forall>(p, i) \<in> set (st' @ ?new). parent_ok es p i"
      using Suc.prems(1) i forest_child [OF f] by (auto simp: snoc parent_ok_def)
    moreover have "length (concat (map (\<lambda>(p, i). visit es i) (st' @ ?new))) \<le> fuel"
      using Suc.prems(2) len by (simp add: snoc a v)
    ultimately obtain its prefs' where
        "tree_loop fuel c es (st' @ ?new) (items @ [it], prefs2) = Some ((items @ [it]) @ its, prefs')"
        "list_all2 (drawn c es) (concat (map (\<lambda>(p, i). visit es i) (rev (st' @ ?new)))) its"
      using Suc.IH [of "st' @ ?new" "items @ [it]" prefs2] by blast
    moreover have "drawn c es i it" using ok it by (auto simp: drawn_def)
    ultimately show ?thesis
      unfolding step using new by (intro exI [of _ "it # its"] exI [of _ prefs']) (simp add: snoc a v)
  qed simp
qed

lemma create_trees_visits:
  assumes f: "forest es" and fuel: "length es \<le> fuel"
  shows "\<forall>i \<in> set is. i < length es \<Longrightarrow> \<exists>its prefs'. create_trees fuel c es is (items, prefs) = Some (items @ its, prefs')
      \<and> list_all2 (drawn c es) (concat (map (visit es) (filter (\<lambda>i. ce_isRoot (es ! i)) is))) its"
proof (induction "is" arbitrary: items prefs)
  case (Cons i "is")
  have i: "i < length es" using Cons.prems by simp
  show ?case
  proof (cases "ce_isRoot (es ! i)")
    case True
    have "distinct (visit es i)" "set (visit es i) \<subseteq> {..<length es}"
      using visit_distinct [OF f i] visit_hangs [OF f i] hangs_bounds [OF _ f] by auto
    then have "length (visit es i) \<le> length es"
      by (metis card_lessThan card_mono distinct_card finite_lessThan)
    then obtain its prefs' where t: "tree_loop fuel c es [(None, i)] (items, prefs) = Some (items @ its, prefs')"
        "list_all2 (drawn c es) (visit es i) its"
      using tree_loop_visits [OF f, of "[(None, i)]" fuel c items prefs] fuel True i by (auto simp: parent_ok_def)
    obtain its2 prefs2 where "create_trees fuel c es is (items @ its, prefs') = Some ((items @ its) @ its2, prefs2)"
        "list_all2 (drawn c es) (concat (map (visit es) (filter (\<lambda>i. ce_isRoot (es ! i)) is))) its2"
      using Cons.IH [of "items @ its" prefs'] Cons.prems by auto
    then show ?thesis using t True
      by (intro exI [of _ "its @ its2"] exI [of _ prefs2]) (simp add: list_all2_appendI)
  next
    case False
    then show ?thesis using Cons by simp
  qed
qed simp

section \<open>Properties\<close>

lemma drawn_item:
  assumes "drawn c es i it"
  shows "item_id (ci_item it) = ce_name (es ! i)" "item_count (ci_item it) = Some (of_nat (ce_count (es ! i)))"
  using assms by (auto simp: drawn_def make_item_def)

lemma category_counts:
  assumes "lists_consistent c" and "distinct_keys (rows (torrentsTable c))" and "strict_comparator collate"
    and ok: "\<forall>r \<in> snd ` set (rows (torrentsTable c)). torrent_row_ok (page_of filterBy c) r"
    and e: "e \<in> set (link_categories (sorted_categories collate c))" and nm: "ce_name e \<notin> {[], CATEGORIES_ALL, CATEGORIES_UNCATEGORIZED}"
  shows "getFilteredTorrentsNumber (page_of filterBy c) ''all'' (ce_name e) TAGS_ALL TRACKERS_ALL (torrentsTable c) = Inr (ce_count e)"
proof -
  let ?pg = "page_of filterBy c" and ?nm = "ce_name e" and ?rs = "map snd (rows (torrentsTable c))"
  let ?R = "\<lambda>n. n = ?nm \<or> prefix (?nm @ ''/'') n"
  have con: "categories.consistent {} c" using assms(1) by (simp add: lists_consistent_def lists_but_def)
  then have dk: "distinct_keys (categoryMap c)"
    by (simp add: categories.consistent_def index_ok_def cat_index_def comp_def split_beta)
  have "ce_name e \<in> set (keys (categoryMap c))"
  proof -
    obtain k where k: "k < length (sorted_categories collate c)" "e = link_categories (sorted_categories collate c) ! k"
      using e by (auto simp: in_set_conv_nth)
    have "sorted_categories collate c ! k \<in> set (map (new_entry c) (categoryMap c))"
      using mset_eq_setD [OF sorted_categories_facts(1) [OF assms(3) dk]] k(1) nth_mem by blast
    then show ?thesis unfolding k(2) link_categories_effect(1) [OF k(1)] by (force simp: new_entry_def)
  qed
  then have pass: "passes_category ?pg ?nm (full_data r) = Some (\<exists>s. prop_get (full_data r) ''category'' = JStr s \<and> ?R s)"
    if "r \<in> set ?rs" for r
  proof -
    have "torrent_row_ok ?pg r" using that ok by auto
    then obtain s where s: "prop_get (full_data r) ''category'' = JStr s" by (auto simp: torrent_row_ok_def)
    have "prefix (?nm @ ''/'') (s @ ''/'') \<longleftrightarrow> ?R s" by (auto simp: prefix_snoc)
    then show ?thesis using s nm \<open>ce_name e \<in> _\<close> by (simp add: passes_category_def page_of_def)
  qed
  have "applyFilter ?pg r ''all'' ?nm TAGS_ALL TRACKERS_ALL NoTerms = Inr (\<exists>s. prop_get (full_data r) ''category'' = JStr s \<and> ?R s)"
    if "r \<in> set ?rs" for r
    using pass [OF that] by (simp add: applyFilter_def passes_status_def passes_tag_def passes_tracker_def passes_text_def Let_def split: bool.split)
  then have "filter_rows (\<lambda>r. applyFilter ?pg r ''all'' ?nm TAGS_ALL TRACKERS_ALL NoTerms) ?rs
      = Inr (filter (\<lambda>r. \<exists>s. prop_get (full_data r) ''category'' = JStr s \<and> ?R s) ?rs)"
    by (subst filter_rows_total) (auto intro!: filter_cong)
  moreover have "\<not> ?R []" using nm by auto
  ultimately show ?thesis
    using rows_with_category [OF con assms(2), of ?R] link_count [OF assms(3) dk e] nm
    by (simp add: getFilteredTorrentsNumber_def)
qed

lemma uncategorized_count:
  "count_empty p rs = Inr n \<Longrightarrow> n = length (filter (\<lambda>r. js_nonempty (prop_get (full_data r) p) = Some False) rs)"
proof (induction rs arbitrary: n)
  case (Cons r rs)
  then show ?case by (auto split: option.splits sum.splits if_splits)
qed simp

lemma count_empty_total: "\<forall>r \<in> set rs. \<exists>s. prop_get (full_data r) p = JStr s \<Longrightarrow> \<exists>n. count_empty p rs = Inr n"
proof (induction rs)
  case (Cons r rs)
  then obtain s n where "prop_get (full_data r) p = JStr s" "count_empty p rs = Inr n" by auto
  then show ?case by simp
qed simp

text \<open>With a collator that tells all different names apart the list is drawn right.\<close>

lemma category_list_drawn_strict:
  assumes "lists_consistent c" and "distinct_keys (rows (torrentsTable c))" and "strict_comparator collate"
    and ok: "\<forall>r \<in> snd ` set (rows (torrentsTable c)). torrent_row_ok (page_of filterBy c) r"
    and "length (categoryMap c) \<le> fuel"
  shows "\<exists>head items c'. updateCategoryList fuel collate c = Some (Inr (head, items, c'))
    \<and> mset (map (\<lambda>it. item_id (ci_item it)) items) = mset (keys (categoryMap c))
    \<and> (\<forall>it \<in> set items. item_id (ci_item it) \<notin> {[], CATEGORIES_ALL, CATEGORIES_UNCATEGORIZED} \<longrightarrow>
        (\<exists>n. item_count (ci_item it) = Some (of_nat n) \<and>
          getFilteredTorrentsNumber (page_of filterBy c) ''all'' (item_id (ci_item it)) TAGS_ALL TRACKERS_ALL (torrentsTable c) = Inr n))"
proof -
  let ?s = "sorted_categories collate c" and ?es = "link_categories (sorted_categories collate c)"
  have dk: "distinct_keys (categoryMap c)"
    using assms(1) by (simp add: lists_consistent_def lists_but_def categories.consistent_def index_ok_def cat_index_def comp_def split_beta)
  note f = sorted_categories_facts [OF assms(3) dk] and fo = link_forest [OF assms(3) dk]
  have len: "length ?es = length (categoryMap c)" using mset_eq_length [OF f(1)] by simp
  have "\<forall>r \<in> set (map snd (rows (torrentsTable c))). \<exists>s. prop_get (full_data r) ''category'' = JStr s"
    using ok by (auto simp: torrent_row_ok_def)
  from count_empty_total [OF this] obtain n where n: "count_empty ''category'' (map snd (rows (torrentsTable c))) = Inr n" by blast
  have fl: "filter (\<lambda>i. ce_isRoot (?es ! i)) [0..<length ?es] = roots ?es" by (simp add: roots_def)
  obtain items prefs where t: "create_trees fuel c ?es [0..<length ?es] ([], localPrefs c) = Some (items, prefs)"
      "list_all2 (drawn c ?es) (concat (map (visit ?es) (roots ?es))) items"
    using create_trees_visits [OF fo, of fuel "[0..<length ?es]" c "[]" "localPrefs c"] assms(5) len unfolding fl by auto
  have "map (\<lambda>it. item_id (ci_item it)) items = map (\<lambda>i. ce_name (?es ! i)) (concat (map (visit ?es) (roots ?es)))"
    using t(2) by (induction rule: list_all2_induct) (auto simp: drawn_item)
  moreover have "mset (concat (map (visit ?es) (roots ?es))) = mset [0..<length ?es]"
    using roots_visit [OF fo] by (intro set_eq_iff_mset_eq_distinct [THEN iffD1]) (auto simp: atLeast0LessThan)
  ultimately have "mset (map (\<lambda>it. item_id (ci_item it)) items) = mset (map (\<lambda>i. ce_name (?es ! i)) [0..<length ?es])"
    by (simp only: mset_map)
  also have "map (\<lambda>i. ce_name (?es ! i)) [0..<length ?es] = map ce_name ?s"
    using link_categories_effect(1) by (intro nth_equalityI) auto
  also have "mset (map ce_name ?s) = mset (keys (categoryMap c))"
    using arg_cong [OF f(1), of "image_mset ce_name"] by (simp add: new_entry_def comp_def split_beta flip: mset_map)
  finally have names: "mset (map (\<lambda>it. item_id (ci_item it)) items) = mset (keys (categoryMap c))" .
  have dr: "\<exists>i < length ?es. drawn c ?es i it" if "it \<in> set items" for it
    using t(2) that by (induction rule: list_all2_induct) (auto simp: drawn_def parent_ok_def)
  have "\<exists>m. item_count (ci_item it) = Some (of_nat m) \<and>
        getFilteredTorrentsNumber (page_of filterBy c) ''all'' (item_id (ci_item it)) TAGS_ALL TRACKERS_ALL (torrentsTable c) = Inr m"
    if it: "it \<in> set items" and nx: "item_id (ci_item it) \<notin> {[], CATEGORIES_ALL, CATEGORIES_UNCATEGORIZED}" for it
  proof -
    obtain i where i: "i < length ?es" "drawn c ?es i it"
      using dr [OF it] by blast
    note d = drawn_item [OF i(2)]
    have "?es ! i \<in> set ?es" using i(1) by (rule nth_mem)
    from category_counts [OF assms(1-4) this] nx show ?thesis unfolding d by blast
  qed
  moreover have "updateCategoryList fuel collate c = Some (Inr (category_head n c, items, c\<lparr>localPrefs := prefs\<rparr>))"
    using n t(1) by (simp add: updateCategoryList_def Let_def)
  ultimately show ?thesis using names by blast
qed

text \<open>
  A collator orders all names but ties some that differ, such as \<open>1\<close> and \<open>01\<close>, as it compares the
  numbers in them. What it ties may be told apart by the code units: as long as no two different
  parts of the names of the categories tie with each other, the order of the categories is the same.
\<close>

definition name_parts :: "client \<Rightarrow> string set" where
  "name_parts c = (\<Union>n \<in> set (keys (categoryMap c)). set (js_split ''/'' n))"

definition parts_apart :: "string cmp \<Rightarrow> client \<Rightarrow> bool" where
  "parts_apart collate c \<longleftrightarrow> (\<forall>s \<in> name_parts c. \<forall>t \<in> name_parts c. collate s t = 0 \<longrightarrow> s = t)"

lemma refined_strict:
  assumes "comparator_on UNIV collate"
  shows "strict_comparator (then_cmp collate compare_units)"
proof -
  have "comparator_on UNIV (then_cmp collate compare_units)"
    by (rule comparator_on_then [OF assms code_units.comparator_on_axioms])
  then show ?thesis
    by (rule strict_comparator.intro) (unfold_locales, auto simp: then_cmp_def Let_def dest: code_units.cmp_eq split: if_splits)
qed

lemma segments_refined:
  assumes "comparator_on UNIV collate" and "set xs \<subseteq> A" "set ys \<subseteq> A"
    and "\<forall>s \<in> A. \<forall>t \<in> A. collate s t = 0 \<longrightarrow> s = t"
  shows "compare_segments (then_cmp collate compare_units) xs ys = compare_segments collate xs ys"
  using assms(2,3)
proof (induction xs arbitrary: ys)
  case (Cons x xs)
  show ?case
  proof (cases ys)
    case (Cons y ys')
    have "x \<in> A" "y \<in> A" using Cons.prems Cons by simp_all
    then have "collate x y = 0 \<Longrightarrow> x = y" using assms(4) by blast
    then show ?thesis using Cons.IH [of ys'] Cons.prems
      by (auto simp: Cons then_cmp_def Let_def code_units.cmp_refl)
  qed simp
qed simp

lemma js_insert_cong:
  "\<forall>y \<in> set ys. c1 x y = c2 x y \<Longrightarrow> js_insert c1 x ys = js_insert c2 x ys"
  by (induction ys) auto

lemma js_sort_cong:
  "\<forall>x \<in> set xs. \<forall>y \<in> set xs. c1 x y = c2 x y \<Longrightarrow> js_sort c1 xs = js_sort c2 xs"
  by (induction xs) (auto intro!: js_insert_cong)

lemma sorted_categories_refined:
  assumes "comparator_on UNIV collate" and "parts_apart collate c"
  shows "sorted_categories (then_cmp collate compare_units) c = sorted_categories collate c"
  unfolding sorted_categories_def
  using assms(2) by (intro js_sort_cong ballI segments_refined [OF assms(1), where A = "name_parts c"])
    (auto simp: name_parts_def parts_apart_def)


lemma rows_with_tag:
  assumes "tags.consistent {} c" and "distinct_keys (rows (torrentsTable c))" and "(tag, ts) \<in> set (tagMap c)"
  shows "length ts = length (filter (\<lambda>r. tag \<in> set (tag_labels (full_data r))) (map snd (rows (torrentsTable c))))"
proof -
  let ?rows = "rows (torrentsTable c)" and ?Q = "\<lambda>r. tag \<in> set (tag_labels (full_data r))"
  note con = assms(1) [unfolded tags.consistent_def]
  have "distinct ts" using con assms(3) by (auto simp: index_ok_def)
  moreover have "set ts = members (tagMap c) tag"
    using con assms(3) by (auto simp: index_ok_def members_def)
  moreover have "members (tagMap c) tag = {h. \<exists>r. map_get ?rows h = Some r \<and> ?Q r}"
    using con by (auto simp: labelled_def)
  moreover have "{h. \<exists>r. map_get ?rows h = Some r \<and> ?Q r} = fst ` set (filter (\<lambda>x. ?Q (snd x)) ?rows)"
    using assms(2) by (force simp: map_of_eq_Some_iff intro: rev_image_eqI)
  moreover have "card (fst ` set (filter (\<lambda>x. ?Q (snd x)) ?rows)) = length (filter (\<lambda>x. ?Q (snd x)) ?rows)"
    using distinct_card [of "map fst (filter (\<lambda>x. ?Q (snd x)) ?rows)"] assms(2) by (simp add: distinct_map_filter)
  ultimately show ?thesis using distinct_card [of ts] by (simp add: filter_map comp_def)
qed

lemma number_by_tag:
  assumes "\<forall>r \<in> snd ` set (rows t). torrent_row_ok pg r"
  shows "getFilteredTorrentsNumber pg ''all'' CATEGORIES_ALL tag TRACKERS_ALL t
    = Inr (length (filter (\<lambda>r. passes_tag tag (full_data r) = Some True) (map snd (rows t))))"
proof -
  have "applyFilter pg r ''all'' CATEGORIES_ALL tag TRACKERS_ALL NoTerms = Inr (passes_tag tag (full_data r) = Some True)"
    if "r \<in> set (map snd (rows t))" for r
  proof -
    have "torrent_row_ok pg r" using that assms by auto
    then obtain s where "prop_get (full_data r) ''tags'' = JStr s" by (auto simp: torrent_row_ok_def)
    then have "passes_tag tag (full_data r) \<noteq> None" by (simp add: passes_tag_def del: not_None_eq)
    then obtain b where b: "passes_tag tag (full_data r) = Some b" by auto
    then show ?thesis
      by (simp add: applyFilter_def passes_status_def passes_category_def passes_tracker_def passes_text_def Let_def split: bool.split)
  qed
  then have "filter_rows (\<lambda>r. applyFilter pg r ''all'' CATEGORIES_ALL tag TRACKERS_ALL NoTerms) (map snd (rows t))
      = Inr (filter (\<lambda>r. passes_tag tag (full_data r) = Some True) (map snd (rows t)))"
    by (subst filter_rows_total) (auto intro!: filter_cong)
  then show ?thesis by (simp add: getFilteredTorrentsNumber_def)
qed

text \<open>
  C10: The list of tags is drawn with every tag once, and beside every entry, the entries for all
  and for the untagged torrents included, the number of rows that the filter by it leaves.
\<close>

theorem tag_list_counts:
  assumes "lists_consistent c" and "distinct_keys (rows (torrentsTable c))"
    and ok: "\<forall>r \<in> snd ` set (rows (torrentsTable c)). torrent_row_ok (page_of filterBy c) r"
    and names: "{[], TAGS_ALL, TAGS_UNTAGGED} \<inter> set (keys (tagMap c)) = {}"
  shows "\<exists>items. updateTagList collate c = Inr items
    \<and> mset (map item_id items) = mset ([TAGS_ALL, TAGS_UNTAGGED] @ keys (tagMap c))
    \<and> (\<forall>it \<in> set items. \<exists>n. item_count it = Some (of_nat n) \<and>
        getFilteredTorrentsNumber (page_of filterBy c) ''all'' CATEGORIES_ALL (item_id it) TRACKERS_ALL (torrentsTable c) = Inr n)"
proof -
  let ?rs = "map snd (rows (torrentsTable c))" and ?pg = "page_of filterBy c" and ?sorted = "js_sort (\<lambda>l r. collate (fst l) (fst r)) (tagMap c)"
  have words: "\<exists>s. prop_get (full_data r) ''tags'' = JStr s" if "r \<in> set ?rs" for r
    using that ok by (auto simp: torrent_row_ok_def)
  from count_empty_total [of ?rs "''tags''"] words obtain u where u: "count_empty ''tags'' ?rs = Inr u" by blast
  have con: "tags.consistent {} c" using assms(1) by (simp add: lists_consistent_def lists_but_def)
  note num = number_by_tag [OF ok]
  have all: "getFilteredTorrentsNumber ?pg ''all'' CATEGORIES_ALL TAGS_ALL TRACKERS_ALL (torrentsTable c) = Inr (length (rows (torrentsTable c)))"
    by (simp add: num passes_tag_def)
  have none: "getFilteredTorrentsNumber ?pg ''all'' CATEGORIES_ALL TAGS_UNTAGGED TRACKERS_ALL (torrentsTable c) = Inr u"
  proof -
    have "passes_tag TAGS_UNTAGGED d = Some True \<longleftrightarrow> js_nonempty (prop_get d ''tags'') = Some False" for d
      by (auto simp: passes_tag_def TAGS_ALL_def TAGS_UNTAGGED_def)
    then show ?thesis unfolding num uncategorized_count [OF u] by simp
  qed
  have each: "getFilteredTorrentsNumber ?pg ''all'' CATEGORIES_ALL tag TRACKERS_ALL (torrentsTable c) = Inr (length ts)"
    if "(tag, ts) \<in> set (tagMap c)" for tag ts
  proof -
    have tag: "tag \<notin> {[], TAGS_ALL, TAGS_UNTAGGED}" using names that by force
    have "passes_tag tag (full_data r) = Some True \<longleftrightarrow> tag \<in> set (tag_labels (full_data r))" if r: "r \<in> set ?rs" for r
    proof -
      obtain s where "prop_get (full_data r) ''tags'' = JStr s" using words [OF r] by blast
      moreover have "js_split '', '' [] = [[]]" by (simp add: js_split_def)
      ultimately show ?thesis using tag by (auto simp: passes_tag_def tag_labels_def)
    qed
    then have "filter (\<lambda>r. passes_tag tag (full_data r) = Some True) ?rs = filter (\<lambda>r. tag \<in> set (tag_labels (full_data r))) ?rs"
      by (intro filter_cong) blast+
    then show ?thesis unfolding num rows_with_tag [OF con assms(2) that] by simp
  qed
  have "mset (map fst ?sorted) = mset (keys (tagMap c))"
    using mset_js_sort [of "\<lambda>l r. collate (fst l) (fst r)" "tagMap c"] by simp
  moreover have "(tag, ts) \<in> set ?sorted \<longleftrightarrow> (tag, ts) \<in> set (tagMap c)" for tag ts by simp
  ultimately show ?thesis
    using all none each by (auto simp: updateTagList_def u Let_def multiset.map_comp comp_def split_beta)
qed

lemma ex_merged_ok:
  "lists_consistent ex_merged" "distinct_keys (rows (torrentsTable ex_merged))"
  "\<forall>r \<in> snd ` set (rows (torrentsTable ex_merged)). torrent_row_ok (page_of ''name'' ex_merged) r"
proof -
  obtain u where u: "merge_response (\<lambda>_ _. []) (\<lambda>_. None) ex_response ex_client = Inr (ex_merged, u)" by (rule ex_merged_response)
  show "lists_consistent ex_merged"
    by (rule merge_response_lists [OF u])
      (auto simp: ex_response_def the_list_def json_object_def ex_torrent_object_def)
  show "distinct_keys (rows (torrentsTable ex_merged))" by code_simp
  show "\<forall>r \<in> snd ` set (rows (torrentsTable ex_merged)). torrent_row_ok (page_of ''name'' ex_merged) r"
  proof
    fix r
    assume "r \<in> snd ` set (rows (torrentsTable ex_merged))"
    then obtain h where "(h, r) \<in> set (rows (torrentsTable ex_merged))" by auto
    then have "(h, prop_get (full_data r) ''category'', prop_get (full_data r) ''tags'', prop_get (full_data r) ''state'',
        prop_get (full_data r) ''name'') \<in> set (map (\<lambda>(h, r). (h, prop_get (full_data r) ''category'',
          prop_get (full_data r) ''tags'', prop_get (full_data r) ''state'', prop_get (full_data r) ''name'')) (rows (torrentsTable ex_merged)))"
      by force
    then show "torrent_row_ok (page_of ''name'' ex_merged) r"
      unfolding ex_merged_value(3) by (auto simp: torrent_row_ok_def page_of_def)
  qed
qed

definition numeric_collator :: "string cmp" where
  "numeric_collator s t = compare_units (dropWhile (\<lambda>c. c = CHR ''0'') s) (dropWhile (\<lambda>c. c = CHR ''0'') t)"


theorem tag_list_counts_witness:
  "\<exists>items. updateTagList compare_units ex_merged = Inr items \<and> mset (map item_id items) = {#TAGS_ALL, TAGS_UNTAGGED, ''x''#}"
proof -
  have "{[], TAGS_ALL, TAGS_UNTAGGED} \<inter> set (keys (tagMap ex_merged)) = {}"
    unfolding ex_merged_value(2) by (simp add: TAGS_ALL_def TAGS_UNTAGGED_def)
  from tag_list_counts [OF ex_merged_ok this] show ?thesis unfolding ex_merged_value(2) by auto
qed

text \<open>
  The browser's collator takes runs of digits as numbers, so it does not tell \<open>1\<close> from
  \<open>01\<close>. With such a pair the entries of \<open>1\<close> and of its subcategory are no neighbours: the
  torrents of the subcategory are missing from the count of \<open>1\<close>, and it is drawn at the top.
\<close>

definition tied_client :: client where
  "tied_client = ex_client\<lparr>categoryMap := map (\<lambda>(n, ts). (n, \<lparr>savePath = JUndef, downloadPath = JNull, cat_torrents = ts\<rparr>))
     [(''1'', [''a'']), (''01'', []), (''1/x'', [''b''])]\<rparr>"

lemma tied_categories_miscounted:
  "map_option (\<lambda>r. case r of Inl e \<Rightarrow> [] | Inr (h, items, c) \<Rightarrow>
       map (\<lambda>it. (item_id (ci_item it), item_count (ci_item it), ci_parent it)) items)
     (updateCategoryList 3 (\<lambda>s t. compareNumbers (of_nat (digits_val s)) (of_nat (digits_val t))) tied_client)
   = Some [(''1'', Some 1, None), (''01'', Some 0, None), (''1/x'', Some 1, None)]"
  by code_simp

text \<open>
  An update with only some properties of a torrent that the page has no row for (its first
  update was lost) makes the handler throw when a list is drawn, and with that the loop stops.
\<close>

lemma unknown_torrent_throws:
  "updateTagList compare_units (case merge_response (\<lambda>_ _. []) (\<lambda>_. None)
      (ex_response\<lparr>full_update := False, r_torrents := Some [(''c'', [(''dlspeed'', JNum 5)])]\<rparr>) ex_merged of
     Inr (c, u) \<Rightarrow> c | Inl e \<Rightarrow> ex_client) = Inl TypeError"
  by code_simp

end
