(* ===== verification/SyncPeers.thy ===== *)
theory SyncPeers
  imports SyncServer ListTables
begin

text \<open>
  The peers of a torrent, from \<open>SyncController::torrentPeersAction\<close> on the server to the table of
  \<open>prop-peers.js\<close>: the answers of the server are differences, and the table shows what it has.
\<close>

section \<open>The server's data\<close>

text \<open>
  What the session tells about a peer. The address is \<open>None\<close> when it is null; the index of the
  piece it downloads is resolved to the paths of its files.
\<close>

record peer_info =
  client_name :: string
  peerIdClient :: string
  peer_progress :: rat
  payloadDownSpeed :: int
  payloadUpSpeed :: int
  totalDownload :: int
  totalUpload :: int
  connectionType :: string
  peer_flags :: string
  flagsDescription :: string
  peer_relevance :: rat
  isShadowBanned :: bool
  useI2PSocket :: bool
  I2PAddress :: string
  peer_ip :: "string option"
  is_ipv6 :: bool
  peer_port :: nat
  peer_country :: string
  downloading_files :: "string list"

record peers_view =
  hasMetadata :: bool
  fetchPeerInfo :: "peer_info list"
  resolvePeerHostNames :: bool
  resolvePeerCountries :: bool
  resolve :: "string \<Rightarrow> string"
  CountryName :: "string \<Rightarrow> string"

definition address_toString :: "peer_info \<Rightarrow> string" where
  "address_toString p =
     (case peer_ip p of
        None \<Rightarrow> []
      | Some ip \<Rightarrow> (if is_ipv6 p then ''['' @ ip @ '']'' else ip) @ '':'' @ nat_str (peer_port p))"

abbreviation q_text :: "string \<Rightarrow> qvariant" where "q_text s \<equiv> QScalar (JStr s)"
abbreviation q_int :: "int \<Rightarrow> qvariant" where "q_int i \<equiv> QScalar (JNum (of_int i))"

definition serialize_peer :: "peers_view \<Rightarrow> peer_info \<Rightarrow> qmap" where
  "serialize_peer v p =
     (let peer = [(''client'', q_text (client_name p)), (''peer_id_client'', q_text (peerIdClient p)),
                  (''progress'', QScalar (JNum (peer_progress p))), (''dl_speed'', q_int (payloadDownSpeed p)),
                  (''up_speed'', q_int (payloadUpSpeed p)), (''downloaded'', q_int (totalDownload p)),
                  (''uploaded'', q_int (totalUpload p)), (''connection'', q_text (connectionType p)),
                  (''flags'', q_text (peer_flags p)), (''flags_desc'', q_text (flagsDescription p)),
                  (''relevance'', QScalar (JNum (peer_relevance p))), (''shadowbanned'', QScalar (JBool (isShadowBanned p)))];
          peer = (if hasMetadata v then map_set ''files'' (q_text (js_join [CHR 0x0A] (downloading_files p))) peer else peer)
      in if useI2PSocket p then map_set ''i2p_dest'' (q_text (I2PAddress p)) peer
         else let ip = (case peer_ip p of None \<Rightarrow> [] | Some ip \<Rightarrow> ip);
                  peer = map_set ''port'' (q_int (int (peer_port p))) (map_set ''ip'' (q_text ip) peer);
                  peer = map_set ''host_name'' (q_text (if resolvePeerHostNames v then resolve v ip else [])) peer
              in if resolvePeerCountries v
                 then map_set ''country'' (q_text (CountryName v (peer_country p)))
                        (map_set ''country_code'' (q_text (toLowerCase (peer_country p))) peer)
                 else map_set ''country'' (QScalar JNull) (map_set ''country_code'' (QScalar JNull) peer))"

definition peer_key :: "peer_info \<Rightarrow> string" where
  "peer_key p = (if useI2PSocket p then I2PAddress p else address_toString p)"

definition add_peer :: "peers_view \<Rightarrow> qmap \<Rightarrow> peer_info \<Rightarrow> qmap" where
  "add_peer v peers p =
     (if peer_ip p = None \<and> \<not> useI2PSocket p then peers
      else map_set (peer_key p) (QMap (serialize_peer v p)) peers)"

definition peers_hash :: "peers_view \<Rightarrow> qmap" where
  "peers_hash v = foldl (add_peer v) [] (fetchPeerInfo v)"

definition peers_data :: "peers_view \<Rightarrow> qmap" where
  "peers_data v = [(''peers'', QHash (peers_hash v)), (''show_flags'', QScalar (JBool (resolvePeerCountries v)))]"

datatype api_error = NotFound

text \<open>The action, for the torrent that the id names, if there is one, and the id of the request.\<close>

definition torrentPeersAction :: "peers_view option \<Rightarrow> int \<Rightarrow> sync_memory \<Rightarrow> api_error + qmap \<times> sync_memory" where
  "torrentPeersAction torrent rid m =
     (case torrent of None \<Rightarrow> Inl NotFound | Some v \<Rightarrow> Inr (generateSyncData rid (peers_data v) m))"

definition json_object :: "qmap \<Rightarrow> jsobj" where
  "json_object m = map (\<lambda>(k, v). (k, toJson v)) m"

section \<open>The page\<close>

text \<open>The table, the id of the last answer and the setting of the flags, as the script keeps them.\<close>

record peers_panel =
  torrentPeersTable :: table
  syncTorrentPeersLastResponseId :: jsval
  show_flags :: jsval

definition peer_row :: "string \<Rightarrow> jsobj \<Rightarrow> jsobj" where
  "peer_row key peer =
     (let peer = map_set ''rowId'' (JStr key) peer
      in if has_own peer ''i2p_dest''
         then map_set ''port'' (JStr ''N/A'') (map_set ''ip'' (prop_get peer ''i2p_dest'') peer)
         else peer)"

fun object_entries :: "jsval \<Rightarrow> (string \<times> jsval) list" where
  "object_entries (JObj m) = m"
| "object_entries _ = []"

fun array_items :: "jsval \<Rightarrow> jsval list" where
  "array_items (JArr xs) = xs"
| "array_items _ = []"

definition force_hide_column :: "string \<Rightarrow> bool \<Rightarrow> table \<Rightarrow> table" where
  "force_hide_column name h t =
     t\<lparr>columns := map (\<lambda>c. if col_name c = name then c\<lparr>force_hide := h\<rparr> else c) (columns t)\<rparr>"

text \<open>
  The handler of a successful answer, whose parsed text is an object or \<open>null\<close>. The drawing of
  the country column follows from its \<open>force_hide\<close>.
\<close>

definition merge_peers :: "(table \<Rightarrow> row list) \<Rightarrow> jsobj \<Rightarrow> table \<Rightarrow> table" where
  "merge_peers fsr json t =
     (let full_update = (prop_get json ''full_update'' = JBool True);
          t = (if full_update then clear_table fsr t else t);
          peers = prop_get json ''peers'';
          removed = prop_get json ''peers_removed'';
          t = (if js_truthy peers
               then foldl (\<lambda>t (key, peer). updateRowData (peer_row key (object_entries peer)) t) t (object_entries peers)
               else t);
          t = (if js_truthy removed then foldl (\<lambda>t hash. removeRow fsr (js_String hash) t) t (array_items removed) else t)
      in updateTable fsr full_update t)"

definition handle_peers :: "(table \<Rightarrow> row list) \<Rightarrow> jsobj option \<Rightarrow> peers_panel \<Rightarrow> peers_panel" where
  "handle_peers fsr response c =
     (case response of
        None \<Rightarrow> c\<lparr>torrentPeersTable := clear_table fsr (torrentPeersTable c)\<rparr>
      | Some json \<Rightarrow>
          let t = merge_peers fsr json (torrentPeersTable c);
              rid = prop_get json ''rid'';
              flags = prop_get json ''show_flags'';
              changed = (js_truthy flags \<and> show_flags c \<noteq> flags)
          in \<lparr>torrentPeersTable = (if changed then force_hide_column ''country'' (\<not> js_truthy flags) t else t),
              syncTorrentPeersLastResponseId = (if js_truthy rid then rid else syncTorrentPeersLastResponseId c),
              show_flags = (if changed then flags else show_flags c)\<rparr>)"

definition forget_peers :: "(table \<Rightarrow> row list) \<Rightarrow> peers_panel \<Rightarrow> peers_panel" where
  "forget_peers fsr c =
     c\<lparr>torrentPeersTable := clear_table fsr (torrentPeersTable c), syncTorrentPeersLastResponseId := JNum 0\<rparr>"

text \<open>
  What \<open>loadTorrentPeersData\<close> does before it asks: nothing while the page is hidden, a clean
  start while the panel is not shown or no torrent is selected, and otherwise a request for the
  torrent with the id of the last answer. The \<open>clear\<close> of the panel only clears the table.
\<close>

definition loadTorrentPeersData ::
  "(table \<Rightarrow> row list) \<Rightarrow> bool \<Rightarrow> bool \<Rightarrow> string \<Rightarrow> peers_panel \<Rightarrow> peers_panel \<times> (string \<times> jsval) option"
where
  "loadTorrentPeersData fsr document_hidden panel_hidden current_hash c =
     (if document_hidden then (c, None)
      else if panel_hidden \<or> current_hash = [] then (forget_peers fsr c, None)
      else (c, Some (current_hash, syncTorrentPeersLastResponseId c)))"

definition clear_peers :: "(table \<Rightarrow> row list) \<Rightarrow> peers_panel \<Rightarrow> peers_panel" where
  "clear_peers fsr c = c\<lparr>torrentPeersTable := clear_table fsr (torrentPeersTable c)\<rparr>"

section \<open>What the server sends for a peer\<close>

definition base_props :: "string list" where
  "base_props = [''client'', ''peer_id_client'', ''progress'', ''dl_speed'', ''up_speed'', ''downloaded'', ''uploaded'',
     ''connection'', ''flags'', ''flags_desc'', ''relevance'', ''shadowbanned'']"

lemma serialize_scalar: "scalar_map (serialize_peer v p)"
  unfolding serialize_peer_def Let_def
  by (auto intro!: scalar_map_set) (auto simp: scalar_map_def)

lemma serialize_keys:
  "set (keys (serialize_peer v p)) =
     set base_props \<union> (if hasMetadata v then {''files''} else {})
       \<union> (if useI2PSocket p then {''i2p_dest''} else {''ip'', ''port'', ''host_name'', ''country_code'', ''country''})"
  unfolding serialize_peer_def Let_def base_props_def by (simp add: insert_commute)

text \<open>The texts of addresses have a colon; the destinations of I2P, in base 32 or 64, have none.\<close>

definition ok_view :: "peers_view \<Rightarrow> bool" where
  "ok_view v \<longleftrightarrow> list_all (\<lambda>p. useI2PSocket p \<longrightarrow> CHR '':'' \<notin> set (I2PAddress p)) (fetchPeerInfo v)"

definition keeps_metadata :: "peers_view \<Rightarrow> peers_view \<Rightarrow> bool" where
  "keeps_metadata v0 v \<longleftrightarrow> (hasMetadata v0 \<longrightarrow> hasMetadata v)"

definition serialized :: "peers_view \<Rightarrow> string \<Rightarrow> qvariant \<Rightarrow> bool" where
  "serialized v k x \<longleftrightarrow> (\<exists>p. x = QMap (serialize_peer v p) \<and> (useI2PSocket p \<longleftrightarrow> CHR '':'' \<notin> set k))"

lemma peers_hash_props:
  "(\<forall>p \<in> set ps. useI2PSocket p \<longrightarrow> CHR '':'' \<notin> set (I2PAddress p)) \<Longrightarrow> map_hash h \<Longrightarrow>
     (\<And>k x. map_get h k = Some x \<Longrightarrow> serialized v k x) \<Longrightarrow>
     map_hash (foldl (add_peer v) h ps) \<and> (\<forall>k x. map_get (foldl (add_peer v) h ps) k = Some x \<longrightarrow> serialized v k x)"
proof (induction ps arbitrary: h)
  case (Cons p ps)
  have "map_hash (add_peer v h p)"
    using Cons.prems(2) by (simp add: add_peer_def map_hash_set serialize_scalar)
  moreover have "serialized v k x" if g: "map_get (add_peer v h p) k = Some x" for k x
  proof (cases "k = peer_key p \<and> \<not> (peer_ip p = None \<and> \<not> useI2PSocket p)")
    case True
    with g have "x = QMap (serialize_peer v p)" by (simp add: add_peer_def split: if_splits)
    moreover have "useI2PSocket p \<longleftrightarrow> CHR '':'' \<notin> set k"
      using True Cons.prems(1) by (auto simp: peer_key_def address_toString_def)
    ultimately show ?thesis by (auto simp: serialized_def)
  next
    case False
    with g have "map_get h k = Some x" by (auto simp: add_peer_def split: if_splits)
    then show ?thesis by (rule Cons.prems(3))
  qed
  ultimately show ?case using Cons.IH [of "add_peer v h p"] Cons.prems(1) by simp
qed auto

lemma peers_hash_ok:
  assumes "ok_view v"
  shows "map_hash (peers_hash v)"
    and "map_get (peers_hash v) k = Some x \<Longrightarrow> serialized v k x"
  using peers_hash_props [of "fetchPeerInfo v" "[]" v] assms
  by (simp_all add: peers_hash_def ok_view_def list_all_iff map_hash_def)

section \<open>The data in the rows\<close>

definition data_of :: "table \<Rightarrow> string \<Rightarrow> jsobj option" where
  "data_of t k = map_option full_data (map_get (rows t) k)"

lemma data_of_cong: "map row_data (rows t) = map row_data m \<Longrightarrow> data_of t k = map_option full_data (map_get m k)"
  unfolding data_of_def by (rule row_data_full)

lemma data_of_updateTable [simp]: "data_of (updateTable fsr full t) k = data_of t k"
  using data_of_cong [OF row_data_updateTable] by (simp add: data_of_def)

lemma data_of_removeRow [simp]: "data_of (removeRow fsr rid t) k = (if k = rid then None else data_of t k)"
  using data_of_cong [OF row_data_removeRow] by (simp add: data_of_def)

lemma data_of_clear [simp]: "data_of (clear_table fsr t) k = None"
  by (simp add: data_of_def)

lemma data_of_force [simp]: "data_of (force_hide_column n h t) k = data_of t k"
  by (simp add: data_of_def force_hide_column_def)

lemma data_of_removed:
  "data_of (foldl (\<lambda>t x. removeRow fsr (f x) t) t xs) k = (if k \<in> f ` set xs then None else data_of t k)"
  by (induction xs arbitrary: t) auto

lemma row_id_peer_row [simp]: "data_id (peer_row k m) = k"
  by (simp add: data_id_def peer_row_def prop_get_def Let_def)

lemma data_of_update:
  "data_of (updateRowData (peer_row key m) t) k =
     (if k = key then Some (merge_props (case data_of t k of None \<Rightarrow> [] | Some d \<Rightarrow> d) (peer_row key m)) else data_of t k)"
  by (simp add: data_of_def updateRowData_get split: option.split)

lemma data_of_updates:
  "distinct_keys ps \<Longrightarrow>
     data_of (foldl (\<lambda>t (key, peer). updateRowData (peer_row key (object_entries peer)) t) t ps) k =
       (case map_get ps k of None \<Rightarrow> data_of t k
        | Some peer \<Rightarrow> Some (merge_props (case data_of t k of None \<Rightarrow> [] | Some d \<Rightarrow> d) (peer_row k (object_entries peer))))"
proof (induction ps arbitrary: t)
  case (Cons e ps)
  obtain key peer where e: "e = (key, peer)" by (cases e)
  with Cons.prems have "map_get ps key = None" by (simp add: map_of_eq_None_iff)
  with Cons e show ?case by (cases "k = key") (simp_all add: data_of_update split: option.split)
qed simp

section \<open>Rows against the server's data\<close>

text \<open>A property without a value may be undefined or null in the row.\<close>

definition no_null :: "jsval \<Rightarrow> jsval" where
  "no_null v = (if v = JUndef then JNull else v)"

definition shows_peer :: "jsobj \<Rightarrow> string \<Rightarrow> qmap \<Rightarrow> bool" where
  "shows_peer d k m \<longleftrightarrow> (\<forall>x. no_null (prop_get d x) = no_null (prop_get (peer_row k (json_object m)) x))"

lemma answer_get [simp]: "map_get (json_object m) x = map_option toJson (map_get m x)"
  by (induction m) (auto simp: json_object_def)

lemma answer_keys [simp]: "keys (json_object m) = keys m"
  by (induction m) (auto simp: json_object_def)

lemma key_in: "k \<in> set (keys m) \<longleftrightarrow> map_get m k \<noteq> None"
  by (simp add: map_of_eq_None_iff)

lemma peer_row_get:
  "map_get (peer_row k (json_object m)) x =
     (if x = ''rowId'' then Some (JStr k)
      else if map_get m ''i2p_dest'' \<noteq> None \<and> x = ''ip'' then Some (toJson (qget m ''i2p_dest''))
      else if map_get m ''i2p_dest'' \<noteq> None \<and> x = ''port'' then Some (JStr ''N/A'')
      else map_option toJson (map_get m x))"
proof -
  have own: "has_own (map_set ''rowId'' (JStr k) (json_object m)) ''i2p_dest'' \<longleftrightarrow> map_get m ''i2p_dest'' \<noteq> None"
    unfolding has_own_def key_in by simp
  show ?thesis
    unfolding peer_row_def Let_def own by (auto simp: prop_get_def qget_def split: option.split)
qed

lemma peer_row_value:
  "no_null (prop_get (peer_row k (json_object m)) x) =
     no_null (if x = ''rowId'' then JStr k
      else if map_get m ''i2p_dest'' \<noteq> None \<and> x = ''ip'' then toJson (qget m ''i2p_dest'')
      else if map_get m ''i2p_dest'' \<noteq> None \<and> x = ''port'' then JStr ''N/A''
      else toJson (qget m x))"
  by (simp add: prop_get_def peer_row_get qget_def no_null_def split: option.split)

lemma distinct_peer_row [simp]: "distinct_keys m \<Longrightarrow> distinct_keys (peer_row k (json_object m))"
  by (auto simp: peer_row_def Let_def intro!: distinct_keys_set)

text \<open>When the properties of a peer can be brought up to date by their changes.\<close>

definition same_shape :: "qmap \<Rightarrow> qmap \<Rightarrow> bool" where
  "same_shape m0 m \<longleftrightarrow>
     set (keys m0) \<subseteq> set (keys m) \<and> (''i2p_dest'' \<in> set (keys m0) \<longleftrightarrow> ''i2p_dest'' \<in> set (keys m))
     \<and> ''rowId'' \<notin> set (keys m) \<and> (''i2p_dest'' \<in> set (keys m) \<longrightarrow> ''ip'' \<notin> set (keys m) \<and> ''port'' \<notin> set (keys m))"

lemma change_get:
  assumes "scalar_map m" "same_shape m0 m"
  shows "map_get (processMap_loop m0 m []) x = (if qget m0 x \<noteq> qget m x then Some (qget m x) else None)"
  using processMap_change [OF assms(1), of m0 x] assms(2) by (simp add: same_shape_def processMap_def)

lemma shows_change:
  assumes m: "scalar_map m" and shape: "same_shape m0 m" and d: "shows_peer d k m0"
  shows "shows_peer (merge_props d (peer_row k (json_object (processMap_loop m0 m [])))) k m"
  unfolding shows_peer_def
proof
  fix x
  let ?c = "processMap_loop m0 m []"
  have i2p: "map_get m0 ''i2p_dest'' \<noteq> None \<longleftrightarrow> map_get m ''i2p_dest'' \<noteq> None"
    and ip: "map_get m ''i2p_dest'' \<noteq> None \<Longrightarrow> map_get m ''ip'' = None \<and> map_get m ''port'' = None"
    and row: "map_get m ''rowId'' = None"
    using shape unfolding same_shape_def key_in by blast+
  have none: "map_get m0 y = None" if y: "map_get m y = None" for y
    using shape y unfolding same_shape_def subset_iff key_in by blast
  have c: "map_get ?c y = (if qget m0 y \<noteq> qget m y then Some (qget m y) else None)" for y
    using m shape by (rule change_get)
  then have c': "qget ?c y = (if qget m0 y \<noteq> qget m y then qget m y else QScalar JNull)" for y
    by (simp add: qget_def [of ?c])
  have "distinct_keys ?c"
    using processMap_loop_scalar [OF m, of "[]" m0] by (simp add: scalar_map_def)
  from merge_props_get [OF distinct_peer_row [OF this], of d k x]
  have val: "prop_get (merge_props d (peer_row k (json_object ?c))) x =
      (case map_get (peer_row k (json_object ?c)) x of None \<Rightarrow> prop_get d x | Some v \<Rightarrow> v)"
    by (simp add: prop_get_def split: option.split)
  have old: "no_null (prop_get d x) = no_null (prop_get (peer_row k (json_object m0)) x)"
    using d by (simp add: shows_peer_def)
  consider "x = ''rowId''" | "map_get m ''i2p_dest'' \<noteq> None" "x = ''ip''" | "map_get m ''i2p_dest'' \<noteq> None" "x = ''port''"
    | "x \<noteq> ''rowId''" "map_get m ''i2p_dest'' = None \<or> x \<noteq> ''ip'' \<and> x \<noteq> ''port''"
    by metis
  then show "no_null (prop_get (merge_props d (peer_row k (json_object ?c))) x) = no_null (prop_get (peer_row k (json_object m)) x)"
  proof cases
    case 1
    then show ?thesis unfolding val peer_row_value peer_row_get by simp
  next
    case 2
    with ip none have "qget m0 x = QScalar JNull" "qget m x = QScalar JNull" by (simp_all add: qget_def)
    moreover have "no_null (prop_get d x) = no_null (toJson (qget m0 ''i2p_dest''))"
      unfolding old peer_row_value using 2 i2p by simp
    ultimately show ?thesis unfolding val peer_row_value using 2 by (simp add: peer_row_get c c')
  next
    case 3
    with ip none have "qget m0 x = QScalar JNull" "qget m x = QScalar JNull" by (simp_all add: qget_def)
    moreover have "no_null (prop_get d x) = no_null (JStr ''N/A'')"
      unfolding old peer_row_value using 3 i2p by simp
    ultimately show ?thesis unfolding val peer_row_value using 3 by (simp add: peer_row_get c c')
  next
    case 4
    then have "no_null (prop_get d x) = no_null (toJson (qget m0 x))"
      unfolding old peer_row_value using i2p by auto
    moreover have "map_get (peer_row k (json_object ?c)) x = map_option toJson (map_get ?c x)"
    proof (cases "map_get m ''i2p_dest'' = None")
      case True
      then have "map_get ?c ''i2p_dest'' = None" using none [OF True] by (simp add: c qget_def)
      with 4 show ?thesis by (simp add: peer_row_get)
    next
      case False
      with 4 show ?thesis by (simp add: peer_row_get)
    qed
    ultimately show ?thesis unfolding val peer_row_value using 4 by (auto simp: c)
  qed
qed

lemma shows_new: "distinct_keys m \<Longrightarrow> shows_peer (merge_props [] (peer_row k (json_object m))) k m"
  by (simp add: shows_peer_def prop_get_def merge_props_get split: option.split)

lemma shows_unchanged:
  assumes "scalar_map m" "same_shape m0 m" "shows_peer d k m0" "processMap_loop m0 m [] = []"
  shows "shows_peer d k m"
proof -
  have "qget m0 y = qget m y" for y using change_get [OF assms(1,2), of y] assms(4) by (simp split: if_splits)
  moreover have "map_get m0 ''i2p_dest'' \<noteq> None \<longleftrightarrow> map_get m ''i2p_dest'' \<noteq> None"
    using assms(2) unfolding same_shape_def key_in by blast
  ultimately show ?thesis using assms(3) by (simp add: shows_peer_def peer_row_value)
qed

section \<open>Answers and the table\<close>

definition mirrors_peers :: "peers_view \<Rightarrow> peers_panel \<Rightarrow> bool" where
  "mirrors_peers v c \<longleftrightarrow> (\<forall>k.
     (case map_get (peers_hash v) k of
        None \<Rightarrow> data_of (torrentPeersTable c) k = None
      | Some p \<Rightarrow> \<exists>d. data_of (torrentPeersTable c) k = Some d \<and> shows_peer d k (toMap p)))"

definition handle_answer :: "(table \<Rightarrow> row list) \<Rightarrow> qmap \<Rightarrow> peers_panel \<Rightarrow> peers_panel" where
  "handle_answer fsr m c = handle_peers fsr (Some (json_object m)) c"

definition panel_rid :: "peers_panel \<Rightarrow> int" where
  "panel_rid c = toInt (QScalar (syncTorrentPeersLastResponseId c))"

lemma toJson_hash [simp]: "toJson (QHash h) = JObj (json_object h)" "toJson (QMap h) = JObj (json_object h)"
  by (simp_all add: json_object_def)

declare toJson.simps(2,3) [simp del]

lemma json_object_Nil [simp]: "json_object [] = []"
  by (simp add: json_object_def)

lemma prop_get_json: "prop_get (json_object m) x = (case map_get m x of None \<Rightarrow> JUndef | Some v \<Rightarrow> toJson v)"
  by (simp add: prop_get_def split: option.split)

lemma handled_data:
  assumes peers: "case map_get m ''peers'' of None \<Rightarrow> D = [] | Some p \<Rightarrow> p = QHash D \<or> p = QMap D"
    and removed: "map_get m ''peers_removed'' = (if R = [] then None else Some (QList (map q_text R)))"
    and D: "map_hash D"
  shows "data_of (torrentPeersTable (handle_answer fsr m c)) k =
     (if k \<in> set R then None
      else let old = (if map_get m ''full_update'' = Some (QScalar (JBool True)) then None else data_of (torrentPeersTable c) k)
           in case map_get D k of None \<Rightarrow> old
              | Some p \<Rightarrow> Some (merge_props (case old of None \<Rightarrow> [] | Some d \<Rightarrow> d) (peer_row k (json_object (toMap p)))))"
proof -
  define full where "full \<longleftrightarrow> prop_get (json_object m) ''full_update'' = JBool True"
  have "toJson v = JBool True \<longleftrightarrow> v = QScalar (JBool True)" for v by (cases v) simp_all
  then have full: "full \<longleftrightarrow> map_get m ''full_update'' = Some (QScalar (JBool True))"
    by (simp add: full_def prop_get_json split: option.split)
  define t where "t = (if full then clear_table fsr (torrentPeersTable c) else torrentPeersTable c)"
  define t1 where "t1 = foldl (\<lambda>t (key, peer). updateRowData (peer_row key (object_entries peer)) t) t (json_object D)"
  define t2 where "t2 = foldl (\<lambda>t hash. removeRow fsr (js_String hash) t) t1 (map JStr R)"
  have peers_eq: "(if js_truthy (prop_get (json_object m) ''peers'')
      then foldl (\<lambda>t (key, peer). updateRowData (peer_row key (object_entries peer)) t) t (object_entries (prop_get (json_object m) ''peers''))
      else t) = t1"
    using peers by (auto simp: prop_get_json t1_def js_truthy_def split: option.split)
  have removed_eq: "(if js_truthy (prop_get (json_object m) ''peers_removed'')
      then foldl (\<lambda>t hash. removeRow fsr (js_String hash) t) t1 (array_items (prop_get (json_object m) ''peers_removed''))
      else t1) = t2"
    by (auto simp: prop_get_json removed t2_def comp_def js_truthy_def)
  have "merge_peers fsr (json_object m) (torrentPeersTable c) = updateTable fsr full t2"
    unfolding merge_peers_def Let_def full_def [symmetric] t_def [symmetric] peers_eq removed_eq ..
  then have "data_of (torrentPeersTable (handle_answer fsr m c)) k = data_of t2 k"
    by (simp add: handle_answer_def handle_peers_def Let_def)
  also have "\<dots> = (if k \<in> set R then None else data_of t1 k)"
    by (simp add: t2_def data_of_removed image_image)
  also have "data_of t1 k = (case map_get D k of None \<Rightarrow> data_of t k
      | Some p \<Rightarrow> Some (merge_props (case data_of t k of None \<Rightarrow> [] | Some d \<Rightarrow> d) (peer_row k (json_object (toMap p)))))"
  proof -
    have "distinct_keys (json_object D)" using D by (simp add: map_hash_def)
    from data_of_updates [OF this, of t k] show ?thesis
      using map_hash_get [OF D, of k] by (auto simp: t1_def split: option.split)
  qed
  finally show ?thesis by (simp add: t_def full Let_def split: option.split)
qed

lemma processMap_peers:
  fixes v
  defines "h \<equiv> peers_hash v"
  assumes "qget base ''peers'' = QHash h0"
  shows "map_get (processMap base (peers_data v)) ''peers'' =
           (if fst (processHash h0 h) = [] then None else Some (QMap (fst (processHash h0 h))))"
    and "map_get (processMap base (peers_data v)) ''peers_removed'' =
           (if snd (processHash h0 h) = [] then None else Some (QList (map q_text (snd (processHash h0 h)))))"
    and "map_get (processMap base (peers_data v)) ''full_update'' = None"
proof -
  obtain d r where dr: "(if h0 = [] then (foldl (\<lambda>acc (k, v). map_set k v acc) [] h, []) else processHash_loop h0 h []) = (d, r)"
    by fastforce
  then have ph: "processHash h0 h = (d, keys r)"
    by (auto simp: processHash_def split: if_splits)
  have "map (\<lambda>(k, v). q_text k) r = map q_text (keys r)" by (simp add: split_beta)
  then show "map_get (processMap base (peers_data v)) ''peers'' =
           (if fst (processHash h0 h) = [] then None else Some (QMap (fst (processHash h0 h))))"
    "map_get (processMap base (peers_data v)) ''peers_removed'' =
           (if snd (processHash h0 h) = [] then None else Some (QList (map q_text (snd (processHash h0 h)))))"
    "map_get (processMap base (peers_data v)) ''full_update'' = None"
    unfolding ph by (simp_all add: processMap_def peers_data_def h_def [symmetric] assms(2) dr Let_def KEY_SUFFIX_REMOVED_def)
qed

lemma answered_full:
  assumes "ok_view v"
  shows "mirrors_peers v (handle_answer fsr (map_set KEY_RESPONSE_ID (rid_value i)
           (map_set KEY_FULL_UPDATE (QScalar (JBool True)) (peers_data v))) c)"
    (is "mirrors_peers v (handle_answer fsr ?m c)")
proof -
  have h: "map_hash (peers_hash v)" using assms by (rule peers_hash_ok)
  have "data_of (torrentPeersTable (handle_answer fsr ?m c)) k =
      (case map_get (peers_hash v) k of None \<Rightarrow> None | Some p \<Rightarrow> Some (merge_props [] (peer_row k (json_object (toMap p)))))" for k
  proof -
    have m: "map_get ?m ''peers'' = Some (QHash (peers_hash v))" "map_get ?m ''peers_removed'' = None"
      "map_get ?m ''full_update'' = Some (QScalar (JBool True))"
      by (simp_all add: peers_data_def KEY_RESPONSE_ID_def KEY_FULL_UPDATE_def)
    show ?thesis
      using handled_data [where m = ?m and D = "peers_hash v" and R = "[]" and fsr = fsr and c = c and k = k, OF _ _ h]
      unfolding m by (cases "map_get (peers_hash v) k") simp_all
  qed
  moreover have "shows_peer (merge_props [] (peer_row k (json_object (toMap p)))) k (toMap p)"
    if "map_get (peers_hash v) k = Some p" for k p
    using map_hash_get [OF h that] by (auto simp: scalar_map_def intro: shows_new)
  ultimately show ?thesis by (auto simp: mirrors_peers_def split: option.split)
qed

lemma same_shape_views:
  assumes "serialized v0 k (QMap m0)" "serialized v k (QMap m)" "keeps_metadata v0 v"
  shows "same_shape m0 m"
proof -
  obtain p0 p where m: "m0 = serialize_peer v0 p0" "m = serialize_peer v p" and u: "useI2PSocket p0 = useI2PSocket p"
    using assms(1,2) by (auto simp: serialized_def)
  have "''rowId'' \<notin> set (keys m)" "''i2p_dest'' \<in> set (keys m) \<longleftrightarrow> useI2PSocket p"
    "''i2p_dest'' \<in> set (keys m0) \<longleftrightarrow> useI2PSocket p0"
    "useI2PSocket p \<longrightarrow> ''ip'' \<notin> set (keys m) \<and> ''port'' \<notin> set (keys m)"
    unfolding m serialize_keys base_props_def by simp_all
  moreover have "set (keys m0) \<subseteq> set (keys m)"
    unfolding m serialize_keys u using assms(3) by (auto simp: keeps_metadata_def)
  ultimately show ?thesis unfolding same_shape_def using u by simp
qed

lemma answered_change:
  assumes "ok_view v0" "ok_view v" "keeps_metadata v0 v" "mirrors_peers v0 c"
  shows "mirrors_peers v (handle_answer fsr (map_set KEY_RESPONSE_ID (rid_value i)
           (processMap (map_set KEY_RESPONSE_ID (rid_value j) (peers_data v0)) (peers_data v))) c)"
    (is "mirrors_peers v (handle_answer fsr ?m c)")
  unfolding mirrors_peers_def
proof
  fix k
  let ?prev = "peers_hash v0" and ?now = "peers_hash v"
  have h: "map_hash ?now" using assms(2) by (rule peers_hash_ok)
  have base: "qget (map_set KEY_RESPONSE_ID (rid_value j) (peers_data v0)) ''peers'' = QHash ?prev"
    by (simp add: qget_def peers_data_def KEY_RESPONSE_ID_def)
  note change = processHash_correct [OF h, of ?prev]
  have m: "case map_get ?m ''peers'' of None \<Rightarrow> fst (processHash ?prev ?now) = []
      | Some p \<Rightarrow> p = QHash (fst (processHash ?prev ?now)) \<or> p = QMap (fst (processHash ?prev ?now))"
    "map_get ?m ''peers_removed'' = (if snd (processHash ?prev ?now) = [] then None
       else Some (QList (map q_text (snd (processHash ?prev ?now)))))"
    "map_get ?m ''full_update'' = None"
    using processMap_peers [OF base, of v] by (simp_all add: KEY_RESPONSE_ID_def)
  have new: "data_of (torrentPeersTable (handle_answer fsr ?m c)) k =
     (if k \<in> set (keys ?prev) - set (keys ?now) then None
      else case (case map_get ?now k of None \<Rightarrow> None | Some v \<Rightarrow> hash_change ?prev k v) of
             None \<Rightarrow> data_of (torrentPeersTable c) k
           | Some p \<Rightarrow> Some (merge_props (case data_of (torrentPeersTable c) k of None \<Rightarrow> [] | Some d \<Rightarrow> d) (peer_row k (json_object (toMap p)))))"
    using handled_data [OF m(1,2) change(3), of fsr c k] m(3) unfolding change(1,2) by (simp add: Let_def)
  have old: "case map_get ?prev k of None \<Rightarrow> data_of (torrentPeersTable c) k = None
     | Some p \<Rightarrow> \<exists>d. data_of (torrentPeersTable c) k = Some d \<and> shows_peer d k (toMap p)"
    using assms(4) by (simp add: mirrors_peers_def)
  show "case map_get ?now k of None \<Rightarrow> data_of (torrentPeersTable (handle_answer fsr ?m c)) k = None
     | Some p \<Rightarrow> \<exists>d. data_of (torrentPeersTable (handle_answer fsr ?m c)) k = Some d \<and> shows_peer d k (toMap p)"
  proof (cases "map_get ?now k")
    case None
    then have "data_of (torrentPeersTable (handle_answer fsr ?m c)) k = None"
      using old unfolding new Diff_iff key_in by (simp split: option.splits)
    with None show ?thesis by simp
  next
    case (Some p)
    then obtain m where p: "p = QMap m" "scalar_map m" using map_hash_get [OF h] by blast
    have notin: "k \<notin> set (keys ?prev) - set (keys ?now)" using Some unfolding Diff_iff key_in by simp
    show ?thesis
    proof (cases "map_get ?prev k")
      case None
      then have "data_of (torrentPeersTable (handle_answer fsr ?m c)) k = Some (merge_props [] (peer_row k (json_object m)))"
        using old Some notin by (simp add: new hash_change_def p(1))
      moreover have "shows_peer (merge_props [] (peer_row k (json_object m))) k m"
        using p(2) by (intro shows_new) (simp add: scalar_map_def)
      ultimately show ?thesis using Some p(1) by simp
    next
      case (Some p0)
      then obtain m0 where m0: "p0 = QMap m0" using map_hash_get [OF peers_hash_ok(1) [OF assms(1)]] by blast
      obtain d where d: "data_of (torrentPeersTable c) k = Some d" "shows_peer d k m0"
        using old Some m0 by auto
      have shape: "same_shape m0 m"
        using peers_hash_ok(2) [OF assms(1) Some] peers_hash_ok(2) [OF assms(2) \<open>map_get ?now k = Some p\<close>] assms(3)
        unfolding m0 p(1) by (rule same_shape_views)
      have change: "hash_change ?prev k p =
          (if processMap_loop m0 m [] = [] then None else Some (QMap (processMap_loop m0 m [])))"
        using Some by (simp add: hash_change_def p(1) m0 Let_def)
      have "\<exists>e. data_of (torrentPeersTable (handle_answer fsr ?m c)) k = Some e \<and> shows_peer e k m"
      proof (cases "processMap_loop m0 m [] = []")
        case True
        then have "data_of (torrentPeersTable (handle_answer fsr ?m c)) k = Some d"
          unfolding new if_not_P [OF notin] \<open>map_get ?now k = Some p\<close> by (simp add: change d(1))
        with shows_unchanged [OF p(2) shape d(2) True] show ?thesis by blast
      next
        case False
        then have "data_of (torrentPeersTable (handle_answer fsr ?m c)) k =
            Some (merge_props d (peer_row k (json_object (processMap_loop m0 m []))))"
          unfolding new if_not_P [OF notin] \<open>map_get ?now k = Some p\<close> by (simp add: change d(1))
        with shows_change [OF p(2) shape d(2)] show ?thesis by blast
      qed
      with \<open>map_get ?now k = Some p\<close> p(1) show ?thesis by simp
    qed
  qed
qed

section \<open>The table follows the server\<close>

text \<open>
  The steps of the page and the server about a torrent: an answer that arrives, one that is lost
  after the server has made it, a request for a torrent that the session does not have, and a time
  when the panel is not shown.
\<close>

fun peers_step ::
  "(table \<Rightarrow> row list) \<Rightarrow> string \<Rightarrow> sync_memory \<times> peers_panel \<Rightarrow> peers_view sync_event \<Rightarrow> sync_memory \<times> peers_panel"
where
  "peers_step fsr hash (m, c) (Answered v) =
     (case loadTorrentPeersData fsr False False hash c of
        (c, None) \<Rightarrow> (m, c)
      | (c, Some (_, rid)) \<Rightarrow>
          (case torrentPeersAction (Some v) (toInt (QScalar rid)) m of
             Inl _ \<Rightarrow> (m, c) | Inr (response, m) \<Rightarrow> (m, handle_peers fsr (Some (json_object response)) c)))"
| "peers_step fsr hash (m, c) (Lost v) =
     (case loadTorrentPeersData fsr False False hash c of
        (c, None) \<Rightarrow> (m, c)
      | (c, Some (_, rid)) \<Rightarrow>
          (case torrentPeersAction (Some v) (toInt (QScalar rid)) m of Inl _ \<Rightarrow> (m, c) | Inr (response, m) \<Rightarrow> (m, c)))"
| "peers_step fsr hash (m, c) Refused =
     (case loadTorrentPeersData fsr False False hash c of
        (c, None) \<Rightarrow> (m, c)
      | (c, Some (_, rid)) \<Rightarrow>
          (case torrentPeersAction None (toInt (QScalar rid)) m of Inl _ \<Rightarrow> (m, c) | Inr (response, m) \<Rightarrow> (m, c)))"
| "peers_step fsr hash (m, c) Reset = (m, fst (loadTorrentPeersData fsr False True hash c))"

definition no_peers :: "peers_panel \<Rightarrow> bool" where
  "no_peers c \<longleftrightarrow> rows (torrentPeersTable c) = []"

interpretation peers: rid_client panel_rid "handle_answer fsr" "forget_peers fsr" peers_data ok_view keeps_metadata no_peers mirrors_peers
  for fsr
proof unfold_locales
  fix i m c
  assume "0 < (i :: int)"
  then have "toInt (QScalar (toJson (rid_value i))) = i" "js_truthy (toJson (rid_value i))"
    by (simp_all add: rid_value_def toInt_def js_truthy_def)
  then show "panel_rid (handle_answer fsr (map_set KEY_RESPONSE_ID (rid_value i) m) c) = i"
    by (simp add: panel_rid_def handle_answer_def handle_peers_def Let_def prop_get_json KEY_RESPONSE_ID_def)
next
  show "panel_rid (forget_peers fsr c) = 0" for c by (simp add: panel_rid_def forget_peers_def toInt_def)
  show "no_peers (forget_peers fsr c)" for c by (simp add: no_peers_def forget_peers_def)
qed (fact answered_full answered_change)+

lemma peers_step_protocol:
  assumes "hash \<noteq> []"
  shows "peers_step fsr hash st e = protocol_step panel_rid (handle_answer fsr) (forget_peers fsr) peers_data st e"
  using assms
  by (cases st; cases e)
    (simp_all add: loadTorrentPeersData_def torrentPeersAction_def panel_rid_def handle_answer_def split_beta)


definition ex_peer :: "string \<Rightarrow> int \<Rightarrow> peer_info" where
  "ex_peer ip speed = \<lparr>client_name = ''qB'', peerIdClient = ''-qB-'', peer_progress = 1 / 2, payloadDownSpeed = speed,
     payloadUpSpeed = 0, totalDownload = 7, totalUpload = 0, connectionType = ''BT'', peer_flags = ''D'',
     flagsDescription = ''d'', peer_relevance = 1, isShadowBanned = False, useI2PSocket = False, I2PAddress = [],
     peer_ip = Some ip, is_ipv6 = False, peer_port = 80, peer_country = ''FR'', downloading_files = [''a'']\<rparr>"

definition ex_view :: "peer_info list \<Rightarrow> peers_view" where
  "ex_view ps = \<lparr>hasMetadata = True, fetchPeerInfo = ps, resolvePeerHostNames = False, resolvePeerCountries = True,
     resolve = (\<lambda>_. []), CountryName = (\<lambda>_. ''France'')\<rparr>"

definition ex_panel :: peers_panel where
  "ex_panel = \<lparr>torrentPeersTable = ex_table\<lparr>rows := [], trs := [], selectedRows := []\<rparr>,
     syncTorrentPeersLastResponseId = JNum 0, show_flags = JBool True\<rparr>"

definition ex_memory :: sync_memory where
  "ex_memory = \<lparr>lastAcceptedData = [], lastData = []\<rparr>"

abbreviation ex_fsr :: "table \<Rightarrow> row list" where
  "ex_fsr \<equiv> getFilteredAndSortedRows (\<lambda>_ _ _. 0)"

definition ex_events :: "peers_view sync_event list" where
  "ex_events = [Answered (ex_view [ex_peer ''1.1.1.1'' 5, ex_peer ''2.2.2.2'' 5]), Lost (ex_view [ex_peer ''2.2.2.2'' 6]),
     Refused, Answered (ex_view [ex_peer ''2.2.2.2'' 7, ex_peer ''3.3.3.3'' 8])]"


section \<open>Where the table departs from the server\<close>

text \<open>An answer that says that countries are no longer resolved changes nothing about the column.\<close>

lemma flags_off_ignored:
  assumes "prop_get json ''show_flags'' = JBool False"
  shows "show_flags (handle_peers fsr (Some json) c) = show_flags c
    \<and> torrentPeersTable (handle_peers fsr (Some json) c) = merge_peers fsr json (torrentPeersTable c)"
  using assms by (simp add: handle_peers_def Let_def js_truthy_def)

text \<open>
  A change of the filters clears the panel but not the id of the last answer, so the next answer
  is a difference and the peers that did not change stay away.
\<close>

lemma cleared_panel_stays_empty:
  "let v = ex_view [ex_peer ''1.1.1.1'' 5];
       (m, c) = peers_step ex_fsr ''h'' (ex_memory, ex_panel) (Answered v);
       (m, c) = peers_step ex_fsr ''h'' (m, clear_peers ex_fsr c) (Answered v)
   in keys (peers_hash v) = [''1.1.1.1:80''] \<and> rows (torrentPeersTable c) = []"
  by code_simp

text \<open>
  Two requests in flight with the same id get differences to the same data; applied one after the
  other, the second does not take back what the first one changed.
\<close>

lemma overlapping_requests_stale:
  "let v = (\<lambda>s. ex_view [ex_peer ''1.1.1.1'' s]);
       (m, c) = peers_step ex_fsr ''h'' (ex_memory, ex_panel) (Answered (v 5));
       (r1, m) = generateSyncData (panel_rid c) (peers_data (v 6)) m;
       (r2, m) = generateSyncData (panel_rid c) (peers_data (v 5)) m;
       c = handle_answer ex_fsr r2 (handle_answer ex_fsr r1 c)
   in map (\<lambda>(k, r). prop_get (full_data r) ''dl_speed'') (rows (torrentPeersTable c)) = [JNum 6]"
  by code_simp

text \<open>A property that the data no longer has, here the files after the metadata, stays in the row.\<close>

lemma lost_property_stays:
  "let (m, c) = peers_step ex_fsr ''h'' (ex_memory, ex_panel) (Answered (ex_view [ex_peer ''1.1.1.1'' 5]));
       v = (ex_view [ex_peer ''1.1.1.1'' 5])\<lparr>hasMetadata := False\<rparr>;
       (m, c) = peers_step ex_fsr ''h'' (m, c) (Answered v)
   in map (\<lambda>(k, r). prop_get (full_data r) ''files'') (rows (torrentPeersTable c)) = [JStr ''a'']
      \<and> (\<forall>p \<in> set (fetchPeerInfo v). \<not> has_own (json_object (serialize_peer v p)) ''files'')"
  by code_simp

section \<open>The shape of the answers\<close>

definition json_scalar :: "jsval \<Rightarrow> bool" where
  "json_scalar v = (case v of JArr _ \<Rightarrow> False | JObj _ \<Rightarrow> False | _ \<Rightarrow> True)"

text \<open>What the handler of the page takes the parts of an answer for.\<close>

definition typed_part :: "string \<Rightarrow> jsval \<Rightarrow> bool" where
  "typed_part k v =
     (if k = ''rid'' then (case v of JNum x \<Rightarrow> 1 \<le> x \<and> x \<le> 1000000 \<and> x = of_int \<lfloor>x\<rfloor> | _ \<Rightarrow> False)
      else if k = ''full_update'' then v = JBool True
      else if k = ''show_flags'' then (case v of JBool _ \<Rightarrow> True | _ \<Rightarrow> False)
      else if k = ''peers'' then
        (case v of JObj ps \<Rightarrow> list_all (\<lambda>(key, peer). case peer of JObj o' \<Rightarrow> list_all (\<lambda>(x, w). json_scalar w) o' | _ \<Rightarrow> False) ps
         | _ \<Rightarrow> False)
      else if k = ''peers_removed'' then
        (case v of JArr xs \<Rightarrow> list_all (\<lambda>x. case x of JStr _ \<Rightarrow> True | _ \<Rightarrow> False) xs | _ \<Rightarrow> False)
      else False)"

definition typed_answer :: "jsobj \<Rightarrow> bool" where
  "typed_answer json \<longleftrightarrow> map_has json ''rid'' \<and> list_all (\<lambda>(k, v). typed_part k v) json"

text \<open>Every value that the server puts into a peer is a scalar of JSON.\<close>

definition json_map :: "qmap \<Rightarrow> bool" where
  "json_map m \<longleftrightarrow> list_all (\<lambda>(k, v). case v of QScalar s \<Rightarrow> json_scalar s | _ \<Rightarrow> False) m"

definition json_hash :: "qmap \<Rightarrow> bool" where
  "json_hash h \<longleftrightarrow> list_all (\<lambda>(k, v). case v of QMap m \<Rightarrow> json_map m | _ \<Rightarrow> False) h"

lemma list_all_set:
  assumes "list_all P m" "P (k, v)"
  shows "list_all P (map_set k v m)"
  using assms by (induction m) auto

lemma json_map_set: "json_map m \<Longrightarrow> json_scalar s \<Longrightarrow> json_map (map_set k (QScalar s) m)"
  unfolding json_map_def by (rule list_all_set) simp_all

lemma json_hash_set: "json_hash h \<Longrightarrow> json_map m \<Longrightarrow> json_hash (map_set k (QMap m) h)"
  unfolding json_hash_def by (rule list_all_set) simp_all

lemma serialize_json: "json_map (serialize_peer v p)"
  unfolding serialize_peer_def Let_def
  by (auto intro!: json_map_set simp: json_scalar_def) (auto simp: json_map_def json_scalar_def)

lemma peers_hash_json: "json_hash (peers_hash v)"
proof -
  have "json_hash h \<Longrightarrow> json_hash (foldl (add_peer v) h ps)" for h ps
    by (induction ps arbitrary: h) (auto simp: add_peer_def json_hash_set serialize_json)
  then show ?thesis by (simp add: peers_hash_def json_hash_def)
qed

lemma processMap_json: "json_map m \<Longrightarrow> json_map sync \<Longrightarrow> json_map (processMap_loop p m sync)"
proof (induction m arbitrary: sync)
  case (Cons e m)
  then obtain k s where "e = (k, QScalar s)" "json_scalar s" "json_map m"
    by (cases e) (auto simp: json_map_def split: qvariant.splits)
  with Cons show ?case by (simp add: json_map_set)
qed simp

lemma processHash_json: "json_hash h \<Longrightarrow> json_hash sync \<Longrightarrow> json_hash (fst (processHash_loop p h sync))"
proof (induction h arbitrary: p sync)
  case (Cons e h)
  then obtain k m where "e = (k, QMap m)" "json_map m" "json_hash h"
    by (cases e) (auto simp: json_hash_def split: qvariant.splits)
  moreover from this have "json_map (processMap_loop q m [])" for q by (intro processMap_json) (simp_all add: json_map_def)
  ultimately show ?case using Cons by (simp add: json_hash_set Let_def)
qed simp

lemma copied_json: "json_hash h \<Longrightarrow> json_hash m \<Longrightarrow> json_hash (foldl (\<lambda>acc (k, v). map_set k v acc) m h)"
proof (induction h arbitrary: m)
  case (Cons e h)
  then obtain k q where "e = (k, QMap q)" "json_map q" "json_hash h"
    by (cases e) (auto simp: json_hash_def split: qvariant.splits)
  with Cons show ?case by (simp add: json_hash_set)
qed simp

lemma json_hash_typed: "json_hash h \<Longrightarrow> typed_part ''peers'' (JObj (json_object h))"
proof (induction h)
  case (Cons e h)
  then obtain k m where e: "e = (k, QMap m)" "json_map m" "json_hash h"
    by (cases e) (auto simp: json_hash_def split: qvariant.splits)
  have "list_all (\<lambda>(x, w). json_scalar w) (json_object m)"
    using e(2) by (auto simp: json_map_def json_object_def list_all_iff split: qvariant.splits)
  with Cons e show ?case by (simp add: typed_part_def json_object_def)
qed (simp add: typed_part_def)

lemma typed_set: "list_all (\<lambda>(k, v). typed_part k (toJson v)) m \<Longrightarrow> typed_part k (toJson v) \<Longrightarrow>
    list_all (\<lambda>(k, v). typed_part k (toJson v)) (map_set k v m)"
  by (rule list_all_set) simp_all

lemma typed_data: "list_all (\<lambda>(k, v). typed_part k (toJson v)) (peers_data v)"
  using json_hash_typed [OF peers_hash_json, of v] by (simp add: peers_data_def typed_part_def)

lemma typed_change: "list_all (\<lambda>(k, v). typed_part k (toJson v)) (processMap base (peers_data v))"
proof -
  define h where "h = peers_hash v"
  have h: "json_hash h" unfolding h_def by (rule peers_hash_json)
  have nil: "json_hash []" by (simp add: json_hash_def)
  define q where "q = toHash (qget base ''peers'')"
  obtain d r where dr: "(if q = [] then (foldl (\<lambda>acc (k, v). map_set k v acc) [] h, []) else processHash_loop q h []) = (d, r)"
    by fastforce
  then have "json_hash d"
    using copied_json [OF h nil] processHash_json [OF h nil, of q] by (auto split: if_splits)
  then have "typed_part ''peers'' (JObj (json_object d))" by (rule json_hash_typed)
  moreover have "typed_part ''peers_removed'' (JArr (map (\<lambda>e. JStr (fst e)) r))"
    by (simp add: typed_part_def list_all_iff split_beta)
  ultimately show ?thesis
    by (auto simp: processMap_def peers_data_def h_def [symmetric] q_def [symmetric] dr Let_def KEY_SUFFIX_REMOVED_def
        comp_def split_beta typed_part_def intro!: typed_set)
qed

text \<open>
  C26: Every answer about the peers has the shape its handler takes it for, whatever the server
  remembers: an id between one and a million, at most a true \<open>full_update\<close>, a boolean
  \<open>show_flags\<close>, peers that are objects of scalars and removed peers that are texts, and no
  other part. What the server remembers next is again of that kind.
\<close>

theorem peers_answer_typed:
  assumes "0 \<le> rid_of_map (lastData m)" "torrentPeersAction (Some v) rid m = Inr (response, m')"
  shows "typed_answer (json_object response) \<and> 0 \<le> rid_of_map (lastData m')"
proof -
  define l where "l = (if 0 < rid then toInt (qget (lastData m) KEY_RESPONSE_ID) else 0)"
  have l: "0 \<le> l" using assms(1) by (simp add: l_def rid_of_map_def)
  then have i: "1 \<le> l mod 1000000 + 1" "l mod 1000000 + 1 \<le> 1000000"
    using pos_mod_bound [of 1000000 l] by simp_all
  then have rid: "typed_part KEY_RESPONSE_ID (toJson (rid_value (l mod 1000000 + 1)))"
    using of_int_le_iff [of "l mod 1000000 + 1" 1000000, where 'a = rat] of_int_le_iff [of 1 "l mod 1000000 + 1", where 'a = rat]
    by (simp add: typed_part_def KEY_RESPONSE_ID_def rid_value_def del: of_int_add)
  have full: "typed_part KEY_FULL_UPDATE (toJson (QScalar (JBool True)))"
    by (simp add: typed_part_def KEY_FULL_UPDATE_def)
  obtain sync acc where "generateSyncData rid (peers_data v) m =
      (map_set KEY_RESPONSE_ID (rid_value (l mod 1000000 + 1)) sync,
       \<lparr>lastAcceptedData = acc, lastData = map_set KEY_RESPONSE_ID (rid_value (l mod 1000000 + 1)) (peers_data v)\<rparr>)"
    and sync: "sync = map_set KEY_FULL_UPDATE (QScalar (JBool True)) (peers_data v) \<or> (\<exists>base. sync = processMap base (peers_data v))"
    using generate_shape unfolding l_def by blast
  then have response: "response = map_set KEY_RESPONSE_ID (rid_value (l mod 1000000 + 1)) sync"
    and last: "lastData m' = map_set KEY_RESPONSE_ID (rid_value (l mod 1000000 + 1)) (peers_data v)"
    using assms(2) by (auto simp: torrentPeersAction_def)
  have "list_all (\<lambda>(k, v). typed_part k (toJson v)) sync"
    using sync typed_set [OF typed_data full] typed_change by auto
  then have "list_all (\<lambda>(k, v). typed_part k (toJson v)) response"
    unfolding response using rid by (rule typed_set)
  then have "list_all (\<lambda>(k, v). typed_part k v) (json_object response)"
    by (auto simp: json_object_def list_all_iff)
  moreover have "map_get (json_object response) ''rid'' \<noteq> None"
    by (simp add: response KEY_RESPONSE_ID_def)
  ultimately show ?thesis using i(1) by (simp add: typed_answer_def map_has_get last)
qed

theorem peers_answer_typed_witness:
  "let (r1, m) = generateSyncData 0 (peers_data (ex_view [ex_peer ''1.1.1.1'' 5])) ex_memory;
       (r2, m) = generateSyncData 1 (peers_data (ex_view [ex_peer ''2.2.2.2'' 6])) m
   in typed_answer (json_object r1) \<and> typed_answer (json_object r2) \<and> map_has (json_object r2) ''peers_removed''"
proof -
  obtain r1 m1 where g1: "generateSyncData 0 (peers_data (ex_view [ex_peer ''1.1.1.1'' 5])) ex_memory = (r1, m1)" by fastforce
  obtain r2 m2 where g2: "generateSyncData 1 (peers_data (ex_view [ex_peer ''2.2.2.2'' 6])) m1 = (r2, m2)" by fastforce
  have "0 \<le> rid_of_map (lastData ex_memory)" by code_simp
  with peers_answer_typed [of ex_memory "ex_view [ex_peer ''1.1.1.1'' 5]" 0 r1 m1] g1
  have t1: "typed_answer (json_object r1)" "0 \<le> rid_of_map (lastData m1)" by (simp_all add: torrentPeersAction_def)
  with peers_answer_typed [of m1 "ex_view [ex_peer ''2.2.2.2'' 6]" 1 r2 m2] g2
  have t2: "typed_answer (json_object r2)" by (simp add: torrentPeersAction_def)
  have "let (r1, m) = generateSyncData 0 (peers_data (ex_view [ex_peer ''1.1.1.1'' 5])) ex_memory;
       (r2, m) = generateSyncData 1 (peers_data (ex_view [ex_peer ''2.2.2.2'' 6])) m
   in map_has (json_object r2) ''peers_removed''" by code_simp
  with t1 t2 show ?thesis by (simp add: g1 g2)
qed

end
