(* ===== verification/MaindataFlow.thy ===== *)
theory MaindataFlow
  imports SyncMaindata SideBar SyncPeers
begin

text \<open>
  The way of a torrent's data from the session over the controller to the table of the page:
  the session changes and sends its signals, the page asks, the controller answers with what
  changed since the last answer, and the page merges the answer.
\<close>

section \<open>Runs\<close>

text \<open>
  What happens to the session, with the signal it sends: a torrent is added or removed, its
  properties change, its trackers answer or are edited, the categories, the tags or the state of
  the session change; and \<open>Polled\<close>, the page asks and merges the answer. Some of the serialized
  properties depend on the trackers (their number, the magnet link, the tracker that answered), so
  the two events of the trackers come with new properties too. \<open>TorrentDrifted\<close> is a change of
  properties that no signal tells, such as of the times that pass.
\<close>

datatype session_event =
    TorrentAdded string torrent_info
  | TorrentRemoved string
  | TorrentChanged string qmap
  | TorrentStopped string qmap "tracker_status list"
  | TrackersAnswered string qmap "tracker_status list"
  | TrackersEdited string qmap "tracker_status list"
  | TorrentDrifted string qmap
  | CategoryAdded string qmap
  | CategoryChanged string qmap
  | CategoryRemoved string
  | TagAdded string
  | TagRemoved string
  | TransferChanged qmap
  | Polled

definition change_torrent :: "string \<Rightarrow> (torrent_info \<Rightarrow> torrent_info) \<Rightarrow> session_view \<Rightarrow> session_view" where
  "change_torrent tid f s =
     (case map_get (torrents s) tid of None \<Rightarrow> s | Some t \<Rightarrow> s\<lparr>torrents := map_set tid (f t) (torrents s)\<rparr>)"

fun session_step :: "session_event \<Rightarrow> session_view \<Rightarrow> session_view" where
  "session_step (TorrentAdded tid t) s = s\<lparr>torrents := map_set tid t (torrents s)\<rparr>"
| "session_step (TorrentRemoved tid) s = s\<lparr>torrents := map_delete tid (torrents s)\<rparr>"
| "session_step (TorrentChanged tid m) s = change_torrent tid (\<lambda>t. t\<lparr>serialized_info := m\<rparr>) s"
| "session_step (TorrentStopped tid m ts) s = change_torrent tid (\<lambda>t. t\<lparr>serialized_info := m, torrent_trackers := ts\<rparr>) s"
| "session_step (TrackersAnswered tid m ts) s = change_torrent tid (\<lambda>t. t\<lparr>serialized_info := m, torrent_trackers := ts\<rparr>) s"
| "session_step (TrackersEdited tid m ts) s = change_torrent tid (\<lambda>t. t\<lparr>serialized_info := m, torrent_trackers := ts\<rparr>) s"
| "session_step (TorrentDrifted tid m) s = change_torrent tid (\<lambda>t. t\<lparr>serialized_info := m\<rparr>) s"
| "session_step (CategoryAdded name m) s = s\<lparr>categoryOptions := map_set name m (categoryOptions s)\<rparr>"
| "session_step (CategoryChanged name m) s = s\<lparr>categoryOptions := map_set name m (categoryOptions s)\<rparr>"
| "session_step (CategoryRemoved name) s = s\<lparr>categoryOptions := map_delete name (categoryOptions s)\<rparr>"
| "session_step (TagAdded tag) s = s\<lparr>session_tags := set_add tag (session_tags s)\<rparr>"
| "session_step (TagRemoved tag) s = s\<lparr>session_tags := set_delete tag (session_tags s)\<rparr>"
| "session_step (TransferChanged m) s = s\<lparr>transferInfo := m\<rparr>"
| "session_step Polled s = s"

text \<open>
  The slots, which are connected at the first request. A torrent is about to be removed while the
  session still has it; all other signals come after the change.
\<close>

fun signal_slot :: "session_event \<Rightarrow> session_view \<Rightarrow> sync_controller \<Rightarrow> sync_controller" where
  "signal_slot (TorrentAdded tid t) s k = onTorrentAdded tid t k"
| "signal_slot (TorrentRemoved tid) s k = onTorrentAboutToBeRemoved tid (session_torrent s tid) k"
| "signal_slot (TorrentChanged tid m) s k = onTorrentUpdated tid k"
| "signal_slot (TorrentStopped tid m ts) s k = onTorrentStopped tid k"
| "signal_slot (TrackersAnswered tid m ts) s k = onTorrentTrackerEntryStatusesUpdated tid k"
| "signal_slot (TrackersEdited tid m ts) s k = onTorrentTrackersChanged tid \<lparr>serialized_info = m, torrent_trackers = ts\<rparr> k"
| "signal_slot (CategoryAdded name m) s k = onCategoryAdded name k"
| "signal_slot (CategoryChanged name m) s k = onCategoryOptionsChanged name k"
| "signal_slot (CategoryRemoved name) s k = onCategoryRemoved name k"
| "signal_slot (TagAdded tag) s k = onTagAdded tag k"
| "signal_slot (TagRemoved tag) s k = onTagRemoved tag k"
| "signal_slot _ s k = k"

type_synonym flow = "session_view \<times> sync_controller \<times> client"

text \<open>The id in the request is the one of the last answer, an integer.\<close>

definition poll ::
  "(client \<Rightarrow> table \<Rightarrow> row list) \<Rightarrow> (string \<Rightarrow> string option) \<Rightarrow> session_view \<Rightarrow> sync_controller \<Rightarrow> client \<Rightarrow> js_error + flow"
where
  "poll fsr urlHostname s k c =
     (case maindataAction s \<lfloor>syncMainDataLastResponseId c\<rfloor> k of
        (answer, k) \<Rightarrow>
          (case merge_response fsr urlHostname answer c of Inl err \<Rightarrow> Inl err | Inr (c, u) \<Rightarrow> Inr (s, k, c)))"

fun flow_step ::
  "(client \<Rightarrow> table \<Rightarrow> row list) \<Rightarrow> (string \<Rightarrow> string option) \<Rightarrow> session_event \<Rightarrow> flow \<Rightarrow> js_error + flow"
where
  "flow_step fsr urlHostname Polled (s, k, c) = poll fsr urlHostname s k c"
| "flow_step fsr urlHostname e (s, k, c) =
     Inr (session_step e s, if maindataAcceptedID k < 0 then k else signal_slot e s k, c)"

lemma flow_step_eq:
  "flow_step fsr urlHostname e (s, k, c) =
     (if e = Polled then poll fsr urlHostname s k c
      else Inr (session_step e s, if maindataAcceptedID k < 0 then k else signal_slot e s k, c))"
  by (cases e) simp_all

fun flow_run ::
  "(client \<Rightarrow> table \<Rightarrow> row list) \<Rightarrow> (string \<Rightarrow> string option) \<Rightarrow> session_event list \<Rightarrow> flow \<Rightarrow> js_error + flow"
where
  "flow_run fsr urlHostname [] st = Inr st"
| "flow_run fsr urlHostname (e # es) st =
     (case flow_step fsr urlHostname e st of Inl err \<Rightarrow> Inl err | Inr st \<Rightarrow> flow_run fsr urlHostname es st)"

section \<open>What the session sends\<close>

definition announce_keys :: "string list" where
  "announce_keys = [''has_tracker_warning'', ''has_tracker_error'', ''has_other_announce_error'']"

definition page_keys :: "string list" where
  "page_keys = [''rowId'', ''hash'', ''status'', ''_statusOrder'']"

text \<open>
  A serialized torrent: single values under the same names \<open>K\<close> for every torrent, among them the
  texts of the category and the tags, and none of the names that the controller or the page add.
\<close>

definition ok_info :: "string list \<Rightarrow> qmap \<Rightarrow> bool" where
  "ok_info K m \<longleftrightarrow> scalar_map m \<and> set (keys m) = insert ''hash'' (set K) \<and>
     (case qget m ''category'' of QScalar (JStr _) \<Rightarrow> True | _ \<Rightarrow> False) \<and>
     (case qget m ''tags'' of QScalar (JStr _) \<Rightarrow> True | _ \<Rightarrow> False)"

definition ok_names :: "string list \<Rightarrow> bool" where
  "ok_names K \<longleftrightarrow> ''category'' \<in> set K \<and> ''tags'' \<in> set K \<and> set K \<inter> set (announce_keys @ page_keys) = {}"

fun ok_event :: "string list \<Rightarrow> session_view \<Rightarrow> session_event \<Rightarrow> bool" where
  "ok_event K s (TorrentAdded tid t) \<longleftrightarrow> \<not> map_has (torrents s) tid \<and> ok_info K (serialized_info t)"
| "ok_event K s (TorrentRemoved tid) \<longleftrightarrow> map_has (torrents s) tid"
| "ok_event K s (TorrentChanged tid m) \<longleftrightarrow> map_has (torrents s) tid \<and> ok_info K m"
| "ok_event K s (TorrentStopped tid m ts) \<longleftrightarrow> map_has (torrents s) tid \<and> ok_info K m"
| "ok_event K s (TrackersAnswered tid m ts) \<longleftrightarrow> map_has (torrents s) tid \<and> ok_info K m"
| "ok_event K s (TrackersEdited tid m ts) \<longleftrightarrow> map_has (torrents s) tid \<and> ok_info K m"
| "ok_event K s (TorrentDrifted tid m) \<longleftrightarrow> map_has (torrents s) tid \<and> ok_info K m"
| "ok_event K s _ \<longleftrightarrow> True"

fun ok_events :: "string list \<Rightarrow> session_view \<Rightarrow> session_event list \<Rightarrow> bool" where
  "ok_events K s [] \<longleftrightarrow> True"
| "ok_events K s (e # es) \<longleftrightarrow> ok_event K s e \<and> ok_events K (session_step e s) es"

definition ok_session :: "string list \<Rightarrow> session_view \<Rightarrow> bool" where
  "ok_session K s \<longleftrightarrow> distinct_keys (torrents s) \<and> (\<forall>(tid, t) \<in> set (torrents s). ok_info K (serialized_info t))"

text \<open>The properties of a torrent as the server knows them, and a row that shows them.\<close>

definition full_value :: "torrent_info \<Rightarrow> qmap" where
  "full_value t = addAnnounceStats (serialize_torrent t) t"

definition shows_value :: "jsobj \<Rightarrow> string \<Rightarrow> qmap \<Rightarrow> bool" where
  "shows_value d tid m \<longleftrightarrow> prop_get d ''hash'' = JStr tid \<and> prop_get d ''rowId'' = JStr tid \<and>
     (\<forall>x. x \<notin> set page_keys \<longrightarrow> no_null (prop_get d x) = no_null (toJson (qget m x)))"

text \<open>A row, or the lack of one, shows the properties of a torrent, or the lack of one.\<close>

definition shows_entry :: "jsobj option \<Rightarrow> string \<Rightarrow> qmap option \<Rightarrow> bool" where
  "shows_entry d tid m \<longleftrightarrow> (case m of None \<Rightarrow> d = None | Some m \<Rightarrow> \<exists>d'. d = Some d' \<and> shows_value d' tid m)"

text \<open>
  What the answers report of the properties: the torrents that were added or signalled as updated
  since the last answer, and for every torrent its properties at the last answer before which it
  was signalled so. The signals of the trackers do not count: the controller then takes over the
  properties it sent before and computes anew only whether there are warnings and errors.
\<close>

type_synonym reports = "string set \<times> (string \<Rightarrow> qmap)"

fun report_step :: "session_event \<Rightarrow> session_view \<Rightarrow> reports \<Rightarrow> reports" where
  "report_step (TorrentAdded tid t) s (P, I) = (insert tid P, I)"
| "report_step (TorrentChanged tid m) s (P, I) = (insert tid P, I)"
| "report_step (TorrentStopped tid m ts) s (P, I) = (insert tid P, I)"
| "report_step (TorrentRemoved tid) s (P, I) = (P - {tid}, I)"
| "report_step Polled s (P, I) = ({}, \<lambda>tid. if tid \<in> P then serialized_info (session_torrent s tid) else I tid)"
| "report_step _ s (P, I) = (P, I)"

fun reports_after :: "session_event list \<Rightarrow> session_view \<Rightarrow> reports \<Rightarrow> reports" where
  "reports_after [] s r = r"
| "reports_after (e # es) s r = reports_after es (session_step e s) (report_step e s r)"

definition first_reports :: "session_view \<Rightarrow> reports" where
  "first_reports s = (set (keys (torrents s)), \<lambda>tid. [])"

text \<open>A torrent with its present trackers and the properties the next answer leaves on the page.\<close>

definition reported :: "session_view \<Rightarrow> reports \<Rightarrow> string \<Rightarrow> torrent_info option" where
  "reported s r tid = map_option (\<lambda>t. if tid \<in> fst r then t else t\<lparr>serialized_info := snd r tid\<rparr>) (map_get (torrents s) tid)"

definition shows_session :: "session_view \<Rightarrow> reports \<Rightarrow> client \<Rightarrow> bool" where
  "shows_session s r c \<longleftrightarrow>
     (\<forall>tid. shows_entry (data_of (torrentsTable c) tid) tid (map_option full_value (reported s r tid)))"

section \<open>The page merges an answer\<close>

text \<open>The lists leave the table and the id alone.\<close>

definition table_and_id :: "client \<Rightarrow> table \<times> rat" where
  "table_and_id c = (torrentsTable c, syncMainDataLastResponseId c)"

lemma foldo_keeps:
  assumes "\<And>c x. table_and_id (f c x) = table_and_id c"
  shows "table_and_id (foldo f xs c) = table_and_id c"
proof -
  have "table_and_id (foldl f c ys) = table_and_id c" for ys
    using assms by (induction ys arbitrary: c) simp_all
  then show ?thesis by (simp add: foldo_def split: option.split)
qed

lemma list_steps_keep:
  "table_and_id (merge_category c x1) = table_and_id c"
  "table_and_id (remove_category c x2) = table_and_id c"
  "table_and_id (merge_tag c x2) = table_and_id c"
  "table_and_id (remove_tag c x2) = table_and_id c"
  "table_and_id (merge_tracker h c x3) = table_and_id c"
  "table_and_id (remove_tracker h c x2) = table_and_id c"
  by (simp_all add: table_and_id_def merge_category_def remove_category_def merge_tag_def remove_tag_def
      merge_tracker_def remove_tracker_def Let_def split_beta split: option.split)

lemma merge_lists_keep:
  "table_and_id (merge_lists fsr h r c) =
     ((if full_update r then clear_table (fsr c) (torrentsTable c) else torrentsTable c),
      (if response_id r \<noteq> 0 then response_id r else syncMainDataLastResponseId c))"
  unfolding merge_lists_def Let_def
  by (simp add: foldo_keeps list_steps_keep) (simp add: table_and_id_def clear_client_def)

lemma category_list_keeps: "table_and_id (fst (removeTorrentFromCategoryList h c)) = table_and_id c"
  by (simp add: removeTorrentFromCategoryList_def table_and_id_def split: option.split)

lemma tag_list_keeps: "table_and_id (fst (removeTorrentFromTagList h c)) = table_and_id c"
  by (simp add: removeTorrentFromTagList_def table_and_id_def split: option.split)

lemma add_category_keeps: "addTorrentToCategoryList h t c = Inr (c', b) \<Longrightarrow> table_and_id c' = table_and_id c"
  using category_list_keeps
  by (auto simp: addTorrentToCategoryList_def Let_def table_and_id_def split: jsval.splits if_splits)

lemma add_tags_keep: "table_and_id (fst (foldl (add_tag h) (c, b) ts)) = table_and_id c"
proof (induction ts arbitrary: c b)
  case (Cons t ts)
  obtain c' b' where "add_tag h (c, b) t = (c', b')" by fastforce
  moreover from this have "table_and_id c' = table_and_id c" by (auto simp: add_tag_def Let_def table_and_id_def)
  ultimately show ?case using Cons [of c' b'] by simp
qed simp

lemma add_tag_list_keeps:
  assumes "addTorrentToTagList h t c = Inr (c', b)"
  shows "table_and_id c' = table_and_id c"
proof -
  have fold: "table_and_id c' = table_and_id c"
    if "foldl (add_tag h) (fst (removeTorrentFromTagList (Some h) c), False) ts = (c', b)" for ts
    using add_tags_keep [of h "fst (removeTorrentFromTagList (Some h) c)" False ts] that tag_list_keeps by simp
  show ?thesis
    using assms tag_list_keeps [of "Some h" c]
    by (auto simp: addTorrentToTagList_def Let_def split: jsval.splits if_splits intro: fold)
qed

text \<open>A torrent whose category and tags are texts or absent is merged without an exception.\<close>

definition texts_or_absent :: "jsobj \<Rightarrow> bool" where
  "texts_or_absent t \<longleftrightarrow> (case prop_get t ''category'' of JUndef \<Rightarrow> True | JStr _ \<Rightarrow> True | _ \<Rightarrow> False)
     \<and> (case prop_get t ''tags'' of JUndef \<Rightarrow> True | JStr _ \<Rightarrow> True | _ \<Rightarrow> False)"

lemma complete_get:
  "x \<notin> set page_keys \<Longrightarrow> map_get (complete_torrent key t) x = map_get t x"
  "map_get (complete_torrent key t) ''hash'' = Some (JStr key)"
  "map_get (complete_torrent key t) ''rowId'' = Some (JStr key)"
  by (simp_all add: complete_torrent_def Let_def page_keys_def)

lemma complete_id [simp]: "data_id (complete_torrent key t) = key"
  by (simp add: data_id_def prop_get_def complete_get)

lemma complete_distinct: "distinct_keys t \<Longrightarrow> distinct_keys (complete_torrent key t)"
  by (auto simp: complete_torrent_def Let_def intro!: distinct_keys_set)

lemma merge_torrent_ok:
  assumes "texts_or_absent t"
  shows "\<exists>c' u'. merge_torrent (key, t) (c, u) = Inr (c', u') \<and>
     table_and_id c' = (updateRowData (complete_torrent key t) (torrentsTable c), syncMainDataLastResponseId c)"
proof -
  let ?t = "complete_torrent key t"
  let ?c = "c\<lparr>torrentsTable := updateRowData ?t (torrentsTable c)\<rparr>"
  have props: "prop_get ?t ''category'' = prop_get t ''category''" "prop_get ?t ''tags'' = prop_get t ''tags''"
    using complete_get(1) [of "''category''" key t] complete_get(1) [of "''tags''" key t]
    by (simp_all add: prop_get_def page_keys_def)
  have "\<exists>y. addTorrentToCategoryList key ?t ?c = Inr y"
    using assms props(1) by (auto simp: texts_or_absent_def addTorrentToCategoryList_def Let_def split: jsval.splits)
  then obtain c1 b1 where 1: "addTorrentToCategoryList key ?t ?c = Inr (c1, b1)" by auto
  have "\<exists>y. addTorrentToTagList key ?t c1 = Inr y"
    using assms props(2) by (auto simp: texts_or_absent_def addTorrentToTagList_def Let_def split: jsval.splits)
  then obtain c2 b2 where 2: "addTorrentToTagList key ?t c1 = Inr (c2, b2)" by auto
  have "table_and_id c2 = table_and_id ?c"
    using add_category_keeps [OF 1] add_tag_list_keeps [OF 2] by simp
  with 1 2 show ?thesis by (simp add: merge_torrent_def Let_def table_and_id_def)
qed

lemma merge_torrents_ok:
  "distinct_keys ts \<Longrightarrow> \<forall>(key, t) \<in> set ts. texts_or_absent t \<Longrightarrow>
     \<exists>c' u'. merge_torrents ts (c, u) = Inr (c', u') \<and> syncMainDataLastResponseId c' = syncMainDataLastResponseId c \<and>
       (\<forall>tid. data_of (torrentsTable c') tid =
          (case map_get ts tid of None \<Rightarrow> data_of (torrentsTable c) tid
           | Some t \<Rightarrow> Some (merge_props (case data_of (torrentsTable c) tid of None \<Rightarrow> [] | Some d \<Rightarrow> d) (complete_torrent tid t))))"
proof (induction ts arbitrary: c u)
  case (Cons e ts)
  obtain key t where e: "e = (key, t)" by (cases e)
  with Cons.prems have t: "texts_or_absent t" and new: "map_get ts key = None" by (auto simp: map_of_eq_None_iff)
  from merge_torrent_ok [OF t] obtain c1 u1 where 1: "merge_torrent (key, t) (c, u) = Inr (c1, u1)"
    and c1: "torrentsTable c1 = updateRowData (complete_torrent key t) (torrentsTable c)"
      "syncMainDataLastResponseId c1 = syncMainDataLastResponseId c"
    by (fastforce simp: table_and_id_def)
  have d1: "data_of (torrentsTable c1) tid =
      (if tid = key then Some (merge_props (case data_of (torrentsTable c) key of None \<Rightarrow> [] | Some d \<Rightarrow> d) (complete_torrent key t))
       else data_of (torrentsTable c) tid)" for tid
    by (simp add: data_of_def c1(1) updateRowData_get split: option.split)
  from Cons.IH [of c1 u1] Cons.prems e obtain c' u' where
    2: "merge_torrents ts (c1, u1) = Inr (c', u')" "syncMainDataLastResponseId c' = syncMainDataLastResponseId c1"
    and d: "\<And>tid. data_of (torrentsTable c') tid =
          (case map_get ts tid of None \<Rightarrow> data_of (torrentsTable c1) tid
           | Some t \<Rightarrow> Some (merge_props (case data_of (torrentsTable c1) tid of None \<Rightarrow> [] | Some d \<Rightarrow> d) (complete_torrent tid t)))"
    by auto
  have "data_of (torrentsTable c') tid =
      (case map_get (e # ts) tid of None \<Rightarrow> data_of (torrentsTable c) tid
       | Some t \<Rightarrow> Some (merge_props (case data_of (torrentsTable c) tid of None \<Rightarrow> [] | Some d \<Rightarrow> d) (complete_torrent tid t)))" for tid
    using new unfolding d d1 e by (cases "tid = key") simp_all
  with 1 2 c1(2) e show ?case by simp
qed simp

lemma remove_torrent_keep: "table_and_id (remove_torrent fsr c h) = (removeRow (fsr c) h (torrentsTable c), syncMainDataLastResponseId c)"
  unfolding remove_torrent_def Let_def tag_list_keeps category_list_keeps by (simp add: table_and_id_def)

lemma remove_torrents_data:
  "data_of (torrentsTable (foldl (remove_torrent fsr) c hs)) tid = (if tid \<in> set hs then None else data_of (torrentsTable c) tid)
   \<and> syncMainDataLastResponseId (foldl (remove_torrent fsr) c hs) = syncMainDataLastResponseId c"
proof (induction hs arbitrary: c)
  case (Cons h hs)
  then show ?case using remove_torrent_keep [of fsr c h] by (simp add: table_and_id_def)
qed simp

text \<open>What an answer does to the data of a torrent.\<close>

definition answered_data :: "sync_response \<Rightarrow> string \<Rightarrow> jsobj option \<Rightarrow> jsobj option" where
  "answered_data r tid old =
     (if tid \<in> set (case torrents_removed r of None \<Rightarrow> [] | Some hs \<Rightarrow> hs) then None
      else let old = (if full_update r then None else old)
           in case map_get (case r_torrents r of None \<Rightarrow> [] | Some ts \<Rightarrow> ts) tid of
                None \<Rightarrow> old
              | Some t \<Rightarrow> Some (merge_props (case old of None \<Rightarrow> [] | Some d \<Rightarrow> d) (complete_torrent tid t)))"

lemma merge_response_data:
  assumes "distinct_keys (case r_torrents r of None \<Rightarrow> [] | Some ts \<Rightarrow> ts)"
    and "\<forall>(key, t) \<in> set (case r_torrents r of None \<Rightarrow> [] | Some ts \<Rightarrow> ts). texts_or_absent t"
    and "response_id r \<noteq> 0"
  shows "\<exists>c' u. merge_response fsr h r c = Inr (c', u) \<and> syncMainDataLastResponseId c' = response_id r \<and>
     (\<forall>tid. data_of (torrentsTable c') tid = answered_data r tid (data_of (torrentsTable c) tid))"
proof -
  let ?c = "merge_lists fsr h r c"
  have c: "torrentsTable ?c = (if full_update r then clear_table (fsr c) (torrentsTable c) else torrentsTable c)"
    "syncMainDataLastResponseId ?c = response_id r"
    using merge_lists_keep [of fsr h r c] assms(3) by (simp_all add: table_and_id_def)
  from merge_torrents_ok [OF assms(1,2), of ?c "list_updates r"] obtain c1 u1 where
    1: "merge_torrents (case r_torrents r of None \<Rightarrow> [] | Some ts \<Rightarrow> ts) (?c, list_updates r) = Inr (c1, u1)"
      "syncMainDataLastResponseId c1 = response_id r"
    and d: "\<And>tid. data_of (torrentsTable c1) tid =
          (case map_get (case r_torrents r of None \<Rightarrow> [] | Some ts \<Rightarrow> ts) tid of None \<Rightarrow> data_of (torrentsTable ?c) tid
           | Some t \<Rightarrow> Some (merge_props (case data_of (torrentsTable ?c) tid of None \<Rightarrow> [] | Some d \<Rightarrow> d) (complete_torrent tid t)))"
    using c(2) by auto
  have base: "data_of (torrentsTable ?c) tid = (if full_update r then None else data_of (torrentsTable c) tid)" for tid
    by (simp add: c(1))
  let ?hs = "case torrents_removed r of None \<Rightarrow> [] | Some hs \<Rightarrow> hs"
  obtain c' u where 2: "merge_removed fsr r (c1, u1) = (c', u)" by fastforce
  then have "c' = foldl (remove_torrent fsr) c1 ?hs" by (auto simp: merge_removed_def split: option.splits)
  with remove_torrents_data [of fsr c1 ?hs] 1(2)
  have rid: "syncMainDataLastResponseId c' = response_id r"
    and c': "data_of (torrentsTable c') tid = (if tid \<in> set ?hs then None else data_of (torrentsTable c1) tid)" for tid
    by simp_all
  have "data_of (torrentsTable c') tid = answered_data r tid (data_of (torrentsTable c) tid)" for tid
    unfolding c' d base answered_data_def Let_def ..
  with 1(1) 2 rid show ?thesis by (simp add: merge_response_def)
qed

section \<open>The signals keep track\<close>

text \<open>What the controller depends on besides the lists: its torrents and its ids.\<close>

definition flow_part where
  "flow_part k = (torrent_part k, maindataLastSentID k, maindataAcceptedID k)"

lemma foldl_keeps: "(\<And>k x. g (f k x) = g k) \<Longrightarrow> g (foldl f k xs) = g k"
  by (induction xs arbitrary: k) simp_all

lemma tracker_steps_keep:
  "flow_part (know_tracker tid k url) = flow_part k"
  "flow_part (forget_tracker tid k url) = flow_part k"
  "flow_part (revise_tracker tid cur k e) = flow_part k"
proof -
  show 1: "flow_part (forget_tracker tid k url) = flow_part k" for url
    by (simp add: forget_tracker_def flow_part_def torrent_part_def Let_def split: option.split)
  show "flow_part (know_tracker tid k url) = flow_part k"
    by (simp add: know_tracker_def flow_part_def torrent_part_def)
  show "flow_part (revise_tracker tid cur k e) = flow_part k"
    using 1 [of "fst e"] by (simp add: revise_tracker_def split_beta) (simp add: flow_part_def torrent_part_def)
qed

lemma list_signals_keep:
  "flow_part (onCategoryAdded name k) = flow_part k" "flow_part (onCategoryRemoved name k) = flow_part k"
  "flow_part (onCategoryOptionsChanged name k) = flow_part k"
  "flow_part (onTagAdded tag k) = flow_part k" "flow_part (onTagRemoved tag k) = flow_part k"
  by (simp_all add: onCategoryAdded_def onCategoryRemoved_def onCategoryOptionsChanged_def onTagAdded_def onTagRemoved_def
      flow_part_def torrent_part_def)

lemma torrent_signals:
  "flow_part (onTorrentAdded tid t k) = flow_part (k\<lparr>updatedTorrents := set_add tid (updatedTorrents k),
     announcedTorrents := set_add tid (announcedTorrents k), removedTorrents := set_delete tid (removedTorrents k)\<rparr>)"
  "flow_part (onTorrentAboutToBeRemoved tid t k) = flow_part (k\<lparr>updatedTorrents := set_delete tid (updatedTorrents k),
     announcedTorrents := set_delete tid (announcedTorrents k), removedTorrents := set_add tid (removedTorrents k)\<rparr>)"
  "flow_part (onTorrentTrackersChanged tid t k) = flow_part (k\<lparr>updatedTorrents := updatedTorrents k,
     announcedTorrents := set_add tid (announcedTorrents k), removedTorrents := removedTorrents k\<rparr>)"
proof -
  show "flow_part (onTorrentAdded tid t k) = flow_part (k\<lparr>updatedTorrents := set_add tid (updatedTorrents k),
     announcedTorrents := set_add tid (announcedTorrents k), removedTorrents := set_delete tid (removedTorrents k)\<rparr>)"
    unfolding onTorrentAdded_def Let_def 
    by (subst foldl_keeps [of flow_part, OF tracker_steps_keep(1)]) (simp add: flow_part_def torrent_part_def)
  show "flow_part (onTorrentAboutToBeRemoved tid t k) = flow_part (k\<lparr>updatedTorrents := set_delete tid (updatedTorrents k),
     announcedTorrents := set_delete tid (announcedTorrents k), removedTorrents := set_add tid (removedTorrents k)\<rparr>)"
    unfolding onTorrentAboutToBeRemoved_def Let_def
    by (subst foldl_keeps [of flow_part, OF tracker_steps_keep(2)]) (simp add: flow_part_def torrent_part_def)
  define cur where "cur = set_of_list (map tracker_url (torrent_trackers t))"
  define k1 where "k1 = foldl (revise_tracker tid cur) k (knownTrackers k)"
  define k2 where "k2 = foldl (\<lambda>k url. if map_has (knownTrackers k) url then k else know_tracker tid k url) k1 cur"
  have "flow_part k1 = flow_part k" unfolding k1_def by (rule foldl_keeps) (rule tracker_steps_keep)
  moreover have "flow_part k2 = flow_part k1" unfolding k2_def by (rule foldl_keeps) (simp add: tracker_steps_keep)
  ultimately have "flow_part k2 = flow_part k" by simp
  then show "flow_part (onTorrentTrackersChanged tid t k) = flow_part (k\<lparr>updatedTorrents := updatedTorrents k,
     announcedTorrents := set_add tid (announcedTorrents k), removedTorrents := removedTorrents k\<rparr>)"
    by (simp add: onTorrentTrackersChanged_def Let_def cur_def [symmetric] k1_def [symmetric] k2_def [symmetric]
        flow_part_def torrent_part_def)
qed

lemma mark_signals:
  "flow_part (onTorrentUpdated tid k) = flow_part (k\<lparr>updatedTorrents := set_add tid (updatedTorrents k),
     announcedTorrents := announcedTorrents k, removedTorrents := removedTorrents k\<rparr>)"
  "flow_part (onTorrentStopped tid k) = flow_part (k\<lparr>updatedTorrents := set_add tid (updatedTorrents k),
     announcedTorrents := set_add tid (announcedTorrents k), removedTorrents := removedTorrents k\<rparr>)"
  "flow_part (onTorrentTrackerEntryStatusesUpdated tid k) = flow_part (k\<lparr>updatedTorrents := updatedTorrents k,
     announcedTorrents := set_add tid (announcedTorrents k), removedTorrents := removedTorrents k\<rparr>)"
  by (simp_all add: onTorrentUpdated_def onTorrentStopped_def onTorrentTrackerEntryStatusesUpdated_def)

section \<open>Values of a torrent\<close>

definition names_of :: "string list \<Rightarrow> string set" where
  "names_of K = set K \<union> set announce_keys"

lemma announce_stats_get:
  "x \<notin> set announce_keys \<Longrightarrow> qget (addAnnounceStats m t) x = qget m x"
  "x \<in> set announce_keys \<Longrightarrow> torrent_trackers t = torrent_trackers t' \<Longrightarrow>
     qget (addAnnounceStats m t) x = qget (addAnnounceStats m' t') x"
  by (auto simp: addAnnounceStats_def Let_def announce_keys_def qget_def split_beta)

lemma announce_stats_map:
  "scalar_map m \<Longrightarrow> scalar_map (addAnnounceStats m t)"
  "set (keys (addAnnounceStats m t)) = set (keys m) \<union> set announce_keys"
  by (auto simp: addAnnounceStats_def Let_def announce_keys_def split_beta intro!: scalar_map_set)

lemma scalar_map_delete:
  assumes "scalar_map m"
  shows "scalar_map (map_delete k m)"
proof -
  have "set (map_delete k m) \<subseteq> set m" by (auto simp: AList.delete_eq)
  then show ?thesis using assms distinct_keys_delete [of m k] unfolding scalar_map_def by blast
qed

lemma serialize_facts:
  assumes "ok_info K (serialized_info t)" "ok_names K"
  shows "scalar_map (serialize_torrent t)" "set (keys (serialize_torrent t)) = set K"
    "x \<in> set K \<Longrightarrow> qget (serialize_torrent t) x = qget (serialized_info t) x"
proof -
  have "''hash'' \<notin> set K" using assms(2) by (auto simp: ok_names_def page_keys_def)
  then show "x \<in> set K \<Longrightarrow> qget (serialize_torrent t) x = qget (serialized_info t) x"
    by (auto simp: serialize_torrent_def qget_def)
  have "set (keys (serialized_info t)) = insert ''hash'' (set K)" using assms(1) by (simp add: ok_info_def)
  then show "set (keys (serialize_torrent t)) = set K"
    unfolding serialize_torrent_def set_keys_delete using \<open>''hash'' \<notin> set K\<close> by auto
  have "scalar_map (serialized_info t)" using assms(1) by (simp add: ok_info_def)
  then show "scalar_map (serialize_torrent t)" unfolding serialize_torrent_def by (rule scalar_map_delete)
qed

lemma full_value_facts:
  assumes "ok_info K (serialized_info t)" "ok_names K"
  shows "scalar_map (full_value t)" "set (keys (full_value t)) = names_of K"
    "\<exists>s. qget (full_value t) ''category'' = QScalar (JStr s)" "\<exists>s. qget (full_value t) ''tags'' = QScalar (JStr s)"
proof -
  note s = serialize_facts [OF assms]
  show "scalar_map (full_value t)" "set (keys (full_value t)) = names_of K"
    unfolding full_value_def announce_stats_map(2) s(2) names_of_def by (simp_all add: announce_stats_map(1) s(1))
  have "qget (full_value t) x = qget (serialized_info t) x" if "x \<in> set K" for x
    using that assms(2) s(3) announce_stats_get(1) [of x "serialize_torrent t" t] by (auto simp: full_value_def ok_names_def)
  then show "\<exists>s. qget (full_value t) ''category'' = QScalar (JStr s)" "\<exists>s. qget (full_value t) ''tags'' = QScalar (JStr s)"
    using assms by (auto simp: ok_info_def ok_names_def split: qvariant.splits jsval.splits)
qed

lemma full_value_cong:
  "x \<in> set announce_keys \<Longrightarrow> torrent_trackers t = torrent_trackers t' \<Longrightarrow> qget (full_value t) x = qget (full_value t') x"
  "x \<notin> set announce_keys \<Longrightarrow> serialized_info t = serialized_info t' \<Longrightarrow> qget (full_value t) x = qget (full_value t') x"
  unfolding full_value_def by (auto simp: announce_stats_get(1) serialize_torrent_def intro: announce_stats_get(2))

lemma qget_absent: "x \<notin> set (keys m) \<Longrightarrow> qget m x = QScalar JNull"
  unfolding qget_def key_in by simp

lemma qget_scalar: "scalar_map m \<Longrightarrow> \<exists>s. qget m x = QScalar s"
  unfolding qget_def scalar_map_def by (auto split: option.splits qvariant.splits dest!: map_of_SomeD)

section \<open>A row after an answer\<close>

definition entry_row :: "jsobj option \<Rightarrow> jsobj" where
  "entry_row d = (case d of None \<Rightarrow> [] | Some d \<Rightarrow> d)"

definition entry_map :: "qmap option \<Rightarrow> qmap" where
  "entry_map m = (case m of None \<Rightarrow> [] | Some m \<Rightarrow> m)"

lemma shows_value_cong: "(\<And>x. qget m x = qget m' x) \<Longrightarrow> shows_value d tid m = shows_value d tid m'"
  by (simp add: shows_value_def)

lemma shows_merged:
  assumes old: "shows_entry d tid m" and change: "scalar_map change"
    "\<And>x. map_get change x = (if qget (entry_map m) x \<noteq> qget v x then Some (qget v x) else None)"
  shows "shows_value (merge_props (entry_row d) (complete_torrent tid (json_object change))) tid v"
proof -
  let ?t = "complete_torrent tid (json_object change)"
  have "distinct_keys ?t"
    using change(1) by (intro complete_distinct) (simp add: scalar_map_def)
  from merge_props_get [OF this, of "entry_row d"]
  have val: "prop_get (merge_props (entry_row d) ?t) x = (case map_get ?t x of None \<Rightarrow> prop_get (entry_row d) x | Some w \<Rightarrow> w)" for x
    by (simp add: prop_get_def split: option.split)
  have row: "no_null (prop_get (entry_row d) x) = no_null (toJson (qget (entry_map m) x))" if "x \<notin> set page_keys" for x
  proof (cases m)
    case None
    with old show ?thesis by (simp add: shows_entry_def entry_row_def entry_map_def prop_get_def qget_def no_null_def)
  next
    case (Some m')
    with old that show ?thesis by (auto simp: shows_entry_def shows_value_def entry_row_def entry_map_def)
  qed
  have "no_null (prop_get (merge_props (entry_row d) ?t) x) = no_null (toJson (qget v x))" if x: "x \<notin> set page_keys" for x
    unfolding val complete_get(1) [OF x] using row [OF x] by (simp add: change(2))
  then show ?thesis
    unfolding shows_value_def by (simp add: val complete_get)
qed

lemma json_entries_get: "map_get (json_entries E) x = map_option json_object (map_get E x)"
  by (induction E) (auto simp: json_entries_def json_object_def)

lemma json_entries_keys: "keys (json_entries E) = keys E"
  by (simp add: json_entries_def split_beta comp_def)

lemma answered_entries:
  assumes "r_torrents r = unless_empty json_entries E" "torrents_removed r = unless_empty id R"
  shows "(case r_torrents r of None \<Rightarrow> [] | Some ts \<Rightarrow> ts) = json_entries E"
    "(case torrents_removed r of None \<Rightarrow> [] | Some hs \<Rightarrow> hs) = R"
  by (simp_all add: assms unless_empty_def json_entries_def)

definition text_value :: "qvariant \<Rightarrow> bool" where
  "text_value v \<longleftrightarrow> (\<exists>s. v = QScalar (JStr s))"

lemma texts_json:
  assumes "\<And>v. map_get m ''category'' = Some v \<Longrightarrow> text_value v" "\<And>v. map_get m ''tags'' = Some v \<Longrightarrow> text_value v"
  shows "texts_or_absent (json_object m)"
  using assms unfolding texts_or_absent_def prop_get_json text_value_def by (fastforce split: option.splits)

lemma merge_answer:
  assumes r: "r_torrents r = unless_empty json_entries E" "torrents_removed r = unless_empty id R" "response_id r \<noteq> 0"
    and E: "distinct_keys E" "\<forall>tid m. map_get E tid = Some m \<longrightarrow> texts_or_absent (json_object m)"
  shows "\<exists>c' u. merge_response fsr h r c = Inr (c', u) \<and> syncMainDataLastResponseId c' = response_id r \<and>
     (\<forall>tid. data_of (torrentsTable c') tid =
        (if tid \<in> set R then None
         else let old = (if full_update r then None else data_of (torrentsTable c) tid)
              in case map_get E tid of None \<Rightarrow> old
                 | Some m \<Rightarrow> Some (merge_props (entry_row old) (complete_torrent tid (json_object m)))))"
proof -
  note e = answered_entries [OF r(1,2)]
  have "texts_or_absent t" if "(key, t) \<in> set (json_entries E)" for key t
  proof -
    from that E(1) have "map_get (json_entries E) key = Some t" by (simp add: json_entries_keys)
    then show ?thesis using E(2) by (auto simp: json_entries_get)
  qed
  then have "\<forall>(key, t) \<in> set (json_entries E). texts_or_absent t" by blast
  from merge_response_data [of r fsr h c, unfolded e, OF _ this r(3)] E(1)
  have "\<exists>c' u. merge_response fsr h r c = Inr (c', u) \<and> syncMainDataLastResponseId c' = response_id r \<and>
     (\<forall>tid. data_of (torrentsTable c') tid = answered_data r tid (data_of (torrentsTable c) tid))"
    by (simp add: json_entries_keys)
  moreover have "answered_data r tid d =
      (if tid \<in> set R then None
       else let old = (if full_update r then None else d)
            in case map_get E tid of None \<Rightarrow> old
               | Some m \<Rightarrow> Some (merge_props (entry_row old) (complete_torrent tid (json_object m))))" for tid d
    unfolding answered_data_def e json_entries_get entry_row_def Let_def by (simp split: option.split)
  ultimately show ?thesis by simp
qed

section \<open>What the controller knows about a torrent\<close>

text \<open>
  The torrent in the session, its entry in the snapshot, and whether the controller has marked it as
  updated, announced or removed.
\<close>

definition tracked :: "string list \<Rightarrow> torrent_info option \<Rightarrow> qmap option \<Rightarrow> bool \<Rightarrow> bool \<Rightarrow> bool \<Rightarrow> bool" where
  "tracked K t m updated announced removed \<longleftrightarrow>
     (case t of
        None \<Rightarrow> \<not> updated \<and> \<not> announced \<and> (m \<noteq> None \<longrightarrow> removed)
      | Some t \<Rightarrow> \<not> removed \<and> (m = None \<longrightarrow> updated \<and> announced)
          \<and> (\<not> updated \<longrightarrow> (\<forall>x. x \<notin> set announce_keys \<longrightarrow> qget (entry_map m) x = qget (full_value t) x))
          \<and> (\<not> announced \<longrightarrow> (\<forall>x \<in> set announce_keys. qget (entry_map m) x = qget (full_value t) x)))"

definition ok_entry :: "string list \<Rightarrow> qmap option \<Rightarrow> bool" where
  "ok_entry K m \<longleftrightarrow> scalar_map (entry_map m) \<and> set (keys (entry_map m)) \<subseteq> names_of K"

text \<open>The value that the controller computes for a torrent it has marked is the present one.\<close>

lemma present_value_correct:
  assumes t: "map_get (torrents s) tid = Some t0" and K: "ok_names K" and info: "ok_info K (serialized_info t)"
    and same: "torrent_trackers t = torrent_trackers t0" "tid \<in> set (updatedTorrents k) \<longrightarrow> t = t0"
    and tr: "tracked K (Some t) (map_get (b_torrents (maindataSnapshot k)) tid) (tid \<in> set (updatedTorrents k))
        (tid \<in> set (announcedTorrents k)) r"
    and entry: "ok_entry K (map_get (b_torrents (maindataSnapshot k)) tid)"
    and mark: "tid \<in> touched k"
  shows "scalar_map (present_value s k tid)"
    and "set (keys (entry_or_empty (b_torrents (maindataSnapshot k)) tid)) \<subseteq> set (keys (present_value s k tid))"
    and "set (keys (present_value s k tid)) \<subseteq> names_of K"
    and "qget (present_value s k tid) x = qget (full_value t) x"
proof -
  define old where "old = entry_or_empty (b_torrents (maindataSnapshot k)) tid"
  have old_map: "entry_map (map_get (b_torrents (maindataSnapshot k)) tid) = old"
    by (simp add: old_def entry_or_empty_def entry_map_def)
  have old: "scalar_map old" "set (keys old) \<subseteq> names_of K" using entry by (simp_all add: ok_entry_def old_map)
  have st: "session_torrent s tid = t0" by (simp add: session_torrent_def t)
  note s = serialize_facts [OF info K]
  note f = full_value_facts [OF info K]
  consider (both) "tid \<in> set (updatedTorrents k)" "tid \<in> set (announcedTorrents k)"
    | (upd) "tid \<in> set (updatedTorrents k)" "tid \<notin> set (announcedTorrents k)"
    | (ann) "tid \<notin> set (updatedTorrents k)"
    by blast
  then have "scalar_map (present_value s k tid) \<and> set (keys old) \<subseteq> set (keys (present_value s k tid)) \<and>
      set (keys (present_value s k tid)) \<subseteq> names_of K \<and> (\<forall>x. qget (present_value s k tid) x = qget (full_value t) x)"
  proof cases
    case both
    with same(2) have "present_value s k tid = full_value t"
      by (simp add: present_value_def Let_def updated_value_def st full_value_def)
    then show ?thesis using f(1) old(2) unfolding f(2) [symmetric] by simp
  next
    case upd
    define v where "v = present_value s k tid"
    obtain a b c where abc: "qget old ''has_other_announce_error'' = QScalar a" "qget old ''has_tracker_error'' = QScalar b"
      "qget old ''has_tracker_warning'' = QScalar c"
      using qget_scalar [OF old(1)] by metis
    have v: "v = map_set ''has_other_announce_error'' (QScalar a) (map_set ''has_tracker_error'' (QScalar b)
        (map_set ''has_tracker_warning'' (QScalar c) (serialize_torrent t)))"
      using upd same(2) by (simp add: v_def present_value_def Let_def updated_value_def st old_def [symmetric] abc)
    have "scalar_map v" unfolding v by (intro scalar_map_set s(1))
    moreover have keys: "set (keys v) = names_of K"
      unfolding v set_keys_set s(2) names_of_def announce_keys_def by auto
    moreover have "qget v x = qget (full_value t) x" for x
    proof (cases "x \<in> set announce_keys")
      case True
      then have "qget v x = qget old x" using abc by (auto simp: v announce_keys_def qget_def [of "map_set _ _ _"])
      with True tr upd(2) show ?thesis by (simp add: tracked_def old_map)
    next
      case False
      then have "qget v x = qget (serialize_torrent t) x" by (simp add: v announce_keys_def qget_def)
      with False show ?thesis by (simp add: full_value_def announce_stats_get(1))
    qed
    ultimately show ?thesis using old(2) unfolding v_def [symmetric] by simp
  next
    case ann
    define v where "v = present_value s k tid"
    have v: "v = addAnnounceStats old t0"
      using ann by (simp add: v_def present_value_def Let_def announced_value_def st old_def [symmetric])
    have keys: "set (keys v) = set (keys old) \<union> set announce_keys" unfolding v by (rule announce_stats_map(2))
    have "scalar_map v" unfolding v by (rule announce_stats_map(1) [OF old(1)])
    moreover have "qget v x = qget (full_value t) x" for x
    proof (cases "x \<in> set announce_keys")
      case True
      then show ?thesis unfolding v full_value_def by (intro announce_stats_get(2)) (simp_all add: same(1))
    next
      case False
      with tr ann have "qget old x = qget (full_value t) x" by (simp add: tracked_def old_map)
      with False show ?thesis by (simp add: v announce_stats_get(1))
    qed
    moreover have "set (keys v) \<subseteq> names_of K" unfolding keys using old(2) by (auto simp: names_of_def)
    ultimately show ?thesis unfolding v_def [symmetric] keys by simp
  qed
  then show "scalar_map (present_value s k tid)"
    "set (keys (entry_or_empty (b_torrents (maindataSnapshot k)) tid)) \<subseteq> set (keys (present_value s k tid))"
    "set (keys (present_value s k tid)) \<subseteq> names_of K" "qget (present_value s k tid) x = qget (full_value t) x"
    by (simp_all add: old_def)
qed

text \<open>What holds between the session, the controller and the page once they are connected.\<close>

definition following :: "string list \<Rightarrow> session_view \<Rightarrow> reports \<Rightarrow> sync_controller \<Rightarrow> client \<Rightarrow> bool" where
  "following K s r k c \<longleftrightarrow>
     set (updatedTorrents k) = fst r \<and> (\<forall>tid t. reported s r tid = Some t \<longrightarrow> ok_info K (serialized_info t)) \<and>
     0 \<le> maindataAcceptedID k \<and> 0 < maindataLastSentID k \<and> syncMainDataLastResponseId c = of_int (maindataLastSentID k) \<and>
     distinct (updatedTorrents k) \<and> distinct (announcedTorrents k) \<and> distinct_keys (b_torrents (maindataSnapshot k)) \<and>
     (\<forall>tid. ok_entry K (map_get (b_torrents (maindataSnapshot k)) tid) \<and>
        shows_entry (data_of (torrentsTable c) tid) tid (map_get (b_torrents (maindataSnapshot k)) tid) \<and>
        tracked K (reported s r tid) (map_get (b_torrents (maindataSnapshot k)) tid)
          (tid \<in> set (updatedTorrents k)) (tid \<in> set (announcedTorrents k)) (tid \<in> set (removedTorrents k)))"

lemma followingD:
  assumes "following K s r k c"
  shows "tracked K (reported s r tid) (map_get (b_torrents (maindataSnapshot k)) tid)
      (tid \<in> set (updatedTorrents k)) (tid \<in> set (announcedTorrents k)) (tid \<in> set (removedTorrents k))"
    "ok_entry K (map_get (b_torrents (maindataSnapshot k)) tid)"
    "shows_entry (data_of (torrentsTable c) tid) tid (map_get (b_torrents (maindataSnapshot k)) tid)"
    "set (updatedTorrents k) = fst r"
    "\<not> maindataAcceptedID k < 0"
    "reported s r tid = Some t \<Longrightarrow> ok_info K (serialized_info t)"
  using assms unfolding following_def by (blast, blast, blast, blast, linarith, blast)

definition not_connected :: "sync_controller \<Rightarrow> bool" where
  "not_connected k \<longleftrightarrow> maindataAcceptedID k < 0 \<and> maindataLastSentID k = 0 \<and> updatedTorrents k = [] \<and>
     announcedTorrents k = [] \<and> removedTorrents k = []"

definition good_session :: "string list \<Rightarrow> session_view \<Rightarrow> bool" where
  "good_session K s \<longleftrightarrow> distinct_keys (torrents s) \<and>
     (\<forall>tid t. map_get (torrents s) tid = Some t \<longrightarrow> ok_info K (serialized_info t))"

lemma full_entries_get:
  "map_get (map (\<lambda>(tid, t). (tid, full_value t)) ts) tid = map_option full_value (map_get ts tid)"
  by (induction ts) auto

lemma full_entries_keys: "keys (map (\<lambda>(tid, t). (tid, full_value t)) ts) = keys ts"
  by (induction ts) auto

lemma reported_poll: "reported s (report_step Polled s r) = reported s r"
  by (cases r) (auto simp: reported_def session_torrent_def fun_eq_iff intro: map_option_cong)

lemma reported_poll_first: "fst (report_step Polled s r) = {}"
  by (cases r) simp

text \<open>Until the first request every torrent counts as unreported.\<close>

definition unreported :: "session_view \<Rightarrow> reports \<Rightarrow> bool" where
  "unreported s r \<longleftrightarrow> (\<forall>tid. map_get (torrents s) tid \<noteq> None \<longrightarrow> tid \<in> fst r)"

lemma reported_all: "unreported s r \<Longrightarrow> reported s r tid = map_get (torrents s) tid"
  by (cases "map_get (torrents s) tid") (auto simp: reported_def unreported_def)

lemma unreported_first: "unreported s (first_reports s)"
  unfolding unreported_def first_reports_def fst_conv key_in [symmetric] by blast

lemma reported_SomeD:
  assumes "reported s r tid = Some t"
  shows "\<exists>t0. map_get (torrents s) tid = Some t0 \<and> torrent_trackers t = torrent_trackers t0 \<and> (tid \<in> fst r \<longrightarrow> t = t0)"
  using assms by (auto simp: reported_def)

text \<open>After the first answer the page and the snapshot have what the session has.\<close>

lemma first_poll:
  assumes s: "good_session K s" and new: "not_connected k" and K: "ok_names K" and all: "unreported s r"
  shows "\<exists>k' c'. flow_step fsr h Polled (s, k, c) = Inr (s, k', c') \<and> following K s (report_step Polled s r) k' c'
     \<and> shows_session s (report_step Polled s r) c'"
proof -
  obtain answer k' where action: "maindataAction s \<lfloor>syncMainDataLastResponseId c\<rfloor> k = (answer, k')" by fastforce
  have k: "maindataAcceptedID k < 0" "maindataLastSentID k = 0" "updatedTorrents k = []" "announcedTorrents k = []"
      "removedTorrents k = []"
    and ok: "\<And>tid t. map_get (torrents s) tid = Some t \<Longrightarrow> ok_info K (serialized_info t)"
    and dist: "distinct_keys (torrents s)"
    using s new by (simp_all add: good_session_def not_connected_def)
  note a = action_first [OF k action, folded full_value_def]
  let ?E = "map (\<lambda>(tid, t). (tid, full_value t)) (torrents s)"
  have removed: "torrents_removed answer = unless_empty id []" by (simp add: a(4) unless_empty_def)
  have texts: "texts_or_absent (json_object m)" if m: "map_get ?E tid = Some m" for tid m
  proof -
    obtain t where t: "map_get (torrents s) tid = Some t" "m = full_value t" using m by (auto simp: full_entries_get)
    have "text_value (qget m ''category'')" "text_value (qget m ''tags'')"
      using full_value_facts(3,4) [OF ok [OF t(1)] K] by (auto simp: t(2) text_value_def)
    then show ?thesis by (intro texts_json) (simp_all add: qget_def)
  qed
  have rid: "response_id answer \<noteq> 0" and E: "distinct_keys ?E"
    "\<forall>tid m. map_get ?E tid = Some m \<longrightarrow> texts_or_absent (json_object m)"
    using a(2) dist texts by (simp_all add: full_entries_keys del: map_map)
  from merge_answer [OF a(3) removed rid E, where fsr = fsr and h = h and c = c] obtain c' u where
    c': "merge_response fsr h answer c = Inr (c', u)" "syncMainDataLastResponseId c' = 1"
    and data: "\<And>tid. data_of (torrentsTable c') tid =
        (case map_get ?E tid of None \<Rightarrow> None
         | Some m \<Rightarrow> Some (merge_props (entry_row None) (complete_torrent tid (json_object m))))"
    unfolding a(1,2) by (auto simp: Let_def)
  have shown: "shows_entry (data_of (torrentsTable c') tid) tid (map_get ?E tid)" for tid
  proof (cases "map_get (torrents s) tid")
    case None
    then show ?thesis by (simp add: data full_entries_get shows_entry_def)
  next
    case (Some t)
    note f = full_value_facts [OF ok [OF Some] K]
    have "distinct_keys (complete_torrent tid (json_object (full_value t)))"
      using f(1) by (intro complete_distinct) (simp add: scalar_map_def)
    from merge_props_get [OF this, of "entry_row None"]
    have "shows_value (merge_props (entry_row None) (complete_torrent tid (json_object (full_value t)))) tid (full_value t)"
      by (simp add: shows_value_def prop_get_def complete_get entry_row_def qget_def no_null_def split: option.split)
    with Some show ?thesis by (simp add: data full_entries_get shows_entry_def)
  qed
  have tracked: "tracked K (map_get (torrents s) tid) (map_get ?E tid) False False False" for tid
    by (simp add: tracked_def full_entries_get entry_map_def split: option.split)
  have entry: "ok_entry K (map_get ?E tid)" for tid
  proof (cases "map_get (torrents s) tid")
    case (Some t)
    note f = full_value_facts [OF ok [OF Some] K]
    from Some f(1) show ?thesis unfolding ok_entry_def full_entries_get by (simp add: entry_map_def f(2) [unfolded set_map])
  qed (simp add: ok_entry_def full_entries_get entry_map_def scalar_map_def)
  have "flow_step fsr h Polled (s, k, c) = Inr (s, k', c')"
    by (simp add: poll_def action c'(1))
  moreover have "following K s (report_step Polled s r) k' c'"
    unfolding following_def a(5,7-10) c'(2) full_entries_keys reported_poll reported_poll_first reported_all [OF all]
    using a(6) dist ok by (simp add: entry shown tracked)
  moreover have "shows_session s (report_step Polled s r) c'"
    unfolding shows_session_def reported_poll reported_all [OF all] using shown by (simp add: full_entries_get)
  ultimately show ?thesis by blast
qed

text \<open>
  One torrent over an answer: \<open>change\<close> is sent unless it is empty, \<open>m\<close> and \<open>m'\<close> are the entries of
  the snapshot before and after.
\<close>

lemma followed_torrent:
  assumes K: "ok_names K" and f: "following K s r k c"
  defines "snap \<equiv> b_torrents (maindataSnapshot k)"
  defines "change tid \<equiv> torrent_change s k tid"
  defines "sent tid \<equiv> tid \<in> touched k \<and> change tid \<noteq> []"
  defines "after tid \<equiv> (if tid \<in> set (removedTorrents k) then None
       else if tid \<in> touched k then Some (if change tid = [] then entry_or_empty snap tid else present_value s k tid)
       else map_get snap tid)"
  defines "d tid \<equiv> data_of (torrentsTable c) tid"
  shows "sent tid \<Longrightarrow> tid \<notin> set (removedTorrents k) \<and> texts_or_absent (json_object (change tid)) \<and> scalar_map (change tid)"
    and "ok_entry K (after tid) \<and> tracked K (reported s r tid) (after tid) False False False"
    and "shows_entry (if tid \<in> set (removedTorrents k) then None
       else if sent tid then Some (merge_props (entry_row (d tid)) (complete_torrent tid (json_object (change tid)))) else d tid)
       tid (after tid)"
proof -
  let ?m = "map_get snap tid"
  have ok: "ok_entry K ?m" and shown: "shows_entry (d tid) tid ?m"
    and tr: "tracked K (reported s r tid) ?m (tid \<in> set (updatedTorrents k)) (tid \<in> set (announcedTorrents k)) (tid \<in> set (removedTorrents k))"
    and upd: "set (updatedTorrents k) = fst r"
    unfolding snap_def d_def using followingD(1-4) [OF f] by blast+
  have old: "entry_or_empty snap tid = entry_map ?m" by (simp add: entry_or_empty_def entry_map_def)
  have *: "(sent tid \<longrightarrow> tid \<notin> set (removedTorrents k) \<and> texts_or_absent (json_object (change tid)) \<and> scalar_map (change tid))
    \<and> ok_entry K (after tid) \<and> tracked K (reported s r tid) (after tid) False False False
    \<and> shows_entry (if tid \<in> set (removedTorrents k) then None
       else if sent tid then Some (merge_props (entry_row (d tid)) (complete_torrent tid (json_object (change tid)))) else d tid)
       tid (after tid)"
  proof (cases "reported s r tid")
    case None
    with tr have t: "tid \<notin> touched k" "?m \<noteq> None \<longrightarrow> tid \<in> set (removedTorrents k)"
      by (simp_all add: tracked_def touched_def)
    then have "after tid = None" by (auto simp: after_def)
    with None t shown show ?thesis
      by (auto simp: sent_def tracked_def shows_entry_def ok_entry_def entry_map_def scalar_map_def split: option.splits)
  next
    case (Some t)
    have info: "ok_info K (serialized_info t)" using f Some by (simp add: following_def)
    obtain t0 where t0: "map_get (torrents s) tid = Some t0" "torrent_trackers t = torrent_trackers t0"
      "tid \<in> set (updatedTorrents k) \<longrightarrow> t = t0"
      using reported_SomeD [OF Some] upd by blast
    note full = full_value_facts [OF info K]
    have r': "tid \<notin> set (removedTorrents k)" using tr Some by (simp add: tracked_def)
    show ?thesis
    proof (cases "tid \<in> touched k")
      case False
      with tr Some have "\<And>x. qget (entry_map ?m) x = qget (full_value t) x" "?m \<noteq> None"
        by (auto simp: tracked_def touched_def)
      with False r' ok shown Some show ?thesis by (simp add: sent_def after_def tracked_def)
    next
      case True
      note p = present_value_correct [OF t0(1) K info t0(2,3) tr [unfolded Some snap_def] ok [unfolded snap_def] True, folded snap_def]
      define v where "v = present_value s k tid"
      have ch: "change tid = processMap (entry_map ?m) v"
        by (simp add: change_def torrent_change_def v_def snap_def [symmetric] old)
      have v: "scalar_map v" "set (keys (entry_map ?m)) \<subseteq> set (keys v)" "set (keys v) \<subseteq> names_of K"
        "\<And>x. qget v x = qget (full_value t) x"
        using p by (simp_all add: v_def old [symmetric])
      have change: "map_get (change tid) x = (if qget (entry_map ?m) x \<noteq> qget v x then Some (qget v x) else None)" for x
        unfolding ch by (rule processMap_change [OF v(1,2)])
      have scalar: "scalar_map (change tid)" unfolding ch by (rule processMap_scalar_map [OF v(1)])
      have txts: "text_value (qget v ''category'')" "text_value (qget v ''tags'')"
        using full(3,4) by (simp_all add: v(4) text_value_def)
      have texts: "texts_or_absent (json_object (change tid))"
        using txts by (intro texts_json) (simp_all add: change split: if_splits)
      have same: "qget (entry_map ?m) x = qget v x" if "change tid = []" for x
        using change [of x] that by (simp split: if_splits)
      have present: "?m \<noteq> None" if "change tid = []"
        using same [OF that, of "''category''"] txts(1) by (auto simp: entry_map_def qget_def text_value_def split: option.splits)
      show ?thesis
      proof (cases "change tid = []")
        case True
        then have after: "after tid = ?m" using r' \<open>tid \<in> touched k\<close> present old by (auto simp: after_def entry_map_def)
        have "tracked K (Some t) ?m False False False" using same [OF True] present [OF True] by (simp add: tracked_def v(4))
        with True r' ok shown Some show ?thesis unfolding after by (simp add: sent_def)
      next
        case False
        then have after: "after tid = Some v" using r' \<open>tid \<in> touched k\<close> by (simp add: after_def v_def)
        have "shows_value (merge_props (entry_row (d tid)) (complete_torrent tid (json_object (change tid)))) tid v"
          using shown scalar change by (rule shows_merged)
        moreover have "ok_entry K (Some v)" using v by (simp add: ok_entry_def entry_map_def)
        moreover have "tracked K (Some t) (Some v) False False False" by (simp add: tracked_def entry_map_def v(4))
        ultimately show ?thesis
          using False r' \<open>tid \<in> touched k\<close> texts scalar Some unfolding after by (simp add: sent_def shows_entry_def)
      qed
    qed
  qed
  from * show "sent tid \<Longrightarrow> tid \<notin> set (removedTorrents k) \<and> texts_or_absent (json_object (change tid)) \<and> scalar_map (change tid)"
    by blast
  from * show "ok_entry K (after tid) \<and> tracked K (reported s r tid) (after tid) False False False" by blast
  from * show "shows_entry (if tid \<in> set (removedTorrents k) then None
       else if sent tid then Some (merge_props (entry_row (d tid)) (complete_torrent tid (json_object (change tid)))) else d tid)
       tid (after tid)" by blast
qed

lemma tracked_shows:
  assumes "shows_entry d tid m" "tracked K t m False False False"
  shows "shows_entry d tid (map_option full_value t)"
proof (cases t)
  case None
  with assms show ?thesis by (simp add: tracked_def)
next
  case (Some t')
  with assms(2) obtain m' where m: "m = Some m'" by (auto simp: tracked_def)
  have "qget m' x = qget (full_value t') x" for x
    using assms(2) Some m by (cases "x \<in> set announce_keys") (simp_all add: tracked_def entry_map_def)
  with shows_value_cong [of m' "full_value t'"] show ?thesis using assms(1) Some m by (simp add: shows_entry_def)
qed

lemma next_poll:
  assumes K: "ok_names K" and f: "following K s r k c"
  shows "\<exists>k' c'. flow_step fsr h Polled (s, k, c) = Inr (s, k', c') \<and> following K s (report_step Polled s r) k' c'
     \<and> shows_session s (report_step Polled s r) c'"
proof -
  have i: "0 \<le> maindataAcceptedID k" "0 < maindataLastSentID k" "syncMainDataLastResponseId c = of_int (maindataLastSentID k)"
    and dist: "distinct (updatedTorrents k)" "distinct (announcedTorrents k)" "distinct_keys (b_torrents (maindataSnapshot k))"
    using f by (simp_all add: following_def)
  obtain answer k' where action: "maindataAction s (maindataLastSentID k) k = (answer, k')" by fastforce
  note a = action_accepted [OF i(2,1) action]
  define k0 where "k0 = k\<lparr>maindataSyncBuf := empty_buf\<rparr>"
  define E where "E = b_torrents (maindataSyncBuf (update_torrents s k0))"
  let ?sent = "\<lambda>tid. tid \<in> touched k \<and> torrent_change s k tid \<noteq> []"
  have k0: "b_torrents (maindataSnapshot k0) = b_torrents (maindataSnapshot k)" "b_torrents (maindataSyncBuf k0) = []"
    "updatedTorrents k0 = updatedTorrents k" "announcedTorrents k0 = announcedTorrents k" "removedTorrents k0 = removedTorrents k"
    "touched k0 = touched k" "torrent_change s k0 = torrent_change s k" "present_value s k0 = present_value s k"
    by (simp_all add: k0_def empty_buf_def touched_def torrent_change_def present_value_def Let_def fun_eq_iff)
  note u = update_torrents_get [of k0 s, unfolded k0, OF dist(1,2)]
  have E: "map_get E tid = (if ?sent tid then Some (torrent_change s k tid) else None)" for tid
    unfolding E_def u(2) by simp
  have dE: "distinct_keys E" "distinct_keys (b_torrents (maindataSnapshot (update_torrents s k0)))"
    using update_torrents_distinct [of k0 s] dist(3) by (simp_all add: E_def k0)
  note ft = followed_torrent [OF K f]
  have r: "r_torrents answer = unless_empty json_entries E" "torrents_removed answer = unless_empty id (removedTorrents k)"
    "response_id answer \<noteq> 0"
    using a(2,3,4) i(2) by (simp_all add: E_def k0_def)
  have texts: "\<forall>tid m. map_get E tid = Some m \<longrightarrow> texts_or_absent (json_object m)"
    using ft(1) by (auto simp: E)
  from merge_answer [OF r dE(1) texts, where fsr = fsr and h = h and c = c] obtain c' u where
    c': "merge_response fsr h answer c = Inr (c', u)" "syncMainDataLastResponseId c' = response_id answer"
    and data: "\<And>tid. data_of (torrentsTable c') tid =
        (if tid \<in> set (removedTorrents k) then None
         else case map_get E tid of None \<Rightarrow> data_of (torrentsTable c) tid
            | Some m \<Rightarrow> Some (merge_props (entry_row (data_of (torrentsTable c) tid)) (complete_torrent tid (json_object m))))"
    unfolding a(1) by (auto simp: Let_def)
  have data': "data_of (torrentsTable c') tid =
      (if tid \<in> set (removedTorrents k) then None
       else if ?sent tid
       then Some (merge_props (entry_row (data_of (torrentsTable c) tid)) (complete_torrent tid (json_object (torrent_change s k tid))))
       else data_of (torrentsTable c) tid)" for tid
    unfolding data E by (simp split: if_splits)
  have snap: "b_torrents (maindataSnapshot k') = b_torrents (maindataSnapshot (update_torrents s k0))"
    unfolding a(7) k0_def ..
  have shown: "shows_entry (data_of (torrentsTable c') tid) tid (map_get (b_torrents (maindataSnapshot k')) tid)" for tid
    unfolding data' snap u(1) by (rule ft(3))
  have entry: "ok_entry K (map_get (b_torrents (maindataSnapshot k')) tid)"
    and tracked: "tracked K (reported s r tid) (map_get (b_torrents (maindataSnapshot k')) tid) False False False" for tid
    using ft(2) [of tid] unfolding snap u(1) by simp_all
  have "flow_step fsr h Polled (s, k, c) = Inr (s, k', c')"
    using i(3) by (simp add: poll_def action c'(1))
  moreover have "\<And>tid t. reported s r tid = Some t \<Longrightarrow> ok_info K (serialized_info t)" using f by (simp add: following_def)
  then have "following K s (report_step Polled s r) k' c'"
    unfolding following_def a(5,8-10) c'(2) a(2) reported_poll reported_poll_first
    using a(6) i(2) dE(2) by (simp add: snap [symmetric] entry shown tracked)
  moreover have "shows_session s (report_step Polled s r) c'"
    unfolding shows_session_def reported_poll using tracked_shows [OF shown tracked] by blast
  ultimately show ?thesis by blast
qed

section \<open>Signals\<close>

lemma following_torrents:
  assumes f: "following K s r k c"
    and part: "flow_part k' = flow_part (k\<lparr>updatedTorrents := u, announcedTorrents := a, removedTorrents := d\<rparr>)"
    and dist: "distinct u" "distinct a" and u: "set u = fst r'"
    and other: "\<And>x. x \<noteq> tid \<Longrightarrow> reported s' r' x = reported s r x \<and> (x \<in> set u \<longleftrightarrow> x \<in> set (updatedTorrents k))
        \<and> (x \<in> set a \<longleftrightarrow> x \<in> set (announcedTorrents k)) \<and> (x \<in> set d \<longleftrightarrow> x \<in> set (removedTorrents k))"
    and info: "\<And>t. reported s' r' tid = Some t \<Longrightarrow> ok_info K (serialized_info t)"
    and this': "\<And>m. tracked K (reported s r tid) m (tid \<in> set (updatedTorrents k)) (tid \<in> set (announcedTorrents k)) (tid \<in> set (removedTorrents k))
        \<Longrightarrow> tracked K (reported s' r' tid) m (tid \<in> set u) (tid \<in> set a) (tid \<in> set d)"
  shows "following K s' r' k' c"
proof -
  let ?snap = "b_torrents (maindataSnapshot k)"
  have k': "maindataAcceptedID k' = maindataAcceptedID k" "maindataLastSentID k' = maindataLastSentID k"
    "b_torrents (maindataSnapshot k') = ?snap" "updatedTorrents k' = u" "announcedTorrents k' = a" "removedTorrents k' = d"
    using part by (simp_all add: flow_part_def torrent_part_def)
  have "tracked K (reported s' r' x) (map_get ?snap x) (x \<in> set u) (x \<in> set a) (x \<in> set d)" for x
  proof (cases "x = tid")
    case True
    then show ?thesis using this' [OF followingD(1) [OF f]] by simp
  next
    case False
    then show ?thesis using other [OF False] followingD(1) [OF f, of x] by simp
  qed
  moreover have "ok_info K (serialized_info t)" if "reported s' r' x = Some t" for x t
    using that info other [of x] f by (cases "x = tid") (auto simp: following_def)
  ultimately show ?thesis using f dist u unfolding following_def k' by simp
qed

lemma following_lists:
  assumes "following K s r k c" "flow_part k' = flow_part k" "torrents s' = torrents s"
  shows "following K s' r k' c"
  using assms by (auto simp: following_def flow_part_def torrent_part_def reported_def)

lemma tracked_cong:
  assumes "tracked K (Some t) m u a r"
    and "u \<longrightarrow> u'" "a \<longrightarrow> a'" "serialized_info t' \<noteq> serialized_info t \<longrightarrow> u'" "torrent_trackers t' \<noteq> torrent_trackers t \<longrightarrow> a'"
  shows "tracked K (Some t') m u' a' r"
  using assms full_value_cong [of _ t t'] by (auto simp: tracked_def)

lemma changed_torrent:
  "map_get (torrents s) tid = Some t \<Longrightarrow> map_get (torrents (change_torrent tid f s)) x = (if x = tid then Some (f t) else map_get (torrents s) x)"
  by (simp add: change_torrent_def)

lemma good_change:
  assumes "good_session K s" "map_get (torrents s) tid = Some t" "ok_info K (serialized_info (f t))"
  shows "good_session K (change_torrent tid f s)"
  using assms by (auto simp: good_session_def change_torrent_def)

lemma event_torrent:
  "map_has (torrents s) tid \<Longrightarrow> \<exists>t. map_get (torrents s) tid = Some t"
  by (auto simp: map_has_get)

lemma session_step_good:
  assumes "good_session K s" "ok_event K s e"
  shows "good_session K (session_step e s)"
proof (cases e)
  case (TorrentAdded tid t)
  with assms show ?thesis by (auto simp: good_session_def)
next
  case (TorrentRemoved tid)
  with assms show ?thesis by (auto simp: good_session_def)
qed (use assms in \<open>auto simp: good_change dest!: event_torrent\<close>, (simp add: good_session_def)+)

lemma reported_changed:
  assumes "map_get (torrents s) tid = Some t"
  shows "reported (change_torrent tid f s) r x = (if x = tid
     then Some (if tid \<in> fst r then f t else (f t)\<lparr>serialized_info := snd r tid\<rparr>) else reported s r x)"
  by (simp add: reported_def changed_torrent [OF assms])

lemma reported_insert:
  "x \<noteq> tid \<Longrightarrow> reported s (insert tid P, I) x = reported s (P, I) x"
  "reported s (insert tid P, I) tid = map_get (torrents s) tid"
  by (cases "map_get (torrents s) x", simp_all add: reported_def) (cases "map_get (torrents s) tid", simp_all)

text \<open>A torrent that changes is marked as updated or announced, or the change is not reported.\<close>

lemma change_follows:
  assumes f: "following K s (P, I) k c" and t: "map_get (torrents s) tid = Some t"
    and part: "flow_part k' = flow_part (k\<lparr>updatedTorrents := u, announcedTorrents := a, removedTorrents := removedTorrents k\<rparr>)"
    and u: "u = (if updated then set_add tid (updatedTorrents k) else updatedTorrents k)"
    and a: "a = (if announced then set_add tid (announcedTorrents k) else announcedTorrents k)"
    and g: "ok_info K (serialized_info (g t))" "\<not> announced \<Longrightarrow> torrent_trackers (g t) = torrent_trackers t"
  shows "following K (change_torrent tid g s) (if updated then insert tid P else P, I) k' c"
proof (rule following_torrents [OF f part, where tid = tid])
  let ?r = "(if updated then insert tid P else P, I)"
  have P: "set (updatedTorrents k) = P" using f by (simp add: following_def)
  show "distinct u" "distinct a" using f by (simp_all add: u a following_def)
  show "set u = fst ?r" by (simp add: u P)
  have new: "reported (change_torrent tid g s) ?r tid = Some (if tid \<in> fst ?r then g t else (g t)\<lparr>serialized_info := I tid\<rparr>)"
    and old: "reported s (P, I) tid = Some (if tid \<in> P then t else t\<lparr>serialized_info := I tid\<rparr>)"
    using reported_changed [OF t, of g ?r tid] t by (simp_all add: reported_def del: map_option_eq_Some)
  have info: "ok_info K (I tid)" if "tid \<notin> P"
    using followingD(6) [OF f old] that by simp
  show "reported (change_torrent tid g s) ?r x = reported s (P, I) x \<and> (x \<in> set u \<longleftrightarrow> x \<in> set (updatedTorrents k))
      \<and> (x \<in> set a \<longleftrightarrow> x \<in> set (announcedTorrents k)) \<and> (x \<in> set (removedTorrents k) \<longleftrightarrow> x \<in> set (removedTorrents k))"
    if "x \<noteq> tid" for x
    using that by (simp add: u a reported_changed [OF t] reported_insert)
  show "ok_info K (serialized_info t')" if "reported (change_torrent tid g s) ?r tid = Some t'" for t'
    using that unfolding new using info g(1) by (auto split: if_splits)
  show "tracked K (reported (change_torrent tid g s) ?r tid) m (tid \<in> set u) (tid \<in> set a) (tid \<in> set (removedTorrents k))"
    if "tracked K (reported s (P, I) tid) m (tid \<in> set (updatedTorrents k)) (tid \<in> set (announcedTorrents k)) (tid \<in> set (removedTorrents k))" for m
    using that unfolding new old by (rule tracked_cong) (auto simp: u a P g(2))
qed

lemma signal_follows:
  assumes f: "following K s (P, I) k c" and e: "ok_event K s e" "e \<noteq> Polled"
  shows "following K (session_step e s) (report_step e s (P, I)) (signal_slot e s k) c"
proof -
  have dist: "distinct (updatedTorrents k)" "distinct (announcedTorrents k)" and P: "set (updatedTorrents k) = P"
    using f by (simp_all add: following_def)
  show ?thesis
  proof (cases e)
    case (TorrentAdded tid t)
    with e(1) have t: "ok_info K (serialized_info t)" by simp
    show ?thesis
      unfolding TorrentAdded signal_slot.simps report_step.simps
      by (rule following_torrents [OF f torrent_signals(1), where tid = tid])
        (simp_all add: dist P t tracked_def reported_def cong: if_cong)
  next
    case (TorrentRemoved tid)
    show ?thesis
      unfolding TorrentRemoved signal_slot.simps report_step.simps
      by (rule following_torrents [OF f torrent_signals(2), where tid = tid])
        (simp_all add: dist P tracked_def reported_def distinct_set_delete cong: if_cong)
  next
    case (TorrentChanged tid m)
    with e obtain t where "map_get (torrents s) tid = Some t" "ok_info K m" by (auto dest!: event_torrent)
    from change_follows [OF f this(1) mark_signals(1), where updated = True and announced = False] this(2) show ?thesis
      unfolding TorrentChanged by simp
  next
    case (TorrentStopped tid m ts)
    with e obtain t where "map_get (torrents s) tid = Some t" "ok_info K m" by (auto dest!: event_torrent)
    from change_follows [OF f this(1) mark_signals(2), where updated = True and announced = True] this(2) show ?thesis
      unfolding TorrentStopped by simp
  next
    case (TrackersAnswered tid m ts)
    with e obtain t where "map_get (torrents s) tid = Some t" "ok_info K m" by (auto dest!: event_torrent)
    from change_follows [OF f this(1) mark_signals(3), where updated = False and announced = True] this(2) show ?thesis
      unfolding TrackersAnswered by simp
  next
    case (TrackersEdited tid m ts)
    with e obtain t where "map_get (torrents s) tid = Some t" "ok_info K m" by (auto dest!: event_torrent)
    from change_follows [OF f this(1) torrent_signals(3), where updated = False and announced = True] this(2) show ?thesis
      unfolding TrackersEdited by simp
  next
    case (TorrentDrifted tid m)
    with e obtain t where "map_get (torrents s) tid = Some t" "ok_info K m" by (auto dest!: event_torrent)
    from change_follows [OF f this(1), where k' = k and updated = False and announced = False] this(2) show ?thesis
      unfolding TorrentDrifted by simp
  qed (use f e(2) in \<open>auto intro!: following_lists [OF f] simp: list_signals_keep\<close>)
qed

lemma all_unreported:
  assumes "unreported s (P, I)" "e \<noteq> Polled"
  shows "unreported (session_step e s) (report_step e s (P, I))"
proof -
  have change: "unreported (change_torrent tid f s) (P, I)" for tid f
    using assms(1) by (auto simp: unreported_def change_torrent_def split: option.split)
  have more: "unreported s' (P, I) \<Longrightarrow> unreported s' (insert tid P, I)" for s' tid
    by (simp add: unreported_def)
  show ?thesis
    using assms change more by (cases e) (auto simp: unreported_def)
qed

section \<open>The page follows the session\<close>

lemma ok_session_good: "ok_session K s \<Longrightarrow> good_session K s"
  by (auto simp: ok_session_def good_session_def dest!: map_of_SomeD)

lemma flow_runs:
  assumes K: "ok_names K"
  shows "good_session K s \<Longrightarrow> ok_events K s es \<Longrightarrow> (not_connected k \<and> unreported s r) \<or> following K s r k c \<Longrightarrow>
    \<exists>k' c'. flow_run fsr h es (s, k, c) = Inr (fold session_step es s, k', c') \<and> good_session K (fold session_step es s)
      \<and> ((not_connected k' \<and> unreported (fold session_step es s) (reports_after es s r))
         \<or> following K (fold session_step es s) (reports_after es s r) k' c')"
proof (induction es arbitrary: s r k c)
  case (Cons e es)
  have e: "ok_event K s e" and es: "ok_events K (session_step e s) es" using Cons.prems by simp_all
  have s: "good_session K (session_step e s)" by (rule session_step_good [OF Cons.prems(1) e])
  obtain P I where r: "r = (P, I)" by fastforce
  have "\<exists>k1 c1. flow_step fsr h e (s, k, c) = Inr (session_step e s, k1, c1)
      \<and> ((not_connected k1 \<and> unreported (session_step e s) (report_step e s r))
         \<or> following K (session_step e s) (report_step e s r) k1 c1)"
  proof (cases "e = Polled")
    case True
    with Cons.prems(1,3) first_poll [OF _ _ K, of s k r fsr h c] next_poll [OF K, of s r k c fsr h]
    show ?thesis by (auto simp del: report_step.simps)
  next
    case False
    show ?thesis
    proof (cases "not_connected k \<and> unreported s r")
      case True
      with False all_unreported [OF _ False, of s P I] show ?thesis by (simp add: flow_step_eq not_connected_def r)
    next
      case no: False
      with Cons.prems(3) have f: "following K s (P, I) k c" unfolding r by blast
      with signal_follows [OF f e False] followingD(5) [OF f] False show ?thesis
        unfolding r flow_step_eq by (simp del: report_step.simps)
    qed
  qed
  then obtain k1 c1 where 1: "flow_step fsr h e (s, k, c) = Inr (session_step e s, k1, c1)"
    and k1: "(not_connected k1 \<and> unreported (session_step e s) (report_step e s r))
         \<or> following K (session_step e s) (report_step e s r) k1 c1" by blast
  from Cons.IH [OF s es k1] 1 show ?case by simp
qed simp

lemma flow_run_append:
  "flow_run fsr h (es @ fs) st = (case flow_run fsr h es st of Inl e \<Rightarrow> Inl e | Inr st \<Rightarrow> flow_run fsr h fs st)"
  by (induction es arbitrary: st) (simp_all split: sum.split)

lemma reports_append: "reports_after (es @ [e]) s r = report_step e (fold session_step es s) (reports_after es s r)"
  by (induction es arbitrary: s r) simp_all


definition ex_info :: "string \<Rightarrow> rat \<Rightarrow> tracker_status list \<Rightarrow> torrent_info" where
  "ex_info cat speed ts = \<lparr>serialized_info = [(''hash'', QScalar (JStr ''x'')), (''category'', QScalar (JStr cat)),
     (''tags'', QScalar (JStr [])), (''state'', QScalar (JStr ''downloading'')), (''dlspeed'', QScalar (JNum speed))],
     torrent_trackers = ts\<rparr>"

definition ex_session :: session_view where
  "ex_session = \<lparr>torrents = [(''a'', ex_info ''c'' 1 [])], categoryOptions = [], session_tags = [], transferInfo = [],
     isQueueingSystemEnabled = False, isAltGlobalSpeedLimitEnabled = False, refreshInterval = 1500\<rparr>"

definition ex_names :: "string list" where
  "ex_names = [''category'', ''tags'', ''state'', ''dlspeed'']"

definition ex_session_events :: "session_event list" where
  "ex_session_events = [Polled, TorrentAdded ''b'' (ex_info [] 2 []), Polled,
     TorrentChanged ''a'' (serialized_info (ex_info ''d'' 3 [])),
     TrackersAnswered ''b'' (serialized_info (ex_info [] 5 [])) [\<lparr>tracker_url = ''u'', tracker_state = TrackerError, endpoints = []\<rparr>],
     Polled, Polled, TorrentRemoved ''a'']"


text \<open>
  The trackers of a torrent are edited and the page asks: the controller takes its old snapshot over,
  so the page is not told the new number of trackers. The next update of the torrent tells it.
\<close>

definition with_trackers_count :: "rat \<Rightarrow> qmap" where
  "with_trackers_count n = map_set ''trackers_count'' (QScalar (JNum n)) (serialized_info (ex_info ''c'' 1 []))"

definition counted_session :: session_view where
  "counted_session = ex_session\<lparr>torrents := [(''a'', \<lparr>serialized_info = with_trackers_count 0, torrent_trackers = []\<rparr>)]\<rparr>"

definition shown_counts :: "js_error + flow \<Rightarrow> jsval list" where
  "shown_counts st = (case st of Inl _ \<Rightarrow> [] | Inr (s, k, c) \<Rightarrow>
     map (\<lambda>(k, r). prop_get (full_data r) ''trackers_count'') (rows (torrentsTable c)))"

definition edit_trackers :: "session_event list" where
  "edit_trackers = [Polled, TrackersEdited ''a'' (with_trackers_count 1) [\<lparr>tracker_url = ''u'', tracker_state = Working, endpoints = []\<rparr>], Polled]"

lemma edited_trackers_stay_old:
  "shown_counts (flow_run (\<lambda>_ _. []) (\<lambda>_. None) edit_trackers (counted_session, new_controller, ex_client)) = [JNum 0]"
  "shown_counts (flow_run (\<lambda>_ _. []) (\<lambda>_. None) (edit_trackers @ [TorrentChanged ''a'' (with_trackers_count 1), Polled])
     (counted_session, new_controller, ex_client)) = [JNum 1]"
  by code_simp+

section \<open>Lost answers\<close>

text \<open>
  C37: A change that the client has not accepted yet is dropped when the same torrent changes
  again: the entry of the buffer is replaced by the difference to the snapshot, which already has
  the first change, so the next answer to the same id holds the second change only.
\<close>

theorem lost_change_dropped:
  assumes "0 < maindataAcceptedID k" "0 < maindataLastSentID k" "maindataLastSentID k \<noteq> maindataAcceptedID k"
    and "distinct (updatedTorrents k)" "distinct (announcedTorrents k)"
    and "tid \<in> touched k" "torrent_change s k tid \<noteq> []"
    and lost: "map_get (b_torrents (maindataSyncBuf k)) tid = Some change"
    and action: "maindataAction s (maindataAcceptedID k) k = (answer, k')"
  shows "full_update answer = False
    \<and> (\<exists>ts. r_torrents answer = Some ts \<and> map_get ts tid = Some (json_object (torrent_change s k tid)))"
proof -
  have a: "answer = answer_of (maindataLastSentID k mod 1000000 + 1) False (maindataSyncBuf (all_updates s k))"
    using action assms(1,2,3) by (auto simp: maindataAction_def generate_unfold Let_def)
  have "b_torrents (maindataSyncBuf (all_updates s k)) = b_torrents (maindataSyncBuf (update_torrents s k))"
    using all_updates_torrents [of s k] by (simp add: torrent_part_def)
  then have "map_get (b_torrents (maindataSyncBuf (all_updates s k))) tid = Some (torrent_change s k tid)"
    using update_torrents_get(2) [OF assms(4,5), of s tid] assms(6,7) by simp
  then show ?thesis
    by (auto simp: a answer_of_def unless_empty_def json_entries_get)
qed

text \<open>
  A torrent is added and the answer with it is lost; then its speed changes. The answer to the
  repeated request has the speed only, the page makes a row of it, and drawing the tags throws.
\<close>

definition lost_start :: "sync_controller \<times> client" where
  "lost_start = (case maindataAction (ex_session\<lparr>torrents := []\<rparr>) 0 new_controller of
     (answer, k) \<Rightarrow> (k, case merge_response (\<lambda>_ _. []) (\<lambda>_. None) answer ex_client of Inr (c, u) \<Rightarrow> c | Inl e \<Rightarrow> ex_client))"

definition lost_answer :: "sync_response \<times> sync_controller" where
  "lost_answer = maindataAction ex_session 1 (onTorrentAdded ''a'' (ex_info ''c'' 1 []) (fst lost_start))"

definition after_lost :: "session_view \<times> sync_controller" where
  "after_lost = (ex_session\<lparr>torrents := [(''a'', ex_info ''c'' 2 [])]\<rparr>, onTorrentUpdated ''a'' (snd lost_answer))"

theorem lost_change_dropped_witness:
  "\<exists>ts. r_torrents (fst (maindataAction (fst after_lost) 1 (snd after_lost))) = Some ts
     \<and> map_get ts ''a'' = Some [(''dlspeed'', JNum 2)]"
proof -
  obtain answer k' where action: "maindataAction (fst after_lost) (maindataAcceptedID (snd after_lost)) (snd after_lost) = (answer, k')"
    by fastforce
  have k: "0 < maindataAcceptedID (snd after_lost)" "0 < maindataLastSentID (snd after_lost)"
    "maindataLastSentID (snd after_lost) \<noteq> maindataAcceptedID (snd after_lost)" "distinct (updatedTorrents (snd after_lost))"
    "distinct (announcedTorrents (snd after_lost))" "torrent_change (fst after_lost) (snd after_lost) ''a'' \<noteq> []"
    by code_simp+
  have t: "''a'' \<in> touched (snd after_lost)" unfolding touched_def by code_simp
  have b: "\<exists>change. map_get (b_torrents (maindataSyncBuf (snd after_lost))) ''a'' = Some change"
    unfolding not_None_eq [symmetric] by code_simp
  have v: "json_object (torrent_change (fst after_lost) (snd after_lost) ''a'') = [(''dlspeed'', JNum 2)]"
    "maindataAcceptedID (snd after_lost) = 1" by code_simp+
  from b obtain change where "map_get (b_torrents (maindataSyncBuf (snd after_lost))) ''a'' = Some change" ..
  from lost_change_dropped [OF k(1-5) t k(6) this action] action v show ?thesis by simp
qed

lemma lost_answer_stops_page:
  "(case merge_response (\<lambda>_ _. []) (\<lambda>_. None) (fst (maindataAction (fst after_lost) 1 (snd after_lost))) (snd lost_start) of
      Inr (c, u) \<Rightarrow> updateTagList compare_units c | Inl e \<Rightarrow> Inl e) = Inl TypeError"
  by code_simp

end
