(* ===== verification/SearchServer.thy ===== *)
theory SearchServer
  imports JsString
begin

text \<open>
  The server's side of the search page: the text that the search process prints
  (\<open>novaprinter.py\<close>), the reader that turns it into results (\<open>searchhandler.cpp\<close> with
  \<open>splitToViews\<close> of \<open>bytearray.cpp\<close>), and the actions of \<open>searchcontroller.cpp\<close> on the running
  searches. Byte arrays are strings; the texts are valid UTF-8.
\<close>

section \<open>Splitting byte arrays\<close>

text \<open>
  \<open>splitToViews\<close> for a separator of one byte: the loop over the rest of the array from \<open>head\<close>. A
  separator at the very end leaves \<open>head\<close> at the size, which gives one more empty part.
\<close>

function views_loop :: "char \<Rightarrow> bool \<Rightarrow> string \<Rightarrow> string list" where
  "views_loop sep keepEmpty s =
     (if s = [] then []
      else let part = takeWhile (\<lambda>c. c \<noteq> sep) s;
               rest = drop (length part) s;
               parts = (if part \<noteq> [] \<or> keepEmpty then [part] else [])
           in if rest = [] then parts
              else if tl rest = [] then parts @ (if keepEmpty then [[]] else [])
              else parts @ views_loop sep keepEmpty (tl rest))"
  by pat_completeness auto
termination
  by (relation "measure (\<lambda>(sep, k, s). length s)") auto

declare views_loop.simps [simp del]

definition splitToViews :: "char \<Rightarrow> bool \<Rightarrow> string \<Rightarrow> string list" where
  "splitToViews sep keepEmpty s = (if s = [] then (if keepEmpty then [[]] else []) else views_loop sep keepEmpty s)"

lemma js_split_char_Cons:
  "js_split [c] (x # s) =
     (if x = c then [] # js_split [c] s else (x # hd (js_split [c] s)) # tl (js_split [c] s))"
proof -
  have acc: "split_go [c] acc s = (rev acc @ hd (split_go [c] [] s)) # tl (split_go [c] [] s)" for acc s
  proof (induction s arbitrary: acc)
    case (Cons y s)
    show ?case using Cons [of "y # acc"] Cons [of "[y]"] by (simp add: split_go_Cons)
  qed simp
  show ?thesis using acc [of "[x]" s] by (simp add: js_split_def split_go_Cons)
qed

lemma js_split_empty [simp]: "js_split sep [] = [[]]"
  by (simp add: js_split_def)

lemma js_split_char_span:
  "js_split [c] s =
     (case drop (length (takeWhile (\<lambda>x. x \<noteq> c) s)) s of
        [] \<Rightarrow> [s] | y # r \<Rightarrow> takeWhile (\<lambda>x. x \<noteq> c) s # js_split [c] r)"
  by (induction s) (auto simp: js_split_char_Cons split: list.splits)

lemma views_loop_split:
  "s \<noteq> [] \<Longrightarrow> views_loop sep k s = (if k then js_split [sep] s else filter (\<lambda>p. p \<noteq> []) (js_split [sep] s))"
proof (induction sep k s rule: views_loop.induct)
  case (1 sep k s)
  define part where "part = takeWhile (\<lambda>c. c \<noteq> sep) s"
  show ?case
  proof (cases "drop (length part) s")
    case Nil
    then have "part = s" unfolding part_def by (metis append_Nil2 append_take_drop_id takeWhile_eq_take)
    with Nil 1(2) show ?thesis
      by (subst views_loop.simps) (simp add: Let_def part_def [symmetric] js_split_char_span)
  next
    case (Cons y r)
    have split: "js_split [sep] s = part # js_split [sep] r"
      using Cons by (simp add: js_split_char_span [of sep s] part_def)
    show ?thesis
      using 1(1) [OF 1(2) refl refl refl] Cons 1(2)
      by (subst views_loop.simps) (auto simp: Let_def part_def [symmetric] split)
  qed
qed

lemma splitToViews_split:
  "splitToViews sep k s = (if k then js_split [sep] s else filter (\<lambda>p. p \<noteq> []) (js_split [sep] s))"
  by (cases s) (simp_all add: splitToViews_def views_loop_split)

section \<open>The output of the search process\<close>

text \<open>
  A result of an engine as the printer gets it; the size is already a number of bytes. The
  description link and the date are optional.
\<close>

record engine_result =
  er_link :: string
  er_name :: string
  er_size :: int
  er_seeds :: int
  er_leech :: int
  er_engine_url :: string
  er_desc_link :: "string option"
  er_pub_date :: "int option"

definition prettyPrinter :: "engine_result \<Rightarrow> string" where
  "prettyPrinter d =
     js_join ''|''
      [er_link d, map (\<lambda>c. if c = CHR ''|'' then CHR '' '' else c) (er_name d), int_str (er_size d), int_str (er_seeds d),
       int_str (er_leech d), er_engine_url d, (case er_desc_link d of None \<Rightarrow> [] | Some l \<Rightarrow> l),
       int_str (case er_pub_date d of None \<Rightarrow> -1 | Some t \<Rightarrow> t)]"

section \<open>Reading results\<close>

record search_result =
  res_fileName :: string
  res_fileUrl :: string
  res_fileSize :: int
  res_nbSeeders :: int
  res_nbLeechers :: int
  res_engineName :: string
  res_siteUrl :: string
  res_descrLink :: string
  res_pubDate :: "int option"

text \<open>\<open>toLongLong\<close>: a decimal number of 64 bits; \<open>None\<close> where it sets \<open>ok\<close> to false and returns 0.\<close>

definition digits_number :: "string \<Rightarrow> int option" where
  "digits_number s = (if s \<noteq> [] \<and> list_all is_digit s then Some (int (digits_val s)) else None)"

definition signed_number :: "string \<Rightarrow> int option" where
  "signed_number s =
     (case s of
        [] \<Rightarrow> None
      | c # r \<Rightarrow> if c = CHR ''-'' then map_option uminus (digits_number r)
                else if c = CHR ''+'' then digits_number r else digits_number s)"

definition toLongLong :: "string \<Rightarrow> int option" where
  "toLongLong s = (case signed_number s of None \<Rightarrow> None
     | Some i \<Rightarrow> if - (2 ^ 63) \<le> i \<and> i < 2 ^ 63 then Some i else None)"

definition count_or_unknown :: "string \<Rightarrow> int" where
  "count_or_unknown s = (case toLongLong s of None \<Rightarrow> -1 | Some n \<Rightarrow> if n < 0 then -1 else n)"

text \<open>The columns of a line; everything after the engine's address is optional.\<close>

definition parseSearchResult :: "(string \<Rightarrow> string) \<Rightarrow> string \<Rightarrow> search_result option" where
  "parseSearchResult pluginNameBySiteURL line =
     (let parts = map js_trim (splitToViews (CHR ''|'') False line);
          nbFields = length parts
      in if nbFields \<le> 5 then None
         else Some \<lparr>res_fileName = parts ! 1, res_fileUrl = parts ! 0,
            res_fileSize = (case toLongLong (parts ! 2) of None \<Rightarrow> 0 | Some n \<Rightarrow> n),
            res_nbSeeders = count_or_unknown (parts ! 3), res_nbLeechers = count_or_unknown (parts ! 4),
            res_engineName = pluginNameBySiteURL (parts ! 5), res_siteUrl = parts ! 5,
            res_descrLink = (if 6 < nbFields then parts ! 6 else []),
            res_pubDate = (if 7 < nbFields
              then (case toLongLong (parts ! 7) of None \<Rightarrow> None | Some secs \<Rightarrow> if 0 < secs then Some secs else None)
              else None)\<rparr>)"

record search_handler =
  sh_pattern :: string
  sh_category :: string
  sh_plugins :: "string list"
  sh_running :: bool
  sh_cancelled :: bool
  sh_truncated :: string
  sh_results :: "search_result list"

definition readSearchOutput :: "(string \<Rightarrow> string) \<Rightarrow> string \<Rightarrow> search_handler \<Rightarrow> search_handler" where
  "readSearchOutput pluginNameBySiteURL out h =
     (let output = sh_truncated h @ out;
          lines = splitToViews (CHR 10) True output
      in h\<lparr>sh_truncated := js_trim (last lines),
           sh_results := sh_results h @ List.map_filter (parseSearchResult pluginNameBySiteURL) (butlast lines)\<rparr>)"

definition cancelSearch :: "search_handler \<Rightarrow> search_handler" where
  "cancelSearch h = (if \<not> sh_running h \<or> sh_cancelled h then h else h\<lparr>sh_cancelled := True\<rparr>)"

section \<open>Running searches\<close>

text \<open>
  The controller's searches. The process of a search is started by the next pass of the event
  loop, before another request is read, so a new search counts as running.
\<close>

record search_controller =
  searchHandlers :: "(int, search_handler) jsmap"
  activeSearches :: "int list"

datatype search_api_error = SearchNotFound | SearchConflict

definition MAX_CONCURRENT_SEARCHES :: nat where
  "MAX_CONCURRENT_SEARCHES = 5"

text \<open>Random numbers are drawn until one names no search; \<open>None\<close> when none of the draws does.\<close>

fun generateSearchId :: "int list \<Rightarrow> (int, search_handler) jsmap \<Rightarrow> int option" where
  "generateSearchId [] handlers = None"
| "generateSearchId (i # draws) handlers =
     (if \<not> map_has handlers i then Some i else generateSearchId draws handlers)"

definition plugins_to_use :: "string list \<Rightarrow> string list \<Rightarrow> string \<Rightarrow> string list" where
  "plugins_to_use allPlugins enabledPlugins param =
     (let plugins = js_split ''|'' param in
      case plugins of
        [p] \<Rightarrow> (let pluginsLower = toLowerCase p in
                if pluginsLower = ''all'' then allPlugins
                else if pluginsLower = ''enabled'' \<or> pluginsLower = ''multi'' then enabledPlugins else [p])
      | _ \<Rightarrow> plugins)"

definition new_handler :: "string \<Rightarrow> string \<Rightarrow> string list \<Rightarrow> search_handler" where
  "new_handler pattern category plugins =
     \<lparr>sh_pattern = pattern, sh_category = category, sh_plugins = plugins, sh_running = True, sh_cancelled = False,
      sh_truncated = [], sh_results = []\<rparr>"

definition startAction ::
  "bool \<Rightarrow> string list \<Rightarrow> string list \<Rightarrow> int list \<Rightarrow> string \<Rightarrow> string \<Rightarrow> string \<Rightarrow> search_controller
     \<Rightarrow> (search_api_error + int \<times> search_controller) option"
where
  "startAction pythonValid allPlugins enabledPlugins draws pattern category plugins s =
     (if \<not> pythonValid then Some (Inl SearchConflict)
      else let pluginsToUse = plugins_to_use allPlugins enabledPlugins plugins in
        if MAX_CONCURRENT_SEARCHES \<le> length (activeSearches s) then Some (Inl SearchConflict)
        else map_option
          (\<lambda>i. Inr (i, \<lparr>searchHandlers = map_set i (new_handler (js_trim pattern) (js_trim category) pluginsToUse) (searchHandlers s),
                         activeSearches = set_add i (activeSearches s)\<rparr>))
          (generateSearchId draws (searchHandlers s)))"

definition stopAction :: "int \<Rightarrow> search_controller \<Rightarrow> search_api_error + search_controller" where
  "stopAction i s =
     (case map_get (searchHandlers s) i of
        None \<Rightarrow> Inl SearchNotFound
      | Some h \<Rightarrow>
          Inr (if sh_running h
               then \<lparr>searchHandlers = map_set i (cancelSearch h) (searchHandlers s),
                     activeSearches = set_delete i (activeSearches s)\<rparr>
               else s))"

definition statusAction :: "int \<Rightarrow> search_controller \<Rightarrow> search_api_error + (int \<times> string \<times> nat) list" where
  "statusAction i s =
     (if i \<noteq> 0 \<and> \<not> map_has (searchHandlers s) i then Inl SearchNotFound
      else Inr (List.map_filter
            (\<lambda>j. map_option (\<lambda>h. (j, if sh_running h then ''Running'' else ''Stopped'', length (sh_results h)))
                   (map_get (searchHandlers s) j))
            (if i = 0 then keys (searchHandlers s) else [i])))"

record results_answer =
  ra_status :: string
  ra_results :: "search_result list"
  ra_total :: nat

definition getResults :: "search_result list \<Rightarrow> bool \<Rightarrow> nat \<Rightarrow> results_answer" where
  "getResults rs isSearchActive totalResults =
     \<lparr>ra_status = (if isSearchActive then ''Running'' else ''Stopped''), ra_results = rs, ra_total = totalResults\<rparr>"

text \<open>\<open>QList::mid\<close>, a negative length taking everything to the end.\<close>

definition list_mid :: "nat \<Rightarrow> int \<Rightarrow> 'a list \<Rightarrow> 'a list" where
  "list_mid pos len xs = (if len < 0 then drop pos xs else take (nat len) (drop pos xs))"

definition resultsAction :: "int \<Rightarrow> int \<Rightarrow> int \<Rightarrow> search_controller \<Rightarrow> search_api_error + results_answer" where
  "resultsAction i limit offset s =
     (case map_get (searchHandlers s) i of
        None \<Rightarrow> Inl SearchNotFound
      | Some h \<Rightarrow>
          (let searchResults = sh_results h;
               size = int (length searchResults) in
           if size < offset then Inl SearchConflict
           else let offset = (if offset < 0 then size + offset else offset) in
             if offset < 0 then Inl SearchConflict
             else let limit = (if limit \<le> 0 then -1 else limit) in
               Inr (getResults (if 0 < limit \<or> 0 < offset then list_mid (nat offset) limit searchResults else searchResults)
                      (sh_running h) (length searchResults))))"

definition deleteAction :: "int \<Rightarrow> search_controller \<Rightarrow> search_api_error + search_controller" where
  "deleteAction i s =
     (if map_has (searchHandlers s) i
      then Inr \<lparr>searchHandlers = map_delete i (searchHandlers s), activeSearches = set_delete i (activeSearches s)\<rparr>
      else Inl SearchNotFound)"

text \<open>
  What the process of a search does: it prints as long as it runs, or it ends; whichever signal the
  end emits, the search is not active any more. Three minutes after its start it is cancelled.
\<close>

definition on_handler :: "int \<Rightarrow> (search_handler \<Rightarrow> search_handler) \<Rightarrow> search_controller \<Rightarrow> search_controller" where
  "on_handler i f s =
     (case map_get (searchHandlers s) i of None \<Rightarrow> s | Some h \<Rightarrow> s\<lparr>searchHandlers := map_set i (f h) (searchHandlers s)\<rparr>)"

definition processFinished :: "int \<Rightarrow> search_controller \<Rightarrow> search_controller" where
  "processFinished i s =
     (case map_get (searchHandlers s) i of
        None \<Rightarrow> s
      | Some h \<Rightarrow> \<lparr>searchHandlers = map_set i (h\<lparr>sh_running := False\<rparr>) (searchHandlers s),
                  activeSearches = set_delete i (activeSearches s)\<rparr>)"

datatype server_event =
    StartRequest bool "string list" "string list" "int list" string string string
  | StopRequest int
  | DeleteRequest int
  | ProcessPrinted int string
  | ProcessEnded int
  | SearchTimeout int

fun server_step :: "(string \<Rightarrow> string) \<Rightarrow> server_event \<Rightarrow> search_controller \<Rightarrow> search_controller" where
  "server_step names (StartRequest py allPlugins enabledPlugins draws pattern category plugins) s =
     (case startAction py allPlugins enabledPlugins draws pattern category plugins s of Some (Inr (_, s)) \<Rightarrow> s | _ \<Rightarrow> s)"
| "server_step names (StopRequest i) s = (case stopAction i s of Inl e \<Rightarrow> s | Inr s \<Rightarrow> s)"
| "server_step names (DeleteRequest i) s = (case deleteAction i s of Inl e \<Rightarrow> s | Inr s \<Rightarrow> s)"
| "server_step names (ProcessPrinted i out) s = on_handler i (\<lambda>h. if sh_running h then readSearchOutput names out h else h) s"
| "server_step names (ProcessEnded i) s = processFinished i s"
| "server_step names (SearchTimeout i) s = on_handler i cancelSearch s"

section \<open>Properties of the reader\<close>

lemma js_trim_id:
  assumes "s = [] \<or> (\<not> is_space (hd s) \<and> \<not> is_space (last s))"
  shows "js_trim s = s"
proof -
  have "dropWhile is_space s = s" "dropWhile is_space (rev s) = rev s"
    using assms by (auto simp: dropWhile_eq_self_iff hd_rev)
  then show ?thesis by (simp add: js_trim_def)
qed

lemma digit_not_space: "is_digit c \<Longrightarrow> \<not> is_space c"
  by (auto simp: is_digit_def is_space_def Let_def)

lemma nat_str_ends:
  "\<not> is_space (hd (nat_str n))" "\<not> is_space (last (nat_str n))"
  using nat_str_digits [of _ n] digit_not_space nat_str_nonempty [of n] by (meson hd_in_set last_in_set)+

lemma int_str_nonempty [simp]: "int_str i \<noteq> []"
  by (simp add: int_str_def)

lemma int_str_trim [simp]: "js_trim (int_str i) = int_str i"
proof (rule js_trim_id)
  have "\<not> is_space (CHR ''-'')" by code_simp
  then show "int_str i = [] \<or> \<not> is_space (hd (int_str i)) \<and> \<not> is_space (last (int_str i))"
    using nat_str_ends by (simp add: int_str_def)
qed

lemma int_str_chars: "c \<in> set (int_str i) \<Longrightarrow> c = CHR ''-'' \<or> is_digit c"
  using nat_str_digits by (auto simp: int_str_def split: if_splits)

lemma int_str_free [simp]: "CHR ''|'' \<notin> set (int_str i)" "CHR 10 \<notin> set (int_str i)"
proof -
  have "\<not> is_digit (CHR ''|'')" "\<not> is_digit (CHR 10)" by code_simp+
  then show "CHR ''|'' \<notin> set (int_str i)" "CHR 10 \<notin> set (int_str i)" using int_str_chars by fastforce+
qed

lemma toLongLong_int_str:
  assumes "- (2 ^ 63) \<le> i" "i < 2 ^ 63"
  shows "toLongLong (int_str i) = Some i"
proof -
  have num: "digits_number (nat_str n) = Some (int n)" for n
    using nat_str_digits by (auto simp: digits_number_def list_all_iff)
  have "\<not> is_digit (CHR ''-'')" "\<not> is_digit (CHR ''+'')" by code_simp+
  then have head: "hd (nat_str n) \<noteq> CHR ''-''" "hd (nat_str n) \<noteq> CHR ''+''" for n
    using nat_str_digits [of "hd (nat_str n)" n] hd_in_set [OF nat_str_nonempty [of n]] by auto
  have "signed_number (nat_str n) = Some (int n)" for n
    using head [of n] num [of n] nat_str_nonempty [of n] by (cases "nat_str n") (auto simp: signed_number_def)
  then have "signed_number (int_str i) = Some i"
    by (cases "i < 0") (simp_all add: int_str_def signed_number_def num)
  with assms show ?thesis by (simp add: toLongLong_def)
qed

text \<open>
  What the printer can be given: no separators in the fields, the fields that are not optional not
  empty, numbers of 64 bits. A bar in the name is printed as a space.
\<close>

definition in_range :: "int \<Rightarrow> bool" where
  "in_range i \<longleftrightarrow> - (2 ^ 63) \<le> i \<and> i < 2 ^ 63"

definition desc_text :: "engine_result \<Rightarrow> string" where
  "desc_text d = (case er_desc_link d of None \<Rightarrow> [] | Some l \<Rightarrow> l)"

definition date_number :: "engine_result \<Rightarrow> int" where
  "date_number d = (case er_pub_date d of None \<Rightarrow> -1 | Some t \<Rightarrow> t)"

definition printable :: "engine_result \<Rightarrow> bool" where
  "printable d \<longleftrightarrow>
     er_link d \<noteq> [] \<and> er_name d \<noteq> [] \<and> er_engine_url d \<noteq> [] \<and>
     CHR ''|'' \<notin> set (er_link d) \<union> set (er_engine_url d) \<union> set (desc_text d) \<and>
     CHR 10 \<notin> set (er_link d) \<union> set (er_name d) \<union> set (er_engine_url d) \<union> set (desc_text d) \<and>
     in_range (er_size d) \<and> in_range (er_seeds d) \<and> in_range (er_leech d) \<and> in_range (date_number d)"

text \<open>What the reader should make of it.\<close>

definition intended_result :: "(string \<Rightarrow> string) \<Rightarrow> engine_result \<Rightarrow> search_result" where
  "intended_result names d =
     \<lparr>res_fileName = js_trim (map (\<lambda>c. if c = CHR ''|'' then CHR '' '' else c) (er_name d)),
      res_fileUrl = js_trim (er_link d), res_fileSize = er_size d,
      res_nbSeeders = max (-1) (er_seeds d), res_nbLeechers = max (-1) (er_leech d),
      res_engineName = names (js_trim (er_engine_url d)), res_siteUrl = js_trim (er_engine_url d),
      res_descrLink = js_trim (desc_text d), res_pubDate = (if 0 < date_number d then Some (date_number d) else None)\<rparr>"

lemma printed_fields:
  assumes "printable d"
  shows "splitToViews (CHR ''|'') False (prettyPrinter d) =
     filter (\<lambda>p. p \<noteq> [])
      [er_link d, map (\<lambda>c. if c = CHR ''|'' then CHR '' '' else c) (er_name d), int_str (er_size d), int_str (er_seeds d),
       int_str (er_leech d), er_engine_url d, desc_text d, int_str (date_number d)]"
  using assms unfolding splitToViews_split prettyPrinter_def desc_text_def [symmetric] date_number_def [symmetric]
  by (subst js_split_join) (auto simp: printable_def)

lemma count_printed: "in_range n \<Longrightarrow> count_or_unknown (int_str n) = max (-1) n"
  by (auto simp: count_or_unknown_def in_range_def toLongLong_int_str max_def)

lemma parse_printed:
  assumes "printable d"
  shows "parseSearchResult names (prettyPrinter d) =
     Some (if desc_text d \<noteq> [] then intended_result names d
           else (intended_result names d)\<lparr>res_descrLink := int_str (date_number d), res_pubDate := None\<rparr>)"
  using assms
  by (simp add: parseSearchResult_def printed_fields Let_def intended_result_def printable_def count_printed
      toLongLong_int_str in_range_def)

section \<open>Properties of the reading in pieces\<close>

abbreviation lines_of :: "string \<Rightarrow> string list" where
  "lines_of s \<equiv> js_split [CHR 10] s"

text \<open>The part of the output that has no line end yet.\<close>

definition open_line :: "string \<Rightarrow> string" where
  "open_line s = last (lines_of s)"

definition complete_results :: "(string \<Rightarrow> string) \<Rightarrow> string \<Rightarrow> search_result list" where
  "complete_results names s = List.map_filter (parseSearchResult names) (butlast (lines_of s))"

lemma lines_append: "js_split [c] (a @ b) = butlast (js_split [c] a) @ js_split [c] (last (js_split [c] a) @ b)"
proof (induction a)
  case (Cons x a)
  obtain l ls where L: "js_split [c] a = l # ls" by (metis js_split_nonempty list.exhaust)
  show ?case
  proof (cases "x = c \<or> ls \<noteq> []")
    case True
    with Cons L show ?thesis by (auto simp: js_split_char_Cons)
  next
    case False
    with Cons L show ?thesis by (simp add: js_split_char_Cons)
  qed
qed simp

lemma map_filter_append: "List.map_filter f (xs @ ys) = List.map_filter f xs @ List.map_filter f ys"
  by (simp add: List.map_filter_def)

lemma complete_append:
  "complete_results names (a @ b) = complete_results names a @ complete_results names (open_line a @ b)"
  by (simp add: complete_results_def open_line_def lines_append [of _ a b] butlast_append map_filter_append)

lemma open_append: "open_line (a @ b) = open_line (open_line a @ b)"
  by (simp add: open_line_def lines_append [of _ a b])

lemma read_once:
  "readSearchOutput names out h = h\<lparr>sh_truncated := js_trim (open_line (sh_truncated h @ out)),
     sh_results := sh_results h @ complete_results names (sh_truncated h @ out)\<rparr>"
  by (simp add: readSearchOutput_def splitToViews_split Let_def open_line_def complete_results_def)

text \<open>Pieces after which no open line begins or ends with white space.\<close>

definition clean_pieces :: "string list \<Rightarrow> bool" where
  "clean_pieces outs \<longleftrightarrow>
     list_all (\<lambda>k. js_trim (open_line (concat (take k outs))) = open_line (concat (take k outs))) [0 ..< Suc (length outs)]"

lemma clean_piecesD:
  "clean_pieces outs \<Longrightarrow> k \<le> length outs \<Longrightarrow> js_trim (open_line (concat (take k outs))) = open_line (concat (take k outs))"
  by (simp add: clean_pieces_def list_all_iff less_Suc_eq_le del: upt_Suc)

lemma read_pieces:
  assumes "clean_pieces outs" "sh_truncated h = []"
  shows "foldl (\<lambda>h out. readSearchOutput names out h) h outs =
     h\<lparr>sh_truncated := open_line (concat outs), sh_results := sh_results h @ complete_results names (concat outs)\<rparr>"
  using assms
proof (induction outs rule: rev_induct)
  case Nil
  have "open_line [] = []" "complete_results names [] = []"
    by (simp_all add: open_line_def complete_results_def List.map_filter_def)
  with Nil show ?case by simp
next
  case (snoc out outs)
  have "clean_pieces outs"
  proof -
    have "js_trim (open_line (concat (take k outs))) = open_line (concat (take k outs))" if "k \<le> length outs" for k
      using clean_piecesD [OF snoc.prems(1), of k] that by simp
    then show ?thesis by (simp add: clean_pieces_def list_all_iff less_Suc_eq_le del: upt_Suc)
  qed
  moreover have "js_trim (open_line (concat (outs @ [out]))) = open_line (concat (outs @ [out]))"
    using clean_piecesD [OF snoc.prems(1), of "length (outs @ [out])"] by simp
  ultimately show ?case
    using snoc.IH snoc.prems(2)
    by (simp add: read_once complete_append [of names "concat outs" out] open_append [of "concat outs" out])
qed

definition printed :: "engine_result list \<Rightarrow> string" where
  "printed ds = concat (map (\<lambda>d. prettyPrinter d @ [CHR 10]) ds)"

lemma printed_line_free: "printable d \<Longrightarrow> CHR 10 \<notin> set (prettyPrinter d)"
  by (auto simp: prettyPrinter_def printable_def desc_text_def)

lemma lines_printed:
  "\<forall>d \<in> set ds. printable d \<Longrightarrow> lines_of (printed ds) = map prettyPrinter ds @ [[]]"
proof (induction ds)
  case (Cons d ds)
  have "lines_of (prettyPrinter d @ CHR 10 # printed ds) = prettyPrinter d # lines_of (printed ds)"
  proof -
    have "takeWhile (\<lambda>c. c \<noteq> CHR 10) (prettyPrinter d @ CHR 10 # printed ds) = prettyPrinter d"
      using printed_line_free [of d] Cons.prems by (subst takeWhile_append2) auto
    then show ?thesis by (subst js_split_char_span) simp
  qed
  with Cons show ?case by (simp add: printed_def)
qed (simp add: printed_def)

text \<open>
  C16: What the engines print is what the server has: whatever pieces the output of the search process
  arrives in, after all of it the results are those that were printed, in order and each once,
  provided that they have description links and that no piece ends within white space.
\<close>

theorem printed_results_read:
  assumes "\<forall>d \<in> set ds. printable d \<and> desc_text d \<noteq> []"
    and "clean_pieces outs" and "concat outs = printed ds" and "sh_truncated h = []"
  shows "sh_results (foldl (\<lambda>h out. readSearchOutput names out h) h outs) =
     sh_results h @ map (intended_result names) ds"
proof -
  have "List.map_filter (parseSearchResult names) (map prettyPrinter ds) = map (intended_result names) ds"
    using assms(1) by (induction ds) (auto simp: List.map_filter_simps parse_printed)
  then have "complete_results names (printed ds) = map (intended_result names) ds"
    using assms(1) by (simp add: complete_results_def lines_printed)
  with read_pieces [OF assms(2,4)] assms(3) show ?thesis by simp
qed

definition ex_engine_result :: engine_result where
  "ex_engine_result = \<lparr>er_link = ''http://x/1'', er_name = ''A b'', er_size = 700, er_seeds = 5, er_leech = -7, er_engine_url = ''http://x'',
     er_desc_link = Some ''http://x/d'', er_pub_date = Some 9\<rparr>"

definition ex_handler :: search_handler where
  "ex_handler = new_handler ''b'' ''all'' [''x'']"

theorem printed_results_read_witness:
  "sh_results (foldl (\<lambda>h out. readSearchOutput (\<lambda>u. ''X'') out h) ex_handler [''http://x/1|A b|70'', ''0|5|-7|http://x|http://x/d|9'' @ [CHR 10]])
     = [intended_result (\<lambda>u. ''X'') ex_engine_result]"
proof -
  have "printable ex_engine_result \<and> desc_text ex_engine_result \<noteq> []" by code_simp
  moreover have "clean_pieces [''http://x/1|A b|70'', ''0|5|-7|http://x|http://x/d|9'' @ [CHR 10]]" by code_simp
  moreover have "concat [''http://x/1|A b|70'', ''0|5|-7|http://x|http://x/d|9'' @ [CHR 10]] = printed [ex_engine_result]"
    by code_simp
  ultimately have "sh_results (foldl (\<lambda>h out. readSearchOutput (\<lambda>u. ''X'') out h) ex_handler
        [''http://x/1|A b|70'', ''0|5|-7|http://x|http://x/d|9'' @ [CHR 10]])
      = sh_results ex_handler @ map (intended_result (\<lambda>u. ''X'')) [ex_engine_result]"
    by (intro printed_results_read) (simp_all add: ex_handler_def new_handler_def)
  then show ?thesis by (simp add: ex_handler_def new_handler_def)
qed

text \<open>
  C40: The reader skips empty columns, and the printer writes an empty one for an engine without
  description links: the date then stands in the link's place, and the result has no date.
\<close>

theorem missing_link_shifts:
  assumes "printable d" and "desc_text d = []"
  shows "parseSearchResult names (prettyPrinter d) =
     Some ((intended_result names d)\<lparr>res_descrLink := int_str (date_number d), res_pubDate := None\<rparr>)"
  using parse_printed [OF assms(1)] assms(2) by simp

theorem missing_link_shifts_witness:
  "map_option res_descrLink (parseSearchResult (\<lambda>u. ''X'') (prettyPrinter (ex_engine_result\<lparr>er_desc_link := None, er_pub_date := None\<rparr>)))
     = Some ''-1''"
proof -
  let ?d = "ex_engine_result\<lparr>er_desc_link := None, er_pub_date := None\<rparr>"
  have "printable ?d" "desc_text ?d = []" "int_str (date_number ?d) = ''-1''" by code_simp+
  with missing_link_shifts [of ?d "\<lambda>u. ''X''"] show ?thesis by simp
qed

text \<open>The open line is trimmed before the next piece is put after it: a space at the end of a piece is lost.\<close>

lemma piece_space_lost:
  "map res_fileName (sh_results (foldl (\<lambda>h out. readSearchOutput (\<lambda>u. ''X'') out h) ex_handler
      [''http://x/1|A '', ''b|700|5|7|http://x|http://x/d|9'' @ [CHR 10]])) = [''Ab'']"
  "map res_fileName (sh_results (readSearchOutput (\<lambda>u. ''X'') (''http://x/1|A b|700|5|7|http://x|http://x/d|9'' @ [CHR 10]) ex_handler))
     = [''A b'']"
  by code_simp+

section \<open>The number of running searches\<close>

definition live_search :: "search_handler \<Rightarrow> bool" where
  "live_search h \<longleftrightarrow> sh_running h \<and> \<not> sh_cancelled h"

definition live_searches :: "search_controller \<Rightarrow> int list" where
  "live_searches s = map fst (filter (\<lambda>(i, h). live_search h) (searchHandlers s))"

definition searches_ok :: "search_controller \<Rightarrow> bool" where
  "searches_ok s \<longleftrightarrow>
     distinct_keys (searchHandlers s) \<and> distinct (activeSearches s) \<and>
     length (activeSearches s) \<le> MAX_CONCURRENT_SEARCHES \<and>
     (\<forall>i h. map_get (searchHandlers s) i = Some h \<longrightarrow> live_search h \<longrightarrow> i \<in> set (activeSearches s))"

lemma length_set_delete_le: "length (set_delete x xs) \<le> length xs"
  by (simp add: set_delete_def)

lemma searches_ok_change:
  assumes "searches_ok s" "map_get (searchHandlers s) i = Some h" "live_search (f h) \<Longrightarrow> live_search h"
  shows "searches_ok (s\<lparr>searchHandlers := map_set i (f h) (searchHandlers s)\<rparr>)"
  using assms by (auto simp: searches_ok_def distinct_keys_set)

lemma searches_ok_retire:
  assumes "searches_ok s" "\<not> live_search h"
  shows "searches_ok \<lparr>searchHandlers = map_set i h (searchHandlers s), activeSearches = set_delete i (activeSearches s)\<rparr>"
  using assms le_trans [OF length_set_delete_le [of i "activeSearches s"]]
  by (auto simp: searches_ok_def distinct_keys_set distinct_set_delete)

lemma searches_ok_on_handler:
  assumes "searches_ok s" "\<And>h. live_search (f h) \<Longrightarrow> live_search h"
  shows "searches_ok (on_handler i f s)"
  using assms searches_ok_change [of s i _ f] by (auto simp: on_handler_def split: option.split)

lemma live_simps [simp]:
  "live_search (readSearchOutput names out h) = live_search h" "live_search (cancelSearch h) \<Longrightarrow> live_search h"
  "\<not> live_search (cancelSearch h)" "\<not> live_search (h\<lparr>sh_running := False\<rparr>)"
  by (auto simp: live_search_def readSearchOutput_def cancelSearch_def Let_def split: if_splits)

lemma generateSearchId_fresh: "generateSearchId draws m = Some i \<Longrightarrow> map_get m i = None"
  by (induction draws m rule: generateSearchId.induct) (auto simp: map_has_get split: if_splits)

lemma searches_ok_start:
  assumes ok: "searches_ok s" and run: "startAction py ps es draws pattern category plugins s = Some (Inr (i, s'))"
  shows "searches_ok s'"
proof -
  let ?h = "new_handler (js_trim pattern) (js_trim category) (plugins_to_use ps es plugins)"
  from run have "length (activeSearches s) < MAX_CONCURRENT_SEARCHES"
    and "s' = \<lparr>searchHandlers = map_set i ?h (searchHandlers s), activeSearches = set_add i (activeSearches s)\<rparr>"
    by (auto simp: startAction_def Let_def split: if_splits)
  with ok show ?thesis by (auto simp: searches_ok_def distinct_keys_set set_add_def)
qed

lemma searches_ok_step:
  assumes ok: "searches_ok s"
  shows "searches_ok (server_step names e s)"
proof (cases e)
  case (StartRequest py ps es draws pattern category plugins)
  with ok searches_ok_start [OF ok] show ?thesis by (auto split: option.split sum.split)
next
  case (StopRequest i)
  with ok show ?thesis
    by (auto simp: stopAction_def searches_ok_retire split: option.split)
next
  case (DeleteRequest i)
  with ok le_trans [OF length_set_delete_le [of i "activeSearches s"]] show ?thesis
    by (auto simp: deleteAction_def searches_ok_def distinct_keys_delete distinct_set_delete
        simp del: map_of_eq_Some_iff Some_eq_map_of_iff)
next
  case (ProcessPrinted i out)
  have "live_search h" if "live_search (if sh_running h then readSearchOutput names out h else h)" for h
    using that by (simp split: if_splits)
  from searches_ok_on_handler [OF ok this] show ?thesis using ProcessPrinted by simp
next
  case (ProcessEnded i)
  with ok show ?thesis by (auto simp: processFinished_def searches_ok_retire split: option.split)
next
  case (SearchTimeout i)
  then show ?thesis using searches_ok_on_handler [OF ok, of cancelSearch] by simp
qed

text \<open>
  C39: Whatever is asked of the controller and whatever the processes do, at most five searches run that
  have not been stopped; a stopped one does not count while its process is still ending.
\<close>

theorem running_searches_bounded:
  assumes "searchHandlers s = []" and "activeSearches s = []"
  shows "length (live_searches (foldl (\<lambda>s e. server_step names e s) s events)) \<le> 5"
proof -
  have "searches_ok s" using assms by (simp add: searches_ok_def)
  then have "searches_ok (foldl (\<lambda>s e. server_step names e s) s events)"
    by (induction events arbitrary: s) (simp_all add: searches_ok_step)
  moreover have "length (live_searches t) \<le> 5" if t: "searches_ok t" for t
  proof -
    have d: "distinct (live_searches t)"
      using t unfolding searches_ok_def live_searches_def by (meson distinct_map_filter)
    have "set (live_searches t) \<subseteq> set (activeSearches t)"
      using t by (auto simp: searches_ok_def live_searches_def)
    from card_mono [OF _ this] have "card (set (live_searches t)) \<le> length (activeSearches t)"
      using card_length [of "activeSearches t"] by simp
    with t show ?thesis by (simp add: distinct_card [OF d] searches_ok_def MAX_CONCURRENT_SEARCHES_def)
  qed
  ultimately show ?thesis by blast
qed

theorem running_searches_bounded_witness:
  "length (live_searches (foldl (\<lambda>s e. server_step (\<lambda>u. u) e s) \<lparr>searchHandlers = [], activeSearches = []\<rparr>
     (map (\<lambda>i. StartRequest True [] [] [i] ''a'' ''all'' ''p'') [1, 2, 3, 4, 5, 6, 7]))) \<le> 5"
  by (rule running_searches_bounded) simp_all

end
