(* ===== verification/SearchTabs.thy ===== *)
theory SearchTabs
  imports SearchServer ListTables
begin

text \<open>
  The tabs of the search page (\<open>search.js\<close>): each tab shows the results of one search of the
  server, which the page asks for again and again while the search runs. The states of the tabs
  are objects that several names may share, so they live in a store; timers that are pending and
  requests that have been sent are part of the state.
\<close>

section \<open>State\<close>

text \<open>The state that the page keeps of a search.\<close>

record search_job =
  st_searchPattern :: string
  st_filterPattern :: string
  st_seeds :: "jsval \<times> jsval"
  st_minSize :: "jsval \<times> nat"
  st_maxSize :: "jsval \<times> nat"
  st_inName :: bool
  st_rows :: "jsobj list"
  st_rowId :: nat
  st_selectedRowIds :: "string list"
  st_running :: bool
  st_timer :: "nat option"
  st_sort :: "string \<times> string"
  st_lastSeenCount :: nat

datatype tab_icon = IconSearching | IconAborted | IconFinished | IconError

definition icon_text :: "tab_icon \<Rightarrow> string \<times> string" where
  "icon_text ic =
     (case ic of
        IconSearching \<Rightarrow> (''Searching...'', ''images/queued.svg'')
      | IconAborted \<Rightarrow> (''Search aborted'', ''images/task-reject.svg'')
      | IconFinished \<Rightarrow> (''Search has finished'', ''images/task-complete.svg'')
      | IconError \<Rightarrow> (''An error occurred during search...'', ''images/error.svg''))"

record search_tab =
  tab_id :: int
  tab_title :: string
  tab_icon :: tab_icon
  tab_selected :: bool

text \<open>The inputs of the filters; the units are choices of a list of numbers.\<close>

record filter_fields =
  fld_name :: string
  fld_minSeeds :: jsval
  fld_maxSeeds :: jsval
  fld_minSize :: jsval
  fld_minPrefix :: nat
  fld_maxSize :: jsval
  fld_maxPrefix :: nat

text \<open>
  Requests, with what their handlers remember: the handlers of a request for results know the
  object that was the state of the search when it was sent.
\<close>

datatype search_request =
    ReqStart string string string
  | ReqRefresh int string string string
  | ReqStop int
  | ReqDelete int
  | ReqResults int nat nat nat

record search_page =
  searchState :: "(int, nat) jsmap"
  sp_objects :: "nat \<Rightarrow> search_job option"
  sp_nextObject :: nat
  sp_tabs :: "search_tab list"
  sp_table :: table
  sp_filters :: search_filters
  sp_fields :: filter_fields
  sp_timers :: "(nat \<times> nat \<times> int) list"
  sp_nextTimer :: nat
  sp_jobs :: "(int \<times> string) list"
  sp_prefs :: preferences
  sp_pattern :: string
  sp_category :: string
  sp_plugins :: string
  sp_stopButton :: bool
  sp_noSearchesHidden :: bool
  sp_resultsHidden :: bool
  sp_numVisible :: nat
  sp_numTotal :: nat
  sp_requests :: "search_request list"

section \<open>Access\<close>

definition get_job :: "search_page \<Rightarrow> int \<Rightarrow> search_job option" where
  "get_job p i = Option.bind (map_get (searchState p) i) (sp_objects p)"

definition mod_object :: "nat \<Rightarrow> (search_job \<Rightarrow> search_job) \<Rightarrow> search_page \<Rightarrow> search_page" where
  "mod_object r f p = p\<lparr>sp_objects := (sp_objects p)(r := map_option f (sp_objects p r))\<rparr>"

definition mod_job :: "int \<Rightarrow> (search_job \<Rightarrow> search_job) \<Rightarrow> search_page \<Rightarrow> search_page" where
  "mod_job i f p = (case map_get (searchState p) i of None \<Rightarrow> p | Some r \<Rightarrow> mod_object r f p)"

definition clearTimeout :: "nat option \<Rightarrow> search_page \<Rightarrow> search_page" where
  "clearTimeout n p = (case n of None \<Rightarrow> p | Some n \<Rightarrow> p\<lparr>sp_timers := filter (\<lambda>(m, _). m \<noteq> n) (sp_timers p)\<rparr>)"

text \<open>\<open>clearTimeout(state.loadResultsTimer)\<close> and a new timer for the object.\<close>

definition rearm :: "nat \<Rightarrow> nat \<Rightarrow> int \<Rightarrow> search_page \<Rightarrow> search_page" where
  "rearm r delay i p =
     (let p = clearTimeout (Option.bind (sp_objects p r) st_timer) p;
          n = sp_nextTimer p
      in mod_object r (\<lambda>st. st\<lparr>st_timer := Some n\<rparr>)
           (p\<lparr>sp_timers := sp_timers p @ [(n, delay, i)], sp_nextTimer := Suc n\<rparr>))"

fun on_tab :: "int \<Rightarrow> (search_tab \<Rightarrow> search_tab) \<Rightarrow> search_tab list \<Rightarrow> search_tab list" where
  "on_tab i f [] = []"
| "on_tab i f (t # ts) = (if tab_id t = i then f t # ts else t # on_tab i f ts)"

definition has_tab :: "search_page \<Rightarrow> int \<Rightarrow> bool" where
  "has_tab p i \<longleftrightarrow> i \<in> set (map tab_id (sp_tabs p))"

definition numSearchTabs :: "search_page \<Rightarrow> nat" where
  "numSearchTabs p = length (sp_tabs p)"

definition send :: "search_request \<Rightarrow> search_page \<Rightarrow> search_page" where
  "send q p = p\<lparr>sp_requests := sp_requests p @ [q]\<rparr>"

definition getSelectedSearchId :: "search_page \<Rightarrow> int option" where
  "getSelectedSearchId p = map_option tab_id (find tab_selected (sp_tabs p))"

text \<open>
  The rows that the table shows. The results of the server have text names, so that the filter
  does not throw on them (\<open>results_never_throw\<close> in \<open>SearchDisplay\<close>).
\<close>

definition search_fsr :: "(table \<Rightarrow> row cmp) \<Rightarrow> search_filters \<Rightarrow> table \<Rightarrow> row list" where
  "search_fsr cmp f t = (case search_view f (cmp t) t of Inl e \<Rightarrow> [] | Inr rs \<Rightarrow> rs)"

abbreviation page_fsr :: "(table \<Rightarrow> row cmp) \<Rightarrow> search_page \<Rightarrow> table \<Rightarrow> row list" where
  "page_fsr cmp p \<equiv> search_fsr cmp (sp_filters p)"

section \<open>The title, the icon and the button\<close>

definition updateTabTitle :: "int \<Rightarrow> search_page \<Rightarrow> search_page" where
  "updateTabTitle i p =
     (case get_job p i of
        None \<Rightarrow> p
      | Some st \<Rightarrow>
          (let unreadCount = int (length (st_rows st)) - int (st_lastSeenCount st);
               title = st_searchPattern st @ (if 0 < unreadCount then '' (+'' @ int_str unreadCount @ '')'' else [])
           in p\<lparr>sp_tabs := on_tab i (\<lambda>t. t\<lparr>tab_title := title\<rparr>) (sp_tabs p)\<rparr>))"

definition updateStatusIconElement :: "int \<Rightarrow> tab_icon \<Rightarrow> search_page \<Rightarrow> search_page" where
  "updateStatusIconElement i ic p = p\<lparr>sp_tabs := on_tab i (\<lambda>t. t\<lparr>tab_icon := ic\<rparr>) (sp_tabs p)\<rparr>"

definition canStopSearch :: "int option \<Rightarrow> string \<Rightarrow> search_page \<Rightarrow> bool" where
  "canStopSearch searchId pattern p =
     (case Option.bind searchId (get_job p) of
        None \<Rightarrow> False | Some st \<Rightarrow> st_running st \<and> st_searchPattern st = pattern)"

definition updateSearchButtonState :: "search_page \<Rightarrow> search_page" where
  "updateSearchButtonState p = p\<lparr>sp_stopButton := canStopSearch (getSelectedSearchId p) (js_trim (sp_pattern p)) p\<rparr>"

definition resetSearchState :: "int option \<Rightarrow> search_page \<Rightarrow> search_page" where
  "resetSearchState searchId p =
     updateSearchButtonState
       (case searchId of
          None \<Rightarrow> p
        | Some i \<Rightarrow> (case get_job p i of
              None \<Rightarrow> p
            | Some st \<Rightarrow> mod_job i (\<lambda>st. st\<lparr>st_running := False, st_timer := None\<rparr>) (clearTimeout (st_timer st) p)))"

section \<open>Filters\<close>

definition resetFilters :: "search_page \<Rightarrow> search_page" where
  "resetFilters p =
     p\<lparr>sp_filters := (sp_filters p)\<lparr>sf_filterPattern := [], seeds_min := JNum 0, seeds_max := JNum 0,
          size_min := JNum 0, size_minUnit := 2, size_max := JNum 0, size_maxUnit := 3\<rparr>,
       sp_fields := \<lparr>fld_name = [], fld_minSeeds = JNum 0, fld_maxSeeds = JNum 0, fld_minSize = JNum 0, fld_minPrefix = 2,
          fld_maxSize = JNum 0, fld_maxPrefix = 3\<rparr>\<rparr>"

definition redraw :: "(table \<Rightarrow> row cmp) \<Rightarrow> search_page \<Rightarrow> search_page" where
  "redraw cmp p = p\<lparr>sp_table := updateTable (page_fsr cmp p) False (sp_table p)\<rparr>"

definition count_visible :: "(table \<Rightarrow> row cmp) \<Rightarrow> search_page \<Rightarrow> search_page" where
  "count_visible cmp p = p\<lparr>sp_numVisible := length (page_fsr cmp p (sp_table p))\<rparr>"

definition count_total :: "search_page \<Rightarrow> search_page" where
  "count_total p = p\<lparr>sp_numTotal := length (rows (sp_table p))\<rparr>"

definition searchFilterChanged :: "(table \<Rightarrow> row cmp) \<Rightarrow> search_page \<Rightarrow> search_page" where
  "searchFilterChanged cmp p = count_visible cmp (redraw cmp p)"

definition nameFilterChanged :: "(table \<Rightarrow> row cmp) \<Rightarrow> search_page \<Rightarrow> search_page" where
  "nameFilterChanged cmp p =
     searchFilterChanged cmp (p\<lparr>sp_filters := (sp_filters p)\<lparr>sf_filterPattern := fld_name (sp_fields p)\<rparr>\<rparr>)"

definition searchSeedsFilterChanged :: "(table \<Rightarrow> row cmp) \<Rightarrow> search_page \<Rightarrow> search_page" where
  "searchSeedsFilterChanged cmp p =
     searchFilterChanged cmp (p\<lparr>sp_filters := (sp_filters p)\<lparr>seeds_min := fld_minSeeds (sp_fields p),
       seeds_max := fld_maxSeeds (sp_fields p)\<rparr>\<rparr>)"

definition searchSizeFilterChanged :: "(table \<Rightarrow> row cmp) \<Rightarrow> search_page \<Rightarrow> search_page" where
  "searchSizeFilterChanged cmp p =
     searchFilterChanged cmp (p\<lparr>sp_filters := (sp_filters p)\<lparr>size_min := fld_minSize (sp_fields p),
       size_minUnit := fld_minPrefix (sp_fields p), size_max := fld_maxSize (sp_fields p),
       size_maxUnit := fld_maxPrefix (sp_fields p)\<rparr>\<rparr>)"

definition searchSizeFilterPrefixChanged :: "(table \<Rightarrow> row cmp) \<Rightarrow> search_page \<Rightarrow> search_page" where
  "searchSizeFilterPrefixChanged cmp p =
     (if js_ToNumber (fld_minSize (sp_fields p)) \<noteq> Some 0 \<or> js_ToNumber (fld_maxSize (sp_fields p)) \<noteq> Some 0
      then searchSizeFilterChanged cmp p else p)"

definition searchInTorrentName :: "(table \<Rightarrow> row cmp) \<Rightarrow> bool \<Rightarrow> search_page \<Rightarrow> search_page" where
  "searchInTorrentName cmp names p =
     searchFilterChanged cmp (p\<lparr>sp_filters := (sp_filters p)\<lparr>sf_inName := names\<rparr>\<rparr>)"

section \<open>Switching between tabs\<close>

definition saveCurrentTabState :: "search_page \<Rightarrow> search_page" where
  "saveCurrentTabState p =
     (case getSelectedSearchId p of
        None \<Rightarrow> p
      | Some i \<Rightarrow>
          if i = 0 then p
          else let f = sp_filters p; t = sp_table p in
            mod_job i (\<lambda>st. st\<lparr>st_filterPattern := sf_filterPattern f, st_seeds := (seeds_min f, seeds_max f),
              st_minSize := (size_min f, size_minUnit f), st_maxSize := (size_max f, size_maxUnit f),
              st_inName := sf_inName f, st_sort := (sortedColumn t, reverseSort t), st_selectedRowIds := selectedRows t\<rparr>) p)"

definition select_tab :: "int \<Rightarrow> search_page \<Rightarrow> search_page" where
  "select_tab i p = p\<lparr>sp_tabs := map (\<lambda>t. t\<lparr>tab_selected := (tab_id t = i)\<rparr>) (sp_tabs p)\<rparr>"

definition clear_results :: "(table \<Rightarrow> row cmp) \<Rightarrow> search_page \<Rightarrow> search_page" where
  "clear_results cmp p = p\<lparr>sp_table := clear_table (page_fsr cmp p) (sp_table p)\<rparr>"

definition add_rows :: "jsobj list \<Rightarrow> search_page \<Rightarrow> search_page" where
  "add_rows ds p = p\<lparr>sp_table := foldl (\<lambda>t d. updateRowData d t) (sp_table p) ds\<rparr>"

definition restore_filters :: "search_job \<Rightarrow> search_page \<Rightarrow> search_page" where
  "restore_filters st p =
     p\<lparr>sp_filters := (sp_filters p)\<lparr>sf_pattern := st_searchPattern st, sf_filterPattern := st_filterPattern st,
          seeds_min := fst (st_seeds st), seeds_max := snd (st_seeds st),
          size_min := fst (st_minSize st), size_minUnit := snd (st_minSize st),
          size_max := fst (st_maxSize st), size_maxUnit := snd (st_maxSize st)\<rparr>,
       sp_fields := \<lparr>fld_name = st_filterPattern st, fld_minSeeds = fst (st_seeds st), fld_maxSeeds = snd (st_seeds st),
          fld_minSize = fst (st_minSize st), fld_minPrefix = snd (st_minSize st),
          fld_maxSize = fst (st_maxSize st), fld_maxPrefix = snd (st_maxSize st)\<rparr>\<rparr>"

definition restore_sort :: "(table \<Rightarrow> row cmp) \<Rightarrow> search_job \<Rightarrow> search_page \<Rightarrow> search_page" where
  "restore_sort cmp st p =
     (case setSortedColumn (page_fsr cmp p) (fst (st_sort st)) (Some (snd (st_sort st))) (sp_prefs p) (sp_table p) of
        (prefs, t) \<Rightarrow> p\<lparr>sp_prefs := prefs, sp_table := t\<rparr>)"

definition restore_tab :: "(table \<Rightarrow> row cmp) \<Rightarrow> int \<Rightarrow> search_page \<Rightarrow> search_page" where
  "restore_tab cmp i p =
     (case get_job p i of
        None \<Rightarrow> p
      | Some st \<Rightarrow>
          let p = restore_sort cmp st (restore_filters st (add_rows (st_rows st) p));
              p = p\<lparr>sp_filters := (sp_filters p)\<lparr>sf_inName := st_inName st\<rparr>\<rparr>
          in updateTabTitle i (mod_job i (\<lambda>st. st\<lparr>st_lastSeenCount := length (st_rows st)\<rparr>) p))"

definition reselect_rows :: "string list \<Rightarrow> search_page \<Rightarrow> search_page" where
  "reselect_rows ids p = (if ids \<noteq> [] then p\<lparr>sp_table := reselectRows ids (sp_table p)\<rparr> else p)"

definition setActiveTab :: "(table \<Rightarrow> row cmp) \<Rightarrow> int \<Rightarrow> search_page \<Rightarrow> search_page" where
  "setActiveTab cmp i p =
     (if Some i = getSelectedSearchId p then p
      else let p = clear_results cmp (select_tab i (saveCurrentTabState p));
               rowsToSelect = (case get_job p i of None \<Rightarrow> [] | Some st \<Rightarrow> st_selectedRowIds st);
               p = reselect_rows rowsToSelect (redraw cmp (restore_tab cmp i p))
           in updateSearchButtonState (count_total (count_visible cmp p)))"

section \<open>Opening, refreshing and closing tabs\<close>

definition updateSearchResultsData :: "int \<Rightarrow> search_page \<Rightarrow> search_page" where
  "updateSearchResultsData i p = (case map_get (searchState p) i of None \<Rightarrow> p | Some r \<Rightarrow> rearm r 500 i p)"

definition new_job :: "string \<Rightarrow> search_page \<Rightarrow> search_job" where
  "new_job pattern p =
     (let f = sp_filters p; t = sp_table p in
      \<lparr>st_searchPattern = pattern, st_filterPattern = sf_filterPattern f, st_seeds = (seeds_min f, seeds_max f),
       st_minSize = (size_min f, size_minUnit f), st_maxSize = (size_max f, size_maxUnit f), st_inName = sf_inName f,
       st_rows = [], st_rowId = 0, st_selectedRowIds = [], st_running = True, st_timer = None,
       st_sort = (sortedColumn t, reverseSort t), st_lastSeenCount = 0\<rparr>)"

definition add_job :: "int \<Rightarrow> search_job \<Rightarrow> search_page \<Rightarrow> search_page" where
  "add_job i st p =
     p\<lparr>searchState := map_set i (sp_nextObject p) (searchState p),
       sp_objects := (sp_objects p)(sp_nextObject p := Some st), sp_nextObject := Suc (sp_nextObject p)\<rparr>"

definition add_tab :: "int \<Rightarrow> string \<Rightarrow> search_page \<Rightarrow> search_page" where
  "add_tab i pattern p =
     p\<lparr>sp_tabs := sp_tabs p @ [\<lparr>tab_id = i, tab_title = pattern, tab_icon = IconSearching, tab_selected = True\<rparr>],
       sp_noSearchesHidden := True, sp_resultsHidden := False\<rparr>"

definition createSearchTab :: "(table \<Rightarrow> row cmp) \<Rightarrow> int \<Rightarrow> string \<Rightarrow> search_page \<Rightarrow> search_page" where
  "createSearchTab cmp i pattern p =
     (let p = setActiveTab cmp i (add_tab i pattern p);
          p = resetFilters (clear_results cmp p)
      in updateSearchResultsData i (add_job i (new_job pattern p) p))"

fun rename_job :: "int \<Rightarrow> int \<Rightarrow> (int \<times> string) list \<Rightarrow> (int \<times> string) list" where
  "rename_job old new [] = []"
| "rename_job old new ((i, pat) # js) = (if i = old then (new, pat) # js else (i, pat) # rename_job old new js)"

fun remove_job :: "int \<Rightarrow> (int \<times> string) list \<Rightarrow> (int \<times> string) list" where
  "remove_job old [] = []"
| "remove_job old ((i, pat) # js) = (if i = old then js else (i, pat) # remove_job old js)"

text \<open>The state of the old search goes on as the state of the new one: one object under a new name.\<close>

definition move_job :: "int \<Rightarrow> int \<Rightarrow> search_page \<Rightarrow> search_page" where
  "move_job old new p =
     (case map_get (searchState p) old of
        None \<Rightarrow> p
      | Some r \<Rightarrow>
          let p = mod_object r (\<lambda>st. st\<lparr>st_rows := [], st_rowId := 0, st_selectedRowIds := [], st_running := True,
                    st_timer := None, st_lastSeenCount := 0\<rparr>) p
          in p\<lparr>searchState := map_delete old (map_set new r (searchState p))\<rparr>)"

definition refreshSearchTab ::
  "(table \<Rightarrow> row cmp) \<Rightarrow> int \<Rightarrow> int \<Rightarrow> search_page \<Rightarrow> search_page \<times> js_error option"
where
  "refreshSearchTab cmp old new p =
     (let p = send (ReqDelete old) p;
          p = p\<lparr>sp_jobs := rename_job old new (sp_jobs p)\<rparr>
      in if \<not> has_tab p old then (p, Some TypeError)
         else let p = p\<lparr>sp_tabs := on_tab old (\<lambda>t. t\<lparr>tab_id := new\<rparr>) (sp_tabs p)\<rparr>;
                  p = updateStatusIconElement new IconSearching p
              in if map_get (searchState p) old = None then (p, Some TypeError)
                 else (updateSearchResultsData new (clear_results cmp (updateTabTitle new (move_job old new p))), None))"

definition stopSearch :: "int \<Rightarrow> search_page \<Rightarrow> search_page" where
  "stopSearch i p = send (ReqStop i) p"

text \<open>The tab beside a tab: the next one, or else the one before.\<close>

fun tab_beside :: "int \<Rightarrow> search_tab list \<Rightarrow> int option" where
  "tab_beside i [] = None"
| "tab_beside i [t] = None"
| "tab_beside i (t # u # ts) =
     (if tab_id t = i then Some (tab_id u)
      else if tab_id u = i \<and> ts = [] then Some (tab_id t)
      else tab_beside i (u # ts))"

fun drop_tab :: "int \<Rightarrow> search_tab list \<Rightarrow> search_tab list" where
  "drop_tab i [] = []"
| "drop_tab i (t # ts) = (if tab_id t = i then ts else t # drop_tab i ts)"

definition closeSearchTab :: "(table \<Rightarrow> row cmp) \<Rightarrow> int \<Rightarrow> search_page \<Rightarrow> search_page" where
  "closeSearchTab cmp i p =
     (case find (\<lambda>t. tab_id t = i) (sp_tabs p) of
        None \<Rightarrow> p
      | Some tab \<Rightarrow>
          let newTabToSelect = (if tab_selected tab then tab_beside i (sp_tabs p) else None);
              p = (case get_job p i of None \<Rightarrow> p | Some st \<Rightarrow> if st_running st then stopSearch i p else p);
              p = send (ReqDelete i) (p\<lparr>sp_tabs := drop_tab i (sp_tabs p)\<rparr>);
              p = p\<lparr>sp_jobs := remove_job i (sp_jobs p), searchState := map_delete i (searchState p)\<rparr>
          in if numSearchTabs p = 0
             then (resetFilters (resetSearchState None p))\<lparr>sp_numVisible := 0, sp_numTotal := 0,
                    sp_noSearchesHidden := False, sp_resultsHidden := True\<rparr>
             else case newTabToSelect of None \<Rightarrow> p | Some j \<Rightarrow> setActiveTab cmp j p)"

definition closeAllTabs :: "(table \<Rightarrow> row cmp) \<Rightarrow> search_page \<Rightarrow> search_page" where
  "closeAllTabs cmp p = foldl (\<lambda>p i. closeSearchTab cmp i p) p (map tab_id (sp_tabs p))"

section \<open>Starting and stopping searches\<close>

definition startSearch :: "string \<Rightarrow> string \<Rightarrow> string \<Rightarrow> search_page \<Rightarrow> search_page" where
  "startSearch pattern category plugins p = send (ReqStart pattern category plugins) p"

definition start_answered :: "(table \<Rightarrow> row cmp) \<Rightarrow> string \<Rightarrow> int option \<Rightarrow> search_page \<Rightarrow> search_page" where
  "start_answered cmp pattern answer p =
     (case answer of
        None \<Rightarrow> p
      | Some i \<Rightarrow>
          let p = createSearchTab cmp i pattern p;
              p = p\<lparr>sp_jobs := sp_jobs p @ [(i, pattern)]\<rparr>
          in updateSearchButtonState p)"

definition refreshSearch :: "int \<Rightarrow> search_page \<Rightarrow> search_page \<times> js_error option" where
  "refreshSearch i p =
     (if \<not> has_tab p i then (p, None)
      else case get_job p i of
          None \<Rightarrow> (p, Some TypeError)
        | Some st \<Rightarrow> (send (ReqRefresh i (st_searchPattern st) (sp_category p) (sp_plugins p)) p, None))"

definition refresh_answered :: "(table \<Rightarrow> row cmp) \<Rightarrow> int \<Rightarrow> int option \<Rightarrow> search_page \<Rightarrow> search_page \<times> js_error option" where
  "refresh_answered cmp old answer p =
     (case answer of
        None \<Rightarrow> (p, None)
      | Some new \<Rightarrow>
          (case refreshSearchTab cmp old new p of
             (p, Some err) \<Rightarrow> (p, Some err)
           | (p, None) \<Rightarrow> (updateSearchButtonState p, None)))"

definition stop_answered :: "int \<Rightarrow> bool \<Rightarrow> search_page \<Rightarrow> search_page" where
  "stop_answered i okay p =
     (if okay then updateStatusIconElement i IconAborted (resetSearchState (Some i) p) else p)"

definition startStopSearch :: "search_page \<Rightarrow> search_page" where
  "startStopSearch p =
     (let currentSearchId = getSelectedSearchId p;
          pattern = js_trim (sp_pattern p)
      in if \<not> canStopSearch currentSearchId pattern p
         then (if pattern = [] \<or> sp_category p = [] \<or> sp_plugins p = [] then p
               else startSearch pattern (sp_category p) (sp_plugins p) (p\<lparr>sp_filters := (sp_filters p)\<lparr>sf_pattern := pattern\<rparr>\<rparr>))
         else (case currentSearchId of None \<Rightarrow> p | Some i \<Rightarrow> stopSearch i p))"

section \<open>Loading results\<close>

definition maxResults :: nat where
  "maxResults = 500"

definition loadSearchResultsData :: "int \<Rightarrow> search_page \<Rightarrow> search_page" where
  "loadSearchResultsData i p =
     (case map_get (searchState p) i of
        None \<Rightarrow> p
      | Some r \<Rightarrow> (case sp_objects p r of None \<Rightarrow> p | Some st \<Rightarrow> send (ReqResults i maxResults (st_rowId st) r) p))"

definition result_row :: "nat \<Rightarrow> search_result \<Rightarrow> jsobj" where
  "result_row n r =
     [(''rowId'', JNum (of_nat n)), (''descrLink'', JStr (res_descrLink r)), (''fileName'', JStr (res_fileName r)),
      (''fileSize'', JNum (of_int (res_fileSize r))), (''fileUrl'', JStr (res_fileUrl r)),
      (''nbLeechers'', JNum (of_int (res_nbLeechers r))), (''nbSeeders'', JNum (of_int (res_nbSeeders r))),
      (''engineName'', JStr (res_engineName r)), (''siteUrl'', JStr (res_siteUrl r)),
      (''pubDate'', JNum (case res_pubDate r of None \<Rightarrow> -1 | Some t \<Rightarrow> of_int t))]"

text \<open>The rows made of results, numbered on from \<open>n\<close>.\<close>

fun number_rows :: "nat \<Rightarrow> search_result list \<Rightarrow> jsobj list" where
  "number_rows n [] = []"
| "number_rows n (r # rs) = result_row n r # number_rows (Suc n) rs"

text \<open>
  What becomes of a request for results: an answer, whose text may be \<open>null\<close>, a status that is no
  success, or a failure of the network.
\<close>

datatype results_reply =
    ReplyOk "results_answer option"
  | ReplyStatus nat
  | ReplyFailed

definition store_rows :: "nat \<Rightarrow> jsobj list \<Rightarrow> search_page \<Rightarrow> search_page" where
  "store_rows r ds p = mod_object r (\<lambda>st. st\<lparr>st_rows := st_rows st @ ds, st_rowId := st_rowId st + length ds\<rparr>) p"

definition show_rows :: "(table \<Rightarrow> row cmp) \<Rightarrow> int \<Rightarrow> jsobj list \<Rightarrow> search_page \<Rightarrow> search_page" where
  "show_rows cmp i ds p =
     (if Some i = getSelectedSearchId p
      then redraw cmp (count_total (count_visible cmp (add_rows ds p)))
      else if ds \<noteq> [] then updateTabTitle i p else p)"

definition results_received :: "(table \<Rightarrow> row cmp) \<Rightarrow> int \<Rightarrow> nat \<Rightarrow> results_answer \<Rightarrow> search_page \<Rightarrow> search_page" where
  "results_received cmp i r ans p =
     (case sp_objects p r of
        None \<Rightarrow> p
      | Some st \<Rightarrow>
          let newRows = number_rows (st_rowId st) (ra_results ans);
              p = show_rows cmp i newRows (store_rows r newRows p)
          in if ra_status ans = ''Stopped'' \<and> ra_total ans \<le> st_rowId st + length newRows
             then updateStatusIconElement i IconFinished (resetSearchState (Some i) p)
             else rearm r (if maxResults \<le> length newRows then 0 else 2000) i p)"

text \<open>
  The handler runs in two parts. When the answer arrives it looks up the state of the search; if that
  runs it waits for the text of the answer and then goes on with the object it found, whatever
  has become of the search in between. \<open>waits_with\<close> is that object.
\<close>

definition waits_with :: "int \<Rightarrow> search_page \<Rightarrow> nat option" where
  "waits_with i p =
     (case map_get (searchState p) i of
        None \<Rightarrow> None
      | Some r \<Rightarrow> (case sp_objects p r of None \<Rightarrow> None | Some st \<Rightarrow> if st_running st then Some r else None))"

definition results_answered :: "int \<Rightarrow> nat \<Rightarrow> results_reply \<Rightarrow> search_page \<Rightarrow> search_page" where
  "results_answered i sent_with reply p =
     (case reply of
        ReplyFailed \<Rightarrow> rearm sent_with 3000 i p
      | ReplyStatus status \<Rightarrow>
          if status = 400 \<or> status = 404 then updateStatusIconElement i IconError (resetSearchState (Some i) p)
          else (case map_get (searchState p) i of None \<Rightarrow> p | Some r \<Rightarrow> rearm r 3000 i p)
      | ReplyOk ans \<Rightarrow>
          (case map_get (searchState p) i of
             None \<Rightarrow> updateStatusIconElement i IconAborted p
           | Some r \<Rightarrow>
               (case sp_objects p r of
                  None \<Rightarrow> p
                | Some st \<Rightarrow>
                    if \<not> st_running st then updateStatusIconElement i IconAborted (clearTimeout (st_timer st) p) else p)))"

text \<open>The second part, which looks at nothing again.\<close>

definition results_read :: "(table \<Rightarrow> row cmp) \<Rightarrow> int \<Rightarrow> nat \<Rightarrow> results_answer option \<Rightarrow> search_page \<Rightarrow> search_page" where
  "results_read cmp i r text p = (case text of None \<Rightarrow> rearm r 2000 i p | Some ans \<Rightarrow> results_received cmp i r ans p)"

section \<open>Using the results\<close>

text \<open>
  A property of each selected row; a row that is gone is \<open>undefined\<close>, and reading its data throws.
\<close>

definition selected_values :: "string \<Rightarrow> search_page \<Rightarrow> js_error + jsval list" where
  "selected_values x p =
     (if list_ex (\<lambda>rid. map_get (rows (sp_table p)) rid = None) (selectedRows (sp_table p)) then Inl TypeError
      else Inr (List.map_filter (\<lambda>rid. map_option (\<lambda>r. prop_get (full_data r) x) (map_get (rows (sp_table p)) rid))
                  (selectedRows (sp_table p))))"

text \<open>The names, download links or description links that are copied, one on a line.\<close>

definition copySearchData :: "string \<Rightarrow> search_page \<Rightarrow> js_error + string" where
  "copySearchData x p =
     (case selected_values x p of Inl e \<Rightarrow> Inl e | Inr vs \<Rightarrow> Inr (js_join [CHR 10] (map js_String vs)))"

text \<open>The addresses of the request to add torrents; nothing is sent without a selection.\<close>

definition downloadSearchTorrent :: "search_page \<Rightarrow> js_error + string option" where
  "downloadSearchTorrent p =
     (case selected_values ''fileUrl'' p of
        Inl e \<Rightarrow> Inl e
      | Inr urls \<Rightarrow> Inr (if urls = [] then None else Some (js_join [CHR 10] (map js_String urls))))"

text \<open>The title, the addresses and the engines of one window for all selected results.\<close>

definition openSharedDownloadWindow :: "search_page \<Rightarrow> js_error + (string \<times> string \<times> jsval list) option" where
  "openSharedDownloadWindow p =
     (case (selected_values ''fileUrl'' p, selected_values ''engineName'' p) of
        (Inr urls, Inr engines) \<Rightarrow>
          Inr (if urls = [] then None
               else Some (js_replace ''%1'' (nat_str (length urls)) ''Add %1 torrents'', js_join [CHR 10] (map js_String urls), engines))
      | _ \<Rightarrow> Inl TypeError)"

section \<open>The menu of the tabs and the start of the page\<close>

definition useSearchText :: "int \<Rightarrow> search_page \<Rightarrow> search_page" where
  "useSearchText i p =
     (case get_job p i of None \<Rightarrow> p | Some st \<Rightarrow> updateSearchButtonState (p\<lparr>sp_pattern := st_searchPattern st\<rparr>))"

text \<open>Opening the menu on a tab activates the tab; the item to stop is there for a running search.\<close>

definition show_tab_menu :: "(table \<Rightarrow> row cmp) \<Rightarrow> int \<Rightarrow> search_page \<Rightarrow> search_page \<times> bool" where
  "show_tab_menu cmp i p =
     (let p = setActiveTab cmp i p in
      (p, case get_job p i of None \<Rightarrow> False | Some st \<Rightarrow> st_running st))"

definition restore_search_tabs :: "(table \<Rightarrow> row cmp) \<Rightarrow> search_page \<Rightarrow> search_page" where
  "restore_search_tabs cmp p = foldl (\<lambda>p (i, pattern). createSearchTab cmp i pattern p) p (sp_jobs p)"

end
