(* ===== verification/SearchFlow.thy ===== *)
theory SearchFlow
  imports SearchTabs
begin

text \<open>
  The search page and the server together: requests and answers travel, in any order, and may get
  lost. The invariant of the whole system is stated over what the page keeps of its searches,
  which most of its operations do not touch.
\<close>

section \<open>What the page keeps of its searches\<close>

record core_job =
  kj_rows :: "jsobj list"
  kj_rowId :: nat
  kj_running :: bool
  kj_timer :: "nat option"

record core =
  k_state :: "(int, nat) jsmap"
  k_objects :: "nat \<Rightarrow> core_job option"
  k_next :: nat
  k_tabs :: "(int \<times> tab_icon) list"
  k_timers :: "(nat \<times> nat \<times> int) list"
  k_nextTimer :: nat
  k_requests :: "search_request list"

definition core_of_job :: "search_job \<Rightarrow> core_job" where
  "core_of_job st = \<lparr>kj_rows = st_rows st, kj_rowId = st_rowId st, kj_running = st_running st, kj_timer = st_timer st\<rparr>"

definition core_of :: "search_page \<Rightarrow> core" where
  "core_of p = \<lparr>k_state = searchState p, k_objects = (\<lambda>r. map_option core_of_job (sp_objects p r)), k_next = sp_nextObject p,
     k_tabs = map (\<lambda>t. (tab_id t, tab_icon t)) (sp_tabs p), k_timers = sp_timers p, k_nextTimer = sp_nextTimer p,
     k_requests = sp_requests p\<rparr>"

lemma core_of_simps [simp]:
  "k_state (core_of p) = searchState p" "k_objects (core_of p) r = map_option core_of_job (sp_objects p r)"
  "k_next (core_of p) = sp_nextObject p" "k_timers (core_of p) = sp_timers p" "k_nextTimer (core_of p) = sp_nextTimer p"
  "k_requests (core_of p) = sp_requests p" "k_tabs (core_of p) = map (\<lambda>t. (tab_id t, tab_icon t)) (sp_tabs p)"
  by (simp_all add: core_of_def)

lemma core_of_job_simps [simp]:
  "kj_rows (core_of_job st) = st_rows st" "kj_rowId (core_of_job st) = st_rowId st"
  "kj_running (core_of_job st) = st_running st" "kj_timer (core_of_job st) = st_timer st"
  by (simp_all add: core_of_job_def)

text \<open>The operations on what is kept.\<close>

definition k_job :: "core \<Rightarrow> int \<Rightarrow> core_job option" where
  "k_job k i = Option.bind (map_get (k_state k) i) (k_objects k)"

definition k_mod :: "nat \<Rightarrow> (core_job \<Rightarrow> core_job) \<Rightarrow> core \<Rightarrow> core" where
  "k_mod r f k = k\<lparr>k_objects := (k_objects k)(r := map_option f (k_objects k r))\<rparr>"

definition k_clear :: "nat option \<Rightarrow> core \<Rightarrow> core" where
  "k_clear n k = (case n of None \<Rightarrow> k | Some n \<Rightarrow> k\<lparr>k_timers := filter (\<lambda>(m, _). m \<noteq> n) (k_timers k)\<rparr>)"

definition k_rearm :: "nat \<Rightarrow> nat \<Rightarrow> int \<Rightarrow> core \<Rightarrow> core" where
  "k_rearm r delay i k =
     (let k = k_clear (Option.bind (k_objects k r) kj_timer) k; n = k_nextTimer k
      in k_mod r (\<lambda>st. st\<lparr>kj_timer := Some n\<rparr>) (k\<lparr>k_timers := k_timers k @ [(n, delay, i)], k_nextTimer := Suc n\<rparr>))"

fun on_icon :: "int \<Rightarrow> tab_icon \<Rightarrow> (int \<times> tab_icon) list \<Rightarrow> (int \<times> tab_icon) list" where
  "on_icon i ic [] = []"
| "on_icon i ic ((j, c) # ts) = (if j = i then (j, ic) # ts else (j, c) # on_icon i ic ts)"

definition k_icon :: "int \<Rightarrow> tab_icon \<Rightarrow> core \<Rightarrow> core" where
  "k_icon i ic k = k\<lparr>k_tabs := on_icon i ic (k_tabs k)\<rparr>"

definition k_stop :: "int \<Rightarrow> core \<Rightarrow> core" where
  "k_stop i k =
     (case map_get (k_state k) i of
        None \<Rightarrow> k
      | Some r \<Rightarrow> (case k_objects k r of
            None \<Rightarrow> k
          | Some st \<Rightarrow> k_mod r (\<lambda>st. st\<lparr>kj_running := False, kj_timer := None\<rparr>) (k_clear (kj_timer st) k)))"

section \<open>Operations that leave it as it is\<close>

named_theorems core_same \<open>operations that do not touch what the page keeps of its searches\<close>

lemma on_tab_keeps:
  "(\<And>t. tab_id (f t) = tab_id t \<and> tab_icon (f t) = tab_icon t) \<Longrightarrow>
   map (\<lambda>t. (tab_id t, tab_icon t)) (on_tab i f ts) = map (\<lambda>t. (tab_id t, tab_icon t)) ts"
  by (induction i f ts rule: on_tab.induct) auto

lemma core_eqI:
  assumes "searchState p' = searchState p" "sp_nextObject p' = sp_nextObject p"
    "\<And>r. map_option core_of_job (sp_objects p' r) = map_option core_of_job (sp_objects p r)"
    "map (\<lambda>t. (tab_id t, tab_icon t)) (sp_tabs p') = map (\<lambda>t. (tab_id t, tab_icon t)) (sp_tabs p)"
    "sp_timers p' = sp_timers p" "sp_nextTimer p' = sp_nextTimer p" "sp_requests p' = sp_requests p"
  shows "core_of p' = core_of p"
  using assms by (simp add: core_of_def)

lemma core_fields [core_same]:
  "core_of (p\<lparr>sp_table := t\<rparr>) = core_of p" "core_of (p\<lparr>sp_filters := f\<rparr>) = core_of p"
  "core_of (p\<lparr>sp_fields := ff\<rparr>) = core_of p" "core_of (p\<lparr>sp_jobs := js\<rparr>) = core_of p"
  "core_of (p\<lparr>sp_prefs := pr\<rparr>) = core_of p" "core_of (p\<lparr>sp_pattern := pat\<rparr>) = core_of p"
  "core_of (p\<lparr>sp_stopButton := b\<rparr>) = core_of p" "core_of (p\<lparr>sp_numVisible := n\<rparr>) = core_of p"
  "core_of (p\<lparr>sp_numTotal := n\<rparr>) = core_of p" "core_of (p\<lparr>sp_noSearchesHidden := b\<rparr>) = core_of p"
  "core_of (p\<lparr>sp_resultsHidden := b\<rparr>) = core_of p"
  "core_of (p\<lparr>sp_category := c\<rparr>) = core_of p" "core_of (p\<lparr>sp_plugins := c\<rparr>) = core_of p"
  by (simp_all add: core_of_def)

lemma core_mod_object:
  "(\<And>st. core_of_job (f st) = g (core_of_job st)) \<Longrightarrow> core_of (mod_object r f p) = k_mod r g (core_of p)"
  by (auto simp: core_of_def mod_object_def k_mod_def fun_eq_iff option.map_comp comp_def)

lemma core_mod_job_same:
  "(\<And>st. core_of_job (f st) = core_of_job st) \<Longrightarrow> core_of (mod_job i f p) = core_of p"
  by (rule core_eqI) (auto simp: mod_job_def mod_object_def option.map_comp comp_def split: option.split)

lemma core_views [core_same]:
  "core_of (updateTabTitle i p) = core_of p" "core_of (updateSearchButtonState p) = core_of p"
  "core_of (resetFilters p) = core_of p" "core_of (redraw cmp p) = core_of p" "core_of (count_visible cmp p) = core_of p"
  "core_of (count_total p) = core_of p" "core_of (select_tab i p) = core_of p" "core_of (clear_results cmp p) = core_of p"
  "core_of (add_rows ds p) = core_of p" "core_of (restore_filters st p) = core_of p" "core_of (restore_sort cmp st p) = core_of p"
  "core_of (reselect_rows ids p) = core_of p" "core_of (saveCurrentTabState p) = core_of p"
proof -
  show "core_of (updateTabTitle i p) = core_of p"
    by (rule core_eqI) (auto simp: updateTabTitle_def Let_def on_tab_keeps split: option.split)
  show "core_of (select_tab i p) = core_of p"
    by (rule core_eqI) (simp_all add: select_tab_def)
  show "core_of (saveCurrentTabState p) = core_of p"
    by (auto simp: saveCurrentTabState_def Let_def core_of_job_def intro!: core_mod_job_same split: option.split)
  show "core_of (restore_sort cmp st p) = core_of p"
    by (simp add: restore_sort_def core_of_def split: prod.split)
qed (simp_all add: updateSearchButtonState_def resetFilters_def redraw_def count_visible_def count_total_def clear_results_def
    add_rows_def restore_filters_def reselect_rows_def core_of_def)

lemma core_setActiveTab [core_same]: "core_of (setActiveTab cmp i p) = core_of p"
proof -
  have "core_of (restore_tab cmp i p) = core_of p" for p
    by (auto simp: restore_tab_def Let_def core_same core_mod_job_same core_of_job_def split: option.split)
  then show ?thesis by (simp add: setActiveTab_def Let_def core_same)
qed

lemma core_filters [core_same]:
  "core_of (nameFilterChanged cmp p) = core_of p" "core_of (searchSeedsFilterChanged cmp p) = core_of p"
  "core_of (searchSizeFilterPrefixChanged cmp p) = core_of p" "core_of (searchSizeFilterChanged cmp p) = core_of p"
  "core_of (searchInTorrentName cmp b p) = core_of p"
  by (simp_all add: nameFilterChanged_def searchSeedsFilterChanged_def searchSizeFilterPrefixChanged_def
      searchSizeFilterChanged_def searchInTorrentName_def searchFilterChanged_def core_same)

section \<open>Operations that change it\<close>

named_theorems core_ops \<open>operations of the page as operations on what it keeps of its searches\<close>

lemma core_send [core_ops]: "core_of (send q p) = (core_of p)\<lparr>k_requests := sp_requests p @ [q]\<rparr>"
  by (simp add: send_def core_of_def)

lemma core_clearTimeout [core_ops]: "core_of (clearTimeout n p) = k_clear n (core_of p)"
  by (simp add: clearTimeout_def k_clear_def core_of_def split: option.split)

lemma core_icon [core_ops]: "core_of (updateStatusIconElement i ic p) = k_icon i ic (core_of p)"
proof -
  have "map (\<lambda>t. (tab_id t, tab_icon t)) (on_tab i (\<lambda>t. t\<lparr>tab_icon := ic\<rparr>) ts) = on_icon i ic (map (\<lambda>t. (tab_id t, tab_icon t)) ts)" for ts
    by (induction ts) auto
  then show ?thesis by (simp add: updateStatusIconElement_def k_icon_def core_of_def)
qed

lemma core_rearm [core_ops]: "core_of (rearm r delay i p) = k_rearm r delay i (core_of p)"
proof -
  define q where "q = clearTimeout (Option.bind (sp_objects p r) st_timer) p"
  have "Option.bind (sp_objects p r) st_timer = Option.bind (k_objects (core_of p) r) kj_timer"
    by (cases "sp_objects p r") simp_all
  then have q: "k_clear (Option.bind (k_objects (core_of p) r) kj_timer) (core_of p) = core_of q"
    by (simp only: q_def core_clearTimeout)
  have "core_of (q\<lparr>sp_timers := ts, sp_nextTimer := n\<rparr>) = (core_of q)\<lparr>k_timers := ts, k_nextTimer := n\<rparr>" for ts n
    by (simp add: core_of_def)
  then show ?thesis
    unfolding rearm_def k_rearm_def Let_def q q_def [symmetric]
    by (subst core_mod_object [where g = "\<lambda>st. st\<lparr>kj_timer := Some (sp_nextTimer q)\<rparr>"]) (simp_all add: core_of_job_def)
qed

lemma core_job [core_ops]: "map_option core_of_job (get_job p i) = k_job (core_of p) i"
  by (cases "map_get (searchState p) i") (simp_all add: get_job_def k_job_def)

lemma core_stop [core_ops]: "core_of (resetSearchState (Some i) p) = k_stop i (core_of p)"
proof (cases "map_get (searchState p) i")
  case None
  then show ?thesis by (simp add: resetSearchState_def k_stop_def get_job_def core_same)
next
  case (Some r)
  have "core_of (mod_job i (\<lambda>st. st\<lparr>st_running := False, st_timer := None\<rparr>) q) =
      k_mod r (\<lambda>st. st\<lparr>kj_running := False, kj_timer := None\<rparr>) (core_of q)" if "searchState q = searchState p" for q
    using Some that by (simp add: mod_job_def) (rule core_mod_object, simp add: core_of_job_def)
  moreover have "searchState (clearTimeout n p) = searchState p" for n by (simp add: clearTimeout_def split: option.split)
  ultimately show ?thesis using Some
    by (auto simp: resetSearchState_def k_stop_def get_job_def core_same core_clearTimeout split: option.split)
qed

lemma core_stop_none [core_same]: "core_of (resetSearchState None p) = core_of p"
  by (simp add: resetSearchState_def core_same)

definition k_send :: "search_request \<Rightarrow> core \<Rightarrow> core" where
  "k_send q k = k\<lparr>k_requests := k_requests k @ [q]\<rparr>"

definition fresh_job :: core_job where
  "fresh_job = \<lparr>kj_rows = [], kj_rowId = 0, kj_running = True, kj_timer = None\<rparr>"

definition k_open :: "int \<Rightarrow> core \<Rightarrow> core" where
  "k_open i k =
     k_rearm (k_next k) 500 i (k\<lparr>k_tabs := k_tabs k @ [(i, IconSearching)], k_state := map_set i (k_next k) (k_state k),
       k_objects := (k_objects k)(k_next k := Some fresh_job), k_next := Suc (k_next k)\<rparr>)"

fun rename_tab :: "int \<Rightarrow> int \<Rightarrow> (int \<times> tab_icon) list \<Rightarrow> (int \<times> tab_icon) list" where
  "rename_tab old new [] = []"
| "rename_tab old new ((j, c) # ts) = (if j = old then (new, c) # ts else (j, c) # rename_tab old new ts)"

definition k_poll :: "int \<Rightarrow> core \<Rightarrow> core" where
  "k_poll i k = (case map_get (k_state k) i of None \<Rightarrow> k | Some r \<Rightarrow> k_rearm r 500 i k)"

definition k_refresh :: "int \<Rightarrow> int \<Rightarrow> core \<Rightarrow> core" where
  "k_refresh old new k =
     (let k = k_send (ReqDelete old) k in
      if old \<notin> set (keys (k_tabs k)) then k
      else let k = k_icon new IconSearching (k\<lparr>k_tabs := rename_tab old new (k_tabs k)\<rparr>) in
        case map_get (k_state k) old of
          None \<Rightarrow> k
        | Some r \<Rightarrow>
            k_poll new ((k_mod r (\<lambda>_. fresh_job) k)\<lparr>k_state := map_delete old (map_set new r (k_state k))\<rparr>))"

fun drop_icon :: "int \<Rightarrow> (int \<times> tab_icon) list \<Rightarrow> (int \<times> tab_icon) list" where
  "drop_icon i [] = []"
| "drop_icon i ((j, c) # ts) = (if j = i then ts else (j, c) # drop_icon i ts)"

definition k_close :: "int \<Rightarrow> core \<Rightarrow> core" where
  "k_close i k =
     (if i \<notin> set (keys (k_tabs k)) then k
      else let k = (case k_job k i of None \<Rightarrow> k | Some st \<Rightarrow> if kj_running st then k_send (ReqStop i) k else k)
        in (k_send (ReqDelete i) k)\<lparr>k_tabs := drop_icon i (k_tabs k), k_state := map_delete i (k_state k)\<rparr>)"

definition k_load :: "int \<Rightarrow> core \<Rightarrow> core" where
  "k_load i k =
     (case map_get (k_state k) i of
        None \<Rightarrow> k
      | Some r \<Rightarrow> (case k_objects k r of None \<Rightarrow> k | Some st \<Rightarrow> k_send (ReqResults i maxResults (kj_rowId st) r) k))"

definition k_store :: "nat \<Rightarrow> jsobj list \<Rightarrow> core \<Rightarrow> core" where
  "k_store r ds k = k_mod r (\<lambda>st. st\<lparr>kj_rows := kj_rows st @ ds, kj_rowId := kj_rowId st + length ds\<rparr>) k"

definition k_received :: "int \<Rightarrow> nat \<Rightarrow> core_job \<Rightarrow> results_answer \<Rightarrow> core \<Rightarrow> core" where
  "k_received i r st ans k =
     (let newRows = number_rows (kj_rowId st) (ra_results ans);
          k = k_store r newRows k
      in if ra_status ans = ''Stopped'' \<and> ra_total ans \<le> kj_rowId st + length newRows
         then k_icon i IconFinished (k_stop i k)
         else k_rearm r (if maxResults \<le> length newRows then 0 else 2000) i k)"

definition k_answered :: "int \<Rightarrow> nat \<Rightarrow> results_reply \<Rightarrow> core \<Rightarrow> core" where
  "k_answered i sent_with reply k =
     (case reply of
        ReplyFailed \<Rightarrow> k_rearm sent_with 3000 i k
      | ReplyStatus status \<Rightarrow>
          if status = 400 \<or> status = 404 then k_icon i IconError (k_stop i k)
          else (case map_get (k_state k) i of None \<Rightarrow> k | Some r \<Rightarrow> k_rearm r 3000 i k)
      | ReplyOk ans \<Rightarrow>
          (case map_get (k_state k) i of
             None \<Rightarrow> k_icon i IconAborted k
           | Some r \<Rightarrow>
               (case k_objects k r of
                  None \<Rightarrow> k
                | Some st \<Rightarrow>
                    if \<not> kj_running st then k_icon i IconAborted (k_clear (kj_timer st) k) else k)))"

definition k_read :: "int \<Rightarrow> nat \<Rightarrow> results_answer option \<Rightarrow> core \<Rightarrow> core" where
  "k_read i r answer k =
     (case answer of
        None \<Rightarrow> k_rearm r 2000 i k
      | Some ans \<Rightarrow> (case k_objects k r of None \<Rightarrow> k | Some st \<Rightarrow> k_received i r st ans k))"

lemma core_send' [core_ops]: "core_of (send q p) = k_send q (core_of p)"
  by (simp add: core_send k_send_def)

lemma core_poll [core_ops]: "core_of (updateSearchResultsData i p) = k_poll i (core_of p)"
  by (simp add: updateSearchResultsData_def k_poll_def core_rearm split: option.split)

lemma core_state: "core_of p = core_of q \<Longrightarrow> searchState p = searchState q \<and> sp_nextObject p = sp_nextObject q"
  by (simp add: core_of_def)

lemma core_setActiveTab_fields [simp]:
  "searchState (setActiveTab cmp i p) = searchState p" "sp_nextObject (setActiveTab cmp i p) = sp_nextObject p"
  using core_state [OF core_setActiveTab [of cmp i p]] by simp_all

lemma core_open [core_ops]: "core_of (createSearchTab cmp i pattern p) = k_open i (core_of p)"
proof -
  define q where "q = resetFilters (clear_results cmp (setActiveTab cmp i (add_tab i pattern p)))"
  have "core_of q = (core_of p)\<lparr>k_tabs := k_tabs (core_of p) @ [(i, IconSearching)]\<rparr>"
    by (simp add: q_def core_same add_tab_def) (simp add: core_of_def)
  then have "core_of (add_job i (new_job pattern q) q) = (core_of p)\<lparr>k_tabs := k_tabs (core_of p) @ [(i, IconSearching)],
      k_state := map_set i (k_next (core_of p)) (k_state (core_of p)),
      k_objects := (k_objects (core_of p))(k_next (core_of p) := Some fresh_job), k_next := Suc (k_next (core_of p))\<rparr>"
    by (auto simp: core_of_def add_job_def new_job_def fresh_job_def core_of_job_def Let_def fun_eq_iff)
  moreover have "sp_nextObject q = sp_nextObject p"
    by (simp add: q_def resetFilters_def clear_results_def add_tab_def)
  ultimately show ?thesis
    by (simp add: createSearchTab_def Let_def q_def [symmetric] updateSearchResultsData_def add_job_def core_rearm k_open_def)
qed

lemma core_move:
  "map_get (searchState p) old = Some r \<Longrightarrow> core_of (move_job old new p) =
     (k_mod r (\<lambda>_. fresh_job) (core_of p))\<lparr>k_state := map_delete old (map_set new r (searchState p))\<rparr>"
  by (auto simp: move_job_def Let_def k_mod_def core_of_def mod_object_def fresh_job_def core_of_job_def fun_eq_iff
      option.map_comp comp_def)

lemma rename_icons:
  "map (\<lambda>t. (tab_id t, tab_icon t)) (on_tab old (\<lambda>t. t\<lparr>tab_id := new\<rparr>) ts) = rename_tab old new (map (\<lambda>t. (tab_id t, tab_icon t)) ts)"
  by (induction ts) auto

lemma core_refresh [core_ops]: "core_of (fst (refreshSearchTab cmp old new p)) = k_refresh old new (core_of p)"
proof (cases "has_tab p old")
  case False
  then have "old \<notin> set (keys (k_tabs (k_send (ReqDelete old) (core_of p))))"
    by (auto simp: has_tab_def k_send_def)
  moreover have "\<not> has_tab ((send (ReqDelete old) p)\<lparr>sp_jobs := js\<rparr>) old" for js
    using False by (simp add: has_tab_def send_def)
  ultimately show ?thesis
    by (simp add: refreshSearchTab_def k_refresh_def Let_def core_same core_send')
next
  case True
  define q where "q = updateStatusIconElement new IconSearching
    (((send (ReqDelete old) p)\<lparr>sp_jobs := rename_job old new (sp_jobs (send (ReqDelete old) p))\<rparr>)
      \<lparr>sp_tabs := on_tab old (\<lambda>t. t\<lparr>tab_id := new\<rparr>) (sp_tabs p)\<rparr>)"
  have q: "core_of q = k_icon new IconSearching ((k_send (ReqDelete old) (core_of p))\<lparr>k_tabs := rename_tab old new (k_tabs (core_of p))\<rparr>)"
    unfolding q_def core_icon by (simp add: core_of_def k_send_def send_def rename_icons)
  have st: "searchState q = searchState p" by (simp add: q_def updateStatusIconElement_def send_def)
  have has: "has_tab ((send (ReqDelete old) p)\<lparr>sp_jobs := js\<rparr>) old" "old \<in> set (keys (k_tabs (k_send (ReqDelete old) (core_of p))))"
      "sp_tabs ((send (ReqDelete old) p)\<lparr>sp_jobs := js\<rparr>) = sp_tabs p" for js
    using True by (auto simp: has_tab_def send_def k_send_def comp_def)
  have eq: "refreshSearchTab cmp old new p = (if map_get (searchState q) old = None then (q, Some TypeError)
      else (updateSearchResultsData new (clear_results cmp (updateTabTitle new (move_job old new q))), None))"
    unfolding refreshSearchTab_def Let_def using has by (simp add: q_def)
  have state: "searchState (clear_results cmp (updateTabTitle new t)) = searchState t" for t
    by (simp add: clear_results_def updateTabTitle_def Let_def split: option.split)
  show ?thesis
  proof (cases "map_get (searchState p) old")
    case None
    then show ?thesis using q has(2)
      by (simp add: eq st k_refresh_def Let_def) (simp add: k_send_def k_icon_def)
  next
    case (Some r)
    with st have "core_of (move_job old new q) =
        (k_mod r (\<lambda>_. fresh_job) (core_of q))\<lparr>k_state := map_delete old (map_set new r (k_state (core_of q)))\<rparr>"
      by (simp add: core_move)
    moreover have "k_state (core_of q) = searchState p" by (simp add: st)
    ultimately show ?thesis using Some has(2) q
      by (simp add: eq st core_poll core_same k_refresh_def Let_def) (simp add: k_icon_def k_send_def)
  qed
qed

lemma drop_icons: "map (\<lambda>t. (tab_id t, tab_icon t)) (drop_tab i ts) = drop_icon i (map (\<lambda>t. (tab_id t, tab_icon t)) ts)"
  by (induction ts) auto

lemma core_close [core_ops]: "core_of (closeSearchTab cmp i p) = k_close i (core_of p)"
proof (cases "find (\<lambda>t. tab_id t = i) (sp_tabs p)")
  case None
  then have "i \<notin> set (keys (k_tabs (core_of p)))" by (auto simp: find_None_iff)
  with None show ?thesis by (simp add: closeSearchTab_def k_close_def)
next
  case (Some tab)
  then have has: "i \<in> set (keys (k_tabs (core_of p)))" by (auto simp: find_Some_iff)
  define p1 where "p1 = (case get_job p i of None \<Rightarrow> p | Some st \<Rightarrow> if st_running st then stopSearch i p else p)"
  define p2 where "p2 = (send (ReqDelete i) (p1\<lparr>sp_tabs := drop_tab i (sp_tabs p1)\<rparr>))"
  define p3 where "p3 = p2\<lparr>sp_jobs := remove_job i (sp_jobs p2), searchState := map_delete i (searchState p2)\<rparr>"
  have "core_of (closeSearchTab cmp i p) = core_of p3"
    unfolding closeSearchTab_def Some option.case Let_def p1_def [symmetric] p2_def [symmetric] p3_def [symmetric]
    by (simp add: core_same split: option.split)
  moreover have "core_of p1 = (case k_job (core_of p) i of None \<Rightarrow> core_of p
      | Some st \<Rightarrow> if kj_running st then k_send (ReqStop i) (core_of p) else core_of p)"
    unfolding core_job [symmetric] p1_def by (cases "get_job p i") (simp_all add: stopSearch_def core_send')
  moreover have "core_of p3 = (k_send (ReqDelete i) (core_of p1))\<lparr>k_tabs := drop_icon i (k_tabs (core_of p1)),
      k_state := map_delete i (k_state (core_of p1))\<rparr>"
    by (simp add: p3_def p2_def core_of_def k_send_def send_def drop_icons)
  moreover have "k_tabs (k_send q k) = k_tabs k" "k_state (k_send q k) = k_state k" for q k by (simp_all add: k_send_def)
  moreover have "k_tabs (core_of p1) = k_tabs (core_of p)" "k_state (core_of p1) = k_state (core_of p)"
    by (auto simp: p1_def stopSearch_def send_def split: option.split)
  ultimately show ?thesis using has unfolding k_close_def Let_def by presburger
qed

lemma core_load [core_ops]: "core_of (loadSearchResultsData i p) = k_load i (core_of p)"
  by (auto simp: loadSearchResultsData_def k_load_def core_send' split: option.split)

lemma core_store: "core_of (store_rows r ds p) = k_store r ds (core_of p)"
  by (simp add: store_rows_def k_store_def) (rule core_mod_object, simp add: core_of_job_def)

lemma core_show: "core_of (show_rows cmp i ds p) = core_of p"
  by (simp add: show_rows_def core_same)

lemma core_received:
  assumes "sp_objects p r = Some st"
  shows "core_of (results_received cmp i r ans p) = k_received i r (core_of_job st) ans (core_of p)"
  using assms by (simp add: results_received_def k_received_def Let_def core_icon core_stop core_rearm core_show core_store)

lemma core_read [core_ops]: "core_of (results_read cmp i r answer p) = k_read i r answer (core_of p)"
proof (cases "sp_objects p r")
  case None
  then show ?thesis by (cases answer) (simp_all add: results_read_def k_read_def core_rearm results_received_def)
next
  case (Some st)
  then show ?thesis by (cases answer) (simp_all add: results_read_def k_read_def core_rearm core_received)
qed

lemma core_waits:
  "waits_with i p = (case map_get (k_state (core_of p)) i of None \<Rightarrow> None
     | Some r \<Rightarrow> (case k_objects (core_of p) r of None \<Rightarrow> None | Some st \<Rightarrow> if kj_running st then Some r else None))"
  by (simp add: waits_with_def split: option.split)

lemma core_answered [core_ops]: "core_of (results_answered i sent_with reply p) = k_answered i sent_with reply (core_of p)"
proof (cases reply)
  case (ReplyOk ans)
  show ?thesis
  proof (cases "map_get (searchState p) i")
    case None
    with ReplyOk show ?thesis by (simp add: results_answered_def k_answered_def core_icon)
  next
    case (Some r)
    show ?thesis
    proof (cases "sp_objects p r")
      case None
      with ReplyOk Some show ?thesis by (simp add: results_answered_def k_answered_def)
    next
      case (Some st)
      with ReplyOk \<open>map_get (searchState p) i = Some r\<close> show ?thesis
        by (simp add: results_answered_def k_answered_def core_icon core_clearTimeout)
    qed
  qed
qed (auto simp: results_answered_def k_answered_def core_icon core_stop core_rearm split: option.split)

section \<open>The page and the server\<close>

text \<open>
  Answers on their way, for the handlers that wait for them; \<open>AnsText\<close> is the text of an answer that has
  arrived, for the handler that waits with an object.
\<close>

datatype search_answer =
    AnsStart string "int option"
  | AnsRefresh int "int option"
  | AnsStop int bool
  | AnsResults int nat results_reply
  | AnsText int nat "results_answer option"

record server_env =
  env_python :: bool
  env_plugins :: "string list"
  env_enabled :: "string list"
  env_draws :: "int list"

record search_flow =
  fl_page :: search_page
  fl_server :: search_controller
  fl_answers :: "search_answer list"
  fl_used :: "int list"

text \<open>The status that the web server gives to an error.\<close>

definition reply_of :: "search_api_error + results_answer \<Rightarrow> results_reply" where
  "reply_of r = (case r of Inl SearchNotFound \<Rightarrow> ReplyStatus 404 | Inl SearchConflict \<Rightarrow> ReplyStatus 409 | Inr a \<Rightarrow> ReplyOk (Some a))"

text \<open>
  The server handles a request; \<open>None\<close> when it does not come to an end, for want of a free number.
  Ids are random numbers of 31 bits that name no present search; the model takes them also not to
  have been drawn before, for a search that is gone.
\<close>

definition serve_start ::
  "server_env \<Rightarrow> int list \<Rightarrow> string \<Rightarrow> string \<Rightarrow> string \<Rightarrow> search_controller
     \<Rightarrow> (int option \<times> search_controller \<times> int list) option"
where
  "serve_start env used pattern category plugins s =
     map_option (\<lambda>r. case r of Inl e \<Rightarrow> (None, s, used) | Inr (i, s') \<Rightarrow> (Some i, s', i # used))
       (startAction (env_python env) (env_plugins env) (env_enabled env) (filter (\<lambda>i. i \<notin> set used) (env_draws env))
          pattern category plugins s)"

fun serve ::
  "server_env \<Rightarrow> int list \<Rightarrow> search_request \<Rightarrow> search_controller \<Rightarrow> (search_answer list \<times> search_controller \<times> int list) option"
where
  "serve env used (ReqStart pattern category plugins) s =
     map_option (\<lambda>(i, s, used). ([AnsStart pattern i], s, used)) (serve_start env used pattern category plugins s)"
| "serve env used (ReqRefresh old pattern category plugins) s =
     map_option (\<lambda>(i, s, used). ([AnsRefresh old i], s, used)) (serve_start env used pattern category plugins s)"
| "serve env used (ReqStop i) s =
     Some (case stopAction i s of Inl e \<Rightarrow> ([AnsStop i False], s, used) | Inr s' \<Rightarrow> ([AnsStop i True], s', used))"
| "serve env used (ReqDelete i) s =
     Some (case deleteAction i s of Inl e \<Rightarrow> ([], s, used) | Inr s' \<Rightarrow> ([], s', used))"
| "serve env used (ReqResults i limit offset r) s =
     Some ([AnsResults i r (reply_of (resultsAction i (int limit) (int offset) s))], s, used)"

text \<open>
  A request refused with a status, and one that fails; only the request for results looks at that.
  When the text of an answer does not come the handler throws, and no timer is set any more.
\<close>

fun refuse :: "nat \<Rightarrow> search_request \<Rightarrow> search_answer list" where
  "refuse status (ReqStart pattern category plugins) = [AnsStart pattern None]"
| "refuse status (ReqRefresh old pattern category plugins) = [AnsRefresh old None]"
| "refuse status (ReqStop i) = [AnsStop i False]"
| "refuse status (ReqDelete i) = []"
| "refuse status (ReqResults i limit offset r) = [AnsResults i r (ReplyStatus status)]"

fun request_lost :: "search_request \<Rightarrow> search_answer list" where
  "request_lost (ReqResults i limit offset r) = [AnsResults i r ReplyFailed]"
| "request_lost _ = []"

fun answer_lost :: "search_answer \<Rightarrow> search_answer list" where
  "answer_lost (AnsResults i r reply) = [AnsResults i r ReplyFailed]"
| "answer_lost _ = []"

fun deliver :: "(table \<Rightarrow> row cmp) \<Rightarrow> search_answer \<Rightarrow> search_page \<Rightarrow> search_page" where
  "deliver cmp (AnsStart pattern i) p = start_answered cmp pattern i p"
| "deliver cmp (AnsRefresh old i) p = fst (refresh_answered cmp old i p)"
| "deliver cmp (AnsStop i okay) p = stop_answered i okay p"
| "deliver cmp (AnsResults i r reply) p = results_answered i r reply p"
| "deliver cmp (AnsText i r answer) p = results_read cmp i r answer p"

text \<open>What a handler goes on to wait for.\<close>

fun awaits :: "search_answer \<Rightarrow> search_page \<Rightarrow> search_answer list" where
  "awaits (AnsResults i r (ReplyOk answer)) p = (case waits_with i p of None \<Rightarrow> [] | Some r \<Rightarrow> [AnsText i r answer])"
| "awaits _ p = []"

datatype user_action =
    PressStart
  | TypePattern string
  | ChooseCategory string
  | ChoosePlugins string
  | ActivateTab int
  | CloseTab int
  | CloseAllTabs
  | RefreshTab int
  | StopTab int
  | UseTabText int
  | FilterFields filter_fields
  | NameFilter
  | SeedsFilter
  | SizeFilter
  | PrefixFilter
  | FilterInName bool
  | ClickRow bool bool "string option"

fun user_step :: "(table \<Rightarrow> row cmp) \<Rightarrow> user_action \<Rightarrow> search_page \<Rightarrow> search_page" where
  "user_step cmp PressStart p = startStopSearch p"
| "user_step cmp (TypePattern s) p = updateSearchButtonState (p\<lparr>sp_pattern := s\<rparr>)"
| "user_step cmp (ChooseCategory s) p = p\<lparr>sp_category := s\<rparr>"
| "user_step cmp (ChoosePlugins s) p = p\<lparr>sp_plugins := s\<rparr>"
| "user_step cmp (ActivateTab i) p = (if has_tab p i then setActiveTab cmp i p else p)"
| "user_step cmp (CloseTab i) p = closeSearchTab cmp i p"
| "user_step cmp CloseAllTabs p = closeAllTabs cmp p"
| "user_step cmp (RefreshTab i) p = fst (refreshSearch i p)"
| "user_step cmp (StopTab i) p = (if has_tab p i then stopSearch i p else p)"
| "user_step cmp (UseTabText i) p = useSearchText i p"
| "user_step cmp (FilterFields f) p = p\<lparr>sp_fields := f\<rparr>"
| "user_step cmp NameFilter p = nameFilterChanged cmp p"
| "user_step cmp SeedsFilter p = searchSeedsFilterChanged cmp p"
| "user_step cmp SizeFilter p = searchSizeFilterChanged cmp p"
| "user_step cmp PrefixFilter p = searchSizeFilterPrefixChanged cmp p"
| "user_step cmp (FilterInName b) p = searchInTorrentName cmp b p"
| "user_step cmp (ClickRow ctrl shift target) p = p\<lparr>sp_table := clickRow (page_fsr cmp p) ctrl shift target (sp_table p)\<rparr>"

datatype flow_event =
    User user_action
  | TimerFires nat
  | Served nat server_env
  | Refused nat nat
  | RequestLost nat
  | AnswerLost nat
  | Delivered nat
  | ProcessEvent server_event

definition drop_nth :: "nat \<Rightarrow> 'a list \<Rightarrow> 'a list" where
  "drop_nth n xs = take n xs @ drop (Suc n) xs"

definition process_event :: "server_event \<Rightarrow> bool" where
  "process_event e = (case e of ProcessPrinted i out \<Rightarrow> True | ProcessEnded i \<Rightarrow> True | SearchTimeout i \<Rightarrow> True | _ \<Rightarrow> False)"

definition take_request :: "nat \<Rightarrow> search_page \<Rightarrow> search_page" where
  "take_request n p = p\<lparr>sp_requests := drop_nth n (sp_requests p)\<rparr>"

fun search_step :: "(table \<Rightarrow> row cmp) \<Rightarrow> (string \<Rightarrow> string) \<Rightarrow> flow_event \<Rightarrow> search_flow \<Rightarrow> search_flow" where
  "search_step cmp names (User a) fl = fl\<lparr>fl_page := user_step cmp a (fl_page fl)\<rparr>"
| "search_step cmp names (TimerFires n) fl =
     (if n < length (sp_timers (fl_page fl))
      then fl\<lparr>fl_page := loadSearchResultsData (snd (snd (sp_timers (fl_page fl) ! n)))
               ((fl_page fl)\<lparr>sp_timers := drop_nth n (sp_timers (fl_page fl))\<rparr>)\<rparr>
      else fl)"
| "search_step cmp names (Served n env) fl =
     (if n < length (sp_requests (fl_page fl))
      then (case serve env (fl_used fl) (sp_requests (fl_page fl) ! n) (fl_server fl) of
              None \<Rightarrow> fl
            | Some (as, s, used) \<Rightarrow> \<lparr>fl_page = take_request n (fl_page fl), fl_server = s, fl_answers = fl_answers fl @ as, fl_used = used\<rparr>)
      else fl)"
| "search_step cmp names (Refused n status) fl =
     (if n < length (sp_requests (fl_page fl))
      then fl\<lparr>fl_page := take_request n (fl_page fl), fl_answers := fl_answers fl @ refuse status (sp_requests (fl_page fl) ! n)\<rparr>
      else fl)"
| "search_step cmp names (RequestLost n) fl =
     (if n < length (sp_requests (fl_page fl))
      then fl\<lparr>fl_page := take_request n (fl_page fl), fl_answers := fl_answers fl @ request_lost (sp_requests (fl_page fl) ! n)\<rparr>
      else fl)"
| "search_step cmp names (AnswerLost n) fl =
     (if n < length (fl_answers fl)
      then fl\<lparr>fl_answers := drop_nth n (fl_answers fl) @ answer_lost (fl_answers fl ! n)\<rparr>
      else fl)"
| "search_step cmp names (Delivered n) fl =
     (if n < length (fl_answers fl)
      then fl\<lparr>fl_page := deliver cmp (fl_answers fl ! n) (fl_page fl),
             fl_answers := drop_nth n (fl_answers fl) @ awaits (fl_answers fl ! n) (fl_page fl)\<rparr>
      else fl)"
| "search_step cmp names (ProcessEvent e) fl =
     (if process_event e then fl\<lparr>fl_server := server_step names e (fl_server fl)\<rparr> else fl)"

definition search_run :: "(table \<Rightarrow> row cmp) \<Rightarrow> (string \<Rightarrow> string) \<Rightarrow> flow_event list \<Rightarrow> search_flow \<Rightarrow> search_flow" where
  "search_run cmp names events fl = foldl (\<lambda>fl e. search_step cmp names e fl) fl events"

end
