(* ===== verification/SearchRows.thy ===== *)
theory SearchRows
  imports SearchFlow
begin

text \<open>
  The invariant of the search page and the server, whatever the user does and whatever becomes of
  the messages: a search has at most one poll under way, and its rows are the first results
  that the server has for it, each once and in order.
\<close>

section \<open>Counting the polls of a search\<close>

fun request_poll :: "search_request \<Rightarrow> int list" where
  "request_poll (ReqResults i limit offset r) = [i]"
| "request_poll _ = []"

fun answer_poll :: "search_answer \<Rightarrow> int list" where
  "answer_poll (AnsResults i r reply) = [i]"
| "answer_poll (AnsText i r answer) = [i]"
| "answer_poll _ = []"

definition poll_ids :: "core \<Rightarrow> search_answer list \<Rightarrow> int list" where
  "poll_ids k A = map (\<lambda>(n, delay, i). i) (k_timers k) @ concat (map request_poll (k_requests k)) @ concat (map answer_poll A)"

definition polls :: "core \<Rightarrow> search_answer list \<Rightarrow> int \<Rightarrow> nat" where
  "polls k A i = count_list (poll_ids k A) i"

text \<open>The searches that messages speak of, and those that are started but have no tab yet.\<close>

fun request_names :: "search_request \<Rightarrow> int list" where
  "request_names (ReqStart pattern category plugins) = []"
| "request_names (ReqRefresh old pattern category plugins) = [old]"
| "request_names (ReqStop i) = [i]"
| "request_names (ReqDelete i) = [i]"
| "request_names (ReqResults i limit offset r) = [i]"

fun answer_names :: "search_answer \<Rightarrow> int list" where
  "answer_names (AnsStart pattern i) = []"
| "answer_names (AnsRefresh old i) = [old]"
| "answer_names (AnsStop i okay) = [i]"
| "answer_names (AnsResults i r reply) = [i]"
| "answer_names (AnsText i r answer) = [i]"

fun answer_born :: "search_answer \<Rightarrow> int list" where
  "answer_born (AnsStart pattern (Some i)) = [i]"
| "answer_born (AnsRefresh old (Some i)) = [i]"
| "answer_born _ = []"

text \<open>The results that answers bring, whether their text has still to be read or not.\<close>

fun answer_text :: "search_answer \<Rightarrow> (int \<times> results_answer) option" where
  "answer_text (AnsResults i r (ReplyOk (Some a))) = Some (i, a)"
| "answer_text (AnsText i r (Some a)) = Some (i, a)"
| "answer_text _ = None"

definition texts :: "search_answer list \<Rightarrow> (int \<times> results_answer) set" where
  "texts A = {t. \<exists>a \<in> set A. answer_text a = Some t}"

lemma texts_parts [simp]:
  "texts (A @ B) = texts A \<union> texts B" "texts (a # A) = (case answer_text a of None \<Rightarrow> {} | Some t \<Rightarrow> {t}) \<union> texts A" "texts [] = {}"
  by (auto simp: texts_def split: option.split)

lemma texts_results: "(j, a) \<in> texts [AnsResults i r reply] \<longleftrightarrow> j = i \<and> reply = ReplyOk (Some a)"
  by (cases "AnsResults i r reply" rule: answer_text.cases) auto

definition mentions :: "core \<Rightarrow> search_answer list \<Rightarrow> int set" where
  "mentions k A = (\<lambda>(n, delay, i). i) ` set (k_timers k) \<union> (\<Union>q \<in> set (k_requests k). set (request_names q))
     \<union> (\<Union>a \<in> set A. set (answer_names a))"

definition newborn :: "search_answer list \<Rightarrow> int list" where
  "newborn A = concat (map answer_born A)"

definition live_ids :: "core \<Rightarrow> int set" where
  "live_ids k = set (keys (k_state k))"

section \<open>The invariant\<close>

definition results_of :: "search_controller \<Rightarrow> int \<Rightarrow> search_result list" where
  "results_of s i = (case map_get (searchHandlers s) i of None \<Rightarrow> [] | Some h \<Rightarrow> sh_results h)"

definition rows_ok :: "search_controller \<Rightarrow> int \<Rightarrow> core_job \<Rightarrow> bool" where
  "rows_ok s i st \<longleftrightarrow>
     kj_rowId st \<le> length (results_of s i) \<and> kj_rows st = number_rows 0 (take (kj_rowId st) (results_of s i))"

definition ended_with :: "search_controller \<Rightarrow> int \<Rightarrow> nat \<Rightarrow> bool" where
  "ended_with s i n \<longleftrightarrow> (\<exists>h. map_get (searchHandlers s) i = Some h \<and> \<not> sh_running h \<and> length (sh_results h) = n)"

definition answer_ok :: "search_controller \<Rightarrow> int \<Rightarrow> core_job \<Rightarrow> results_answer \<Rightarrow> bool" where
  "answer_ok s i st a \<longleftrightarrow>
     prefix (ra_results a) (drop (kj_rowId st) (results_of s i)) \<and>
     (ra_status a = ''Stopped'' \<longrightarrow> ended_with s i (ra_total a))"

definition job_inv :: "core \<Rightarrow> search_controller \<Rightarrow> search_answer list \<Rightarrow> int \<Rightarrow> core_job \<Rightarrow> bool" where
  "job_inv k s A i st \<longleftrightarrow>
     polls k A i \<le> 1 \<and> ReqDelete i \<notin> set (k_requests k) \<and> rows_ok s i st \<and>
     (\<forall>l n r. ReqResults i l n r \<in> set (k_requests k) \<longrightarrow> n = kj_rowId st) \<and>
     (\<forall>a. (i, a) \<in> texts A \<longrightarrow> answer_ok s i st a) \<and>
     ((i, IconFinished) \<in> set (k_tabs k) \<longrightarrow> ended_with s i (kj_rowId st))"

definition wf_core :: "core \<Rightarrow> bool" where
  "wf_core k \<longleftrightarrow>
     distinct_keys (k_state k) \<and> (\<forall>i j r. map_get (k_state k) i = Some r \<longrightarrow> map_get (k_state k) j = Some r \<longrightarrow> i = j) \<and>
     (\<forall>i r. map_get (k_state k) i = Some r \<longrightarrow> r < k_next k \<and> k_objects k r \<noteq> None) \<and>
     distinct_keys (k_tabs k) \<and> set (keys (k_tabs k)) = live_ids k"

text \<open>A handler that waits holds the object of its search, or one that no search has any more.\<close>

definition holds :: "core \<Rightarrow> int \<Rightarrow> nat \<Rightarrow> bool" where
  "holds k i r \<longleftrightarrow> r < k_next k \<and> (\<forall>j q. map_get (k_state k) j = Some q \<longrightarrow> (j = i \<longleftrightarrow> q = r))"

definition held :: "core \<Rightarrow> search_answer list \<Rightarrow> bool" where
  "held k A \<longleftrightarrow> (\<forall>i r t. AnsText i r t \<in> set A \<longrightarrow> holds k i r)"

definition flow_inv :: "core \<Rightarrow> search_controller \<Rightarrow> search_answer list \<Rightarrow> int list \<Rightarrow> bool" where
  "flow_inv k s A used \<longleftrightarrow>
     wf_core k \<and> (\<forall>i st. k_job k i = Some st \<longrightarrow> job_inv k s A i st) \<and>
     distinct (newborn A) \<and> (\<forall>i \<in> set (newborn A). i \<notin> live_ids k \<and> i \<notin> mentions k A) \<and>
     live_ids k \<union> mentions k A \<union> set (newborn A) \<union> set (keys (searchHandlers s)) \<subseteq> set used \<and> held k A"

lemma held_sub:
  assumes "held k A" "k_next k \<le> k_next k'" "\<And>j q. map_get (k_state k') j = Some q \<Longrightarrow> map_get (k_state k) j = Some q"
    "\<And>i r t. AnsText i r t \<in> set A' \<Longrightarrow> AnsText i r t \<in> set A"
  shows "held k' A'"
proof -
  have "holds k' i r" if "holds k i r" for i r
    using that assms(2,3) unfolding holds_def by (metis less_le_trans)
  then show ?thesis using assms(1,4) unfolding held_def by blast
qed

lemma held_same:
  assumes "k_next k' = k_next k" "k_state k' = k_state k"
  shows "held k' A = held k A"
  using assms by (simp add: held_def holds_def)

lemma held_parts: "held k (A @ B) \<longleftrightarrow> held k A \<and> held k B" "held k (a # A) \<longleftrightarrow> held k [a] \<and> held k A" "held k []"
  unfolding held_def set_append list.set by blast+

lemma held_other: "(\<And>i r t. a \<noteq> AnsText i r t) \<Longrightarrow> held k [a]"
  by (auto simp: held_def)

section \<open>What each operation does to it\<close>

lemma wf_job: "wf_core k \<Longrightarrow> i \<in> live_ids k \<longleftrightarrow> k_job k i \<noteq> None"
  by (cases "map_get (k_state k) i") (auto simp: wf_core_def k_job_def live_ids_def map_of_eq_None_iff simp flip: map_of_eq_None_iff)

lemma polls_zero: "i \<notin> mentions k A \<Longrightarrow> polls k A i = 0"
proof -
  assume i: "i \<notin> mentions k A"
  have "i \<notin> set (poll_ids k A)"
  proof
    assume "i \<in> set (poll_ids k A)"
    moreover have "set (request_poll q) \<subseteq> set (request_names q)" for q by (cases q) simp_all
    moreover have "set (answer_poll a) \<subseteq> set (answer_names a)" for a by (cases a) simp_all
    ultimately show False using i by (auto simp: poll_ids_def mentions_def) blast+
  qed
  then show ?thesis by (simp add: polls_def)
qed

text \<open>The searches that a step does not concern.\<close>

definition same_rows :: "core_job \<Rightarrow> core_job \<Rightarrow> bool" where
  "same_rows st st' \<longleftrightarrow> kj_rows st' = kj_rows st \<and> kj_rowId st' = kj_rowId st"

definition no_news :: "core \<Rightarrow> search_answer list \<Rightarrow> core \<Rightarrow> search_answer list \<Rightarrow> int \<Rightarrow> bool" where
  "no_news k A k' A' i \<longleftrightarrow>
     polls k' A' i \<le> polls k A i \<and>
     (\<forall>q \<in> set (k_requests k'). q = ReqDelete i \<or> (\<exists>l n r. q = ReqResults i l n r) \<longrightarrow> q \<in> set (k_requests k)) \<and>
     (\<forall>a. (i, a) \<in> texts A' \<longrightarrow> (i, a) \<in> texts A) \<and>
     ((i, IconFinished) \<in> set (k_tabs k') \<longrightarrow> (i, IconFinished) \<in> set (k_tabs k))"

lemma job_inv_same:
  assumes "job_inv k s A i st" "no_news k A k' A' i" "same_rows st st'"
  shows "job_inv k' s A' i st'"
  using assms unfolding job_inv_def no_news_def same_rows_def rows_ok_def answer_ok_def by fastforce

lemma no_news_refl [simp]: "no_news k A k A i"
  by (simp add: no_news_def)

lemma no_news_trans: "no_news k A k' A' i \<Longrightarrow> no_news k' A' k'' A'' i \<Longrightarrow> no_news k A k'' A'' i"
  unfolding no_news_def by (meson le_trans)

text \<open>The server: results are only added, and none to a search that has ended.\<close>

definition server_grows :: "int set \<Rightarrow> search_controller \<Rightarrow> search_controller \<Rightarrow> bool" where
  "server_grows L s s' \<longleftrightarrow>
     (\<forall>i \<in> L. prefix (results_of s i) (results_of s' i) \<and> (\<forall>n. ended_with s i n \<longrightarrow> ended_with s' i n))"

lemma job_inv_grows:
  assumes inv: "job_inv k s A i st" and grows: "server_grows L s s'" "i \<in> L"
  shows "job_inv k s' A i st"
proof -
  obtain more where more: "results_of s' i = results_of s i @ more"
    using grows by (auto simp: server_grows_def prefix_def)
  have ended: "ended_with s i n \<Longrightarrow> ended_with s' i n" for n using grows by (simp add: server_grows_def)
  have rows: "rows_ok s i st" using inv by (simp add: job_inv_def)
  then have "rows_ok s' i st" by (simp add: rows_ok_def more)
  moreover have "answer_ok s' i st a" if "answer_ok s i st a" for a
  proof -
    have "drop (kj_rowId st) (results_of s' i) = drop (kj_rowId st) (results_of s i) @ more"
      using rows by (simp add: rows_ok_def more)
    with that ended show ?thesis by (auto simp: answer_ok_def prefix_def)
  qed
  ultimately show ?thesis using inv ended unfolding job_inv_def by blast
qed

lemma flow_inv_server:
  assumes inv: "flow_inv k s A used" and "server_grows (live_ids k) s s'" and "set (keys (searchHandlers s')) \<subseteq> set used"
  shows "flow_inv k s' A used"
proof -
  have "job_inv k s' A i st" if "k_job k i = Some st" for i st
  proof -
    from inv that have "job_inv k s A i st" by (simp add: flow_inv_def)
    moreover have "i \<in> live_ids k" using that inv wf_job [of k i] by (simp add: flow_inv_def)
    ultimately show ?thesis using job_inv_grows assms(2) by blast
  qed
  with inv assms(3) show ?thesis unfolding flow_inv_def by blast
qed

lemma flow_inv_page:
  assumes inv: "flow_inv k s A used" and wf: "wf_core k'"
    and jobs: "\<And>i st'. k_job k' i = Some st' \<Longrightarrow>
       (\<exists>st. k_job k i = Some st \<and> same_rows st st' \<and> no_news k A k' A' i) \<or> job_inv k' s A' i st'"
    and born: "distinct (newborn A')" "\<And>i. i \<in> set (newborn A') \<Longrightarrow> i \<notin> live_ids k' \<and> i \<notin> mentions k' A'"
    and used: "live_ids k' \<union> mentions k' A' \<union> set (newborn A') \<subseteq> set used" and "held k' A'"
  shows "flow_inv k' s A' used"
proof -
  have "job_inv k' s A' i st'" if "k_job k' i = Some st'" for i st'
    using jobs [OF that] job_inv_same inv unfolding flow_inv_def by blast
  with assms show ?thesis unfolding flow_inv_def by blast
qed

section \<open>Quiet operations\<close>

text \<open>Operations that start no poll but for \<open>X\<close>, and change no rows, no requests and no tabs but their icons.\<close>

abbreviation timer_ids :: "core \<Rightarrow> int list" where
  "timer_ids k \<equiv> map (\<lambda>(n, delay, i). i) (k_timers k)"

definition quiet :: "int list \<Rightarrow> core \<Rightarrow> core \<Rightarrow> bool" where
  "quiet X k k' \<longleftrightarrow>
     k_state k' = k_state k \<and> k_next k' = k_next k \<and> k_requests k' = k_requests k \<and>
     keys (k_tabs k') = keys (k_tabs k) \<and> (\<forall>j. (j, IconFinished) \<in> set (k_tabs k') \<longrightarrow> (j, IconFinished) \<in> set (k_tabs k)) \<and>
     (\<forall>r. rel_option same_rows (k_objects k r) (k_objects k' r)) \<and>
     (\<forall>j. count_list (timer_ids k') j \<le> count_list (timer_ids k) j + count_list X j)"

lemma same_rows_refl [simp]: "same_rows st st"
  by (simp add: same_rows_def)

lemma same_rows_option [simp]: "rel_option same_rows o' o'"
  by (cases o') simp_all

lemma quiet_refl [simp]: "quiet [] k k"
  by (simp add: quiet_def)

lemma same_rows_trans: "same_rows a b \<Longrightarrow> same_rows b c \<Longrightarrow> same_rows a c"
  by (simp add: same_rows_def)

lemma quiet_trans:
  assumes a: "quiet X k k'" and b: "quiet Y k' k''"
  shows "quiet (X @ Y) k k''"
proof -
  have "rel_option same_rows (k_objects k r) (k_objects k'' r)" for r
    using a b same_rows_trans unfolding quiet_def by (metis (no_types, lifting) option.rel_sel)
  moreover have "count_list (timer_ids k'') j \<le> count_list (timer_ids k) j + count_list (X @ Y) j" for j
  proof -
    have "count_list (timer_ids k'') j \<le> count_list (timer_ids k') j + count_list Y j"
      "count_list (timer_ids k') j \<le> count_list (timer_ids k) j + count_list X j"
      using a b by (simp_all add: quiet_def)
    then show ?thesis by simp
  qed
  ultimately show ?thesis using a b unfolding quiet_def by auto
qed

lemmas quiet_after = quiet_trans [where X = "[]", simplified] and quiet_before = quiet_trans [where Y = "[]", simplified]

lemma on_icon_keys [simp]: "keys (on_icon i ic ts) = keys ts"
  by (induction i ic ts rule: on_icon.induct) auto

lemma on_icon_mem: "(j, c) \<in> set (on_icon i ic ts) \<Longrightarrow> (j, c) \<in> set ts \<or> (j = i \<and> c = ic)"
  by (induction i ic ts rule: on_icon.induct) (auto split: if_splits)

lemma quiet_icon: "ic \<noteq> IconFinished \<Longrightarrow> quiet [] k (k_icon i ic k)"
  using on_icon_mem by (fastforce simp: quiet_def k_icon_def)

lemma count_list_map_filter: "count_list (map f (filter P xs)) j \<le> count_list (map f xs) j"
  by (induction xs) (auto intro: le_SucI)

lemma quiet_clear: "quiet [] k (k_clear n k)"
  by (auto simp: quiet_def k_clear_def count_list_map_filter split: option.split)

lemma quiet_mod: "(\<And>st. same_rows st (f st)) \<Longrightarrow> quiet [] k (k_mod r f k)"
  by (auto simp: quiet_def k_mod_def option.rel_map option.rel_refl split: option.split)

lemma quiet_stop: "quiet [] k (k_stop i k)"
  by (auto simp: k_stop_def split: option.split intro!: quiet_after [OF quiet_clear quiet_mod])
    (simp add: same_rows_def)

lemma quiet_rearm: "quiet [i] k (k_rearm r delay i k)"
proof -
  have add: "quiet [i] k (k\<lparr>k_timers := k_timers k @ [(n, delay, i)], k_nextTimer := m\<rparr>)" for k n m
    by (auto simp: quiet_def)
  show ?thesis
    unfolding k_rearm_def Let_def
    by (rule quiet_after [OF quiet_clear], rule quiet_before [OF add], rule quiet_mod) (simp add: same_rows_def)
qed

lemma quietD:
  assumes "quiet X k k'"
  shows "k_state k' = k_state k" "k_next k' = k_next k" "k_requests k' = k_requests k" "keys (k_tabs k') = keys (k_tabs k)"
    "(j, IconFinished) \<in> set (k_tabs k') \<Longrightarrow> (j, IconFinished) \<in> set (k_tabs k)"
    "rel_option same_rows (k_objects k r) (k_objects k' r)"
    "count_list (timer_ids k') j \<le> count_list (timer_ids k) j + count_list X j"
  using assms by (auto simp: quiet_def)

lemma quiet_live: "quiet X k k' \<Longrightarrow> live_ids k' = live_ids k"
  by (simp add: quietD live_ids_def)

lemma quiet_wf: "wf_core k \<Longrightarrow> quiet X k k' \<Longrightarrow> wf_core k'"
proof -
  assume wf: "wf_core k" and q: "quiet X k k'"
  have "k_objects k' r \<noteq> None" if "k_objects k r \<noteq> None" for r
    using quietD(6) [OF q, of r] that by (cases "k_objects k r"; cases "k_objects k' r") simp_all
  with wf show "wf_core k'" unfolding wf_core_def quiet_live [OF q] quietD(1,2,4) [OF q] by blast
qed

lemma quiet_job: "quiet X k k' \<Longrightarrow> k_job k' i = Some st' \<Longrightarrow> \<exists>st. k_job k i = Some st \<and> same_rows st st'"
proof -
  assume q: "quiet X k k'" and "k_job k' i = Some st'"
  then obtain r where r: "map_get (k_state k) i = Some r" "k_objects k' r = Some st'"
    by (auto simp: k_job_def quietD(1) bind_eq_Some_conv)
  with quietD(6) [OF q, of r] obtain st where "k_objects k r = Some st" "same_rows st st'"
    by (cases "k_objects k r") simp_all
  with r show ?thesis by (simp add: k_job_def)
qed

lemma polls_parts:
  "polls k A j = count_list (timer_ids k) j + count_list (concat (map request_poll (k_requests k))) j
     + count_list (concat (map answer_poll A)) j"
  by (simp add: polls_def poll_ids_def)

lemma newborn_parts [simp]: "newborn (A @ B) = newborn A @ newborn B" "newborn (a # A) = answer_born a @ newborn A" "newborn [] = []"
  by (simp_all add: newborn_def)

lemma count_list_pos: "0 < count_list xs j \<longleftrightarrow> j \<in> set xs"
  by (metis count_list_0_iff neq0_conv)

lemma quiet_mentions:
  assumes "quiet X k k'" "\<And>j. count_list X j \<le> count_list (answer_poll a) j"
  shows "mentions k' (A1 @ A2) \<subseteq> mentions k (A1 @ a # A2)"
proof -
  have "j \<in> set (timer_ids k) \<union> set (answer_names a)" if "j \<in> set (timer_ids k')" for j
  proof -
    have "0 < count_list (timer_ids k) j + count_list X j"
      using assms(1) that unfolding quiet_def by (meson count_list_pos less_le_trans)
    then have "j \<in> set (timer_ids k) \<or> j \<in> set (answer_poll a)"
      using assms(2) [of j] by (metis add.right_neutral count_list_pos le_zero_eq neq0_conv)
    moreover have "set (answer_poll a) \<subseteq> set (answer_names a)" by (cases a) simp_all
    ultimately show ?thesis by auto
  qed
  then have "set (timer_ids k') \<subseteq> set (timer_ids k) \<union> set (answer_names a)" by blast
  moreover have "mentions k A = set (timer_ids k) \<union> (\<Union>q \<in> set (k_requests k). set (request_names q))
     \<union> (\<Union>a \<in> set A. set (answer_names a))" for k A
    by (simp add: mentions_def)
  ultimately show ?thesis using quietD(3) [OF assms(1)] by auto
qed

text \<open>An answer is taken from the wire and leads to a quiet operation.\<close>

lemma flow_inv_quiet:
  assumes inv: "flow_inv k s (A1 @ a # A2) used" and q: "quiet X k k'"
    and X: "\<And>j. count_list X j \<le> count_list (answer_poll a) j"
  shows "flow_inv k' s (A1 @ A2) used"
proof (rule flow_inv_page [OF _ _ _ _ _ _ _])
  show "flow_inv k s (A1 @ a # A2) used" by (rule inv)
  show "held k' (A1 @ A2)"
    using inv held_same [OF quietD(2) [OF q] quietD(1) [OF q]] unfolding flow_inv_def held_parts(1) held_parts(2) [of k a A2] by blast
  show "wf_core k'" using inv quiet_wf [OF _ q] by (simp add: flow_inv_def)
  note m = quiet_mentions [OF q X, of A1 A2]
  show "distinct (newborn (A1 @ A2))" using inv by (auto simp: flow_inv_def)
  show "live_ids k' \<union> mentions k' (A1 @ A2) \<union> set (newborn (A1 @ A2)) \<subseteq> set used"
    using inv m quiet_live [OF q] by (auto simp: flow_inv_def)
  show "i \<notin> live_ids k' \<and> i \<notin> mentions k' (A1 @ A2)" if "i \<in> set (newborn (A1 @ A2))" for i
    using inv m quiet_live [OF q] that by (auto simp: flow_inv_def)
  show "(\<exists>st. k_job k i = Some st \<and> same_rows st st' \<and> no_news k (A1 @ a # A2) k' (A1 @ A2) i) \<or> job_inv k' s (A1 @ A2) i st'"
    if job: "k_job k' i = Some st'" for i st'
  proof -
    have "count_list (timer_ids k') i \<le> count_list (timer_ids k) i + count_list X i" by (rule quietD(7) [OF q])
    with X [of i] have "polls k' (A1 @ A2) i \<le> polls k (A1 @ a # A2) i"
      by (simp add: polls_parts quietD(3) [OF q])
    then have "no_news k (A1 @ a # A2) k' (A1 @ A2) i" using quietD(5) [OF q] by (auto simp: no_news_def quietD(3) [OF q])
    with quiet_job [OF q job] show ?thesis by blast
  qed
qed

text \<open>The same without an answer: an answer that nobody waits for stands in its place.\<close>

lemma flow_inv_quiet0:
  assumes inv: "flow_inv k s A used" and q: "quiet [] k k'"
  shows "flow_inv k' s A used"
proof (rule flow_inv_page [OF inv])
  show "held k' A" using inv held_same [OF quietD(2) [OF q] quietD(1) [OF q]] by (simp add: flow_inv_def)
  show "wf_core k'" using inv quiet_wf [OF _ q] by (simp add: flow_inv_def)
  have m: "mentions k' A \<subseteq> mentions k A"
    using quiet_mentions [OF q, of "AnsStart [] None" A "[]"] by (simp add: mentions_def)
  show "distinct (newborn A)" using inv by (auto simp: flow_inv_def)
  show "live_ids k' \<union> mentions k' A \<union> set (newborn A) \<subseteq> set used" "\<And>i. i \<in> set (newborn A) \<Longrightarrow> i \<notin> live_ids k' \<and> i \<notin> mentions k' A"
    using inv m quiet_live [OF q] by (auto simp: flow_inv_def)
  show "(\<exists>st. k_job k i = Some st \<and> same_rows st st' \<and> no_news k A k' A i) \<or> job_inv k' s A i st'"
    if job: "k_job k' i = Some st'" for i st'
  proof -
    have "polls k' A i \<le> polls k A i" using quietD(7) [OF q, of i] by (simp add: polls_parts quietD(3) [OF q])
    then have "no_news k A k' A i" using quietD(5) [OF q] by (auto simp: no_news_def quietD(3) [OF q])
    with quiet_job [OF q job] show ?thesis by blast
  qed
qed

section \<open>Messages\<close>

lemma mentions_set: "mentions k A = set (timer_ids k) \<union> (\<Union>q \<in> set (k_requests k). set (request_names q))
     \<union> (\<Union>a \<in> set A. set (answer_names a))"
  by (simp add: mentions_def)

lemma flow_invD:
  assumes "flow_inv k s A used"
  shows "wf_core k" "k_job k i = Some st \<Longrightarrow> job_inv k s A i st" "distinct (newborn A)"
    "i \<in> set (newborn A) \<Longrightarrow> i \<notin> live_ids k \<and> i \<notin> mentions k A"
    "live_ids k \<subseteq> set used" "mentions k A \<subseteq> set used" "set (newborn A) \<subseteq> set used" "set (keys (searchHandlers s)) \<subseteq> set used"
    "held k A"
  using assms by (auto simp: flow_inv_def)

text \<open>A request is taken from the wire, and answers may be put on it.\<close>

lemma flow_inv_wire:
  assumes inv: "flow_inv k s A used" and R: "k_requests k = R1 @ q # R2"
    and poll: "\<And>j. count_list (concat (map answer_poll as)) j \<le> count_list (request_poll q) j"
    and names: "\<And>a. a \<in> set as \<Longrightarrow> set (answer_names a) \<subseteq> set (request_names q)"
    and born: "distinct (newborn as)" "set (newborn as) \<inter> set used = {}"
    and ok: "\<And>i a st. (i, a) \<in> texts as \<Longrightarrow> k_job k i = Some st \<Longrightarrow> answer_ok s i st a"
    and held: "\<And>i r t. AnsText i r t \<notin> set as"
  shows "flow_inv (k\<lparr>k_requests := R1 @ R2\<rparr>) s (A @ as) (newborn as @ used)"
proof -
  let ?k = "k\<lparr>k_requests := R1 @ R2\<rparr>"
  note inv = flow_invD [OF inv]
  have m: "mentions ?k (A @ as) \<subseteq> mentions k A"
    unfolding mentions_set using names R by fastforce
  have job: "k_job ?k i = k_job k i" and live: "live_ids ?k = live_ids k" for i
    by (simp_all add: k_job_def live_ids_def)
  have "job_inv ?k s (A @ as) i st" if st: "k_job k i = Some st" for i st
  proof -
    have "polls ?k (A @ as) i \<le> polls k A i" using poll [of i] by (simp add: polls_parts R)
    with inv(2) [OF st] ok st show ?thesis by (auto simp: job_inv_def R)
  qed
  moreover have "wf_core ?k" using inv(1) by (simp add: wf_core_def live_ids_def)
  moreover have "held ?k (A @ as)" by (rule held_sub [OF inv(9)]) (use held in auto)
  ultimately show ?thesis
    using inv(3-8) born m unfolding flow_inv_def job live by (auto simp: disjoint_iff)
qed

lemma flow_inv_answers:
  assumes inv: "flow_inv k s (A1 @ a # A2) used"
    and poll: "\<And>j. count_list (concat (map answer_poll as)) j \<le> count_list (answer_poll a) j"
    and names: "\<And>b. b \<in> set as \<Longrightarrow> set (answer_names b) \<subseteq> set (answer_names a)" and born: "newborn as = []"
    and ok: "texts as \<subseteq> texts [a]" and held: "held k as"
  shows "flow_inv k s (A1 @ A2 @ as) used"
proof -
  note inv = flow_invD [OF inv]
  have m: "mentions k (A1 @ A2 @ as) \<subseteq> mentions k (A1 @ a # A2)"
    unfolding mentions_set using names by fastforce
  have "job_inv k s (A1 @ A2 @ as) i st" if st: "k_job k i = Some st" for i st
  proof -
    have "polls k (A1 @ A2 @ as) i \<le> polls k (A1 @ a # A2) i" using poll [of i] by (simp add: polls_parts)
    moreover have "(i, b) \<in> texts (A1 @ a # A2)" if "(i, b) \<in> texts (A1 @ A2 @ as)" for b using that ok by auto
    ultimately show ?thesis using inv(2) [OF st] by (auto simp: job_inv_def simp del: texts_parts)
  qed
  moreover have "held k (A1 @ A2 @ as)"
    using inv(9) held unfolding held_parts(1) held_parts(2) [of k a A2] by blast
  ultimately show ?thesis
    using inv(1,3-8) born m unfolding flow_inv_def by auto
qed

text \<open>A request that starts no poll is sent; only what is not there any more is deleted.\<close>

lemma flow_inv_send:
  assumes inv: "flow_inv k s A used" and "request_poll q = []"
    and names: "set (request_names q) \<subseteq> set used" "set (request_names q) \<inter> set (newborn A) = {}"
    and del: "\<And>i. q = ReqDelete i \<Longrightarrow> i \<notin> live_ids k"
  shows "flow_inv (k_send q k) s A used"
proof -
  note inv = flow_invD [OF inv]
  have job: "k_job (k_send q k) i = k_job k i" and live: "live_ids (k_send q k) = live_ids k" for i
    by (simp_all add: k_job_def live_ids_def k_send_def)
  have m: "mentions (k_send q k) A = mentions k A \<union> set (request_names q)"
    by (auto simp: mentions_set k_send_def)
  have "job_inv (k_send q k) s A i st" if st: "k_job k i = Some st" for i st
  proof -
    have "polls (k_send q k) A i = polls k A i" using assms(2) by (simp add: polls_parts k_send_def)
    moreover have "i \<in> live_ids k" using wf_job [OF inv(1)] st by simp
    ultimately show ?thesis
      using inv(2) [OF st] del assms(2) by (auto simp: job_inv_def k_send_def)
  qed
  moreover have "wf_core (k_send q k)" using inv(1) by (simp add: wf_core_def live_ids_def k_send_def)
  moreover have "held (k_send q k) A" using inv(9) by (simp add: k_send_def held_def holds_def)
  ultimately show ?thesis using inv(3-8) names m unfolding flow_inv_def job live by (auto simp: disjoint_iff)
qed

text \<open>A timer fires: the search asks for the results that it does not have yet.\<close>

lemma flow_inv_load:
  assumes inv: "flow_inv k s A used" and T: "k_timers k = T1 @ (n, delay, i) # T2"
  shows "flow_inv (k_load i (k\<lparr>k_timers := T1 @ T2\<rparr>)) s A used"
proof -
  note inv = flow_invD [OF inv]
  define k1 where "k1 = k\<lparr>k_timers := T1 @ T2\<rparr>"
  have job: "k_job (k_load i k1) j = k_job k j" and live: "live_ids (k_load i k1) = live_ids k" for j
    by (simp_all add: k_job_def live_ids_def k_load_def k1_def k_send_def split: option.split)
  have reqs: "k_requests (k_load i k1) = k_requests k \<or>
      (\<exists>st r. k_job k i = Some st \<and> k_requests (k_load i k1) = k_requests k @ [ReqResults i maxResults (kj_rowId st) r])"
    by (auto simp: k_load_def k1_def k_send_def k_job_def split: option.split)
  have rest: "k_timers (k_load i k1) = T1 @ T2" "k_tabs (k_load i k1) = k_tabs k"
      "wf_core (k_load i k1) \<longleftrightarrow> wf_core k"
    by (auto simp: k_load_def k1_def k_send_def wf_core_def live_ids_def split: option.split)
  define old where "old = set (map (\<lambda>(n, delay, i). i) (T1 @ T2))"
  have "set (timer_ids (k_load i k1)) = old" "set (timer_ids k) = insert i old" by (auto simp: rest T old_def)
  with reqs have m: "mentions (k_load i k1) A \<subseteq> mentions k A"
    unfolding mentions_set by fastforce
  have "job_inv (k_load i k1) s A j st" if st: "k_job k j = Some st" for j st
  proof -
    have "polls (k_load i k1) A j \<le> polls k A j" using reqs by (auto simp: polls_parts rest T)
    moreover have "n' = kj_rowId st" if "ReqResults j l n' r \<in> set (k_requests (k_load i k1))" for l n' r
    proof -
      from reqs that have "ReqResults j l n' r \<in> set (k_requests k) \<or> (i = j \<and> k_job k i = Some st \<and> n' = kj_rowId st)"
        using st by (elim disjE) auto
      then show ?thesis using inv(2) [OF st] by (auto simp: job_inv_def)
    qed
    moreover have "ReqDelete j \<notin> set (k_requests (k_load i k1))"
      using inv(2) [OF st] reqs by (elim disjE) (auto simp: job_inv_def)
    ultimately show ?thesis using inv(2) [OF st] unfolding job_inv_def rest by auto
  qed
  moreover have "k_next (k_load i k1) = k_next k" "k_state (k_load i k1) = k_state k"
    by (simp_all add: k_load_def k1_def k_send_def split: option.split)
  then have "held (k_load i k1) A" using inv(9) held_same by blast
  ultimately show ?thesis
    using inv(1,3-8) m unfolding flow_inv_def k1_def [symmetric] job live rest by blast
qed

section \<open>Opening, refreshing and closing\<close>

lemma number_rows_append: "number_rows n (xs @ ys) = number_rows n xs @ number_rows (n + length xs) ys"
  by (induction xs arbitrary: n) simp_all

lemma length_number_rows [simp]: "length (number_rows n xs) = length xs"
  by (induction xs arbitrary: n) simp_all

lemma job_inv_fresh:
  assumes "polls k A i \<le> 1" "ReqDelete i \<notin> set (k_requests k)" "(i, IconFinished) \<notin> set (k_tabs k)"
    "\<And>l n r. ReqResults i l n r \<notin> set (k_requests k)" "\<And>a. (i, a) \<notin> texts A"
  shows "job_inv k s A i fresh_job"
  using assms by (simp add: job_inv_def fresh_job_def rows_ok_def)

lemma not_mentioned:
  assumes "i \<notin> mentions k A"
  shows "polls k A i = 0" "ReqDelete i \<notin> set (k_requests k)" "ReqResults i l n r \<notin> set (k_requests k)"
    "(i, b) \<notin> texts A" "AnsText i r' t \<notin> set A"
proof -
  have "i \<in> set (answer_names a)" if "answer_text a = Some (i, b)" for a
    using that by (cases a rule: answer_text.cases) auto
  then show "(i, b) \<notin> texts A" using assms by (auto simp: texts_def mentions_set)
qed (use assms polls_zero [OF assms] in \<open>unfold mentions_set, fastforce+\<close>)

text \<open>The new search has its first poll under way; it stands here as an answer, until the timer is set.\<close>

definition k_opened :: "int \<Rightarrow> core \<Rightarrow> core" where
  "k_opened i k = k\<lparr>k_tabs := k_tabs k @ [(i, IconSearching)], k_state := map_set i (k_next k) (k_state k),
     k_objects := (k_objects k)(k_next k := Some fresh_job), k_next := Suc (k_next k)\<rparr>"

lemma mentions_poll:
  "mentions k (A1 @ AnsResults i r ReplyFailed # A2) = insert i (mentions k (A1 @ A2))"
  by (auto simp: mentions_set)

lemma mentions_sub: "mentions k (A1 @ A2) \<subseteq> mentions k (A1 @ a # A2)"
  by (auto simp: mentions_set)

lemma polls_poll:
  "polls k (A1 @ AnsResults i r ReplyFailed # A2) j = polls k (A1 @ A2) j + (if i = j then 1 else 0)"
  by (simp add: polls_parts)

lemma polls_sub: "polls k (A1 @ A2) j \<le> polls k (A1 @ a # A2) j"
  by (simp add: polls_parts)

lemma held_poll: "held k (A1 @ AnsResults i r ReplyFailed # A2) = held k (A1 @ A2)"
  by (auto simp: held_def)

lemma held_drop: "held k (A1 @ a # A2) \<Longrightarrow> held k (A1 @ A2)"
  by (auto simp: held_def)

lemma flow_inv_opened:
  assumes inv: "flow_inv k s (A1 @ a # A2) used" and a: "answer_born a = [i]"
  shows "flow_inv (k_opened i k) s (A1 @ AnsResults i r ReplyFailed # A2) used"
proof (rule flow_inv_page [OF inv])
  note inv = flow_invD [OF inv]
  from inv(4) [of i] a have i: "i \<notin> live_ids k" "i \<notin> mentions k (A1 @ a # A2)" by auto
  then have i': "i \<notin> mentions k (A1 @ A2)" using mentions_sub by blast
  have get: "map_get (k_state (k_opened i k)) j = (if j = i then Some (k_next k) else map_get (k_state k) j)" for j
    by (simp add: k_opened_def)
  have fresh: "map_get (k_state k) j \<noteq> Some (k_next k)" for j
    using inv(1) unfolding wf_core_def by (metis less_irrefl)
  have live: "live_ids (k_opened i k) = insert i (live_ids k)" by (simp add: live_ids_def k_opened_def)
  have m: "mentions (k_opened i k) A = mentions k A" "polls (k_opened i k) A j = polls k A j" for A j
    by (simp_all add: mentions_set polls_parts k_opened_def)
  have old: "\<And>j q. map_get (k_state k) j = Some q \<Longrightarrow> q < k_next k \<and> k_objects k q \<noteq> None"
      "\<And>j l q. map_get (k_state k) j = Some q \<Longrightarrow> map_get (k_state k) l = Some q \<Longrightarrow> j = l"
      "distinct_keys (k_state k)" "distinct_keys (k_tabs k)" "set (keys (k_tabs k)) = live_ids k"
    using inv(1) unfolding wf_core_def by blast+
  have "distinct_keys (k_tabs (k_opened i k))" "set (keys (k_tabs (k_opened i k))) = live_ids (k_opened i k)"
    using old(4,5) i(1) unfolding live by (auto simp: k_opened_def)
  moreover have "distinct_keys (k_state (k_opened i k))" using old(3) by (auto simp: k_opened_def)
  moreover have "q < k_next (k_opened i k) \<and> k_objects (k_opened i k) q \<noteq> None" if "map_get (k_state (k_opened i k)) j = Some q" for j q
    using that old(1) [of j q] unfolding get by (auto simp: k_opened_def split: if_splits)
  moreover have "j = l" if "map_get (k_state (k_opened i k)) j = Some q" "map_get (k_state (k_opened i k)) l = Some q" for j l q
    using that old(2) [of j q l] fresh [of j] fresh [of l] unfolding get by (auto split: if_splits)
  ultimately show "wf_core (k_opened i k)" unfolding wf_core_def by blast
  show "distinct (newborn (A1 @ AnsResults i r ReplyFailed # A2))" using inv(3) a by auto
  show "j \<notin> live_ids (k_opened i k) \<and> j \<notin> mentions (k_opened i k) (A1 @ AnsResults i r ReplyFailed # A2)"
    if "j \<in> set (newborn (A1 @ AnsResults i r ReplyFailed # A2))" for j
    using that inv(3) inv(4) [of j] a mentions_sub [of k A1 A2 a] unfolding live m mentions_poll by auto
  show "live_ids (k_opened i k) \<union> mentions (k_opened i k) (A1 @ AnsResults i r ReplyFailed # A2)
      \<union> set (newborn (A1 @ AnsResults i r ReplyFailed # A2)) \<subseteq> set used"
    using inv(5-7) a mentions_sub [of k A1 A2 a] unfolding live m mentions_poll by auto
  show "(\<exists>st. k_job k j = Some st \<and> same_rows st st' \<and>
        no_news k (A1 @ a # A2) (k_opened i k) (A1 @ AnsResults i r ReplyFailed # A2) j)
      \<or> job_inv (k_opened i k) s (A1 @ AnsResults i r ReplyFailed # A2) j st'" if job: "k_job (k_opened i k) j = Some st'" for j st'
  proof (cases "j = i")
    case True
    with job have "st' = fresh_job" by (simp add: k_job_def k_opened_def)
    moreover have "(i, IconFinished) \<notin> set (k_tabs (k_opened i k))"
    proof -
      have "i \<notin> set (keys (k_tabs k))" unfolding old(5) by (rule i(1))
      then have "(i, c) \<notin> set (k_tabs k)" for c by force
      then show ?thesis by (simp add: k_opened_def)
    qed
    moreover note n = not_mentioned [OF i']
    have "(i, b) \<notin> texts (A1 @ AnsResults i r ReplyFailed # A2)" for b using n(4) [of b] by simp
    moreover have "ReqDelete i \<notin> set (k_requests (k_opened i k))" "\<And>l n r. ReqResults i l n r \<notin> set (k_requests (k_opened i k))"
      using n by (simp_all add: k_opened_def)
    moreover have "polls (k_opened i k) (A1 @ AnsResults i r ReplyFailed # A2) i \<le> 1"
      unfolding polls_poll m using n(1) by simp
    ultimately show ?thesis using True by (metis job_inv_fresh)
  next
    case False
    with job fresh [of j] have "k_job k j = Some st'"
      by (auto simp: k_job_def get bind_eq_Some_conv) (auto simp: k_opened_def split: if_splits)
    moreover have "no_news k (A1 @ a # A2) (k_opened i k) (A1 @ AnsResults i r ReplyFailed # A2) j"
      using False polls_sub [of k A1 A2 j a] unfolding no_news_def polls_poll m by (auto simp: k_opened_def)
    ultimately show ?thesis by (meson same_rows_refl)
  qed
  have "AnsText l q t \<in> set (A1 @ A2) \<Longrightarrow> l \<noteq> i" for l q t using not_mentioned(5) [OF i', of q t] by auto
  moreover have "held k (A1 @ A2)" by (rule held_drop [OF inv(9)])
  ultimately show "held (k_opened i k) (A1 @ AnsResults i r ReplyFailed # A2)"
    unfolding held_poll held_def holds_def get by (simp add: k_opened_def) (metis less_SucI less_irrefl)
qed

lemma flow_inv_open:
  assumes inv: "flow_inv k s (A1 @ a # A2) used" and a: "answer_born a = [i]"
  shows "flow_inv (k_open i k) s (A1 @ A2) used"
proof -
  have "quiet [i] (k_opened i k) (k_open i k)"
    unfolding k_open_def k_opened_def by (rule quiet_rearm)
  from flow_inv_quiet [OF flow_inv_opened [OF inv a, of 0] this] show ?thesis by simp
qed

lemma on_icon_self: "distinct_keys ts \<Longrightarrow> (i, c) \<in> set (on_icon i ic ts) \<Longrightarrow> c = ic"
  by (induction i ic ts rule: on_icon.induct) (auto simp: image_iff split: if_splits)

lemma rename_tab_keys:
  "distinct_keys ts \<Longrightarrow> new \<notin> set (keys ts) \<Longrightarrow> distinct_keys (rename_tab old new ts) \<and>
     set (keys (rename_tab old new ts)) = (if old \<in> set (keys ts) then insert new (set (keys ts) - {old}) else set (keys ts))"
  by (induction old new ts rule: rename_tab.induct) (auto split: if_splits)

lemma rename_tab_mem: "(j, c) \<in> set (rename_tab old new ts) \<Longrightarrow> j = new \<or> (j, c) \<in> set ts"
  by (induction old new ts rule: rename_tab.induct) (auto split: if_splits)

definition k_renamed :: "int \<Rightarrow> int \<Rightarrow> nat \<Rightarrow> core \<Rightarrow> core" where
  "k_renamed old new r k =
     k\<lparr>k_tabs := on_icon new IconSearching (rename_tab old new (k_tabs k)),
       k_objects := (k_objects k)(r := map_option (\<lambda>_. fresh_job) (k_objects k r)),
       k_state := map_delete old (map_set new r (k_state k))\<rparr>"

lemma k_refresh_parts:
  assumes "old \<in> set (keys (k_tabs k))" "map_get (k_state k) old = Some r" "new \<noteq> old"
  shows "k_refresh old new k = k_send (ReqDelete old) (k_rearm r 500 new (k_renamed old new r k))"
  using assms
  by (cases k) (simp add: k_refresh_def Let_def k_poll_def k_mod_def k_icon_def k_renamed_def k_send_def k_rearm_def
      k_clear_def split: option.split)

lemma fst_set_keys_delete [simp]: "fst ` set (map_delete k m) = fst ` set m - {k}"
  using set_keys_delete [of k m] by simp

lemma flow_inv_renamed:
  assumes inv: "flow_inv k s (A1 @ a # A2) used" and a: "answer_born a = [new]" and r: "map_get (k_state k) old = Some r"
    and waits: "\<And>q t. AnsText old q t \<notin> set (A1 @ A2)"
  shows "flow_inv (k_renamed old new r k) s (A1 @ AnsResults new r' ReplyFailed # A2) used" and "new \<noteq> old"
proof -
  note all = flow_invD [OF inv]
  from all(4) [of new] a have i: "new \<notin> live_ids k" "new \<notin> mentions k (A1 @ a # A2)" by auto
  then have i': "new \<notin> mentions k (A1 @ A2)" using mentions_sub by blast
  have old: "old \<in> live_ids k" using r by (force simp: live_ids_def dest: map_of_SomeD)
  with i(1) show ne: "new \<noteq> old" by blast
  let ?k = "k_renamed old new r k" and ?A = "A1 @ AnsResults new r' ReplyFailed # A2"
  have get: "map_get (k_state ?k) j = (if j = old then None else if j = new then Some r else map_get (k_state k) j)" for j
    by (simp add: k_renamed_def)
  have inj: "map_get (k_state k) j = Some r \<Longrightarrow> j = old" for j using all(1) r unfolding wf_core_def by blast
  have live: "live_ids ?k = insert new (live_ids k - {old})" using ne by (auto simp: live_ids_def k_renamed_def)
  have m: "mentions ?k A = mentions k A" "polls ?k A j = polls k A j" for A j
    by (simp_all add: mentions_set polls_parts k_renamed_def)
  have tabs: "distinct_keys (k_tabs k)" "set (keys (k_tabs k)) = live_ids k" using all(1) by (auto simp: wf_core_def)
  have renamed: "distinct_keys (rename_tab old new (k_tabs k))"
      "set (keys (rename_tab old new (k_tabs k))) = insert new (live_ids k - {old})"
    using rename_tab_keys [OF tabs(1), of new old] i(1) old unfolding tabs(2) by auto
  have finished: "(j, IconFinished) \<in> set (k_tabs ?k) \<Longrightarrow> j \<noteq> new \<and> (j, IconFinished) \<in> set (k_tabs k)" for j
    using on_icon_self [OF renamed(1), of new IconFinished] on_icon_mem rename_tab_mem
    by (fastforce simp: k_renamed_def)
  show "flow_inv ?k s ?A used"
  proof (rule flow_inv_page [OF inv])
    have "distinct_keys (k_tabs ?k)" "set (keys (k_tabs ?k)) = live_ids ?k"
      using renamed unfolding live by (simp_all add: k_renamed_def)
    moreover have "distinct_keys (k_state ?k)" using all(1) by (auto simp: k_renamed_def wf_core_def)
    moreover have "\<forall>i j r. map_get (k_state ?k) i = Some r \<longrightarrow> map_get (k_state ?k) j = Some r \<longrightarrow> i = j"
      using all(1) inj unfolding get wf_core_def by (metis option.distinct(1))
    moreover have "\<forall>i q. map_get (k_state ?k) i = Some q \<longrightarrow> q < k_next ?k \<and> k_objects ?k q \<noteq> None"
    proof (intro allI impI)
      fix i q assume "map_get (k_state ?k) i = Some q"
      then have "\<exists>j. map_get (k_state k) j = Some q" using r by (auto simp only: get split: if_splits)
      with all(1) have "q < k_next k" "k_objects k q \<noteq> None" unfolding wf_core_def by blast+
      then show "q < k_next ?k \<and> k_objects ?k q \<noteq> None" by (auto simp: k_renamed_def)
    qed
    ultimately show "wf_core ?k" unfolding wf_core_def by blast
    show "distinct (newborn ?A)" using all(3) a by auto
    show "j \<notin> live_ids ?k \<and> j \<notin> mentions ?k ?A" if "j \<in> set (newborn ?A)" for j
      using that all(3) all(4) [of j] a mentions_sub [of k A1 A2 a] unfolding live m mentions_poll by auto
    show "live_ids ?k \<union> mentions ?k ?A \<union> set (newborn ?A) \<subseteq> set used"
      using all(5-7) a mentions_sub [of k A1 A2 a] unfolding live m mentions_poll by auto
    show "(\<exists>st. k_job k j = Some st \<and> same_rows st st' \<and> no_news k (A1 @ a # A2) ?k ?A j) \<or> job_inv ?k s ?A j st'"
      if job: "k_job ?k j = Some st'" for j st'
    proof (cases "j = new")
      case True
      with job ne get have "st' = fresh_job" by (auto simp: k_job_def bind_eq_Some_conv) (auto simp: k_renamed_def)
      moreover note n = not_mentioned [OF i']
      have "(new, b) \<notin> texts ?A" for b using n(4) [of b] by simp
      moreover have "ReqDelete new \<notin> set (k_requests ?k)" "\<And>l n r. ReqResults new l n r \<notin> set (k_requests ?k)"
        using n by (simp_all add: k_renamed_def)
      moreover have "polls ?k ?A new \<le> 1" unfolding polls_poll m using n(1) by simp
      ultimately show ?thesis using True finished [of new] by (metis job_inv_fresh)
    next
      case False
      with job inj [of j] get [of j] have "k_job k j = Some st'"
        by (auto simp: k_job_def bind_eq_Some_conv split: if_splits) (auto simp: k_renamed_def split: if_splits)
      moreover have "no_news k (A1 @ a # A2) ?k ?A j"
        using False polls_sub [of k A1 A2 j a] finished [of j] unfolding no_news_def polls_poll m by (auto simp: k_renamed_def)
      ultimately show ?thesis by (meson same_rows_refl)
    qed
    have "held k (A1 @ A2)" by (rule held_drop [OF all(9)])
    moreover have "AnsText l q t \<in> set (A1 @ A2) \<Longrightarrow> l \<noteq> new \<and> l \<noteq> old" for l q t
      using not_mentioned(5) [OF i', of q t] waits [of q t] by auto
    ultimately show "held ?k ?A"
      using r unfolding held_poll held_def holds_def get by (simp add: k_renamed_def) (metis)
  qed
qed

lemma flow_inv_refresh:
  assumes inv: "flow_inv k s (A1 @ a # A2) used" and a: "answer_born a = [new]" "old \<in> set (answer_names a)"
    and waits: "\<And>q t. AnsText old q t \<notin> set (A1 @ A2)"
  shows "flow_inv (k_refresh old new k) s (A1 @ A2) used"
proof (cases "old \<in> set (keys (k_tabs k))")
  case True
  note all = flow_invD [OF inv]
  from True all(1) obtain r where r: "map_get (k_state k) old = Some r"
    unfolding wf_core_def live_ids_def by (metis map_of_eq_None_iff not_None_eq set_map)
  note renamed = flow_inv_renamed [OF inv a(1) r waits]
  have k: "k_refresh old new k = k_send (ReqDelete old) (k_rearm r 500 new (k_renamed old new r k))"
    using k_refresh_parts [OF True r renamed(2)] .
  have armed: "flow_inv (k_rearm r 500 new (k_renamed old new r k)) s (A1 @ A2) used"
    using flow_inv_quiet [OF renamed(1) quiet_rearm] by simp
  have "live_ids (k_rearm r 500 new (k_renamed old new r k)) = live_ids (k_renamed old new r k)"
    by (rule quiet_live [OF quiet_rearm])
  also have "old \<notin> \<dots>" using renamed(2) by (simp add: live_ids_def k_renamed_def)
  finally have gone: "old \<notin> live_ids (k_rearm r 500 new (k_renamed old new r k))" .
  have "old \<in> set used" using all(5) True all(1) by (auto simp: wf_core_def)
  moreover have "old \<notin> set (newborn (A1 @ A2))"
    using all(4) [of old] True all(1) by (auto simp: wf_core_def)
  ultimately show ?thesis unfolding k using gone by (intro flow_inv_send [OF armed]) auto
next
  case False
  note all = flow_invD [OF inv]
  have k: "k_refresh old new k = k_send (ReqDelete old) k"
    using False by (simp add: k_refresh_def Let_def k_send_def)
  have "flow_inv k s (A1 @ A2) used"
    using flow_inv_quiet [OF inv quiet_refl] by simp
  moreover have "old \<in> mentions k (A1 @ a # A2)" using a(2) by (auto simp: mentions_set)
  then have "old \<in> set used" "old \<notin> set (newborn (A1 @ A2))" using all(4) [of old] all(6) by auto
  moreover have "old \<notin> live_ids k" using False all(1) by (simp add: wf_core_def)
  ultimately show ?thesis unfolding k by (intro flow_inv_send) auto
qed

definition k_closed :: "int \<Rightarrow> core \<Rightarrow> core" where
  "k_closed i k = k\<lparr>k_tabs := drop_icon i (k_tabs k), k_state := map_delete i (k_state k)\<rparr>"

lemma drop_icon_keys:
  "distinct_keys ts \<Longrightarrow> distinct_keys (drop_icon i ts) \<and> set (keys (drop_icon i ts)) = set (keys ts) - {i}"
  by (induction i ts rule: drop_icon.induct) auto

lemma drop_icon_mem: "(j, c) \<in> set (drop_icon i ts) \<Longrightarrow> (j, c) \<in> set ts"
  by (induction i ts rule: drop_icon.induct) (auto split: if_splits)

lemma flow_inv_closed:
  assumes inv: "flow_inv k s A used"
  shows "flow_inv (k_closed i k) s A used"
proof -
  note all = flow_invD [OF inv]
  have live: "live_ids (k_closed i k) = live_ids k - {i}" by (simp add: live_ids_def k_closed_def)
  have m: "mentions (k_closed i k) A = mentions k A" "polls (k_closed i k) A j = polls k A j" for j
    by (simp_all add: mentions_set polls_parts k_closed_def)
  have old: "distinct_keys (k_tabs k)" "set (keys (k_tabs k)) = live_ids k" "distinct_keys (k_state k)"
    using all(1) unfolding wf_core_def by blast+
  have "distinct_keys (k_tabs (k_closed i k))" "set (keys (k_tabs (k_closed i k))) = live_ids (k_closed i k)"
    using drop_icon_keys [OF old(1), of i] unfolding live old(2) by (simp_all add: k_closed_def)
  moreover have "distinct_keys (k_state (k_closed i k))" using old(3) by (auto simp: k_closed_def)
  moreover have "map_get (k_state (k_closed i k)) j = (if j = i then None else map_get (k_state k) j)" for j
    by (simp add: k_closed_def)
  moreover have "k_next (k_closed i k) = k_next k" "k_objects (k_closed i k) = k_objects k" by (simp_all add: k_closed_def)
  ultimately have wf: "wf_core (k_closed i k)"
    using all(1) unfolding wf_core_def by (metis option.distinct(1))
  have "job_inv (k_closed i k) s A j st" if "k_job (k_closed i k) j = Some st" for j st
  proof -
    from that have "k_job k j = Some st" by (auto simp: k_job_def k_closed_def split: if_splits)
    moreover have "no_news k A (k_closed i k) A j"
      using drop_icon_mem by (auto simp: no_news_def m) (auto simp: k_closed_def)
    ultimately show ?thesis using all(2) job_inv_same [OF _ _ same_rows_refl] by blast
  qed
  moreover have "held (k_closed i k) A"
    by (rule held_sub [OF all(9)]) (auto simp: k_closed_def split: if_splits)
  ultimately show ?thesis using wf all(3-8) unfolding flow_inv_def live m by blast
qed

lemma flow_inv_close:
  assumes inv: "flow_inv k s A used"
  shows "flow_inv (k_close i k) s A used"
proof (cases "i \<in> set (keys (k_tabs k))")
  case True
  note all = flow_invD [OF inv]
  have live: "i \<in> live_ids k" using True all(1) by (simp add: wf_core_def)
  then have i: "i \<in> set used" "i \<notin> set (newborn A)" using all(4) [of i] all(5) by auto
  have gone: "i \<notin> live_ids (k_closed i k)" "live_ids (k_send q k') = live_ids k'" for q k'
    by (simp_all add: live_ids_def k_closed_def k_send_def)
  define k1 where "k1 = (case k_job k i of None \<Rightarrow> k_closed i k | Some st \<Rightarrow> if kj_running st then k_send (ReqStop i) (k_closed i k) else k_closed i k)"
  have "k_close i k = k_send (ReqDelete i) k1"
    using True by (cases k) (simp add: k1_def k_close_def k_closed_def k_send_def Let_def split: option.split)
  moreover have "flow_inv k1 s A used \<and> i \<notin> live_ids k1"
    unfolding k1_def using flow_inv_closed [OF inv, of i] gone i
    by (auto split: option.split intro!: flow_inv_send)
  ultimately show ?thesis using i by (auto intro!: flow_inv_send)
qed (simp add: k_close_def inv)

section \<open>Results arrive\<close>

lemma k_job_mod:
  assumes "wf_core k" "map_get (k_state k) i = Some r"
  shows "k_job (k_mod r f k) j = (if j = i then map_option f (k_job k i) else k_job k j)"
proof -
  have "map_get (k_state k) j \<noteq> Some r" if "j \<noteq> i" using assms that unfolding wf_core_def by blast
  then show ?thesis using assms(2) by (cases "map_get (k_state k) j") (auto simp: k_job_def k_mod_def)
qed

lemma answer_alone:
  assumes "polls k (A1 @ AnsText i r t # A2) i \<le> 1"
  shows "(i, b) \<notin> texts (A1 @ A2)" "ReqResults i l n r'' \<notin> set (k_requests k)"
proof -
  have "count_list (concat (map request_poll (k_requests k))) i = 0" "count_list (concat (map answer_poll (A1 @ A2))) i = 0"
    using assms by (simp_all add: polls_parts)
  then have none: "i \<notin> set (concat (map request_poll (k_requests k)))" "i \<notin> set (concat (map answer_poll (A1 @ A2)))"
    by (simp_all only: count_list_0_iff not_False_eq_True)
  have "i \<in> set (answer_poll a)" if "answer_text a = Some (i, b)" for a
    using that by (cases a rule: answer_text.cases) auto
  then show "(i, b) \<notin> texts (A1 @ A2)" using none(2) by (auto simp: texts_def simp del: texts_parts)
  have "i \<in> set (concat (map request_poll (k_requests k)))" if "ReqResults i l n r'' \<in> set (k_requests k)"
    using that by force
  with none(1) show "ReqResults i l n r'' \<notin> set (k_requests k)" by blast
qed

lemma flow_inv_store:
  assumes inv: "flow_inv k s (A1 @ AnsText i r (Some a) # A2) used"
    and r: "map_get (k_state k) i = Some r" "k_objects k r = Some st"
  shows "flow_inv (k_store r (number_rows (kj_rowId st) (ra_results a)) k) s (A1 @ AnsResults i r1 ReplyFailed # A2) used"
proof -
  let ?rows = "number_rows (kj_rowId st) (ra_results a)"
  let ?k = "k_store r ?rows k" and ?A = "A1 @ AnsText i r (Some a) # A2" and ?A' = "A1 @ AnsResults i r1 ReplyFailed # A2"
  note all = flow_invD [OF inv]
  have job: "k_job k i = Some st" using r by (simp add: k_job_def)
  have job': "k_job ?k j = (if j = i then Some (st\<lparr>kj_rows := kj_rows st @ ?rows, kj_rowId := kj_rowId st + length ?rows\<rparr>) else k_job k j)" for j
    unfolding k_store_def k_job_mod [OF all(1) r(1)] using job by simp
  have same: "k_requests ?k = k_requests k" "k_tabs ?k = k_tabs k" "k_timers ?k = k_timers k" "live_ids ?k = live_ids k"
      "k_next ?k = k_next k" "k_state ?k = k_state k"
    by (simp_all add: k_store_def k_mod_def live_ids_def)
  have m: "mentions ?k ?A' = mentions k ?A" "polls ?k ?A' j = polls k ?A j" "newborn ?A' = newborn ?A" for j
    by (simp_all add: mentions_set polls_parts same)
  note at = all(2) [OF job, unfolded job_inv_def]
  show ?thesis
  proof (rule flow_inv_page [OF inv])
    show "wf_core ?k" using all(1) by (auto simp: wf_core_def k_store_def k_mod_def live_ids_def)
    show "distinct (newborn ?A')" "\<And>j. j \<in> set (newborn ?A') \<Longrightarrow> j \<notin> live_ids ?k \<and> j \<notin> mentions ?k ?A'"
      "live_ids ?k \<union> mentions ?k ?A' \<union> set (newborn ?A') \<subseteq> set used"
      unfolding same m using all(3-7) by auto
    show "held ?k ?A'" unfolding held_same [OF same(5,6)] held_poll by (rule held_drop [OF all(9)])
    show "(\<exists>st. k_job k j = Some st \<and> same_rows st st' \<and> no_news k ?A ?k ?A' j) \<or> job_inv ?k s ?A' j st'"
      if st': "k_job ?k j = Some st'" for j st'
    proof (cases "j = i")
      case False
      then have "no_news k ?A ?k ?A' j" by (auto simp: no_news_def m same)
      with False st' job' show ?thesis by auto
    next
      case True
      have poll: "polls k ?A i \<le> 1" using at by blast
      note alone = answer_alone [OF poll]
      have ok: "answer_ok s i st a" and rows: "rows_ok s i st" using at by auto
      from ok obtain more where more: "drop (kj_rowId st) (results_of s i) = ra_results a @ more"
        by (auto simp: answer_ok_def prefix_def)
      have "results_of s i = take (kj_rowId st) (results_of s i) @ ra_results a @ more"
        using more by (metis append_take_drop_id)
      moreover have len: "length (take (kj_rowId st) (results_of s i)) = kj_rowId st" using rows by (simp add: rows_ok_def)
      ultimately have taken: "take (kj_rowId st + length (ra_results a)) (results_of s i) = take (kj_rowId st) (results_of s i) @ ra_results a"
        and le: "kj_rowId st + length (ra_results a) \<le> length (results_of s i)"
        by (metis append.assoc append_eq_conv_conj length_append, metis append.assoc le_add1 length_append)
      let ?st = "st\<lparr>kj_rows := kj_rows st @ ?rows, kj_rowId := kj_rowId st + length ?rows\<rparr>"
      have "rows_ok s i ?st" using rows taken le len by (simp add: rows_ok_def number_rows_append)
      moreover have "ended_with s i (kj_rowId ?st)" if "(i, IconFinished) \<in> set (k_tabs k)"
      proof -
        have e: "ended_with s i (kj_rowId st)" using at that by blast
        then have "length (results_of s i) = kj_rowId st" by (auto simp: ended_with_def results_of_def)
        with le have "ra_results a = []" by simp
        with e show ?thesis by simp
      qed
      moreover have "(i, b) \<notin> texts ?A'" for b using alone(1) [of b] by simp
      ultimately have "job_inv ?k s ?A' i ?st" using at poll alone(2) unfolding job_inv_def same m by blast
      with True st' job' show ?thesis by simp
    qed
  qed
qed

text \<open>The search is gone: the rows go to an object that no search has.\<close>

lemma flow_inv_gone:
  assumes inv: "flow_inv k s A used" and r: "\<And>j. map_get (k_state k) j \<noteq> Some r"
  shows "flow_inv (k_store r ds k) s A used"
proof -
  let ?k = "k_store r ds k"
  note all = flow_invD [OF inv]
  have "k_job ?k j = k_job k j" for j
    using r [of j] by (cases "map_get (k_state k) j") (auto simp: k_job_def k_store_def k_mod_def)
  moreover have same: "k_requests ?k = k_requests k" "k_tabs ?k = k_tabs k" "k_timers ?k = k_timers k" "live_ids ?k = live_ids k"
      "k_next ?k = k_next k" "k_state ?k = k_state k"
    by (simp_all add: k_store_def k_mod_def live_ids_def)
  moreover have "wf_core ?k" using all(1) by (auto simp: wf_core_def k_store_def k_mod_def live_ids_def)
  moreover have m: "mentions ?k A = mentions k A" "polls ?k A j = polls k A j" for j
    by (simp_all add: mentions_set polls_parts same)
  ultimately show ?thesis
    using all(2-9) held_same [OF same(5,6)] unfolding flow_inv_def job_inv_def by auto
qed

lemma flow_inv_finished:
  assumes inv: "flow_inv k s A used" and ended: "\<And>st. k_job k i = Some st \<Longrightarrow> ended_with s i (kj_rowId st)"
  shows "flow_inv (k_icon i IconFinished k) s A used"
proof -
  note all = flow_invD [OF inv]
  have same: "k_job (k_icon i IconFinished k) j = k_job k j" "live_ids (k_icon i IconFinished k) = live_ids k"
      "mentions (k_icon i IconFinished k) A = mentions k A" "polls (k_icon i IconFinished k) A j = polls k A j" for j
    by (simp_all add: k_job_def live_ids_def mentions_set polls_parts k_icon_def)
  have "wf_core (k_icon i IconFinished k)" using all(1) by (simp add: wf_core_def live_ids_def k_icon_def)
  moreover have "job_inv (k_icon i IconFinished k) s A j st" if st: "k_job k j = Some st" for j st
    using all(2) [OF st] ended st on_icon_mem unfolding job_inv_def same by (fastforce simp: k_icon_def)
  moreover have "held (k_icon i IconFinished k) A" using all(9) by (simp add: held_def holds_def k_icon_def)
  ultimately show ?thesis using all(3-8) unfolding flow_inv_def same by blast
qed

lemma k_stop_job: "wf_core k \<Longrightarrow> k_job (k_stop i k) j = Some st' \<Longrightarrow> \<exists>st. k_job k j = Some st \<and> same_rows st st'"
  using quiet_job [OF quiet_stop] by blast

lemma flow_inv_received:
  assumes inv: "flow_inv k s (A1 @ AnsText i r (Some a) # A2) used"
    and r: "map_get (k_state k) i = Some r" "k_objects k r = Some st"
  shows "flow_inv (k_received i r st a k) s (A1 @ A2) used"
proof -
  define rows where "rows = number_rows (kj_rowId st) (ra_results a)"
  define k1 where "k1 = k_store r rows k"
  have inv1: "flow_inv k1 s (A1 @ AnsResults i 0 ReplyFailed # A2) used"
    unfolding k1_def rows_def by (rule flow_inv_store [OF inv r])
  show ?thesis
  proof (cases "ra_status a = ''Stopped'' \<and> ra_total a \<le> kj_rowId st + length rows")
    case False
    then have "k_received i r st a k = k_rearm r (if maxResults \<le> length rows then 0 else 2000) i k1"
      by (auto simp: k_received_def Let_def k1_def rows_def)
    with flow_inv_quiet [OF inv1 quiet_rearm] show ?thesis by simp
  next
    case True
    then have "k_received i r st a k = k_icon i IconFinished (k_stop i k1)"
      by (simp add: k_received_def Let_def k1_def rows_def)
    moreover have "ended_with s i (kj_rowId st')" if st': "k_job (k_stop i k1) i = Some st'" for st'
    proof -
      note all = flow_invD [OF inv] and all1 = flow_invD [OF inv1]
      from quiet_job [OF quiet_stop st'] obtain st1 where st1: "k_job k1 i = Some st1" "kj_rowId st' = kj_rowId st1"
        by (auto simp: same_rows_def)
      moreover have job: "k_job k i = Some st" using r by (simp add: k_job_def)
      ultimately have len: "kj_rowId st1 = kj_rowId st + length rows"
        using k_job_mod [OF all(1) r(1), of _ i] by (auto simp: k1_def k_store_def)
      have "answer_ok s i st a" using all(2) [OF job] by (auto simp: job_inv_def)
      then have "ended_with s i (ra_total a)" using True by (simp add: answer_ok_def)
      moreover have "kj_rowId st1 \<le> length (results_of s i)" using all1(2) [OF st1(1)] by (simp add: job_inv_def rows_ok_def)
      ultimately have "ra_total a = kj_rowId st1" using True len by (auto simp: ended_with_def results_of_def)
      with \<open>ended_with s i (ra_total a)\<close> st1(2) show ?thesis by simp
    qed
    moreover have "flow_inv (k_stop i k1) s (A1 @ A2) used"
      using flow_inv_quiet [OF inv1 quiet_stop] by simp
    ultimately show ?thesis using flow_inv_finished by simp
  qed
qed

lemma k_stop_gone: "map_get (k_state k) i = None \<Longrightarrow> k_stop i k = k"
  by (simp add: k_stop_def)

lemma flow_inv_read:
  assumes inv: "flow_inv k s (A1 @ AnsText i r t # A2) used"
  shows "flow_inv (k_read i r t k) s (A1 @ A2) used"
proof (cases "\<exists>st a. k_objects k r = Some st \<and> t = Some a")
  case False
  have "flow_inv (k_rearm r d i k) s (A1 @ A2) used" for d using flow_inv_quiet [OF inv quiet_rearm] by simp
  moreover have "flow_inv k s (A1 @ A2) used" using flow_inv_quiet [OF inv quiet_refl] by simp
  ultimately show ?thesis using False by (auto simp: k_read_def split: option.split)
next
  case True
  then obtain st a where st: "k_objects k r = Some st" "t = Some a" by blast
  then have read: "k_read i r t k = k_received i r st a k" by (simp add: k_read_def)
  have held: "map_get (k_state k) j = Some q \<Longrightarrow> j = i \<longleftrightarrow> q = r" for j q
    using flow_invD(9) [OF inv] by (auto simp: held_def holds_def)
  show ?thesis
  proof (cases "map_get (k_state k) i")
    case (Some q)
    with held have "map_get (k_state k) i = Some r" by blast
    from flow_inv_received [OF inv [unfolded st(2)] this st(1)] show ?thesis by (simp add: read)
  next
    case None
    have gone: "map_get (k_state k) j \<noteq> Some r" for j using held [of j r] None by auto
    define rows where "rows = number_rows (kj_rowId st) (ra_results a)"
    define k1 where "k1 = k_store r rows k"
    have inv1: "flow_inv k1 s (A1 @ AnsText i r t # A2) used"
      unfolding k1_def by (rule flow_inv_gone [OF inv gone])
    have none: "map_get (k_state k1) i = None" using None by (simp add: k1_def k_store_def k_mod_def)
    then have job: "k_job k1 i = None" by (simp add: k_job_def)
    have "flow_inv (k_rearm r d i k1) s (A1 @ A2) used" for d using flow_inv_quiet [OF inv1 quiet_rearm] by simp
    moreover have "flow_inv k1 s (A1 @ A2) used" using flow_inv_quiet [OF inv1 quiet_refl] by simp
    then have "flow_inv (k_icon i IconFinished k1) s (A1 @ A2) used" by (rule flow_inv_finished) (simp add: job)
    ultimately show ?thesis
      unfolding read k_received_def Let_def rows_def [symmetric] k1_def [symmetric] k_stop_gone [OF none] by simp
  qed
qed

lemma flow_inv_answered:
  assumes inv: "flow_inv (core_of p) s (A1 @ AnsResults i r0 reply # A2) used"
  shows "flow_inv (k_answered i r0 reply (core_of p)) s (A1 @ A2 @ awaits (AnsResults i r0 reply) p) used"
proof -
  define k where "k = core_of p"
  note inv = inv [folded k_def]
  have calm: "quiet [] k k' \<Longrightarrow> flow_inv k' s (A1 @ A2) used" for k' using flow_inv_quiet [OF inv] by simp
  have armed: "flow_inv (k_rearm r d i k) s (A1 @ A2) used" for r d using flow_inv_quiet [OF inv quiet_rearm] by simp
  show ?thesis
  proof (cases reply)
    case ReplyFailed
    then show ?thesis using armed by (simp add: k_answered_def k_def)
  next
    case (ReplyStatus status)
    have "quiet [] k (k_icon i IconError (k_stop i k))" using quiet_after [OF quiet_stop quiet_icon] by simp
    with ReplyStatus show ?thesis using armed calm [OF quiet_refl] calm
      by (auto simp: k_answered_def k_def simp del: core_of_simps split: option.split)
  next
    case (ReplyOk ans)
    have a: "quiet [] k (k_icon i IconAborted k)" "quiet [] k (k_icon i IconAborted (k_clear n k))" for n
      using quiet_icon quiet_after [OF quiet_clear quiet_icon] by simp_all
    show ?thesis
    proof (cases "waits_with i p")
      case (Some r)
      then obtain st where r: "map_get (k_state k) i = Some r" "k_objects k r = Some st" "kj_running st"
        unfolding core_waits k_def by (auto simp del: core_of_simps split: option.splits if_splits)
      then have "k_answered i r0 reply k = k" by (simp add: k_answered_def ReplyOk)
      moreover have "flow_inv k s (A1 @ A2 @ [AnsText i r ans]) used"
      proof (rule flow_inv_answers [OF inv])
        have "r < k_next k" using flow_invD(1) [OF inv] r(1) by (simp add: wf_core_def)
        moreover have "j = i" if "map_get (k_state k) j = Some r" for j
          using flow_invD(1) [OF inv] r(1) that unfolding wf_core_def by metis
        ultimately have "holds k i r" using r(1) unfolding holds_def by (metis option.inject)
        then show "held k [AnsText i r ans]" by (simp add: held_def)
        show "texts [AnsText i r ans] \<subseteq> texts [AnsResults i r0 reply]" by (cases ans) (simp_all add: ReplyOk)
      qed simp_all
      ultimately show ?thesis using Some by (simp add: k_def ReplyOk)
    next
      case None
      then have "k_answered i r0 reply k = k_icon i IconAborted k \<or> k_answered i r0 reply k = k
          \<or> (\<exists>n. k_answered i r0 reply k = k_icon i IconAborted (k_clear n k))"
        unfolding core_waits k_def [symmetric] by (auto simp: k_answered_def ReplyOk split: option.splits if_splits)
      then show ?thesis using calm [OF quiet_refl] calm [OF a(1)] calm [OF a(2)] ReplyOk None by (auto simp: k_def [symmetric])
    qed
  qed
qed

section \<open>Every step keeps the invariant\<close>

definition fl_inv :: "search_flow \<Rightarrow> bool" where
  "fl_inv fl \<longleftrightarrow> flow_inv (core_of (fl_page fl)) (fl_server fl) (fl_answers fl) (fl_used fl)"

lemma has_tab_live: "flow_inv (core_of p) s A used \<Longrightarrow> has_tab p i \<Longrightarrow> i \<in> live_ids (core_of p)"
  by (auto simp: has_tab_def flow_inv_def wf_core_def comp_def dest: equalityD1)

lemma flow_inv_send_live:
  assumes inv: "flow_inv k s A used" and "i \<in> live_ids k" and "request_names q = [i]" "request_poll q = []" "q \<noteq> ReqDelete i"
  shows "flow_inv (k_send q k) s A used"
proof (rule flow_inv_send [OF inv])
  note all = flow_invD [OF inv]
  show "set (request_names q) \<subseteq> set used" "set (request_names q) \<inter> set (newborn A) = {}"
    using assms(2,3) all(5) all(4) [of i] by auto
  show "i' \<notin> live_ids k" if "q = ReqDelete i'" for i' using that assms(3,5) by simp
qed (simp add: assms)

lemma flow_inv_user:
  assumes inv: "flow_inv (core_of p) s A used"
  shows "flow_inv (core_of (user_step cmp a p)) s A used"
proof (cases a)
  case PressStart
  have "\<exists>i. getSelectedSearchId p = Some i \<and> i \<in> live_ids (core_of p)" if "canStopSearch (getSelectedSearchId p) pat p" for pat
  proof -
    from that obtain i st where i: "getSelectedSearchId p = Some i" "get_job p i = Some st"
      by (cases "getSelectedSearchId p") (auto simp: canStopSearch_def split: option.splits)
    then have "k_job (core_of p) i \<noteq> None" using core_job [of p i] by (metis option.distinct(1) option.simps(9))
    with i wf_job [of "core_of p" i] flow_invD(1) [OF inv] show ?thesis by blast
  qed
  moreover have "core_of (p\<lparr>sp_filters := f\<rparr>) = core_of p" for f by (simp add: core_same)
  ultimately show ?thesis
    using PressStart inv flow_inv_send_live [OF inv]
    by (fastforce simp: startStopSearch_def Let_def startSearch_def stopSearch_def core_send' core_same intro!: flow_inv_send [OF inv])
next
  case CloseAllTabs
  have "flow_inv (core_of (foldl (\<lambda>p i. closeSearchTab cmp i p) p is)) s A used" if "flow_inv (core_of p) s A used" for p "is"
    using that by (induction "is" arbitrary: p) (simp_all add: core_close flow_inv_close)
  with CloseAllTabs inv show ?thesis by (simp add: closeAllTabs_def)
next
  case (RefreshTab i)
  with inv flow_inv_send_live [OF inv has_tab_live [OF inv, of i]] show ?thesis
    by (auto simp: refreshSearch_def core_send' split: option.split)
next
  case (StopTab i)
  with inv flow_inv_send_live [OF inv has_tab_live [OF inv, of i]] show ?thesis by (simp add: stopSearch_def core_send')
qed (auto simp: core_same core_close flow_inv_close useSearchText_def inv split: option.split)

lemma flow_inv_delivered:
  assumes inv: "flow_inv (core_of p) s (A1 @ a # A2) used"
    and waits: "\<And>old new q t. a = AnsRefresh old (Some new) \<Longrightarrow> AnsText old q t \<notin> set (A1 @ A2)"
  shows "flow_inv (core_of (deliver cmp a p)) s (A1 @ A2 @ awaits a p) used"
proof (cases a)
  case (AnsStart pattern i)
  show ?thesis
  proof (cases i)
    case None
    then show ?thesis using flow_inv_quiet [OF inv quiet_refl] AnsStart by (simp add: start_answered_def)
  next
    case (Some j)
    then show ?thesis using flow_inv_open [OF inv, of j] AnsStart
      by (simp add: start_answered_def Let_def core_same core_open)
  qed
next
  case (AnsRefresh old i)
  show ?thesis
  proof (cases i)
    case None
    then show ?thesis using flow_inv_quiet [OF inv quiet_refl] AnsRefresh by (simp add: refresh_answered_def)
  next
    case (Some new)
    then have "core_of (deliver cmp a p) = core_of (fst (refreshSearchTab cmp old new p))"
      using AnsRefresh by (auto simp: refresh_answered_def core_same split: prod.split option.split)
    then show ?thesis using flow_inv_refresh [OF inv, of new old] waits [of old new] AnsRefresh Some by (simp add: core_refresh)
  qed
next
  case (AnsStop i okay)
  have "quiet [] (core_of p) (k_icon i IconAborted (k_stop i (core_of p)))"
    using quiet_after [OF quiet_stop quiet_icon] by simp
  from flow_inv_quiet [OF inv this] flow_inv_quiet [OF inv quiet_refl] show ?thesis
    using AnsStop by (simp add: stop_answered_def core_icon core_stop)
next
  case (AnsResults i r reply)
  then show ?thesis using flow_inv_answered [of p s A1 i r reply A2] inv by (simp add: core_answered)
next
  case (AnsText i r t)
  then show ?thesis using flow_inv_read [of "core_of p" s A1 i r t A2] inv by (simp add: core_read)
qed

lemma core_take_request:
  "core_of (take_request n p) = (core_of p)\<lparr>k_requests := take n (sp_requests p) @ drop (Suc n) (sp_requests p)\<rparr>"
  by (simp add: take_request_def drop_nth_def core_of_def)

lemma flow_inv_taken:
  assumes inv: "flow_inv (core_of p) s A used" and n: "n < length (sp_requests p)"
    and "\<And>j. count_list (concat (map answer_poll as)) j \<le> count_list (request_poll (sp_requests p ! n)) j"
    and "\<And>a. a \<in> set as \<Longrightarrow> set (answer_names a) \<subseteq> set (request_names (sp_requests p ! n))"
    and "distinct (newborn as)" "set (newborn as) \<inter> set used = {}"
    and "\<And>i a st. (i, a) \<in> texts as \<Longrightarrow> k_job (core_of p) i = Some st \<Longrightarrow> answer_ok s i st a"
    and "\<And>i r t. AnsText i r t \<notin> set as"
  shows "flow_inv (core_of (take_request n p)) s (A @ as) (newborn as @ used)"
  unfolding core_take_request
  by (rule flow_inv_wire [OF inv, of "take n (sp_requests p)" "sp_requests p ! n"]) (use assms n in \<open>auto simp: id_take_nth_drop [symmetric]\<close>)

lemma answer_of_server:
  assumes inv: "flow_inv k s A used" and req: "ReqResults i l n r \<in> set (k_requests k)" and st: "k_job k i = Some st"
    and a: "reply_of (resultsAction i (int l) (int n) s) = ReplyOk (Some a)"
  shows "answer_ok s i st a"
proof -
  have inv_i: "job_inv k s A i st" using flow_invD(2) [OF inv st] .
  with req have n: "n = kj_rowId st" by (auto simp: job_inv_def)
  from a obtain h where h: "map_get (searchHandlers s) i = Some h" "n \<le> length (sh_results h)"
    and ans: "a = getResults (if 0 < (if int l \<le> 0 then -1 else int l) \<or> 0 < int n
        then list_mid (nat (int n)) (if int l \<le> 0 then -1 else int l) (sh_results h) else sh_results h)
        (sh_running h) (length (sh_results h))"
    by (auto simp: resultsAction_def reply_of_def Let_def split: option.splits if_splits search_api_error.splits)
  have "results_of s i = sh_results h" using h by (simp add: results_of_def)
  moreover have "prefix (ra_results a) (drop n (sh_results h))"
    unfolding ans by (auto simp: getResults_def list_mid_def take_is_prefix)
  moreover have "ended_with s i (ra_total a)" if "ra_status a = ''Stopped''"
    using that h unfolding ans by (auto simp: getResults_def ended_with_def split: if_splits)
  ultimately show ?thesis using n by (simp add: answer_ok_def)
qed

lemma started:
  assumes "startAction py ps es draws pattern category plugins s = Some (Inr (i, s'))"
  shows "i \<in> set draws" "\<exists>h. searchHandlers s' = map_set i h (searchHandlers s)"
proof -
  have "generateSearchId draws m = Some i \<Longrightarrow> i \<in> set draws" for m
    by (induction draws m rule: generateSearchId.induct) (auto split: if_splits)
  then show "i \<in> set draws" "\<exists>h. searchHandlers s' = map_set i h (searchHandlers s)"
    using assms by (auto simp: startAction_def Let_def split: if_splits)
qed

lemma grows_other:
  "(\<And>i. i \<in> L \<Longrightarrow> map_get (searchHandlers s') i = map_get (searchHandlers s) i) \<Longrightarrow> server_grows L s s'"
  by (simp add: server_grows_def results_of_def ended_with_def)

lemma grows_handler:
  assumes "map_get (searchHandlers s) i = Some h" "searchHandlers s' = map_set i h' (searchHandlers s)"
    "prefix (sh_results h) (sh_results h')" "\<not> sh_running h \<Longrightarrow> \<not> sh_running h' \<and> sh_results h' = sh_results h"
  shows "server_grows L s s'"
  using assms by (auto simp: server_grows_def results_of_def ended_with_def)

lemma cancel_keeps [simp]: "sh_results (cancelSearch h) = sh_results h" "sh_running (cancelSearch h) = sh_running h"
  by (simp_all add: cancelSearch_def)

lemma keys_present: "map_get m i = Some h \<Longrightarrow> set (keys (map_set i h' m)) = set (keys m)"
  by (force dest: map_of_SomeD)

lemma flow_inv_started:
  assumes inv: "flow_inv (core_of p) s A used" and n: "n < length (sp_requests p)"
    and poll: "request_poll (sp_requests p ! n) = []"
    and r: "serve_start env used pattern category plugins s = Some (i, s', used')"
    and a: "answer_poll a = []" "set (answer_names a) \<subseteq> set (request_names (sp_requests p ! n))"
      "answer_born a = (case i of None \<Rightarrow> [] | Some i \<Rightarrow> [i])"
  shows "flow_inv (core_of (take_request n p)) s' (A @ [a]) used'"
proof -
  obtain res where act: "startAction (env_python env) (env_plugins env) (env_enabled env) (filter (\<lambda>i. i \<notin> set used) (env_draws env))
      pattern category plugins s = Some res"
    and res: "(i, s', used') = (case res of Inl e \<Rightarrow> (None, s, used) | Inr (i, s') \<Rightarrow> (Some i, s', i # used))"
    using r by (auto simp: serve_start_def)
  have no: "AnsText j q t \<noteq> a" "answer_text a = None" for j q t using a(1) by (cases a; auto)+
  show ?thesis
  proof (cases res)
    case (Inl e)
    with res a no flow_inv_taken [OF inv n, of "[a]"] poll show ?thesis by simp
  next
    case (Inr js)
    then obtain j t where jt: "res = Inr (j, t)" by (cases js) simp
    note st = started [OF act [unfolded jt]]
    with res a no jt poll have taken: "flow_inv (core_of (take_request n p)) s (A @ [a]) used'"
      using flow_inv_taken [OF inv n, of "[a]"] by simp
    moreover have "j \<notin> live_ids (core_of (take_request n p))"
      using st(1) flow_invD(5) [OF inv] by (auto simp: live_ids_def core_take_request)
    then have "server_grows (live_ids (core_of (take_request n p))) s t" using st(2) by (intro grows_other) auto
    moreover have "set (keys (searchHandlers t)) \<subseteq> set used'"
    proof -
      obtain h where "searchHandlers t = map_set j h (searchHandlers s)" using st(2) by blast
      then have "set (keys (searchHandlers t)) = insert j (set (keys (searchHandlers s)))" by simp
      with flow_invD(8) [OF taken] res jt show ?thesis by simp
    qed
    ultimately show ?thesis using flow_inv_server res jt by simp
  qed
qed

lemma flow_inv_served:
  assumes inv: "flow_inv (core_of p) s A used" and n: "n < length (sp_requests p)"
    and srv: "serve env used (sp_requests p ! n) s = Some (as, s', used')"
  shows "flow_inv (core_of (take_request n p)) s' (A @ as) used'"
proof (cases "sp_requests p ! n")
  case (ReqStart pattern category plugins)
  with srv flow_inv_started [OF inv n] show ?thesis by (auto split: option.split)
next
  case (ReqRefresh old pattern category plugins)
  with srv flow_inv_started [OF inv n] show ?thesis by (auto split: option.split)
next
  case (ReqStop i)
  obtain okay where as: "as = [AnsStop i okay]" "used' = used" and s': "s' = s \<or> stopAction i s = Inr s'"
    using srv ReqStop by (auto split: sum.splits)
  have "server_grows (live_ids (core_of (take_request n p))) s s' \<and> set (keys (searchHandlers s')) \<subseteq> set used"
  proof (cases "stopAction i s")
    case (Inr t)
    then obtain h where h: "map_get (searchHandlers s) i = Some h"
      and t: "searchHandlers t = (if sh_running h then map_set i (cancelSearch h) (searchHandlers s) else searchHandlers s)"
      by (auto simp: stopAction_def split: option.splits if_splits)
    show ?thesis
    proof (cases "sh_running h \<and> s' = t")
      case True
      with t have "searchHandlers s' = map_set i (cancelSearch h) (searchHandlers s)" by simp
      with grows_handler [OF h this] keys_present [OF h] flow_invD(8) [OF inv] show ?thesis by simp
    next
      case False
      with s' Inr t have "searchHandlers s' = searchHandlers s" by auto
      then show ?thesis using flow_invD(8) [OF inv] by (simp add: grows_other)
    qed
  next
    case (Inl e)
    with s' have "s' = s" by simp
    then show ?thesis using flow_invD(8) [OF inv] by (simp add: grows_other)
  qed
  moreover have "flow_inv (core_of (take_request n p)) s (A @ as) used"
    using flow_inv_taken [OF inv n, of as] ReqStop as by simp
  ultimately show ?thesis using flow_inv_server as by blast
next
  case (ReqDelete i)
  then have as: "as = []" "used' = used" and s': "s' = s \<or> deleteAction i s = Inr s'"
    using srv by (auto split: sum.splits)
  have taken: "flow_inv (core_of (take_request n p)) s (A @ as) used"
    using flow_inv_taken [OF inv n, of as] ReqDelete as by simp
  have live: "live_ids (core_of (take_request n p)) = live_ids (core_of p)" by (simp add: live_ids_def core_take_request)
  have "i \<notin> live_ids (core_of p)"
  proof
    assume "i \<in> live_ids (core_of p)"
    then obtain st where "k_job (core_of p) i = Some st" using wf_job [OF flow_invD(1) [OF inv]] by blast
    then have "ReqDelete i \<notin> set (sp_requests p)" using flow_invD(2) [OF inv] by (simp add: job_inv_def)
    with ReqDelete n show False using nth_mem by metis
  qed
  moreover have "map_get (searchHandlers s') j = map_get (searchHandlers s) j" if "j \<noteq> i" for j
    using s' that by (auto simp: deleteAction_def split: if_splits)
  ultimately have "server_grows (live_ids (core_of (take_request n p))) s s'" unfolding live by (intro grows_other) metis
  moreover have "searchHandlers s' = searchHandlers s \<or> searchHandlers s' = map_delete i (searchHandlers s)"
    using s' by (auto simp: deleteAction_def split: if_splits)
  then have "set (keys (searchHandlers s')) \<subseteq> set used"
    using flow_invD(8) [OF inv] set_keys_delete [of i "searchHandlers s"] by (metis Diff_subset subset_trans)
  ultimately show ?thesis using flow_inv_server [OF taken] as by simp
next
  case (ReqResults i l m r)
  then have as: "as = [AnsResults i r (reply_of (resultsAction i (int l) (int m) s))]" "s' = s" "used' = used" using srv by auto
  have "ReqResults i l m r \<in> set (k_requests (core_of p))" using ReqResults n nth_mem by (metis core_of_simps(6))
  note ok = answer_of_server [OF inv this]
  have "flow_inv (core_of (take_request n p)) s (A @ as) (newborn as @ used)"
  proof (rule flow_inv_taken [OF inv n])
    show "answer_ok s j st a" if "(j, a) \<in> texts as" "k_job (core_of p) j = Some st" for j a st
      using that ok unfolding as(1) texts_results by blast
  qed (use ReqResults as in simp_all)
  then show ?thesis using as by simp
qed

lemma process_grows:
  assumes "process_event e"
  shows "server_grows L s (server_step names e s)" "set (keys (searchHandlers (server_step names e s))) = set (keys (searchHandlers s))"
proof -
  have on: "server_grows L s (on_handler i f s)" "set (keys (searchHandlers (on_handler i f s))) = set (keys (searchHandlers s))"
    if "\<And>h. prefix (sh_results h) (sh_results (f h))" "\<And>h. \<not> sh_running h \<Longrightarrow> \<not> sh_running (f h) \<and> sh_results (f h) = sh_results h"
    for i f
    using that keys_present [of "searchHandlers s" i] grows_handler [of s i _ "on_handler i f s"]
    by (auto simp: on_handler_def grows_other split: option.split)
  have ended: "server_grows L s (processFinished i s)" "set (keys (searchHandlers (processFinished i s))) = set (keys (searchHandlers s))" for i
    using keys_present [of "searchHandlers s" i] grows_handler [of s i _ "processFinished i s"]
    by (auto simp: processFinished_def grows_other split: option.split)
  have "\<exists>i f. server_step names e s = on_handler i f s \<and> (\<forall>h. prefix (sh_results h) (sh_results (f h))) \<and>
      (\<forall>h. \<not> sh_running h \<longrightarrow> \<not> sh_running (f h) \<and> sh_results (f h) = sh_results h)
    \<or> server_step names e s = processFinished i s"
  proof (cases e)
    case (ProcessPrinted i out)
    then show ?thesis
      by (intro exI [of _ i] exI [of _ "\<lambda>h. if sh_running h then readSearchOutput names out h else h"])
        (simp add: readSearchOutput_def Let_def)
  next
    case (SearchTimeout i)
    then show ?thesis by (intro exI [of _ i] exI [of _ cancelSearch]) simp
  qed (use assms in \<open>auto simp: process_event_def\<close>)
  then show "server_grows L s (server_step names e s)" "set (keys (searchHandlers (server_step names e s))) = set (keys (searchHandlers s))"
    using on ended by (elim exE disjE; metis)+
qed

text \<open>A refresh is answered while a handler waits for the text of an answer to the old search.\<close>

definition torn_refresh :: "flow_event \<Rightarrow> search_flow \<Rightarrow> bool" where
  "torn_refresh e fl \<longleftrightarrow>
     (case e of
        Delivered n \<Rightarrow>
          n < length (fl_answers fl) \<and>
          (case fl_answers fl ! n of
             AnsRefresh old (Some new) \<Rightarrow> list_ex (\<lambda>a. case a of AnsText i r t \<Rightarrow> i = old | _ \<Rightarrow> False) (fl_answers fl)
           | _ \<Rightarrow> False)
      | _ \<Rightarrow> False)"

fun untorn_run :: "(table \<Rightarrow> row cmp) \<Rightarrow> (string \<Rightarrow> string) \<Rightarrow> flow_event list \<Rightarrow> search_flow \<Rightarrow> bool" where
  "untorn_run cmp names [] fl \<longleftrightarrow> True"
| "untorn_run cmp names (e # es) fl \<longleftrightarrow> \<not> torn_refresh e fl \<and> untorn_run cmp names es (search_step cmp names e fl)"

lemma fl_inv_step:
  assumes "fl_inv fl" and untorn: "\<not> torn_refresh e fl"
  shows "fl_inv (search_step cmp names e fl)"
proof (cases e)
  case (User a)
  with assms(1) show ?thesis by (simp add: fl_inv_def flow_inv_user)
next
  case (TimerFires n)
  show ?thesis
  proof (cases "n < length (sp_timers (fl_page fl))")
    case True
    obtain m delay i where t: "sp_timers (fl_page fl) ! n = (m, delay, i)" by (metis prod.collapse)
    have "k_timers (core_of (fl_page fl)) = take n (sp_timers (fl_page fl)) @ (m, delay, i) # drop (Suc n) (sp_timers (fl_page fl))"
      using id_take_nth_drop [OF True] t by simp
    from flow_inv_load [OF assms(1) [unfolded fl_inv_def] this]
    have "flow_inv (k_load i ((core_of (fl_page fl))\<lparr>k_timers := drop_nth n (sp_timers (fl_page fl))\<rparr>)) (fl_server fl) (fl_answers fl) (fl_used fl)"
      by (simp add: drop_nth_def)
    moreover have "core_of ((fl_page fl)\<lparr>sp_timers := ts\<rparr>) = (core_of (fl_page fl))\<lparr>k_timers := ts\<rparr>" for ts
      by (simp add: core_of_def)
    ultimately show ?thesis using TimerFires True t by (simp add: fl_inv_def core_load)
  qed (use assms(1) TimerFires in simp)
next
  case (Served n env)
  with assms(1) show ?thesis by (auto simp: fl_inv_def flow_inv_served split: option.split)
next
  case (Refused n status)
  show ?thesis
  proof (cases "n < length (sp_requests (fl_page fl))")
    case True
    from flow_inv_taken [OF assms(1) [unfolded fl_inv_def] True, of "refuse status (sp_requests (fl_page fl) ! n)"]
    show ?thesis using Refused True by (cases "sp_requests (fl_page fl) ! n") (simp_all add: fl_inv_def)
  qed (use assms(1) Refused in simp)
next
  case (RequestLost n)
  show ?thesis
  proof (cases "n < length (sp_requests (fl_page fl))")
    case True
    from flow_inv_taken [OF assms(1) [unfolded fl_inv_def] True, of "request_lost (sp_requests (fl_page fl) ! n)"]
    show ?thesis using RequestLost True by (cases "sp_requests (fl_page fl) ! n") (simp_all add: fl_inv_def)
  qed (use assms(1) RequestLost in simp)
next
  case (AnswerLost n)
  show ?thesis
  proof (cases "n < length (fl_answers fl)")
    case True
    then have "fl_answers fl = take n (fl_answers fl) @ fl_answers fl ! n # drop (Suc n) (fl_answers fl)"
      by (rule id_take_nth_drop)
    with assms(1) have "flow_inv (core_of (fl_page fl)) (fl_server fl)
        (take n (fl_answers fl) @ fl_answers fl ! n # drop (Suc n) (fl_answers fl)) (fl_used fl)"
      by (simp only: fl_inv_def)
    then have "flow_inv (core_of (fl_page fl)) (fl_server fl)
        (take n (fl_answers fl) @ drop (Suc n) (fl_answers fl) @ answer_lost (fl_answers fl ! n)) (fl_used fl)"
      by (rule flow_inv_answers) (cases "fl_answers fl ! n"; force simp: held_def)+
    then show ?thesis using AnswerLost True by (simp add: fl_inv_def drop_nth_def)
  qed (use assms(1) AnswerLost in simp)
next
  case (Delivered n)
  show ?thesis
  proof (cases "n < length (fl_answers fl)")
    case True
    then have "fl_answers fl = take n (fl_answers fl) @ fl_answers fl ! n # drop (Suc n) (fl_answers fl)"
      by (rule id_take_nth_drop)
    with assms(1) have "flow_inv (core_of (fl_page fl)) (fl_server fl)
        (take n (fl_answers fl) @ fl_answers fl ! n # drop (Suc n) (fl_answers fl)) (fl_used fl)"
      by (simp only: fl_inv_def)
    moreover have "AnsText old q t \<notin> set (take n (fl_answers fl) @ drop (Suc n) (fl_answers fl))"
      if "fl_answers fl ! n = AnsRefresh old (Some new)" for old new q t
    proof
      assume "AnsText old q t \<in> set (take n (fl_answers fl) @ drop (Suc n) (fl_answers fl))"
      then have "AnsText old q t \<in> set (fl_answers fl)" by (auto dest: in_set_takeD in_set_dropD)
      with that True untorn Delivered show False by (force simp: torn_refresh_def list_ex_iff)
    qed
    ultimately have "flow_inv (core_of (deliver cmp (fl_answers fl ! n) (fl_page fl))) (fl_server fl)
        (take n (fl_answers fl) @ drop (Suc n) (fl_answers fl) @ awaits (fl_answers fl ! n) (fl_page fl)) (fl_used fl)"
      by (rule flow_inv_delivered)
    then show ?thesis using Delivered True by (simp add: fl_inv_def drop_nth_def)
  qed (use assms(1) Delivered in simp)
next
  case (ProcessEvent e)
  show ?thesis
  proof (cases "process_event e")
    case True
    have "flow_inv (core_of (fl_page fl)) (server_step names e (fl_server fl)) (fl_answers fl) (fl_used fl)"
      using assms(1) flow_invD(8) process_grows(2) [OF True] unfolding fl_inv_def
      by (intro flow_inv_server [OF _ process_grows(1) [OF True]]) auto
    then show ?thesis using ProcessEvent True by (simp add: fl_inv_def)
  qed (use assms(1) ProcessEvent in simp)
qed

lemma fl_inv_run: "fl_inv fl \<Longrightarrow> untorn_run cmp names events fl \<Longrightarrow> fl_inv (search_run cmp names events fl)"
  unfolding search_run_def by (induction events arbitrary: fl) (simp_all add: fl_inv_step)

text \<open>The page at its start: no tabs yet, then those of the stored searches.\<close>

definition empty_page :: "search_page \<Rightarrow> bool" where
  "empty_page p \<longleftrightarrow> searchState p = [] \<and> sp_tabs p = [] \<and> sp_timers p = [] \<and> sp_requests p = []"

definition start_flow :: "(table \<Rightarrow> row cmp) \<Rightarrow> search_page \<Rightarrow> search_controller \<Rightarrow> int list \<Rightarrow> search_flow" where
  "start_flow cmp p s used = \<lparr>fl_page = restore_search_tabs cmp p, fl_server = s, fl_answers = [], fl_used = used\<rparr>"

lemma flow_inv_stored:
  assumes "empty_page p" "distinct (map fst (sp_jobs p))" "set (map fst (sp_jobs p)) \<union> set (keys (searchHandlers s)) \<subseteq> set used"
  shows "flow_inv (core_of p) s (map (\<lambda>(i, pattern). AnsStart pattern (Some i)) (sp_jobs p)) used"
proof -
  have born: "newborn (map (\<lambda>(i, pattern). AnsStart pattern (Some i)) js) = map fst js" for js :: "(int \<times> string) list"
    by (induction js) auto
  have names: "(\<Union>a \<in> set (map (\<lambda>(i, pattern). AnsStart pattern (Some i)) js). set (answer_names a)) = {}" for js :: "(int \<times> string) list"
    by auto
  show ?thesis
    using assms unfolding flow_inv_def born mentions_set names
    by (auto simp: empty_page_def wf_core_def live_ids_def k_job_def held_def)
qed

lemma fl_inv_start:
  assumes "empty_page p" "distinct (map fst (sp_jobs p))" "set (map fst (sp_jobs p)) \<union> set (keys (searchHandlers s)) \<subseteq> set used"
  shows "fl_inv (start_flow cmp p s used)"
proof -
  note flow_inv_stored [OF assms]
  moreover have "flow_inv (core_of (foldl (\<lambda>p (i, pattern). createSearchTab cmp i pattern p) p js)) s [] used"
    if "flow_inv (core_of p) s (map (\<lambda>(i, pattern). AnsStart pattern (Some i)) js) used" for js p
    using that
  proof (induction js arbitrary: p)
    case (Cons j js)
    obtain i pattern where j: "j = (i, pattern)" by fastforce
    from flow_inv_open [of "core_of p" s "[]" "AnsStart pattern (Some i)" _ used i] Cons.prems
    have "flow_inv (core_of (createSearchTab cmp i pattern p)) s (map (\<lambda>(i, pattern). AnsStart pattern (Some i)) js) used"
      by (simp add: j core_open)
    from Cons.IH [OF this] show ?case by (simp add: j)
  qed simp
  ultimately show ?thesis by (simp add: fl_inv_def start_flow_def restore_search_tabs_def)
qed


definition ex_search_table :: table where
  "ex_search_table = \<lparr>tableId = ''search'', columns = [], rows = [], selectedRows = [], sortedColumn = [], reverseSort = ''0'',
     useVirtualList = False, trs = [], rowHeight = 26, renderedHeight = 0, renderedOffset = 0\<rparr>"

definition ex_search_page :: search_page where
  "ex_search_page = \<lparr>searchState = [], sp_objects = (\<lambda>r. None), sp_nextObject = 0, sp_tabs = [], sp_table = ex_search_table,
     sp_filters = ex_filters\<lparr>sf_inName := False\<rparr>, sp_fields = \<lparr>fld_name = [], fld_minSeeds = JNum 0, fld_maxSeeds = JNum 0, fld_minSize = JNum 0,
       fld_minPrefix = 2, fld_maxSize = JNum 0, fld_maxPrefix = 3\<rparr>,
     sp_timers = [], sp_nextTimer = 0, sp_jobs = [], sp_prefs = [], sp_pattern = ''b'', sp_category = ''all'', sp_plugins = ''x'',
     sp_stopButton = False, sp_noSearchesHidden = False, sp_resultsHidden = True, sp_numVisible = 0, sp_numTotal = 0,
     sp_requests = []\<rparr>"

definition ex_env :: server_env where
  "ex_env = \<lparr>env_python = True, env_plugins = [''x''], env_enabled = [''x''], env_draws = [7, 8]\<rparr>"

definition ex_events :: "flow_event list" where
  "ex_events = [User PressStart, Served 0 ex_env, Delivered 0,
      ProcessEvent (ProcessPrinted 7 (prettyPrinter ex_engine_result @ [CHR 10])), ProcessEvent (ProcessEnded 7),
      TimerFires 0, Served 0 ex_env, Delivered 0, Delivered 0]"

definition ex_run :: search_flow where
  "ex_run = search_run (\<lambda>_ _ _. 0) (\<lambda>u. ''X'') ex_events
     (start_flow (\<lambda>_ _ _. 0) ex_search_page \<lparr>searchHandlers = [], activeSearches = []\<rparr> [])"

lemma ex_run_untorn:
  "untorn_run (\<lambda>_ _ _. 0) (\<lambda>u. ''X'') ex_events
     (start_flow (\<lambda>_ _ _. 0) ex_search_page \<lparr>searchHandlers = [], activeSearches = []\<rparr> [])"
  by code_simp

lemma ex_run_state:
  "map_option (\<lambda>st. (st_rowId st, st_running st)) (get_job (fl_page ex_run) 7) = Some (1, False)"
  "map (\<lambda>t. (tab_id t, tab_icon t)) (sp_tabs (fl_page ex_run)) = [(7, IconFinished)]"
  by code_simp+


section \<open>Runs that go wrong\<close>

text \<open>
  Two searches, 7 and 8, of which 8 is shown; then the answer to the refresh of 7 arrives: the
  table of 8 is emptied although its rows are still there.
\<close>

definition ex_two :: "flow_event list" where
  "ex_two = [User PressStart, Served 0 ex_env, Delivered 0, User (TypePattern ''c''), User PressStart, Served 0 ex_env, Delivered 0,
     ProcessEvent (ProcessPrinted 8 (prettyPrinter ex_engine_result @ [CHR 10])), TimerFires 1, Served 0 ex_env, Delivered 0, Delivered 0]"

definition ex_flow :: "flow_event list \<Rightarrow> search_flow" where
  "ex_flow events = search_run (\<lambda>_ _ _. 0) (\<lambda>u. ''X'') events
     (start_flow (\<lambda>_ _ _. 0) ex_search_page \<lparr>searchHandlers = [], activeSearches = []\<rparr> [])"

lemma late_refresh_blanks:
  "let before = fl_page (ex_flow ex_two);
       after = fl_page (ex_flow (ex_two @ [User (RefreshTab 7), Served 0 (ex_env\<lparr>env_draws := [9]\<rparr>), Delivered 0]))
   in getSelectedSearchId before = Some 8 \<and> length (rows (sp_table before)) = 1
    \<and> getSelectedSearchId after = Some 8 \<and> rows (sp_table after) = []
    \<and> map_option (\<lambda>st. length (st_rows st)) (get_job after 8) = Some 1"
  by code_simp

text \<open>
  The handler of the results of 7 waits for their text while 7 is refreshed to 9: the results of 7 get
  into the tab of 9, which the server has no result of, and no poll of 9 is left, although it runs.
\<close>

lemma torn_refresh_mixes:
  "let fl = ex_flow [User PressStart, Served 0 ex_env, Delivered 0,
         ProcessEvent (ProcessPrinted 7 (prettyPrinter ex_engine_result @ [CHR 10])), TimerFires 0, User (RefreshTab 7), Served 0 ex_env,
         Delivered 0, Served 0 (ex_env\<lparr>env_draws := [9]\<rparr>), Delivered 1, Delivered 0]
   in map_option (\<lambda>st. (length (st_rows st), st_running st)) (get_job (fl_page fl) 9) = Some (1, True)
    \<and> results_of (fl_server fl) 9 = [] \<and> polls (core_of (fl_page fl)) (fl_answers fl) 9 = 0
    \<and> map (\<lambda>t. (tab_id t, tab_icon t)) (sp_tabs (fl_page fl)) = [(9, IconSearching)]"
  by code_simp

text \<open>
  A poll of 7 is under way while 7 is refreshed to 9, and the poll fails: its handler clears the
  timer of the object it remembers, which by now is that of 9. No poll of 9 is left, although it runs.
\<close>

lemma failed_poll_stalls:
  "let fl = ex_flow [User PressStart, Served 0 ex_env, Delivered 0, TimerFires 0, User (RefreshTab 7),
         Served 1 (ex_env\<lparr>env_draws := [9]\<rparr>), Delivered 0, RequestLost 0, Delivered 0]
   in polls (core_of (fl_page fl)) (fl_answers fl) 9 = 0 \<and> map_option st_running (get_job (fl_page fl) 9) = Some True
    \<and> map (\<lambda>t. (tab_id t, tab_icon t)) (sp_tabs (fl_page fl)) = [(9, IconSearching)]"
  by code_simp

text \<open>A tab is refreshed twice before the first answer: the second search has no tab and is never deleted.\<close>

lemma double_refresh_leaks:
  "let fl = ex_flow [User PressStart, Served 0 ex_env, Delivered 0, User (RefreshTab 7), User (RefreshTab 7),
         Served 0 (ex_env\<lparr>env_draws := [9]\<rparr>), Served 0 (ex_env\<lparr>env_draws := [10]\<rparr>), Delivered 0, Delivered 0,
         Served 0 ex_env, Served 0 ex_env]
   in map tab_id (sp_tabs (fl_page fl)) = [9] \<and> keys (searchHandlers (fl_server fl)) = [9, 10] \<and> sp_requests (fl_page fl) = []
    \<and> fl_answers fl = []"
  by code_simp

text \<open>
  The count of unread results starts at the last time the tab was activated, not at the last time
  it was shown: rows that came while the tab was shown count as unread afterwards.
\<close>

lemma unread_counts_shown:
  "let print = (\<lambda>i. ProcessEvent (ProcessPrinted i (prettyPrinter ex_engine_result @ [CHR 10])));
       fl = ex_flow [User PressStart, Served 0 ex_env, Delivered 0, print 7, print 7, TimerFires 0, Served 0 ex_env, Delivered 0, Delivered 0,
         User (TypePattern ''c''), User PressStart, Served 0 ex_env, Delivered 0, print 7, TimerFires 0, Served 0 ex_env, Delivered 0, Delivered 0]
   in map tab_title (sp_tabs (fl_page fl)) = [''b (+3)'', ''c'']"
  by code_simp

end
