(* ===== verification/SearchDisplay.thy ===== *)
theory SearchDisplay
  imports SearchRows
begin

text \<open>
  What the page shows of its searches: the table has the rows of the selected tab; and how a
  search that has ended on the server comes to its end on the page.
\<close>

section \<open>What is looked at\<close>

text \<open>The tabs with their selection, the data in the table, and the rows of each search.\<close>

definition tab_sels :: "search_page \<Rightarrow> (int \<times> bool) list" where
  "tab_sels p = map (\<lambda>t. (tab_id t, tab_selected t)) (sp_tabs p)"

definition shown_data :: "search_page \<Rightarrow> (string \<times> string \<times> jsobj) list" where
  "shown_data p = map row_data (rows (sp_table p))"

definition job_rows :: "search_page \<Rightarrow> int \<Rightarrow> jsobj list option" where
  "job_rows p i = map_option st_rows (get_job p i)"

definition expected_data :: "jsobj list \<Rightarrow> (string \<times> string \<times> jsobj) list" where
  "expected_data ds = map (\<lambda>d. (data_id d, data_id d, d)) ds"

definition shows_tab :: "search_page \<Rightarrow> bool" where
  "shows_tab p \<longleftrightarrow>
     (\<forall>i ds. getSelectedSearchId p = Some i \<longrightarrow> job_rows p i = Some ds \<longrightarrow> shown_data p = expected_data ds)"

definition one_selected :: "search_page \<Rightarrow> bool" where
  "one_selected p \<longleftrightarrow> length (filter tab_selected (sp_tabs p)) = (if sp_tabs p = [] then 0 else 1)"

definition same_look :: "search_page \<Rightarrow> search_page \<Rightarrow> bool" where
  "same_look p p' \<longleftrightarrow> tab_sels p' = tab_sels p \<and> shown_data p' = shown_data p \<and> job_rows p' = job_rows p"

lemma selected_sels: "getSelectedSearchId p = map_option fst (find snd (tab_sels p))"
proof -
  have "map_option tab_id (find tab_selected ts) = map_option fst (find snd (map (\<lambda>t. (tab_id t, tab_selected t)) ts))" for ts
    by (induction ts) auto
  then show ?thesis by (simp add: getSelectedSearchId_def tab_sels_def)
qed

lemma one_selected_sels: "one_selected p \<longleftrightarrow> length (filter snd (tab_sels p)) = (if tab_sels p = [] then 0 else 1)"
proof -
  have len: "length (filter snd (map (\<lambda>t. (tab_id t, tab_selected t)) ts)) = length (filter tab_selected ts)" for ts
    by (induction ts) auto
  show ?thesis by (simp only: one_selected_def tab_sels_def len map_is_Nil_conv)
qed

lemma same_look_refl [simp]: "same_look p p"
  by (simp add: same_look_def)

lemma same_look_trans: "same_look p p' \<Longrightarrow> same_look p' p'' \<Longrightarrow> same_look p p''"
  by (simp add: same_look_def)

lemma same_look_shows:
  assumes "same_look p p'"
  shows "shows_tab p' = shows_tab p" "one_selected p' = one_selected p" "getSelectedSearchId p' = getSelectedSearchId p"
  using assms by (simp_all add: same_look_def shows_tab_def one_selected_sels selected_sels)

text \<open>The selected tab is that of a search that is there.\<close>

lemma selected_iff:
  assumes "one_selected p" "distinct (map tab_id (sp_tabs p))" "t \<in> set (sp_tabs p)"
  shows "getSelectedSearchId p = Some (tab_id t) \<longleftrightarrow> tab_selected t"
proof
  assume "tab_selected t"
  then obtain u where u: "find tab_selected (sp_tabs p) = Some u" using assms(3) by (metis find_None_iff not_None_eq)
  then have "u \<in> set (filter tab_selected (sp_tabs p))" by (auto simp: find_Some_iff)
  moreover have "t \<in> set (filter tab_selected (sp_tabs p))" using assms(3) \<open>tab_selected t\<close> by simp
  moreover have "length (filter tab_selected (sp_tabs p)) = 1" using assms(1,3) by (auto simp: one_selected_def split: if_splits)
  then obtain y where "filter tab_selected (sp_tabs p) = [y]" by (auto simp: length_Suc_conv)
  ultimately have "u = t" by simp
  with u show "getSelectedSearchId p = Some (tab_id t)" by (simp add: getSelectedSearchId_def)
next
  assume "getSelectedSearchId p = Some (tab_id t)"
  then obtain u where u: "u \<in> set (sp_tabs p)" "tab_selected u" "tab_id u = tab_id t"
    by (auto simp: getSelectedSearchId_def find_Some_iff) (metis nth_mem)
  with assms(2,3) have "u = t" by (metis distinct_map inj_on_def)
  with u show "tab_selected t" by simp
qed

section \<open>Operations that change nothing of it\<close>

named_theorems look_same \<open>operations that leave what is looked at\<close>

lemma sels_on_tab:
  "(\<And>t. tab_id (f t) = tab_id t \<and> tab_selected (f t) = tab_selected t) \<Longrightarrow>
     map (\<lambda>t. (tab_id t, tab_selected t)) (on_tab i f ts) = map (\<lambda>t. (tab_id t, tab_selected t)) ts"
  by (induction i f ts rule: on_tab.induct) auto

lemma look_title [look_same]: "same_look p (updateTabTitle i p)"
  by (auto simp: same_look_def updateTabTitle_def tab_sels_def shown_data_def job_rows_def get_job_def Let_def sels_on_tab
      split: option.split)

lemma look_icon [look_same]: "same_look p (updateStatusIconElement i ic p)"
  by (auto simp: same_look_def updateStatusIconElement_def tab_sels_def shown_data_def job_rows_def get_job_def sels_on_tab)

lemma look_fields:
  "same_look p (p\<lparr>sp_filters := f\<rparr>)" "same_look p (p\<lparr>sp_fields := ff\<rparr>)" "same_look p (p\<lparr>sp_jobs := js\<rparr>)"
  "same_look p (p\<lparr>sp_prefs := pr\<rparr>)" "same_look p (p\<lparr>sp_pattern := pat\<rparr>)" "same_look p (p\<lparr>sp_stopButton := b\<rparr>)"
  "same_look p (p\<lparr>sp_numVisible := n\<rparr>)" "same_look p (p\<lparr>sp_numTotal := n\<rparr>)" "same_look p (p\<lparr>sp_noSearchesHidden := b\<rparr>)"
  "same_look p (p\<lparr>sp_resultsHidden := b\<rparr>)" "same_look p (p\<lparr>sp_requests := qs\<rparr>)" "same_look p (p\<lparr>sp_timers := ts\<rparr>)"
  "same_look p (p\<lparr>sp_category := pat\<rparr>)" "same_look p (p\<lparr>sp_plugins := pat\<rparr>)"
  by (simp_all add: same_look_def tab_sels_def shown_data_def job_rows_def get_job_def fun_eq_iff)

lemma look_table: "map row_data (rows t) = map row_data (rows (sp_table p)) \<Longrightarrow> same_look p (p\<lparr>sp_table := t\<rparr>)"
  by (simp add: same_look_def tab_sels_def shown_data_def job_rows_def get_job_def fun_eq_iff)

lemma look_object:
  assumes "\<And>st. st_rows (f st) = st_rows st"
  shows "same_look p (mod_object r f p)" "same_look p (mod_job i f p)"
proof -
  have "map_option st_rows (Option.bind o' ((sp_objects p)(r := map_option f (sp_objects p r)))) = map_option st_rows (Option.bind o' (sp_objects p))"
    for o' r using assms by (cases o') (auto simp: option.map_comp comp_def)
  then show "same_look p (mod_object r f p)" for r
    by (simp add: same_look_def mod_object_def tab_sels_def shown_data_def job_rows_def get_job_def fun_eq_iff)
  then show "same_look p (mod_job i f p)" by (simp add: mod_job_def split: option.split)
qed

lemma look_timers [look_same]: "same_look p (clearTimeout n p)" "same_look p (send q p)" "same_look p (take_request m p)"
    "same_look p (updateSearchButtonState p)" "same_look p (count_visible cmp p)" "same_look p (count_total p)"
    "same_look p (resetFilters p)" "same_look p (restore_filters st p)"
  by (auto simp: same_look_def clearTimeout_def send_def take_request_def updateSearchButtonState_def count_visible_def
      count_total_def resetFilters_def restore_filters_def tab_sels_def shown_data_def job_rows_def get_job_def fun_eq_iff
      split: option.split)

lemma look_redraw [look_same]: "same_look p (redraw cmp p)"
  unfolding redraw_def by (rule look_table) simp

lemma look_sort [look_same]: "same_look p (restore_sort cmp st p)"
proof -
  have "map row_data (rows (snd (setSortedColumn fsr c r prefs t))) = map row_data (rows t)" for fsr c r prefs t
    by (auto simp: setSortedColumn_def Let_def)
  then show ?thesis
    by (auto simp: restore_sort_def same_look_def tab_sels_def shown_data_def job_rows_def get_job_def fun_eq_iff split: prod.split)
      (metis snd_conv)
qed

lemma look_reselect [look_same]: "same_look p (reselect_rows ids p)"
  unfolding reselect_rows_def by (auto intro!: look_table simp: reselectRows_def deselectAll_def)

lemma look_rearm [look_same]: "same_look p (rearm r delay i p)"
proof -
  define q where "q = clearTimeout (Option.bind (sp_objects p r) st_timer) p"
  have "same_look p q" unfolding q_def by (rule look_timers)
  moreover have "same_look q (q\<lparr>sp_timers := ts, sp_nextTimer := n\<rparr>)" for ts n
    by (simp add: same_look_def tab_sels_def shown_data_def job_rows_def get_job_def fun_eq_iff)
  moreover have "same_look q' (mod_object r (\<lambda>st. st\<lparr>st_timer := n\<rparr>) q')" for q' n by (rule look_object) simp
  ultimately show ?thesis unfolding rearm_def Let_def q_def [symmetric] by (meson same_look_trans)
qed

lemma look_reset [look_same]: "same_look p (resetSearchState i p)"
proof -
  have "same_look p (mod_job j (\<lambda>st. st\<lparr>st_running := False, st_timer := None\<rparr>) (clearTimeout n p))" for j n
    by (rule same_look_trans [OF look_timers(1) look_object(2)]) simp
  then show ?thesis
    unfolding resetSearchState_def by (auto intro: same_look_trans [OF _ look_timers(4)] split: option.split)
qed

lemma look_save [look_same]: "same_look p (saveCurrentTabState p)"
  by (auto simp: saveCurrentTabState_def Let_def intro!: look_object split: option.split)

lemma look_poll [look_same]: "same_look p (updateSearchResultsData i p)"
  by (auto simp: updateSearchResultsData_def look_rearm split: option.split)

lemma look_filter_changed [look_same]:
  "same_look p (searchFilterChanged cmp p)"
  unfolding searchFilterChanged_def by (rule same_look_trans [OF look_redraw look_timers(5)])

lemma look_clickRow: "rows (clickRow fsr ctrl shift target t) = rows t"
  by (auto simp: clickRow_def selectRow_def deselectRow_def deselectAll_def selectRows_def Let_def split: option.split)

section \<open>Rows in the table\<close>

lemma map_set_new: "k \<notin> set (keys m) \<Longrightarrow> map_set k v m = m @ [(k, v)]"
  by (induction m) auto

lemma data_id_result [simp]: "data_id (result_row n r) = js_num_str (of_nat n)"
  by (simp add: data_id_def result_row_def prop_get_def)

lemma merge_result: "merge_props [] (result_row n r) = result_row n r"
  by (simp add: merge_props_def result_row_def)

definition few :: nat where
  "few = 10 ^ 21"

lemma data_id_inj: "m < few \<Longrightarrow> n < few \<Longrightarrow> js_num_str (of_nat m) = js_num_str (of_nat n) \<Longrightarrow> m = n"
  using js_num_str_nat nat_str_inj by (metis few_def)

lemma number_rows_ids: "d \<in> set (number_rows n rs) \<Longrightarrow> \<exists>m. n \<le> m \<and> m < n + length rs \<and> data_id d = js_num_str (of_nat m)"
proof (induction rs arbitrary: n)
  case (Cons r rs)
  then consider "d = result_row n r" | "d \<in> set (number_rows (Suc n) rs)" by auto
  then show ?case
  proof cases
    case 1
    then show ?thesis by (intro exI [of _ n]) simp
  next
    case 2
    with Cons.IH [of "Suc n"] show ?thesis by (metis add_Suc_shift length_Cons Suc_leD)
  qed
qed simp

lemma shown_row:
  assumes "data_id d \<notin> set (keys (rows t))" "merge_props [] d = d"
  shows "map row_data (rows (updateRowData d t)) = map row_data (rows t) @ [(data_id d, data_id d, d)]"
proof -
  have "map_get (rows t) (data_id d) = None" using assms(1) by (simp add: map_of_eq_None_iff)
  then show ?thesis
    using assms by (simp add: updateRowData_def data_id_def [symmetric] Let_def map_set_new row_data_def)
qed

lemma shown_rows:
  assumes "map row_data (rows t) = expected_data (number_rows 0 xs)" "length xs + length ys \<le> few"
  shows "map row_data (rows (foldl (\<lambda>t d. updateRowData d t) t (number_rows (length xs) ys))) = expected_data (number_rows 0 (xs @ ys))"
  using assms
proof (induction ys arbitrary: t xs)
  case (Cons y ys)
  have "keys (rows t) = map fst (map row_data (rows t))" by (simp add: row_data_def comp_def)
  also have "\<dots> = map data_id (number_rows 0 xs)" unfolding Cons.prems(1) by (simp add: expected_data_def comp_def)
  finally have keys: "keys (rows t) = map data_id (number_rows 0 xs)" .
  have new: "data_id (result_row (length xs) y) \<notin> set (keys (rows t))"
  proof
    assume "data_id (result_row (length xs) y) \<in> set (keys (rows t))"
    then obtain d where "d \<in> set (number_rows 0 xs)" "data_id d = js_num_str (of_nat (length xs))" by (auto simp: keys)
    then obtain m where "m < length xs" "js_num_str (of_nat m) = js_num_str (of_nat (length xs))"
      using number_rows_ids [of d 0 xs] by auto
    with data_id_inj [of m "length xs"] Cons.prems(2) show False by simp
  qed
  let ?t = "updateRowData (result_row (length xs) y) t"
  have "map row_data (rows ?t) = expected_data (number_rows 0 (xs @ [y]))"
    using shown_row [OF new merge_result] Cons.prems(1) by (simp add: expected_data_def number_rows_append)
  from Cons.IH [OF this] Cons.prems(2) show ?case by simp
qed (simp add: expected_data_def)

lemma shown_add_rows:
  assumes "shown_data p = expected_data (number_rows 0 xs)" "length xs + length ys \<le> few"
  shows "shown_data (add_rows (number_rows (length xs) ys) p) = expected_data (number_rows 0 (xs @ ys))"
  using shown_rows [of "sp_table p" xs ys] assms by (simp add: shown_data_def add_rows_def)

lemma look_add_rows [simp]:
  "tab_sels (add_rows ds p) = tab_sels p" "job_rows (add_rows ds p) = job_rows p"
  "tab_sels (clear_results cmp p) = tab_sels p" "job_rows (clear_results cmp p) = job_rows p" "shown_data (clear_results cmp p) = []"
  by (simp_all add: tab_sels_def job_rows_def get_job_def add_rows_def clear_results_def fun_eq_iff shown_data_def)

section \<open>Activating a tab\<close>

text \<open>Searches whose rows are numbered from 0 and not too many.\<close>

definition numbered :: "search_page \<Rightarrow> bool" where
  "numbered p \<longleftrightarrow> (\<forall>i ds. job_rows p i = Some ds \<longrightarrow> (\<exists>rs. ds = number_rows 0 rs \<and> length rs \<le> few))"

definition tab_ids :: "search_page \<Rightarrow> int list" where
  "tab_ids p = map tab_id (sp_tabs p)"

lemma tab_ids_sels: "tab_ids p = map fst (tab_sels p)"
  by (simp add: tab_ids_def tab_sels_def)

lemma count_distinct: "distinct xs \<Longrightarrow> count_list xs i = (if i \<in> set xs then 1 else 0)"
  by (induction xs) auto

lemma select_one:
  assumes "distinct (tab_ids p)" "i \<in> set (tab_ids p)"
  shows "getSelectedSearchId (select_tab i p) = Some i" "one_selected (select_tab i p)"
    "job_rows (select_tab i p) = job_rows p" "shown_data (select_tab i p) = shown_data p" "tab_ids (select_tab i p) = tab_ids p"
proof -
  have found: "find tab_selected (map (\<lambda>t. t\<lparr>tab_selected := (tab_id t = i)\<rparr>) ts) =
      map_option (\<lambda>t. t\<lparr>tab_selected := True\<rparr>) (find (\<lambda>t. tab_id t = i) ts)" for ts
    by (induction ts) auto
  from assms(2) obtain t where t: "find (\<lambda>t. tab_id t = i) (sp_tabs p) = Some t"
    by (auto simp: tab_ids_def) (metis (mono_tags, lifting) find_None_iff not_None_eq)
  then have "tab_id t = i" by (auto simp: find_Some_iff)
  with t show "getSelectedSearchId (select_tab i p) = Some i"
    by (simp add: getSelectedSearchId_def select_tab_def found)
  have cnt: "length (filter tab_selected (map (\<lambda>t. t\<lparr>tab_selected := (tab_id t = i)\<rparr>) ts)) = count_list (map tab_id ts) i" for ts
    by (induction ts) auto
  have tabs: "sp_tabs (select_tab i p) = map (\<lambda>t. t\<lparr>tab_selected := (tab_id t = i)\<rparr>) (sp_tabs p)" by (simp add: select_tab_def)
  have "sp_tabs p \<noteq> []" "count_list (map tab_id (sp_tabs p)) i = 1"
    using assms count_distinct [of "map tab_id (sp_tabs p)" i] by (auto simp: tab_ids_def)
  then show "one_selected (select_tab i p)" unfolding one_selected_def tabs cnt by simp
qed (simp_all add: select_tab_def job_rows_def get_job_def shown_data_def tab_ids_def fun_eq_iff comp_def)

lemma setActive_look:
  assumes ids: "distinct (tab_ids p)" "i \<in> set (tab_ids p)" and other: "Some i \<noteq> getSelectedSearchId p" and num: "numbered p"
  shows "getSelectedSearchId (setActiveTab cmp i p) = Some i" "one_selected (setActiveTab cmp i p)"
    "tab_ids (setActiveTab cmp i p) = tab_ids p" "job_rows (setActiveTab cmp i p) = job_rows p" "shows_tab (setActiveTab cmp i p)"
proof -
  define p0 where "p0 = saveCurrentTabState p"
  define p1 where "p1 = clear_results cmp (select_tab i p0)"
  have look0: "same_look p p0" unfolding p0_def by (rule look_save)
  then have sels0: "tab_sels p0 = tab_sels p" and rows0: "job_rows p0 = job_rows p" by (simp_all add: same_look_def)
  then have "distinct (tab_ids p0)" "i \<in> set (tab_ids p0)" using ids by (simp_all add: tab_ids_sels)
  note sel = select_one [OF this]
  have p1: "getSelectedSearchId p1 = Some i" "one_selected p1" "tab_ids p1 = tab_ids p" "job_rows p1 = job_rows p" "shown_data p1 = []"
    using sel sels0 rows0 by (simp_all add: p1_def selected_sels one_selected_sels tab_ids_sels)
  define p2 where "p2 = restore_tab cmp i p1"
  have p2: "tab_sels p2 = tab_sels p1 \<and> job_rows p2 = job_rows p1 \<and>
      (\<forall>ds. job_rows p1 i = Some ds \<longrightarrow> shown_data p2 = expected_data ds)"
  proof (cases "get_job p1 i")
    case None
    then show ?thesis by (simp add: p2_def restore_tab_def job_rows_def)
  next
    case (Some st)
    then have job: "job_rows p1 i = Some (st_rows st)" by (simp add: job_rows_def)
    with num p1(4) obtain rs where rs: "st_rows st = number_rows 0 rs" "length rs \<le> few" by (auto simp: numbered_def)
    have "shown_data p1 = expected_data (number_rows 0 [])" using p1(5) by (simp add: expected_data_def)
    from shown_add_rows [OF this, of rs] rs have shown: "shown_data (add_rows (st_rows st) p1) = expected_data (st_rows st)" by simp
    define q where "q = restore_sort cmp st (restore_filters st (add_rows (st_rows st) p1))"
    have "same_look (add_rows (st_rows st) p1) q"
      unfolding q_def by (rule same_look_trans [OF look_timers(8) look_sort])
    moreover have "same_look q (q\<lparr>sp_filters := f\<rparr>)" for f by (rule look_fields)
    moreover have "same_look r (mod_job i (\<lambda>st. st\<lparr>st_lastSeenCount := length (st_rows st)\<rparr>) r)" for r by (rule look_object) simp
    ultimately have "same_look (add_rows (st_rows st) p1) p2"
      using Some look_title unfolding p2_def restore_tab_def Let_def by (simp flip: q_def) (meson same_look_trans)
    with shown job show ?thesis by (simp add: same_look_def)
  qed
  define p3 where "p3 = setActiveTab cmp i p"
  have "same_look p2 p3"
    unfolding p3_def setActiveTab_def Let_def p0_def [symmetric] p1_def [symmetric] p2_def [symmetric] if_not_P [OF other]
    by (meson look_redraw look_reselect look_timers same_look_trans)
  then have p3: "tab_sels p3 = tab_sels p1" "job_rows p3 = job_rows p" "shown_data p3 = shown_data p2"
    using p2 p1(4) by (simp_all add: same_look_def)
  then show sel3: "getSelectedSearchId (setActiveTab cmp i p) = Some i" "one_selected (setActiveTab cmp i p)"
    "tab_ids (setActiveTab cmp i p) = tab_ids p" "job_rows (setActiveTab cmp i p) = job_rows p"
    using p1 unfolding p3_def [symmetric] selected_sels one_selected_sels tab_ids_sels by simp_all
  show "shows_tab (setActiveTab cmp i p)"
    using sel3 p2 p3 p1(4) unfolding p3_def [symmetric] shows_tab_def by auto
qed

section \<open>What is drawn\<close>

text \<open>The rows that pass the filters; the name of a result is a text, so that no filter throws on it.\<close>

definition matches_filters :: "search_filters \<Rightarrow> jsobj \<Rightarrow> bool" where
  "matches_filters f d \<longleftrightarrow> passes_search f \<lparr>row_id = [], full_data = d, delta = []\<rparr> = Inr True"

lemma number_rows_results: "d \<in> set (number_rows n rs) \<Longrightarrow> \<exists>m r. d = result_row m r"
  by (induction rs arbitrary: n) auto

lemma results_never_throw: "full_data r = result_row n x \<Longrightarrow> \<exists>b. passes_search f r = Inr b"
  by (simp add: passes_search_def result_row_def prop_get_def split: prod.split)

lemma view_of_results:
  assumes "map row_data (rows t) = expected_data (number_rows 0 xs)"
  shows "\<exists>vs. search_view f c t = Inr vs \<and> mset (map full_data vs) = mset (filter (matches_filters f) (number_rows 0 xs))"
proof -
  define rs where "rs = map snd (rows t)"
  have "map (snd \<circ> snd) (map row_data (rows t)) = map full_data rs" by (simp add: row_data_def rs_def comp_def)
  with assms have data: "map full_data rs = number_rows 0 xs" by (simp add: expected_data_def comp_def)
  have same: "passes_search f r = Inr True \<longleftrightarrow> matches_filters f (full_data r)" for r
    by (simp add: matches_filters_def passes_search_def)
  have "\<exists>b. passes_search f r = Inr b" if "r \<in> set rs" for r
  proof -
    have "full_data r \<in> set (map full_data rs)" using that by simp
    with data number_rows_results results_never_throw show ?thesis by metis
  qed
  from filter_rows_total [of rs "passes_search f", OF this]
  have "search_view f c t = Inr (sort_rows c (reverseSort t = ''0'') (filter (\<lambda>r. matches_filters f (full_data r)) rs))"
    by (simp add: search_view_def rs_def same)
  moreover have "map full_data (filter (\<lambda>r. matches_filters f (full_data r)) rs) = filter (matches_filters f) (number_rows 0 xs)"
    unfolding data [symmetric] by (simp add: filter_map comp_def)
  moreover have "mset (map full_data (sort_rows c asc ss)) = mset (map full_data ss)" for asc ss
    by (simp add: sort_rows_def mset_js_sort)
  ultimately show ?thesis by (metis (no_types, lifting))
qed

text \<open>
  The ids of the rows that pass the filters. The body of the table that is not virtual has a row for
  each of them and no other, whenever a tab is selected.
\<close>

definition passing_ids :: "search_filters \<Rightarrow> (string \<times> string \<times> jsobj) list \<Rightarrow> string set" where
  "passing_ids f rs = (\<lambda>(k, rid, d). rid) ` {e \<in> set rs. matches_filters f (snd (snd e))}"

definition plain_table :: "table \<Rightarrow> bool" where
  "plain_table t \<longleftrightarrow> wf_table (\<lambda>_. True) t \<and> \<not> useVirtualList t"

definition drawn :: "search_page \<Rightarrow> bool" where
  "drawn p \<longleftrightarrow> plain_table (sp_table p) \<and>
     (getSelectedSearchId p \<noteq> None \<longrightarrow> set (keys (trs (sp_table p))) = passing_ids (sp_filters p) (shown_data p))"

definition look_of :: "search_page \<Rightarrow> table \<times> search_filters \<times> (int \<times> bool) list" where
  "look_of p = (sp_table p, sp_filters p, tab_sels p)"

lemma look_of_drawn: "look_of p' = look_of p \<Longrightarrow> drawn p' = drawn p"
  by (simp add: look_of_def drawn_def selected_sels shown_data_def)

lemma drawn_same: "drawn p \<Longrightarrow> look_of p' = look_of p \<Longrightarrow> drawn p'"
  using look_of_drawn by blast

named_theorems draw_same \<open>operations that leave the table, the filters and the selection\<close>

lemma draw_fields [draw_same]:
  "look_of (p\<lparr>sp_fields := ff\<rparr>) = look_of p" "look_of (p\<lparr>sp_jobs := js\<rparr>) = look_of p"
  "look_of (p\<lparr>sp_prefs := pr\<rparr>) = look_of p" "look_of (p\<lparr>sp_pattern := pat\<rparr>) = look_of p"
  "look_of (p\<lparr>sp_stopButton := b\<rparr>) = look_of p" "look_of (p\<lparr>sp_numVisible := n\<rparr>) = look_of p"
  "look_of (p\<lparr>sp_numTotal := n\<rparr>) = look_of p" "look_of (p\<lparr>sp_noSearchesHidden := b\<rparr>) = look_of p"
  "look_of (p\<lparr>sp_resultsHidden := b\<rparr>) = look_of p" "look_of (p\<lparr>sp_timers := ts\<rparr>) = look_of p"
  "look_of (p\<lparr>sp_category := pat\<rparr>) = look_of p" "look_of (p\<lparr>sp_plugins := pat\<rparr>) = look_of p"
  "look_of (mod_object r f p) = look_of p" "look_of (mod_job i f p) = look_of p"
  "look_of (clearTimeout tm p) = look_of p" "look_of (send q p) = look_of p" "look_of (take_request m p) = look_of p"
  "look_of (updateSearchButtonState p) = look_of p" "look_of (count_visible cmp p) = look_of p"
  "look_of (count_total p) = look_of p" "look_of (store_rows r ds p) = look_of p" "look_of (add_job i st p) = look_of p"
  by (simp_all add: look_of_def tab_sels_def mod_object_def mod_job_def clearTimeout_def send_def take_request_def
      updateSearchButtonState_def count_visible_def count_total_def store_rows_def add_job_def split: option.split)

lemma draw_tabs [draw_same]: "look_of (updateTabTitle i p) = look_of p" "look_of (updateStatusIconElement i ic p) = look_of p"
  by (auto simp: look_of_def updateTabTitle_def updateStatusIconElement_def tab_sels_def Let_def sels_on_tab split: option.split)

lemma draw_rearm [draw_same]: "look_of (rearm r delay i p) = look_of p"
proof -
  have "look_of (q\<lparr>sp_timers := ts, sp_nextTimer := n\<rparr>) = look_of q" for q ts n by (simp add: look_of_def tab_sels_def)
  then show ?thesis by (simp add: rearm_def Let_def draw_same)
qed

lemma draw_more [draw_same]:
  "look_of (resetSearchState j p) = look_of p" "look_of (saveCurrentTabState p) = look_of p"
  "look_of (updateSearchResultsData i p) = look_of p" "look_of (loadSearchResultsData i p) = look_of p"
  by (auto simp: resetSearchState_def saveCurrentTabState_def updateSearchResultsData_def loadSearchResultsData_def Let_def draw_same
      split: option.split)

text \<open>The table stays well-formed.\<close>

interpretation search_rows: table_view "search_fsr cmp f" "\<lambda>_. True"
proof
  fix t :: table
  assume w: "wf_rows (\<lambda>_. True) t"
  have "\<exists>ss. subseq ss (map snd (rows t)) \<and> (search_fsr cmp f t = sort_rows (cmp t) (reverseSort t = ''0'') ss \<or> search_fsr cmp f t = [])"
  proof (cases "filter_rows (passes_search f) (map snd (rows t))")
    case (Inr rs)
    then have "subseq rs (map snd (rows t))" using filter_rows_subseq by blast
    with Inr show ?thesis by (auto simp: search_fsr_def search_view_def)
  next
    case (Inl e)
    then show ?thesis by (intro exI [of _ "[]"]) (simp add: search_fsr_def search_view_def)
  qed
  then obtain ss where ss: "subseq ss (map snd (rows t))"
    "search_fsr cmp f t = sort_rows (cmp t) (reverseSort t = ''0'') ss \<or> search_fsr cmp f t = []" by blast
  have ids: "map row_id (map snd (rows t)) = keys (rows t)" using wf_rows_ids [OF w] .
  have "subseq (map row_id ss) (keys (rows t))" using ss(1) subseq_map ids by metis
  moreover have "distinct_keys (rows t)" using w by (simp add: wf_rows_def)
  ultimately have "distinct (map row_id ss)" "set (map row_id ss) \<subseteq> set (keys (rows t))"
    using subseq_distinct subseq_set by (blast, blast)
  then show "distinct (map row_id (search_fsr cmp f t))" "set (map row_id (search_fsr cmp f t)) \<subseteq> set (keys (rows t))"
    using ss(2) by auto
qed

lemma plain_ops:
  "plain_table t \<Longrightarrow> plain_table (updateTable (search_fsr cmp f) full t)"
  "plain_table t \<Longrightarrow> plain_table (clear_table (search_fsr cmp f) t)"
  "plain_table t \<Longrightarrow> plain_table (foldl (\<lambda>t d. updateRowData d t) t ds)"
  "plain_table t \<Longrightarrow> plain_table (snd (setSortedColumn (search_fsr cmp f) col rev' prefs t))"
  "plain_table t \<Longrightarrow> plain_table (reselectRows ids t)"
  "plain_table t \<Longrightarrow> plain_table (clickRow (search_fsr cmp f) ctrl shift target t)"
proof -
  have virtual: "useVirtualList (updateTable (search_fsr cmp f) full t) = useVirtualList t" for t full
    by (simp add: updateTable_def Let_def rerender_def)
  show upd: "plain_table t \<Longrightarrow> plain_table (updateTable (search_fsr cmp f) full t)" for t full
    unfolding plain_table_def virtual using search_rows.updateTable_wf by blast
  show "plain_table t \<Longrightarrow> plain_table (clear_table (search_fsr cmp f) t)"
    by (simp add: plain_table_def clear_table_def Let_def wf_table_def wf_rows_def deselectAll_def)
  show "plain_table t \<Longrightarrow> plain_table (foldl (\<lambda>t d. updateRowData d t) t ds)"
  proof (induction ds arbitrary: t)
    case (Cons d ds)
    then have "plain_table (updateRowData d t)"
      using wf_updateRowData [of "\<lambda>_. True" t d] by (simp add: plain_table_def wf_table_def updateRowData_def Let_def)
    with Cons show ?case by simp
  qed simp
  have "plain_table (t\<lparr>sortedColumn := c, reverseSort := r\<rparr>)" "plain_table (t\<lparr>reverseSort := r\<rparr>)" if "plain_table t" for c r
    using that by (simp_all add: plain_table_def wf_table_def wf_rows_def)
  then show "plain_table t \<Longrightarrow> plain_table (snd (setSortedColumn (search_fsr cmp f) col rev' prefs t))"
    by (simp add: setSortedColumn_def Let_def upd)
  have "plain_table u" if "plain_table t" "same_content t u" "useVirtualList u = useVirtualList t" for u
    using that same_content_wf by (simp add: plain_table_def)
  moreover have "useVirtualList (reselectRows ids t) = useVirtualList t"
    "useVirtualList (clickRow (search_fsr cmp f) ctrl shift target t) = useVirtualList t"
    by (auto simp: reselectRows_def deselectAll_def clickRow_def selectRow_def deselectRow_def selectRows_def Let_def split: option.split)
  moreover have "same_content t (reselectRows ids t)"
    by (simp add: reselectRows_def same_content_def deselectAll_def)
  ultimately show "plain_table t \<Longrightarrow> plain_table (reselectRows ids t)"
    "plain_table t \<Longrightarrow> plain_table (clickRow (search_fsr cmp f) ctrl shift target t)"
    using handlers_same_content(3) by blast+
qed

text \<open>Drawing draws what passes, if the rows are results.\<close>

lemma redraw_drawn:
  assumes plain: "plain_table (sp_table p)" and rs: "getSelectedSearchId p \<noteq> None \<Longrightarrow> \<exists>xs. shown_data p = expected_data (number_rows 0 xs)"
  shows "drawn (redraw cmp p)"
proof -
  let ?t = "sp_table p"
  have "set (keys (trs (sp_table (redraw cmp p)))) = passing_ids (sp_filters p) (shown_data p)" if sel: "getSelectedSearchId p \<noteq> None"
  proof -
    have w: "wf_rows (\<lambda>_. True) ?t" "distinct_keys (trs ?t)" "\<not> useVirtualList ?t" using plain by (simp_all add: plain_table_def wf_table_def)
    have "keys (trs (updateTable (page_fsr cmp p) False ?t)) = map row_id (page_fsr cmp p ?t)"
      by (rule updateTable_trs [where fsr = "page_fsr cmp p", OF w(3,2) search_rows.view_distinct [OF w(1)]])
    moreover obtain xs where xs: "shown_data p = expected_data (number_rows 0 xs)" using rs [OF sel] by blast
    have total: "\<exists>b. passes_search (sp_filters p) r = Inr b" if "r \<in> set (map snd (rows ?t))" for r
    proof -
      have "map (snd \<circ> snd) (shown_data p) = map full_data (map snd (rows ?t))" by (simp add: shown_data_def row_data_def comp_def)
      then have "map full_data (map snd (rows ?t)) = number_rows 0 xs" unfolding xs by (simp add: expected_data_def comp_def)
      moreover have "full_data r \<in> set (map full_data (map snd (rows ?t)))"
        using that unfolding set_map [of full_data] by (rule imageI)
      ultimately show ?thesis using number_rows_results results_never_throw by metis
    qed
    have "set (page_fsr cmp p ?t) = {r \<in> set (map snd (rows ?t)). passes_search (sp_filters p) r = Inr True}"
      using filter_rows_total [of "map snd (rows ?t)" "passes_search (sp_filters p)", OF total]
      by (simp add: search_fsr_def search_view_def)
    moreover have "row_id ` {r \<in> set (map snd (rows ?t)). passes_search (sp_filters p) r = Inr True}
        = passing_ids (sp_filters p) (shown_data p)"
      by (force simp: passing_ids_def shown_data_def row_data_def matches_filters_def passes_search_def)
    ultimately show ?thesis by (simp add: redraw_def)
  qed
  moreover have "shown_data (redraw cmp p) = shown_data p" "getSelectedSearchId (redraw cmp p) = getSelectedSearchId p"
    using look_redraw [of p cmp] by (simp_all add: same_look_def selected_sels)
  ultimately show ?thesis using plain plain_ops(1) by (auto simp: drawn_def redraw_def)
qed

lemma cleared_drawn:
  assumes "plain_table t" "sp_table p = clear_table (search_fsr cmp f) t"
  shows "drawn p"
proof -
  have "\<not> useVirtualList (deselectAll t)" using assms(1) by (simp add: plain_table_def deselectAll_def)
  then have "trs (clear_table (search_fsr cmp f) t) = []" by (simp add: clear_table_def Let_def deselectAll_def)
  then show ?thesis
    using plain_ops(2) [OF assms(1)] by (simp add: drawn_def shown_data_def passing_ids_def assms(2))
qed

lemma content_drawn:
  assumes "same_content (sp_table p) t" "useVirtualList t = useVirtualList (sp_table p)"
  shows "drawn (p\<lparr>sp_table := t\<rparr>) = drawn p"
proof -
  have t: "rows t = rows (sp_table p)" "keys (trs t) = keys (trs (sp_table p))" "columns t = columns (sp_table p)"
    using assms(1) by (simp_all add: same_content_def)
  then have plain: "plain_table t = plain_table (sp_table p)"
    by (simp add: plain_table_def wf_table_def wf_rows_def assms(2))
  let ?p = "p\<lparr>sp_table := t\<rparr>"
  have same: "getSelectedSearchId ?p = getSelectedSearchId p" "sp_filters ?p = sp_filters p" "sp_table ?p = t"
    "shown_data ?p = shown_data p"
    by (simp_all add: selected_sels tab_sels_def shown_data_def t(1))
  show ?thesis unfolding drawn_def same t(2) plain ..
qed

lemma selection_virtual:
  "useVirtualList (reselectRows ids t) = useVirtualList t"
  "useVirtualList (clickRow fsr ctrl shift target t) = useVirtualList t"
  by (auto simp: reselectRows_def deselectAll_def clickRow_def selectRow_def deselectRow_def selectRows_def Let_def split: option.split)

lemma reselect_drawn: "drawn (reselect_rows ids p) = drawn p"
proof -
  have "same_content (sp_table p) (reselectRows ids (sp_table p))"
    by (simp add: reselectRows_def same_content_def deselectAll_def)
  then show ?thesis by (simp add: reselect_rows_def content_drawn selection_virtual)
qed

lemma cleared_plain:
  "plain_table (sp_table p) \<Longrightarrow> plain_table (sp_table (clear_results cmp (select_tab i (saveCurrentTabState p))))"
  using draw_more(2) [of p] by (auto simp: clear_results_def select_tab_def look_of_def plain_ops)

lemma restore_plain:
  assumes "plain_table (sp_table q)"
  shows "plain_table (sp_table (restore_tab cmp i q))"
proof (cases "get_job q i")
  case (Some st)
  have "plain_table (sp_table (restore_sort cmp st (restore_filters st (add_rows (st_rows st) q))))"
    using assms plain_ops(3,4) by (simp add: restore_sort_def restore_filters_def add_rows_def split: prod.split) (metis snd_conv)
  moreover have "sp_table (updateTabTitle i q) = sp_table q" "sp_table (mod_job i f q) = sp_table q" for q f
    using draw_same unfolding look_of_def by (metis prod.inject)+
  ultimately show ?thesis using Some by (simp add: restore_tab_def Let_def)
qed (use assms in \<open>simp add: restore_tab_def\<close>)

lemma setActive_plain: "plain_table (sp_table p) \<Longrightarrow> plain_table (sp_table (setActiveTab cmp i p))"
proof -
  assume "plain_table (sp_table p)"
  then have "plain_table (sp_table (restore_tab cmp i (clear_results cmp (select_tab i (saveCurrentTabState p)))))"
    by (intro restore_plain cleared_plain)
  moreover have "plain_table (sp_table (reselect_rows ids q)) = plain_table (sp_table q)"
    "plain_table (sp_table q) \<Longrightarrow> plain_table (sp_table (redraw cmp q))" for ids q
    using plain_ops(1) by (auto simp: reselect_rows_def redraw_def reselectRows_def deselectAll_def plain_table_def wf_table_def wf_rows_def)
  moreover have "sp_table (updateSearchButtonState q) = sp_table q" "sp_table (count_total q) = sp_table q" "sp_table (count_visible cmp q) = sp_table q" for q
    by (simp_all add: updateSearchButtonState_def count_total_def count_visible_def)
  ultimately show ?thesis using \<open>plain_table (sp_table p)\<close> by (simp add: setActiveTab_def Let_def)
qed

lemma setActive_drawn:
  assumes ids: "distinct (tab_ids p)" "i \<in> set (tab_ids p)" and num: "numbered p" and job: "job_rows p i \<noteq> None"
    and drawn: "drawn p"
  shows "drawn (setActiveTab cmp i p)"
proof (cases "Some i = getSelectedSearchId p")
  case True
  then show ?thesis using drawn by (simp add: setActiveTab_def)
next
  case False
  note look = setActive_look [OF ids False num, of cmp]
  define q where "q = restore_tab cmp i (clear_results cmp (select_tab i (saveCurrentTabState p)))"
  obtain sel where eq: "setActiveTab cmp i p = updateSearchButtonState (count_total (count_visible cmp (reselect_rows sel (redraw cmp q))))"
    using False by (auto simp: setActiveTab_def Let_def q_def)
  have q: "same_look q (setActiveTab cmp i p)"
    unfolding eq by (meson look_redraw look_reselect look_timers same_look_trans)
  obtain ds where ds: "job_rows p i = Some ds" using job by blast
  with num obtain xs where xs: "ds = number_rows 0 xs" by (auto simp: numbered_def)
  have "shown_data (setActiveTab cmp i p) = expected_data ds" using look(1,4,5) ds by (simp add: shows_tab_def)
  then have "shown_data q = expected_data (number_rows 0 xs)" using q unfolding xs by (simp add: same_look_def)
  then have "\<exists>xs. shown_data q = expected_data (number_rows 0 xs)" by blast
  moreover have "plain_table (sp_table q)"
    using setActive_plain [of p cmp i] drawn restore_plain cleared_plain unfolding q_def drawn_def by blast
  ultimately have "drawn (redraw cmp q)" using redraw_drawn by blast
  moreover have "drawn (updateSearchButtonState (count_total (count_visible cmp x))) = drawn x" for x
    by (rule look_of_drawn) (simp add: draw_same)
  ultimately show ?thesis unfolding eq by (simp add: reselect_drawn)
qed

section \<open>Every step\<close>

definition display_ok :: "search_page \<Rightarrow> bool" where
  "display_ok p \<longleftrightarrow> one_selected p \<and> shows_tab p"

definition small_page :: "search_page \<Rightarrow> bool" where
  "small_page p \<longleftrightarrow>
     list_all (\<lambda>(i, r). case get_job p i of None \<Rightarrow> True | Some st \<Rightarrow> length (st_rows st) \<le> few) (searchState p)"

lemma small_page_code [code]:
  "small_page p \<longleftrightarrow>
     list_all (\<lambda>(i, r). case get_job p i of None \<Rightarrow> True | Some st \<Rightarrow> int (length (st_rows st)) \<le> 1000000000000000000000) (searchState p)"
proof -
  have few: "n \<le> few \<longleftrightarrow> int n \<le> 1000000000000000000000" for n by (auto simp: few_def)
  show ?thesis unfolding small_page_def few ..
qed

lemma small_rows: "small_page p \<Longrightarrow> job_rows p i = Some ds \<Longrightarrow> length ds \<le> few"
proof -
  assume small: "small_page p" and "job_rows p i = Some ds"
  then obtain r st where "map_get (searchState p) i = Some r" "get_job p i = Some st" "ds = st_rows st"
    by (auto simp: job_rows_def get_job_def bind_eq_Some_conv)
  with small show ?thesis by (force simp: small_page_def list_all_iff dest: map_of_SomeD)
qed

lemma job_rows_core: "job_rows p i = map_option kj_rows (k_job (core_of p) i)"
  unfolding core_job [symmetric] by (simp add: job_rows_def option.map_comp comp_def)

lemma inv_numbered:
  assumes "flow_inv (core_of p) s A used" "small_page p"
  shows "numbered p"
proof -
  have "\<exists>rs. ds = number_rows 0 rs \<and> length rs \<le> few" if ds: "job_rows p i = Some ds" for i ds
  proof -
    from ds obtain st where "k_job (core_of p) i = Some st" "ds = kj_rows st" by (auto simp: job_rows_core)
    with flow_invD(2) [OF assms(1)] obtain rs where "ds = number_rows 0 rs" by (auto simp: job_inv_def rows_ok_def)
    with small_rows [OF assms(2) ds] show ?thesis by auto
  qed
  then show ?thesis by (simp add: numbered_def)
qed

lemma inv_tab_ids:
  assumes "flow_inv (core_of p) s A used"
  shows "distinct (tab_ids p)" "set (tab_ids p) = live_ids (core_of p)"
  using flow_invD(1) [OF assms] by (auto simp: wf_core_def tab_ids_def comp_def)

lemma small_pageI:
  assumes "\<And>j ds. job_rows p j = Some ds \<Longrightarrow> length ds \<le> few"
  shows "small_page p"
proof -
  have "length (st_rows st) \<le> few" if "get_job p j = Some st" for j st
    using that assms [of j "st_rows st"] by (simp add: job_rows_def)
  then show ?thesis by (auto simp: small_page_def list_all_iff split: option.split)
qed

lemma look_display: "same_look p p' \<Longrightarrow> display_ok p' = display_ok p"
  by (simp add: display_ok_def same_look_shows)

lemma drop_tab_filter: "distinct (map tab_id ts) \<Longrightarrow> drop_tab i ts = filter (\<lambda>t. tab_id t \<noteq> i) ts"
proof (induction i ts rule: drop_tab.induct)
  case (2 i t ts)
  have "filter (\<lambda>u. tab_id u \<noteq> tab_id t) ts = ts" using 2(2) by (intro filter_True) (force simp: image_iff)
  with 2 show ?case by auto
qed simp

lemma tab_beside_found:
  "distinct (map tab_id ts) \<Longrightarrow> i \<in> set (map tab_id ts) \<Longrightarrow> drop_tab i ts \<noteq> [] \<Longrightarrow>
     \<exists>j. tab_beside i ts = Some j \<and> j \<in> set (map tab_id (drop_tab i ts))"
proof (induction i ts rule: tab_beside.induct)
  case (3 i t u ts)
  show ?case
  proof (cases "tab_id t = i \<or> (tab_id u = i \<and> ts = [])")
    case True
    with 3 show ?thesis by auto
  next
    case False
    then have "tab_beside i (t # u # ts) = tab_beside i (u # ts)" "drop_tab i (t # u # ts) = t # drop_tab i (u # ts)" by auto
    moreover have "i \<in> set (map tab_id (u # ts))" "drop_tab i (u # ts) \<noteq> []" "distinct (map tab_id (u # ts))"
      using 3(2,3) False by (cases ts; auto)+
    ultimately show ?thesis using 3(1) False by (auto split: if_splits)
  qed
qed (auto split: if_splits)

lemma find_filter_kept: "(\<And>x. x \<in> set xs \<Longrightarrow> P x \<Longrightarrow> Q x) \<Longrightarrow> find P (filter Q xs) = find P xs"
  by (induction xs) auto

lemma close_display:
  assumes inv: "flow_inv (core_of p) s A used" and ok: "display_ok p" and small: "small_page p"
  shows "display_ok (closeSearchTab cmp i p) \<and> (drawn p \<longrightarrow> drawn (closeSearchTab cmp i p))"
proof (cases "find (\<lambda>t. tab_id t = i) (sp_tabs p)")
  case None
  then show ?thesis using ok by (simp add: closeSearchTab_def)
next
  case (Some tab)
  then have tab: "tab \<in> set (sp_tabs p)" "tab_id tab = i" by (auto simp: find_Some_iff)
  have ids: "distinct (map tab_id (sp_tabs p))" using inv_tab_ids(1) [OF inv] by (simp add: tab_ids_def)
  have one: "one_selected p" and shown: "shows_tab p" using ok by (simp_all add: display_ok_def)
  note num = inv_numbered [OF inv small]
  define p1 where "p1 = (case get_job p i of None \<Rightarrow> p | Some st \<Rightarrow> if st_running st then stopSearch i p else p)"
  define p2 where "p2 = send (ReqDelete i) (p1\<lparr>sp_tabs := drop_tab i (sp_tabs p1)\<rparr>)"
  define p3 where "p3 = p2\<lparr>sp_jobs := remove_job i (sp_jobs p2), searchState := map_delete i (searchState p2)\<rparr>"
  define beside where "beside = (if tab_selected tab then tab_beside i (sp_tabs p) else None)"
  have p1: "sp_tabs p1 = sp_tabs p" "searchState p1 = searchState p" "sp_objects p1 = sp_objects p" "sp_table p1 = sp_table p"
    by (auto simp: p1_def stopSearch_def send_def split: option.split)
  have p3: "sp_tabs p3 = filter (\<lambda>t. tab_id t \<noteq> i) (sp_tabs p)" "shown_data p3 = shown_data p"
      "job_rows p3 j = (if j = i then None else job_rows p j)" for j
    by (simp_all add: p3_def p2_def send_def p1 drop_tab_filter [OF ids] shown_data_def job_rows_def get_job_def)
  have same3: "sp_table p3 = sp_table p" "sp_filters p3 = sp_filters p"
    by (simp_all add: p3_def p2_def send_def p1) (simp add: p1_def stopSearch_def send_def split: option.split)
  have close: "closeSearchTab cmp i p = (if sp_tabs p3 = []
      then (resetFilters (resetSearchState None p3))\<lparr>sp_numVisible := 0, sp_numTotal := 0, sp_noSearchesHidden := False, sp_resultsHidden := True\<rparr>
      else case beside of None \<Rightarrow> p3 | Some j \<Rightarrow> setActiveTab cmp j p3)"
    unfolding closeSearchTab_def Some option.case Let_def p1_def [symmetric] p2_def [symmetric] p3_def [symmetric] beside_def
    by (simp add: numSearchTabs_def)
  consider (last) "sp_tabs p3 = []" | (sel) "sp_tabs p3 \<noteq> []" "tab_selected tab" | (other) "sp_tabs p3 \<noteq> []" "\<not> tab_selected tab" by blast
  then show ?thesis
  proof cases
    case last
    have "same_look p3 (closeSearchTab cmp i p)"
      using last unfolding close by (simp add: same_look_def) (use look_reset [of p3 None] look_timers(7) in
        \<open>auto simp: same_look_def tab_sels_def shown_data_def job_rows_def get_job_def fun_eq_iff\<close>)
    moreover have "display_ok p3"
      using last by (simp add: display_ok_def one_selected_def shows_tab_def getSelectedSearchId_def)
    moreover have "sp_table (resetFilters (resetSearchState None p3)) = sp_table p3" "sp_tabs (resetFilters (resetSearchState None p3)) = sp_tabs p3"
      by (simp_all add: resetFilters_def resetSearchState_def updateSearchButtonState_def)
    then have "drawn (closeSearchTab cmp i p)" if "drawn p"
      using last that unfolding close by (simp add: drawn_def same3 getSelectedSearchId_def)
    ultimately show ?thesis using look_display by blast
  next
    case sel
    have "drop_tab i (sp_tabs p) \<noteq> []" using sel(1) by (simp add: p3 drop_tab_filter [OF ids])
    from tab_beside_found [OF ids _ this] tab sel(2) obtain j where j: "beside = Some j" "j \<in> set (tab_ids p3)"
      by (auto simp: beside_def tab_ids_def p3 drop_tab_filter [OF ids])
    have "getSelectedSearchId p = Some i" using selected_iff [OF one ids tab(1)] sel(2) tab(2) by simp
    then have "\<not> tab_selected t" if "t \<in> set (sp_tabs p)" "tab_id t \<noteq> i" for t
      using selected_iff [OF one ids that(1)] that(2) by auto
    then have "getSelectedSearchId p3 = None" by (auto simp: getSelectedSearchId_def p3 find_None_iff)
    moreover have "distinct (tab_ids p3)" using ids by (simp add: tab_ids_def p3 distinct_map_filter)
    moreover have "numbered p3" using num by (auto simp: numbered_def p3)
    moreover have "drawn p3" if "drawn p" using that \<open>getSelectedSearchId p3 = None\<close> by (simp add: drawn_def same3)
    moreover have "job_rows p3 j \<noteq> None"
    proof -
      have "j \<noteq> i" "j \<in> live_ids (core_of p)" using j(2) inv_tab_ids(2) [OF inv] by (auto simp: tab_ids_def p3)
      then show ?thesis using wf_job [OF flow_invD(1) [OF inv], of j] by (simp add: p3(3)) (simp add: job_rows_core)
    qed
    ultimately show ?thesis using setActive_look [of p3 j cmp] setActive_drawn [of p3 j cmp] j sel(1) by (simp add: close display_ok_def)
  next
    case other
    then have "closeSearchTab cmp i p = p3" by (simp add: close beside_def)
    have keep: "t \<in> set (sp_tabs p) \<Longrightarrow> tab_selected t \<Longrightarrow> tab_id t \<noteq> i" for t
      using other(2) tab ids by (metis distinct_map inj_on_def)
    then have "getSelectedSearchId p3 = getSelectedSearchId p"
      by (simp add: getSelectedSearchId_def p3 find_filter_kept)
    moreover have "filter tab_selected (sp_tabs p3) = filter tab_selected (sp_tabs p)"
      unfolding p3 filter_filter using keep by (intro filter_cong) auto
    then have "one_selected p3" using one other(1) tab(1) by (auto simp: one_selected_def split: if_splits)
    moreover have "getSelectedSearchId p \<noteq> Some i" using selected_iff [OF one ids tab(1)] other(2) tab(2) by simp
    ultimately have "display_ok p3" using shown by (auto simp: display_ok_def shows_tab_def p3)
    moreover have "drawn p3 = drawn p"
      unfolding drawn_def same3 p3(2) \<open>getSelectedSearchId p3 = getSelectedSearchId p\<close> ..
    ultimately show ?thesis using \<open>closeSearchTab cmp i p = p3\<close> by simp
  qed
qed

lemma close_keeps_rows:
  assumes "job_rows (closeSearchTab cmp i p) j = Some ds"
  shows "job_rows p j = Some ds"
proof -
  from assms obtain st where st: "k_job (k_close i (core_of p)) j = Some st" "kj_rows st = ds"
    by (auto simp: job_rows_core core_close)
  have "k_objects (k_close i k) = k_objects k" for k
    by (simp add: k_close_def k_send_def Let_def split: option.split)
  moreover have "k_state (k_close i k) = (if i \<in> set (keys (k_tabs k)) then map_delete i (k_state k) else k_state k)" for k
    by (simp add: k_close_def k_send_def Let_def split: option.split)
  ultimately have "k_job (core_of p) j = Some st" using st(1)
    by (cases "j = i") (simp_all add: k_job_def split: if_splits)
  with st(2) show ?thesis by (simp add: job_rows_core)
qed

lemma close_all_display:
  assumes "flow_inv (core_of p) s A used" "display_ok p" "small_page p"
  shows "display_ok (foldl (\<lambda>p i. closeSearchTab cmp i p) p ids) \<and>
     (drawn p \<longrightarrow> drawn (foldl (\<lambda>p i. closeSearchTab cmp i p) p ids))"
  using assms
proof (induction ids arbitrary: p)
  case (Cons i ids)
  have "small_page (closeSearchTab cmp i p)"
    using close_keeps_rows small_rows [OF Cons.prems(3)] by (intro small_pageI) blast
  with Cons.IH [of "closeSearchTab cmp i p"] close_display [OF Cons.prems, of cmp i] flow_inv_close [OF Cons.prems(1)]
  show ?case by (simp add: core_close)
qed simp

lemma create_display:
  assumes inv: "flow_inv (core_of p) s A used" and ok: "display_ok p" and small: "small_page p" and new: "i \<notin> live_ids (core_of p)"
  shows "display_ok (createSearchTab cmp i pattern p)" "job_rows (createSearchTab cmp i pattern p) = (job_rows p)(i := Some [])"
proof -
  note num = inv_numbered [OF inv small] and ids = inv_tab_ids [OF inv]
  define p1 where "p1 = add_tab i pattern p"
  have p1: "tab_sels p1 = tab_sels p @ [(i, True)]" "job_rows p1 = job_rows p" "tab_ids p1 = tab_ids p @ [i]"
    by (simp_all add: p1_def add_tab_def tab_sels_def job_rows_def get_job_def fun_eq_iff tab_ids_def)
  have ids1: "distinct (tab_ids p1)" "i \<in> set (tab_ids p1)" using ids new by (simp_all add: p1)
  have num1: "numbered p1" using num by (simp add: numbered_def p1)
  define p2 where "p2 = setActiveTab cmp i p1"
  have p2: "getSelectedSearchId p2 = Some i \<and> one_selected p2 \<and> job_rows p2 = job_rows p"
  proof (cases "Some i = getSelectedSearchId p1")
    case True
    have "tab_sels p = []"
    proof (rule ccontr)
      assume "tab_sels p \<noteq> []"
      with ok have "length (filter snd (tab_sels p)) = 1" by (simp add: display_ok_def one_selected_sels)
      then have "filter snd (tab_sels p) \<noteq> []" by auto
      then obtain e where e: "find snd (tab_sels p) = Some e" by (metis filter_False find_None_iff not_None_eq)
      moreover have "find snd xs = Some e \<Longrightarrow> find snd (xs @ ys) = Some e" for xs ys :: "(int \<times> bool) list"
        by (induction xs) auto
      ultimately have "find snd (tab_sels p1) = Some e" by (simp add: p1)
      then have "fst e = i" using True by (simp add: selected_sels)
      with e have "i \<in> set (map fst (tab_sels p))" by (force simp: find_Some_iff)
      then show False using ids(2) new by (simp add: tab_ids_sels)
    qed
    moreover have "p2 = p1" using True by (simp add: p2_def setActiveTab_def)
    ultimately show ?thesis using True p1 by (simp add: one_selected_sels)
  next
    case False
    from setActive_look [OF ids1 False num1] show ?thesis by (simp add: p2_def p1)
  qed
  define p3 where "p3 = resetFilters (clear_results cmp p2)"
  have p3: "tab_sels p3 = tab_sels p2" "shown_data p3 = []" "job_rows p3 = job_rows p2" "searchState p3 = searchState p"
      "sp_nextObject p3 = sp_nextObject p"
    using look_timers(7) [of "clear_results cmp p2"]
    by (simp_all add: p3_def same_look_def) (simp_all add: resetFilters_def clear_results_def p2_def p1_def add_tab_def)
  define p4 where "p4 = add_job i (new_job pattern p3) p3"
  have fresh: "map_get (searchState p3) j \<noteq> Some (sp_nextObject p3)" for j
    using flow_invD(1) [OF inv] unfolding wf_core_def p3 by (metis core_of_simps(1,3) less_irrefl)
  have rows4: "job_rows p4 j = (if j = i then Some [] else job_rows p3 j)" for j
    using fresh [of j] by (cases "map_get (searchState p3) j") (auto simp: p4_def add_job_def job_rows_def get_job_def new_job_def Let_def)
  have "tab_sels p4 = tab_sels p2" "shown_data p4 = []"
    using p3(1,2) by (simp_all add: p4_def add_job_def tab_sels_def shown_data_def)
  moreover from this have "getSelectedSearchId p4 = Some i" "one_selected p4"
    using p2 by (simp_all add: one_selected_sels) (simp add: selected_sels)
  ultimately have "display_ok p4"
    by (simp add: display_ok_def shows_tab_def expected_data_def rows4)
  moreover have create: "createSearchTab cmp i pattern p = updateSearchResultsData i p4"
    by (simp add: createSearchTab_def Let_def p4_def p3_def p2_def p1_def)
  ultimately show "display_ok (createSearchTab cmp i pattern p)" using look_display [OF look_poll] by simp
  show "job_rows (createSearchTab cmp i pattern p) = (job_rows p)(i := Some [])"
    using look_poll [of p4 i] p2 by (simp add: create same_look_def fun_eq_iff rows4 p3)
qed

lemma sels_rename:
  "distinct (map tab_id ts) \<Longrightarrow> map (\<lambda>t. (tab_id t, tab_selected t)) (on_tab old (\<lambda>t. t\<lparr>tab_id := new\<rparr>) ts) =
     map (\<lambda>(i, b). (if i = old then new else i, b)) (map (\<lambda>t. (tab_id t, tab_selected t)) ts)"
proof (induction ts)
  case (Cons t ts)
  from Cons.prems have "tab_id u \<noteq> tab_id t" if "u \<in> set ts" for u using that by (force simp: image_iff)
  with Cons show ?case by auto
qed simp

lemma refresh_display:
  assumes inv: "flow_inv (core_of p) s A used" and ok: "display_ok p"
    and calm: "has_tab p old \<Longrightarrow> getSelectedSearchId p = Some old" and new: "new \<notin> live_ids (core_of p)"
  shows "display_ok (fst (refreshSearchTab cmp old new p))"
proof (cases "has_tab p old")
  case False
  then have "same_look p (fst (refreshSearchTab cmp old new p))"
    by (simp add: refreshSearchTab_def Let_def has_tab_def send_def same_look_def tab_sels_def shown_data_def job_rows_def
        get_job_def fun_eq_iff)
  then show ?thesis using look_display ok by blast
next
  case True
  have live: "old \<in> live_ids (core_of p)" by (rule has_tab_live [OF inv True])
  then have ne: "new \<noteq> old" using new by blast
  from live obtain r where r: "map_get (searchState p) old = Some r"
    unfolding live_ids_def core_of_simps by (metis map_of_eq_None_iff not_None_eq list.set_map)
  have inj: "map_get (searchState p) j = Some r \<Longrightarrow> j = old" for j
    using flow_invD(1) [OF inv] r unfolding wf_core_def by (metis core_of_simps(1))
  have obj: "sp_objects p r \<noteq> None"
    using flow_invD(1) [OF inv] r unfolding wf_core_def by (metis core_of_simps(1,2) map_option_is_None)
  define q0 where "q0 = (send (ReqDelete old) p)\<lparr>sp_jobs := rename_job old new (sp_jobs (send (ReqDelete old) p))\<rparr>"
  define q where "q = updateStatusIconElement new IconSearching (q0\<lparr>sp_tabs := on_tab old (\<lambda>t. t\<lparr>tab_id := new\<rparr>) (sp_tabs q0)\<rparr>)"
  have q: "searchState q = searchState p" "sp_objects q = sp_objects p" "sp_table q = sp_table p"
    by (simp_all add: q_def q0_def updateStatusIconElement_def send_def)
  have sels: "tab_sels q = map (\<lambda>(i, b). (if i = old then new else i, b)) (tab_sels p)"
    using sels_rename [of "sp_tabs p" old new] inv_tab_ids(1) [OF inv]
    by (simp add: q_def updateStatusIconElement_def tab_sels_def sels_on_tab q0_def send_def tab_ids_def)
  have has: "has_tab q0 old" using True by (simp add: has_tab_def q0_def send_def)
  define m where "m = move_job old new q"
  have rows: "job_rows m new = Some []" using obj ne r
    by (auto simp: m_def move_job_def q Let_def job_rows_def get_job_def mod_object_def)
  have eq: "fst (refreshSearchTab cmp old new p) = updateSearchResultsData new (clear_results cmp (updateTabTitle new m))"
    using has r unfolding refreshSearchTab_def Let_def q0_def [symmetric] by (simp add: m_def q_def [symmetric] q)
  define m1 where "m1 = clear_results cmp (updateTabTitle new m)"
  have "tab_sels m = tab_sels q"
    by (simp add: m_def move_job_def Let_def mod_object_def tab_sels_def split: option.split)
  then have m1: "tab_sels m1 = tab_sels q" "shown_data m1 = []" "job_rows m1 = job_rows m"
    using look_title [of m new] by (simp_all add: m1_def same_look_def)
  have "find snd (map (\<lambda>(i, b). (if i = old then new else i, b)) xs) = map_option (\<lambda>(i, b). (if i = old then new else i, b)) (find snd xs)"
    for xs :: "(int \<times> bool) list" by (induction xs) auto
  moreover have "map_option fst (find snd (tab_sels p)) = Some old" using calm [OF True] by (simp add: selected_sels)
  ultimately have "getSelectedSearchId m1 = Some new" by (auto simp: selected_sels m1 sels)
  moreover have "length (filter snd (map (\<lambda>(i, b). (if i = old then new else i, b)) xs)) = length (filter snd xs)"
    for xs :: "(int \<times> bool) list" by (induction xs) auto
  then have "one_selected m1" using ok by (simp add: display_ok_def one_selected_sels m1 sels del: filter_map)
  ultimately have "display_ok m1" using rows by (simp add: display_ok_def shows_tab_def m1 expected_data_def)
  then show ?thesis using look_display [OF look_poll] unfolding eq m1_def [symmetric] by blast
qed

lemma received_display:
  assumes inv: "flow_inv (core_of p) s A used" and ok: "display_ok p"
    and r: "map_get (searchState p) i = Some r" "sp_objects p r = Some st"
    and small: "small_page (results_received cmp i r ans p)"
  shows "display_ok (results_received cmp i r ans p)"
proof -
  define new where "new = number_rows (st_rowId st) (ra_results ans)"
  define p1 where "p1 = store_rows r new p"
  define p2 where "p2 = show_rows cmp i new p1"
  have job: "get_job p i = Some st" using r by (simp add: get_job_def)
  have "k_job (core_of p) i = Some (core_of_job st)" using core_job [of p i] job by simp
  from flow_invD(2) [OF inv this] obtain xs where xs: "st_rows st = number_rows 0 xs" "length xs = st_rowId st"
    by (auto simp: job_inv_def rows_ok_def min_def)
  have inj: "map_get (searchState p) j = Some r \<Longrightarrow> j = i" for j
    using flow_invD(1) [OF inv] r(1) unfolding wf_core_def by (metis core_of_simps(1))
  have p1: "tab_sels p1 = tab_sels p" "shown_data p1 = shown_data p" "sp_table p1 = sp_table p"
    by (simp_all add: p1_def store_rows_def mod_object_def tab_sels_def shown_data_def)
  have rows1: "job_rows p1 j = (if j = i then Some (number_rows 0 (xs @ ra_results ans)) else job_rows p j)" for j
    using r inj [of j] xs
    by (cases "map_get (searchState p) j")
      (auto simp: p1_def store_rows_def mod_object_def job_rows_def get_job_def new_def number_rows_append)
  define p3 where "p3 = (if ra_status ans = ''Stopped'' \<and> ra_total ans \<le> st_rowId st + length new
    then updateStatusIconElement i IconFinished (resetSearchState (Some i) p2)
    else rearm r (if maxResults \<le> length new then 0 else 2000) i p2)"
  have eq: "results_received cmp i r ans p = p3"
    using r(2) by (simp add: results_received_def Let_def new_def p1_def p2_def p3_def)
  have "same_look p2 p3" unfolding p3_def by (auto intro: same_look_trans [OF look_reset look_icon] look_rearm)
  moreover have rows2: "tab_sels p2 = tab_sels p1" "job_rows p2 = job_rows p1"
    "shown_data p2 = (if Some i = getSelectedSearchId p1 then shown_data (add_rows new p1) else shown_data p1)"
  proof -
    have "same_look (add_rows new p1) (redraw cmp (count_total (count_visible cmp (add_rows new p1))))"
      by (meson look_redraw look_timers same_look_trans)
    then show "tab_sels p2 = tab_sels p1" "job_rows p2 = job_rows p1"
      "shown_data p2 = (if Some i = getSelectedSearchId p1 then shown_data (add_rows new p1) else shown_data p1)"
      using look_title [of p1 i] by (auto simp: p2_def show_rows_def same_look_def)
  qed
  ultimately have look: "job_rows p3 = job_rows p1" "display_ok p3 = display_ok p2"
    using look_display by (auto simp: same_look_def)
  have "length (number_rows 0 (xs @ ra_results ans)) \<le> few"
    using small_rows [OF small [unfolded eq], of i] look(1) rows1 [of i] by simp
  then have few: "length xs + length (ra_results ans) \<le> few" by simp
  have sel: "getSelectedSearchId p2 = getSelectedSearchId p" "one_selected p2 = one_selected p"
      "getSelectedSearchId p1 = getSelectedSearchId p"
    by (simp_all add: selected_sels one_selected_sels rows2 p1)
  have "shown_data p2 = expected_data ds" if ds: "getSelectedSearchId p = Some j" "job_rows p2 j = Some ds" for j ds
  proof (cases "j = i")
    case True
    then have "shown_data p = expected_data (number_rows 0 xs)"
      using ok ds(1) job xs(1) by (simp add: display_ok_def shows_tab_def job_rows_def)
    with p1(2) have "shown_data p1 = expected_data (number_rows 0 xs)" by simp
    from shown_add_rows [OF this few] have "shown_data (add_rows new p1) = expected_data (number_rows 0 (xs @ ra_results ans))"
      by (simp add: new_def xs(2))
    with True ds show ?thesis by (simp add: rows2 sel rows1)
  next
    case False
    with ds ok show ?thesis by (simp add: rows2 sel rows1 p1 display_ok_def shows_tab_def)
  qed
  with ok have "display_ok p2" by (simp add: display_ok_def shows_tab_def sel)
  with look show ?thesis unfolding eq by simp
qed

lemma answered_look: "same_look p (results_answered i r0 reply p)"
proof -
  have look: "same_look p (updateStatusIconElement i ic (resetSearchState j p))" "same_look p (updateStatusIconElement i ic (clearTimeout n p))"
    for ic j n by (meson look_icon look_reset look_timers same_look_trans)+
  show ?thesis
    by (cases reply) (auto simp: results_answered_def look look_rearm look_icon split: option.split)
qed

text \<open>A text that is read either goes to the search it was asked for or to an object that no search has.\<close>

lemma held_object:
  assumes inv: "flow_inv (core_of p) s (A1 @ AnsText i r t # A2) used"
  shows "map_get (searchState p) i = Some r \<or> (i \<notin> live_ids (core_of p) \<and> (\<forall>j. map_get (searchState p) j \<noteq> Some r))"
proof -
  have h: "map_get (searchState p) j = Some q \<Longrightarrow> (j = i \<longleftrightarrow> q = r)" for j q
    using flow_invD(9) [OF inv] by (auto simp: held_def holds_def)
  show ?thesis
  proof (cases "map_get (searchState p) i")
    case None
    then have "i \<notin> live_ids (core_of p)" unfolding live_ids_def core_of_simps by (simp only: map_of_eq_None_iff list.set_map not_False_eq_True)
    moreover have "map_get (searchState p) j \<noteq> Some r" for j using h [of j r] None by auto
    ultimately show ?thesis by blast
  qed (use h in auto)
qed

lemma gone_not_shown:
  assumes inv: "flow_inv (core_of p) s A used" and "i \<notin> live_ids (core_of p)"
  shows "getSelectedSearchId p \<noteq> Some i"
proof
  assume "getSelectedSearchId p = Some i"
  then have "i \<in> set (tab_ids p)" by (auto simp: getSelectedSearchId_def tab_ids_def find_Some_iff)
  then show False using inv_tab_ids(2) [OF inv] assms(2) by simp
qed

lemma gone_look:
  assumes inv: "flow_inv (core_of p) s A used" and gone: "i \<notin> live_ids (core_of p)" "\<And>j. map_get (searchState p) j \<noteq> Some r"
  shows "same_look p (results_received cmp i r ans p)"
proof (cases "sp_objects p r")
  case None
  then show ?thesis by (simp add: results_received_def)
next
  case (Some st)
  define ds where "ds = number_rows (st_rowId st) (ra_results ans)"
  define p1 where "p1 = store_rows r ds p"
  have "job_rows p1 j = job_rows p j" for j
    using gone(2) [of j] by (cases "map_get (searchState p) j")
      (auto simp: p1_def store_rows_def mod_object_def job_rows_def get_job_def)
  then have look1: "same_look p p1"
    by (simp add: same_look_def p1_def store_rows_def mod_object_def tab_sels_def shown_data_def fun_eq_iff)
  have "getSelectedSearchId p1 \<noteq> Some i"
    using gone_not_shown [OF inv gone(1)] same_look_shows(3) [OF look1] by simp
  then have look2: "same_look p (show_rows cmp i ds p1)"
    using look1 look_title [of p1 i] by (auto simp: show_rows_def intro: same_look_trans)
  have finished: "same_look p (updateStatusIconElement i IconFinished (resetSearchState (Some i) (show_rows cmp i ds p1)))"
    by (rule same_look_trans [OF look2 same_look_trans [OF look_reset look_icon]])
  have armed: "same_look p (rearm r delay i (show_rows cmp i ds p1))" for delay
    by (rule same_look_trans [OF look2 look_rearm])
  show ?thesis
    unfolding results_received_def Some option.case Let_def ds_def [symmetric] p1_def [symmetric] using finished armed by simp
qed

lemma read_display:
  assumes inv: "flow_inv (core_of p) s (A1 @ AnsText i r t # A2) used" and ok: "display_ok p"
    and small: "small_page (results_read cmp i r t p)"
  shows "display_ok (results_read cmp i r t p)"
proof (cases t)
  case None
  then show ?thesis using ok look_display [OF look_rearm] by (simp add: results_read_def)
next
  case (Some ans)
  then have eq: "results_read cmp i r t p = results_received cmp i r ans p" by (simp add: results_read_def)
  from held_object [OF inv] show ?thesis
  proof
    assume r: "map_get (searchState p) i = Some r"
    show ?thesis
    proof (cases "sp_objects p r")
      case None
      then show ?thesis using ok unfolding eq by (simp add: results_received_def)
    next
      case st: (Some st)
      show ?thesis using received_display [OF inv ok r st] small unfolding eq .
    qed
  next
    assume "i \<notin> live_ids (core_of p) \<and> (\<forall>j. map_get (searchState p) j \<noteq> Some r)"
    with gone_look [OF inv] look_display ok show ?thesis unfolding eq by blast
  qed
qed

lemma user_display:
  assumes inv: "flow_inv (core_of p) s A used" and ok: "display_ok p" and small: "small_page p"
  shows "display_ok (user_step cmp a p)"
proof -
  have calm: "same_look p (user_step cmp a p) \<Longrightarrow> ?thesis" using ok look_display by blast
  have changed: "same_look p (searchFilterChanged cmp (p\<lparr>sp_filters := f\<rparr>))" for f
    by (rule same_look_trans [OF look_fields(1) look_filter_changed])
  have button: "same_look p (updateSearchButtonState (p\<lparr>sp_pattern := s\<rparr>))" for s
    by (rule same_look_trans [OF look_fields(5) look_timers(4)])
  show ?thesis
  proof (cases a)
    case PressStart
    have "same_look p (send q (p\<lparr>sp_filters := f\<rparr>))" for q f by (rule same_look_trans [OF look_fields(1) look_timers(2)])
    then show ?thesis using PressStart
      by (intro calm) (auto simp: startStopSearch_def Let_def startSearch_def stopSearch_def look_timers split: option.split)
  next
    case (ActivateTab i)
    show ?thesis
    proof (cases "has_tab p i \<and> Some i \<noteq> getSelectedSearchId p")
      case True
      with setActive_look [of p i cmp] inv_tab_ids(1) [OF inv] inv_numbered [OF inv small] show ?thesis
        using ActivateTab by (simp add: has_tab_def tab_ids_def display_ok_def)
    next
      case False
      then show ?thesis using ActivateTab by (intro calm) (auto simp: setActiveTab_def)
    qed
  next
    case (CloseTab i)
    then show ?thesis using conjunct1 [OF close_display [OF inv ok small]] by simp
  next
    case CloseAllTabs
    then show ?thesis using conjunct1 [OF close_all_display [OF inv ok small]] by (simp add: closeAllTabs_def)
  next
    case (ClickRow ctrl shift target)
    then show ?thesis by (intro calm) (simp add: look_table look_clickRow)
  next
    case (RefreshTab i)
    then show ?thesis by (intro calm) (auto simp: refreshSearch_def look_timers split: option.split)
  next
    case (UseTabText i)
    then show ?thesis by (intro calm) (auto simp: useSearchText_def button split: option.split)
  next
    case PrefixFilter
    then show ?thesis by (intro calm) (simp add: searchSizeFilterPrefixChanged_def searchSizeFilterChanged_def changed)
  next
    case (TypePattern s)
    then show ?thesis by (intro calm) (simp add: button)
  next
    case (ChooseCategory s)
    then show ?thesis by (intro calm) (simp add: look_fields)
  next
    case (ChoosePlugins s)
    then show ?thesis by (intro calm) (simp add: look_fields)
  next
    case (StopTab i)
    then show ?thesis by (intro calm) (simp add: stopSearch_def look_timers)
  next
    case (FilterFields f)
    then show ?thesis by (intro calm) (simp add: look_fields)
  next
    case NameFilter
    then show ?thesis by (intro calm) (simp add: nameFilterChanged_def changed)
  next
    case SeedsFilter
    then show ?thesis by (intro calm) (simp add: searchSeedsFilterChanged_def changed)
  next
    case SizeFilter
    then show ?thesis by (intro calm) (simp add: searchSizeFilterChanged_def changed)
  next
    case (FilterInName b)
    then show ?thesis by (intro calm) (simp add: searchInTorrentName_def changed)
  qed
qed

section \<open>What is drawn after every step\<close>

lemma create_drawn:
  assumes "plain_table (sp_table p)"
  shows "drawn (createSearchTab cmp i pattern p)"
proof -
  let ?q = "setActiveTab cmp i (add_tab i pattern p)"
  have "sp_table (add_tab i pattern p) = sp_table p" by (simp add: add_tab_def)
  then have plain: "plain_table (sp_table ?q)" using assms setActive_plain by metis
  have "sp_table (resetFilters (clear_results cmp ?q)) = clear_table (page_fsr cmp ?q) (sp_table ?q)"
    by (simp add: resetFilters_def clear_results_def)
  from cleared_drawn [OF plain this] show ?thesis
    by (simp add: createSearchTab_def Let_def draw_same look_of_drawn [OF draw_more(3)] look_of_drawn [OF draw_fields(22)])
qed

lemma refresh_drawn:
  assumes inv: "flow_inv (core_of p) s A used" and drawn: "drawn p"
  shows "drawn (fst (refreshSearchTab cmp old new p))"
proof (cases "has_tab p old")
  case False
  then have "look_of (fst (refreshSearchTab cmp old new p)) = look_of p"
    by (simp add: refreshSearchTab_def Let_def has_tab_def send_def look_of_def tab_sels_def)
  with drawn show ?thesis by (rule drawn_same)
next
  case True
  then obtain r where r: "map_get (searchState p) old = Some r"
    using has_tab_live [OF inv True] unfolding live_ids_def core_of_simps by (metis map_of_eq_None_iff not_None_eq list.set_map)
  define q0 where "q0 = (send (ReqDelete old) p)\<lparr>sp_jobs := rename_job old new (sp_jobs (send (ReqDelete old) p))\<rparr>"
  define q where "q = updateTabTitle new (move_job old new (updateStatusIconElement new IconSearching
    (q0\<lparr>sp_tabs := on_tab old (\<lambda>t. t\<lparr>tab_id := new\<rparr>) (sp_tabs q0)\<rparr>)))"
  have t: "sp_table q = sp_table p"
    by (simp add: q_def q0_def updateTabTitle_def move_job_def updateStatusIconElement_def mod_object_def send_def Let_def split: option.split)
  have "sp_table (clear_results cmp q) = clear_table (page_fsr cmp q) (sp_table q)" by (simp add: clear_results_def)
  then have "drawn (clear_results cmp q)" using drawn t cleared_drawn unfolding drawn_def by metis
  moreover have "searchState (updateStatusIconElement j ic q') = searchState q'" for j ic q' by (simp add: updateStatusIconElement_def)
  then have "fst (refreshSearchTab cmp old new p) = updateSearchResultsData new (clear_results cmp q)"
    using True r by (simp add: refreshSearchTab_def Let_def q_def q0_def has_tab_def send_def)
  ultimately show ?thesis by (simp add: look_of_drawn [OF draw_more(3)])
qed

text \<open>The rows shown are those of results.\<close>

lemma display_plain:
  assumes inv: "flow_inv (core_of p) s A used" and ok: "display_ok p" and sel: "getSelectedSearchId p \<noteq> None"
  shows "\<exists>xs. shown_data p = expected_data (number_rows 0 xs)"
proof -
  obtain i where i: "getSelectedSearchId p = Some i" using sel by blast
  then have "i \<in> live_ids (core_of p)" using gone_not_shown [OF inv] by blast
  then obtain st where st: "k_job (core_of p) i = Some st" using wf_job [OF flow_invD(1) [OF inv]] by blast
  then have "job_rows p i = Some (kj_rows st)" by (simp add: job_rows_core)
  with ok i have "shown_data p = expected_data (kj_rows st)" by (simp add: display_ok_def shows_tab_def)
  moreover have "kj_rows st = number_rows 0 (take (kj_rowId st) (results_of s i))"
    using flow_invD(2) [OF inv st] by (simp add: job_inv_def rows_ok_def)
  ultimately show ?thesis by metis
qed

lemma read_drawn:
  assumes inv: "flow_inv (core_of p) s (A1 @ AnsText i r t # A2) used" and ok: "display_ok p"
    and small: "small_page (results_read cmp i r t p)" and drawn: "drawn p"
  shows "drawn (results_read cmp i r t p)"
proof (cases "t = None \<or> sp_objects p r = None")
  case True
  have "look_of (results_read cmp i r t p) = look_of p"
    using True by (auto simp: results_read_def results_received_def draw_same split: option.split)
  with drawn show ?thesis by (rule drawn_same)
next
  case False
  then obtain ans st where t: "t = Some ans" and st: "sp_objects p r = Some st" by auto
  define ds where "ds = number_rows (st_rowId st) (ra_results ans)"
  define p1 where "p1 = store_rows r ds p"
  define p2 where "p2 = show_rows cmp i ds p1"
  define p3 where "p3 = results_read cmp i r t p"
  have look3: "look_of p3 = look_of p2"
    by (simp add: p3_def results_read_def t results_received_def st Let_def ds_def p1_def p2_def draw_same)
  have look1: "look_of p1 = look_of p" by (simp add: p1_def draw_same)
  then have sel1: "getSelectedSearchId p1 = getSelectedSearchId p" by (simp add: look_of_def selected_sels)
  show ?thesis
  proof (cases "Some i = getSelectedSearchId p1")
    case False
    then have "look_of p2 = look_of p" by (simp add: p2_def show_rows_def draw_same look1)
    with look3 have "look_of p3 = look_of p" by simp
    with drawn show ?thesis unfolding p3_def [symmetric] by (rule drawn_same)
  next
    case True
    define q where "q = count_total (count_visible cmp (add_rows ds p1))"
    have p2: "p2 = redraw cmp q" using True by (simp add: p2_def show_rows_def q_def)
    have "display_ok p3" unfolding p3_def by (rule read_display [OF inv ok small])
    moreover have "flow_inv (core_of p3) s (A1 @ A2) used"
      unfolding p3_def core_read by (rule flow_inv_read [OF inv])
    moreover have "getSelectedSearchId p3 = getSelectedSearchId q" "shown_data p3 = shown_data q"
      using look3 look_redraw [of q cmp] unfolding p2 by (simp_all add: look_of_def same_look_def selected_sels shown_data_def)
    ultimately have "getSelectedSearchId q \<noteq> None \<Longrightarrow> \<exists>xs. shown_data q = expected_data (number_rows 0 xs)"
      using display_plain by metis
    moreover have "sp_table q = foldl (\<lambda>t d. updateRowData d t) (sp_table p) ds"
      using look1 by (simp add: q_def count_total_def count_visible_def add_rows_def look_of_def)
    then have "plain_table (sp_table q)" using drawn plain_ops(3) by (simp add: drawn_def)
    ultimately have "drawn p2" unfolding p2 using redraw_drawn by blast
    from this look3 show ?thesis unfolding p3_def [symmetric] by (rule drawn_same)
  qed
qed

lemma filters_drawn:
  assumes inv: "flow_inv (core_of p) s A used" and ok: "display_ok p" and drawn: "drawn p"
  shows "drawn (searchFilterChanged cmp (p\<lparr>sp_filters := f\<rparr>))"
proof -
  let ?q = "p\<lparr>sp_filters := f\<rparr>"
  have "shown_data ?q = shown_data p" "getSelectedSearchId ?q = getSelectedSearchId p" "sp_table ?q = sp_table p"
    by (simp_all add: shown_data_def getSelectedSearchId_def)
  then have "drawn (redraw cmp ?q)"
    using display_plain [OF inv ok] drawn redraw_drawn [of ?q cmp] unfolding drawn_def by metis
  then show ?thesis by (simp add: searchFilterChanged_def look_of_drawn [OF draw_fields(19)])
qed

text \<open>
  Starting a search with another pattern while the filter looks at the pattern changes what passes,
  and nothing is drawn before the answer.
\<close>

definition stale_filter :: "flow_event \<Rightarrow> search_flow \<Rightarrow> bool" where
  "stale_filter e fl \<longleftrightarrow> e = User PressStart \<and> getSelectedSearchId (fl_page fl) \<noteq> None \<and> sf_inName (sp_filters (fl_page fl)) \<and>
     sf_pattern (sp_filters (startStopSearch (fl_page fl))) \<noteq> sf_pattern (sp_filters (fl_page fl))"

lemma start_drawn:
  assumes "drawn p" "getSelectedSearchId p \<noteq> None \<Longrightarrow> sf_inName (sp_filters p) \<Longrightarrow>
    sf_pattern (sp_filters (startStopSearch p)) = sf_pattern (sp_filters p)"
  shows "drawn (startStopSearch p)"
proof -
  have "look_of (send q p) = look_of p" for q by (simp add: draw_same)
  then have "look_of (startStopSearch p) = look_of p
      \<or> (\<exists>pat. look_of (startStopSearch p) = look_of (p\<lparr>sp_filters := (sp_filters p)\<lparr>sf_pattern := pat\<rparr>\<rparr>))"
    by (auto simp: startStopSearch_def Let_def startSearch_def stopSearch_def draw_same split: option.split)
  then show ?thesis
  proof (elim disjE exE)
    fix pat assume look: "look_of (startStopSearch p) = look_of (p\<lparr>sp_filters := (sp_filters p)\<lparr>sf_pattern := pat\<rparr>\<rparr>)"
    then have f: "sp_filters (startStopSearch p) = (sp_filters p)\<lparr>sf_pattern := pat\<rparr>" by (simp add: look_of_def)
    have "matches_filters ((sp_filters p)\<lparr>sf_pattern := pat\<rparr>) d = matches_filters (sp_filters p) d"
      if "getSelectedSearchId p \<noteq> None" for d
    proof (cases "sf_inName (sp_filters p)")
      case True
      with assms(2) that f have "(sp_filters p)\<lparr>sf_pattern := pat\<rparr> = sp_filters p" by simp
      then show ?thesis by simp
    next
      case False
      let ?f = "sp_filters p"
      obtain a b c e where "getSizeFilters ?f = (a, b)" "getSeedsFilters ?f = (c, e)" by fastforce
      moreover have "getSizeFilters (?f\<lparr>sf_pattern := pat\<rparr>) = getSizeFilters ?f" "getSeedsFilters (?f\<lparr>sf_pattern := pat\<rparr>) = getSeedsFilters ?f"
        by (simp_all add: getSizeFilters_def getSeedsFilters_def)
      ultimately show ?thesis using False
        by (cases "prop_get d ''fileName''") (simp_all add: matches_filters_def passes_search_def)
    qed
    then have "drawn (p\<lparr>sp_filters := (sp_filters p)\<lparr>sf_pattern := pat\<rparr>\<rparr>) = drawn p"
      by (cases "getSelectedSearchId p") (simp_all add: drawn_def passing_ids_def shown_data_def getSelectedSearchId_def)
    with assms(1) look_of_drawn [OF look] show ?thesis by simp
  qed (use assms(1) drawn_same in blast)
qed

lemma user_drawn:
  assumes inv: "flow_inv (core_of p) s A used" and ok: "display_ok p" and small: "small_page p" and drawn: "drawn p"
    and calm: "a = PressStart \<Longrightarrow> getSelectedSearchId p \<noteq> None \<Longrightarrow> sf_inName (sp_filters p) \<Longrightarrow>
      sf_pattern (sp_filters (startStopSearch p)) = sf_pattern (sp_filters p)"
  shows "drawn (user_step cmp a p)"
proof -
  have same: "look_of (user_step cmp a p) = look_of p \<Longrightarrow> ?thesis" using drawn drawn_same by blast
  note changed = filters_drawn [OF inv ok drawn]
  show ?thesis
  proof (cases a)
    case PressStart
    with start_drawn [OF drawn] calm show ?thesis by simp
  next
    case (ActivateTab i)
    show ?thesis
    proof (cases "has_tab p i")
      case True
      have "job_rows p i \<noteq> None"
        using has_tab_live [OF inv True] wf_job [OF flow_invD(1) [OF inv], of i] by (simp add: job_rows_core)
      with True setActive_drawn [OF inv_tab_ids(1) [OF inv] _ inv_numbered [OF inv small] _ drawn, of i cmp] ActivateTab show ?thesis
        by (simp add: has_tab_def tab_ids_def)
    qed (use ActivateTab drawn in simp)
  next
    case (CloseTab i)
    then show ?thesis using close_display [OF inv ok small, of cmp i] drawn by simp
  next
    case CloseAllTabs
    then show ?thesis using close_all_display [OF inv ok small] drawn by (simp add: closeAllTabs_def)
  next
    case (ClickRow ctrl shift target)
    then show ?thesis using drawn by (simp add: content_drawn handlers_same_content(3) selection_virtual)
  next
    case (RefreshTab i)
    then show ?thesis by (intro same) (auto simp: refreshSearch_def draw_same split: option.split)
  next
    case (UseTabText i)
    then show ?thesis by (intro same) (auto simp: useSearchText_def draw_same split: option.split)
  next
    case PrefixFilter
    then show ?thesis using changed drawn by (simp add: searchSizeFilterPrefixChanged_def searchSizeFilterChanged_def)
  next
    case NameFilter
    then show ?thesis using changed by (simp add: nameFilterChanged_def)
  next
    case SeedsFilter
    then show ?thesis using changed by (simp add: searchSeedsFilterChanged_def)
  next
    case SizeFilter
    then show ?thesis using changed by (simp add: searchSizeFilterChanged_def)
  next
    case (FilterInName b)
    then show ?thesis using changed by (simp add: searchInTorrentName_def)
  qed (intro same, simp add: draw_same stopSearch_def)+
qed

lemma deliver_drawn:
  assumes inv: "flow_inv (core_of p) s (A1 @ a # A2) used" and ok: "display_ok p"
    and small': "small_page (deliver cmp a p)" and drawn: "drawn p"
  shows "drawn (deliver cmp a p)"
proof (cases a)
  case (AnsStart pattern i)
  have "drawn (createSearchTab cmp j pattern p)" for j using create_drawn drawn by (simp add: drawn_def)
  then show ?thesis using AnsStart drawn look_of_drawn [OF draw_fields(18)] look_of_drawn [OF draw_fields(2)]
    by (simp add: start_answered_def Let_def split: option.split)
next
  case (AnsRefresh old i)
  show ?thesis
  proof (cases i)
    case (Some new)
    have "drawn (fst (refreshSearchTab cmp old new p))" by (rule refresh_drawn [OF inv drawn])
    then show ?thesis using AnsRefresh Some look_of_drawn [OF draw_fields(18)]
      by (cases "refreshSearchTab cmp old new p") (simp add: refresh_answered_def split: option.split)
  qed (use AnsRefresh drawn in \<open>simp add: refresh_answered_def\<close>)
next
  case (AnsStop i okay)
  have "look_of (stop_answered i okay p) = look_of p" by (simp add: stop_answered_def draw_same)
  with drawn_same [OF drawn] AnsStop show ?thesis by simp
next
  case (AnsResults i r reply)
  have "look_of (results_answered i r reply p) = look_of p"
    by (auto simp: results_answered_def draw_same split: results_reply.split option.split)
  with drawn_same [OF drawn] AnsResults show ?thesis by simp
next
  case (AnsText i r t)
  then show ?thesis using read_drawn [OF _ ok _ drawn, of s A1 i r t A2 used cmp] inv small' by simp
qed

lemma step_drawn:
  assumes inv: "fl_inv fl" and ok: "display_ok (fl_page fl)" and small: "small_page (fl_page fl)" and drawn: "drawn (fl_page fl)"
    and small': "small_page (fl_page (search_step cmp names e fl))" and calm: "\<not> stale_filter e fl"
  shows "drawn (fl_page (search_step cmp names e fl))"
proof -
  note inv' = inv [unfolded fl_inv_def]
  have still: "look_of (fl_page (search_step cmp names e fl)) = look_of (fl_page fl) \<Longrightarrow> ?thesis" using drawn drawn_same by blast
  show ?thesis
  proof (cases e)
    case (User a)
    then have "drawn (user_step cmp a (fl_page fl))"
      using calm by (intro user_drawn [OF inv' ok small drawn]) (auto simp: stale_filter_def)
    with User show ?thesis by simp
  next
    case (Delivered n)
    show ?thesis
    proof (cases "n < length (fl_answers fl)")
      case True
      then have "fl_answers fl = take n (fl_answers fl) @ fl_answers fl ! n # drop (Suc n) (fl_answers fl)"
        by (rule id_take_nth_drop)
      then have "flow_inv (core_of (fl_page fl)) (fl_server fl)
          (take n (fl_answers fl) @ fl_answers fl ! n # drop (Suc n) (fl_answers fl)) (fl_used fl)"
        using inv' by metis
      from deliver_drawn [OF this ok _ drawn, of cmp] show ?thesis using small' Delivered True by simp
    qed (use Delivered drawn in simp)
  next
    case (TimerFires n)
    then show ?thesis by (intro still) (simp add: draw_same)
  next
    case (Served n env)
    then show ?thesis by (intro still) (simp add: draw_same split: option.split prod.split)
  qed (intro still, simp add: draw_same)+
qed

section \<open>Whole runs\<close>

text \<open>The answer to a refresh that arrives while another tab is shown; it empties the table of that one.\<close>

definition late_refresh :: "flow_event \<Rightarrow> search_flow \<Rightarrow> bool" where
  "late_refresh e fl \<longleftrightarrow>
     (case e of
        Delivered n \<Rightarrow>
          n < length (fl_answers fl) \<and>
          (case fl_answers fl ! n of
             AnsRefresh old (Some new) \<Rightarrow> has_tab (fl_page fl) old \<and> getSelectedSearchId (fl_page fl) \<noteq> Some old
           | _ \<Rightarrow> False)
      | _ \<Rightarrow> False)"

fun calm_run :: "(table \<Rightarrow> row cmp) \<Rightarrow> (string \<Rightarrow> string) \<Rightarrow> flow_event list \<Rightarrow> search_flow \<Rightarrow> bool" where
  "calm_run cmp names [] fl \<longleftrightarrow> small_page (fl_page fl)"
| "calm_run cmp names (e # es) fl \<longleftrightarrow>
     small_page (fl_page fl) \<and> \<not> late_refresh e fl \<and> \<not> torn_refresh e fl \<and> \<not> stale_filter e fl \<and>
     calm_run cmp names es (search_step cmp names e fl)"

lemma calm_small: "calm_run cmp names es fl \<Longrightarrow> small_page (fl_page fl)"
  by (cases es) simp_all

lemma deliver_display:
  assumes inv: "flow_inv (core_of p) s (A1 @ a # A2) used" and ok: "display_ok p" and small: "small_page p"
    and small': "small_page (deliver cmp a p)"
    and calm: "\<And>old new. a = AnsRefresh old (Some new) \<Longrightarrow> has_tab p old \<Longrightarrow> getSelectedSearchId p = Some old"
  shows "display_ok (deliver cmp a p)"
proof (cases a)
  case (AnsStart pattern i)
  show ?thesis
  proof (cases i)
    case (Some j)
    have "j \<notin> live_ids (core_of p)" using flow_invD(4) [OF inv, of j] AnsStart Some by simp
    from create_display(1) [OF inv ok small this] have "display_ok (createSearchTab cmp j pattern p)" .
    then show ?thesis using AnsStart Some look_display [OF same_look_trans [OF look_fields(3) look_timers(4)]]
      by (simp add: start_answered_def Let_def)
  qed (use AnsStart ok in \<open>simp add: start_answered_def\<close>)
next
  case (AnsRefresh old i)
  show ?thesis
  proof (cases i)
    case (Some j)
    have "j \<notin> live_ids (core_of p)" using flow_invD(4) [OF inv, of j] AnsRefresh Some by simp
    from refresh_display [OF inv ok _ this, of old] calm AnsRefresh Some
    have "display_ok (fst (refreshSearchTab cmp old j p))" by simp
    then show ?thesis using AnsRefresh Some look_display [OF look_timers(4)]
      by (cases "refreshSearchTab cmp old j p") (simp add: refresh_answered_def split: option.split)
  qed (use AnsRefresh ok in \<open>simp add: refresh_answered_def\<close>)
next
  case (AnsStop i okay)
  have "same_look p (stop_answered i okay p)"
    unfolding stop_answered_def by (auto intro: same_look_trans [OF look_reset look_icon])
  then show ?thesis using AnsStop ok look_display by simp
next
  case (AnsResults i r reply)
  then show ?thesis using look_display [OF answered_look] ok by simp
next
  case (AnsText i r t)
  then show ?thesis using read_display [OF _ ok, of s A1 i r t A2 used cmp] inv small' by simp
qed

lemma step_display:
  assumes inv: "fl_inv fl" and ok: "display_ok (fl_page fl)" and small: "small_page (fl_page fl)"
    and small': "small_page (fl_page (search_step cmp names e fl))" and calm: "\<not> late_refresh e fl"
  shows "display_ok (fl_page (search_step cmp names e fl))"
proof -
  note inv' = inv [unfolded fl_inv_def]
  have still: "same_look (fl_page fl) (fl_page (search_step cmp names e fl)) \<Longrightarrow> ?thesis" using ok look_display by blast
  show ?thesis
  proof (cases e)
    case (User a)
    with user_display [OF inv' ok small] show ?thesis by simp
  next
    case (Delivered n)
    show ?thesis
    proof (cases "n < length (fl_answers fl)")
      case True
      then have "fl_answers fl = take n (fl_answers fl) @ fl_answers fl ! n # drop (Suc n) (fl_answers fl)"
        by (rule id_take_nth_drop)
      then have "flow_inv (core_of (fl_page fl)) (fl_server fl)
          (take n (fl_answers fl) @ fl_answers fl ! n # drop (Suc n) (fl_answers fl)) (fl_used fl)"
        using inv' by metis
      then have "display_ok (deliver cmp (fl_answers fl ! n) (fl_page fl))"
      proof (rule deliver_display [OF _ ok small])
        show "getSelectedSearchId (fl_page fl) = Some old"
          if "fl_answers fl ! n = AnsRefresh old (Some new)" "has_tab (fl_page fl) old" for old new
          using calm that Delivered True by (simp add: late_refresh_def)
      qed (use small' Delivered True in simp)
      then show ?thesis using Delivered True by simp
    qed (use Delivered ok in simp)
  next
    case (TimerFires n)
    have "same_look p (loadSearchResultsData i (p\<lparr>sp_timers := ts\<rparr>))" for p i ts
      using same_look_trans [OF look_fields(12) look_timers(2)] look_fields(12)
      by (auto simp: loadSearchResultsData_def split: option.split)
    then show ?thesis using TimerFires by (intro still) simp
  next
    case (Served n env)
    then show ?thesis by (intro still) (simp add: look_timers split: option.split prod.split)
  qed (intro still, simp add: look_timers)+
qed

lemma run_display:
  "fl_inv fl \<Longrightarrow> display_ok (fl_page fl) \<Longrightarrow> drawn (fl_page fl) \<Longrightarrow> calm_run cmp names es fl \<Longrightarrow>
     display_ok (fl_page (search_run cmp names es fl)) \<and> drawn (fl_page (search_run cmp names es fl))"
proof (induction es arbitrary: fl)
  case (Cons e es)
  then have "calm_run cmp names es (search_step cmp names e fl)" by simp
  from calm_small [OF this] Cons.prems have "display_ok (fl_page (search_step cmp names e fl))"
    "drawn (fl_page (search_step cmp names e fl))"
    by (intro step_display step_drawn; simp)+
  with Cons fl_inv_step show ?case by (simp add: search_run_def)
qed (simp add: search_run_def)

lemma calm_untorn: "calm_run cmp names es fl \<Longrightarrow> untorn_run cmp names es fl"
  by (induction es arbitrary: fl) simp_all

lemma start_display:
  assumes "empty_page p" "distinct (map fst (sp_jobs p))" "set (map fst (sp_jobs p)) \<union> set (keys (searchHandlers s)) \<subseteq> set used"
  shows "display_ok (fl_page (start_flow cmp p s used))"
proof -
  have run: "display_ok (foldl (\<lambda>p (i, pattern). createSearchTab cmp i pattern p) p js)"
    if "flow_inv (core_of p) s (map (\<lambda>(i, pattern). AnsStart pattern (Some i)) js) used" "display_ok p"
      "\<And>j ds. job_rows p j = Some ds \<Longrightarrow> ds = []" for js p
    using that
  proof (induction js arbitrary: p)
    case (Cons j js)
    obtain i pattern where j: "j = (i, pattern)" by fastforce
    define p' where "p' = createSearchTab cmp i pattern p"
    have "small_page p" using Cons.prems(3) by (intro small_pageI) force
    moreover have "i \<notin> live_ids (core_of p)" using flow_invD(4) [OF Cons.prems(1), of i] by (simp add: j newborn_def)
    ultimately have "display_ok p'" "job_rows p' = (job_rows p)(i := Some [])"
      using create_display [OF Cons.prems(1,2)] by (simp_all add: p'_def)
    moreover have "flow_inv (core_of p') s (map (\<lambda>(i, pattern). AnsStart pattern (Some i)) js) used"
      using flow_inv_open [of "core_of p" s "[]" "AnsStart pattern (Some i)" _ used i] Cons.prems(1)
      by (simp add: j core_open p'_def)
    ultimately have "display_ok (foldl (\<lambda>p (i, pattern). createSearchTab cmp i pattern p) p' js)"
      using Cons.prems(3) by (intro Cons.IH) (auto split: if_splits)
    then show ?case by (simp add: j p'_def)
  qed simp
  have start: "display_ok p" "job_rows p j = None" for j
    using assms(1) by (simp_all add: empty_page_def display_ok_def one_selected_def shows_tab_def getSelectedSearchId_def job_rows_def get_job_def)
  have "display_ok (foldl (\<lambda>p (i, pattern). createSearchTab cmp i pattern p) p (sp_jobs p))"
    by (rule run [OF flow_inv_stored [OF assms] start(1)]) (simp add: start(2))
  then show ?thesis by (simp add: start_flow_def restore_search_tabs_def)
qed

lemma start_drawn_page:
  assumes "plain_table (sp_table p)" "sp_tabs p = []"
  shows "drawn (fl_page (start_flow cmp p s used))"
proof -
  have "drawn (foldl (\<lambda>p (i, pattern). createSearchTab cmp i pattern p) p js)" if "drawn p" for js p
    using that
  proof (induction js arbitrary: p)
    case (Cons j js)
    then have "drawn (createSearchTab cmp (fst j) (snd j) p)" using create_drawn by (simp add: drawn_def)
    with Cons.IH show ?case by (simp add: split_beta)
  qed simp
  moreover have "drawn p" using assms by (simp add: drawn_def getSelectedSearchId_def)
  ultimately show ?thesis by (simp add: start_flow_def restore_search_tabs_def)
qed


definition ex_display :: "flow_event list" where
  "ex_display = ex_two @ [User (ActivateTab 7), ProcessEvent (ProcessPrinted 7 (prettyPrinter ex_engine_result @ [CHR 10])),
     TimerFires 0, Served 0 ex_env, Delivered 0, Delivered 0]"

lemma ex_display_state:
  "getSelectedSearchId (fl_page (ex_flow ex_display)) = Some 7"
  "map_option (\<lambda>st. map data_id (st_rows st)) (get_job (fl_page (ex_flow ex_display)) 7) = Some [''0'']"
  by code_simp+

lemma ex_display_calm:
  "calm_run (\<lambda>_ _ _. 0) (\<lambda>u. ''X'') ex_display (start_flow (\<lambda>_ _ _. 0) ex_search_page \<lparr>searchHandlers = [], activeSearches = []\<rparr> [])"
  by code_simp


text \<open>
  The filter looks at the pattern, and a search for another pattern is started: the row of the
  search that is shown does not pass any more, but stays drawn.
\<close>

lemma start_leaves_stale_rows:
  "let before = fl_page (ex_flow (ex_events @ [User (FilterInName True), User (TypePattern ''q'')]));
       after = fl_page (ex_flow (ex_events @ [User (FilterInName True), User (TypePattern ''q''), User PressStart]))
   in map fst (trs (sp_table after)) = map fst (trs (sp_table before))
    \<and> length (page_fsr (\<lambda>_ _ _. 0) before (sp_table before)) = 1 \<and> page_fsr (\<lambda>_ _ _. 0) after (sp_table after) = []"
  by code_simp

end
