(* ===== verification/SearchSelects.thy ===== *)
theory SearchSelects
  imports SearchTabs SideBar
begin

text \<open>
  The two selection lists of the search page (\<open>search.js\<close>): the plug-ins, from the server's list of
  them, and the categories of the chosen plug-ins; and how the user's choice survives a new list.
\<close>

section \<open>Selection lists\<close>

text \<open>
  A \<open>select\<close> element that shows one of its options. Replacing all options selects the first one that
  is not disabled; the value of an option without one is its text.
\<close>

record select_option =
  op_value :: string
  op_text :: string
  op_disabled :: bool

record select_list =
  sel_options :: "select_option list"
  sel_index :: "nat option"

definition select_value :: "select_list \<Rightarrow> string" where
  "select_value l = (case sel_index l of None \<Rightarrow> [] | Some n \<Rightarrow> if n < length (sel_options l) then op_value (sel_options l ! n) else [])"

fun first_enabled :: "select_option list \<Rightarrow> nat option" where
  "first_enabled [] = None"
| "first_enabled (x # xs) = (if op_disabled x then map_option Suc (first_enabled xs) else Some 0)"

definition replaceOptions :: "select_option list \<Rightarrow> select_list" where
  "replaceOptions os = \<lparr>sel_options = os, sel_index = first_enabled os\<rparr>"

text \<open>The loop over the options that selects those with the value; the last of them stays selected.\<close>

fun select_loop :: "string \<Rightarrow> nat \<Rightarrow> select_option list \<Rightarrow> nat option \<Rightarrow> nat option" where
  "select_loop v n [] sel = sel"
| "select_loop v n (x # xs) sel = select_loop v (Suc n) xs (if op_value x = v then Some n else sel)"

definition reselect_value :: "string \<Rightarrow> select_list \<Rightarrow> select_list" where
  "reselect_value v l = l\<lparr>sel_index := select_loop v 0 (sel_options l) (sel_index l)\<rparr>"

definition separator_text :: string where
  "separator_text = concat (replicate 10 [CHR 0xE2, CHR 0x94, CHR 0x80])"

definition separator :: select_option where
  "separator = \<lparr>op_value = separator_text, op_text = separator_text, op_disabled = True\<rparr>"

section \<open>Plug-ins and categories\<close>

record search_plugin =
  pl_name :: string
  pl_fullName :: string
  pl_enabled :: bool
  pl_categories :: "(string \<times> string) list"

record search_selects =
  ss_plugins :: "search_plugin list"
  ss_pluginList :: select_list
  ss_categoryList :: select_list
  ss_selectedPlugin :: string
  ss_prevSelectedPlugin :: "string option"
  ss_selectedCategory :: string
  ss_disabled :: bool
  ss_noPluginsHidden :: bool
  ss_noSearchesHidden :: bool

definition getPlugin :: "string \<Rightarrow> search_plugin list \<Rightarrow> search_plugin option" where
  "getPlugin name ps = find (\<lambda>p. pl_name p = name) ps"

definition categorySelected :: "search_selects \<Rightarrow> search_selects" where
  "categorySelected s = s\<lparr>ss_selectedCategory := select_value (ss_categoryList s)\<rparr>"

definition reselectCategory :: "search_selects \<Rightarrow> search_selects" where
  "reselectCategory s = categorySelected (s\<lparr>ss_categoryList := reselect_value (ss_selectedCategory s) (ss_categoryList s)\<rparr>)"

definition populateCategorySelect :: "(string \<times> string) list \<Rightarrow> search_selects \<Rightarrow> search_selects" where
  "populateCategorySelect categories s =
     (let categoryOptions = map (\<lambda>(i, name). \<lparr>op_value = i, op_text = name, op_disabled = False\<rparr>) categories;
          categoryOptions = (if 1 < length categoryOptions then hd categoryOptions # separator # tl categoryOptions else categoryOptions)
      in s\<lparr>ss_categoryList := replaceOptions categoryOptions\<rparr>)"

text \<open>
  The categories by their ids, collected in a plain object: what every object inherits is not
  \<open>undefined\<close>, so a category with such an id is never entered.
\<close>

definition inherited_names :: "string list" where
  "inherited_names = [''constructor'', ''__defineGetter__'', ''__defineSetter__'', ''hasOwnProperty'', ''__lookupGetter__'',
     ''__lookupSetter__'', ''isPrototypeOf'', ''propertyIsEnumerable'', ''toString'', ''valueOf'', ''__proto__'', ''toLocaleString'']"

fun add_categories :: "(string \<times> string) list \<Rightarrow> (string, string) jsmap \<Rightarrow> (string, string) jsmap" where
  "add_categories [] unique = unique"
| "add_categories ((i, name) # cs) unique =
     add_categories cs (if map_get unique i = None \<and> i \<notin> set inherited_names then map_set i name unique else unique)"

fun collect_categories :: "bool \<Rightarrow> search_plugin list \<Rightarrow> (string, string) jsmap \<Rightarrow> (string, string) jsmap" where
  "collect_categories onlyEnabled [] unique = unique"
| "collect_categories onlyEnabled (p # ps) unique =
     collect_categories onlyEnabled ps (if onlyEnabled \<and> \<not> pl_enabled p then unique else add_categories (pl_categories p) unique)"

definition search_categories :: "string \<Rightarrow> search_plugin list \<Rightarrow> (string \<times> string) list" where
  "search_categories plugin ps =
     (if plugin = ''all'' \<or> plugin = ''enabled''
      then let unique = collect_categories (plugin = ''enabled'') ps []
           in List.map_filter (\<lambda>i. map_option (Pair i) (map_get unique i)) (js_sort compare_units (keys unique))
      else (case getPlugin plugin ps of None \<Rightarrow> [] | Some p \<Rightarrow> pl_categories p))"

definition getSearchCategories :: "search_selects \<Rightarrow> search_selects" where
  "getSearchCategories s =
     reselectCategory (populateCategorySelect (search_categories (select_value (ss_pluginList s)) (ss_plugins s)) s)"

definition pluginSelected :: "search_selects \<Rightarrow> search_selects" where
  "pluginSelected s =
     (let v = select_value (ss_pluginList s);
          s = s\<lparr>ss_selectedPlugin := v\<rparr>
      in if ss_prevSelectedPlugin s \<noteq> Some v then getSearchCategories (s\<lparr>ss_prevSelectedPlugin := Some v\<rparr>) else s)"

definition reselectPlugin :: "search_selects \<Rightarrow> search_selects" where
  "reselectPlugin s = pluginSelected (s\<lparr>ss_pluginList := reselect_value (ss_selectedPlugin s) (ss_pluginList s)\<rparr>)"

text \<open>
  The answer with the list of plug-ins. It is a new object every time, so that the comparison with
  the one before never finds them equal.
\<close>

definition plugin_options :: "search_plugin list \<Rightarrow> select_option list" where
  "plugin_options ps =
     (let fixed = [\<lparr>op_value = ''enabled'', op_text = ''Only enabled'', op_disabled = False\<rparr>,
                   \<lparr>op_value = ''all'', op_text = ''All plugins'', op_disabled = False\<rparr>];
          others = map (\<lambda>p. \<lparr>op_value = pl_name p, op_text = pl_fullName p, op_disabled = False\<rparr>) (filter pl_enabled ps)
      in if others \<noteq> [] then fixed @ separator # others else fixed)"

definition plugins_received :: "string cmp \<Rightarrow> nat \<Rightarrow> search_plugin list \<Rightarrow> search_selects \<Rightarrow> search_selects" where
  "plugins_received natural tabs response s =
     (let empty = (response = []);
          ps = (if empty then [] else js_sort (\<lambda>p q. natural (pl_fullName p) (pl_fullName q)) response);
          s = (if empty then s
               else s\<lparr>ss_noPluginsHidden := True, ss_noSearchesHidden := (if tabs = 0 then False else ss_noSearchesHidden s)\<rparr>)
      in reselectPlugin (s\<lparr>ss_plugins := ps, ss_pluginList := replaceOptions (plugin_options ps), ss_disabled := empty\<rparr>))"

section \<open>What is offered\<close>

definition chosen_plugins :: "string \<Rightarrow> search_plugin list \<Rightarrow> search_plugin list" where
  "chosen_plugins plugin ps = (if plugin = ''enabled'' then filter pl_enabled ps else ps)"

definition category_ids :: "search_plugin list \<Rightarrow> string set" where
  "category_ids ps = (\<Union>p \<in> set ps. set (map fst (pl_categories p)))"

lemma add_categories_keys:
  "fst ` set (add_categories cs m) = fst ` set m \<union> (fst ` set cs - set inherited_names)"
  by (induction cs m rule: add_categories.induct) (auto simp: map_of_eq_None_iff simp flip: map_of_eq_None_iff)

lemma add_categories_distinct: "distinct_keys m \<Longrightarrow> distinct_keys (add_categories cs m)"
  by (induction cs m rule: add_categories.induct) (auto simp: distinct_update)

lemma collect_keys:
  "fst ` set (collect_categories b ps m) =
     fst ` set m \<union> ((\<Union>p \<in> set (if b then filter pl_enabled ps else ps). fst ` set (pl_categories p)) - set inherited_names)"
proof (induction b ps m rule: collect_categories.induct)
  case (2 b p ps m)
  then show ?case by (cases "b \<and> \<not> pl_enabled p") (simp_all add: add_categories_keys Un_Diff Un_assoc)
qed simp

lemma collect_distinct: "distinct_keys m \<Longrightarrow> distinct_keys (collect_categories b ps m)"
  by (induction b ps m rule: collect_categories.induct) (auto simp: add_categories_distinct)

lemma compare_units_refl [simp]: "compare_units s s = 0"
  by (rule code_units.cmp_refl) simp

text \<open>
  For the choices "all" and "enabled", the categories offered are those of the chosen plug-ins, each
  once and in the order of the code units of their ids, however many plug-ins share a category; only an
  id that names something every object inherits is never offered.
\<close>

theorem categories_offered:
  assumes "plugin = ''all'' \<or> plugin = ''enabled''"
  shows "set (map fst (search_categories plugin ps)) =
      (\<Union>p \<in> {p \<in> set ps. plugin = ''enabled'' \<longrightarrow> pl_enabled p}. set (map fst (pl_categories p))) - set inherited_names
    \<and> distinct (map fst (search_categories plugin ps))
    \<and> sorted_wrt (\<lambda>i j. compare_units i j \<le> 0) (map fst (search_categories plugin ps))"
proof -
  define m where "m = collect_categories (plugin = ''enabled'') ps []"
  have all: "map_get m i \<noteq> None" if "i \<in> set ks" "set ks \<subseteq> set (keys m)" for i ks
    using that by (metis list.set_map map_of_eq_None_iff subsetD)
  have fst: "map fst (List.map_filter (\<lambda>i. map_option (Pair i) (map_get m i)) ks) = ks" if "set ks \<subseteq> set (keys m)" for ks
    using that
  proof (induction ks)
    case (Cons k ks)
    then have "map_get m k \<noteq> None" by (intro all [of k "k # ks"]) auto
    with Cons show ?case by (auto simp: List.map_filter_simps)
  qed (simp add: List.map_filter_simps)
  have cats: "map fst (search_categories plugin ps) = js_sort compare_units (keys m)"
    using assms by (simp add: search_categories_def m_def [symmetric] Let_def fst)
  have "set (keys m) = (\<Union>p \<in> {p \<in> set ps. plugin = ''enabled'' \<longrightarrow> pl_enabled p}. set (map fst (pl_categories p))) - set inherited_names"
    by (auto simp: m_def collect_keys)
  moreover have "distinct (keys m)" unfolding m_def by (rule collect_distinct) simp
  moreover have "sorted_wrt (\<lambda>i j. compare_units i j \<le> 0) (js_sort compare_units (keys m))"
    by (rule code_units.sorted_js_sort) simp
  ultimately show ?thesis unfolding cats by simp
qed

definition ex_plugins :: "search_plugin list" where
  "ex_plugins = [\<lparr>pl_name = ''a'', pl_fullName = ''A'', pl_enabled = True, pl_categories = [(''all'', ''All''), (''tv'', ''TV''), (''books'', ''Books'')]\<rparr>,
     \<lparr>pl_name = ''b'', pl_fullName = ''B'', pl_enabled = False, pl_categories = [(''all'', ''All''), (''anime'', ''Anime'')]\<rparr>]"

theorem categories_offered_witness:
  "map fst (search_categories ''enabled'' ex_plugins) = [''all'', ''books'', ''tv'']
    \<and> distinct (map fst (search_categories ''enabled'' ex_plugins))"
proof -
  have "map fst (search_categories ''enabled'' ex_plugins) = [''all'', ''books'', ''tv'']" by code_simp
  with categories_offered [of "''enabled''" ex_plugins] show ?thesis by simp
qed

text \<open>The choice of a plug-in that is still offered survives a new list; any other becomes "enabled".\<close>

lemma select_loop_absent: "v \<notin> op_value ` set os \<Longrightarrow> select_loop v n os sel = sel"
  by (induction v n os sel rule: select_loop.induct) auto

lemma select_loop_found:
  "v \<in> op_value ` set os \<Longrightarrow> \<exists>k. select_loop v n os sel = Some (n + k) \<and> k < length os \<and> op_value (os ! k) = v"
proof (induction v n os sel rule: select_loop.induct)
  case (2 v n x xs sel)
  show ?case
  proof (cases "v \<in> op_value ` set xs")
    case True
    from 2(1) [OF this] obtain k where "select_loop v n (x # xs) sel = Some (Suc n + k)" "k < length xs" "op_value (xs ! k) = v" by auto
    then show ?thesis by (intro exI [of _ "Suc k"]) simp
  next
    case False
    with 2(2) have "select_loop v n (x # xs) sel = Some n" "op_value x = v" by (auto simp: select_loop_absent)
    then show ?thesis by (intro exI [of _ 0]) simp
  qed
qed simp

lemma plugin_choice_kept:
  assumes "ss_selectedPlugin s \<noteq> separator_text"
  shows "ss_selectedPlugin (plugins_received natural tabs ps s) =
     (if ss_selectedPlugin s \<in> {''enabled'', ''all''} \<union> pl_name ` {p \<in> set ps. pl_enabled p} then ss_selectedPlugin s else ''enabled'')"
proof -
  define os where "os = plugin_options (if ps = [] then [] else js_sort (\<lambda>p q. natural (pl_fullName p) (pl_fullName q)) ps)"
  let ?v = "ss_selectedPlugin s"
  have vals: "op_value ` set os - {separator_text} = ({''enabled'', ''all''} \<union> pl_name ` {p \<in> set ps. pl_enabled p}) - {separator_text}"
    by (auto simp: os_def plugin_options_def Let_def separator_def image_iff filter_empty_conv)
  have first: "first_enabled os = Some 0" "op_value (os ! 0) = ''enabled''" "0 < length os"
    by (auto simp: os_def plugin_options_def Let_def)
  have "select_value (reselect_value ?v (replaceOptions os)) = (if ?v \<in> op_value ` set os then ?v else ''enabled'')"
  proof (cases "?v \<in> op_value ` set os")
    case True
    from select_loop_found [OF True, of 0 "Some 0"] show ?thesis
      using True by (auto simp: select_value_def reselect_value_def replaceOptions_def first)
  next
    case False
    with first show ?thesis
      by (auto simp: select_loop_absent select_value_def reselect_value_def replaceOptions_def)
  qed
  moreover have "ss_selectedPlugin (pluginSelected t) = select_value (ss_pluginList t)" for t
    by (simp add: pluginSelected_def Let_def getSearchCategories_def reselectCategory_def categorySelected_def populateCategorySelect_def)
  moreover have "?v \<in> op_value ` set os \<longleftrightarrow> ?v \<in> {''enabled'', ''all''} \<union> pl_name ` {p \<in> set ps. pl_enabled p}"
    using vals assms by blast
  moreover have "ss_selectedPlugin (plugins_received natural tabs ps s) = select_value (reselect_value ?v (replaceOptions os))"
    by (simp add: plugins_received_def Let_def reselectPlugin_def os_def [symmetric] calculation(2))
  ultimately show ?thesis by presburger
qed

text \<open>
  The categories are read anew only when the chosen value changes, not when the plug-ins do: after
  a first list without plug-ins, the list of categories stays empty when there are some.
\<close>

definition ex_selects :: search_selects where
  "ex_selects = \<lparr>ss_plugins = [], ss_pluginList = replaceOptions [], ss_categoryList = replaceOptions [], ss_selectedPlugin = ''enabled'',
     ss_prevSelectedPlugin = None, ss_selectedCategory = ''All categories'', ss_disabled = False, ss_noPluginsHidden = False,
     ss_noSearchesHidden = True\<rparr>"

lemma new_plugins_no_categories:
  "map op_value (sel_options (ss_categoryList (plugins_received (\<lambda>_ _. 0) 0 ex_plugins (plugins_received (\<lambda>_ _. 0) 0 [] ex_selects)))) = []"
  "map op_value (sel_options (ss_categoryList (plugins_received (\<lambda>_ _. 0) 0 ex_plugins ex_selects))) = [''all'', separator_text, ''books'', ''tv'']"
  by code_simp+

end
