(* ===== verification/RenameFiles.thy ===== *)
theory RenameFiles
  imports JsMisc
begin

text \<open>
  The bulk renaming of a torrent's files (\<open>rename-files.js\<close>): finding the matches of the search in
  the names, expanding the replacement, and the requests that rename. Rows are values here: a row of
  the table that is matched gets its new name in \<open>rr_renamed\<close>.
\<close>

section \<open>Regular expressions\<close>

text \<open>
  A match: where it starts, its groups (the whole match first), and its named groups. A pattern
  finds the first match at or after a position; \<open>exec\<close> of a global pattern goes on from \<open>lastIndex\<close>.
\<close>

record rx_match =
  m_index :: nat
  m_groups :: "string option list"
  m_named :: "(string \<times> string option) list"

type_synonym matcher = "string \<Rightarrow> nat \<Rightarrow> rx_match option"

definition whole :: "rx_match \<Rightarrow> string" where
  "whole m = (case m_groups m of Some w # _ \<Rightarrow> w | _ \<Rightarrow> [])"

definition rx_exec :: "matcher \<Rightarrow> bool \<Rightarrow> string \<Rightarrow> nat \<Rightarrow> rx_match option \<times> nat" where
  "rx_exec rx global s lastIndex =
     (if \<not> global then (rx s 0, lastIndex)
      else if length s < lastIndex then (None, 0)
      else (case rx s lastIndex of None \<Rightarrow> (None, 0) | Some m \<Rightarrow> (Some m, m_index m + length (whole m))))"

text \<open>
  The pattern made of an escaped text matches that text, with \<open>i\<close> whatever the case of its letters
  (ASCII letters here).
\<close>

definition same_text :: "bool \<Rightarrow> string \<Rightarrow> string \<Rightarrow> bool" where
  "same_text ignoreCase s t = (if ignoreCase then toLowerCase s = toLowerCase t else s = t)"

fun literal_from :: "bool \<Rightarrow> string \<Rightarrow> nat \<Rightarrow> string \<Rightarrow> (nat \<times> string) option" where
  "literal_from ic t n [] = (if t = [] then Some (n, []) else None)"
| "literal_from ic t n (c # s) =
     (if length t \<le> length (c # s) \<and> same_text ic t (take (length t) (c # s)) then Some (n, take (length t) (c # s))
      else literal_from ic t (Suc n) s)"

definition standardSearch :: "bool \<Rightarrow> string \<Rightarrow> matcher" where
  "standardSearch ic t s i =
     map_option (\<lambda>(n, w). \<lparr>m_index = n, m_groups = [Some w], m_named = []\<rparr>) (literal_from ic t i (drop i s))"

section \<open>Finding and replacing\<close>

text \<open>At most 250 matches; one that does not move \<open>lastIndex\<close> is the last.\<close>

fun find_loop :: "matcher \<Rightarrow> bool \<Rightarrow> string \<Rightarrow> nat \<Rightarrow> nat \<Rightarrow> rx_match list" where
  "find_loop rx global s 0 lastIndex = []"
| "find_loop rx global s (Suc n) lastIndex =
     (case rx_exec rx global s lastIndex of
        (None, _) \<Rightarrow> []
      | (Some m, i) \<Rightarrow> m # (if i = lastIndex then [] else if global then find_loop rx global s n i else []))"

definition findMatches :: "matcher \<Rightarrow> bool \<Rightarrow> string \<Rightarrow> rx_match list" where
  "findMatches rx global s = find_loop rx global s 250 0"

definition replaceBetween :: "string \<Rightarrow> nat \<Rightarrow> nat \<Rightarrow> string \<Rightarrow> string" where
  "replaceBetween s start stop r = take start s @ r @ drop stop s"

text \<open>
  \<open>replaceGroup\<close> for a search that starts with a dollar, as all do. The escape character before the
  search keeps the search, and is itself dropped when \<open>stripEscape\<close> says so.
\<close>

function replaceGroup :: "string \<Rightarrow> string \<Rightarrow> string \<Rightarrow> char \<Rightarrow> bool \<Rightarrow> string" where
  "replaceGroup [] name r esc strip = []"
| "replaceGroup (c # s) name r esc strip =
     (if c = esc
      then (if prefix (CHR ''$'' # name) s
            then (if strip then CHR ''$'' # name else c # CHR ''$'' # name) @ replaceGroup (drop (Suc (length name)) s) name r esc strip
            else c # replaceGroup s name r esc strip)
      else if prefix (CHR ''$'' # name) (c # s) then r @ replaceGroup (drop (length name) s) name r esc strip
      else c # replaceGroup s name r esc strip)"
  by pat_completeness auto
termination
  by (relation "measure (\<lambda>(s, _). length s)") auto

definition padStart :: "nat \<Rightarrow> string \<Rightarrow> string" where
  "padStart n s = replicate (n - length s) (CHR ''0'') @ s"

definition BACKSLASH :: char where
  "BACKSLASH = CHR 92"

text \<open>The groups by their numbers, the named groups, the running number, and what dollars are left.\<close>

definition expand_numbered :: "string option list \<Rightarrow> string \<Rightarrow> string" where
  "expand_numbered groups r =
     foldl (\<lambda>r (g, group). case group of None \<Rightarrow> r | Some t \<Rightarrow> if t = [] then r else replaceGroup r (nat_str g) t BACKSLASH False)
       r (enumerate 0 groups)"

definition expand_named :: "(string \<times> string option) list \<Rightarrow> string \<Rightarrow> string" where
  "expand_named groups r =
     foldl (\<lambda>r (name, group). replaceGroup r name (case group of None \<Rightarrow> ''undefined'' | Some t \<Rightarrow> t) BACKSLASH False) r groups"

definition expand_counter :: "rat \<Rightarrow> string \<Rightarrow> string" where
  "expand_counter fileEnumeration r =
     foldl (\<lambda>r n. replaceGroup r (replicate n (CHR ''d'')) (padStart n (js_num_str fileEnumeration)) BACKSLASH False)
       r (rev [1..<9])"

definition expand :: "rat \<Rightarrow> string \<Rightarrow> rx_match \<Rightarrow> string" where
  "expand fileEnumeration r m =
     replaceGroup (expand_counter fileEnumeration (expand_named (m_named m) (expand_numbered (m_groups m) r))) [] [] BACKSLASH True"

text \<open>The matches are replaced from the last to the first, so that the places of those before stay right.\<close>

definition replace_matches :: "rat \<Rightarrow> string \<Rightarrow> nat \<Rightarrow> rx_match list \<Rightarrow> string \<Rightarrow> string" where
  "replace_matches fileEnumeration r offset ms s =
     foldr (\<lambda>m s. replaceBetween s (m_index m + offset) (m_index m + offset + length (whole m)) (expand fileEnumeration r m)) ms s"

section \<open>The renamer\<close>

datatype applies_to = FilenameExtension | Filename | Extension

record rename_row =
  rr_path :: string
  rr_original :: string
  rr_renamed :: string
  rr_isFolder :: bool

record rename_files =
  rf_hash :: string
  rf_selectedFiles :: "rename_row list"
  rf_matchedFiles :: "rename_row list"
  rf_search :: string
  rf_useRegex :: bool
  rf_matchAll :: bool
  rf_caseSensitive :: bool
  rf_replacement :: string
  rf_appliesTo :: applies_to
  rf_includeFiles :: bool
  rf_includeFolders :: bool
  rf_replaceAll :: bool
  rf_start :: rat

text \<open>The name without its extension, and the extension with its dot.\<close>

definition dot_extension :: "string \<Rightarrow> string" where
  "dot_extension original = (let e = fileExtension original in if e = [] then [] else CHR ''.'' # e)"

fun lastIndexOf_text :: "string \<Rightarrow> string \<Rightarrow> nat option" where
  "lastIndexOf_text t [] = (if t = [] then Some 0 else None)"
| "lastIndexOf_text t (c # s) =
     (case lastIndexOf_text t s of Some n \<Rightarrow> Some (Suc n) | None \<Rightarrow> if prefix t (c # s) then Some 0 else None)"

text \<open>\<open>slice(0, n)\<close>; where nothing is found \<open>n\<close> is -1, which cuts off the last character.\<close>

definition stem :: "string \<Rightarrow> string" where
  "stem original =
     (case lastIndexOf_text (dot_extension original) original of Some n \<Rightarrow> take n original | None \<Rightarrow> butlast original)"

definition searched_part :: "applies_to \<Rightarrow> string \<Rightarrow> nat \<times> string" where
  "searched_part a original =
     (case a of
        FilenameExtension \<Rightarrow> (0, stem original @ dot_extension original)
      | Filename \<Rightarrow> (0, stem original)
      | Extension \<Rightarrow> (length (stem original), dot_extension original))"

text \<open>The new name of a row, when something in it matches.\<close>

definition rename_row_to :: "matcher \<Rightarrow> rename_files \<Rightarrow> rat \<Rightarrow> rename_row \<Rightarrow> string option" where
  "rename_row_to rx rf fileEnumeration row =
     (if (\<not> rr_isFolder row \<and> \<not> rf_includeFiles rf) \<or> (rr_isFolder row \<and> \<not> rf_includeFolders rf) then None
      else (case searched_part (rf_appliesTo rf) (rr_original row) of
          (offset, part) \<Rightarrow>
            (case findMatches rx (rf_matchAll rf) part of
               [] \<Rightarrow> None
             | ms \<Rightarrow> Some (replace_matches fileEnumeration (rf_replacement rf) offset ms (rr_original row)))))"

text \<open>The rows with their new names, each with whether it matched.\<close>

fun match_rows :: "matcher \<Rightarrow> rename_files \<Rightarrow> rat \<Rightarrow> rename_row list \<Rightarrow> (rename_row \<times> bool) list" where
  "match_rows rx rf fileEnumeration [] = []"
| "match_rows rx rf fileEnumeration (row # rows) =
     (case rename_row_to rx rf fileEnumeration row of
        None \<Rightarrow> (row, False) # match_rows rx rf fileEnumeration rows
      | Some renamed \<Rightarrow> (row\<lparr>rr_renamed := renamed\<rparr>, True) # match_rows rx rf (fileEnumeration + 1) rows)"

text \<open>
  \<open>compile\<close> makes a pattern of a text and whether case is ignored, \<open>None\<close> being its exception. The
  second result tells whether \<open>onInvalidRegex\<close> was called.
\<close>

definition inner_update :: "(string \<Rightarrow> bool \<Rightarrow> matcher option) \<Rightarrow> rename_files \<Rightarrow> rename_files \<times> bool" where
  "inner_update compile rf =
     (let rf = rf\<lparr>rf_matchedFiles := []\<rparr>;
          ic = \<not> rf_caseSensitive rf
      in if rf_search rf = [] then (rf, False)
         else (case (if rf_useRegex rf then compile (rf_search rf) ic else Some (standardSearch ic (rf_search rf))) of
                 None \<Rightarrow> (rf, True)
               | Some rx \<Rightarrow>
                   let rs = match_rows rx rf (rf_start rf) (rf_selectedFiles rf)
                   in (rf\<lparr>rf_selectedFiles := map fst rs, rf_matchedFiles := map fst (filter snd rs)\<rparr>, False)))"

definition setSearch :: "(string \<Rightarrow> bool \<Rightarrow> matcher option) \<Rightarrow> string \<Rightarrow> rename_files \<Rightarrow> rename_files \<times> bool" where
  "setSearch compile val rf = inner_update compile (rf\<lparr>rf_search := val\<rparr>)"

definition setReplacement :: "(string \<Rightarrow> bool \<Rightarrow> matcher option) \<Rightarrow> string \<Rightarrow> rename_files \<Rightarrow> rename_files \<times> bool" where
  "setReplacement compile val rf = inner_update compile (rf\<lparr>rf_replacement := val\<rparr>)"

section \<open>The requests\<close>

record rename_request =
  rq_folder :: bool
  rq_oldPath :: string
  rq_newPath :: string

definition in_folder :: "string \<Rightarrow> string \<Rightarrow> string" where
  "in_folder parentPath name = (if parentPath \<noteq> [] then parentPath @ PathSeparator # name else name)"

definition rename_request_of :: "rename_row \<Rightarrow> rename_request option" where
  "rename_request_of row =
     (if rr_renamed row = rr_original row then None
      else let parentPath = folderName (rr_path row)
        in Some \<lparr>rq_folder = rr_isFolder row, rq_oldPath = in_folder parentPath (rr_original row),
                 rq_newPath = in_folder parentPath (rr_renamed row)\<rparr>)"

text \<open>
  All rows from the last to the first, or the first alone; each request is sent after the answer to
  the one before. \<open>fetched\<close> tells which requests got an answer, of whatever status.
\<close>

definition rename_order :: "rename_files \<Rightarrow> rename_row list" where
  "rename_order rf =
     (if rf_matchedFiles rf = [] \<or> rf_hash rf = [] then []
      else if rf_replaceAll rf then rev (rf_matchedFiles rf) else [hd (rf_matchedFiles rf)])"

definition rename_requests :: "rename_files \<Rightarrow> rename_request list" where
  "rename_requests rf = List.map_filter rename_request_of (rename_order rf)"

definition renamed_rows :: "(rename_request \<Rightarrow> bool) \<Rightarrow> rename_files \<Rightarrow> rename_row list" where
  "renamed_rows fetched rf =
     filter (\<lambda>row. case rename_request_of row of None \<Rightarrow> False | Some q \<Rightarrow> fetched q) (rename_order rf)"

section \<open>The parts of a name\<close>

lemma lastIndexOf_text_found:
  "lastIndexOf_text t s = Some n \<Longrightarrow> n \<le> length s \<and> prefix t (drop n s)"
  by (induction s arbitrary: n) (auto split: option.splits if_splits)

lemma lastIndexOf_text_longest: "prefix t (drop n s) \<Longrightarrow> n \<le> length s \<Longrightarrow> \<exists>m \<ge> n. lastIndexOf_text t s = Some m"
proof (induction s arbitrary: n)
  case (Cons c s)
  show ?case
  proof (cases n)
    case 0
    with Cons.prems show ?thesis by (cases "lastIndexOf_text t s") auto
  next
    case (Suc k)
    with Cons.IH [of k] Cons.prems show ?thesis by auto
  qed
qed simp

lemma dot_extension_split:
  obtains x where "original = x @ dot_extension original"
proof (cases "fileExtension original = []")
  case True
  then show ?thesis using that [of original] by (simp add: dot_extension_def)
next
  case False
  then have "CHR ''.'' \<in> set original"
    by (auto simp: fileExtension_def Let_def lastIndexOf_none split: if_splits)
  then obtain a b where ab: "original = a @ CHR ''.'' # b" "CHR ''.'' \<notin> set b" using split_last_sep by metis
  then have "fileExtension original = b"
    by (simp add: fileExtension_def Let_def lastIndexOf_last substring_from_def nat_add_distrib)
  with False ab that [of a] show ?thesis by (simp add: dot_extension_def)
qed

lemma stem_extension [simp]: "stem original @ dot_extension original = original"
proof -
  obtain x where x: "original = x @ dot_extension original" by (rule dot_extension_split)
  let ?e = "dot_extension original"
  have at: "drop (length x) original = ?e" by (subst x) simp
  then obtain m where m: "length x \<le> m" "lastIndexOf_text ?e original = Some m"
    using lastIndexOf_text_longest [of ?e "length x" original] x by (metis le_add1 length_append prefix_order.refl)
  from lastIndexOf_text_found [OF m(2)] have "m \<le> length original" "length ?e \<le> length original - m"
    using prefix_length_le by fastforce+
  moreover have "length original = length x + length ?e" using x by (metis length_append)
  ultimately have "m = length x" using m(1) by linarith
  with m(2) at show ?thesis by (simp add: stem_def) (metis append_take_drop_id)
qed

lemma searched_part_place:
  assumes part: "searched_part a original = (offset, part)"
  shows "original = take offset original @ part @ drop (offset + length part) original" "offset \<le> length original"
proof -
  obtain x y where s: "original = x @ y" "x = stem original" "y = dot_extension original" using stem_extension by metis
  then have "offset = 0 \<and> (part = x @ y \<or> part = x) \<or> offset = length x \<and> part = y"
    using part by (cases a) (auto simp: searched_part_def)
  with s(1) show "original = take offset original @ part @ drop (offset + length part) original" "offset \<le> length original"
    by auto
qed

section \<open>Replacing matches in place\<close>

text \<open>Matches that follow one another, and the text with all of them replaced at once.\<close>

fun in_order :: "nat \<Rightarrow> rx_match list \<Rightarrow> nat \<Rightarrow> bool" where
  "in_order pos [] n \<longleftrightarrow> pos \<le> n"
| "in_order pos (m # ms) n \<longleftrightarrow> pos \<le> m_index m \<and> in_order (m_index m + length (whole m)) ms n"

fun splice :: "(rx_match \<Rightarrow> string) \<Rightarrow> nat \<Rightarrow> rx_match list \<Rightarrow> string \<Rightarrow> string" where
  "splice f pos [] s = drop pos s"
| "splice f pos (m # ms) s =
     take (m_index m - pos) (drop pos s) @ f m @ splice f (m_index m + length (whole m)) ms s"

lemma in_order_le: "in_order pos ms n \<Longrightarrow> pos \<le> n"
  by (induction pos ms n rule: in_order.induct) auto

lemma replace_in_order:
  assumes "in_order pos ms (length part)" and "length pre = offset"
  shows "foldr (\<lambda>m s. replaceBetween s (m_index m + offset) (m_index m + offset + length (whole m)) (f m)) ms (pre @ part @ post)
    = pre @ take pos part @ splice f pos ms part @ post"
  using assms(1)
proof (induction ms arbitrary: pos)
  case Nil
  then show ?case by (simp flip: append_assoc)
next
  case (Cons m ms)
  let ?a = "m_index m" and ?e = "m_index m + length (whole m)"
  have e: "?e \<le> length part" "pos \<le> ?a" using Cons.prems in_order_le by auto
  from Cons.IH [of ?e] Cons.prems
  have "foldr (\<lambda>m s. replaceBetween s (m_index m + offset) (m_index m + offset + length (whole m)) (f m)) (m # ms) (pre @ part @ post)
    = replaceBetween (pre @ take ?e part @ splice f ?e ms part @ post) (?a + offset) (?e + offset) (f m)"
    by (simp add: ac_simps)
  also have "\<dots> = pre @ take ?a part @ f m @ splice f ?e ms part @ post"
    using e assms(2) by (simp add: replaceBetween_def min_def)
  also have "take ?a part = take pos part @ take (?a - pos) (drop pos part)"
    using e(2) by (metis le_add_diff_inverse take_add)
  finally show ?case by simp
qed

text \<open>A pattern that finds what is there, at or after the position asked for.\<close>

definition proper :: "matcher \<Rightarrow> bool" where
  "proper rx \<longleftrightarrow>
     (\<forall>s i m. i \<le> length s \<longrightarrow> rx s i = Some m \<longrightarrow>
        i \<le> m_index m \<and> m_index m + length (whole m) \<le> length s \<and> take (length (whole m)) (drop (m_index m) s) = whole m)"

lemma find_loop_in_order:
  assumes "proper rx"
  shows "i \<le> length s \<Longrightarrow> (global \<or> i = 0) \<Longrightarrow> in_order i (find_loop rx global s n i) (length s)"
proof (induction n arbitrary: i)
  case (Suc n)
  show ?case
  proof (cases "rx s i")
    case None
    with Suc.prems show ?thesis by (auto simp: rx_exec_def)
  next
    case (Some m)
    with assms Suc.prems have "i \<le> m_index m" "m_index m + length (whole m) \<le> length s"
      unfolding proper_def by blast+
    with Some Suc.IH [of "m_index m + length (whole m)"] Suc.prems show ?thesis by (auto simp: rx_exec_def)
  qed
qed simp

lemma findMatches_in_order: "proper rx \<Longrightarrow> in_order 0 (findMatches rx global s) (length s)"
  unfolding findMatches_def by (rule find_loop_in_order) simp_all

text \<open>
  C18: A row that matches gets the name in which every match in the searched part is replaced at once by its own
  expansion of the replacement, whatever the replacements before it did to the length; the
  rest of the name stays.
\<close>

theorem rename_replaces_matches:
  assumes "proper rx" and "rename_row_to rx rf n row = Some new"
    and "searched_part (rf_appliesTo rf) (rr_original row) = (offset, part)"
  shows "new = take offset (rr_original row)
     @ splice (expand n (rf_replacement rf)) 0 (findMatches rx (rf_matchAll rf) part) part
     @ drop (offset + length part) (rr_original row)"
proof -
  let ?s = "rr_original row"
  have s: "?s = take offset ?s @ part @ drop (offset + length part) ?s" by (rule searched_part_place(1) [OF assms(3)])
  from searched_part_place(2) [OF assms(3)]
  have len: "length (take offset ?s) = offset" by simp
  have "new = replace_matches n (rf_replacement rf) offset (findMatches rx (rf_matchAll rf) part) ?s"
    using assms(2,3) by (auto simp: rename_row_to_def split: if_splits list.splits)
  also have "\<dots> = replace_matches n (rf_replacement rf) offset (findMatches rx (rf_matchAll rf) part)
      (take offset ?s @ part @ drop (offset + length part) ?s)"
    by (rule arg_cong [OF s])
  also have "\<dots> = take offset ?s @ splice (expand n (rf_replacement rf)) 0 (findMatches rx (rf_matchAll rf) part) part
      @ drop (offset + length part) ?s"
    unfolding replace_matches_def using replace_in_order [OF findMatches_in_order [OF assms(1)] len] by simp
  finally show ?thesis .
qed

section \<open>The standard search\<close>

lemma literal_from_found:
  "literal_from ic t n s = Some (k, w) \<Longrightarrow>
     n \<le> k \<and> length w = length t \<and> k - n + length t \<le> length s \<and> w = take (length t) (drop (k - n) s) \<and> same_text ic t w"
proof (induction ic t n s rule: literal_from.induct)
  case (2 ic t n c s)
  show ?case
  proof (cases "length t \<le> length (c # s) \<and> same_text ic t (take (length t) (c # s))")
    case True
    with 2(2) show ?thesis by auto
  next
    case False
    with 2(2) have "literal_from ic t (Suc n) s = Some (k, w)" by (simp only: literal_from.simps if_False)
    from 2(1) [OF False this] show ?thesis by (auto simp: Suc_diff_le drop_Cons' dest: Suc_le_lessD)
  qed
qed (auto simp: same_text_def split: if_splits)

lemma proper_standardSearch: "proper (standardSearch ic t)"
  unfolding proper_def
proof (intro allI impI)
  fix s i m
  assume "i \<le> length s" "standardSearch ic t s i = Some m"
  then obtain n w where m: "m = \<lparr>m_index = n, m_groups = [Some w], m_named = []\<rparr>" "literal_from ic t i (drop i s) = Some (n, w)"
    by (auto simp: standardSearch_def)
  from literal_from_found [OF m(2)] \<open>i \<le> length s\<close>
  have w: "i \<le> n" "length w = length t" "n + length t \<le> length s" "take (length t) (drop n s) = w" by auto
  then show
    "i \<le> m_index m \<and> m_index m + length (whole m) \<le> length s \<and> take (length (whole m)) (drop (m_index m) s) = whole m"
    by (simp add: m(1) whole_def)
qed

lemma rename_replaces_matches_ex:
  "rename_row_to (standardSearch True ''ab'')
     \<lparr>rf_hash = ''h'', rf_selectedFiles = [], rf_matchedFiles = [], rf_search = ''ab'', rf_useRegex = False, rf_matchAll = True,
      rf_caseSensitive = False, rf_replacement = ''<$0$ddd>'', rf_appliesTo = Filename, rf_includeFiles = True, rf_includeFolders = False,
      rf_replaceAll = True, rf_start = 7\<rparr> 7 \<lparr>rr_path = ''x/ABcab.ab'', rr_original = ''ABcab.ab'', rr_renamed = [], rr_isFolder = False\<rparr>
   = Some ''<AB007>c<ab007>.ab''"
  by code_simp

section \<open>Plain replacements\<close>

definition plain :: "string \<Rightarrow> bool" where
  "plain r \<longleftrightarrow> CHR ''$'' \<notin> set r \<and> BACKSLASH \<notin> set r"

lemma replaceGroup_plain: "plain r \<Longrightarrow> replaceGroup r name t BACKSLASH strip = r"
  by (induction r) (auto simp: plain_def)

lemma foldl_id: "(\<And>x. x \<in> set xs \<Longrightarrow> f r x = r) \<Longrightarrow> foldl f r xs = r"
  by (induction xs) auto

lemma expand_plain: "plain r \<Longrightarrow> expand n r m = r"
  by (simp add: expand_def expand_numbered_def expand_named_def expand_counter_def)
    (subst foldl_id | auto simp: replaceGroup_plain split: option.split)+

text \<open>Splitting at the search gives the texts between its occurrences.\<close>

lemma literal_split:
  assumes "t \<noteq> []"
  shows "split_go t acc s =
     (case literal_from False t n s of
        None \<Rightarrow> [rev acc @ s]
      | Some (k, w) \<Rightarrow> (rev acc @ take (k - n) s) # js_split t (drop (k - n + length t) s))"
proof (induction s arbitrary: acc n)
  case (Cons c s)
  show ?case
  proof (cases "prefix t (c # s)")
    case True
    then have "length t \<le> length (c # s)" "take (length t) (c # s) = t"
      using prefix_length_le [OF True] by (simp, metis append_eq_conv_conj prefixE)
    with True assms show ?thesis by (simp add: split_go_Cons js_split_def same_text_def)
  next
    case False
    then have "take (length t) (c # s) \<noteq> t" by (metis take_is_prefix)
    then have next_pos: "literal_from False t n (c # s) = literal_from False t (Suc n) s" by (auto simp: same_text_def)
    show ?thesis
    proof (cases "literal_from False t (Suc n) s")
      case None
      then show ?thesis unfolding next_pos using False Cons [of "c # acc" "Suc n"] by (simp add: split_go_Cons)
    next
      case (Some kw)
      obtain k w where kw: "kw = (k, w)" by fastforce
      with literal_from_found [of False t "Suc n" s k w] Some have "k - n = Suc (k - Suc n)" by auto
      with Some kw show ?thesis unfolding next_pos using False Cons [of "c # acc" "Suc n"] by (simp add: split_go_Cons)
    qed
  qed
qed (use assms in simp)

lemma splice_standard:
  assumes "t \<noteq> []"
  shows "length (js_split t (drop i s)) \<le> Suc n \<Longrightarrow> i \<le> length s \<Longrightarrow>
    splice (\<lambda>m. r) i (find_loop (standardSearch False t) True s n i) s = js_join r (js_split t (drop i s))"
proof (induction n arbitrary: i)
  case 0
  then obtain x where "js_split t (drop i s) = [x]" by (cases "js_split t (drop i s)") auto
  then have "js_split t (drop i s) = [drop i s]" using js_join_split [of t "drop i s"] by simp
  then show ?case by simp
next
  case (Suc n)
  note split = literal_split [OF assms, of "[]" "drop i s" i, folded js_split_def]
  show ?case
  proof (cases "literal_from False t i (drop i s)")
    case None
    with split Suc.prems show ?thesis by (simp add: rx_exec_def standardSearch_def)
  next
    case (Some kw)
    obtain k w where kw: "literal_from False t i (drop i s) = Some (k, w)" using Some by fastforce
    from literal_from_found [OF this] Suc.prems(2) have k: "i \<le> k" "length w = length t" "k + length t \<le> length s" by auto
    let ?j = "k + length t"
    have js: "js_split t (drop i s) = take (k - i) (drop i s) # js_split t (drop ?j s)"
      using split kw k(1) by simp
    have "?j \<noteq> i" using k(1) assms length_greater_0_conv [of t] by linarith
    then have loop: "find_loop (standardSearch False t) True s (Suc n) i
        = \<lparr>m_index = k, m_groups = [Some w], m_named = []\<rparr> # find_loop (standardSearch False t) True s n ?j"
      using kw k(2) Suc.prems(2) by (simp add: rx_exec_def standardSearch_def whole_def)
    have "length (js_split t (drop ?j s)) \<le> Suc n" using Suc.prems(1) js by simp
    from Suc.IH [OF this] k(2,3) show ?thesis
      unfolding loop js by (simp add: js_join_Cons whole_def)
  qed
qed

text \<open>
  C17: The plain case: replacing all occurrences of a text, with its case, by one without dollars and
  backslashes, in the whole name, is what splitting at the text and joining with the replacement
  gives, as long as there are at most 250 occurrences.
\<close>

theorem plain_rename_joins:
  assumes "rf_appliesTo rf = FilenameExtension" and "rf_matchAll rf" and "t \<noteq> []" and "plain (rf_replacement rf)"
    and "length (js_split t (rr_original row)) \<le> 251"
    and "rename_row_to (standardSearch False t) rf n row = Some new"
  shows "new = js_join (rf_replacement rf) (js_split t (rr_original row))"
proof -
  have part: "searched_part (rf_appliesTo rf) (rr_original row) = (0, rr_original row)"
    using assms(1) by (simp add: searched_part_def)
  have "new = replace_matches n (rf_replacement rf) 0 (findMatches (standardSearch False t) True (rr_original row)) (rr_original row)"
    using assms(2,6) part by (auto simp: rename_row_to_def split: if_splits list.splits)
  also have "\<dots> = splice (\<lambda>m. rf_replacement rf) 0 (findMatches (standardSearch False t) True (rr_original row)) (rr_original row)"
    using replace_in_order [OF findMatches_in_order [OF proper_standardSearch], where pre = "[]" and offset = 0 and post = "[]"]
    by (simp add: replace_matches_def expand_plain [OF assms(4)])
  also have "\<dots> = js_join (rf_replacement rf) (js_split t (rr_original row))"
    using splice_standard [OF assms(3), of 0 "rr_original row" 250] assms(5) by (simp add: findMatches_def)
  finally show ?thesis .
qed

definition ex_renamer :: rename_files where
  "ex_renamer = \<lparr>rf_hash = ''h'', rf_selectedFiles = [], rf_matchedFiles = [], rf_search = ''.'', rf_useRegex = False, rf_matchAll = True,
     rf_caseSensitive = True, rf_replacement = ''_'', rf_appliesTo = FilenameExtension, rf_includeFiles = True, rf_includeFolders = True,
     rf_replaceAll = True, rf_start = 0\<rparr>"

definition ex_row :: "string \<Rightarrow> rename_row" where
  "ex_row name = \<lparr>rr_path = ''d/'' @ name, rr_original = name, rr_renamed = [], rr_isFolder = False\<rparr>"

theorem plain_rename_joins_witness:
  "rename_row_to (standardSearch False ''.'') ex_renamer 0 (ex_row ''a.b.c'') = Some ''a_b_c''
    \<and> js_join ''_'' (js_split ''.'' ''a.b.c'') = ''a_b_c''"
proof -
  have new: "rename_row_to (standardSearch False ''.'') ex_renamer 0 (ex_row ''a.b.c'') = Some ''a_b_c''" by code_simp
  have "plain (rf_replacement ex_renamer)" "length (js_split ''.'' (rr_original (ex_row ''a.b.c''))) \<le> 251" by code_simp+
  from plain_rename_joins [OF _ _ _ this new] new show ?thesis by (simp add: ex_renamer_def ex_row_def)
qed

theorem rename_replaces_matches_witness:
  "rename_row_to (standardSearch True ''B'') (ex_renamer\<lparr>rf_appliesTo := Extension, rf_replacement := ''<$0$dd>''\<rparr>) 3 (ex_row ''b.abB'')
     = Some ''b.a<b03><B03>''
   \<and> take 1 ''b.abB'' @ splice (expand 3 ''<$0$dd>'') 0 (findMatches (standardSearch True ''B'') True ''.abB'') ''.abB'' @ [] = ''b.a<b03><B03>''"
proof -
  let ?rf = "ex_renamer\<lparr>rf_appliesTo := Extension, rf_replacement := ''<$0$dd>''\<rparr>"
  have new: "rename_row_to (standardSearch True ''B'') ?rf 3 (ex_row ''b.abB'') = Some ''b.a<b03><B03>''"
    "searched_part (rf_appliesTo ?rf) (rr_original (ex_row ''b.abB'')) = (1, ''.abB'')" by code_simp+
  from rename_replaces_matches [OF proper_standardSearch new] new(1) show ?thesis by (simp add: ex_renamer_def ex_row_def)
qed

section \<open>Replacements that go wrong\<close>

text \<open>A pattern with eleven groups, of which the last is \<open>$10\<close>; one with an empty group; one with a named group that took no part.\<close>

definition ex_match :: "string option list \<Rightarrow> (string \<times> string option) list \<Rightarrow> rx_match" where
  "ex_match groups named = \<lparr>m_index = 0, m_groups = groups, m_named = named\<rparr>"

text \<open>
  \<open>$10\<close> is the first group and a zero; an empty group leaves its number; a named group that took no
  part is the word "undefined"; a dollar of the name itself, put in for a group, is dropped, or
  taken for another variable.
\<close>

lemma tenth_group_unreachable:
  "expand 0 ''$10'' (ex_match (Some ''abcdefghij'' # map (\<lambda>c. Some [c]) ''abcdefghij'') []) = ''a0''"
  by code_simp

lemma empty_group_leaves_number: "expand 0 ''x$1'' (ex_match [Some ''b'', Some []] []) = ''x1''"
  by code_simp

lemma absent_group_undefined: "expand 0 ''x$year'' (ex_match [Some ''b''] [(''year'', None)]) = ''xundefined''"
  by code_simp

lemma dollar_of_name_lost:
  "expand 5 ''$0'' (ex_match [Some ''100$''] []) = ''100''" "expand 5 ''$0'' (ex_match [Some ''a$d''] []) = ''a5''"
  by code_simp+

end
