(* ===== verification/FileStorage.thy ===== *)
theory FileStorage
  imports RenameFiles
begin

text \<open>
  Renaming on the server: the actions \<open>renameFile\<close> and \<open>renameFolder\<close> of \<open>torrentscontroller.cpp\<close>,
  the checks of \<open>abstractfilestorage.cpp\<close> over the paths of \<open>path.cpp\<close>, and the paths that a torrent
  holds until libtorrent reports a rename done (\<open>torrentimpl.cpp\<close>). Paths are those of Unix; a
  text is its encoding.
\<close>

section \<open>Paths\<close>

text \<open>\<open>QDir::cleanPath\<close> and \<open>QDir::relativeFilePath\<close>, the latter from a folder to a path.\<close>

record path_lib =
  cleanPath :: "string \<Rightarrow> string"
  relativeFilePath :: "string \<Rightarrow> string \<Rightarrow> string"

definition make_path :: "path_lib \<Rightarrow> string \<Rightarrow> string" where
  "make_path lib s = (if PathSeparator \<in> set s \<or> BACKSLASH \<in> set s then cleanPath lib s else s)"

definition path_valid :: "string \<Rightarrow> bool" where
  "path_valid p \<longleftrightarrow> p \<noteq> [] \<and> CHR 0x00 \<notin> set p"

definition path_absolute :: "string \<Rightarrow> bool" where
  "path_absolute p \<longleftrightarrow> \<not> startsWith p '':'' \<and> startsWith p [PathSeparator]"

definition hasAncestor :: "string \<Rightarrow> string \<Rightarrow> bool" where
  "hasAncestor p ancestor \<longleftrightarrow>
     ancestor \<noteq> [] \<and> length ancestor < length p \<and> p ! length ancestor = PathSeparator \<and> startsWith p ancestor"

definition relativePathOf :: "path_lib \<Rightarrow> string \<Rightarrow> string \<Rightarrow> string" where
  "relativePathOf lib folder child = make_path lib (relativeFilePath lib folder child)"

definition path_append :: "path_lib \<Rightarrow> string \<Rightarrow> string \<Rightarrow> string" where
  "path_append lib l r = (if r = [] then l else if l = [] then r else make_path lib (l @ PathSeparator # r))"

definition parentPath :: "string \<Rightarrow> string" where
  "parentPath p =
     (let slashIndex = lastIndexOf PathSeparator p
      in if slashIndex = -1 then []
         else if slashIndex = 0 then (if length p = 1 then [] else [PathSeparator])
         else take (nat slashIndex) p)"

definition path_filename :: "string \<Rightarrow> string" where
  "path_filename p =
     (let slashIndex = lastIndexOf PathSeparator p
      in if slashIndex = -1 then p else drop (nat (slashIndex + 1)) p)"

definition hasExtension :: "string \<Rightarrow> string \<Rightarrow> bool" where
  "hasExtension p ext \<longleftrightarrow> endsWith (toLowerCase p) (toLowerCase ext)"

definition removedExtension :: "string \<Rightarrow> string \<Rightarrow> string" where
  "removedExtension p ext = (if hasExtension p ext then take (length p - length ext) p else p)"

definition isValidName :: "string \<Rightarrow> bool" where
  "isValidName name \<longleftrightarrow> name \<noteq> [] \<and> name \<noteq> ''.'' \<and> name \<noteq> ''..'' \<and> length name \<le> 255
     \<and> list_all (\<lambda>c. 32 \<le> (of_char c :: nat) \<and> (of_char c :: nat) \<noteq> 127 \<and> c \<noteq> PathSeparator) name"

section \<open>The files of a torrent\<close>

text \<open>
  The paths as the torrent holds them, what it knows of its files, and the renames that libtorrent has
  not done yet. On the disk a file may have another path: the extension ".!qB" while it is not complete,
  the folder ".unwanted" when it is not to be downloaded, if the session is set so.
\<close>

record stored_file =
  sf_size :: int
  sf_completed :: bool
  sf_ignored :: bool

record file_storage =
  st_filePaths :: "string list"
  st_files :: "stored_file list"
  st_appendExtension :: bool
  st_unwantedFolder :: bool
  st_renames :: "(nat \<times> string) list"

datatype storage_error = InvalidPath | AbsolutePath | AlreadyExists | NoSuchItem | BadName

definition QB_EXT :: string where
  "QB_EXT = ''.!qB''"

definition UNWANTED_FOLDER_NAME :: string where
  "UNWANTED_FOLDER_NAME = ''.unwanted''"

definition makeActualPath :: "path_lib \<Rightarrow> file_storage \<Rightarrow> nat \<Rightarrow> string \<Rightarrow> string" where
  "makeActualPath lib s i path =
     (let f = st_files s ! i;
          actualPath = (if st_appendExtension s \<and> 0 < sf_size f \<and> \<not> sf_completed f then make_path lib (path @ QB_EXT) else path)
      in if st_unwantedFolder s \<and> sf_ignored f
         then path_append lib (path_append lib (parentPath actualPath) UNWANTED_FOLDER_NAME) (make_path lib (path_filename actualPath))
         else actualPath)"

definition makeUserPath :: "path_lib \<Rightarrow> string \<Rightarrow> string" where
  "makeUserPath lib path =
     (let userPath = removedExtension path QB_EXT;
          parentRelPath = parentPath userPath
      in if path_filename parentRelPath = UNWANTED_FOLDER_NAME
         then path_append lib (parentPath parentRelPath) (make_path lib (path_filename userPath))
         else userPath)"

definition doRenameFile :: "nat \<Rightarrow> string \<Rightarrow> file_storage \<Rightarrow> file_storage" where
  "doRenameFile i path s = (if i < length (st_files s) then s\<lparr>st_renames := st_renames s @ [(i, path)]\<rparr> else s)"

definition renameFile_at :: "path_lib \<Rightarrow> nat \<Rightarrow> string \<Rightarrow> file_storage \<Rightarrow> file_storage" where
  "renameFile_at lib i path s = (if i < length (st_filePaths s) then doRenameFile i (makeActualPath lib s i path) s else s)"

text \<open>libtorrent reports the first rename done; then all of them. The folders that this leaves empty on the disk
  are not modelled.\<close>

definition handleFileRenamed :: "path_lib \<Rightarrow> file_storage \<Rightarrow> file_storage" where
  "handleFileRenamed lib s =
     (case st_renames s of
        [] \<Rightarrow> s
      | (i, newActualFilePath) # qs \<Rightarrow>
          (let newFilePath = makeUserPath lib newActualFilePath;
               s = s\<lparr>st_renames := qs\<rparr>
           in if st_filePaths s ! i = newFilePath then s else s\<lparr>st_filePaths := (st_filePaths s)[i := newFilePath]\<rparr>))"

definition all_renamed :: "path_lib \<Rightarrow> file_storage \<Rightarrow> file_storage" where
  "all_renamed lib s = (handleFileRenamed lib ^^ length (st_renames s)) s"

definition check_paths :: "string \<Rightarrow> string \<Rightarrow> storage_error option" where
  "check_paths oldPath newPath =
     (if \<not> path_valid oldPath \<or> \<not> path_valid newPath then Some InvalidPath
      else if path_absolute newPath then Some AbsolutePath else None)"

fun scan_file :: "string \<Rightarrow> string \<Rightarrow> nat \<Rightarrow> nat option \<Rightarrow> string list \<Rightarrow> storage_error + nat option" where
  "scan_file oldPath newPath i found [] = Inr found"
| "scan_file oldPath newPath i found (p # ps) =
     (if found = None \<and> p = oldPath then scan_file oldPath newPath (Suc i) (Some i) ps
      else if p = newPath then Inl AlreadyExists
      else scan_file oldPath newPath (Suc i) found ps)"

definition renameFile :: "path_lib \<Rightarrow> string \<Rightarrow> string \<Rightarrow> file_storage \<Rightarrow> storage_error + file_storage" where
  "renameFile lib oldPath newPath s =
     (case check_paths oldPath newPath of
        Some e \<Rightarrow> Inl e
      | None \<Rightarrow>
          (case scan_file oldPath newPath 0 None (st_filePaths s) of
             Inl e \<Rightarrow> Inl e
           | Inr None \<Rightarrow> Inl NoSuchItem
           | Inr (Some i) \<Rightarrow> Inr (renameFile_at lib i newPath s)))"

fun scan_folder :: "string \<Rightarrow> string \<Rightarrow> nat \<Rightarrow> string list \<Rightarrow> storage_error + nat list" where
  "scan_folder oldPath newPath i [] = Inr []"
| "scan_folder oldPath newPath i (p # ps) =
     (if hasAncestor p oldPath
      then (case scan_folder oldPath newPath (Suc i) ps of Inl e \<Rightarrow> Inl e | Inr is \<Rightarrow> Inr (i # is))
      else if hasAncestor p newPath then Inl AlreadyExists
      else scan_folder oldPath newPath (Suc i) ps)"

definition renameFolder :: "path_lib \<Rightarrow> string \<Rightarrow> string \<Rightarrow> file_storage \<Rightarrow> storage_error + file_storage" where
  "renameFolder lib oldPath newPath s =
     (case check_paths oldPath newPath of
        Some e \<Rightarrow> Inl e
      | None \<Rightarrow>
          (case scan_folder oldPath newPath 0 (st_filePaths s) of
             Inl e \<Rightarrow> Inl e
           | Inr [] \<Rightarrow> Inl NoSuchItem
           | Inr is \<Rightarrow>
               Inr (foldl (\<lambda>t i. renameFile_at lib i (path_append lib newPath (relativePathOf lib oldPath (st_filePaths s ! i))) t) s is)))"

text \<open>The two actions; the name is checked before the paths. Every error is the status 409.\<close>

definition renameFileAction :: "path_lib \<Rightarrow> string \<Rightarrow> string \<Rightarrow> file_storage \<Rightarrow> storage_error + file_storage" where
  "renameFileAction lib oldPath newPath s =
     (if \<not> isValidName (fileName newPath) then Inl BadName
      else renameFile lib (make_path lib oldPath) (make_path lib newPath) s)"

definition renameFolderAction :: "path_lib \<Rightarrow> string \<Rightarrow> string \<Rightarrow> file_storage \<Rightarrow> storage_error + file_storage" where
  "renameFolderAction lib oldPath newPath s =
     (if \<not> isValidName (fileName newPath) then Inl BadName
      else renameFolder lib (make_path lib oldPath) (make_path lib newPath) s)"

definition serve_rename :: "path_lib \<Rightarrow> rename_request \<Rightarrow> file_storage \<Rightarrow> storage_error + file_storage" where
  "serve_rename lib q s =
     (if rq_folder q then renameFolderAction lib (rq_oldPath q) (rq_newPath q) s
      else renameFileAction lib (rq_oldPath q) (rq_newPath q) s)"

text \<open>
  Requests one after the other, each with whether libtorrent has done the renames before the next
  one comes; a refused request changes nothing. The result has the errors.
\<close>

fun serve_renames :: "path_lib \<Rightarrow> (rename_request \<times> bool) list \<Rightarrow> file_storage \<Rightarrow> file_storage \<times> storage_error list" where
  "serve_renames lib [] s = (s, [])"
| "serve_renames lib ((q, done_before) # qs) s =
     (case serve_rename lib q s of
        Inl e \<Rightarrow> (case serve_renames lib qs s of (t, es) \<Rightarrow> (t, e # es))
      | Inr t \<Rightarrow> serve_renames lib qs (if done_before then all_renamed lib t else t))"

end
