(* ===== verification/RenameFlow.thy ===== *)
theory RenameFlow
  imports FileStorage
begin

text \<open>
  The bulk renaming of the page against the server's files: renaming all matched rows from the last
  to the first gives every file and folder its new name, when renames are done before the next
  request; and an example of what happens when they are not.
\<close>

section \<open>Paths as lists of names\<close>

abbreviation path_str :: "string list \<Rightarrow> string" where
  "path_str \<equiv> js_join [PathSeparator]"

text \<open>
  Names that the user may give and that do not look like the marks of files on the disk; and names that
  \<open>QDir::cleanPath\<close> has nothing to clean of.
\<close>

definition plain_name :: "string \<Rightarrow> bool" where
  "plain_name c \<longleftrightarrow> isValidName c \<and> c \<noteq> UNWANTED_FOLDER_NAME \<and> \<not> hasExtension c QB_EXT"

definition tidy_path :: "string list \<Rightarrow> bool" where
  "tidy_path p \<longleftrightarrow> p \<noteq> [] \<and> list_all (\<lambda>c. c \<noteq> [] \<and> c \<noteq> ''.'' \<and> c \<noteq> ''..'' \<and> PathSeparator \<notin> set c) p"

definition names_ok :: "string list \<Rightarrow> bool" where
  "names_ok p \<longleftrightarrow> p \<noteq> [] \<and> list_all plain_name p"

lemma valid_name: "plain_name c \<Longrightarrow> c \<noteq> [] \<and> PathSeparator \<notin> set c \<and> CHR 0x00 \<notin> set c"
  by (auto simp: plain_name_def isValidName_def list_all_iff)

lemma plain_name_valid [simp]: "plain_name c \<Longrightarrow> isValidName c"
  by (simp add: plain_name_def)

lemma names_ok_tidy: "names_ok p \<Longrightarrow> tidy_path p"
  by (auto simp: names_ok_def tidy_path_def list_all_iff plain_name_def isValidName_def)

lemma path_str_snoc: "p \<noteq> [] \<Longrightarrow> path_str (p @ [c]) = path_str p @ PathSeparator # c"
  by (induction p rule: induct_list012) (auto simp: js_join_Cons)

lemma path_str_append: "p \<noteq> [] \<Longrightarrow> r \<noteq> [] \<Longrightarrow> path_str (p @ r) = path_str p @ PathSeparator # path_str r"
  by (induction p rule: induct_list012) (auto simp: js_join_Cons)

lemma path_str_nonempty: "names_ok p \<Longrightarrow> path_str p \<noteq> []"
  by (cases p rule: list.exhaust) (auto simp: names_ok_def dest!: valid_name, metis append_is_Nil_conv js_join.simps(2) js_join_Cons)

lemma split_path_str: "names_ok p \<Longrightarrow> js_split [PathSeparator] (path_str p) = p"
  by (rule js_split_join) (auto simp: names_ok_def list_all_iff dest: valid_name)

lemma path_str_inj: "names_ok p \<Longrightarrow> names_ok q \<Longrightarrow> path_str p = path_str q \<longleftrightarrow> p = q"
  using split_path_str by metis

lemma names_ok_append: "names_ok (p @ r) \<longleftrightarrow> (names_ok p \<and> (r = [] \<or> names_ok r)) \<or> (p = [] \<and> names_ok r)"
  by (auto simp: names_ok_def)

lemma ancestor_path_str:
  assumes "names_ok p" "names_ok q"
  shows "hasAncestor (path_str p) (path_str q) \<longleftrightarrow> strict_prefix q p"
proof
  assume "strict_prefix q p"
  then obtain r where r: "p = q @ r" "r \<noteq> []" by (auto simp: strict_prefix_def prefix_def)
  then have "path_str p = path_str q @ PathSeparator # path_str r" using assms(2) by (simp add: path_str_append names_ok_def)
  then show "hasAncestor (path_str p) (path_str q)" using path_str_nonempty [OF assms(2)] by (simp add: hasAncestor_def nth_append)
next
  assume anc: "hasAncestor (path_str p) (path_str q)"
  then obtain x where x: "path_str p = path_str q @ x" by (auto simp: hasAncestor_def prefix_def)
  with anc obtain y where y: "x = PathSeparator # y" by (cases x) (auto simp: hasAncestor_def nth_append)
  have run: "js_split [PathSeparator] (path_str q @ PathSeparator # y) = q @ js_split [PathSeparator] y" if "names_ok q" for q y
    using that
  proof (induction q rule: induct_list012)
    case (2 c)
    then have "PathSeparator \<notin> set c" by (auto simp: names_ok_def dest: valid_name)
    from split_go_run [OF this, of "[]" "[]" "PathSeparator # y"] show ?case by (simp add: js_split_def split_go_Cons)
  next
    case (3 c d q)
    then have "PathSeparator \<notin> set c" "names_ok (d # q)" by (auto simp: names_ok_def dest: valid_name)
    with split_go_run [OF this(1), of "[]" "[]" "PathSeparator # path_str (d # q) @ PathSeparator # y"] 3(2)
    show ?case by (simp add: js_split_def split_go_Cons)
  qed (simp add: names_ok_def)
  from run [OF assms(2), of y] split_path_str [OF assms(1)] have "p = q @ js_split [PathSeparator] y" by (simp add: x y)
  then show "strict_prefix q p" by (simp add: strict_prefix_def)
qed

section \<open>New names\<close>

text \<open>\<open>N\<close> gives the new name of a file or folder by its old path; \<open>ren N\<close> is a path with all names new.\<close>

definition nm :: "(string list \<Rightarrow> string option) \<Rightarrow> string list \<Rightarrow> string" where
  "nm N p = (case N p of None \<Rightarrow> last p | Some n \<Rightarrow> n)"

definition ren :: "(string list \<Rightarrow> string option) \<Rightarrow> string list \<Rightarrow> string list" where
  "ren N p = map (\<lambda>k. nm N (take (Suc k) p)) [0..<length p]"

lemma ren_Nil [simp]: "ren N [] = []" by (simp add: ren_def)

lemma ren_snoc [simp]: "ren N (p @ [c]) = ren N p @ [nm N (p @ [c])]"
  by (simp add: ren_def)

lemma length_ren [simp]: "length (ren N p) = length p"
  by (simp add: ren_def)

lemma take_ren: "take k (ren N p) = ren N (take k p)"
proof -
  have app: "\<exists>r. ren N (p @ q) = ren N p @ r" for p q
  proof (induction q rule: rev_induct)
    case (snoc c q)
    then obtain r where "ren N (p @ q) = ren N p @ r" by blast
    moreover have "ren N (p @ q @ [c]) = ren N (p @ q) @ [nm N (p @ q @ [c])]" using ren_snoc [of N "p @ q" c] by simp
    ultimately show ?case by simp
  qed simp
  from app [of "take k p" "drop k p"] obtain r where "ren N p = ren N (take k p) @ r" by auto
  then show ?thesis by (cases "k \<le> length p") (simp_all add: min_def)
qed

lemma ren_same: "(\<And>q. q \<noteq> [] \<Longrightarrow> prefix q p \<Longrightarrow> nm N q = nm M q) \<Longrightarrow> ren N p = ren M p"
proof -
  assume same: "\<And>q. q \<noteq> [] \<Longrightarrow> prefix q p \<Longrightarrow> nm N q = nm M q"
  have "nm N (take (Suc k) p) = nm M (take (Suc k) p)" if "k < length p" for k
    using that by (intro same) (auto simp: take_is_prefix)
  then show ?thesis by (simp add: ren_def)
qed

lemma ren_none: "(\<And>q. q \<noteq> [] \<Longrightarrow> prefix q p \<Longrightarrow> nm N q = last q) \<Longrightarrow> ren N p = p"
proof (induction p rule: rev_induct)
  case (snoc c p)
  have "ren N p = p" using snoc.prems by (intro snoc.IH) (simp add: prefix_append)
  moreover have "nm N (p @ [c]) = c" using snoc.prems [of "p @ [c]"] by simp
  ultimately show ?case by simp
qed simp

text \<open>The files and folders of a torrent whose files have the paths \<open>fs\<close>.\<close>

definition in_tree :: "string list list \<Rightarrow> string list \<Rightarrow> bool" where
  "in_tree fs p \<longleftrightarrow> p \<noteq> [] \<and> (\<exists>f \<in> set fs. prefix p f)"

lemma node_butlast: "in_tree fs p \<Longrightarrow> butlast p = [] \<or> in_tree fs (butlast p)"
  unfolding in_tree_def by (metis append_butlast_last_id append_prefixD)

lemma node_take: "f \<in> set fs \<Longrightarrow> take k f \<noteq> [] \<Longrightarrow> in_tree fs (take k f)"
  unfolding in_tree_def using take_is_prefix by blast

text \<open>
  No two things in one folder have a name, old or new, in common. Then a path that is partly
  renamed tells where it comes from.
\<close>

definition separate :: "(string list \<Rightarrow> string option) \<Rightarrow> string list list \<Rightarrow> bool" where
  "separate N fs \<longleftrightarrow>
     (\<forall>p q. in_tree fs p \<longrightarrow> in_tree fs q \<longrightarrow> p \<noteq> q \<longrightarrow> butlast p = butlast q \<longrightarrow> {last p, nm N p} \<inter> {last q, nm N q} = {})"

definition partly :: "(string list \<Rightarrow> string option) \<Rightarrow> (string list \<Rightarrow> string option) \<Rightarrow> bool" where
  "partly M N \<longleftrightarrow> (\<forall>p. nm M p \<in> {last p, nm N p})"

lemma partly_restrict: "partly (N |` D) N"
  by (auto simp: partly_def nm_def restrict_map_def)

lemma ren_inj:
  assumes sep: "separate N fs" and M: "partly M N" "partly M' N"
  shows "ren M p = ren M' q \<Longrightarrow> p = [] \<or> in_tree fs p \<Longrightarrow> q = [] \<or> in_tree fs q \<Longrightarrow> p = q"
proof (induction p arbitrary: q rule: rev_induct)
  case Nil
  then have "length q = 0" using length_ren [of M' q] by simp
  then show ?case by simp
next
  case (snoc c p)
  then have "length q = Suc (length p)" using length_ren [of M "p @ [c]"] length_ren [of M' q] by simp
  then obtain q' d where q: "q = q' @ [d]" by (cases q rule: rev_cases) auto
  have eq: "ren M p = ren M' q'" and nm_eq: "nm M (p @ [c]) = nm M' (q' @ [d])" using snoc.prems(1) by (simp_all add: q)
  have "p = [] \<or> in_tree fs p" "q' = [] \<or> in_tree fs q'"
    using node_butlast [of fs "p @ [c]"] node_butlast [of fs "q' @ [d]"] snoc.prems(2,3) by (simp_all add: q)
  from snoc.IH [OF eq this] have pq: "p = q'" .
  show ?case
  proof (rule ccontr)
    assume diff: "p @ [c] \<noteq> q"
    have nodes: "in_tree fs (p @ [c])" "in_tree fs (q' @ [d])" using snoc.prems(2,3) by (simp_all add: q)
    have ne: "p @ [c] \<noteq> q' @ [d]" "butlast (p @ [c]) = butlast (q' @ [d])"
      using diff pq by (simp_all add: q)
    from sep [unfolded separate_def, rule_format, OF nodes ne]
    have disj: "{last (p @ [c]), nm N (p @ [c])} \<inter> {last (q' @ [d]), nm N (q' @ [d])} = {}" .
    have one: "nm M (p @ [c]) \<in> {last (p @ [c]), nm N (p @ [c])}"
      using M(1) unfolding partly_def by (rule spec)
    have "nm M' (q' @ [d]) \<in> {last (q' @ [d]), nm N (q' @ [d])}"
      using M(2) unfolding partly_def by (rule spec)
    then have "nm M (p @ [c]) \<in> {last (q' @ [d]), nm N (q' @ [d])}" by (rule back_subst [of "\<lambda>x. x \<in> _", OF _ nm_eq [symmetric]])
    with one have "nm M (p @ [c]) \<in> {last (p @ [c]), nm N (p @ [c])} \<inter> {last (q' @ [d]), nm N (q' @ [d])}" by (rule IntI)
    then show False by (simp only: disj empty_iff)
  qed
qed

lemma ren_prefix:
  assumes "separate N fs" "partly M N" "partly M' N" "in_tree fs p" "f \<in> set fs"
  shows "prefix (ren M p) (ren M' f) \<Longrightarrow> prefix p f"
proof -
  assume pre: "prefix (ren M p) (ren M' f)"
  then have "take (length p) (ren M' f) = ren M p" by (metis append_eq_conv_conj length_ren prefixE)
  then have "ren M p = ren M' (take (length p) f)" by (simp add: take_ren)
  from ren_inj [OF assms(1-3) this] assms(4,5) have "p = take (length p) f"
    using node_take by blast
  then show ?thesis by (metis take_is_prefix)
qed

section \<open>One request\<close>

text \<open>What Qt promises of paths whose names are proper ones.\<close>

definition documented :: "path_lib \<Rightarrow> bool" where
  "documented lib \<longleftrightarrow>
     (\<forall>p. tidy_path p \<longrightarrow> cleanPath lib (path_str p) = path_str p) \<and>
     (\<forall>p r. names_ok p \<longrightarrow> names_ok r \<longrightarrow> relativeFilePath lib (path_str p) (path_str (p @ r)) = path_str r)"

lemma make_path_clean: "documented lib \<Longrightarrow> tidy_path p \<Longrightarrow> make_path lib (path_str p) = path_str p"
  by (simp add: documented_def make_path_def)

lemma make_path_tidy: "documented lib \<Longrightarrow> names_ok p \<Longrightarrow> make_path lib (path_str p) = path_str p"
  by (simp add: make_path_clean names_ok_tidy)

lemma set_path_str: "set (path_str p) \<subseteq> insert PathSeparator (\<Union>(set ` set p))"
  by (induction p rule: induct_list012) auto


section \<open>Paths on the disk\<close>

lemma path_parts:
  assumes "PathSeparator \<notin> set c" and "q \<noteq> [] \<Longrightarrow> path_str q \<noteq> []"
  shows "path_filename (path_str (q @ [c])) = c" "parentPath (path_str (q @ [c])) = path_str q"
proof -
  have "path_filename (path_str (q @ [c])) = c \<and> parentPath (path_str (q @ [c])) = path_str q"
  proof (cases "q = []")
    case True
    with assms(1) show ?thesis by (simp add: path_filename_def parentPath_def lastIndexOf_none)
  next
    case False
    then have "path_str (q @ [c]) = path_str q @ PathSeparator # c" by (rule path_str_snoc)
    with assms False show ?thesis by (simp add: path_filename_def parentPath_def Let_def lastIndexOf_last nat_add_distrib)
  qed
  then show "path_filename (path_str (q @ [c])) = c" "parentPath (path_str (q @ [c])) = path_str q" by simp_all
qed

lemma path_parts_empty [simp]: "parentPath [] = []" "path_filename [] = []"
  by (simp_all add: parentPath_def path_filename_def lastIndexOf_none)

lemma tidy_nonempty: "tidy_path p \<Longrightarrow> path_str p \<noteq> []"
  by (cases p rule: remdups_adj.cases) (auto simp: tidy_path_def)

lemma lower_append: "toLowerCase (s @ t) = toLowerCase s @ toLowerCase t"
  by (simp add: toLowerCase_def)

lemma lower_Cons: "toLowerCase (c # t) = lower_char c # toLowerCase t"
  by (simp add: toLowerCase_def)

lemma extension_of_name:
  assumes "PathSeparator \<notin> set c"
  shows "hasExtension (path_str (q @ [c])) QB_EXT \<longleftrightarrow> hasExtension c QB_EXT"
proof (cases "q = []")
  case False
  have low: "lower_char PathSeparator = PathSeparator" "toLowerCase QB_EXT = ''.!qb''" by code_simp+
  have "path_str (q @ [c]) = path_str q @ PathSeparator # c" using False by (rule path_str_snoc)
  then have "hasExtension (path_str (q @ [c])) QB_EXT \<longleftrightarrow> suffix ''.!qb'' (toLowerCase (path_str q) @ PathSeparator # toLowerCase c)"
    by (simp add: hasExtension_def low lower_append lower_Cons)
  also have "\<dots> \<longleftrightarrow> suffix ''.!qb'' (toLowerCase c)"
  proof
    assume suf: "suffix ''.!qb'' (toLowerCase (path_str q) @ PathSeparator # toLowerCase c)"
    then consider "suffix ''.!qb'' (toLowerCase c)" | xs where "''.!qb'' = xs @ toLowerCase c" "suffix xs (toLowerCase (path_str q) @ [PathSeparator])"
      using suffix_append [of "''.!qb''" "toLowerCase (path_str q) @ [PathSeparator]" "toLowerCase c"] by auto
    then show "suffix ''.!qb'' (toLowerCase c)"
    proof cases
      case 2
      show ?thesis
      proof (cases xs rule: rev_cases)
        case (snoc ys y)
        with 2(2) have "y = PathSeparator" by simp
        with snoc 2(1) have "PathSeparator \<in> set ''.!qb''" by (metis in_set_conv_decomp append.assoc append_Cons)
        then show ?thesis by (simp add: PathSeparator_def)
      qed (use 2 in simp)
    qed
  qed (simp add: suffix_append suffix_Cons)
  also have "\<dots> \<longleftrightarrow> hasExtension c QB_EXT" by (simp add: hasExtension_def low)
  finally show ?thesis .
qed simp

lemma user_path:
  assumes lib: "documented lib" and q: "q = [] \<or> tidy_path q" and c: "tidy_path [c]" "\<not> hasExtension c QB_EXT" and m: "m = [] \<or> m = QB_EXT"
  shows "makeUserPath lib (path_str (q @ [c @ m])) = (if q \<noteq> [] \<and> last q = UNWANTED_FOLDER_NAME then path_str (butlast q @ [c]) else path_str (q @ [c]))"
proof -
  have slash: "PathSeparator \<notin> set c" "PathSeparator \<notin> set QB_EXT" using c(1) by (auto simp: tidy_path_def QB_EXT_def PathSeparator_def)
  have ne: "q \<noteq> [] \<Longrightarrow> path_str q \<noteq> []" using q tidy_nonempty by blast
  have "removedExtension (path_str (q @ [c @ m])) QB_EXT = path_str (q @ [c])"
    using m
  proof
    assume "m = []"
    with c(2) extension_of_name [OF slash(1), of q] show ?thesis by (simp add: removedExtension_def)
  next
    assume m: "m = QB_EXT"
    have "path_str (q @ [c @ QB_EXT]) = path_str (q @ [c]) @ QB_EXT"
      by (cases "q = []") (simp_all add: path_str_snoc)
    then show ?thesis by (simp add: m removedExtension_def hasExtension_def lower_append suffix_def)
  qed
  moreover have "path_filename (path_str q) = last q" "parentPath (path_str q) = path_str (butlast q)" if "q \<noteq> []"
  proof -
    have "butlast q \<noteq> [] \<Longrightarrow> path_str (butlast q) \<noteq> []"
      using q that by (intro tidy_nonempty) (auto simp: tidy_path_def list_all_iff dest: in_set_butlastD)
    moreover have "PathSeparator \<notin> set (last q)" using q that by (auto simp: tidy_path_def list_all_iff)
    ultimately show "path_filename (path_str q) = last q" "parentPath (path_str q) = path_str (butlast q)"
      using path_parts [of "last q" "butlast q"] that by simp_all
  qed
  moreover have "path_append lib (path_str r) (make_path lib c) = path_str (r @ [c])" if "r = [] \<or> tidy_path r" for r
  proof (cases "r = []")
    case False
    with that c(1) have "tidy_path (r @ [c])" by (simp add: tidy_path_def)
    with make_path_clean [OF lib c(1)] make_path_clean [OF lib this] False that c(1) tidy_nonempty [of r] show ?thesis
      by (auto simp: path_append_def path_str_snoc tidy_path_def)
  qed (use make_path_clean [OF lib c(1)] c(1) in \<open>auto simp: path_append_def tidy_path_def\<close>)
  moreover have "butlast q = [] \<or> tidy_path (butlast q)"
    using q by (auto simp: tidy_path_def list_all_iff dest: in_set_butlastD)
  ultimately show ?thesis
    using path_parts [OF slash(1) ne]
    by (cases "q = []") (simp_all add: makeUserPath_def Let_def UNWANTED_FOLDER_NAME_def)
qed

text \<open>The torrent finds the path that was asked for in the one libtorrent reports.\<close>

lemma user_actual:
  assumes lib: "documented lib" and p: "names_ok p"
  shows "makeUserPath lib (makeActualPath lib s i (path_str p)) = path_str p"
proof -
  obtain q c where qc: "p = q @ [c]" using p by (cases p rule: rev_cases) (auto simp: names_ok_def)
  have c: "plain_name c" "tidy_path [c]" "\<not> hasExtension c QB_EXT" and q: "q = [] \<or> names_ok q" "q = [] \<or> tidy_path q"
    using p names_ok_tidy [of "[c]"] names_ok_tidy [of q] by (auto simp: qc names_ok_def plain_name_def)
  have last_q: "\<not> (q \<noteq> [] \<and> last q = UNWANTED_FOLDER_NAME)" using q(1) by (auto simp: names_ok_def list_all_iff plain_name_def)
  have ext: "tidy_path [c @ QB_EXT]" "tidy_path [UNWANTED_FOLDER_NAME]" using c(2) by (auto simp: tidy_path_def QB_EXT_def UNWANTED_FOLDER_NAME_def PathSeparator_def)
  have join: "tidy_path (r @ [x])" if "r = [] \<or> tidy_path r" "tidy_path [x]" for r x using that by (auto simp: tidy_path_def)
  have append: "path_append lib (path_str r) (path_str [x]) = path_str (r @ [x])" if "r = [] \<or> tidy_path r" "tidy_path [x]" for r x
    using make_path_clean [OF lib join [OF that]] that tidy_nonempty [of r] by (auto simp: path_append_def path_str_snoc tidy_path_def)
  have split: "parentPath (path_str (q @ [x])) = path_str q" "path_filename (path_str (q @ [x])) = x" if "tidy_path [x]" for x
    using that q(2) tidy_nonempty [of q] path_parts [of x q] by (auto simp: tidy_path_def)
  define m where "m = (if st_appendExtension s \<and> 0 < sf_size (st_files s ! i) \<and> \<not> sf_completed (st_files s ! i) then QB_EXT else [])"
  have m: "m = [] \<or> m = QB_EXT" "tidy_path [c @ m]" using c(2) ext(1) by (auto simp: m_def)
  have "path_str (q @ [c]) @ QB_EXT = path_str (q @ [c @ QB_EXT])" by (cases "q = []") (simp_all add: path_str_snoc)
  then have "(if st_appendExtension s \<and> 0 < sf_size (st_files s ! i) \<and> \<not> sf_completed (st_files s ! i)
      then make_path lib (path_str (q @ [c]) @ QB_EXT) else path_str (q @ [c])) = path_str (q @ [c @ m])"
    using make_path_clean [OF lib join [OF q(2) ext(1)]] by (simp add: m_def)
  then have "makeActualPath lib s i (path_str p) =
      (if st_unwantedFolder s \<and> sf_ignored (st_files s ! i) then path_str ((q @ [UNWANTED_FOLDER_NAME]) @ [c @ m]) else path_str (q @ [c @ m]))"
    using append [OF q(2) ext(2)] append [OF disjI2 [OF join [OF q(2) ext(2)]] m(2)] make_path_clean [OF lib m(2)] split [OF m(2)]
    by (simp add: makeActualPath_def qc Let_def)
  with user_path [OF lib q(2) c(2,3) m(1)] user_path [OF lib disjI2 [OF join [OF q(2) ext(2)]] c(2,3) m(1)] last_q
  show ?thesis by (simp add: qc)
qed

section \<open>The checks and the renames\<close>

lemma check_tidy: "names_ok p \<Longrightarrow> names_ok q \<Longrightarrow> check_paths (path_str p) (path_str q) = None"
proof -
  have valid: "path_valid (path_str p)" if "names_ok p" for p
  proof -
    have "CHR 0x00 \<notin> set (path_str p)"
    proof
      assume "CHR 0x00 \<in> set (path_str p)"
      with set_path_str [of p] obtain c where "c \<in> set p" "CHR 0x00 \<in> set c" by (auto simp: PathSeparator_def)
      then show False using that valid_name [of c] by (auto simp: names_ok_def list_all_iff)
    qed
    with path_str_nonempty [OF that] show ?thesis by (simp add: path_valid_def)
  qed
  have "\<not> path_absolute (path_str q)" if q: "names_ok q"
  proof -
    obtain c r where cr: "q = c # r" "c \<noteq> []" "PathSeparator \<notin> set c"
      using q by (cases q) (auto simp: names_ok_def dest: valid_name)
    then obtain x y where "c = x # y" "x \<noteq> PathSeparator" by (cases c) auto
    moreover from this cr have "\<exists>z. path_str q = x # z" by (cases r) auto
    ultimately show ?thesis by (auto simp: path_absolute_def)
  qed
  then show "names_ok p \<Longrightarrow> names_ok q \<Longrightarrow> check_paths (path_str p) (path_str q) = None"
    by (simp add: check_paths_def valid)
qed

lemma fileName_path_str: "plain_name c \<Longrightarrow> fileName (path_str (p @ [c])) = c"
  using valid_name [of c] fileName_plain [of c] fileName_split [of c] by (cases "p = []") (simp_all add: path_str_snoc)

lemma folderName_path_str: "plain_name c \<Longrightarrow> folderName (path_str (p @ [c])) = path_str p"
  using valid_name [of c] fileName_plain [of c] folderName_split [of c] by (cases "p = []") (simp_all add: path_str_snoc)

lemma scan_file_rest: "newPath \<notin> set ps \<Longrightarrow> scan_file oldPath newPath i (Some j) ps = Inr (Some j)"
  by (induction ps arbitrary: i) auto

lemma scan_file_found:
  assumes "newPath \<notin> set ps" "oldPath \<in> set ps"
  shows "\<exists>k < length ps. ps ! k = oldPath \<and> scan_file oldPath newPath i None ps = Inr (Some (i + k))"
  using assms
proof (induction ps arbitrary: i)
  case (Cons p ps)
  show ?case
  proof (cases "p = oldPath")
    case True
    with Cons.prems show ?thesis by (intro exI [of _ 0]) (simp add: scan_file_rest)
  next
    case False
    with Cons.prems Cons.IH [of "Suc i"] obtain k where "k < length ps" "ps ! k = oldPath"
      "scan_file oldPath newPath (Suc i) None ps = Inr (Some (Suc i + k))" by auto
    with Cons.prems False show ?thesis by (intro exI [of _ "Suc k"]) auto
  qed
qed simp

lemma places_Cons:
  "{k. k < length (x # xs) \<and> P ((x # xs) ! k)} = (if P x then {0} else {}) \<union> Suc ` {k. k < length xs \<and> P (xs ! k)}"
proof (intro set_eqI)
  fix k
  show "k \<in> {k. k < length (x # xs) \<and> P ((x # xs) ! k)} \<longleftrightarrow> k \<in> (if P x then {0} else {}) \<union> Suc ` {k. k < length xs \<and> P (xs ! k)}"
    by (cases k) auto
qed

lemma scan_folder_found:
  assumes "\<And>p. p \<in> set ps \<Longrightarrow> hasAncestor p newPath \<Longrightarrow> hasAncestor p oldPath"
  shows "\<exists>is. scan_folder oldPath newPath i ps = Inr is \<and> set is = (+) i ` {k. k < length ps \<and> hasAncestor (ps ! k) oldPath}"
  using assms
proof (induction ps arbitrary: i)
  case (Cons p ps)
  have "\<exists>is. scan_folder oldPath newPath (Suc i) ps = Inr is
      \<and> set is = (+) (Suc i) ` {k. k < length ps \<and> hasAncestor (ps ! k) oldPath}"
    using Cons.prems by (intro Cons.IH) auto
  then obtain "is" where rest: "scan_folder oldPath newPath (Suc i) ps = Inr is"
    "set is = (+) (Suc i) ` {k. k < length ps \<and> hasAncestor (ps ! k) oldPath}" by blast
  have shift: "(+) i ` Suc ` A = (+) (Suc i) ` A" for A by (simp add: image_image)
  have all: "(+) i ` {k. k < length (p # ps) \<and> hasAncestor ((p # ps) ! k) oldPath} =
      (if hasAncestor p oldPath then insert i (set is) else set is)"
    unfolding places_Cons [of p ps "\<lambda>x. hasAncestor x oldPath"] rest(2) image_Un shift by simp
  show ?case
  proof (cases "hasAncestor p oldPath")
    case True
    with rest(1) all show ?thesis by (intro exI [of _ "i # is"]) simp
  next
    case False
    moreover have "\<not> hasAncestor p newPath" using False Cons.prems by auto
    ultimately show ?thesis using rest(1) all by (intro exI [of _ "is"]) simp
  qed
qed simp

lemma renames_of_folder:
  "set is \<subseteq> {..<length (st_filePaths s)} \<Longrightarrow> length (st_files s) = length (st_filePaths s) \<Longrightarrow>
   foldl (\<lambda>t i. renameFile_at lib i (g i) t) s is = s\<lparr>st_renames := st_renames s @ map (\<lambda>i. (i, makeActualPath lib s i (g i))) is\<rparr>"
proof (induction "is" arbitrary: s)
  case (Cons i "is")
  have "makeActualPath lib (s\<lparr>st_renames := rs\<rparr>) = makeActualPath lib s" for rs by (intro ext) (simp add: makeActualPath_def)
  with Cons show ?case by (simp add: renameFile_at_def doRenameFile_def)
qed simp

lemma all_renamed_eq:
  "all_renamed lib s = s\<lparr>st_filePaths := foldl (\<lambda>ps (i, path). ps[i := makeUserPath lib path]) (st_filePaths s) (st_renames s), st_renames := []\<rparr>"
proof -
  have "(handleFileRenamed lib ^^ length (st_renames s)) s = s\<lparr>st_filePaths := foldl (\<lambda>ps (i, path). ps[i := makeUserPath lib path]) (st_filePaths s) (st_renames s), st_renames := []\<rparr>"
  proof (induction "st_renames s" arbitrary: s)
    case (Cons x qs)
    obtain i path where x: "x = (i, path)" by fastforce
    with Cons(2) have renames: "st_renames s = (i, path) # qs" by simp
    have step: "handleFileRenamed lib s = s\<lparr>st_filePaths := (st_filePaths s)[i := makeUserPath lib path], st_renames := qs\<rparr>"
    proof -
      have "(st_filePaths s)[i := makeUserPath lib path] = st_filePaths s" if "st_filePaths s ! i = makeUserPath lib path"
        using list_update_id [of "st_filePaths s" i] unfolding that .
      with renames show ?thesis by (simp add: handleFileRenamed_def Let_def)
    qed
    then have "qs = st_renames (handleFileRenamed lib s)" by simp
    from Cons(1) [OF this] show ?case
      by (simp add: renames funpow_swap1 step)
  qed simp
  then show ?thesis by (simp add: all_renamed_def)
qed

lemma paths_updated:
  "length (foldl (\<lambda>ps (i, path). ps[i := path]) ps (map (\<lambda>i. (i, g i)) is)) = length ps"
  "k < length ps \<Longrightarrow> foldl (\<lambda>ps (i, path). ps[i := path]) ps (map (\<lambda>i. (i, g i)) is) ! k = (if k \<in> set is then g k else ps ! k)"
proof (induction "is" arbitrary: ps)
  case (Cons i "is")
  { case 1 show ?case using Cons(1) [of "ps[i := g i]"] by simp }
  { case 2 then show ?case using Cons(2) [of "ps[i := g i]"] by (auto simp: nth_list_update) }
qed simp_all

text \<open>The files of a torrent and new names for some of its files and folders.\<close>

definition rename_plan :: "(string list \<Rightarrow> string option) \<Rightarrow> string list list \<Rightarrow> bool" where
  "rename_plan N fs \<longleftrightarrow>
     (\<forall>f \<in> set fs. names_ok f) \<and> distinct fs \<and> (\<forall>f \<in> set fs. \<forall>g \<in> set fs. \<not> strict_prefix f g) \<and>
     (\<forall>p n. N p = Some n \<longrightarrow> plain_name n) \<and> separate N fs"

lemma names_ok_take: "names_ok f \<Longrightarrow> prefix p f \<Longrightarrow> p \<noteq> [] \<Longrightarrow> names_ok p"
  by (auto simp: names_ok_def prefix_def)

lemma names_ok_ren:
  assumes "names_ok p" "\<forall>p n. N p = Some n \<longrightarrow> plain_name n"
  shows "names_ok (ren (N |` D) p)"
proof -
  have "list_all plain_name (ren (N |` D) p)" if "list_all plain_name p" for p
    using that
  proof (induction p rule: rev_induct)
    case (snoc c p)
    then show ?case using assms(2) by (auto simp: nm_def restrict_map_def split: option.split)
  qed simp
  with assms(1) show ?thesis by (auto simp: names_ok_def ren_def)
qed

text \<open>Renaming one more thing changes just what is at or below it.\<close>

lemma ren_untouched:
  assumes "\<And>q. q \<in> D \<Longrightarrow> \<not> prefix q p"
  shows "ren (N |` D) p = p"
proof (rule ren_none)
  fix q assume "q \<noteq> []" "prefix q p"
  with assms have "q \<notin> D" by blast
  then show "nm (N |` D) q = last q" by (simp add: nm_def restrict_map_def)
qed

lemma ren_elsewhere: "\<not> prefix p f \<Longrightarrow> ren (N |` insert p D) f = ren (N |` D) f"
  by (rule ren_same) (auto simp: nm_def restrict_map_def)

lemma ren_itself:
  assumes "p \<noteq> []" "N p = Some n" "\<And>q. q \<in> D \<Longrightarrow> \<not> prefix q p"
  shows "ren (N |` insert p D) p = butlast p @ [n]"
proof -
  have "p = butlast p @ [last p]" using assms(1) by simp
  then have "ren (N |` insert p D) p = ren (N |` insert p D) (butlast p) @ [nm (N |` insert p D) p]" by (metis ren_snoc)
  moreover have "ren (N |` insert p D) (butlast p) = butlast p"
  proof (rule ren_untouched)
    fix q assume q: "q \<in> insert p D"
    have "prefix (butlast p) p" "length (butlast p) < length p" using assms(1) by (simp_all add: prefixeq_butlast)
    with q assms(3) show "\<not> prefix q (butlast p)" using prefix_length_le [of q "butlast p"] by (auto dest: prefix_order.trans)
  qed
  moreover have "nm (N |` insert p D) p = n" using assms(2) by (simp add: nm_def)
  ultimately show ?thesis by simp
qed

lemma ren_below:
  assumes "N p = Some n" "\<And>q. q \<in> D \<Longrightarrow> \<not> prefix q p" "p \<noteq> []"
  shows "\<exists>r'. length r' = length r \<and> ren (N |` D) (p @ r) = p @ r' \<and> ren (N |` insert p D) (p @ r) = butlast p @ [n] @ r'"
proof (induction r rule: rev_induct)
  case Nil
  have "ren (N |` D) p = p" by (rule ren_untouched) (rule assms(2))
  moreover have "ren (N |` insert p D) p = butlast p @ [n]" by (rule ren_itself) (use assms in auto)
  ultimately show ?case by simp
next
  case (snoc c r)
  then obtain r' where r': "length r' = length r" "ren (N |` D) (p @ r) = p @ r'" "ren (N |` insert p D) (p @ r) = butlast p @ [n] @ r'"
    by blast
  have "nm (N |` insert p D) (p @ r @ [c]) = nm (N |` D) (p @ r @ [c])" by (simp add: nm_def restrict_map_def)
  with r' ren_snoc [of "N |` D" "p @ r" c] ren_snoc [of "N |` insert p D" "p @ r" c] show ?case
    by (intro exI [of _ "r' @ [nm (N |` D) (p @ r @ [c])]"]) simp
qed

definition files_now :: "(string list \<Rightarrow> string option) \<Rightarrow> string list set \<Rightarrow> string list list \<Rightarrow> string list" where
  "files_now N D fs = map (\<lambda>f. path_str (ren (N |` D) f)) fs"

definition request_for :: "string list list \<Rightarrow> string list \<Rightarrow> string \<Rightarrow> rename_request" where
  "request_for fs p n =
     \<lparr>rq_folder = (\<exists>f \<in> set fs. strict_prefix p f), rq_oldPath = path_str p, rq_newPath = path_str (butlast p @ [n])\<rparr>"

lemma new_path_ok:
  assumes "rename_plan N fs" "in_tree fs p" "N p = Some n"
  shows "names_ok p" "plain_name n" "names_ok (butlast p @ [n])"
proof -
  obtain f where f: "f \<in> set fs" "prefix p f" "p \<noteq> []" using assms(2) by (auto simp: in_tree_def)
  then show p: "names_ok p" using assms(1) names_ok_take by (auto simp: rename_plan_def)
  show n: "plain_name n" using assms(1,3) by (auto simp: rename_plan_def)
  have "list_all plain_name (butlast p)" using p by (auto simp: names_ok_def list_all_iff dest: in_set_butlastD)
  with n show "names_ok (butlast p @ [n])" by (simp add: names_ok_def)
qed

lemma file_step:
  assumes plan: "rename_plan N fs" and lib: "documented lib" and p: "p \<in> set fs" "N p = Some n" "n \<noteq> last p"
    and D: "\<And>q. q \<in> D \<Longrightarrow> \<not> prefix q p" and len: "length (st_files s) = length fs"
  shows "\<exists>t. serve_rename lib (request_for fs p n) (s\<lparr>st_filePaths := files_now N D fs, st_renames := []\<rparr>) = Inr t
    \<and> all_renamed lib t = (s\<lparr>st_filePaths := files_now N (insert p D) fs, st_renames := []\<rparr>)"
proof -
  have in_tree: "in_tree fs p" using p(1) plan by (auto simp: in_tree_def rename_plan_def names_ok_def)
  note ok = new_path_ok [OF plan in_tree p(2)]
  have ne: "p \<noteq> []" using in_tree by (simp add: in_tree_def)
  have fs: "\<And>f. f \<in> set fs \<Longrightarrow> names_ok f" "distinct fs" "\<And>f. f \<in> set fs \<Longrightarrow> prefix p f \<Longrightarrow> f = p"
      and new: "\<forall>p n. N p = Some n \<longrightarrow> plain_name n" and sep: "separate N fs"
    using plan p(1) by (auto simp: rename_plan_def strict_prefix_def)
  have isp: "ren (N |` D) p = p" by (rule ren_untouched) (rule D)
  have newp: "butlast p @ [n] = ren (N |` insert p {}) p" by (rule ren_itself [symmetric]) (use ne p(2) in auto)
  have "ren (N |` D) f \<noteq> butlast p @ [n]" if f: "f \<in> set fs" for f
  proof
    assume eq: "ren (N |` D) f = butlast p @ [n]"
    then have "f = p" unfolding newp
      by (rule ren_inj [OF sep partly_restrict partly_restrict]) (use f in_tree in \<open>auto simp: in_tree_def dest: fs(1) simp: names_ok_def\<close>)
    with eq isp have "last p = n" by (metis last_snoc)
    with p(3) show False by simp
  qed
  then have free: "path_str (butlast p @ [n]) \<notin> set (files_now N D fs)"
    using path_str_inj [OF ok(3) names_ok_ren [OF fs(1) new]] by (fastforce simp: files_now_def)
  have there: "path_str p \<in> set (files_now N D fs)"
    using p(1) isp by (force simp: files_now_def)
  from scan_file_found [OF free there, of 0] obtain k where k: "k < length fs" "files_now N D fs ! k = path_str p"
    "scan_file (path_str p) (path_str (butlast p @ [n])) 0 None (files_now N D fs) = Inr (Some k)" by (auto simp: files_now_def)
  have "path_str (ren (N |` D) (fs ! k)) = path_str (ren (N |` D) p)" using k(1,2) isp by (simp add: files_now_def)
  then have "ren (N |` D) (fs ! k) = ren (N |` D) p"
    using path_str_inj names_ok_ren [OF fs(1) new] k(1) p(1) by (metis nth_mem)
  then have fk: "fs ! k = p"
    by (rule ren_inj [OF sep partly_restrict partly_restrict]) (use k(1) in_tree in \<open>auto simp: in_tree_def\<close>)
  have old_new: "files_now N (insert p D) fs = (files_now N D fs)[k := path_str (butlast p @ [n])]"
  proof (rule nth_equalityI)
    fix j assume "j < length (files_now N (insert p D) fs)"
    then have j: "j < length fs" by (simp add: files_now_def)
    show "files_now N (insert p D) fs ! j = (files_now N D fs)[k := path_str (butlast p @ [n])] ! j"
    proof (cases "j = k")
      case True
      have "ren (N |` insert p D) p = butlast p @ [n]" by (rule ren_itself) (use ne p(2) D in auto)
      with True j fk show ?thesis by (simp add: files_now_def)
    next
      case False
      then have "fs ! j \<noteq> p" using fk fs(2) j k(1) nth_eq_iff_index_eq by metis
      then have "\<not> prefix p (fs ! j)" using fs(3) [of "fs ! j"] j by auto
      from ren_elsewhere [OF this] False j show ?thesis by (simp add: files_now_def)
    qed
  qed (simp add: files_now_def)
  have "\<not> (\<exists>f \<in> set fs. strict_prefix p f)" using fs(3) by (auto simp: strict_prefix_def)
  then have "serve_rename lib (request_for fs p n) (s\<lparr>st_filePaths := files_now N D fs, st_renames := []\<rparr>)
    = Inr (renameFile_at lib k (path_str (butlast p @ [n])) (s\<lparr>st_filePaths := files_now N D fs, st_renames := []\<rparr>))"
    by (simp add: serve_rename_def request_for_def renameFileAction_def renameFile_def make_path_tidy [OF lib] ok
        fileName_path_str check_tidy k(3))
  then show ?thesis
    using k(1) len old_new by (simp add: all_renamed_eq renameFile_at_def doRenameFile_def files_now_def user_actual [OF lib ok(3)])
qed

lemma moved_path:
  assumes "documented lib" "names_ok p" "names_ok q" "names_ok (p @ r)" "r \<noteq> []"
  shows "path_append lib (path_str q) (relativePathOf lib (path_str p) (path_str (p @ r))) = path_str (q @ r)"
proof -
  have r: "names_ok r" using assms(4,5) by (auto simp: names_ok_def)
  then have "relativePathOf lib (path_str p) (path_str (p @ r)) = path_str r"
    using assms(1,2) make_path_tidy [OF assms(1) r] by (simp add: relativePathOf_def documented_def)
  moreover have "path_str q @ PathSeparator # path_str r = path_str (q @ r)"
    using assms(3,5) by (simp add: path_str_append names_ok_def)
  moreover have "names_ok (q @ r)" using assms(3) r by (simp add: names_ok_append)
  ultimately show ?thesis
    using path_str_nonempty [OF r] path_str_nonempty [OF assms(3)] make_path_tidy [OF assms(1), of "q @ r"]
    by (simp add: path_append_def)
qed

lemma folder_step:
  assumes plan: "rename_plan N fs" and lib: "documented lib" and p: "p \<noteq> []" "N p = Some n" "n \<noteq> last p"
    and below: "f0 \<in> set fs" "strict_prefix p f0" and D: "\<And>q. q \<in> D \<Longrightarrow> \<not> prefix q p"
    and len: "length (st_files s) = length fs"
  shows "\<exists>t. serve_rename lib (request_for fs p n) (s\<lparr>st_filePaths := files_now N D fs, st_renames := []\<rparr>) = Inr t
    \<and> all_renamed lib t = (s\<lparr>st_filePaths := files_now N (insert p D) fs, st_renames := []\<rparr>)"
proof -
  have in_tree: "in_tree fs p" using p(1) below by (auto simp: in_tree_def strict_prefix_def)
  note ok = new_path_ok [OF plan in_tree p(2)]
  have fs: "\<And>f. f \<in> set fs \<Longrightarrow> names_ok f" "\<And>f. f \<in> set fs \<Longrightarrow> prefix p f \<Longrightarrow> strict_prefix p f"
      and new: "\<forall>p n. N p = Some n \<longrightarrow> plain_name n" and sep: "separate N fs"
    using plan below by (auto simp: rename_plan_def strict_prefix_def)
  note okr = names_ok_ren [OF fs(1) new]
  let ?q = "butlast p @ [n]"
  have "ren (N |` {}) p = p" "ren (N |` insert p {}) p = ?q"
    by (rule ren_untouched, simp) (rule ren_itself, use p in auto)
  then have from_p: "prefix p (ren (N |` D) f) \<or> prefix ?q (ren (N |` D) f) \<Longrightarrow> prefix p f" if "f \<in> set fs" for f
    using ren_prefix [OF sep partly_restrict partly_restrict in_tree that, of "{}" D]
      ren_prefix [OF sep partly_restrict partly_restrict in_tree that, of "insert p {}" D] by auto
  have split: "\<exists>r. r \<noteq> [] \<and> ren (N |` D) f = p @ r \<and> ren (N |` insert p D) f = ?q @ r" if f: "f \<in> set fs" "prefix p f" for f
  proof -
    obtain r where r: "f = p @ r" "r \<noteq> []" using fs(2) [OF f] by (auto simp: strict_prefix_def prefix_def)
    have "\<exists>r'. length r' = length r \<and> ren (N |` D) (p @ r) = p @ r' \<and> ren (N |` insert p D) (p @ r) = butlast p @ [n] @ r'"
      by (rule ren_below) (use p D in auto)
    with r show ?thesis by auto
  qed
  have anc: "hasAncestor (path_str (ren (N |` D) f)) (path_str p) \<longleftrightarrow> prefix p f" if f: "f \<in> set fs" for f
    unfolding ancestor_path_str [OF okr [OF f] ok(1)]
    using from_p [OF f] split [OF f] by (auto simp: strict_prefix_def)
  have anc_new: "hasAncestor (path_str (ren (N |` D) f)) (path_str ?q) \<Longrightarrow> prefix p f" if f: "f \<in> set fs" for f
    unfolding ancestor_path_str [OF okr [OF f] ok(3)] using from_p [OF f] by (auto simp: strict_prefix_def)
  have "\<exists>is. scan_folder (path_str p) (path_str ?q) 0 (files_now N D fs) = Inr is
      \<and> set is = (+) 0 ` {k. k < length (files_now N D fs) \<and> hasAncestor (files_now N D fs ! k) (path_str p)}"
    by (rule scan_folder_found) (use anc anc_new in \<open>auto simp: files_now_def\<close>)
  then obtain "is" where scan: "scan_folder (path_str p) (path_str ?q) 0 (files_now N D fs) = Inr is"
    "set is = {k. k < length fs \<and> hasAncestor (files_now N D fs ! k) (path_str p)}" by (auto simp: files_now_def)
  have is_at: "k \<in> set is \<longleftrightarrow> k < length fs \<and> prefix p (fs ! k)" for k
    using anc [of "fs ! k"] by (auto simp: scan(2) files_now_def)
  obtain k0 where "k0 < length fs" "fs ! k0 = f0" using below(1) by (auto simp: in_set_conv_nth)
  then have "k0 \<in> set is" using below(2) by (simp add: is_at strict_prefix_def)
  then have "is \<noteq> []" by auto
  define g where "g = (\<lambda>i. path_append lib (path_str ?q) (relativePathOf lib (path_str p) (files_now N D fs ! i)))"
  let ?s = "s\<lparr>st_filePaths := files_now N D fs, st_renames := []\<rparr>"
  define h where "h = (\<lambda>i. makeActualPath lib ?s i (g i))"
  have served: "serve_rename lib (request_for fs p n) ?s = Inr (?s\<lparr>st_renames := map (\<lambda>i. (i, h i)) is\<rparr>)"
  proof -
    have "set is \<subseteq> {..<length (st_filePaths ?s)}" "length (st_files ?s) = length (st_filePaths ?s)"
      using len by (auto simp: is_at files_now_def)
    from renames_of_folder [OF this, of lib g] have "foldl (\<lambda>t i. renameFile_at lib i (g i) t) ?s is = ?s\<lparr>st_renames := map (\<lambda>i. (i, h i)) is\<rparr>"
      by (simp add: h_def)
    then show ?thesis
      using below \<open>is \<noteq> []\<close>
      by (auto simp: serve_rename_def request_for_def renameFolderAction_def renameFolder_def make_path_tidy [OF lib] ok
          fileName_path_str check_tidy scan(1) g_def split: list.split)
  qed
  have moved: "g k = files_now N (insert p D) fs ! k" "makeUserPath lib (h k) = g k" if k: "k < length fs" "prefix p (fs ! k)" for k
  proof -
    obtain r where r: "r \<noteq> []" "ren (N |` D) (fs ! k) = p @ r" "ren (N |` insert p D) (fs ! k) = ?q @ r"
      using split [OF nth_mem [OF k(1)] k(2)] by blast
    then have "names_ok (p @ r)" "names_ok (?q @ r)" using okr [OF nth_mem [OF k(1)]] by metis+
    with moved_path [OF lib ok(1,3) this(1) r(1)] k r user_actual [OF lib this(2)]
    show "g k = files_now N (insert p D) fs ! k" "makeUserPath lib (h k) = g k" by (simp_all add: g_def h_def files_now_def)
  qed
  have "foldl (\<lambda>ps (i, path). ps[i := makeUserPath lib path]) (files_now N D fs) (map (\<lambda>i. (i, h i)) is)
    = foldl (\<lambda>ps (i, path). ps[i := path]) (files_now N D fs) (map (\<lambda>i. (i, makeUserPath lib (h i))) is)"
    by (simp add: foldl_map)
  also have "\<dots> = files_now N (insert p D) fs"
  proof (rule nth_equalityI)
    fix k assume "k < length (foldl (\<lambda>ps (i, path). ps[i := path]) (files_now N D fs) (map (\<lambda>i. (i, makeUserPath lib (h i))) is))"
    then have k: "k < length fs" by (simp add: paths_updated files_now_def)
    have "(if k \<in> set is then makeUserPath lib (h k) else files_now N D fs ! k) = files_now N (insert p D) fs ! k"
    proof (cases "prefix p (fs ! k)")
      case False
      with ren_elsewhere [OF False] k show ?thesis by (simp add: is_at files_now_def)
    qed (use k in \<open>simp add: is_at moved\<close>)
    moreover have "k < length (files_now N D fs)" using k by (simp add: files_now_def)
    ultimately show "foldl (\<lambda>ps (i, path). ps[i := path]) (files_now N D fs) (map (\<lambda>i. (i, makeUserPath lib (h i))) is) ! k = files_now N (insert p D) fs ! k"
      by (simp only: paths_updated(2))
  qed (simp add: paths_updated files_now_def)
  finally show ?thesis using served by (simp add: all_renamed_eq)
qed

section \<open>All requests\<close>

text \<open>A row of the table stands for the file or folder \<open>p\<close>.\<close>

definition row_of :: "string list list \<Rightarrow> string list \<Rightarrow> rename_row \<Rightarrow> bool" where
  "row_of fs p row \<longleftrightarrow>
     in_tree fs p \<and> rr_path row = path_str p \<and> rr_original row = last p \<and> rr_isFolder row = (\<exists>f \<in> set fs. strict_prefix p f)"

definition new_names :: "(string list \<times> rename_row) list \<Rightarrow> string list \<Rightarrow> string option" where
  "new_names ms = map_of (map (\<lambda>(p, row). (p, rr_renamed row)) ms)"

lemma row_request:
  assumes "rename_plan N fs" "row_of fs p row" "N p = Some (rr_renamed row)"
  shows "rename_request_of row = (if rr_renamed row = last p then None else Some (request_for fs p (rr_renamed row)))"
proof -
  have p: "names_ok p" "plain_name (rr_renamed row)" using new_path_ok [OF assms(1) _ assms(3)] assms(2) by (simp_all add: row_of_def)
  then have ne: "p \<noteq> []" "plain_name (last p)" by (auto simp: names_ok_def list_all_iff)
  then have folder: "folderName (path_str p) = path_str (butlast p)"
    using folderName_path_str [of "last p" "butlast p"] by simp
  have "in_folder (path_str (butlast p)) c = path_str (butlast p @ [c])" for c
  proof (cases "butlast p = []")
    case False
    then have "names_ok (butlast p)" using p(1) by (auto simp: names_ok_def list_all_iff dest: in_set_butlastD)
    with path_str_nonempty [OF this] False show ?thesis by (simp add: in_folder_def path_str_snoc)
  qed (simp add: in_folder_def)
  with folder ne(1) assms(2) show ?thesis by (simp add: rename_request_of_def row_of_def request_for_def Let_def)
qed

lemma serve_rows:
  assumes plan: "rename_plan N fs" and lib: "documented lib" and len: "length (st_files s) = length fs"
  shows "(\<And>p row. (p, row) \<in> set ys \<Longrightarrow> row_of fs p row \<and> N p = Some (rr_renamed row)) \<Longrightarrow>
    sorted_wrt (\<lambda>p q. \<not> prefix p q) (map fst ys) \<Longrightarrow>
    (\<And>q p. q \<in> D \<Longrightarrow> p \<in> fst ` set ys \<Longrightarrow> \<not> prefix q p) \<Longrightarrow>
    serve_renames lib (map (\<lambda>q. (q, True)) (List.map_filter rename_request_of (map snd ys)))
        (s\<lparr>st_filePaths := files_now N D fs, st_renames := []\<rparr>)
      = ((s\<lparr>st_filePaths := files_now N (fst ` set ys \<union> D) fs, st_renames := []\<rparr>), [])"
proof (induction ys arbitrary: D)
  case Nil
  then show ?case by (simp add: List.map_filter_simps)
next
  case (Cons y ys)
  obtain p row where y: "y = (p, row)" by fastforce
  have row: "row_of fs p row" "N p = Some (rr_renamed row)" using Cons.prems(1) by (simp_all add: y)
  have D: "\<not> prefix q p" if "q \<in> D" for q using Cons.prems(3) [OF that] by (simp add: y)
  have later: "serve_renames lib (map (\<lambda>q. (q, True)) (List.map_filter rename_request_of (map snd ys)))
        (s\<lparr>st_filePaths := files_now N (insert p D) fs, st_renames := []\<rparr>)
      = ((s\<lparr>st_filePaths := files_now N (fst ` set ys \<union> insert p D) fs, st_renames := []\<rparr>), [])"
  proof (rule Cons.IH)
    show "row_of fs p' row' \<and> N p' = Some (rr_renamed row')" if "(p', row') \<in> set ys" for p' row'
      using Cons.prems(1) [of p' row'] that by simp
    show "sorted_wrt (\<lambda>p q. \<not> prefix p q) (map fst ys)" using Cons.prems(2) by simp
    show "\<not> prefix q p'" if "q \<in> insert p D" "p' \<in> fst ` set ys" for q p'
      using that Cons.prems(2) Cons.prems(3) [of q p'] by (auto simp: y)
  qed
  have whole: "fst ` set (y # ys) \<union> D = fst ` set ys \<union> insert p D" by (auto simp: y)
  show ?case
  proof (cases "rr_renamed row = last p")
    case True
    have "ren (N |` insert p D) f = ren (N |` D) f" for f
      by (rule ren_same) (use row(2) True in \<open>auto simp: nm_def restrict_map_def\<close>)
    then have "files_now N (insert p D) fs = files_now N D fs" by (simp add: files_now_def)
    with later True row_request [OF plan row] show ?thesis unfolding whole by (simp add: y List.map_filter_simps)
  next
    case False
    have "\<exists>t. serve_rename lib (request_for fs p (rr_renamed row)) (s\<lparr>st_filePaths := files_now N D fs, st_renames := []\<rparr>) = Inr t
      \<and> all_renamed lib t = (s\<lparr>st_filePaths := files_now N (insert p D) fs, st_renames := []\<rparr>)"
    proof (cases "\<exists>f \<in> set fs. strict_prefix p f")
      case True
      then obtain f where f: "f \<in> set fs" "strict_prefix p f" by blast
      have "p \<noteq> []" using row(1) by (simp add: row_of_def in_tree_def)
      from folder_step [OF plan lib this row(2) False f _ len] D show ?thesis by blast
    next
      case no_folder: False
      obtain f where "f \<in> set fs" "prefix p f" using row(1) by (auto simp: row_of_def in_tree_def)
      with no_folder have "p \<in> set fs" by (metis strict_prefix_def)
      from file_step [OF plan lib this row(2) False _ len] D show ?thesis by blast
    qed
    then obtain t where "serve_rename lib (request_for fs p (rr_renamed row)) (s\<lparr>st_filePaths := files_now N D fs, st_renames := []\<rparr>) = Inr t"
      "all_renamed lib t = (s\<lparr>st_filePaths := files_now N (insert p D) fs, st_renames := []\<rparr>)" by blast
    with later False row_request [OF plan row] show ?thesis unfolding whole by (simp add: y List.map_filter_simps)
  qed
qed


section \<open>Examples\<close>

text \<open>For paths without special parts the functions of Qt can be these.\<close>

definition ex_lib :: path_lib where
  "ex_lib = \<lparr>cleanPath = (\<lambda>s. s), relativeFilePath = (\<lambda>folder p. drop (Suc (length folder)) p)\<rparr>"

lemma ex_lib_documented: "documented ex_lib"
proof -
  have "path_str (p @ r) = path_str p @ PathSeparator # path_str r" if "names_ok p" "names_ok r" for p r
    using that by (simp add: path_str_append names_ok_def)
  then show ?thesis by (simp add: documented_def ex_lib_def)
qed

text \<open>A folder \<open>a\<close> with the files \<open>x\<close> and \<open>y\<close>; the folder becomes \<open>b\<close> and the file \<open>x\<close> becomes \<open>z\<close>.\<close>

definition ex_files :: "string list list" where
  "ex_files = [[''a'', ''x''], [''a'', ''y'']]"

definition ex_matched :: "(string list \<times> rename_row) list" where
  "ex_matched = [([''a''], \<lparr>rr_path = ''a'', rr_original = ''a'', rr_renamed = ''b'', rr_isFolder = True\<rparr>),
     ([''a'', ''x''], \<lparr>rr_path = ''a/x'', rr_original = ''x'', rr_renamed = ''z'', rr_isFolder = False\<rparr>)]"

definition ex_bulk :: rename_files where
  "ex_bulk = ex_renamer\<lparr>rf_matchedFiles := map snd ex_matched\<rparr>"

definition ex_storage :: "string list \<Rightarrow> file_storage" where
  "ex_storage ps = \<lparr>st_filePaths = ps, st_files = map (\<lambda>p. \<lparr>sf_size = 7, sf_completed = False, sf_ignored = p = ''a/x''\<rparr>) ps,
     st_appendExtension = True, st_unwantedFolder = True, st_renames = []\<rparr>"

lemma ex_nodes: "in_tree ex_files p \<longleftrightarrow> p = [''a''] \<or> p = [''a'', ''x''] \<or> p = [''a'', ''y'']"
  by (auto simp: in_tree_def ex_files_def prefix_Cons)

lemma ex_names: "new_names ex_matched p = (if p = [''a''] then Some ''b'' else if p = [''a'', ''x''] then Some ''z'' else None)"
  by (simp add: new_names_def ex_matched_def)

lemma ex_separate: "separate (new_names ex_matched) ex_files"
  unfolding separate_def
proof (intro allI impI)
  fix p q
  assume "in_tree ex_files p" "in_tree ex_files q" "p \<noteq> q" "butlast p = butlast q"
  then show "{last p, nm (new_names ex_matched) p} \<inter> {last q, nm (new_names ex_matched) q} = {}"
    unfolding ex_nodes by (elim disjE) (simp_all add: nm_def ex_names)
qed

lemma ex_plan: "rename_plan (new_names ex_matched) ex_files"
proof -
  have "plain_name n" if "new_names ex_matched p = Some n" for p n
  proof -
    have "plain_name ''b''" "plain_name ''z''" by code_simp+
    with that show ?thesis by (auto simp: ex_names split: if_splits)
  qed
  moreover have "\<forall>f \<in> set ex_files. names_ok f" "distinct ex_files" "\<forall>f \<in> set ex_files. \<forall>g \<in> set ex_files. \<not> strict_prefix f g"
    by code_simp+
  ultimately show ?thesis using ex_separate by (simp add: rename_plan_def)
qed


text \<open>
  libtorrent renames files in its own time. When the rename of the file is still to be done, the
  rename of the folder starts from the file's old path: afterwards the file has its old name.
\<close>

lemma late_rename_undone:
  "st_filePaths (all_renamed ex_lib (fst (serve_renames ex_lib (map (\<lambda>q. (q, False)) (rename_requests ex_bulk))
     (ex_storage [''a/x'', ''a/y''])))) = [''b/x'', ''b/y'']"
  by code_simp

text \<open>
  Renaming from the first row to the last instead, the file is not found under its old path any
  more; that is why the rows are taken from the last.
\<close>

lemma first_to_last_refused:
  "serve_renames ex_lib (map (\<lambda>q. (q, True)) (rev (rename_requests ex_bulk))) (ex_storage [''a/x'', ''a/y''])
     = (ex_storage [''a/x'', ''a/y'']\<lparr>st_filePaths := [''b/x'', ''b/y'']\<rparr>, [NoSuchItem])"
  by code_simp

text \<open>A request that the server refuses has an answer all the same, so that its row counts as renamed.\<close>

lemma refused_counts_as_renamed:
  "serve_renames ex_lib (map (\<lambda>q. (q, True)) (rename_requests (ex_bulk\<lparr>rf_matchedFiles := map snd (tl ex_matched)\<rparr>)))
      (ex_storage [''a/x'', ''a/z''])
     = ((ex_storage [''a/x'', ''a/z'']), [AlreadyExists])"
  "map rr_path (renamed_rows (\<lambda>q. True) (ex_bulk\<lparr>rf_matchedFiles := map snd (tl ex_matched)\<rparr>)) = [''a/x'']"
  by code_simp+

text \<open>
  A name that looks like the mark of an incomplete file loses that end, although the file is complete:
  the torrent takes the path that libtorrent reports for a marked one.
\<close>

lemma mark_in_name_lost:
  "st_filePaths (fst (serve_renames ex_lib [(\<lparr>rq_folder = False, rq_oldPath = ''a/x'', rq_newPath = ''a/z.!qB''\<rparr>, True)]
     ((ex_storage [''a/x''])\<lparr>st_files := [\<lparr>sf_size = 7, sf_completed = True, sf_ignored = False\<rparr>]\<rparr>))) = [''a/z'']"
  by code_simp

end
