(* ===== verification/ContextMenus.thy ===== *)
theory ContextMenus
  imports SideBar
begin

text \<open>
  The context menus (\<open>contextmenu.js\<close>): where a menu is put, which items of it are shown, enabled and
  checked for the selected torrents, and the sub-menus of categories and tags. An item is found by its
  action's name; the menus of the page have an item for each.
\<close>

section \<open>Where a menu is put\<close>

text \<open>\<open>adjustMenuPosition\<close>: the place asked for, the size of the menu, and that of the window, in pixels.\<close>

definition menu_position :: "rat \<times> rat \<Rightarrow> rat \<times> rat \<Rightarrow> rat \<times> rat \<Rightarrow> rat \<times> rat \<Rightarrow> rat \<times> rat" where
  "menu_position page offsets msize client =
     (let x = fst page + fst offsets;
          y = snd page + snd offsets;
          x = (if fst client < x + fst msize then x - fst msize else x);
          y = (if snd client < y + snd msize then snd client - snd msize else y)
      in (if x < 0 then 0 else x, if y < 0 then 0 else y))"

text \<open>A sub-menu beside its item, given the left, bottom, width and height of the item.\<close>

definition submenu_position :: "rat \<Rightarrow> rat \<Rightarrow> rat \<Rightarrow> rat \<Rightarrow> rat \<times> rat \<Rightarrow> rat \<times> rat \<Rightarrow> rat \<times> rat" where
  "submenu_position left bottom iwidth iheight msize client =
     (let x = left + iwidth - 1;
          y = bottom - iheight - 1;
          x = (if fst client < x + fst msize then x - (fst msize + iwidth - 2) else x);
          y = (if snd client < y + snd msize then snd client - snd msize else y)
      in (if x < 0 then 0 else x, if y < 0 then 0 else y))"

section \<open>Items\<close>

record menu_item =
  mi_hidden :: bool
  mi_disabled :: bool
  mi_checked :: bool
  mi_separator :: bool

type_synonym menu = "string \<Rightarrow> menu_item"

definition hideItem :: "string \<Rightarrow> menu \<Rightarrow> menu" where
  "hideItem item m = m(item := (m item)\<lparr>mi_hidden := True\<rparr>)"

definition showItem :: "string \<Rightarrow> menu \<Rightarrow> menu" where
  "showItem item m = m(item := (m item)\<lparr>mi_hidden := False\<rparr>)"

definition setItemChecked :: "string \<Rightarrow> bool \<Rightarrow> menu \<Rightarrow> menu" where
  "setItemChecked item b m = m(item := (m item)\<lparr>mi_checked := b\<rparr>)"

definition setEnabled :: "string \<Rightarrow> bool \<Rightarrow> menu \<Rightarrow> menu" where
  "setEnabled item b m = m(item := (m item)\<lparr>mi_disabled := \<not> b\<rparr>)"

definition setSeparator :: "string \<Rightarrow> bool \<Rightarrow> menu \<Rightarrow> menu" where
  "setSeparator item b m = m(item := (m item)\<lparr>mi_separator := b\<rparr>)"

definition show_if :: "bool \<Rightarrow> string \<Rightarrow> menu \<Rightarrow> menu" where
  "show_if b item m = (if b then showItem item m else hideItem item m)"

section \<open>Showing and hiding\<close>

text \<open>The menus that are visible, and the one that was shown last; menus are known by their element's id.\<close>

record shown_menus =
  visibleMenus :: "string list"
  lastShownContextMenu :: "string option"

definition hide_menu :: "string \<Rightarrow> shown_menus \<Rightarrow> shown_menus" where
  "hide_menu i s = (if lastShownContextMenu s \<noteq> None then s\<lparr>visibleMenus := removeAll i (visibleMenus s)\<rparr> else s)"

definition show_menu :: "string \<Rightarrow> shown_menus \<Rightarrow> shown_menus" where
  "show_menu i s =
     (let s = (case lastShownContextMenu s of Some j \<Rightarrow> if j \<noteq> i then hide_menu j s else s | None \<Rightarrow> s)
      in \<lparr>visibleMenus = List.insert i (visibleMenus s), lastShownContextMenu = Some i\<rparr>)"

text \<open>A right click on a target, unless the menu is disabled.\<close>

definition triggerMenu :: "bool \<Rightarrow> string \<Rightarrow> shown_menus \<Rightarrow> shown_menus" where
  "triggerMenu disabled i s = (if disabled then s else show_menu i s)"

text \<open>
  A click on the body, which every menu listens to: \<open>parent\<close> is whether the click is on an item of a
  context menu that has a sub-menu.
\<close>

definition body_click :: "bool \<Rightarrow> string list \<Rightarrow> shown_menus \<Rightarrow> shown_menus" where
  "body_click parent menus s = (if parent then s else foldl (\<lambda>s i. hide_menu i s) s menus)"

datatype menu_event = RightClick bool string | TargetClick string | BodyClick bool

definition menu_event_step :: "string list \<Rightarrow> menu_event \<Rightarrow> shown_menus \<Rightarrow> shown_menus" where
  "menu_event_step menus e s =
     (case e of
        RightClick disabled i \<Rightarrow> triggerMenu disabled i s
      | TargetClick i \<Rightarrow> hide_menu i s
      | BodyClick parent \<Rightarrow> body_click parent menus s)"

text \<open>
  Whatever is clicked, at most one menu is visible, the one shown last.
\<close>

lemma hide_menu_shown: "set (visibleMenus s) \<subseteq> set_option (lastShownContextMenu s) \<Longrightarrow>
    set (visibleMenus (hide_menu i s)) \<subseteq> set_option (lastShownContextMenu (hide_menu i s))"
  by (auto simp: hide_menu_def)

lemma body_click_shown: "set (visibleMenus s) \<subseteq> set_option (lastShownContextMenu s) \<Longrightarrow>
    set (visibleMenus (body_click p menus s)) \<subseteq> set_option (lastShownContextMenu (body_click p menus s))"
proof (cases p)
  case False
  assume "set (visibleMenus s) \<subseteq> set_option (lastShownContextMenu s)"
  then have "set (visibleMenus (foldl (\<lambda>s i. hide_menu i s) s menus)) \<subseteq> set_option (lastShownContextMenu (foldl (\<lambda>s i. hide_menu i s) s menus))"
    by (induction menus arbitrary: s) (auto dest: hide_menu_shown)
  with False show ?thesis by (simp add: body_click_def)
qed (simp add: body_click_def)

lemma show_menu_shown: "set (visibleMenus s) \<subseteq> set_option (lastShownContextMenu s) \<Longrightarrow>
    set (visibleMenus (show_menu i s)) \<subseteq> set_option (lastShownContextMenu (show_menu i s))"
  by (auto simp: show_menu_def hide_menu_def Let_def split: option.splits if_splits)

lemma one_menu_visible:
  "set (visibleMenus s) \<subseteq> set_option (lastShownContextMenu s) \<Longrightarrow>
   set (visibleMenus (foldl (\<lambda>s e. menu_event_step menus e s) s es)) \<subseteq> set_option (lastShownContextMenu (foldl (\<lambda>s e. menu_event_step menus e s) s es))"
proof (induction es arbitrary: s)
  case (Cons e es)
  have "set (visibleMenus (menu_event_step menus e s)) \<subseteq> set_option (lastShownContextMenu (menu_event_step menus e s))"
    using Cons.prems hide_menu_shown [of s] show_menu_shown [of s] body_click_shown [of s]
    by (cases e) (auto simp only: menu_event_step_def triggerMenu_def menu_event.case split: if_splits)
  from Cons.IH [OF this] show ?case by simp
qed simp

section \<open>The torrents\<close>

record menu_flags =
  all_are_seq_dl :: bool
  there_are_seq_dl :: bool
  all_are_f_l_piece_prio :: bool
  there_are_f_l_piece_prio :: bool
  all_are_downloaded :: bool
  all_are_stopped :: bool
  there_are_stopped :: bool
  all_are_force_start :: bool
  there_are_force_start :: bool
  all_are_super_seeding :: bool
  all_are_auto_tmm :: bool
  thereAreV1Hashes :: bool
  thereAreV2Hashes :: bool
  tagCount :: "(string, nat) jsmap"
  categoryCount :: "(jsval, nat) jsmap"

definition start_flags :: menu_flags where
  "start_flags = \<lparr>all_are_seq_dl = True, there_are_seq_dl = False, all_are_f_l_piece_prio = True, there_are_f_l_piece_prio = False,
     all_are_downloaded = True, all_are_stopped = True, there_are_stopped = False, all_are_force_start = True,
     there_are_force_start = False, all_are_super_seeding = True, all_are_auto_tmm = True, thereAreV1Hashes = False,
     thereAreV2Hashes = False, tagCount = [], categoryCount = []\<rparr>"

definition count_up :: "'k \<Rightarrow> ('k, nat) jsmap \<Rightarrow> ('k, nat) jsmap" where
  "count_up k m = map_set k (case map_get m k of Some n \<Rightarrow> n + 1 | None \<Rightarrow> 1) m"

definition is_true :: "jsobj \<Rightarrow> string \<Rightarrow> bool" where
  "is_true d x \<longleftrightarrow> prop_get d x = JBool True"

definition is_stopped :: "jsobj \<Rightarrow> bool" where
  "is_stopped d \<longleftrightarrow> prop_get d ''state'' = JStr ''stoppedUP'' \<or> prop_get d ''state'' = JStr ''stoppedDL''"

text \<open>The body of the loop over the selected rows; tags that are no text throw.\<close>

definition look_at_row :: "jsobj \<Rightarrow> menu_flags \<Rightarrow> js_error + menu_flags" where
  "look_at_row d f =
     (let f = (if \<not> is_true d ''seq_dl'' then f\<lparr>all_are_seq_dl := False\<rparr> else f\<lparr>there_are_seq_dl := True\<rparr>);
          f = (if \<not> is_true d ''f_l_piece_prio'' then f\<lparr>all_are_f_l_piece_prio := False\<rparr> else f\<lparr>there_are_f_l_piece_prio := True\<rparr>);
          f = (if prop_get d ''progress'' \<noteq> JNum 1 then f\<lparr>all_are_downloaded := False\<rparr>
               else if \<not> is_true d ''super_seeding'' then f\<lparr>all_are_super_seeding := False\<rparr> else f);
          f = (if \<not> is_stopped d then f\<lparr>all_are_stopped := False\<rparr> else f\<lparr>there_are_stopped := True\<rparr>);
          f = (if \<not> is_true d ''force_start'' then f\<lparr>all_are_force_start := False\<rparr> else f\<lparr>there_are_force_start := True\<rparr>);
          f = (if \<not> is_true d ''auto_tmm'' then f\<lparr>all_are_auto_tmm := False\<rparr> else f);
          f = (if prop_get d ''infohash_v1'' \<noteq> JStr [] then f\<lparr>thereAreV1Hashes := True\<rparr> else f);
          f = (if prop_get d ''infohash_v2'' \<noteq> JStr [] then f\<lparr>thereAreV2Hashes := True\<rparr> else f)
      in case prop_get d ''tags'' of
           JStr s \<Rightarrow> Inr (f\<lparr>tagCount := foldl (\<lambda>m t. count_up t m) (tagCount f) (js_split '', '' s),
                           categoryCount := count_up (prop_get d ''category'') (categoryCount f)\<rparr>)
         | _ \<Rightarrow> Inl TypeError)"

text \<open>The data of the selected rows; a row that is gone throws.\<close>

fun look_at_rows :: "table \<Rightarrow> string list \<Rightarrow> menu_flags \<Rightarrow> js_error + menu_flags" where
  "look_at_rows t [] f = Inr f"
| "look_at_rows t (i # is) f =
     (case map_get (rows t) i of
        None \<Rightarrow> Inl TypeError
      | Some r \<Rightarrow> (case look_at_row (full_data r) f of Inl e \<Rightarrow> Inl e | Inr f \<Rightarrow> look_at_rows t is f))"

text \<open>The menu: its items, and the check boxes of the tags (name, indeterminate, checked) and the categories (name, highlighted).\<close>

record torrents_menu =
  tm_items :: menu
  tm_tags :: "(string \<times> bool \<times> bool) list"
  tm_categories :: "(string \<times> bool) list"

definition rename_items :: "jsobj list \<Rightarrow> menu \<Rightarrow> menu" where
  "rename_items selected m =
     (case selected of
        [d] \<Rightarrow>
          (let metadata_downloaded = (prop_get d ''state'' \<noteq> JStr ''metaDL'' \<and> prop_get d ''state'' \<noteq> JStr ''forcedMetaDL''
                 \<and> prop_get d ''total_size'' \<noteq> JNum (-1))
           in show_if metadata_downloaded ''renameFiles'' (showItem ''rename'' m))
      | _ \<Rightarrow> hideItem ''rename'' (hideItem ''renameFiles'' m))"

definition download_items :: "menu_flags \<Rightarrow> menu \<Rightarrow> menu" where
  "download_items f m =
     (if all_are_downloaded f
      then setItemChecked ''superSeeding'' (all_are_super_seeding f) (showItem ''superSeeding''
             (hideItem ''firstLastPiecePrio'' (hideItem ''sequentialDownload''
               (setSeparator ''uploadLimit'' True (hideItem ''downloadLimit'' m)))))
      else let show_seq_dl = (all_are_seq_dl f \<or> \<not> there_are_seq_dl f);
               show_f_l_piece_prio = (all_are_f_l_piece_prio f \<or> \<not> there_are_f_l_piece_prio f);
               m = setSeparator ''firstLastPiecePrio'' (\<not> show_seq_dl \<and> show_f_l_piece_prio) m;
               m = show_if show_f_l_piece_prio ''firstLastPiecePrio'' (show_if show_seq_dl ''sequentialDownload'' m);
               m = setItemChecked ''firstLastPiecePrio'' (all_are_f_l_piece_prio f) (setItemChecked ''sequentialDownload'' (all_are_seq_dl f) m)
           in hideItem ''superSeeding'' (setSeparator ''uploadLimit'' False (showItem ''downloadLimit'' m)))"

definition start_items :: "menu_flags \<Rightarrow> menu \<Rightarrow> menu" where
  "start_items f m =
     (let m = showItem ''forceStart'' (showItem ''stop'' (showItem ''start'' m))
      in if all_are_stopped f then hideItem ''stop'' m
         else if all_are_force_start f then hideItem ''forceStart'' m
         else if \<not> there_are_stopped f \<and> \<not> there_are_force_start f then hideItem ''start'' m
         else m)"

text \<open>The loops over the known tags and categories; one without an item in the list throws.\<close>

fun mark_tags :: "(string, nat) jsmap \<Rightarrow> nat \<Rightarrow> string list \<Rightarrow> (string \<times> bool \<times> bool) list \<Rightarrow> js_error + (string \<times> bool \<times> bool) list" where
  "mark_tags counts n [] items = Inr items"
| "mark_tags counts n (tag # tags) items =
     (if tag \<notin> fst ` set items then Inl TypeError
      else let state = (case map_get counts tag of None \<Rightarrow> (False, False) | Some c \<Rightarrow> (c < n, \<not> c < n))
        in mark_tags counts n tags (map (\<lambda>(t, s). (t, if t = tag then state else s)) items))"

fun mark_categories :: "(jsval, nat) jsmap \<Rightarrow> nat \<Rightarrow> string list \<Rightarrow> (string \<times> bool) list \<Rightarrow> js_error + (string \<times> bool) list" where
  "mark_categories counts n [] items = Inr items"
| "mark_categories counts n (cat # cats) items =
     (if cat \<notin> fst ` set items then Inl TypeError
      else mark_categories counts n cats
             (map (\<lambda>(c, b). (c, if c = cat then map_get counts (JStr cat) = Some n else b)) items))"

definition updateMenuItems :: "table \<Rightarrow> string list \<Rightarrow> string list \<Rightarrow> torrents_menu \<Rightarrow> js_error + torrents_menu" where
  "updateMenuItems t tags categories menu =
     (let selected = selectedRows t in
      case look_at_rows t selected start_flags of
        Inl e \<Rightarrow> Inl e
      | Inr f \<Rightarrow>
          (let n = length selected;
               m = rename_items (List.map_filter (\<lambda>i. map_option full_data (map_get (rows t) i)) selected) (tm_items menu);
               m = start_items f (download_items f m);
               m = setItemChecked ''autoTorrentManagement'' (all_are_auto_tmm f) m;
               m = setEnabled ''copyInfohash2'' (thereAreV2Hashes f) (setEnabled ''copyInfohash1'' (thereAreV1Hashes f) m)
           in case (mark_tags (tagCount f) n tags (tm_tags menu), mark_categories (categoryCount f) n categories (tm_categories menu)) of
                (Inr ts, Inr cs) \<Rightarrow> Inr \<lparr>tm_items = m, tm_tags = ts, tm_categories = cs\<rparr>
              | _ \<Rightarrow> Inl TypeError))"

text \<open>The sub-menus are made anew, in the order of the collator.\<close>

definition updateTagsSubMenu :: "string cmp \<Rightarrow> string list \<Rightarrow> torrents_menu \<Rightarrow> torrents_menu" where
  "updateTagsSubMenu natural tags menu = menu\<lparr>tm_tags := map (\<lambda>t. (t, False, False)) (js_sort natural tags)\<rparr>"

definition updateCategoriesSubMenu :: "string cmp \<Rightarrow> string list \<Rightarrow> torrents_menu \<Rightarrow> torrents_menu" where
  "updateCategoriesSubMenu natural categories menu = menu\<lparr>tm_categories := map (\<lambda>c. (c, False)) (js_sort natural categories)\<rparr>"

section \<open>The lists of the side bar and the RSS reader\<close>

definition updateTorrentActions :: "nat \<Rightarrow> menu \<Rightarrow> menu" where
  "updateTorrentActions visibleRows m =
     (let torrentsVisible = (0 < visibleRows)
      in setEnabled ''deleteTorrents'' torrentsVisible (setEnabled ''stopTorrents'' torrentsVisible (setEnabled ''startTorrents'' torrentsVisible m)))"

definition categoriesFilterMenu :: "nat \<Rightarrow> string \<Rightarrow> menu \<Rightarrow> menu" where
  "categoriesFilterMenu visibleRows i m =
     (let own = (i \<noteq> CATEGORIES_ALL \<and> i \<noteq> CATEGORIES_UNCATEGORIZED)
      in updateTorrentActions visibleRows
           (show_if own ''createSubcategory'' (show_if own ''deleteCategory'' (show_if own ''editCategory'' m))))"

definition tagsFilterMenu :: "nat \<Rightarrow> string \<Rightarrow> menu \<Rightarrow> menu" where
  "tagsFilterMenu visibleRows i m =
     updateTorrentActions visibleRows (show_if (i \<noteq> TAGS_ALL \<and> i \<noteq> TAGS_UNTAGGED) ''deleteTag'' m)"

definition trackersFilterMenu :: "nat \<Rightarrow> string \<Rightarrow> menu \<Rightarrow> menu" where
  "trackersFilterMenu visibleRows i m =
     updateTorrentActions visibleRows
       (show_if (i \<notin> {TRACKERS_ALL, TRACKERS_ANNOUNCE_ERROR, TRACKERS_ERROR, TRACKERS_TRACKERLESS, TRACKERS_WARNING}) ''deleteTracker'' m)"

text \<open>
  The search plugins: the cell below the header "Enabled" of the row that was clicked says whether
  the plugin is enabled; without that header the lookup of the cell throws.
\<close>

definition searchPluginsMenu :: "string list \<Rightarrow> string list \<Rightarrow> menu \<Rightarrow> js_error + menu" where
  "searchPluginsMenu headers cells m =
     (let m = showItem ''Enabled'' m;
          i = length (takeWhile (\<lambda>h. h \<noteq> ''Enabled'') headers)
      in if i < length headers \<and> i < length cells then Inr (showItem ''Uninstall'' (setItemChecked ''Enabled'' (cells ! i = ''Yes'') m))
         else Inl TypeError)"

text \<open>The feeds: \<open>dataUid\<close> of a selected row is empty for a folder, and the row "0" is the unread articles.\<close>

definition show_exactly :: "string list \<Rightarrow> string list \<Rightarrow> menu \<Rightarrow> menu" where
  "show_exactly all shown m = foldl (\<lambda>m item. show_if (item \<in> set shown) item m) m all"

definition rss_items :: "string list" where
  "rss_items = [''update'', ''markRead'', ''rename'', ''edit'', ''delete'', ''newSubscription'', ''newFolder'', ''updateAll'', ''copyFeedURL'']"

definition rssFeedMenu :: "(string, string) jsmap \<Rightarrow> string list \<Rightarrow> menu \<Rightarrow> js_error + menu" where
  "rssFeedMenu dataUids selected m =
     (let m = setSeparator ''newSubscription'' True m in
      case selected of
        [] \<Rightarrow> Inr (show_exactly rss_items [''newSubscription'', ''newFolder'', ''updateAll''] (setSeparator ''newSubscription'' False m))
      | [i] \<Rightarrow>
          if i = ''0'' then Inr (show_exactly rss_items [''update'', ''markRead'', ''newSubscription''] m)
          else (case map_get dataUids i of
              None \<Rightarrow> Inl TypeError
            | Some uid \<Rightarrow>
                Inr (show_exactly rss_items
                  (if uid = [] then [''update'', ''markRead'', ''rename'', ''delete'', ''newSubscription'', ''newFolder'']
                   else [''update'', ''markRead'', ''rename'', ''edit'', ''delete'', ''newSubscription'', ''copyFeedURL'']) m))
      | _ \<Rightarrow> Inr (show_exactly rss_items [''update'', ''markRead'', ''delete'', ''copyFeedURL''] m))"

definition rssRuleMenu :: "nat \<Rightarrow> menu \<Rightarrow> menu" where
  "rssRuleMenu selected m =
     show_if (0 < selected) ''clearDownloadedEpisodes'' (show_if (selected = 1) ''renameRule'' (show_if (0 < selected) ''deleteRule''
       (showItem ''addRule'' m)))"

section \<open>What the menu of the torrents shows\<close>

text \<open>A menu that fits into the window is put inside it, wherever in the window it is asked for.\<close>

lemma menu_inside:
  assumes "0 \<le> w" "w \<le> cw" "0 \<le> h" "h \<le> ch" "x + ox \<le> cw"
  shows "menu_position (x, y) (ox, oy) (w, h) (cw, ch) = (px, py) \<Longrightarrow> 0 \<le> px \<and> px + w \<le> cw \<and> 0 \<le> py \<and> py + h \<le> ch"
  using assms by (auto simp: menu_position_def Let_def split: if_splits)

lemma item_ops [simp]:
  "mi_hidden (hideItem i m j) \<longleftrightarrow> j = i \<or> mi_hidden (m j)"
  "mi_hidden (showItem i m j) \<longleftrightarrow> j \<noteq> i \<and> mi_hidden (m j)"
  "mi_hidden (show_if b i m j) \<longleftrightarrow> (if j = i then \<not> b else mi_hidden (m j))"
  "mi_hidden (setItemChecked i b m j) = mi_hidden (m j)" "mi_hidden (setEnabled i b m j) = mi_hidden (m j)"
  "mi_hidden (setSeparator i b m j) = mi_hidden (m j)"
  "mi_checked (setItemChecked i b m j) = (if j = i then b else mi_checked (m j))"
  "mi_checked (hideItem i m j) = mi_checked (m j)" "mi_checked (showItem i m j) = mi_checked (m j)"
  "mi_checked (show_if b i m j) = mi_checked (m j)"
  "mi_checked (setEnabled i b m j) = mi_checked (m j)" "mi_checked (setSeparator i b m j) = mi_checked (m j)"
  by (auto simp: hideItem_def showItem_def show_if_def setItemChecked_def setEnabled_def setSeparator_def)

text \<open>The row's list of tags.\<close>

definition row_tags :: "jsobj \<Rightarrow> string list" where
  "row_tags d = (case prop_get d ''tags'' of JStr s \<Rightarrow> js_split '', '' s | _ \<Rightarrow> [])"

definition get_count :: "('k, nat) jsmap \<Rightarrow> 'k \<Rightarrow> nat" where
  "get_count m k = (case map_get m k of None \<Rightarrow> 0 | Some n \<Rightarrow> n)"

definition counts_ok :: "('k, nat) jsmap \<Rightarrow> bool" where
  "counts_ok m \<longleftrightarrow> (\<forall>k. map_get m k \<noteq> Some 0)"

lemma counts_ok_get: "counts_ok m \<Longrightarrow> map_get m k = (if get_count m k = 0 then None else Some (get_count m k))"
  by (cases "map_get m k") (auto simp: counts_ok_def get_count_def, metis gr0I)

lemma count_up [simp]:
  "counts_ok m \<Longrightarrow> counts_ok (count_up k m)"
  "get_count (count_up k m) j = get_count m j + (if j = k then 1 else 0)"
  by (auto simp: counts_ok_def count_up_def get_count_def split: option.splits)

lemma count_up_list:
  "counts_ok m \<Longrightarrow> counts_ok (foldl (\<lambda>m t. count_up t m) m ts)"
  "get_count (foldl (\<lambda>m t. count_up t m) m ts) j = get_count m j + count_list ts j"
  by (induction ts arbitrary: m) auto

fun look_at_data :: "jsobj list \<Rightarrow> menu_flags \<Rightarrow> js_error + menu_flags" where
  "look_at_data [] f = Inr f"
| "look_at_data (d # ds) f = (case look_at_row d f of Inl e \<Rightarrow> Inl e | Inr f \<Rightarrow> look_at_data ds f)"

lemma look_at_rows_data:
  "map (\<lambda>i. map_option full_data (map_get (rows t) i)) is = map Some ds \<Longrightarrow> look_at_rows t is f = look_at_data ds f"
proof (induction "is" arbitrary: ds f)
  case (Cons i "is")
  then obtain d ds' where ds: "ds = d # ds'" by (cases ds) auto
  with Cons.prems obtain r where "map_get (rows t) i = Some r" "full_data r = d" by auto
  with Cons ds show ?case by (auto split: sum.split)
qed simp

lemma look_at_row_flags:
  assumes "prop_get d ''tags'' = JStr s"
  shows "\<exists>f'. look_at_row d f = Inr f'
    \<and> all_are_downloaded f' = (all_are_downloaded f \<and> prop_get d ''progress'' = JNum 1)
    \<and> all_are_super_seeding f' = (all_are_super_seeding f \<and> (prop_get d ''progress'' = JNum 1 \<longrightarrow> is_true d ''super_seeding''))
    \<and> all_are_stopped f' = (all_are_stopped f \<and> is_stopped d) \<and> there_are_stopped f' = (there_are_stopped f \<or> is_stopped d)
    \<and> all_are_force_start f' = (all_are_force_start f \<and> is_true d ''force_start'')
    \<and> there_are_force_start f' = (there_are_force_start f \<or> is_true d ''force_start'')
    \<and> all_are_auto_tmm f' = (all_are_auto_tmm f \<and> is_true d ''auto_tmm'')
    \<and> tagCount f' = foldl (\<lambda>m t. count_up t m) (tagCount f) (row_tags d)
    \<and> categoryCount f' = count_up (prop_get d ''category'') (categoryCount f)"
  using assms by (auto simp: look_at_row_def Let_def row_tags_def)

lemma look_at_data_flags:
  assumes "\<forall>d \<in> set ds. \<exists>s. prop_get d ''tags'' = JStr s"
  shows "\<exists>f'. look_at_data ds f = Inr f'
    \<and> all_are_downloaded f' = (all_are_downloaded f \<and> (\<forall>d \<in> set ds. prop_get d ''progress'' = JNum 1))
    \<and> all_are_super_seeding f' = (all_are_super_seeding f \<and> (\<forall>d \<in> set ds. prop_get d ''progress'' = JNum 1 \<longrightarrow> is_true d ''super_seeding''))
    \<and> all_are_stopped f' = (all_are_stopped f \<and> (\<forall>d \<in> set ds. is_stopped d))
    \<and> there_are_stopped f' = (there_are_stopped f \<or> (\<exists>d \<in> set ds. is_stopped d))
    \<and> all_are_force_start f' = (all_are_force_start f \<and> (\<forall>d \<in> set ds. is_true d ''force_start''))
    \<and> there_are_force_start f' = (there_are_force_start f \<or> (\<exists>d \<in> set ds. is_true d ''force_start''))
    \<and> all_are_auto_tmm f' = (all_are_auto_tmm f \<and> (\<forall>d \<in> set ds. is_true d ''auto_tmm''))
    \<and> (counts_ok (tagCount f) \<longrightarrow> counts_ok (tagCount f'))
    \<and> (\<forall>t. get_count (tagCount f') t = get_count (tagCount f) t + (\<Sum>d \<leftarrow> ds. count_list (row_tags d) t))
    \<and> (counts_ok (categoryCount f) \<longrightarrow> counts_ok (categoryCount f'))
    \<and> (\<forall>c. get_count (categoryCount f') c = get_count (categoryCount f) c + count_list (map (\<lambda>d. prop_get d ''category'') ds) c)"
  using assms
proof (induction ds arbitrary: f)
  case (Cons d ds)
  then obtain s where "prop_get d ''tags'' = JStr s" by auto
  from look_at_row_flags [OF this, of f] obtain g where g: "look_at_row d f = Inr g"
    "all_are_downloaded g = (all_are_downloaded f \<and> prop_get d ''progress'' = JNum 1)"
    "all_are_super_seeding g = (all_are_super_seeding f \<and> (prop_get d ''progress'' = JNum 1 \<longrightarrow> is_true d ''super_seeding''))"
    "all_are_stopped g = (all_are_stopped f \<and> is_stopped d)" "there_are_stopped g = (there_are_stopped f \<or> is_stopped d)"
    "all_are_force_start g = (all_are_force_start f \<and> is_true d ''force_start'')"
    "there_are_force_start g = (there_are_force_start f \<or> is_true d ''force_start'')"
    "all_are_auto_tmm g = (all_are_auto_tmm f \<and> is_true d ''auto_tmm'')"
    "tagCount g = foldl (\<lambda>m t. count_up t m) (tagCount f) (row_tags d)"
    "categoryCount g = count_up (prop_get d ''category'') (categoryCount f)" by blast
  have "\<forall>d \<in> set ds. \<exists>s. prop_get d ''tags'' = JStr s" using Cons.prems by simp
  from Cons.IH [OF this, of g] obtain h where h: "look_at_data ds g = Inr h"
    "all_are_downloaded h = (all_are_downloaded g \<and> (\<forall>d \<in> set ds. prop_get d ''progress'' = JNum 1))"
    "all_are_super_seeding h = (all_are_super_seeding g \<and> (\<forall>d \<in> set ds. prop_get d ''progress'' = JNum 1 \<longrightarrow> is_true d ''super_seeding''))"
    "all_are_stopped h = (all_are_stopped g \<and> (\<forall>d \<in> set ds. is_stopped d))"
    "there_are_stopped h = (there_are_stopped g \<or> (\<exists>d \<in> set ds. is_stopped d))"
    "all_are_force_start h = (all_are_force_start g \<and> (\<forall>d \<in> set ds. is_true d ''force_start''))"
    "there_are_force_start h = (there_are_force_start g \<or> (\<exists>d \<in> set ds. is_true d ''force_start''))"
    "all_are_auto_tmm h = (all_are_auto_tmm g \<and> (\<forall>d \<in> set ds. is_true d ''auto_tmm''))"
    "counts_ok (tagCount g) \<longrightarrow> counts_ok (tagCount h)"
    "\<forall>t. get_count (tagCount h) t = get_count (tagCount g) t + (\<Sum>d \<leftarrow> ds. count_list (row_tags d) t)"
    "counts_ok (categoryCount g) \<longrightarrow> counts_ok (categoryCount h)"
    "\<forall>c. get_count (categoryCount h) c = get_count (categoryCount g) c + count_list (map (\<lambda>d. prop_get d ''category'') ds) c"
    by (elim exE conjE) (rule that; assumption)
  have tags: "counts_ok (tagCount f) \<longrightarrow> counts_ok (tagCount h)"
    "\<forall>t. get_count (tagCount h) t = get_count (tagCount f) t + (\<Sum>d \<leftarrow> d # ds. count_list (row_tags d) t)"
    using h(9,10) by (simp_all add: g(9) count_up_list)
  have cats: "counts_ok (categoryCount f) \<longrightarrow> counts_ok (categoryCount h)"
    "\<forall>c. get_count (categoryCount h) c = get_count (categoryCount f) c + count_list (map (\<lambda>d. prop_get d ''category'') (d # ds)) c"
    using h(11,12) by (simp_all add: g(10))
  have flags:
    "all_are_downloaded h = (all_are_downloaded f \<and> (\<forall>d \<in> set (d # ds). prop_get d ''progress'' = JNum 1))"
    "all_are_super_seeding h = (all_are_super_seeding f \<and> (\<forall>d \<in> set (d # ds). prop_get d ''progress'' = JNum 1 \<longrightarrow> is_true d ''super_seeding''))"
    "all_are_stopped h = (all_are_stopped f \<and> (\<forall>d \<in> set (d # ds). is_stopped d))"
    "there_are_stopped h = (there_are_stopped f \<or> (\<exists>d \<in> set (d # ds). is_stopped d))"
    "all_are_force_start h = (all_are_force_start f \<and> (\<forall>d \<in> set (d # ds). is_true d ''force_start''))"
    "there_are_force_start h = (there_are_force_start f \<or> (\<exists>d \<in> set (d # ds). is_true d ''force_start''))"
    "all_are_auto_tmm h = (all_are_auto_tmm f \<and> (\<forall>d \<in> set (d # ds). is_true d ''auto_tmm''))"
    unfolding h(2-8) g(2-8) by (simp_all only: list.set ball_simps bex_simps insert_iff conj_assoc disj_assoc) 
  have "look_at_data (d # ds) f = Inr h" using g(1) h(1) by simp
  with flags tags cats show ?case by (intro exI [of _ h] conjI) assumption+
qed simp

lemma mark_tags_all:
  "set tags \<subseteq> fst ` set items \<Longrightarrow>
    mark_tags counts n tags items =
      Inr (map (\<lambda>(t, s). (t, if t \<in> set tags then (case map_get counts t of None \<Rightarrow> (False, False) | Some c \<Rightarrow> (c < n, \<not> c < n)) else s)) items)"
proof (induction tags arbitrary: items)
  case (Cons tag tags)
  let ?st = "\<lambda>t. case map_get counts t of None \<Rightarrow> (False, False) | Some c \<Rightarrow> (c < n, \<not> c < n)"
  define items' where "items' = map (\<lambda>(t, s). (t, if t = tag then ?st tag else s)) items"
  have "fst ` set items' = fst ` set items" by (force simp: items'_def)
  with Cons.prems have "set tags \<subseteq> fst ` set items'" by simp
  from Cons.IH [OF this] Cons.prems
  have "mark_tags counts n (tag # tags) items = Inr (map (\<lambda>(t, s). (t, if t \<in> set tags then ?st t else s)) items')"
    by (simp add: items'_def)
  also have "map (\<lambda>(t, s). (t, if t \<in> set tags then ?st t else s)) items' = map (\<lambda>(t, s). (t, if t \<in> set (tag # tags) then ?st t else s)) items"
    unfolding items'_def map_map by (rule map_cong [OF refl]) auto
  finally show ?case .
qed simp

lemma mark_categories_all:
  "set cats \<subseteq> fst ` set items \<Longrightarrow>
    mark_categories counts n cats items = Inr (map (\<lambda>(c, b). (c, if c \<in> set cats then map_get counts (JStr c) = Some n else b)) items)"
proof (induction cats arbitrary: items)
  case (Cons cat cats)
  define items' where "items' = map (\<lambda>(c, b). (c, if c = cat then map_get counts (JStr cat) = Some n else b)) items"
  have "fst ` set items' = fst ` set items" by (force simp: items'_def)
  with Cons.prems have "set cats \<subseteq> fst ` set items'" by simp
  from Cons.IH [OF this] Cons.prems
  have "mark_categories counts n (cat # cats) items = Inr (map (\<lambda>(c, b). (c, if c \<in> set cats then map_get counts (JStr c) = Some n else b)) items')"
    by (simp add: items'_def)
  also have "map (\<lambda>(c, b). (c, if c \<in> set cats then map_get counts (JStr c) = Some n else b)) items'
      = map (\<lambda>(c, b). (c, if c \<in> set (cat # cats) then map_get counts (JStr c) = Some n else b)) items"
    unfolding items'_def map_map by (rule map_cong [OF refl]) (auto split: if_splits)
  finally show ?case .
qed simp

text \<open>How many of the selected rows bear a tag.\<close>

lemma count_once: "distinct ts \<Longrightarrow> count_list ts t = (if t \<in> set ts then 1 else 0)"
  by (induction ts) auto

lemma bearers:
  assumes "\<forall>d \<in> set ds. distinct (row_tags d)"
  shows "(\<Sum>d \<leftarrow> ds. count_list (row_tags d) t) = length (filter (\<lambda>d. t \<in> set (row_tags d)) ds)"
  using assms by (induction ds) (simp_all add: count_once)

lemma all_filtered: "length (filter P xs) = length xs \<longleftrightarrow> (\<forall>x \<in> set xs. P x)"
proof (induction xs)
  case (Cons x xs)
  have "length (filter P xs) \<noteq> Suc (length xs)" using length_filter_le [of P xs] by linarith
  with Cons show ?case by simp
qed simp

lemma map_filter_all: "map g is = map Some ds \<Longrightarrow> List.map_filter g is = ds"
  by (induction "is" arbitrary: ds) (auto simp: List.map_filter_simps Cons_eq_map_conv)

lemma none_filtered: "length (filter P xs) = 0 \<longleftrightarrow> (\<forall>x \<in> set xs. \<not> P x)"
  by (simp add: filter_empty_conv)

lemma tag_marked:
  assumes "counts_ok m" "get_count m tag = (\<Sum>d \<leftarrow> ds. count_list (row_tags d) tag)" "\<forall>d \<in> set ds. distinct (row_tags d)" "ds \<noteq> []"
  shows "(case map_get m tag of None \<Rightarrow> (False, False) | Some c \<Rightarrow> (c < length ds, \<not> c < length ds)) =
    ((\<exists>d \<in> set ds. tag \<in> set (row_tags d)) \<and> (\<exists>d \<in> set ds. tag \<notin> set (row_tags d)), \<forall>d \<in> set ds. tag \<in> set (row_tags d))"
proof -
  define c where "c = length (filter (\<lambda>d. tag \<in> set (row_tags d)) ds)"
  have "get_count m tag = c" using bearers [of ds tag] assms(2,3) by (simp add: c_def)
  moreover have "c = 0 \<longleftrightarrow> (\<forall>d \<in> set ds. tag \<notin> set (row_tags d))" unfolding c_def by (rule none_filtered)
  moreover have "c = length ds \<longleftrightarrow> (\<forall>d \<in> set ds. tag \<in> set (row_tags d))" unfolding c_def by (rule all_filtered)
  moreover have "c \<le> length ds" by (simp add: c_def)
  ultimately show ?thesis unfolding counts_ok_get [OF assms(1)] using assms(4) by (auto simp: le_less)
qed

lemma category_marked:
  assumes "counts_ok m" "get_count m (JStr c) = count_list (map (\<lambda>d. prop_get d ''category'') ds) (JStr c)" "ds \<noteq> []"
  shows "map_get m (JStr c) = Some (length ds) \<longleftrightarrow> (\<forall>d \<in> set ds. prop_get d ''category'' = JStr c)"
proof -
  have "get_count m (JStr c) = length (filter (\<lambda>d. prop_get d ''category'' = JStr c) ds)"
    by (simp add: assms(2) count_list_eq_length_filter filter_map comp_def eq_commute [of "JStr c"])
  then have "map_get m (JStr c) = Some (length ds) \<longleftrightarrow> length (filter (\<lambda>d. prop_get d ''category'' = JStr c) ds) = length ds"
    unfolding counts_ok_get [OF assms(1)] using assms(3) by auto
  then show ?thesis by (simp only: all_filtered)
qed

lemma start_items_shown:
  assumes "all_are_stopped f = (\<forall>d \<in> set ds. is_stopped d)" "there_are_stopped f = (\<exists>d \<in> set ds. is_stopped d)"
    "all_are_force_start f = (\<forall>d \<in> set ds. is_true d ''force_start'')" "there_are_force_start f = (\<exists>d \<in> set ds. is_true d ''force_start'')"
    and "ds \<noteq> []"
  shows "mi_hidden (start_items f m ''stop'') \<longleftrightarrow> (\<forall>d \<in> set ds. is_stopped d)"
    and "mi_hidden (start_items f m ''start'') \<longleftrightarrow> (\<forall>d \<in> set ds. \<not> is_stopped d \<and> \<not> is_true d ''force_start'')"
    and "mi_hidden (start_items f m ''forceStart'') \<longleftrightarrow> (\<forall>d \<in> set ds. is_true d ''force_start'') \<and> \<not> (\<forall>d \<in> set ds. is_stopped d)"
proof -
  obtain d where d: "d \<in> set ds" using assms(5) by (cases ds) auto
  show "mi_hidden (start_items f m ''stop'') \<longleftrightarrow> (\<forall>d \<in> set ds. is_stopped d)" by (simp add: start_items_def Let_def assms(1))
  have "mi_hidden (start_items f m ''start'') \<longleftrightarrow>
      \<not> all_are_stopped f \<and> \<not> all_are_force_start f \<and> \<not> there_are_stopped f \<and> \<not> there_are_force_start f" by (simp add: start_items_def Let_def)
  then show "mi_hidden (start_items f m ''start'') \<longleftrightarrow> (\<forall>d \<in> set ds. \<not> is_stopped d \<and> \<not> is_true d ''force_start'')"
    unfolding assms(1-4) using d by blast
  have "mi_hidden (start_items f m ''forceStart'') \<longleftrightarrow> all_are_force_start f \<and> \<not> all_are_stopped f" by (simp add: start_items_def Let_def)
  then show "mi_hidden (start_items f m ''forceStart'') \<longleftrightarrow> (\<forall>d \<in> set ds. is_true d ''force_start'') \<and> \<not> (\<forall>d \<in> set ds. is_stopped d)"
    unfolding assms(1,3) .
qed

lemma rename_item_shown: "mi_hidden (rename_items ds m ''rename'') \<longleftrightarrow> length ds \<noteq> 1"
  by (cases ds rule: remdups_adj.cases) (simp_all add: rename_items_def Let_def)

lemma start_items_others: "x \<notin> {''start'', ''stop'', ''forceStart''} \<Longrightarrow>
    mi_hidden (start_items f m x) = mi_hidden (m x) \<and> mi_checked (start_items f m x) = mi_checked (m x)"
  by (auto simp: start_items_def Let_def)

lemma download_items_seeding:
  "mi_hidden (download_items f m ''superSeeding'') \<longleftrightarrow> \<not> all_are_downloaded f"
  "all_are_downloaded f \<Longrightarrow> mi_checked (download_items f m ''superSeeding'') = all_are_super_seeding f"
  "mi_hidden (download_items f m ''rename'') = mi_hidden (m ''rename'')"
  by (simp_all add: download_items_def Let_def)


definition ex_menu_table :: table where
  "ex_menu_table = \<lparr>tableId = ''torrents'', columns = [],
     rows = [(''h1'', \<lparr>row_id = ''h1'', full_data = [(''tags'', JStr ''a, b''), (''state'', JStr ''stoppedUP''), (''progress'', JNum 1),
               (''category'', JStr ''c'')], delta = []\<rparr>),
             (''h2'', \<lparr>row_id = ''h2'', full_data = [(''tags'', JStr ''b''), (''state'', JStr ''uploading''), (''progress'', JNum 1),
               (''category'', JStr ''c'')], delta = []\<rparr>)],
     selectedRows = [''h1'', ''h2''], sortedColumn = [], reverseSort = ''0'', useVirtualList = False, trs = [], rowHeight = 26,
     renderedHeight = 0, renderedOffset = 0\<rparr>"

definition ex_torrents_menu :: torrents_menu where
  "ex_torrents_menu = updateCategoriesSubMenu (\<lambda>_ _. 0) [''c''] (updateTagsSubMenu (\<lambda>_ _. 0) [''a'', ''b'']
     \<lparr>tm_items = (\<lambda>i. \<lparr>mi_hidden = False, mi_disabled = False, mi_checked = False, mi_separator = False\<rparr>), tm_tags = [], tm_categories = []\<rparr>)"


end
