(* ===== verification/PiecesBar.thy ===== *)
theory PiecesBar
  imports Prelude
begin

text \<open>
  The bars that show which pieces of a torrent are there and how available they are
  (\<open>piecesbar.js\<close>): the width of the canvas, the value of each pixel as a share of the pieces
  it stands for, and the rectangles that are filled. Statuses and availabilities are numbers; sums
  are exact here.
\<close>

section \<open>The base class\<close>

definition MAX_CANVAS_WIDTH :: int where
  "MAX_CANVAS_WIDTH = 4096"

text \<open>Setting the width of a canvas to a negative number gives it the default width.\<close>

definition canvas_width :: "int \<Rightarrow> int" where
  "canvas_width w = (if 0 \<le> w \<and> w \<le> 2147483647 then w else 300)"

definition image_width :: "int \<Rightarrow> nat \<Rightarrow> int \<Rightarrow> nat" where
  "image_width offsetWidth n borderSize =
     nat (canvas_width (min offsetWidth (min (int n) MAX_CANVAS_WIDTH) - 2 * borderSize))"

text \<open>
  The loop over the pixels: a rectangle (start, width, value) for every run of equal values. The
  arguments after the values are the pixels left, the next pixel, the value of the run and where it
  started.
\<close>

fun rect_loop :: "('v \<Rightarrow> 'v \<Rightarrow> bool) \<Rightarrow> (nat \<Rightarrow> 'v) \<Rightarrow> nat \<Rightarrow> nat \<Rightarrow> 'v option \<Rightarrow> nat \<Rightarrow> (nat \<times> nat \<times> 'v) list" where
  "rect_loop eq pixel 0 x lastValue rectangleStart =
     (case lastValue of
        Some v \<Rightarrow> if rectangleStart < x then [(rectangleStart, x - rectangleStart, v)] else []
      | None \<Rightarrow> [])"
| "rect_loop eq pixel (Suc n) x lastValue rectangleStart =
     (let v = pixel x;
          l = (case lastValue of None \<Rightarrow> v | Some l \<Rightarrow> l)
      in if eq l v then rect_loop eq pixel n (Suc x) (Some l) rectangleStart
         else (rectangleStart, x - rectangleStart, l) # rect_loop eq pixel n (Suc x) (Some v) x)"

definition draw :: "('v \<Rightarrow> 'v \<Rightarrow> bool) \<Rightarrow> (rat \<Rightarrow> rat \<Rightarrow> rat \<Rightarrow> 'v) \<Rightarrow> nat \<Rightarrow> nat \<Rightarrow> (nat \<times> nat \<times> 'v) list" where
  "draw eq computePixelValue n imageWidth =
     (let ratio = of_nat n / of_nat imageWidth
      in rect_loop eq (\<lambda>x. computePixelValue (of_nat x * ratio) (of_nat (Suc x) * ratio) ratio) imageWidth 0 None 0)"

text \<open>
  The pieces under a pixel, each with how much of it lies there: the loop both bars have. It counts
  up from the left end of the pixel, which may lie inside a piece.
\<close>

function piece_amounts :: "rat \<Rightarrow> rat \<Rightarrow> rat \<Rightarrow> (nat \<times> rat) list" where
  "piece_amounts piecesFrom piecesTo p =
     (if p < of_int \<lceil>piecesTo\<rceil>
      then (nat \<lfloor>p\<rfloor>, min (of_int \<lfloor>p\<rfloor> + 1) piecesTo - max piecesFrom (of_int \<lfloor>p\<rfloor>)) # piece_amounts piecesFrom piecesTo (p + 1)
      else [])"
  by pat_completeness auto
termination
proof (relation "measure (\<lambda>(_, t, p). nat (\<lceil>t\<rceil> - \<lfloor>p\<rfloor>))")
  fix t p :: rat
  assume "p < of_int \<lceil>t\<rceil>"
  then have "\<lfloor>p\<rfloor> < \<lceil>t\<rceil>" by (simp add: floor_less_iff)
  then show "((f, t, p + 1), (f, t, p)) \<in> measure (\<lambda>(_, t, p). nat (\<lceil>t\<rceil> - \<lfloor>p\<rfloor>))" for f by simp
qed simp

declare piece_amounts.simps [simp del]

definition to_hundredths :: "rat \<Rightarrow> rat" where
  "to_hundredths x = of_int \<lfloor>x * 100 + 1 / 2\<rfloor> / 100"

section \<open>The two bars\<close>

definition status_amount :: "int list \<Rightarrow> int \<Rightarrow> rat \<Rightarrow> rat \<Rightarrow> rat" where
  "status_amount pieces status piecesFrom piecesTo =
     sum_list (map (\<lambda>(i, amount). if i < length pieces \<and> pieces ! i = status then amount else 0) (piece_amounts piecesFrom piecesTo piecesFrom))"

definition STATUS_DOWNLOADING :: int where "STATUS_DOWNLOADING = 1"
definition STATUS_DOWNLOADED :: int where "STATUS_DOWNLOADED = 2"

text \<open>The shares of the pixel that are being downloaded and that are there.\<close>

definition pieces_pixel :: "int list \<Rightarrow> rat \<Rightarrow> rat \<Rightarrow> rat \<Rightarrow> rat \<times> rat" where
  "pieces_pixel pieces piecesFrom piecesTo ratio =
     (let share = (\<lambda>status. min (to_hundredths (status_amount pieces status piecesFrom piecesTo / ratio)) 1)
      in (share STATUS_DOWNLOADING, share STATUS_DOWNLOADED))"

datatype drawing = Nothing | WholeBar | Rectangles "(nat \<times> nat \<times> rat \<times> rat) list"

text \<open>\<open>_refresh\<close> of the bar of pieces while it is in the page.\<close>

definition refresh_pieces :: "int \<Rightarrow> int \<Rightarrow> int list \<Rightarrow> drawing" where
  "refresh_pieces offsetWidth borderSize pieces =
     (let imageWidth = image_width offsetWidth (length pieces) borderSize;
          maxStatus = foldl (\<lambda>m s. if m < s then s else m) 0 pieces;
          minStatus = foldl (\<lambda>m s. case m of None \<Rightarrow> Some s | Some k \<Rightarrow> if s < k then Some s else m) None pieces
      in if imageWidth = 0 then Nothing
         else if maxStatus = 0 then Nothing
         else if minStatus = Some STATUS_DOWNLOADED then WholeBar
         else Rectangles (draw (=) (pieces_pixel pieces) (length pieces) imageWidth))"

text \<open>The availability under a pixel, against the highest one.\<close>

definition availability_pixel :: "rat list \<Rightarrow> rat \<Rightarrow> rat \<Rightarrow> rat \<Rightarrow> rat" where
  "availability_pixel availability piecesFrom piecesTo ratio =
     (let parts = piece_amounts piecesFrom piecesTo piecesFrom;
          totalAvailability = sum_list (map (\<lambda>(i, weight). (if i < length availability then availability ! i else 0) * weight) parts);
          totalWeight = sum_list (map snd parts);
          avgAvailability = (if 0 < totalWeight then totalAvailability / totalWeight else 0)
      in to_hundredths (avgAvailability / foldl max 0 availability))"

definition refresh_availability :: "int \<Rightarrow> int \<Rightarrow> rat list \<Rightarrow> (nat \<times> nat \<times> rat) list" where
  "refresh_availability offsetWidth borderSize availability =
     (let imageWidth = image_width offsetWidth (length availability) borderSize
      in if imageWidth = 0 \<or> foldl max 0 availability = 0 then []
         else draw (=) (availability_pixel availability) (length availability) imageWidth)"

section \<open>Rectangles\<close>

definition tiles :: "nat \<Rightarrow> (nat \<times> nat \<times> 'v) list \<Rightarrow> bool" where
  "tiles start rs \<longleftrightarrow> (\<forall>k < length rs. fst (rs ! k) = start + sum_list (map (fst \<circ> snd) (take k rs)) \<and> 0 < fst (snd (rs ! k)))"

definition painted :: "(nat \<times> nat \<times> 'v) list \<Rightarrow> 'v list" where
  "painted rs = concat (map (\<lambda>(_, w, v). replicate w v) rs)"

lemma tiles_Cons: "tiles start ((s, w, v) # rs) \<longleftrightarrow> s = start \<and> 0 < w \<and> tiles (start + w) rs"
  unfolding tiles_def by (auto simp: less_Suc_eq_0_disj nth_Cons split: nat.splits)

lemma rect_loop_tiles:
  "s < x \<Longrightarrow> tiles s (rect_loop (=) pixel n x (Some v) s)
    \<and> painted (rect_loop (=) pixel n x (Some v) s) = replicate (x - s) v @ map pixel [x..<x + n]
    \<and> successively (\<lambda>r q. snd (snd r) \<noteq> snd (snd q)) (rect_loop (=) pixel n x (Some v) s)
    \<and> rect_loop (=) pixel n x (Some v) s \<noteq> [] \<and> snd (snd (hd (rect_loop (=) pixel n x (Some v) s))) = v"
proof (induction n arbitrary: x v s)
  case 0
  then show ?case by (simp add: tiles_Cons painted_def) (simp add: tiles_def)
next
  case (Suc n)
  have next_pixels: "map pixel [x..<Suc (x + n)] = pixel x # map pixel [Suc x..<Suc (x + n)]" by (simp add: upt_conv_Cons del: upt_Suc)
  show ?case
  proof (cases "v = pixel x")
    case True
    have "replicate (Suc x - s) v = replicate (x - s) v @ [pixel x]"
      using Suc.prems True by (simp add: Suc_diff_le replicate_append_same)
    with Suc.IH [of s "Suc x" v] Suc.prems True show ?thesis by (simp add: Let_def next_pixels del: upt_Suc)
  next
    case False
    with Suc.IH [of x "Suc x" "pixel x"] Suc.prems show ?thesis
      by (auto simp: Let_def tiles_Cons painted_def next_pixels successively_Cons simp del: upt_Suc)
  qed
qed

text \<open>The rectangles cover the pixels from left to right, each with its value, and no two neighbours are alike.\<close>

lemma draw_tiles:
  assumes "0 < w"
  shows "tiles 0 (draw (=) val n w)
    \<and> painted (draw (=) val n w) = map (\<lambda>x. val (of_nat x * (of_nat n / of_nat w)) (of_nat (Suc x) * (of_nat n / of_nat w)) (of_nat n / of_nat w)) [0..<w]
    \<and> successively (\<lambda>r q. snd (snd r) \<noteq> snd (snd q)) (draw (=) val n w)"
proof -
  define pixel where "pixel = (\<lambda>x. val (of_nat x * (of_nat n / of_nat w)) (of_nat (Suc x) * (of_nat n / of_nat w)) (of_nat n / of_nat w))"
  obtain k where k: "w = Suc k" using assms by (cases w) auto
  have "draw (=) val n w = rect_loop (=) pixel k 1 (Some (pixel 0)) 0" by (simp add: draw_def Let_def pixel_def k)
  with rect_loop_tiles [of 0 1 pixel k "pixel 0"] show ?thesis
    unfolding pixel_def [symmetric] by (simp add: k upt_conv_Cons del: upt_Suc)
qed

section \<open>What a pixel shows\<close>

text \<open>The part of the piece \<open>i\<close> that lies left of \<open>t\<close>, and between two points.\<close>

definition part_left :: "nat \<Rightarrow> rat \<Rightarrow> rat" where
  "part_left i t = min 1 (max 0 (t - of_nat i))"

lemma part_left_between:
  assumes "a \<le> b" "a < of_nat i + 1" "of_nat i < b"
  shows "part_left i b - part_left i a = min (of_nat i + 1) b - max a (of_nat i)"
  using assms by (auto simp: part_left_def min_def max_def)

lemma part_left_outside: "a \<le> b \<Longrightarrow> of_nat i + 1 \<le> a \<or> b \<le> of_nat i \<Longrightarrow> part_left i b - part_left i a = 0"
  by (auto simp: part_left_def min_def max_def)

text \<open>The loop visits the pieces that have a part under the pixel, one after the other.\<close>

lemma piece_amounts_visited:
  assumes "0 \<le> a" "a \<le> p" "\<lfloor>p\<rfloor> = int j"
    and step: "p - of_int \<lfloor>p\<rfloor> = a - of_int \<lfloor>a\<rfloor>" and ab: "a \<le> b"
  shows "piece_amounts a b p = map (\<lambda>i. (i, part_left i b - part_left i a)) [j..<nat \<lceil>b\<rceil>]"
  using assms(2-4)
proof (induction "nat \<lceil>b\<rceil> - j" arbitrary: p j)
  case 0
  then have "\<lceil>b\<rceil> \<le> \<lfloor>p\<rfloor>" by simp
  then have "\<not> p < of_int \<lceil>b\<rceil>" by (simp add: le_floor_iff not_less)
  with 0 show ?case by (subst piece_amounts.simps) simp
next
  case (Suc n)
  then have j: "int j < \<lceil>b\<rceil>" by simp
  then have p: "p < of_int \<lceil>b\<rceil>" using Suc.prems(2) by (simp add: less_ceiling_iff flip: floor_less_iff)
  have "piece_amounts a b (p + 1) = map (\<lambda>i. (i, part_left i b - part_left i a)) [Suc j..<nat \<lceil>b\<rceil>]"
    by (rule Suc.hyps(1)) (use Suc in auto)
  moreover have "\<lfloor>a\<rfloor> \<le> int j" using Suc.prems(1,2) floor_mono by metis
  then have "a < of_nat j + 1" by (simp add: floor_le_iff)
  moreover have "of_nat j < b" using j by (simp add: less_ceiling_iff)
  ultimately show ?case
    using p j Suc.prems(2) part_left_between [OF ab, of j]
    by (subst piece_amounts.simps) (simp add: upt_conv_Cons del: upt_Suc)
qed

definition pieces_with :: "int list \<Rightarrow> int \<Rightarrow> nat set" where
  "pieces_with pieces status = {i. i < length pieces \<and> pieces ! i = status}"

text \<open>How much of the pieces with a status lies between two points.\<close>

definition covered :: "int list \<Rightarrow> int \<Rightarrow> rat \<Rightarrow> rat \<Rightarrow> rat" where
  "covered pieces status a b = (\<Sum>i \<in> pieces_with pieces status. part_left i b - part_left i a)"

lemma finite_pieces_with [simp]: "finite (pieces_with pieces status)"
  by (simp add: pieces_with_def)

lemma part_left_mono: "a \<le> b \<Longrightarrow> part_left i a \<le> part_left i b"
  by (auto simp: part_left_def min_def max_def)

lemma status_amount_covered:
  assumes "0 \<le> a" "a \<le> b"
  shows "status_amount pieces status a b = covered pieces status a b"
proof -
  define f where "f = (\<lambda>i. part_left i b - part_left i a)"
  define hit where "hit = (\<lambda>i. i < length pieces \<and> pieces ! i = status)"
  have "\<lfloor>a\<rfloor> = int (nat \<lfloor>a\<rfloor>)" using assms(1) by simp
  from piece_amounts_visited [OF assms(1) order.refl this refl assms(2)]
  have "status_amount pieces status a b = sum_list (map (\<lambda>i. if hit i then f i else 0) [nat \<lfloor>a\<rfloor>..<nat \<lceil>b\<rceil>])"
    by (simp add: status_amount_def comp_def f_def hit_def cong: if_cong)
  also have "\<dots> = (\<Sum>i \<in> {nat \<lfloor>a\<rfloor>..<nat \<lceil>b\<rceil>}. if hit i then f i else 0)"
    by (simp add: interv_sum_list_conv_sum_set_nat)
  also have "\<dots> = (\<Sum>i \<in> {i \<in> {nat \<lfloor>a\<rfloor>..<nat \<lceil>b\<rceil>}. hit i}. f i)" by (rule sum.inter_filter [symmetric]) simp
  also have "\<dots> = (\<Sum>i \<in> pieces_with pieces status. f i)"
  proof (rule sum.mono_neutral_left)
    show "\<forall>i \<in> pieces_with pieces status - {i \<in> {nat \<lfloor>a\<rfloor>..<nat \<lceil>b\<rceil>}. hit i}. f i = 0"
    proof
      fix i assume "i \<in> pieces_with pieces status - {i \<in> {nat \<lfloor>a\<rfloor>..<nat \<lceil>b\<rceil>}. hit i}"
      then have "i < nat \<lfloor>a\<rfloor> \<or> nat \<lceil>b\<rceil> \<le> i" by (auto simp: pieces_with_def hit_def)
      then have "int i + 1 \<le> \<lfloor>a\<rfloor> \<or> \<lceil>b\<rceil> \<le> int i" by linarith
      then have "of_nat i + 1 \<le> a \<or> b \<le> of_nat i" by (auto simp: le_floor_iff ceiling_le_iff)
      then show "f i = 0" unfolding f_def by (rule part_left_outside [OF assms(2)])
    qed
  qed (auto simp: pieces_with_def hit_def)
  finally show ?thesis by (simp add: covered_def f_def)
qed

lemma part_left_sum: "0 \<le> t \<Longrightarrow> (\<Sum>i < n. part_left i t) = min t (of_nat n)"
  by (induction n) (auto simp: part_left_def min_def max_def)

lemma covered_bounds:
  assumes "0 \<le> a" "a \<le> b" "b \<le> of_nat (length pieces)"
  shows "0 \<le> covered pieces status a b" "covered pieces status a b \<le> b - a"
proof -
  show "0 \<le> covered pieces status a b"
    unfolding covered_def by (rule sum_nonneg) (simp add: part_left_mono [OF assms(2)])
  have "covered pieces status a b \<le> (\<Sum>i < length pieces. part_left i b - part_left i a)"
    unfolding covered_def by (rule sum_mono2) (auto simp: pieces_with_def part_left_mono [OF assms(2)])
  also have "\<dots> = b - a" using assms by (simp add: sum_subtractf part_left_sum)
  finally show "covered pieces status a b \<le> b - a" .
qed

lemma covered_all:
  assumes "0 \<le> r" and "r * of_nat w = of_nat (length pieces)"
  shows "(\<Sum>x < w. covered pieces status (of_nat x * r) (of_nat (Suc x) * r)) = of_nat (card (pieces_with pieces status))"
proof -
  have "(\<Sum>x < w. covered pieces status (of_nat x * r) (of_nat (Suc x) * r))
    = (\<Sum>i \<in> pieces_with pieces status. \<Sum>x < w. part_left i (of_nat (Suc x) * r) - part_left i (of_nat x * r))"
    unfolding covered_def by (rule sum.swap)
  also have "\<dots> = (\<Sum>i \<in> pieces_with pieces status. part_left i (of_nat w * r) - part_left i (of_nat 0 * r))"
    by (intro sum.cong [OF refl] sum_lessThan_telescope)
  also have "\<dots> = (\<Sum>i \<in> pieces_with pieces status. 1)"
  proof (rule sum.cong)
    fix i assume "i \<in> pieces_with pieces status"
    then have "Suc i \<le> length pieces" by (simp add: pieces_with_def)
    then have "of_nat (Suc i) \<le> (of_nat (length pieces) :: rat)" by (simp only: of_nat_le_iff)
    then show "part_left i (of_nat w * r) - part_left i (of_nat 0 * r) = 1"
      using assms(2) by (simp add: part_left_def mult.commute)
  qed simp
  finally show ?thesis by simp
qed

lemma to_hundredths_near: "\<bar>to_hundredths x - x\<bar> \<le> 1 / 200"
proof -
  have "of_int \<lfloor>x * 100 + 1 / 2\<rfloor> \<le> x * 100 + 1 / 2" "x * 100 + 1 / 2 < of_int \<lfloor>x * 100 + 1 / 2\<rfloor> + 1" by linarith+
  then show ?thesis unfolding to_hundredths_def abs_le_iff by (simp add: field_simps)
qed

lemma to_hundredths_le: "x \<le> 1 \<Longrightarrow> to_hundredths x \<le> 1"
proof -
  assume "x \<le> 1"
  then have "\<lfloor>x * 100 + 1 / 2\<rfloor> < 101" by (simp add: floor_less_iff)
  then have "\<lfloor>x * 100 + 1 / 2\<rfloor> \<le> 100" by simp
  then have "of_int \<lfloor>x * 100 + 1 / 2\<rfloor> \<le> (100 :: rat)" by linarith
  then show ?thesis by (simp add: to_hundredths_def)
qed

text \<open>
  C20: The rectangles of the bar cover its pixels from left to right, neighbours being of different colour.
  A pixel shows, up to half a hundredth, the share of its pieces that is being downloaded and the share
  that is there, parts of pieces included; over all pixels every piece is counted exactly
  once.
\<close>

theorem bar_shows_pieces:
  assumes "refresh_pieces offsetWidth borderSize pieces = Rectangles rs"
    and "w = image_width offsetWidth (length pieces) borderSize" and "r = of_nat (length pieces) / of_nat w"
  shows "tiles 0 rs \<and> successively (\<lambda>p q. snd (snd p) \<noteq> snd (snd q)) rs \<and> length (painted rs) = w
    \<and> (\<forall>x < w. \<bar>fst (painted rs ! x) - covered pieces STATUS_DOWNLOADING (of_nat x * r) (of_nat (Suc x) * r) / r\<bar> \<le> 1 / 200
           \<and> \<bar>snd (painted rs ! x) - covered pieces STATUS_DOWNLOADED (of_nat x * r) (of_nat (Suc x) * r) / r\<bar> \<le> 1 / 200)
    \<and> (\<forall>status. (\<Sum>x < w. covered pieces status (of_nat x * r) (of_nat (Suc x) * r)) = of_nat (card (pieces_with pieces status)))"
proof -
  have w: "0 < w" and rs: "rs = draw (=) (pieces_pixel pieces) (length pieces) w"
    using assms(1,2) by (auto simp: refresh_pieces_def Let_def split: if_splits)
  have "pieces \<noteq> []" using assms(1) by (auto simp: refresh_pieces_def Let_def split: if_splits)
  then have r: "0 < r" "r * of_nat w = of_nat (length pieces)" using w by (simp_all add: assms(3))
  note tiled = draw_tiles [OF w, of "pieces_pixel pieces" "length pieces", folded rs assms(3)]
  have near: "\<bar>min (to_hundredths (status_amount pieces status (of_nat x * r) (of_nat (Suc x) * r) / r)) 1
      - covered pieces status (of_nat x * r) (of_nat (Suc x) * r) / r\<bar> \<le> 1 / 200" if "x < w" for x status
  proof -
    have ab: "0 \<le> of_nat x * r" "of_nat x * r \<le> of_nat (Suc x) * r" using r(1) by (simp_all add: mult_right_mono)
    have "of_nat (Suc x) \<le> (of_nat w :: rat)" using that by (simp only: of_nat_le_iff Suc_le_eq)
    then have "of_nat (Suc x) * r \<le> of_nat w * r" using r(1) by (simp only: mult_right_mono less_imp_le)
    then have b: "of_nat (Suc x) * r \<le> of_nat (length pieces)" using r(2) by (simp add: mult.commute)
    from covered_bounds(2) [OF ab b, of status] have "covered pieces status (of_nat x * r) (of_nat (Suc x) * r) / r \<le> 1"
      using r(1) by (simp add: field_simps)
    with to_hundredths_near [of "covered pieces status (of_nat x * r) (of_nat (Suc x) * r) / r"] to_hundredths_le status_amount_covered [OF ab]
    show ?thesis by (simp add: min_absorb1)
  qed
  have "length (painted rs) = w" using tiled by simp
  moreover have "painted rs ! x = pieces_pixel pieces (of_nat x * r) (of_nat (Suc x) * r) r" if "x < w" for x
    using tiled that by simp
  ultimately show ?thesis
    using tiled near covered_all [OF less_imp_le [OF r(1)] r(2)] by (simp add: pieces_pixel_def Let_def del: of_nat_Suc)
qed

text \<open>A torrent of two pieces has a canvas of no width: nothing is drawn, whatever is downloaded.\<close>

lemma two_pieces_never_shown: "refresh_pieces offsetWidth 1 [s, t] = Nothing" if "2 \<le> offsetWidth"
  using that by (simp add: refresh_pieces_def image_width_def canvas_width_def MAX_CANVAS_WIDTH_def Let_def)

theorem bar_shows_pieces_witness:
  "refresh_pieces 5 1 [2, 1, 2, 0, 2] = Rectangles [(0, 1, 2 / 5, 3 / 5), (1, 1, 1 / 5, 3 / 5), (2, 1, 0, 3 / 5)]
   \<and> (\<Sum>x < 3. covered [2, 1, 2, 0, 2] 2 (of_nat x * (5 / 3)) (of_nat (Suc x) * (5 / 3))) = 3"
proof -
  have rs: "refresh_pieces 5 1 [2, 1, 2, 0, 2] = Rectangles [(0, 1, 2 / 5, 3 / 5), (1, 1, 1 / 5, 3 / 5), (2, 1, 0, 3 / 5)]"
    by code_simp
  have w: "3 = image_width 5 (length [2, 1, 2, 0, 2 :: int]) 1" by code_simp
  have "{i. i < 5 \<and> [2, 1, 2, 0, 2 :: int] ! i = 2} = {0, 2, 4}" by (auto simp: nth_Cons' split: if_splits)
  moreover have "length [2, 1, 2, 0, 2 :: int] = 5" by simp
  ultimately have "card (pieces_with [2, 1, 2, 0, 2] 2) = 3" by (simp only: pieces_with_def) simp
  with bar_shows_pieces [OF rs w refl] rs show ?thesis by simp
qed

end
