(* ===== verification/AddTorrent.thy ===== *)
theory AddTorrent
  imports JsMisc
begin

text \<open>
  The dialog that adds torrents (\<open>addtorrent.js\<close>): the paths it shows for the chosen category and mode of
  management, the free space, the loading of the metadata, and the requests that the form is sent as, with
  how the server reads their list of URLs (\<open>torrentscontroller.cpp\<close>).
\<close>

section \<open>The form\<close>

text \<open>The paths of a category as the server sent them; the download path is null, false or a text.\<close>

record category_paths =
  cp_savePath :: string
  cp_downloadPath :: jsval

record add_form =
  af_defaultSavePath :: string
  af_defaultTempPath :: string
  af_defaultTempPathEnabled :: bool
  af_autoTMM :: bool
  af_categorySelect :: string
  af_categoryHidden :: bool
  af_category :: string
  af_savepath :: string
  af_savepathDisabled :: bool
  af_useDownloadPath :: bool
  af_useDownloadPathDisabled :: bool
  af_hiddenDisabled :: bool
  af_downloadPath :: string
  af_downloadPathDisabled :: bool
  af_freeSpaceRequests :: "string list"
  af_freeSpace :: "rat option"
  af_torrentSize :: "rat option"
  af_diskInfo :: "string \<times> bool"

definition OTHER :: string where
  "OTHER = CHR 92 # ''other''"

definition or_default :: "string \<Rightarrow> string \<Rightarrow> string" where
  "or_default s d = (if s = [] then d else s)"

definition categorySavePath :: "(string, category_paths) jsmap \<Rightarrow> string \<Rightarrow> string \<Rightarrow> string" where
  "categorySavePath cats defaultSavePath categoryName =
     (case map_get cats categoryName of
        None \<Rightarrow> defaultSavePath
      | Some c \<Rightarrow> or_default (cp_savePath c) (defaultSavePath @ ''/'' @ categoryName))"

definition categoryDownloadPath :: "(string, category_paths) jsmap \<Rightarrow> string \<Rightarrow> string \<Rightarrow> string" where
  "categoryDownloadPath cats defaultTempPath categoryName =
     (case map_get cats categoryName of
        None \<Rightarrow> defaultTempPath
      | Some c \<Rightarrow>
          (case cp_downloadPath c of
             JBool False \<Rightarrow> []
           | JBool True \<Rightarrow> ''true''
           | JStr s \<Rightarrow> or_default s (defaultTempPath @ ''/'' @ categoryName)
           | _ \<Rightarrow> defaultTempPath @ ''/'' @ categoryName))"

definition categoryDownloadPathEnabled :: "(string, category_paths) jsmap \<Rightarrow> bool \<Rightarrow> string \<Rightarrow> bool" where
  "categoryDownloadPathEnabled cats defaultTempPathEnabled categoryName =
     (case map_get cats categoryName of
        None \<Rightarrow> defaultTempPathEnabled
      | Some c \<Rightarrow> if cp_downloadPath c = JNull then defaultTempPathEnabled else cp_downloadPath c \<noteq> JBool False)"

definition changeUseDownloadPath :: "(string, category_paths) jsmap \<Rightarrow> bool \<Rightarrow> add_form \<Rightarrow> add_form" where
  "changeUseDownloadPath cats enabled f =
     (if af_autoTMM f
      then f\<lparr>af_downloadPath := (if enabled then categoryDownloadPath cats (af_defaultTempPath f) (af_categorySelect f) else []), af_downloadPathDisabled := True\<rparr>
      else f\<lparr>af_downloadPath := (if enabled then af_defaultTempPath f else []), af_downloadPathDisabled := \<not> enabled\<rparr>)"

text \<open>Asking the server for the free space at a path; the answers come when they come.\<close>

definition showFreeSpace :: "string \<Rightarrow> add_form \<Rightarrow> add_form" where
  "showFreeSpace path f = (if path = [] then f else f\<lparr>af_freeSpaceRequests := af_freeSpaceRequests f @ [path]\<rparr>)"

definition updateDiskInfo :: "add_form \<Rightarrow> add_form" where
  "updateDiskInfo f =
     (case af_freeSpace f of
        None \<Rightarrow> f
      | Some freeSpaceBytes \<Rightarrow>
          (let free = friendlyUnit (Some freeSpaceBytes) False
           in case af_torrentSize f of
                None \<Rightarrow> f\<lparr>af_diskInfo := (js_replace ''%1'' free ''%1 free'', False)\<rparr>
              | Some torrentSizeBytes \<Rightarrow>
                  f\<lparr>af_diskInfo := (js_replace ''%2'' free (js_replace ''%1'' (friendlyUnit (Some torrentSizeBytes) False) ''%1 needed, %2 free''),
                      \<not> torrentSizeBytes \<le> freeSpaceBytes)\<rparr>))"

definition freeSpaceAnswered :: "rat \<Rightarrow> add_form \<Rightarrow> add_form" where
  "freeSpaceAnswered n f = updateDiskInfo (f\<lparr>af_freeSpace := Some n\<rparr>)"

text \<open>The user picks another category; the first entry of the list lets him write one.\<close>

definition changeCategorySelect :: "(string, category_paths) jsmap \<Rightarrow> string \<Rightarrow> add_form \<Rightarrow> add_form" where
  "changeCategorySelect cats categoryName f =
     (let f = f\<lparr>af_categorySelect := categoryName\<rparr>;
          f = (if categoryName = OTHER then f\<lparr>af_categoryHidden := False, af_category := []\<rparr>
               else f\<lparr>af_categoryHidden := True, af_category := categoryName\<rparr>)
      in if af_autoTMM f
         then let path = (if categoryName = OTHER then af_defaultSavePath f else categorySavePath cats (af_defaultSavePath f) categoryName);
                  f = showFreeSpace path (f\<lparr>af_savepath := path\<rparr>);
                  downloadPathEnabled = categoryDownloadPathEnabled cats (af_defaultTempPathEnabled f) categoryName
              in changeUseDownloadPath cats downloadPathEnabled (f\<lparr>af_useDownloadPath := downloadPathEnabled\<rparr>)
         else f)"

definition changeTMM :: "(string, category_paths) jsmap \<Rightarrow> add_form \<Rightarrow> add_form" where
  "changeTMM cats f =
     (let autoTMMEnabled = af_autoTMM f;
          f = (if autoTMMEnabled
               then f\<lparr>af_savepath := categorySavePath cats (af_defaultSavePath f) (af_categorySelect f),
                      af_useDownloadPath := categoryDownloadPathEnabled cats (af_defaultTempPathEnabled f) (af_categorySelect f)\<rparr>
               else f\<lparr>af_savepath := af_defaultSavePath f, af_useDownloadPath := af_defaultTempPathEnabled f\<rparr>);
          f = showFreeSpace (af_savepath f) f;
          f = f\<lparr>af_savepathDisabled := autoTMMEnabled, af_useDownloadPathDisabled := autoTMMEnabled, af_hiddenDisabled := autoTMMEnabled\<rparr>
      in changeUseDownloadPath cats (af_useDownloadPath f) f)"

text \<open>\<open>getPreferences\<close> and \<open>getCategories\<close> on the form as the page has it.\<close>

record add_preferences =
  pf_save_path :: string
  pf_temp_path :: string
  pf_temp_path_enabled :: bool
  pf_auto_tmm_enabled :: bool

definition getPreferences :: "(string, category_paths) jsmap \<Rightarrow> add_preferences \<Rightarrow> add_form \<Rightarrow> add_form" where
  "getPreferences cats pref f =
     (let f = f\<lparr>af_defaultSavePath := pf_save_path pref, af_defaultTempPath := pf_temp_path pref,
                af_defaultTempPathEnabled := pf_temp_path_enabled pref, af_autoTMM := pf_auto_tmm_enabled pref\<rparr>
      in changeTMM cats (if pf_auto_tmm_enabled pref then f\<lparr>af_savepathDisabled := True\<rparr> else f))"

definition getCategories :: "(string, category_paths) jsmap \<Rightarrow> string \<Rightarrow> add_form \<Rightarrow> add_form" where
  "getCategories cats defaultCategory f =
     (if defaultCategory = [] then f
      else changeCategorySelect cats (if map_has cats defaultCategory then defaultCategory else af_categorySelect f) f)"

text \<open>What the user does; the browser keeps him off disabled fields.\<close>

datatype form_event =
    PickCategory string
  | PickMode bool
  | TypeSavePath string
  | TypeDownloadPath string
  | TickDownloadPath bool
  | FreeSpace rat

definition form_step :: "(string, category_paths) jsmap \<Rightarrow> form_event \<Rightarrow> add_form \<Rightarrow> add_form" where
  "form_step cats e f =
     (case e of
        PickCategory c \<Rightarrow> if c = OTHER \<or> map_has cats c then changeCategorySelect cats c f else f
      | PickMode auto \<Rightarrow> changeTMM cats (f\<lparr>af_autoTMM := auto\<rparr>)
      | TypeSavePath s \<Rightarrow> if af_savepathDisabled f then f else showFreeSpace s (f\<lparr>af_savepath := s\<rparr>)
      | TypeDownloadPath s \<Rightarrow> if af_downloadPathDisabled f then f else f\<lparr>af_downloadPath := s\<rparr>
      | TickDownloadPath b \<Rightarrow> if af_useDownloadPathDisabled f then f else changeUseDownloadPath cats b (f\<lparr>af_useDownloadPath := b\<rparr>)
      | FreeSpace n \<Rightarrow> freeSpaceAnswered n f)"

text \<open>The fields about paths that the browser sends: those that are not disabled.\<close>

definition sent_paths :: "add_form \<Rightarrow> (string \<times> string) list" where
  "sent_paths f =
     (''autoTMM'', if af_autoTMM f then ''true'' else ''false'')
     # (if af_savepathDisabled f then [] else [(''savepath'', af_savepath f)])
     @ (if af_hiddenDisabled f then [] else [(''useDownloadPath'', if af_useDownloadPath f then ''true'' else ''false'')])
     @ (if af_downloadPathDisabled f then [] else [(''downloadPath'', af_downloadPath f)])"

section \<open>The requests\<close>

record url_entry =
  ue_url :: string
  ue_engine :: string

definition url_entries :: "string \<Rightarrow> string list \<Rightarrow> url_entry list" where
  "url_entries source engines =
     (if source = [] then []
      else map (\<lambda>(i, url). \<lparr>ue_url = url, ue_engine = (if i < length engines then engines ! i else [])\<rparr>)
             (enumerate 0 (js_split [CHR 10] source)))"

fun group_urls :: "url_entry list \<Rightarrow> (string, string list) jsmap \<Rightarrow> (string, string list) jsmap" where
  "group_urls [] groups = groups"
| "group_urls (e # es) groups =
     (let groups = (if map_has groups (ue_engine e) then groups else map_set (ue_engine e) [] groups)
      in group_urls es (map_set (ue_engine e) (the (map_get groups (ue_engine e)) @ [ue_url e]) groups))"

text \<open>One request for each engine: its URLs, and the engine when there is one.\<close>

record add_request =
  ar_urls :: string
  ar_downloader :: "string option"

definition add_requests :: "url_entry list \<Rightarrow> add_request list" where
  "add_requests es =
     map (\<lambda>(engine, urls). \<lparr>ar_urls = js_join [CHR 10] urls, ar_downloader = (if engine \<noteq> [] then Some engine else None)\<rparr>) (group_urls es [])"

text \<open>The priorities of the files in the order of their ids.\<close>

definition file_priorities :: "(bool \<times> nat \<times> int) list \<Rightarrow> int list" where
  "file_priorities nodes =
     map (snd \<circ> snd) (js_sort (\<lambda>(_, i, _) (_, j, _). int i - int j) (filter (\<lambda>(isFolder, _). \<not> isFolder) nodes))"

text \<open>How the server takes the URLs of a request: trimmed, and without the empty ones.\<close>

definition urls_added :: "string \<Rightarrow> string list" where
  "urls_added urls = filter (\<lambda>u. u \<noteq> []) (map js_trim (filter (\<lambda>u. u \<noteq> []) (js_split [CHR 10] urls)))"

section \<open>Loading the metadata\<close>

datatype metadata_state = MetadataLoading | MetadataWaiting | MetadataCompleted | MetadataFailed

datatype metadata_reply = MetadataStatus nat | MetadataNoAnswer

definition metadata_step :: "metadata_reply \<Rightarrow> metadata_state" where
  "metadata_step reply =
     (case reply of
        MetadataNoAnswer \<Rightarrow> MetadataWaiting
      | MetadataStatus n \<Rightarrow>
          if \<not> (200 \<le> n \<and> n < 300) then MetadataFailed else if n = 200 then MetadataCompleted else MetadataWaiting)"

section \<open>What the form shows and sends\<close>

definition form_ok :: "(string, category_paths) jsmap \<Rightarrow> add_form \<Rightarrow> bool" where
  "form_ok cats f \<longleftrightarrow>
     af_savepathDisabled f = af_autoTMM f \<and> af_useDownloadPathDisabled f = af_autoTMM f \<and> af_hiddenDisabled f = af_autoTMM f \<and>
     (af_categorySelect f = OTHER \<or> map_has cats (af_categorySelect f)) \<and>
     (af_autoTMM f \<longrightarrow> af_savepath f = categorySavePath cats (af_defaultSavePath f) (af_categorySelect f)
        \<and> af_useDownloadPath f = categoryDownloadPathEnabled cats (af_defaultTempPathEnabled f) (af_categorySelect f)
        \<and> af_downloadPath f = (if af_useDownloadPath f then categoryDownloadPath cats (af_defaultTempPath f) (af_categorySelect f) else [])
        \<and> af_downloadPathDisabled f) \<and>
     (\<not> af_autoTMM f \<longrightarrow> af_downloadPathDisabled f = (\<not> af_useDownloadPath f) \<and> (\<not> af_useDownloadPath f \<longrightarrow> af_downloadPath f = []))"

lemma showFreeSpace_keeps [simp]:
  "af_autoTMM (showFreeSpace p f) = af_autoTMM f" "af_categorySelect (showFreeSpace p f) = af_categorySelect f"
  "af_savepath (showFreeSpace p f) = af_savepath f" "af_savepathDisabled (showFreeSpace p f) = af_savepathDisabled f"
  "af_useDownloadPath (showFreeSpace p f) = af_useDownloadPath f" "af_useDownloadPathDisabled (showFreeSpace p f) = af_useDownloadPathDisabled f"
  "af_hiddenDisabled (showFreeSpace p f) = af_hiddenDisabled f" "af_downloadPath (showFreeSpace p f) = af_downloadPath f"
  "af_downloadPathDisabled (showFreeSpace p f) = af_downloadPathDisabled f" "af_defaultSavePath (showFreeSpace p f) = af_defaultSavePath f"
  "af_defaultTempPath (showFreeSpace p f) = af_defaultTempPath f" "af_defaultTempPathEnabled (showFreeSpace p f) = af_defaultTempPathEnabled f"
  by (simp_all add: showFreeSpace_def)

lemma changeUseDownloadPath_keeps [simp]:
  "af_autoTMM (changeUseDownloadPath cats b f) = af_autoTMM f" "af_categorySelect (changeUseDownloadPath cats b f) = af_categorySelect f"
  "af_savepath (changeUseDownloadPath cats b f) = af_savepath f" "af_savepathDisabled (changeUseDownloadPath cats b f) = af_savepathDisabled f"
  "af_useDownloadPath (changeUseDownloadPath cats b f) = af_useDownloadPath f"
  "af_useDownloadPathDisabled (changeUseDownloadPath cats b f) = af_useDownloadPathDisabled f"
  "af_hiddenDisabled (changeUseDownloadPath cats b f) = af_hiddenDisabled f" "af_defaultSavePath (changeUseDownloadPath cats b f) = af_defaultSavePath f"
  "af_defaultTempPath (changeUseDownloadPath cats b f) = af_defaultTempPath f"
  "af_defaultTempPathEnabled (changeUseDownloadPath cats b f) = af_defaultTempPathEnabled f"
  "af_downloadPath (changeUseDownloadPath cats b f) =
     (if b then if af_autoTMM f then categoryDownloadPath cats (af_defaultTempPath f) (af_categorySelect f) else af_defaultTempPath f else [])"
  "af_downloadPathDisabled (changeUseDownloadPath cats b f) \<longleftrightarrow> af_autoTMM f \<or> \<not> b"
  by (simp_all add: changeUseDownloadPath_def)

lemma changeTMM_ok: "af_categorySelect f = OTHER \<or> map_has cats (af_categorySelect f) \<Longrightarrow> form_ok cats (changeTMM cats f)"
  by (cases "af_autoTMM f") (simp_all add: form_ok_def changeTMM_def Let_def)

lemma changeCategorySelect_ok:
  assumes "\<not> map_has cats OTHER" "c = OTHER \<or> map_has cats c" "form_ok cats f"
  shows "form_ok cats (changeCategorySelect cats c f)"
proof -
  have "categorySavePath cats d OTHER = d" for d using assms(1) by (simp add: map_has_get categorySavePath_def)
  with assms(2,3) show ?thesis
    by (cases "af_autoTMM f"; cases "c = OTHER") (simp_all add: form_ok_def changeCategorySelect_def Let_def)
qed

lemma freeSpaceAnswered_info: "\<exists>d. freeSpaceAnswered n f = f\<lparr>af_freeSpace := Some n, af_diskInfo := d\<rparr>"
proof -
  have fields: "af_freeSpace (f\<lparr>af_freeSpace := Some n\<rparr>) = Some n" "af_torrentSize (f\<lparr>af_freeSpace := Some n\<rparr>) = af_torrentSize f" by simp_all
  show ?thesis
    unfolding freeSpaceAnswered_def updateDiskInfo_def Let_def
    by (cases "af_torrentSize f") (simp_all only: fields option.case, (rule exI, rule refl)+)
qed

lemma form_step_ok: "\<not> map_has cats OTHER \<Longrightarrow> form_ok cats f \<Longrightarrow> form_ok cats (form_step cats e f)"
proof (cases e)
  case (PickMode auto)
  assume "form_ok cats f"
  then have "af_categorySelect f = OTHER \<or> map_has cats (af_categorySelect f)" unfolding form_ok_def by blast
  with PickMode show ?thesis by (simp add: form_step_def changeTMM_ok)
next
  case (FreeSpace n)
  assume ok: "form_ok cats f"
  obtain d where "freeSpaceAnswered n f = f\<lparr>af_freeSpace := Some n, af_diskInfo := d\<rparr>" using freeSpaceAnswered_info [of n f] by blast
  with ok FreeSpace show ?thesis by (simp add: form_step_def form_ok_def)
next
  case (PickCategory c)
  assume "\<not> map_has cats OTHER" "form_ok cats f"
  with PickCategory show ?thesis by (simp add: form_step_def changeCategorySelect_ok)
qed (cases "af_autoTMM f"; simp add: form_step_def form_ok_def)+

text \<open>
  C21: Whatever the user picks, ticks and types: in automatic mode the dialog shows the save path and the download
  path of the category picked, all fields about paths are disabled and none of them is sent; in manual mode
  the save path is sent, and a download path exactly when one is to be used.
\<close>

theorem add_form_consistent:
  assumes "\<not> map_has cats OTHER" and "af_categorySelect f0 = OTHER"
    and "f = foldl (\<lambda>f e. form_step cats e f) (getCategories cats d (getPreferences cats pref f0)) events"
  shows "form_ok cats f
    \<and> sent_paths f = (if af_autoTMM f then [(''autoTMM'', ''true'')]
        else (''autoTMM'', ''false'') # (''savepath'', af_savepath f) # (''useDownloadPath'', if af_useDownloadPath f then ''true'' else ''false'')
             # (if af_useDownloadPath f then [(''downloadPath'', af_downloadPath f)] else []))"
proof -
  have select: "af_categorySelect (getPreferences cats pref f0) = OTHER"
    using assms(2) by (simp add: getPreferences_def changeTMM_def Let_def)
  have "form_ok cats (getPreferences cats pref f0)"
    using assms(2) by (auto simp: getPreferences_def Let_def intro: changeTMM_ok)
  with changeCategorySelect_ok [OF assms(1)] select have "form_ok cats (getCategories cats d (getPreferences cats pref f0))"
    by (simp add: getCategories_def)
  then have "form_ok cats f" unfolding assms(3) by (induction events rule: rev_induct) (simp_all add: form_step_ok assms(1))
  then show ?thesis by (auto simp: sent_paths_def form_ok_def)
qed

definition ex_form :: add_form where
  "ex_form = \<lparr>af_defaultSavePath = [], af_defaultTempPath = [], af_defaultTempPathEnabled = False, af_autoTMM = False,
     af_categorySelect = OTHER, af_categoryHidden = False, af_category = [], af_savepath = [], af_savepathDisabled = False,
     af_useDownloadPath = False, af_useDownloadPathDisabled = False, af_hiddenDisabled = False, af_downloadPath = [],
     af_downloadPathDisabled = True, af_freeSpaceRequests = [], af_freeSpace = None, af_torrentSize = None, af_diskInfo = ([], False)\<rparr>"

definition ex_categories :: "(string, category_paths) jsmap" where
  "ex_categories = [(''tv'', \<lparr>cp_savePath = [], cp_downloadPath = JNull\<rparr>)]"

definition ex_preferences :: add_preferences where
  "ex_preferences = \<lparr>pf_save_path = ''/s'', pf_temp_path = ''/t'', pf_temp_path_enabled = True, pf_auto_tmm_enabled = True\<rparr>"

definition ex_filled :: add_form where
  "ex_filled = foldl (\<lambda>f e. form_step ex_categories e f) (getCategories ex_categories [] (getPreferences ex_categories ex_preferences ex_form)) [PickCategory ''tv'']"

theorem add_form_consistent_witness:
  "form_ok ex_categories ex_filled \<and> sent_paths ex_filled = [(''autoTMM'', ''true'')] \<and> af_savepath ex_filled = ''/s/tv''
    \<and> af_downloadPath ex_filled = ''/t/tv''"
proof -
  have "\<not> map_has ex_categories OTHER" "af_categorySelect ex_form = OTHER" by code_simp+
  from add_form_consistent [OF this, of ex_filled "[]" ex_preferences "[PickCategory ''tv'']"]
  have "form_ok ex_categories ex_filled \<and> (af_autoTMM ex_filled \<longrightarrow> sent_paths ex_filled = [(''autoTMM'', ''true'')])"
    by (simp add: ex_filled_def)
  moreover have "af_autoTMM ex_filled" "af_savepath ex_filled = ''/s/tv''" "af_downloadPath ex_filled = ''/t/tv''" by code_simp+
  ultimately show ?thesis by simp
qed

text \<open>
  The answers about free space are not told apart: when the one for a path typed earlier comes last,
  the dialog shows its space for the path typed now. Here the first number is for \<open>/s\<close> and the second for \<open>/x\<close>.
\<close>

lemma late_free_space_shown:
  "af_freeSpaceRequests (form_step [] (TypeSavePath ''/x'') (changeTMM [] (ex_form\<lparr>af_defaultSavePath := ''/s''\<rparr>))) = [''/s'', ''/x'']"
  "fst (af_diskInfo (form_step [] (FreeSpace 5) (form_step [] (FreeSpace 9)
     (form_step [] (TypeSavePath ''/x'') (changeTMM [] (ex_form\<lparr>af_defaultSavePath := ''/s''\<rparr>)))))) = ''5 B free''"
  by code_simp+

section \<open>No URL is lost\<close>

lemma group_urls_get:
  "map_get (group_urls es groups) d =
     (let us = map ue_url (filter (\<lambda>e. ue_engine e = d) es)
      in case map_get groups d of Some vs \<Rightarrow> Some (vs @ us) | None \<Rightarrow> if us = [] then None else Some us)"
proof (induction es arbitrary: groups)
  case (Cons e es)
  show ?case
  proof (cases "map_get groups (ue_engine e)")
    case None
    then show ?thesis using Cons by (auto simp: Let_def map_has_get split: option.splits)
  next
    case (Some vs)
    then show ?thesis using Cons by (auto simp: Let_def map_has_get split: option.splits)
  qed
qed (simp add: Let_def split: option.split)

lemma group_urls_distinct: "distinct_keys groups \<Longrightarrow> distinct_keys (group_urls es groups)"
  by (induction es arbitrary: groups) (auto simp: Let_def distinct_update)

lemma concat_of_key:
  "distinct_keys m \<Longrightarrow> concat (map (\<lambda>(k, v). if k = d then g v else []) m) = (case map_get m d of None \<Rightarrow> [] | Some v \<Rightarrow> g v)"
proof (induction m)
  case (Cons kv m)
  obtain k v where kv: "kv = (k, v)" by fastforce
  show ?case
  proof (cases "k = d")
    case True
    with Cons.prems have "map_get m d = None" by (auto simp: kv map_of_eq_None_iff)
    with Cons True show ?thesis by (simp add: kv)
  next
    case False
    with Cons show ?thesis by (simp add: kv)
  qed
qed simp

lemma urls_added_join:
  assumes "us \<noteq> []" "\<forall>u \<in> set us. CHR 10 \<notin> set u"
  shows "urls_added (js_join [CHR 10] us) = filter (\<lambda>u. u \<noteq> []) (map js_trim us)"
proof -
  have "filter (\<lambda>u. u \<noteq> []) (map js_trim (filter (\<lambda>u. u \<noteq> []) us)) = filter (\<lambda>u. u \<noteq> []) (map js_trim us)" for us
    by (induction us) auto
  with js_split_join [OF assms] show ?thesis by (simp add: urls_added_def)
qed

lemma split_free: "x \<in> set (js_split [c] s) \<Longrightarrow> c \<notin> set x"
proof -
  have "c \<notin> set acc \<Longrightarrow> x \<in> set (split_go [c] acc s) \<Longrightarrow> c \<notin> set x" for acc
  proof (induction s arbitrary: acc)
    case (Cons d s)
    have nil: "x \<in> set (split_go [c] [] s) \<Longrightarrow> c \<notin> set x" by (rule Cons.IH) simp_all
    show ?case
    proof (cases "d = c")
      case True
      with Cons.prems(2) have "x = rev acc \<or> x \<in> set (split_go [c] [] s)" by (simp add: split_go_Cons)
      with nil Cons.prems(1) show ?thesis by (metis set_rev)
    next
      case False
      with Cons.prems Cons.IH [of "d # acc"] show ?thesis by (simp add: split_go_Cons)
    qed
  qed simp
  from this [of "[]"] show "x \<in> set (js_split [c] s) \<Longrightarrow> c \<notin> set x" by (simp add: js_split_def)
qed

lemma entries_free: "e \<in> set (url_entries source engines) \<Longrightarrow> CHR 10 \<notin> set (ue_url e)"
  by (auto simp: url_entries_def in_set_enumerate_eq split_free split: if_splits dest!: nth_mem [of _ "js_split _ _"])

definition downloader_of :: "string \<Rightarrow> string option" where
  "downloader_of engine = (if engine \<noteq> [] then Some engine else None)"

lemma downloader_of_inj: "downloader_of k = downloader_of l \<longleftrightarrow> k = l"
  by (simp add: downloader_of_def)

text \<open>
  C22: Sending the form gives one request for each engine, and the server takes from the requests with an engine
  exactly the URLs entered for it, in the order in which they were entered.
\<close>

theorem urls_reach_server:
  "distinct (map ar_downloader (add_requests (url_entries source engines)))
   \<and> concat (map (\<lambda>q. if ar_downloader q = engine then urls_added (ar_urls q) else []) (add_requests (url_entries source engines)))
     = filter (\<lambda>u. u \<noteq> []) (map (js_trim \<circ> ue_url)
         (filter (\<lambda>e. (if ue_engine e \<noteq> [] then Some (ue_engine e) else None) = engine) (url_entries source engines)))"
proof -
  let ?es = "url_entries source engines"
  let ?g = "group_urls ?es []"
  have requests: "add_requests ?es = map (\<lambda>(k, us). \<lparr>ar_urls = js_join [CHR 10] us, ar_downloader = downloader_of k\<rparr>) ?g"
    by (simp add: add_requests_def downloader_of_def)
  have keys: "distinct_keys ?g" by (rule group_urls_distinct) simp
  have "map ar_downloader (add_requests ?es) = map downloader_of (keys ?g)"
    by (simp add: requests case_prod_beta)
  moreover have "distinct (map downloader_of (keys ?g))"
    using keys by (simp add: distinct_map inj_on_def downloader_of_inj)
  moreover have "concat (map (\<lambda>q. if ar_downloader q = engine then urls_added (ar_urls q) else []) (add_requests ?es))
     = filter (\<lambda>u. u \<noteq> []) (map (js_trim \<circ> ue_url) (filter (\<lambda>e. downloader_of (ue_engine e) = engine) ?es))"
  proof (cases "\<exists>k. engine = downloader_of k")
    case True
    then obtain k where k: "engine = downloader_of k" by blast
    define us where "us = map ue_url (filter (\<lambda>e. ue_engine e = k) ?es)"
    have "\<forall>u \<in> set us. CHR 10 \<notin> set u" by (auto simp: us_def entries_free)
    then have us: "us \<noteq> [] \<Longrightarrow> urls_added (js_join [CHR 10] us) = filter (\<lambda>u. u \<noteq> []) (map js_trim us)"
      using urls_added_join [of us] by blast
    have "concat (map (\<lambda>q. if ar_downloader q = engine then urls_added (ar_urls q) else []) (add_requests ?es))
      = concat (map (\<lambda>(l, us). if l = k then urls_added (js_join [CHR 10] us) else []) ?g)"
      by (auto simp: requests k downloader_of_inj intro!: arg_cong [where f = concat] map_cong)
    also have "\<dots> = (case map_get ?g k of None \<Rightarrow> [] | Some us \<Rightarrow> urls_added (js_join [CHR 10] us))"
      by (rule concat_of_key [OF keys])
    also have "\<dots> = filter (\<lambda>u. u \<noteq> []) (map js_trim us)"
      using us group_urls_get [of ?es "[]" k] by (simp add: Let_def us_def)
    finally show ?thesis by (simp add: us_def k downloader_of_inj comp_def)
  next
    case False
    then have "(downloader_of l = engine) = False" for l by metis
    then show ?thesis by (simp add: requests case_prod_beta comp_def)
  qed
  ultimately show ?thesis by (simp add: downloader_of_def)
qed


end
